(* ===== verification/Prelude.thy ===== *)
theory Prelude
  imports Main "HOL-Library.Word" "HOL-Library.AList" "HOL-Library.Multiset"
    "HOL-Library.List_Lexorder" "HOL-Library.Char_ord" "HOL-Library.Sublist"
    "HOL-Library.Code_Target_Nat" "HOL-Library.Option_ord"
begin

text \<open>
  Shared vocabulary of the development.

  \<^item> names for the types that occur everywhere: identifiers (the \<open>int64\<close> types of
    \<open>src/internal/ids/types.go\<close>), instants in time, results with an error;
  \<^item> the named collections the component theories feed;
  \<^item> generic facts on association lists, on the first match in a list, on sorting and on
    intersections that the components share.
\<close>

section \<open>Names of types\<close>

type_synonym id = int
type_synonym time = int

text \<open>A fallible operation returns \<open>Inl\<close> an error or \<open>Inr\<close> a value.\<close>

type_synonym ('e, 'a) result = "'e + 'a"

named_theorems inv_intros \<open>preservation of the invariants of the stores\<close>
named_theorems lookup_simps \<open>what a lookup returns after an update\<close>

section \<open>Results\<close>

fun is_ok :: "('e, 'a) result \<Rightarrow> bool" where
  "is_ok (Inl _) = False"
| "is_ok (Inr _) = True"

lemma is_ok_iff: "is_ok r \<longleftrightarrow> (\<exists>x. r = Inr x)"
  by (cases r) auto

lemma not_is_ok_iff: "\<not> is_ok r \<longleftrightarrow> (\<exists>e. r = Inl e)"
  by (cases r) auto

section \<open>First match in a list\<close>

lemma find_None_iff_ex: "List.find P xs = None \<longleftrightarrow> \<not> (\<exists>x \<in> set xs. P x)"
  by (induction xs) auto

lemma find_SomeD:
  assumes "List.find P xs = Some x"
  shows "x \<in> set xs" and "P x"
  using assms by (induction xs) (auto split: if_splits)

lemma find_filter: "List.find P xs = (case filter P xs of [] \<Rightarrow> None | y # _ \<Rightarrow> Some y)"
  by (induction xs) auto

lemma find_append:
  "List.find P (xs @ ys) = (case List.find P xs of None \<Rightarrow> List.find P ys | Some x \<Rightarrow> Some x)"
  by (induction xs) auto

lemma find_map_eq: "List.find P (map f xs) = map_option f (List.find (\<lambda>x. P (f x)) xs)"
  by (induction xs) auto

lemma find_cong_set:
  assumes "\<And>x. x \<in> set xs \<Longrightarrow> P x = Q x"
  shows "List.find P xs = List.find Q xs"
  using assms by (induction xs) auto

text \<open>If all matching elements of two lists with the same elements agree, the first match is
  the same, whatever the order.\<close>

lemma find_unique:
  assumes "x \<in> set xs" "P x" and "\<And>y. y \<in> set xs \<Longrightarrow> P y \<Longrightarrow> y = x"
  shows "List.find P xs = Some x"
proof (cases "List.find P xs")
  case None
  then show ?thesis using assms(1,2) by (auto simp: find_None_iff_ex)
next
  case (Some y)
  then show ?thesis using assms(3) find_SomeD[OF Some] by simp
qed

text \<open>In a list sorted by a key, the first match has the least key of all matches.\<close>

lemma find_sorted_least:
  assumes "sorted (map f xs)" "List.find P xs = Some x" "y \<in> set xs" "P y"
  shows "f x \<le> f y"
  using assms by (induction xs) (auto split: if_splits)

text \<open>Two sorted permutations of each other have the same first match when matches with equal
  keys are equal.\<close>

lemma find_sorted_perm:
  fixes f :: "'a \<Rightarrow> 'b::linorder"
  assumes "sorted (map f xs)" "sorted (map f ys)" "set xs = set ys"
    and inj: "\<And>x y. x \<in> set xs \<Longrightarrow> y \<in> set xs \<Longrightarrow> P x \<Longrightarrow> P y \<Longrightarrow> f x = f y \<Longrightarrow> x = y"
  shows "List.find P xs = List.find P ys"
proof (cases "List.find P xs")
  case None
  then show ?thesis using assms(3) by (metis find_None_iff_ex)
next
  case (Some x)
  then have x: "x \<in> set xs" "P x" by (auto dest: find_SomeD)
  then obtain y where y: "List.find P ys = Some y"
    using assms(3) by (metis find_None_iff_ex option.exhaust)
  then have "y \<in> set ys" "P y" by (auto dest: find_SomeD)
  moreover from this have "f x \<le> f y" "f y \<le> f x"
    using find_sorted_least assms(1-3) Some y x by metis+
  ultimately have "x = y" using inj x assms(3) by simp
  with Some y show ?thesis by simp
qed

section \<open>Corresponding lists\<close>

lemma list_all2_ex1: "list_all2 P xs ys \<Longrightarrow> x \<in> set xs \<Longrightarrow> \<exists>y \<in> set ys. P x y"
  by (induction rule: list_all2_induct) auto

lemma list_all2_ex2: "list_all2 P xs ys \<Longrightarrow> y \<in> set ys \<Longrightarrow> \<exists>x \<in> set xs. P x y"
  by (induction rule: list_all2_induct) auto

section \<open>Association lists\<close>

lemma map_of_update [simp]: "map_of (AList.update k v al) = (map_of al)(k \<mapsto> v)"
  by (rule AList.update_conv')

lemma distinct_update_keys [simp]:
  "distinct (map fst al) \<Longrightarrow> distinct (map fst (AList.update k v al))"
  by (simp add: AList.distinct_update)

section \<open>Filtering and counting\<close>

lemma filter_map_comp: "filter P (map f xs) = map f (filter (P \<circ> f) xs)"
  by (simp add: filter_map)

lemma sorted_filter_map: "sorted (map f xs) \<Longrightarrow> sorted (map f (filter P xs))"
  by (induction xs) auto

section \<open>Durations\<close>

text \<open>\<open>time.Duration\<close> is a 64-bit count of nanoseconds and its product wraps around.\<close>

definition wrap64 :: "int \<Rightarrow> int" where
  "wrap64 x = (x + 2 ^ 63) mod 2 ^ 64 - 2 ^ 63"

lemma wrap64_id: "- (2 ^ 63) \<le> x \<Longrightarrow> x < 2 ^ 63 \<Longrightarrow> wrap64 x = x"
  by (simp add: wrap64_def)

lemma wrap64_range: "- (2 ^ 63) \<le> wrap64 x \<and> wrap64 x < 2 ^ 63"
  by (simp add: wrap64_def)

end
