(* ===== verification/Go_Strings.thy ===== *)
theory Go_Strings
  imports Prelude
begin

text \<open>
  The part of Go's standard string functions the program calls, on byte strings. A Go string is a
  sequence of bytes, here a list of \<open>char\<close>. \<open>strings.TrimSpace\<close> and \<open>strings.ToLower\<close> are given
  as they act on ASCII bytes; bytes from 128 on are left alone (Go folds the Unicode letters and
  trims the Unicode spaces among them, which is outside this model). Everything else here acts on
  bytes in Go as well.
\<close>

section \<open>Character classes\<close>

definition byte :: "char \<Rightarrow> nat" where
  "byte c = of_char c"

definition isSpace :: "char \<Rightarrow> bool" where
  "isSpace c \<longleftrightarrow> byte c = 32 \<or> (9 \<le> byte c \<and> byte c \<le> 13)"

definition isDigit :: "char \<Rightarrow> bool" where
  "isDigit c \<longleftrightarrow> 48 \<le> byte c \<and> byte c \<le> 57"

definition isLower :: "char \<Rightarrow> bool" where
  "isLower c \<longleftrightarrow> 97 \<le> byte c \<and> byte c \<le> 122"

definition isUpper :: "char \<Rightarrow> bool" where
  "isUpper c \<longleftrightarrow> 65 \<le> byte c \<and> byte c \<le> 90"

definition lowerChar :: "char \<Rightarrow> char" where
  "lowerChar c = (if isUpper c then char_of (byte c + 32) else c)"

lemma byte_lt: "byte c < 256"
  by (simp add: byte_def)

lemma byte_char_of: "n < 256 \<Longrightarrow> byte (char_of n) = n"
  by (simp add: byte_def)

lemma byte_inject: "byte c = byte d \<longleftrightarrow> c = d"
  by (simp add: byte_def)

lemma byte_lowerChar: "byte (lowerChar c) = (if isUpper c then byte c + 32 else byte c)"
  using byte_lt[of c] by (simp add: lowerChar_def byte_char_of isUpper_def)

lemma lowerChar_not_upper [simp]: "\<not> isUpper (lowerChar c)"
  using byte_lowerChar[of c] by (auto simp: isUpper_def split: if_splits)

lemma lowerChar_id [simp]: "\<not> isUpper c \<Longrightarrow> lowerChar c = c"
  by (simp add: lowerChar_def)

lemma isSpace_lowerChar [simp]: "isSpace (lowerChar c) \<longleftrightarrow> isSpace c"
  by (auto simp: isSpace_def byte_lowerChar isUpper_def)

lemma isLower_lowerChar: "isUpper c \<Longrightarrow> isLower (lowerChar c)"
  by (simp add: isLower_def byte_lowerChar) (simp add: isUpper_def)

lemma lowerChar_eq_iff: "\<not> isLower d \<Longrightarrow> \<not> isUpper d \<Longrightarrow> lowerChar c = d \<longleftrightarrow> c = d"
  using isLower_lowerChar[of c] by (cases "isUpper c") auto

lemma byte_literals:
  "byte CHR ''-'' = 45" "byte CHR ''.'' = 46" "byte CHR ''/'' = 47" "byte CHR '':'' = 58"
  "byte CHR ''['' = 91" "byte CHR '']'' = 93"
  by (simp_all add: byte_def)

section \<open>strings.ToLower, strings.TrimSpace, strings.TrimSuffix\<close>

definition ToLower :: "string \<Rightarrow> string" where
  "ToLower s = map lowerChar s"

definition TrimSpace :: "string \<Rightarrow> string" where
  "TrimSpace s = rev (dropWhile isSpace (rev (dropWhile isSpace s)))"

definition TrimSuffixChar :: "char \<Rightarrow> string \<Rightarrow> string" where
  "TrimSuffixChar c s = (if s \<noteq> [] \<and> last s = c then butlast s else s)"

definition trimmed :: "string \<Rightarrow> bool" where
  "trimmed s \<longleftrightarrow> s = [] \<or> (\<not> isSpace (hd s) \<and> \<not> isSpace (last s))"

lemma dropWhile_rev_hd:
  assumes "s \<noteq> []" "\<not> P (hd s)"
  shows "\<exists>t. rev (dropWhile P (rev s)) = hd s # t"
proof -
  obtain x xs where s: "s = x # xs" using assms by (cases s) auto
  have "\<not> P x" using assms s by simp
  then have "dropWhile P (rev xs @ [x]) \<noteq> []" by (simp add: dropWhile_eq_Nil_conv)
  moreover have "dropWhile P (rev xs @ [x]) = dropWhile P (rev xs) @ [x]"
  proof (cases "\<exists>y \<in> set (rev xs). \<not> P y")
    case True
    then show ?thesis by (auto simp: dropWhile_append)
  next
    case False
    then show ?thesis using \<open>\<not> P x\<close> by (auto simp: dropWhile_append dropWhile_eq_Nil_conv)
  qed
  ultimately show ?thesis using s by simp
qed

lemma trimmed_TrimSpace [simp]: "trimmed (TrimSpace s)"
proof (cases "dropWhile isSpace s")
  case Nil
  then have "TrimSpace s = []" by (simp only: TrimSpace_def) simp
  then show ?thesis by (simp add: trimmed_def)
next
  case (Cons a list)
  let ?d = "dropWhile isSpace s"
  have nsp: "\<not> isSpace (hd ?d)" and ne: "?d \<noteq> []" using Cons hd_dropWhile[of isSpace s] by auto
  obtain t where t: "TrimSpace s = hd ?d # t"
    using dropWhile_rev_hd[of ?d isSpace, OF ne nsp] by (auto simp: TrimSpace_def)
  have "dropWhile isSpace (rev ?d) \<noteq> []" using nsp ne
    by (metis dropWhile_eq_Nil_conv hd_in_set set_rev)
  then have "\<not> isSpace (last (TrimSpace s))"
    using hd_dropWhile[of isSpace "rev ?d"] by (simp add: TrimSpace_def last_rev)
  then show ?thesis using t nsp by (simp add: trimmed_def)
qed

lemma TrimSpace_id [simp]:
  assumes "trimmed s"
  shows "TrimSpace s = s"
proof (cases "s = []")
  case True
  then show ?thesis by (simp add: TrimSpace_def)
next
  case False
  then have "dropWhile isSpace s = s" "dropWhile isSpace (rev s) = rev s"
    using assms by (auto simp: trimmed_def dropWhile_eq_self_iff hd_rev)
  then show ?thesis by (simp add: TrimSpace_def)
qed

lemma trimmed_ToLower [simp]: "trimmed (ToLower s) \<longleftrightarrow> trimmed s"
  by (cases s) (auto simp: trimmed_def ToLower_def last_map)

lemma ToLower_ToLower [simp]: "ToLower (ToLower s) = ToLower s"
  by (simp add: ToLower_def)

lemma ToLower_append: "ToLower (s @ t) = ToLower s @ ToLower t"
  by (simp add: ToLower_def)

lemma length_ToLower [simp]: "length (ToLower s) = length s"
  by (simp add: ToLower_def)

lemma ToLower_Nil [simp]: "ToLower s = [] \<longleftrightarrow> s = []"
  by (simp add: ToLower_def)

lemma ToLower_id: "\<forall>c \<in> set s. \<not> isUpper c \<Longrightarrow> ToLower s = s"
  by (simp add: ToLower_def map_idI)

lemma no_upper_ToLower: "c \<in> set (ToLower s) \<Longrightarrow> \<not> isUpper c"
  by (auto simp: ToLower_def)

lemma set_TrimSuffixChar: "set (TrimSuffixChar c s) \<subseteq> set s"
  by (auto simp: TrimSuffixChar_def dest: in_set_butlastD)

section \<open>Searching bytes and splitting\<close>

fun indexByte :: "char \<Rightarrow> string \<Rightarrow> nat option" where
  "indexByte c [] = None"
| "indexByte c (x # xs) = (if x = c then Some 0 else map_option Suc (indexByte c xs))"

fun lastIndexByte :: "char \<Rightarrow> string \<Rightarrow> nat option" where
  "lastIndexByte c [] = None"
| "lastIndexByte c (x # xs) =
    (case lastIndexByte c xs of Some i \<Rightarrow> Some (Suc i) | None \<Rightarrow> if x = c then Some 0 else None)"

lemma indexByte_None: "indexByte c s = None \<longleftrightarrow> c \<notin> set s"
  by (induction s) auto

lemma lastIndexByte_None: "lastIndexByte c s = None \<longleftrightarrow> c \<notin> set s"
  by (induction s) (auto split: option.splits)

lemma indexByte_split: "c \<notin> set xs \<Longrightarrow> indexByte c (xs @ c # ys) = Some (length xs)"
  by (induction xs) auto

lemma lastIndexByte_split: "c \<notin> set ys \<Longrightarrow> lastIndexByte c (xs @ c # ys) = Some (length xs)"
proof (induction xs)
  case Nil
  then show ?case using lastIndexByte_None[of c ys] by simp
qed auto

lemma indexByte_SomeD:
  "indexByte c s = Some i \<Longrightarrow> i < length s \<and> s ! i = c \<and> c \<notin> set (take i s)"
  by (induction s arbitrary: i) (auto split: if_splits)

lemma lastIndexByte_SomeD:
  "lastIndexByte c s = Some i \<Longrightarrow> i < length s \<and> s ! i = c \<and> c \<notin> set (drop (Suc i) s)"
  by (induction s arbitrary: i) (auto split: if_splits option.splits simp: lastIndexByte_None)

fun Split :: "char \<Rightarrow> string \<Rightarrow> string list" where
  "Split c [] = [[]]"
| "Split c (x # xs) = (if x = c then [] # Split c xs
     else (case Split c xs of [] \<Rightarrow> [[x]] | y # ys \<Rightarrow> (x # y) # ys))"

fun Join :: "char \<Rightarrow> string list \<Rightarrow> string" where
  "Join c [] = []"
| "Join c [x] = x"
| "Join c (x # y # ys) = x @ c # Join c (y # ys)"

lemma Split_not_Nil [simp]: "Split c s \<noteq> []"
  by (cases s) (auto split: list.splits)

lemma Join_Split: "Join c (Split c s) = s"
proof (induction s)
  case (Cons x xs)
  show ?case
  proof (cases "Split c xs")
    case Nil
    then show ?thesis by simp
  next
    case (Cons y ys)
    then show ?thesis using Cons.IH by (cases ys) auto
  qed
qed simp

lemma Split_no_sep: "l \<in> set (Split c s) \<Longrightarrow> c \<notin> set l"
proof (induction s arbitrary: l)
  case (Cons x xs)
  then show ?case by (cases "Split c xs") (auto split: if_splits)
qed simp

lemma set_Split_sub: "l \<in> set (Split c s) \<Longrightarrow> set l \<subseteq> set s"
proof (induction s arbitrary: l)
  case (Cons x xs)
  then show ?case by (cases "Split c xs") (fastforce split: if_splits)+
qed simp

lemma set_Split: "x \<in> set s \<Longrightarrow> x = c \<or> (\<exists>l \<in> set (Split c s). x \<in> set l)"
proof (induction s)
  case (Cons y ys)
  then show ?case by (cases "Split c ys") (auto split: if_splits)
qed simp

section \<open>net.SplitHostPort\<close>

definition SplitHostPort :: "string \<Rightarrow> (string \<times> string) option" where
  "SplitHostPort hostport =
    (case lastIndexByte CHR '':'' hostport of
       None \<Rightarrow> None
     | Some i \<Rightarrow>
        (let finish = (\<lambda>host j k.
               if CHR ''['' \<in> set (drop j hostport) \<or> CHR '']'' \<in> set (drop k hostport) then None
               else Some (host, drop (Suc i) hostport)) in
         if hd hostport = CHR ''['' then
           (case indexByte CHR '']'' hostport of
              None \<Rightarrow> None
            | Some e \<Rightarrow>
                if Suc e = length hostport then None
                else if Suc e = i then finish (take (e - 1) (drop 1 hostport)) 1 (Suc e)
                else None)
         else if CHR '':'' \<in> set (take i hostport) then None
         else finish (take i hostport) 0 0))"

lemma SplitHostPort_no_colon: "CHR '':'' \<notin> set s \<Longrightarrow> SplitHostPort s = None"
  using lastIndexByte_None[of "CHR '':''" s] by (simp add: SplitHostPort_def)

lemma SplitHostPort_plain:
  assumes "CHR '':'' \<notin> set h" "CHR '':'' \<notin> set p"
    and "CHR ''['' \<notin> set (h @ p)" "CHR '']'' \<notin> set (h @ p)"
  shows "SplitHostPort (h @ CHR '':'' # p) = Some (h, p)"
proof -
  have "hd (h @ CHR '':'' # p) \<noteq> CHR ''[''" using assms(3) by (cases h) auto
  then show ?thesis using assms lastIndexByte_split[OF assms(2), of h]
    by (simp add: SplitHostPort_def Let_def)
qed

end
