(* ===== verification/Netip.thy ===== *)
theory Netip
  imports Go_Strings
begin

text \<open>
  Go's \<open>net/netip\<close>, as far as the program uses it: the address type with its three shapes (the
  zero \<open>Addr\<close>, IPv4, IPv6 with an optional zone), \<open>ParseAddr\<close> and \<open>String\<close>, \<open>Unmap\<close>, \<open>Compare\<close>
  and the address classes, and \<open>Prefix\<close> with \<open>ParsePrefix\<close>, \<open>PrefixFrom\<close>, \<open>Masked\<close> and
  \<open>Contains\<close>. Addresses are words of 32 and 128 bits; the parsers follow the library's loops.

  The section at the end proves that parsing inverts printing on every valid address, which is what
  lets the store keep addresses as text, and describes \<open>Contains\<close> and \<open>Masked\<close> by the numbers of
  the addresses.
\<close>

unbundle bit_operations_syntax

section \<open>Addresses\<close>

datatype addr = AddrZero | V4 "32 word" | V6 "128 word" string

definition IsValid :: "addr \<Rightarrow> bool" where
  "IsValid a \<longleftrightarrow> a \<noteq> AddrZero"

fun BitLen :: "addr \<Rightarrow> nat" where
  "BitLen AddrZero = 0"
| "BitLen (V4 _) = 32"
| "BitLen (V6 _ _) = 128"

fun Is4 :: "addr \<Rightarrow> bool" where
  "Is4 (V4 _) = True"
| "Is4 _ = False"

fun Is6 :: "addr \<Rightarrow> bool" where
  "Is6 (V6 _ _) = True"
| "Is6 _ = False"

fun Is4In6 :: "addr \<Rightarrow> bool" where
  "Is4In6 (V6 w _) = (drop_bit 32 w = 0xffff)"
| "Is4In6 _ = False"

fun Zone :: "addr \<Rightarrow> string" where
  "Zone (V6 _ z) = z"
| "Zone _ = []"

fun withoutZone :: "addr \<Rightarrow> addr" where
  "withoutZone (V6 w _) = V6 w []"
| "withoutZone a = a"

fun Unmap :: "addr \<Rightarrow> addr" where
  "Unmap (V6 w z) = (if Is4In6 (V6 w z) then V4 (ucast w) else V6 w z)"
| "Unmap a = a"

text \<open>Three-way comparison as in \<open>cmp.Compare\<close>, and \<open>Addr.Compare\<close>: bit length, then the number,
  then the zone.\<close>

definition cmp :: "'a::linorder \<Rightarrow> 'a \<Rightarrow> int" where
  "cmp a b = (if a < b then -1 else if b < a then 1 else 0)"

fun addrNumber :: "addr \<Rightarrow> nat" where
  "addrNumber AddrZero = 0"
| "addrNumber (V4 w) = unat w"
| "addrNumber (V6 w _) = unat w"

definition Compare :: "addr \<Rightarrow> addr \<Rightarrow> int" where
  "Compare a b =
    (if cmp (BitLen a) (BitLen b) \<noteq> 0 then cmp (BitLen a) (BitLen b)
     else if cmp (addrNumber a) (addrNumber b) \<noteq> 0 then cmp (addrNumber a) (addrNumber b)
     else if Is6 a then cmp (Zone a) (Zone b) else 0)"

fun IsLoopback :: "addr \<Rightarrow> bool" where
  "IsLoopback a = (case Unmap a of V4 w \<Rightarrow> drop_bit 24 w = 127 | V6 w _ \<Rightarrow> w = 1 | AddrZero \<Rightarrow> False)"

fun IsMulticast :: "addr \<Rightarrow> bool" where
  "IsMulticast a = (case Unmap a of V4 w \<Rightarrow> drop_bit 28 w = 14 | V6 w _ \<Rightarrow> drop_bit 120 w = 0xff
     | AddrZero \<Rightarrow> False)"

fun IsLinkLocalUnicast :: "addr \<Rightarrow> bool" where
  "IsLinkLocalUnicast a = (case Unmap a of V4 w \<Rightarrow> drop_bit 16 w = 0xa9fe
     | V6 w _ \<Rightarrow> drop_bit 118 w = 0x3fa | AddrZero \<Rightarrow> False)"

fun IsUnspecified :: "addr \<Rightarrow> bool" where
  "IsUnspecified a \<longleftrightarrow> a = V4 0 \<or> a = V6 0 []"

lemma cmp_eq_0 [simp]: "cmp a b = 0 \<longleftrightarrow> a = b"
  by (auto simp: cmp_def)

lemma Compare_eq_0 [simp]: "Compare a b = 0 \<longleftrightarrow> a = b"
  by (cases a; cases b) (auto simp: Compare_def word_unat_eq_iff)

lemma Unmap_not_4In6 [simp]: "\<not> Is4In6 (Unmap a)"
  by (cases a) auto

lemma Unmap_id [simp]: "\<not> Is4In6 a \<Longrightarrow> Unmap a = a"
  by (cases a) auto

lemma Unmap_Unmap: "Unmap (Unmap a) = Unmap a"
  by simp

lemma IsValid_Unmap [simp]: "IsValid (Unmap a) \<longleftrightarrow> IsValid a"
  by (cases a) (auto simp: IsValid_def)

section \<open>ParseAddr\<close>

definition digitVal :: "char \<Rightarrow> nat" where
  "digitVal c = byte c - 48"

fun v4loop :: "nat \<Rightarrow> nat \<Rightarrow> nat list \<Rightarrow> string \<Rightarrow> nat list option" where
  "v4loop val digLen fields [] = (if length fields < 3 then None else Some (fields @ [val]))"
| "v4loop val digLen fields (c # cs) =
    (if isDigit c then
       (if digLen = 1 \<and> val = 0 then None
        else let v = val * 10 + digitVal c in
          if v > 255 then None else v4loop v (digLen + 1) fields cs)
     else if c = CHR ''.'' then
       (if digLen = 0 \<or> cs = [] then None
        else if length fields = 3 then None
        else v4loop 0 0 (fields @ [val]) cs)
     else None)"

definition parseIPv4Fields :: "string \<Rightarrow> nat list option" where
  "parseIPv4Fields s = v4loop 0 0 [] s"

definition ofOctets :: "nat list \<Rightarrow> nat" where
  "ofOctets bs = foldl (\<lambda>n b. n * 256 + b) 0 bs"

definition parseIPv4 :: "string \<Rightarrow> addr option" where
  "parseIPv4 s = map_option (\<lambda>bs. V4 (word_of_nat (ofOctets bs))) (parseIPv4Fields s)"

definition hexVal :: "char \<Rightarrow> nat option" where
  "hexVal c = (if isDigit c then Some (byte c - 48)
     else if 97 \<le> byte c \<and> byte c \<le> 102 then Some (byte c - 87)
     else if 65 \<le> byte c \<and> byte c \<le> 70 then Some (byte c - 55) else None)"

text \<open>The inner loop of \<open>parseIPv6\<close>: at most four hexadecimal digits; more is an error.\<close>

fun scanHex :: "nat \<Rightarrow> nat \<Rightarrow> string \<Rightarrow> (nat \<times> nat \<times> string) option" where
  "scanHex off acc [] = Some (off, acc, [])"
| "scanHex off acc (c # cs) =
    (case hexVal c of None \<Rightarrow> Some (off, acc, c # cs)
     | Some d \<Rightarrow> if off > 3 then None else scanHex (off + 1) (acc * 16 + d) cs)"

text \<open>The outer loop: groups of 16 bits read so far, the position of the ellipsis, the text left.\<close>

function loop6 :: "nat list \<Rightarrow> nat option \<Rightarrow> string \<Rightarrow> (nat list \<times> nat option \<times> string) option" where
  "loop6 acc ell s =
    (if length acc \<ge> 8 then Some (acc, ell, s)
     else case scanHex 0 0 s of None \<Rightarrow> None
     | Some (off, h, rest) \<Rightarrow>
        if off = 0 then None
        else if rest \<noteq> [] \<and> hd rest = CHR ''.'' then
          (if ell = None \<and> length acc \<noteq> 6 then None
           else if length acc + 2 > 8 then None
           else case parseIPv4Fields s of None \<Rightarrow> None
           | Some fs \<Rightarrow> Some (acc @ [fs ! 0 * 256 + fs ! 1, fs ! 2 * 256 + fs ! 3], ell, []))
        else if rest = [] then Some (acc @ [h], ell, [])
        else if hd rest \<noteq> CHR '':'' then None
        else if tl rest = [] then None
        else if hd (tl rest) = CHR '':'' then
          (if ell \<noteq> None then None
           else if tl (tl rest) = [] then Some (acc @ [h], Some (length acc + 1), [])
           else loop6 (acc @ [h]) (Some (length acc + 1)) (tl (tl rest)))
        else loop6 (acc @ [h]) ell (tl rest))"
  by pat_completeness auto
termination by (relation "measure (\<lambda>(acc, _, _). 8 - length acc)") auto

declare loop6.simps [simp del]

definition finish6 :: "nat list \<times> nat option \<times> string \<Rightarrow> nat list option" where
  "finish6 st = (case st of (acc, ell, s) \<Rightarrow>
     if s \<noteq> [] then None
     else if length acc < 8 then
       (case ell of None \<Rightarrow> None
        | Some e \<Rightarrow> Some (take e acc @ replicate (8 - length acc) 0 @ drop e acc))
     else if ell \<noteq> None then None else Some acc)"

definition ofHextets :: "nat list \<Rightarrow> nat" where
  "ofHextets hs = foldl (\<lambda>n h. n * 65536 + h) 0 hs"

definition parseHextets :: "string \<Rightarrow> nat list option" where
  "parseHextets s =
    (if take 2 s = ''::'' then
       (if drop 2 s = [] then Some (replicate 8 0)
        else Option.bind (loop6 [] (Some 0) (drop 2 s)) finish6)
     else Option.bind (loop6 [] None s) finish6)"

definition parseIPv6 :: "string \<Rightarrow> addr option" where
  "parseIPv6 s = (case indexByte CHR ''%'' s of
     None \<Rightarrow> map_option (\<lambda>hs. V6 (word_of_nat (ofHextets hs)) []) (parseHextets s)
   | Some i \<Rightarrow> if drop (Suc i) s = [] then None
       else map_option (\<lambda>hs. V6 (word_of_nat (ofHextets hs)) (drop (Suc i) s)) (parseHextets (take i s)))"

definition ParseAddr :: "string \<Rightarrow> addr option" where
  "ParseAddr s = (case List.find (\<lambda>c. c = CHR ''.'' \<or> c = CHR '':'' \<or> c = CHR ''%'') s of
     None \<Rightarrow> None
   | Some c \<Rightarrow> if c = CHR ''.'' then parseIPv4 s else if c = CHR '':'' then parseIPv6 s else None)"

section \<open>String\<close>

definition decChar :: "nat \<Rightarrow> char" where
  "decChar n = char_of (48 + n)"

definition decStr :: "nat \<Rightarrow> string" where
  "decStr n = (if n < 10 then [decChar n]
     else if n < 100 then [decChar (n div 10), decChar (n mod 10)]
     else [decChar (n div 100), decChar (n div 10 mod 10), decChar (n mod 10)])"

definition octets :: "32 word \<Rightarrow> nat list" where
  "octets w = (let n = unat w in [n div 16777216, n div 65536 mod 256, n div 256 mod 256, n mod 256])"

definition string4 :: "32 word \<Rightarrow> string" where
  "string4 w = Join CHR ''.'' (map decStr (octets w))"

definition hexChar :: "nat \<Rightarrow> char" where
  "hexChar n = char_of (if n < 10 then 48 + n else 87 + n)"

definition appendHex :: "nat \<Rightarrow> string" where
  "appendHex x = (if x \<ge> 4096 then [hexChar (x div 4096)] else [])
     @ (if x \<ge> 256 then [hexChar (x div 256 mod 16)] else [])
     @ (if x \<ge> 16 then [hexChar (x div 16 mod 16)] else []) @ [hexChar (x mod 16)]"

definition hextets :: "128 word \<Rightarrow> nat list" where
  "hextets w = (let n = unat w in map (\<lambda>i. n div 65536 ^ (7 - i) mod 65536) [0..<8])"

definition zeroRun :: "nat list \<Rightarrow> nat \<Rightarrow> nat" where
  "zeroRun hs i = length (takeWhile (\<lambda>h. h = 0) (drop i hs))"

definition runStep :: "nat list \<Rightarrow> nat \<times> nat \<Rightarrow> nat \<Rightarrow> nat \<times> nat" where
  "runStep hs r i = (let l = zeroRun hs i in
     if l \<ge> 2 \<and> l > snd r - fst r then (i, i + l) else r)"

definition longestRun :: "nat list \<Rightarrow> nat \<times> nat" where
  "longestRun hs = foldl (runStep hs) (255, 255) [0..<8]"

definition printHextets :: "nat list \<Rightarrow> string" where
  "printHextets hs = (case longestRun hs of (zs, ze) \<Rightarrow>
     if zs = 255 then Join CHR '':'' (map appendHex hs)
     else Join CHR '':'' (map appendHex (take zs hs)) @ ''::''
       @ Join CHR '':'' (map appendHex (drop ze hs)))"

definition zoneSuffix :: "string \<Rightarrow> string" where
  "zoneSuffix z = (if z = [] then [] else CHR ''%'' # z)"

fun AddrString :: "addr \<Rightarrow> string" where
  "AddrString AddrZero = ''invalid IP''"
| "AddrString (V4 w) = string4 w"
| "AddrString (V6 w z) = (if Is4In6 (V6 w z) then ''::ffff:'' @ string4 (ucast w)
     else printHextets (hextets w)) @ zoneSuffix z"

section \<open>Prefixes\<close>

text \<open>An invalid prefix has \<open>bits = -1\<close>, as \<open>Prefix.Bits\<close> reports it.\<close>

record prefix =
  pfx_ip :: addr
  pfx_bits :: int

definition PrefixZero :: prefix where
  "PrefixZero = \<lparr> pfx_ip = AddrZero, pfx_bits = -1 \<rparr>"

definition PrefixFrom :: "addr \<Rightarrow> int \<Rightarrow> prefix" where
  "PrefixFrom a b = \<lparr> pfx_ip = withoutZone a,
     pfx_bits = (if IsValid a \<and> 0 \<le> b \<and> b \<le> int (BitLen a) then b else -1) \<rparr>"

fun maskAddr :: "addr \<Rightarrow> nat \<Rightarrow> addr" where
  "maskAddr AddrZero b = AddrZero"
| "maskAddr (V4 w) b = V4 (w AND NOT (mask (32 - b)))"
| "maskAddr (V6 w z) b = V6 (w AND NOT (mask (128 - b))) z"

definition Masked :: "prefix \<Rightarrow> prefix" where
  "Masked p = (if pfx_bits p < 0 \<or> pfx_ip p = AddrZero \<or> pfx_bits p > int (BitLen (pfx_ip p)) then PrefixZero
     else PrefixFrom (maskAddr (pfx_ip p) (nat (pfx_bits p))) (pfx_bits p))"

definition PrefixIsValid :: "prefix \<Rightarrow> bool" where
  "PrefixIsValid p \<longleftrightarrow> pfx_bits p \<ge> 0"

definition Contains :: "prefix \<Rightarrow> addr \<Rightarrow> bool" where
  "Contains p a \<longleftrightarrow> PrefixIsValid p \<and> Zone a = [] \<and>
     (case (pfx_ip p, a) of
        (V4 n, V4 w) \<Rightarrow> drop_bit (32 - nat (pfx_bits p)) (w XOR n) = 0
      | (V6 n _, V6 w _) \<Rightarrow> (w XOR n) AND NOT (mask (128 - nat (pfx_bits p))) = 0
      | _ \<Rightarrow> False)"

text \<open>\<open>strconv.Atoi\<close> on the bits of a prefix: only digits are left after the guard on the first
  byte of \<open>ParsePrefix\<close>, except for a lone sign or other byte, which fails.\<close>

definition atoiDigits :: "string \<Rightarrow> nat option" where
  "atoiDigits s = (if s \<noteq> [] \<and> list_all isDigit s
     then Some (foldl (\<lambda>n c. n * 10 + digitVal c) 0 s) else None)"

definition ParsePrefix :: "string \<Rightarrow> prefix option" where
  "ParsePrefix s = (case lastIndexByte CHR ''/'' s of None \<Rightarrow> None
   | Some i \<Rightarrow> (case ParseAddr (take i s) of None \<Rightarrow> None
     | Some ip \<Rightarrow>
        if Is6 ip \<and> Zone ip \<noteq> [] then None
        else let bitsStr = drop (Suc i) s in
          if length bitsStr > 1 \<and> (byte (hd bitsStr) < 49 \<or> byte (hd bitsStr) > 57) then None
          else case atoiDigits bitsStr of None \<Rightarrow> None
          | Some bits \<Rightarrow> if bits > BitLen ip then None else Some (PrefixFrom ip (int bits))))"

text \<open>\<open>Prefix.String\<close>: the address, a slash and the bits in decimal; an invalid prefix prints as
  \<open>invalid Prefix\<close>.\<close>

text \<open>\<open>ParseAddrPort\<close>: the address and the decimal port behind the last colon; brackets are for IPv6
  addresses, and only for them.\<close>

definition ParseAddrPort :: "string \<Rightarrow> (addr \<times> nat) option" where
  "ParseAddrPort s = (case lastIndexByte CHR '':'' s of None \<Rightarrow> None
   | Some i \<Rightarrow>
      (let ip = take i s; port = drop (Suc i) s in
       if ip = [] \<or> port = [] then None
       else if hd ip = CHR ''['' \<and> (length ip < 2 \<or> last ip \<noteq> CHR '']'') then None
       else let v6 = (hd ip = CHR ''['');
                ip' = (if v6 then butlast (tl ip) else ip)
            in case atoiDigits port of None \<Rightarrow> None
               | Some port16 \<Rightarrow> if 65535 < port16 then None
                 else case ParseAddr ip' of None \<Rightarrow> None
                 | Some a \<Rightarrow> if v6 \<and> Is4 a \<or> \<not> v6 \<and> Is6 a then None else Some (a, port16)))"

definition PrefixString :: "prefix \<Rightarrow> string" where
  "PrefixString p = (if PrefixIsValid p
     then AddrString (pfx_ip p) @ CHR ''/'' # decStr (nat (pfx_bits p)) else ''invalid Prefix'')"

section \<open>Parsing inverts printing: IPv4\<close>

lemma byte_decChar [simp]: "n < 10 \<Longrightarrow> byte (decChar n) = 48 + n"
  by (simp add: decChar_def byte_char_of)

lemma isDigit_decChar [simp]: "n < 10 \<Longrightarrow> isDigit (decChar n)"
  by (simp add: isDigit_def)

lemma digitVal_decChar [simp]: "n < 10 \<Longrightarrow> digitVal (decChar n) = n"
  by (simp add: digitVal_def)

lemma not_isDigit_dot [simp]: "\<not> isDigit CHR ''.''" "\<not> isDigit CHR '':''" "\<not> isDigit CHR ''%''"
  by (simp_all add: isDigit_def byte_def)

lemma decStr_not_Nil [simp]: "decStr n \<noteq> []"
  by (simp add: decStr_def)

lemma decStr_digits: "n < 1000 \<Longrightarrow> c \<in> set (decStr n) \<Longrightarrow> isDigit c"
  by (auto simp: decStr_def split: if_splits)

lemma div_digit: "n div (a * b) * b + n div a mod b = n div (a::nat)"
  by (simp add: div_mult2_eq)

lemma v4loop_decStr:
  assumes "n < 256"
  shows "v4loop 0 0 fs (decStr n @ rest) = v4loop n (length (decStr n)) fs rest"
proof -
  consider "n < 10" | "10 \<le> n" "n < 100" | "100 \<le> n" by linarith
  then show ?thesis
  proof cases
    case 1
    then show ?thesis by (simp add: decStr_def)
  next
    case 2
    then have "0 < n div 10" "n div 10 < 10" by auto
    then show ?thesis using 2 by (simp add: decStr_def Let_def)
  next
    case 3
    then have "0 < n div 100" "n div 100 < 10" using assms by auto
    moreover have "n div 100 * 10 + n div 10 mod 10 = n div 10" using div_digit[of n 10 10] by simp
    moreover have "n div 10 < 256" using assms by simp
    ultimately show ?thesis using 3 assms by (simp add: decStr_def Let_def)
  qed
qed

lemma length_decStr_pos [simp]: "0 < length (decStr n)"
  by (simp add: decStr_def)

lemma v4loop_dot: "0 < d \<Longrightarrow> rest \<noteq> [] \<Longrightarrow> length fs < 3 \<Longrightarrow>
    v4loop v d fs (CHR ''.'' # rest) = v4loop 0 0 (fs @ [v]) rest"
  by simp

lemma parseIPv4Fields_print:
  assumes "a < 256" "b < 256" "c < 256" "d < 256"
  shows "parseIPv4Fields (Join CHR ''.'' (map decStr [a, b, c, d])) = Some [a, b, c, d]"
  using v4loop_decStr[of d _ "[]"] assms
  by (simp add: parseIPv4Fields_def v4loop_decStr v4loop_dot del: v4loop.simps(2))

lemma octets_lt:
  obtains a b c d where "octets w = [a, b, c, d]" "a < 256" "b < 256" "c < 256" "d < 256"
proof -
  have "unat w div 16777216 < 256" using unsigned_less[of w, where ?'a = nat] by simp
  then show thesis using that by (simp add: octets_def Let_def)
qed

lemma ofOctets_octets: "ofOctets (octets w) = unat w"
proof -
  have "((n div 16777216 * 256 + n div 65536 mod 256) * 256 + n div 256 mod 256) * 256 + n mod 256 = n"
    for n :: nat using div_digit[of n 65536 256] div_digit[of n 256 256] div_digit[of n 1 256] by simp
  then show ?thesis by (simp add: ofOctets_def octets_def Let_def)
qed

lemma parseIPv4Fields_string4: "parseIPv4Fields (string4 w) = Some (octets w)"
  using octets_lt[of w] parseIPv4Fields_print by (metis string4_def)

lemma set_Join: "c \<in> set (Join s xs) \<Longrightarrow> c = s \<or> (\<exists>x \<in> set xs. c \<in> set x)"
  by (induction s xs rule: Join.induct) auto

lemma string4_chars:
  assumes "c \<in> set (string4 w)"
  shows "c = CHR ''.'' \<or> isDigit c"
proof -
  obtain p q r s where o: "octets w = [p, q, r, s]" "p < 256" "q < 256" "r < 256" "s < 256"
    by (rule octets_lt)
  then show ?thesis using set_Join[OF assms[unfolded string4_def]] decStr_digits[of p c]
      decStr_digits[of q c] decStr_digits[of r c] decStr_digits[of s c] by auto
qed

lemma string4_dot: "\<exists>p q. string4 w = p @ CHR ''.'' # q \<and> CHR ''.'' \<notin> set p"
proof -
  obtain a b c d where "octets w = [a, b, c, d]" "a < 256" by (rule octets_lt)
  then have "string4 w = decStr a @ CHR ''.'' # Join CHR ''.'' (map decStr [b, c, d])"
    by (simp add: string4_def)
  moreover have "CHR ''.'' \<notin> set (decStr a)"
    using decStr_digits[of a "CHR ''.''"] \<open>a < 256\<close> by auto
  ultimately show ?thesis by blast
qed

lemma find_first: "(\<And>c. c \<in> set p \<Longrightarrow> \<not> P c) \<Longrightarrow> P x \<Longrightarrow> List.find P (p @ x # q) = Some x"
  by (induction p) auto

lemma ParseAddr_string4: "ParseAddr (string4 w) = Some (V4 w)"
proof -
  obtain p q where pq: "string4 w = p @ CHR ''.'' # q" "CHR ''.'' \<notin> set p"
    using string4_dot by blast
  have "CHR '':'' \<notin> set p" "CHR ''%'' \<notin> set p"
    using string4_chars[of "CHR '':''" w] string4_chars[of "CHR ''%''" w] pq(1) by auto
  then have "List.find (\<lambda>c. c = CHR ''.'' \<or> c = CHR '':'' \<or> c = CHR ''%'') (string4 w) = Some CHR ''.''"
    unfolding pq(1) using pq(2) by (intro find_first) auto
  then show ?thesis
    by (simp add: ParseAddr_def parseIPv4_def parseIPv4Fields_string4 ofOctets_octets)
qed

section \<open>Parsing inverts printing: IPv6\<close>

lemma byte_hexChar: "n < 16 \<Longrightarrow> byte (hexChar n) = (if n < 10 then 48 + n else 87 + n)"
  by (simp add: hexChar_def byte_char_of)

lemma hexVal_hexChar [simp]: "n < 16 \<Longrightarrow> hexVal (hexChar n) = Some n"
  by (simp add: hexVal_def byte_hexChar isDigit_def)

lemma hexVal_sep [simp]: "hexVal CHR '':'' = None" "hexVal CHR ''.'' = None" "hexVal CHR ''%'' = None"
  by (simp_all add: hexVal_def isDigit_def byte_def)

lemma scanHex_stop: "s = [] \<or> hexVal (hd s) = None \<Longrightarrow> scanHex off acc s = Some (off, acc, s)"
  by (cases s) auto

lemma scanHex_appendHex:
  assumes "x < 65536" "rest = [] \<or> hexVal (hd rest) = None"
  shows "scanHex 0 0 (appendHex x @ rest) = Some (length (appendHex x), x, rest)"
proof -
  note stop = scanHex_stop[OF assms(2)]
  have e: "x div 4096 * 16 + x div 256 mod 16 = x div 256" "x div 256 * 16 + x div 16 mod 16 = x div 16"
    using div_digit[of x 256 16] div_digit[of x 16 16] by simp_all
  consider "x < 16" | "16 \<le> x" "x < 256" | "256 \<le> x" "x < 4096" | "4096 \<le> x" by linarith
  then show ?thesis
  proof cases
    case 1
    then show ?thesis by (simp add: appendHex_def stop)
  next
    case 2
    then have "x div 16 < 16" by auto
    then show ?thesis using 2 by (simp add: appendHex_def stop)
  next
    case 3
    then have "x div 256 < 16" by auto
    then show ?thesis using 3 e(2) by (simp add: appendHex_def stop)
  next
    case 4
    then have "x div 4096 < 16" using assms(1) by auto
    then show ?thesis using 4 e by (simp add: appendHex_def stop)
  qed
qed

lemma length_appendHex [simp]: "0 < length (appendHex x)" "appendHex x \<noteq> []"
  by (simp_all add: appendHex_def)

lemma appendHex_hex: "x < 65536 \<Longrightarrow> c \<in> set (appendHex x) \<Longrightarrow> hexVal c \<noteq> None"
  by (auto simp: appendHex_def split: if_splits)

lemma appendHex_Cons: "x < 65536 \<Longrightarrow> \<exists>c cs. appendHex x = c # cs \<and> hexVal c \<noteq> None"
  using appendHex_hex[of x "hd (appendHex x)"] by (cases "appendHex x") auto

lemma loop6_step:
  assumes "length acc < 8" "x < 65536" "rest \<noteq> []" "hd rest \<noteq> CHR '':''"
  shows "loop6 acc ell (appendHex x @ CHR '':'' # rest) = loop6 (acc @ [x]) ell rest"
  using assms by (subst loop6.simps) (simp add: scanHex_appendHex)

lemma loop6_last:
  assumes "length acc < 8" "x < 65536"
  shows "loop6 acc ell (appendHex x) = Some (acc @ [x], ell, [])"
  using assms scanHex_appendHex[of x "[]"] by (subst loop6.simps) simp

lemma loop6_ellipsis:
  assumes "length acc < 8" "x < 65536" "rest \<noteq> []"
  shows "loop6 acc None (appendHex x @ ''::'' @ rest) = loop6 (acc @ [x]) (Some (length acc + 1)) rest"
  using assms by (subst loop6.simps) (simp add: scanHex_appendHex)

lemma loop6_ellipsis_end:
  assumes "length acc < 8" "x < 65536"
  shows "loop6 acc None (appendHex x @ ''::'') = Some (acc @ [x], Some (length acc + 1), [])"
  using assms by (subst loop6.simps) (simp add: scanHex_appendHex)

definition hexJoin :: "nat list \<Rightarrow> string" where
  "hexJoin hs = Join CHR '':'' (map appendHex hs)"

lemma hexJoin_Cons [simp]:
  "hexJoin [x] = appendHex x" "hexJoin (x # y # ys) = appendHex x @ CHR '':'' # hexJoin (y # ys)"
  by (simp_all add: hexJoin_def)

lemma hexJoin_hd:
  assumes "hs \<noteq> []" "\<forall>h \<in> set hs. h < 65536"
  shows "hexJoin hs \<noteq> [] \<and> hexVal (hd (hexJoin hs)) \<noteq> None"
proof -
  obtain x xs where hs: "hs = x # xs" using assms(1) by (cases hs) auto
  obtain c cs where "appendHex x = c # cs" "hexVal c \<noteq> None"
    using appendHex_Cons[of x] assms(2) hs by auto
  then show ?thesis using hs by (cases xs) auto
qed

lemma hd_hexJoin_not_colon:
  assumes "hs \<noteq> []" "\<forall>h \<in> set hs. h < 65536"
  shows "hexJoin hs \<noteq> []" "hd (hexJoin hs) \<noteq> CHR '':''"
  using hexJoin_hd[OF assms] by (auto simp: hexVal_sep)

lemma loop6_hexJoin:
  assumes "hs \<noteq> []" "\<forall>h \<in> set hs. h < 65536" "length acc + length hs \<le> 8"
  shows "loop6 acc ell (hexJoin hs) = Some (acc @ hs, ell, [])"
  using assms
proof (induction hs arbitrary: acc)
  case (Cons x xs)
  show ?case
  proof (cases xs)
    case Nil
    then show ?thesis using Cons.prems by (simp add: loop6_last)
  next
    case (Cons y ys)
    have "loop6 acc ell (hexJoin (x # xs)) = loop6 (acc @ [x]) ell (hexJoin xs)"
      using Cons Cons.prems hd_hexJoin_not_colon[of xs] by (simp add: loop6_step)
    then show ?thesis using Cons.IH[of "acc @ [x]"] Cons.prems Cons by simp
  qed
qed simp

lemma loop6_hexJoin_ellipsis:
  assumes "pre \<noteq> []" "\<forall>h \<in> set (pre @ post). h < 65536" "length acc + length pre + length post \<le> 8"
  shows "loop6 acc None (hexJoin pre @ ''::'' @ hexJoin post) =
    Some (acc @ pre @ post, Some (length acc + length pre), [])"
  using assms
proof (induction pre arbitrary: acc)
  case (Cons x xs)
  note prems = Cons.prems
  show ?case
  proof (cases xs)
    case Nil
    show ?thesis
    proof (cases "post = []")
      case True
      then show ?thesis using prems Nil loop6_ellipsis_end[of acc x] by (simp add: hexJoin_def)
    next
      case False
      then have "loop6 acc None (hexJoin (x # xs) @ ''::'' @ hexJoin post) =
          loop6 (acc @ [x]) (Some (length acc + 1)) (hexJoin post)"
        using prems Nil hd_hexJoin_not_colon[of post] loop6_ellipsis[of acc x "hexJoin post"] by simp
      then show ?thesis using loop6_hexJoin[of post "acc @ [x]"] False prems Nil by simp
    qed
  next
    case (Cons y ys)
    have "loop6 acc None (hexJoin (x # xs) @ ''::'' @ hexJoin post) =
        loop6 (acc @ [x]) None (hexJoin xs @ ''::'' @ hexJoin post)"
      using Cons prems hd_hexJoin_not_colon[of xs] loop6_step[of acc x "hexJoin xs @ ''::'' @ hexJoin post"]
      by simp
    then show ?thesis using Cons.IH[of "acc @ [x]"] prems Cons by simp
  qed
qed simp

text \<open>The run chosen by the printer is empty or a run of zeros inside the eight groups.\<close>

definition runOK :: "nat list \<Rightarrow> nat \<times> nat \<Rightarrow> bool" where
  "runOK hs r \<longleftrightarrow> (case r of (zs, ze) \<Rightarrow> zs = 255 \<or>
     (zs + 2 \<le> ze \<and> ze \<le> length hs \<and> hs = take zs hs @ replicate (ze - zs) 0 @ drop ze hs))"

lemma takeWhile_zero: "takeWhile (\<lambda>h. h = 0) xs = replicate (length (takeWhile (\<lambda>h. h = (0::nat)) xs)) 0"
  by (induction xs) auto

lemma zeroRun_split:
  assumes "i \<le> length hs"
  shows "i + zeroRun hs i \<le> length hs \<and> hs = take i hs @ replicate (zeroRun hs i) 0 @ drop (i + zeroRun hs i) hs"
proof -
  let ?t = "takeWhile (\<lambda>h. h = 0) (drop i hs)"
  have l: "zeroRun hs i \<le> length (drop i hs)" unfolding zeroRun_def by (rule length_takeWhile_le)
  have "drop i hs = ?t @ dropWhile (\<lambda>h. h = 0) (drop i hs)" by simp
  also have "dropWhile (\<lambda>h. h = 0) (drop i hs) = drop (zeroRun hs i) (drop i hs)"
    by (simp add: dropWhile_eq_drop zeroRun_def)
  also have "?t = replicate (zeroRun hs i) 0" by (subst takeWhile_zero) (simp add: zeroRun_def)
  finally have "hs = take i hs @ replicate (zeroRun hs i) 0 @ drop (i + zeroRun hs i) hs"
    by (metis add.commute append_take_drop_id drop_drop)
  then show ?thesis using l assms by auto
qed

lemma runStep_ok:
  assumes "runOK hs r" "i \<le> length hs"
  shows "runOK hs (runStep hs r i)"
proof (cases "zeroRun hs i \<ge> 2 \<and> zeroRun hs i > snd r - fst r")
  case True
  then show ?thesis using zeroRun_split[OF assms(2)] by (simp add: runStep_def Let_def runOK_def)
next
  case False
  then have "runStep hs r i = r" by (auto simp: runStep_def Let_def)
  then show ?thesis using assms by simp
qed

lemma foldl_runStep_ok: "runOK hs r \<Longrightarrow> \<forall>i \<in> set is. i \<le> length hs \<Longrightarrow> runOK hs (foldl (runStep hs) r is)"
  by (induction "is" arbitrary: r) (simp_all add: runStep_ok del: split_paired_All)

lemma longestRun_ok: "length hs = 8 \<Longrightarrow> runOK hs (longestRun hs)"
  unfolding longestRun_def by (rule foldl_runStep_ok) (auto simp: runOK_def)

lemma take2_hexJoin:
  assumes "hs \<noteq> []" "\<forall>h \<in> set hs. h < 65536"
  shows "take 2 (hexJoin hs @ r) \<noteq> ''::''"
proof -
  obtain c cs where "hexJoin hs = c # cs" using hd_hexJoin_not_colon[OF assms] by (cases "hexJoin hs") auto
  then show ?thesis using hd_hexJoin_not_colon[OF assms] by auto
qed

lemma parseHextets_print:
  assumes len: "length hs = 8" and lt: "\<forall>h \<in> set hs. h < 65536"
  shows "parseHextets (printHextets hs) = Some hs"
proof -
  obtain zs ze where r: "longestRun hs = (zs, ze)" by force
  have ok: "runOK hs (zs, ze)" using longestRun_ok[OF len] r by simp
  show ?thesis
  proof (cases "zs = 255")
    case True
    have ne: "hs \<noteq> []" using len by auto
    have "parseHextets (hexJoin hs) = Some hs"
      using take2_hexJoin[OF ne lt, of "[]"] loop6_hexJoin[OF ne lt, of "[]"] len
      by (simp add: parseHextets_def finish6_def)
    then show ?thesis using True r by (simp add: printHextets_def hexJoin_def)
  next
    case False
    define pre where "pre = take zs hs"
    define post where "post = drop ze hs"
    have z: "zs + 2 \<le> ze" "ze \<le> 8" "hs = pre @ replicate (ze - zs) 0 @ post"
      using ok False len by (auto simp: runOK_def pre_def post_def)
    have lens: "length pre = zs" "length post = 8 - ze" using z len by (auto simp: pre_def post_def)
    have lts: "\<forall>h \<in> set (pre @ post). h < 65536" using lt z(3) by auto
    have p: "printHextets hs = hexJoin pre @ ''::'' @ hexJoin post"
      using False r by (simp add: printHextets_def hexJoin_def pre_def post_def)
    have fin: "finish6 (pre @ post, Some zs, []) = Some hs"
      using z lens by (simp add: finish6_def)
    show ?thesis
    proof (cases "pre = []")
      case True
      show ?thesis
      proof (cases "post = []")
        case True
        then show ?thesis using p \<open>pre = []\<close> z lens by (simp add: parseHextets_def hexJoin_def)
      next
        case False
        then show ?thesis using p True fin lens lts z loop6_hexJoin[of post "[]" "Some 0"]
            hd_hexJoin_not_colon[of post]
          by (simp add: parseHextets_def hexJoin_def[of "[]"])
      qed
    next
      case False
      then show ?thesis using p fin lens lts z loop6_hexJoin_ellipsis[of pre post "[]"]
          take2_hexJoin[of pre "''::'' @ hexJoin post"]
        by (simp add: parseHextets_def)
    qed
  qed
qed

lemma length_hextets [simp]: "length (hextets w) = 8"
  by (simp add: hextets_def Let_def)

lemma hextets_lt: "\<forall>h \<in> set (hextets w). h < 65536"
  by (simp add: hextets_def Let_def)

lemma foldl_digits:
  "foldl (\<lambda>a h. a * B + h) (n div B ^ k) (map (\<lambda>i. n div B ^ (k - 1 - i) mod B) [0..<k]) = (n::nat)"
proof (induction k)
  case (Suc k)
  have "map (\<lambda>i. n div B ^ (Suc k - 1 - i) mod B) [0..<Suc k] =
      (n div B ^ k mod B) # map (\<lambda>i. n div B ^ (k - 1 - i) mod B) [0..<k]"
    by (subst upt_conv_Cons) (simp_all add: map_Suc_upt[symmetric] del: upt_Suc)
  then show ?case using Suc div_digit[of n "B ^ k" B] by (simp del: upt_Suc add: mult.commute)
qed simp

lemma ofHextets_hextets: "ofHextets (hextets w) = unat w"
proof -
  have "unat w div 65536 ^ 8 = 0" using unsigned_less[of w, where ?'a = nat] by simp
  then show ?thesis using foldl_digits[of 65536 "unat w" 8] by (simp add: ofHextets_def hextets_def Let_def)
qed

lemma scanHex_decStr:
  assumes "n < 256"
  shows "\<exists>h. scanHex 0 0 (decStr n @ CHR ''.'' # r) = Some (length (decStr n), h, CHR ''.'' # r)"
proof -
  have d: "hexVal (decChar m) = Some m" if "m < 10" for m using that by (simp add: hexVal_def)
  have "n div 100 < 10" using assms by auto
  then show ?thesis by (auto simp: decStr_def d)
qed

lemma loop6_string4:
  assumes "length acc \<le> 6"
  shows "loop6 acc (Some e) (string4 v) =
    Some (acc @ [octets v ! 0 * 256 + octets v ! 1, octets v ! 2 * 256 + octets v ! 3], Some e, [])"
proof -
  obtain a b c d where o: "octets v = [a, b, c, d]" "a < 256" by (rule octets_lt)
  then have s: "string4 v = decStr a @ CHR ''.'' # Join CHR ''.'' (map decStr [b, c, d])"
    by (simp add: string4_def)
  obtain h where "scanHex 0 0 (string4 v) =
      Some (length (decStr a), h, CHR ''.'' # Join CHR ''.'' (map decStr [b, c, d]))"
    using scanHex_decStr[OF o(2)] unfolding s by metis
  then show ?thesis using assms parseIPv4Fields_string4[of v] by (subst loop6.simps) simp
qed

lemma string4_hd: "isDigit (hd (string4 v))" "string4 v \<noteq> []"
proof -
  obtain a b c d where o: "octets v = [a, b, c, d]" "a < 256" by (rule octets_lt)
  have "isDigit (hd (decStr a))" using decStr_digits[of a "hd (decStr a)"] o(2) by simp
  then show "isDigit (hd (string4 v))" "string4 v \<noteq> []" using o(1) by (simp_all add: string4_def)
qed

lemma appendHex_ffff: "appendHex 65535 = ''ffff''"
  by code_simp

lemma mapped_number:
  fixes w :: "128 word"
  assumes "drop_bit 32 w = 0xffff"
  shows "65535 * 4294967296 + unat (ucast w :: 32 word) = unat w"
proof -
  have "drop_bit 32 (unat w) = unat (drop_bit 32 w)" by (rule unat_drop_bit_eq[symmetric])
  then have "unat w div 4294967296 = 65535" unfolding assms by (simp add: drop_bit_eq_div)
  moreover have "unat (ucast w :: 32 word) = unat w mod 4294967296"
    by (simp add: unsigned_ucast_eq take_bit_eq_mod)
  ultimately show ?thesis by (metis div_mult_mod_eq)
qed

lemma parseHextets_mapped:
  assumes "drop_bit 32 w = (0xffff :: 128 word)"
  shows "map_option ofHextets (parseHextets (''::ffff:'' @ string4 (ucast w))) = Some (unat w)"
proof -
  let ?v = "ucast w :: 32 word"
  obtain a b c d where o: "octets ?v = [a, b, c, d]" by (rule octets_lt)
  have "isDigit (hd (string4 ?v))" "string4 ?v \<noteq> []" by (rule string4_hd)+
  then have "hd (string4 ?v) \<noteq> CHR '':''" "string4 ?v \<noteq> []" by auto
  then have "loop6 [] (Some 0) (''ffff:'' @ string4 ?v) = loop6 [65535] (Some 0) (string4 ?v)"
    using loop6_step[of "[]" 65535 "string4 ?v" "Some 0"] by (simp add: appendHex_ffff)
  also have "\<dots> = Some ([65535, a * 256 + b, c * 256 + d], Some 0, [])"
    using loop6_string4[of "[65535]" 0 ?v] o by simp
  finally have "parseHextets (''::ffff:'' @ string4 ?v) = Some (replicate 5 0 @ [65535, a * 256 + b, c * 256 + d])"
    by (simp add: parseHextets_def finish6_def)
  moreover have "ofOctets [a, b, c, d] = unat ?v" using ofOctets_octets[of ?v] o by simp
  moreover have "replicate 5 (0::nat) = [0, 0, 0, 0, 0]" by (simp add: eval_nat_numeral)
  ultimately show ?thesis using mapped_number[OF assms] by (simp add: ofHextets_def ofOctets_def)
qed

text \<open>What the IPv6 printers produce: hexadecimal digits, colons and dots, a colon before any dot.\<close>

lemma hexJoin_chars:
  assumes "c \<in> set (hexJoin hs)" "\<forall>h \<in> set hs. h < 65536"
  shows "c = CHR '':'' \<or> hexVal c \<noteq> None"
  using set_Join[OF assms(1)[unfolded hexJoin_def]] appendHex_hex assms(2) by auto

lemma printHextets_chars:
  assumes "c \<in> set (printHextets hs)" "\<forall>h \<in> set hs. h < 65536"
  shows "c = CHR '':'' \<or> hexVal c \<noteq> None"
proof -
  obtain zs ze where r: "longestRun hs = (zs, ze)" by force
  have "c = CHR '':'' \<or> (\<exists>hs'. set hs' \<subseteq> set hs \<and> c \<in> set (hexJoin hs'))"
    using assms(1) r set_take_subset[of zs hs] set_drop_subset[of ze hs]
    by (auto simp: printHextets_def hexJoin_def[symmetric] split: if_splits)
  then show ?thesis using hexJoin_chars assms(2) by blast
qed

lemma hexJoin_colon: "2 \<le> length hs \<Longrightarrow> CHR '':'' \<in> set (hexJoin hs)"
  by (cases hs; cases "tl hs") (auto simp: hexJoin_def)

lemma printHextets_colon: "length hs = 8 \<Longrightarrow> CHR '':'' \<in> set (printHextets hs)"
  using hexJoin_colon[of hs] by (cases "longestRun hs") (simp add: printHextets_def hexJoin_def)

lemma find_colon:
  assumes "CHR '':'' \<in> set s" "\<forall>c \<in> set s. c = CHR '':'' \<or> hexVal c \<noteq> None"
  shows "List.find (\<lambda>c. c = CHR ''.'' \<or> c = CHR '':'' \<or> c = CHR ''%'') (s @ t) = Some CHR '':''"
proof -
  let ?P = "\<lambda>c. c = CHR ''.'' \<or> c = CHR '':'' \<or> c = CHR ''%''"
  obtain p q where s: "s = p @ CHR '':'' # q" "CHR '':'' \<notin> set p" using assms(1) by (meson split_list_first)
  have "\<not> ?P c" if "c \<in> set p" for c
  proof -
    have "c \<in> set s" "c \<noteq> CHR '':''" using s that by auto
    with assms(2) have "hexVal c \<noteq> None" by blast
    then show ?thesis using \<open>c \<noteq> CHR '':''\<close> by auto
  qed
  then show ?thesis using find_first[of p ?P "CHR '':''" "q @ t"] s by simp
qed

lemma parseIPv6_zone:
  assumes "CHR ''%'' \<notin> set s"
  shows "parseIPv6 (s @ zoneSuffix z) = map_option (\<lambda>hs. V6 (word_of_nat (ofHextets hs)) z) (parseHextets s)"
  using assms indexByte_split[OF assms, of z] indexByte_None[of "CHR ''%''" s]
  by (auto simp: parseIPv6_def zoneSuffix_def)

lemma ParseAddr_6:
  assumes "CHR '':'' \<in> set p" "\<forall>c \<in> set p. c = CHR '':'' \<or> hexVal c \<noteq> None" "CHR ''%'' \<notin> set (p @ q)"
    and "map_option ofHextets (parseHextets (p @ q)) = Some (unat w)"
  shows "ParseAddr (p @ q @ zoneSuffix z) = Some (V6 w z)"
  using find_colon[OF assms(1,2), of "q @ zoneSuffix z"] parseIPv6_zone[OF assms(3), of z] assms(4)
  by (auto simp: ParseAddr_def)

lemma mapped_chars: "\<forall>c \<in> set ''::ffff:''. c = CHR '':'' \<or> hexVal c \<noteq> None"
  by code_simp

text \<open>Every valid address is read back from its own text.\<close>

lemma ParseAddr_print:
  assumes "IsValid a"
  shows "ParseAddr (AddrString a) = Some a"
proof (cases a)
  case AddrZero
  then show ?thesis using assms by (simp add: IsValid_def)
next
  case (V4 w)
  then show ?thesis by (simp add: ParseAddr_string4)
next
  case (V6 w z)
  show ?thesis
  proof (cases "drop_bit 32 w = (0xffff :: 128 word)")
    case True
    have "CHR ''%'' \<notin> set (string4 (ucast w))" using string4_chars[of "CHR ''%''"] by auto
    then have "ParseAddr (''::ffff:'' @ string4 (ucast w) @ zoneSuffix z) = Some (V6 w z)"
      by (intro ParseAddr_6 parseHextets_mapped True mapped_chars) simp_all
    then show ?thesis using V6 True by simp
  next
    case False
    have c: "\<forall>c \<in> set (printHextets (hextets w)). c = CHR '':'' \<or> hexVal c \<noteq> None"
      using printHextets_chars hextets_lt by blast
    have "CHR ''%'' \<notin> set (printHextets (hextets w))" using bspec[OF c, of "CHR ''%''"] by auto
    then show ?thesis using V6 False c ParseAddr_6[of "printHextets (hextets w)" "[]" w z]
        printHextets_colon[of "hextets w"] parseHextets_print[of "hextets w"] hextets_lt[of w]
      by (simp add: ofHextets_hextets)
  qed
qed

section \<open>Containment in a prefix\<close>

lemma and_not_mask_eq: "w AND NOT (mask k) = push_bit k (drop_bit k w)" for w :: "'a::len word"
  by (rule bit_word_eqI) (auto simp: bit_simps)

lemma drop_push_drop: "drop_bit k (push_bit k (drop_bit k w)) = drop_bit k w" for w :: "'a::len word"
  by (rule bit_word_eqI) (auto simp: bit_simps dest: bit_imp_le_length)

lemma push_drop_0: "push_bit k (drop_bit k w) = 0 \<longleftrightarrow> drop_bit k w = 0" for w :: "'a::len word"
  using drop_push_drop[of k w] by auto

lemma xor_eq_0: "x XOR y = 0 \<longleftrightarrow> x = y" for x y :: "'a::len word"
  by (auto simp: bit_eq_iff bit_simps)

lemma drop_bit_xor_0: "drop_bit k (w XOR n) = 0 \<longleftrightarrow> drop_bit k w = drop_bit k n" for w :: "'a::len word"
  by (simp add: xor_eq_0)

text \<open>A well-formed prefix: a valid address without zone and a number of bits in its range.\<close>

definition prefixOK :: "prefix \<Rightarrow> bool" where
  "prefixOK p \<longleftrightarrow> IsValid (pfx_ip p) \<and> Zone (pfx_ip p) = [] \<and> 0 \<le> pfx_bits p \<and> pfx_bits p \<le> int (BitLen (pfx_ip p))"

fun sameHigh :: "nat \<Rightarrow> addr \<Rightarrow> addr \<Rightarrow> bool" where
  "sameHigh b (V4 n) (V4 w) = (drop_bit (32 - b) n = drop_bit (32 - b) w)"
| "sameHigh b (V6 n _) (V6 w _) = (drop_bit (128 - b) n = drop_bit (128 - b) w)"
| "sameHigh b _ _ = False"

lemma Contains_sameHigh:
  "Contains p a \<longleftrightarrow> PrefixIsValid p \<and> Zone a = [] \<and> sameHigh (nat (pfx_bits p)) (pfx_ip p) a"
  by (cases "pfx_ip p"; cases a)
    (auto simp: Contains_def drop_bit_xor_0 and_not_mask_eq push_drop_0 simp del: drop_bit_xor push_bit_xor)

lemma sameHigh_sym: "sameHigh b x y \<Longrightarrow> sameHigh b y x"
  by (cases x; cases y) auto

lemma sameHigh_trans: "sameHigh b x y \<Longrightarrow> sameHigh b y z \<Longrightarrow> sameHigh b x z"
  by (cases x; cases y; cases z) auto

lemma drop_bit_le_eq:
  fixes w n :: "'a::len word"
  assumes "drop_bit k w = drop_bit k n" "k \<le> l"
  shows "drop_bit l w = drop_bit l n"
proof -
  have "drop_bit (l - k + k) w = drop_bit (l - k + k) n"
    using arg_cong[OF assms(1), of "drop_bit (l - k)"] by (simp only: drop_bit_drop_bit)
  then show ?thesis using assms(2) by simp
qed

lemma sameHigh_mono: "sameHigh b x y \<Longrightarrow> c \<le> b \<Longrightarrow> sameHigh c x y"
  by (cases x; cases y) (auto elim: drop_bit_le_eq)

lemma maskAddr_sameHigh: "IsValid x \<Longrightarrow> sameHigh b (maskAddr x b) x"
  by (cases x) (simp_all add: IsValid_def and_not_mask_eq drop_push_drop)

lemma maskAddr_eqI: "sameHigh b x y \<Longrightarrow> Zone x = Zone y \<Longrightarrow> maskAddr x b = maskAddr y b"
  by (cases x; cases y) (auto simp: and_not_mask_eq)

lemma BitLen_maskAddr [simp]: "BitLen (maskAddr x b) = BitLen x"
  by (cases x) auto

lemma IsValid_maskAddr [simp]: "IsValid (maskAddr x b) = IsValid x"
  by (cases x) (auto simp: IsValid_def)

lemma Zone_maskAddr [simp]: "Zone (maskAddr x b) = Zone x"
  by (cases x) auto

lemma withoutZone_id [simp]: "Zone x = [] \<Longrightarrow> withoutZone x = x"
  by (cases x) auto

lemma Zone_withoutZone [simp]: "Zone (withoutZone x) = []"
  by (cases x) auto

lemma BitLen_withoutZone [simp]: "BitLen (withoutZone x) = BitLen x"
  by (cases x) auto

lemma IsValid_withoutZone [simp]: "IsValid (withoutZone x) = IsValid x"
  by (cases x) (auto simp: IsValid_def)

lemma Masked_ok:
  assumes "prefixOK p"
  shows "Masked p = \<lparr> pfx_ip = maskAddr (pfx_ip p) (nat (pfx_bits p)), pfx_bits = pfx_bits p \<rparr>"
  using assms by (simp add: prefixOK_def Masked_def PrefixFrom_def IsValid_def[symmetric])
    (simp add: IsValid_def)

lemma Contains_Masked:
  assumes "prefixOK p"
  shows "Contains (Masked p) a = Contains p a"
proof -
  have "sameHigh (nat (pfx_bits p)) (maskAddr (pfx_ip p) (nat (pfx_bits p))) (pfx_ip p)"
    using assms by (simp add: maskAddr_sameHigh prefixOK_def)
  then have "sameHigh (nat (pfx_bits p)) (maskAddr (pfx_ip p) (nat (pfx_bits p))) a =
      sameHigh (nat (pfx_bits p)) (pfx_ip p) a" by (meson sameHigh_sym sameHigh_trans)
  then show ?thesis by (simp add: Masked_ok[OF assms] Contains_sameHigh PrefixIsValid_def)
qed

lemma Masked_prefixOK: "prefixOK p \<Longrightarrow> prefixOK (Masked p)"
  by (simp add: Masked_ok) (simp add: prefixOK_def)

text \<open>Two masked prefixes of the same length that contain a common address are equal.\<close>

lemma Masked_unique:
  assumes "prefixOK p" "prefixOK q" "pfx_bits p = pfx_bits q" "Contains p a" "Contains q a"
  shows "Masked p = Masked q"
proof -
  have "sameHigh (nat (pfx_bits p)) (pfx_ip p) (pfx_ip q)"
    using assms(3-5) by (metis Contains_sameHigh sameHigh_sym sameHigh_trans)
  then have "maskAddr (pfx_ip p) (nat (pfx_bits p)) = maskAddr (pfx_ip q) (nat (pfx_bits p))"
    using assms(1,2) by (intro maskAddr_eqI) (auto simp: prefixOK_def)
  then show ?thesis using Masked_ok[OF assms(1)] Masked_ok[OF assms(2)] assms(3) by simp
qed

lemma PrefixFrom_ok:
  "IsValid a \<Longrightarrow> 0 \<le> b \<Longrightarrow> b \<le> int (BitLen a) \<Longrightarrow> prefixOK (PrefixFrom a b)"
  by (simp add: PrefixFrom_def prefixOK_def)

lemma ParseAddr_valid:
  assumes "ParseAddr s = Some a"
  shows "IsValid a"
proof (cases a)
  case AddrZero
  then show ?thesis using assms
    by (auto simp: ParseAddr_def parseIPv4_def parseIPv6_def split: option.splits if_splits)
qed (auto simp: IsValid_def)

lemma ParsePrefix_ok:
  assumes "ParsePrefix s = Some p"
  shows "prefixOK p"
  using assms ParseAddr_valid
  by (auto simp: ParsePrefix_def Let_def intro!: PrefixFrom_ok split: option.splits if_splits)

text \<open>Containment as arithmetic on the numbers of the addresses.\<close>

lemma drop_bit_unat_iff: "drop_bit k n = drop_bit k w \<longleftrightarrow> unat n div 2 ^ k = unat w div 2 ^ k"
  for n w :: "'a::len word"
  unfolding word_unat_eq_iff[of "drop_bit k n"] unat_drop_bit_eq by (simp add: drop_bit_eq_div)

lemma Contains_number:
  assumes "prefixOK p" "Zone a = []"
  shows "Contains p a \<longleftrightarrow> BitLen a = BitLen (pfx_ip p) \<and>
    addrNumber a div 2 ^ (BitLen a - nat (pfx_bits p)) = addrNumber (pfx_ip p) div 2 ^ (BitLen a - nat (pfx_bits p))"
  using assms by (cases "pfx_ip p"; cases a)
    (auto simp: Contains_sameHigh prefixOK_def PrefixIsValid_def IsValid_def drop_bit_unat_iff)

section \<open>Parsing inverts printing: prefixes\<close>

lemma BitLen_le: "BitLen a \<le> 128"
  by (cases a) auto

lemma atoiDigits_decStr:
  assumes "n < 1000"
  shows "atoiDigits (decStr n) = Some n"
proof -
  have "list_all isDigit (decStr n)" using decStr_digits[OF assms] by (auto simp: list_all_iff)
  moreover have "foldl (\<lambda>n c. n * 10 + digitVal c) 0 (decStr n) = n"
    using assms div_digit[of n 10 10] by (simp add: decStr_def)
  ultimately show ?thesis by (simp add: atoiDigits_def)
qed

lemma decStr_hd:
  assumes "n < 1000" "1 < length (decStr n)"
  shows "49 \<le> byte (hd (decStr n)) \<and> byte (hd (decStr n)) \<le> 57"
proof -
  consider "10 \<le> n" "n < 100" | "100 \<le> n" using assms(2) by (force simp: decStr_def)
  then show ?thesis
  proof cases
    case 1
    then have "0 < n div 10" "n div 10 < 10" by auto
    then show ?thesis using 1 by (simp add: decStr_def)
  next
    case 2
    then have "0 < n div 100" "n div 100 < 10" using assms(1) by auto
    then show ?thesis using 2 by (simp add: decStr_def)
  qed
qed

lemma ParsePrefix_print:
  assumes "prefixOK p"
  shows "ParsePrefix (PrefixString p) = Some p"
proof -
  let ?b = "nat (pfx_bits p)"
  have b: "?b < 1000" "?b \<le> BitLen (pfx_ip p)" "int ?b = pfx_bits p"
    using assms BitLen_le[of "pfx_ip p"] by (auto simp: prefixOK_def)
  have "CHR ''/'' \<notin> set (decStr ?b)" using decStr_digits[OF b(1), of "CHR ''/''"]
    by (auto simp: isDigit_def byte_def)
  then have "lastIndexByte CHR ''/'' (PrefixString p) = Some (length (AddrString (pfx_ip p)))"
    using assms lastIndexByte_split[of "CHR ''/''" "decStr ?b" "AddrString (pfx_ip p)"]
    by (simp add: PrefixString_def PrefixIsValid_def prefixOK_def)
  moreover have "ParseAddr (AddrString (pfx_ip p)) = Some (pfx_ip p)"
    using assms by (simp add: ParseAddr_print prefixOK_def)
  moreover have "PrefixFrom (pfx_ip p) (pfx_bits p) = p"
    using assms by (cases p) (simp add: PrefixFrom_def prefixOK_def)
  moreover have "take (length (AddrString (pfx_ip p))) (PrefixString p) = AddrString (pfx_ip p)"
    "drop (Suc (length (AddrString (pfx_ip p)))) (PrefixString p) = decStr ?b"
    using assms by (simp_all add: PrefixString_def PrefixIsValid_def prefixOK_def)
  moreover have "\<not> (1 < length (decStr ?b) \<and> (byte (hd (decStr ?b)) < 49 \<or> 57 < byte (hd (decStr ?b))))"
    using decStr_hd[OF b(1)] by fastforce
  ultimately show ?thesis using assms b atoiDigits_decStr[OF b(1)]
    by (simp only: ParsePrefix_def Let_def option.case prefixOK_def if_False not_less[symmetric]) simp
qed

end
