(* ===== verification/Slicex.thy ===== *)
theory Slicex
  imports Prelude
begin

text \<open>
  The generic helpers of \<open>src/internal/slicex/slicex.go\<close> and \<open>src/internal/collate/collate.go\<close>:
  deduplication that keeps the first occurrence, the linear merges \<open>Intersect\<close> and \<open>Diff\<close> on sorted
  slices, and the folds of flat rows into parents with children. The index loops of the source are
  recursions on the rest of the slices.
\<close>

section \<open>Dedup\<close>

fun dedupLoop :: "'a set \<Rightarrow> 'a list \<Rightarrow> 'a list \<Rightarrow> 'a list" where
  "dedupLoop seen out [] = out"
| "dedupLoop seen out (v # vs) =
    (if v \<in> seen then dedupLoop seen out vs else dedupLoop (insert v seen) (out @ [v]) vs)"

definition Dedup :: "'a list \<Rightarrow> 'a list" where
  "Dedup s = dedupLoop {} [] s"

lemma dedupLoop_seen:
  "dedupLoop seen out xs = out @ dedupLoop {} [] (filter (\<lambda>x. x \<notin> seen) xs)"
proof (induction "length xs" arbitrary: seen out xs rule: less_induct)
  case less
  show ?case
  proof (cases xs)
    case (Cons v vs)
    have IH: "dedupLoop s o' ys = o' @ dedupLoop {} [] (filter (\<lambda>x. x \<notin> s) ys)" if "length ys \<le> length vs"
      for s o' and ys :: "'a list"
      using less[of ys s o'] that Cons by simp
    show ?thesis
    proof (cases "v \<in> seen")
      case False
      then have "dedupLoop seen out xs = out @ [v] @ dedupLoop {} [] (filter (\<lambda>x. x \<notin> insert v seen) vs)"
        using Cons IH[of vs "insert v seen" "out @ [v]"] by simp
      moreover have "dedupLoop {} [] (filter (\<lambda>x. x \<notin> seen) xs) =
          [v] @ dedupLoop {} [] (filter (\<lambda>x. x \<notin> {v}) (filter (\<lambda>x. x \<notin> seen) vs))"
        using Cons False IH[of "filter (\<lambda>x. x \<notin> seen) vs" "{v}" "[v]"] by (simp add: le_simps)
      ultimately show ?thesis by (simp add: conj_commute)
    qed (use Cons IH[of vs seen out] in simp)
  qed simp
qed

lemma Dedup_Nil [simp]: "Dedup [] = []"
  by (simp add: Dedup_def)

lemma Dedup_Cons: "Dedup (v # vs) = v # Dedup (filter (\<lambda>x. x \<noteq> v) vs)"
  using dedupLoop_seen[of "{v}" "[v]" vs] by (simp add: Dedup_def)

lemma Dedup_induct [case_names Nil Cons]:
  assumes "P []" "\<And>v vs. P (filter (\<lambda>x. x \<noteq> v) vs) \<Longrightarrow> P (v # vs)"
  shows "P xs"
proof (induction "length xs" arbitrary: xs rule: less_induct)
  case less
  show ?case
  proof (cases xs)
    case (Cons v vs)
    then show ?thesis using assms(2)[of v vs] less[of "filter (\<lambda>x. x \<noteq> v) vs"] by (simp add: le_imp_less_Suc)
  qed (simp add: assms(1))
qed

lemma set_Dedup [simp]: "set (Dedup xs) = set xs"
  by (induction xs rule: Dedup_induct) (auto simp: Dedup_Cons)

lemma distinct_Dedup [simp]: "distinct (Dedup xs)"
  by (induction xs rule: Dedup_induct) (auto simp: Dedup_Cons)

lemma Dedup_filter: "Dedup (filter P xs) = filter P (Dedup xs)"
proof (induction xs rule: Dedup_induct)
  case (Cons v vs)
  show ?case
  proof (cases "P v")
    case True
    have "filter (\<lambda>x. x \<noteq> v) (filter P vs) = filter P (filter (\<lambda>x. x \<noteq> v) vs)" by (simp add: conj_commute)
    then show ?thesis using Cons True by (simp add: Dedup_Cons)
  next
    case False
    then have "filter P (filter (\<lambda>x. x \<noteq> v) vs) = filter P vs" by (auto intro: filter_cong)
    then show ?thesis using Cons False by (simp add: Dedup_Cons)
  qed
qed simp

lemma Dedup_id [simp]: "distinct xs \<Longrightarrow> Dedup xs = xs"
proof (induction xs)
  case (Cons v vs)
  then have "filter (\<lambda>x. x \<noteq> v) vs = vs" by (auto simp: filter_id_conv)
  then show ?case using Cons by (simp add: Dedup_Cons)
qed simp

lemma Dedup_append_fresh:
  "Dedup (xs @ [x]) = (if x \<in> set xs then Dedup xs else Dedup xs @ [x])"
proof (induction xs rule: Dedup_induct)
  case (Cons v vs)
  then show ?case by (auto simp: Dedup_Cons)
qed (simp add: Dedup_Cons)

section \<open>Intersect and Diff\<close>

fun Intersect :: "'a::linorder list \<Rightarrow> 'a list \<Rightarrow> 'a list" where
  "Intersect (a # as) (b # bs) =
    (if a = b then a # Intersect as bs
     else if a < b then Intersect as (b # bs)
     else Intersect (a # as) bs)"
| "Intersect _ _ = []"

fun Diff :: "'a::linorder list \<Rightarrow> 'a list \<Rightarrow> 'a list" where
  "Diff [] _ = []"
| "Diff (a # as) [] = a # Diff as []"
| "Diff (a # as) (b # bs) =
    (if a < b then a # Diff as (b # bs)
     else if a = b then Diff as bs
     else Diff (a # as) bs)"

lemma inter_mset_commute: "A \<inter># B = B \<inter># A"
  by (rule multiset_eqI) simp

lemma mset_inter_skip:
  "\<forall>y \<in># B. a < y \<Longrightarrow> add_mset a A \<inter># B = A \<inter># B" for a :: "'a::linorder"
  by (metis add_mset_add_single disjunct_not_in inter_add_left1 less_irrefl)

lemma mset_Intersect:
  "sorted as \<Longrightarrow> sorted bs \<Longrightarrow> mset (Intersect as bs) = mset as \<inter># mset bs"
proof (induction as bs rule: Intersect.induct)
  case (1 a as b bs)
  consider "a = b" | "a < b" | "b < a" by fastforce
  then show ?case
  proof cases
    case 1
    then show ?thesis using "1.IH"(1) "1.prems" by simp
  next
    case 2
    then have "\<forall>y \<in># mset (b # bs). a < y" using "1.prems"(2) by auto
    then have "mset (a # as) \<inter># mset (b # bs) = mset as \<inter># mset (b # bs)"
      using mset_inter_skip[of "mset (b # bs)" a "mset as"] by simp
    moreover have "a \<noteq> b" using 2 by simp
    ultimately show ?thesis using "1.IH"(2) "1.prems" 2 by (simp del: mset.simps)
  next
    case 3
    then have "\<forall>y \<in># mset (a # as). b < y" using "1.prems"(1) by auto
    then have "mset (a # as) \<inter># mset (b # bs) = mset (a # as) \<inter># mset bs"
      using mset_inter_skip[of "mset (a # as)" b "mset bs"] by (simp add: inter_mset_commute)
    moreover have "a \<noteq> b" "\<not> a < b" using 3 by auto
    ultimately show ?thesis using "1.IH"(3) "1.prems" by (simp del: mset.simps)
  qed
qed auto

lemma mset_Diff:
  "sorted as \<Longrightarrow> sorted bs \<Longrightarrow> mset (Diff as bs) = mset as - mset bs"
proof (induction as bs rule: Diff.induct)
  case (3 a as b bs)
  consider "a < b" | "a = b" | "b < a" by fastforce
  then show ?case
  proof cases
    case 1
    then have "a \<notin># mset (b # bs)" using "3.prems"(2) by auto
    then have "mset (a # as) - mset (b # bs) = add_mset a (mset as - mset (b # bs))"
      using diff_add_mset_swap[of a "mset (b # bs)" "mset as"] by simp
    then show ?thesis using "3.IH"(1) "3.prems" 1 by simp
  next
    case 2
    then show ?thesis using "3.IH"(2) "3.prems" by simp
  next
    case 3
    then have "b \<notin># mset (a # as)" using "3.prems"(1) by auto
    then have "mset (a # as) - mset (b # bs) = mset (a # as) - mset bs"
      using minus_add_mset_if_not_in_lhs[of b "mset (a # as)" "mset bs"] by simp
    moreover have "a \<noteq> b" "\<not> a < b" using 3 by auto
    ultimately show ?thesis using "3.IH"(3) "3.prems" by (simp del: mset.simps)
  qed
qed auto

lemma subseq_Intersect: "subseq (Intersect as bs) as"
  by (induction as bs rule: Intersect.induct) (auto intro: list_emb_Cons)

lemma subseq_Diff: "subseq (Diff as bs) as"
  by (induction as bs rule: Diff.induct) (auto intro: list_emb_Cons)

lemma sorted_subseq: "subseq xs ys \<Longrightarrow> sorted ys \<Longrightarrow> sorted xs"
  by (induction rule: list_emb.induct) (auto dest: list_emb_set)

lemma subseq_distinct: "subseq xs ys \<Longrightarrow> distinct ys \<Longrightarrow> distinct xs"
  by (induction rule: list_emb.induct) (auto dest: list_emb_set)

text \<open>On strictly increasing slices the two merges are filters.\<close>

lemma Intersect_filter:
  assumes "sorted as" "sorted bs" "distinct as" "distinct bs"
  shows "Intersect as bs = filter (\<lambda>x. x \<in> set bs) as"
proof (rule sorted_distinct_set_unique)
  show "sorted (Intersect as bs)" using sorted_subseq subseq_Intersect assms(1) by blast
  show "distinct (Intersect as bs)" using subseq_distinct subseq_Intersect assms(3) by blast
  have "set_mset (mset (Intersect as bs)) = set as \<inter> set bs" using mset_Intersect[OF assms(1,2)] by auto
  then show "set (Intersect as bs) = set (filter (\<lambda>x. x \<in> set bs) as)" by auto
qed (use assms in \<open>auto simp: sorted_wrt_filter\<close>)

lemma Diff_filter:
  assumes "sorted as" "sorted bs" "distinct as" "distinct bs"
  shows "Diff as bs = filter (\<lambda>x. x \<notin> set bs) as"
proof (rule sorted_distinct_set_unique)
  show "sorted (Diff as bs)" using sorted_subseq subseq_Diff assms(1) by blast
  show "distinct (Diff as bs)" using subseq_distinct subseq_Diff assms(3) by blast
  have c: "count (mset xs) x = (if x \<in> set xs then 1 else 0)" if "distinct xs" for xs and x :: 'a
    using that by (simp add: distinct_count_atmost_1)
  have "x \<in># mset (Diff as bs) \<longleftrightarrow> x \<in> set as - set bs" for x
    by (simp only: mset_Diff[OF assms(1,2)] in_diff_count c[OF assms(3)] c[OF assms(4)]) simp
  then show "set (Diff as bs) = set (filter (\<lambda>x. x \<notin> set bs) as)" by auto
qed (use assms in \<open>auto simp: sorted_wrt_filter\<close>)

section \<open>Collapse and GroupByMap\<close>

text \<open>The loop state is the map from keys to positions and the parents built so far; \<open>attach\<close>
  updates the parent in place.\<close>

definition collapseStep ::
  "('r \<Rightarrow> 'k) \<Rightarrow> ('r \<Rightarrow> 'p) \<Rightarrow> ('r \<Rightarrow> 'c option) \<Rightarrow> ('p \<Rightarrow> 'c \<Rightarrow> 'p)
   \<Rightarrow> ('k \<rightharpoonup> nat) \<times> 'p list \<Rightarrow> 'r \<Rightarrow> ('k \<rightharpoonup> nat) \<times> 'p list" where
  "collapseStep key newParent child attach st r =
    (let (seen, out) = st; k = key r;
         (idx, seen', out') = (case seen k of Some i \<Rightarrow> (i, seen, out)
            | None \<Rightarrow> (length out, seen(k \<mapsto> length out), out @ [newParent r]))
     in (seen', case child r of None \<Rightarrow> out' | Some c \<Rightarrow> out'[idx := attach (out' ! idx) c]))"

definition Collapse ::
  "'r list \<Rightarrow> ('r \<Rightarrow> 'k) \<Rightarrow> ('r \<Rightarrow> 'p) \<Rightarrow> ('r \<Rightarrow> 'c option) \<Rightarrow> ('p \<Rightarrow> 'c \<Rightarrow> 'p) \<Rightarrow> 'p list" where
  "Collapse rows key newParent child attach =
    snd (foldl (collapseStep key newParent child attach) (Map.empty, []) rows)"

definition GroupByMap :: "'t list \<Rightarrow> ('t \<Rightarrow> 'k) \<Rightarrow> ('t \<Rightarrow> 'v) \<Rightarrow> 'k \<Rightarrow> 'v list" where
  "GroupByMap items key val = foldl (\<lambda>out it. out(key it := out (key it) @ [val it])) (\<lambda>_. []) items"

text \<open>The reference: for each key in the order of its first row, the parent of that row with the
  children of all rows of the key attached in order.\<close>

definition parentOf ::
  "('r \<Rightarrow> 'k) \<Rightarrow> ('r \<Rightarrow> 'p) \<Rightarrow> ('r \<Rightarrow> 'c option) \<Rightarrow> ('p \<Rightarrow> 'c \<Rightarrow> 'p) \<Rightarrow> 'r list \<Rightarrow> 'k \<Rightarrow> 'p" where
  "parentOf key newParent child attach rows k =
    (let rs = filter (\<lambda>r. key r = k) rows
     in foldl attach (newParent (hd rs)) (List.map_filter child rs))"

definition posMap :: "'k list \<Rightarrow> 'k \<rightharpoonup> nat" where
  "posMap ks k = (if k \<in> set ks then Some (length (takeWhile (\<lambda>x. x \<noteq> k) ks)) else None)"

lemma posMap_snoc: "k \<notin> set ks \<Longrightarrow> posMap (ks @ [k]) = (posMap ks)(k \<mapsto> length ks)"
proof (rule ext)
  fix x assume k: "k \<notin> set ks"
  then have "takeWhile (\<lambda>y. y \<noteq> k) (ks @ [k]) = ks" by (auto simp: takeWhile_append takeWhile_eq_all_conv)
  moreover have "takeWhile (\<lambda>y. y \<noteq> x) (ks @ [k]) = takeWhile (\<lambda>y. y \<noteq> x) ks" if "x \<in> set ks"
    using that by (auto simp: takeWhile_append)
  ultimately show "posMap (ks @ [k]) x = ((posMap ks)(k \<mapsto> length ks)) x" using k by (auto simp: posMap_def)
qed

lemma posMap_Some:
  assumes "posMap ks k = Some i"
  shows "i < length ks \<and> ks ! i = k"
proof -
  have "k \<in> set ks" and i: "i = length (takeWhile (\<lambda>x. x \<noteq> k) ks)"
    using assms by (auto simp: posMap_def split: if_splits)
  then obtain a b where "ks = a @ k # b" "k \<notin> set a" by (meson split_list_first)
  then have "takeWhile (\<lambda>x. x \<noteq> k) ks = a" by (auto simp: takeWhile_append takeWhile_eq_all_conv)
  then show ?thesis using \<open>ks = a @ k # b\<close> i by simp
qed

lemma parentOf_other: "key r \<noteq> k \<Longrightarrow> parentOf key np ch at (rs @ [r]) k = parentOf key np ch at rs k"
  by (simp add: parentOf_def)

lemma parentOf_new:
  assumes "key r \<notin> key ` set rs"
  shows "parentOf key np ch at (rs @ [r]) (key r) = (case ch r of None \<Rightarrow> np r | Some c \<Rightarrow> at (np r) c)"
proof -
  have "filter (\<lambda>x. key x = key r) rs = []" using assms by (metis (mono_tags, lifting) filter_False image_eqI)
  then show ?thesis by (simp add: parentOf_def map_filter_def split: option.splits)
qed

lemma parentOf_old:
  assumes "key r \<in> key ` set rs"
  shows "parentOf key np ch at (rs @ [r]) (key r) =
    (case ch r of None \<Rightarrow> parentOf key np ch at rs (key r)
     | Some c \<Rightarrow> at (parentOf key np ch at rs (key r)) c)"
proof -
  have "filter (\<lambda>x. key x = key r) rs \<noteq> []" using assms by (auto simp: filter_empty_conv)
  then show ?thesis by (simp add: parentOf_def map_filter_def split: option.splits)
qed

lemma collapse_state:
  "foldl (collapseStep key np ch at) (Map.empty, []) rows =
    (posMap (Dedup (map key rows)), map (parentOf key np ch at rows) (Dedup (map key rows)))"
proof (induction rows rule: rev_induct)
  case Nil
  then show ?case by (auto simp: posMap_def)
next
  case (snoc r rows)
  let ?ks = "Dedup (map key rows)"
  show ?case
  proof (cases "key r \<in> key ` set rows")
    case False
    then have fresh: "posMap ?ks (key r) = None" "key r \<notin> set ?ks" by (auto simp: posMap_def)
    then have "map (parentOf key np ch at (rows @ [r])) ?ks = map (parentOf key np ch at rows) ?ks"
      by (auto intro!: map_cong parentOf_other)
    then show ?thesis using snoc False fresh
      by (auto simp: collapseStep_def Dedup_append_fresh posMap_snoc parentOf_new list_update_append nth_append
          split: option.splits)
  next
    case True
    then have "key r \<in> set ?ks" by auto
    then obtain i where i: "posMap ?ks (key r) = Some i" by (auto simp: posMap_def)
    have ik: "i < length ?ks" "?ks ! i = key r" using posMap_Some[OF i] by auto
    have "map (parentOf key np ch at (rows @ [r])) ?ks =
        (map (parentOf key np ch at rows) ?ks)[i := parentOf key np ch at (rows @ [r]) (key r)]"
    proof (rule nth_equalityI)
      fix j assume "j < length (map (parentOf key np ch at (rows @ [r])) ?ks)"
      then show "map (parentOf key np ch at (rows @ [r])) ?ks ! j =
          (map (parentOf key np ch at rows) ?ks)[i := parentOf key np ch at (rows @ [r]) (key r)] ! j"
        using ik nth_eq_iff_index_eq[of ?ks j i] by (cases "j = i") (auto intro!: parentOf_other)
    qed simp
    moreover have "(map (parentOf key np ch at rows) ?ks)[i := parentOf key np ch at rows (key r)] =
        map (parentOf key np ch at rows) ?ks"
      using ik by (metis length_map list_update_id nth_map)
    ultimately show ?thesis using snoc True i ik
      by (simp add: collapseStep_def Dedup_append_fresh parentOf_old split: option.splits)
  qed
qed

lemma Collapse_eq:
  "Collapse rows key np ch at = map (parentOf key np ch at rows) (Dedup (map key rows))"
  by (simp add: Collapse_def collapse_state)

lemma GroupByMap_eq: "GroupByMap items key val k = map val (filter (\<lambda>x. key x = k) items)"
proof -
  have "foldl (\<lambda>out it. out(key it := out (key it) @ [val it])) f items k =
      f k @ map val (filter (\<lambda>x. key x = k) items)" for f
    by (induction items arbitrary: f) auto
  then show ?thesis by (simp add: GroupByMap_def)
qed

end
