(* ===== verification/Store.thy ===== *)
theory Store
  imports Netip Slicex
begin

text \<open>
  The database as the services see it, and its transactions.

  Every table of the schema that the modelled code reads or writes is a list of rows in the order of
  the row ids (SQLite appends the next id and scans in that order). The rows are the structs of the
  packages. \<open>op\<close> is the type of a repository call: it returns an error or a value together with
  the store it leaves behind, so that a call that fails after some writes shows them;
  \<open>withinTx\<close> is what undoes them.

  Failures of the driver (a lost connection, a full disk) are parameters of \<open>execTx\<close> only; the
  repository calls fail with the constraint violations and missing rows that the code turns into
  its own errors. Each operation reads the clock once, as its argument \<open>now\<close>, in nanoseconds.
\<close>

section \<open>Errors\<close>

datatype hosts_err =
    ErrBadRequest | ErrHostNotFound | ErrHostConflict | ErrHostFQDNImmutable | ErrDuplicateHostID
  | ErrDuplicateHostFQDN | ErrHostGroupNotFound | ErrHostGroupConflict | ErrGroupNameRequired
  | ErrInvalidGroupColor | ErrDuplicateGroupID | ErrSuggestionNotFound | ErrSuggestionConflict
  | ErrReferenceNotFound

datatype networkpolicies_err = ErrNotFound | ErrCIDRConflict | ErrInvalidCIDR | ErrCIDRTooBroad

datatype device_err =
    ErrDeviceNotFound | ErrDeviceDisabled | ErrOwnerNotFound | ErrNoAPIKey | ErrDuplicateDeviceName
  | ErrAddressNotFound | ErrInvalidIPFormat | ErrInvalidDeviceIP | ErrTrustedProxyIPRejected
  | ErrAddressNotOwnedByDevice | ErrInvalidAPIKey | ErrInvalidDeviceName | ErrDescriptionTooLong
  | ErrIconTooLong

datatype rule_err = ErrRuleNotFound | ErrInvalidRuleConfig | ErrInvalidTTL | ErrInvalidMaxAddresses

datatype auth_err =
    ErrInvalidCredentials | ErrAdminCredentialsRequired | ErrSuperAdminCredentialsRequired
  | ErrUsernameTaken | ErrEmailTaken | ErrUserNotFound | ErrInvalidUsername | ErrInvalidDisplayName
  | ErrInvalidPassword | ErrSelfDeleteForbidden | ErrSelfRoleChangeForbidden | ErrPromoteAlreadyAdmin
  | ErrNoUpdateFields

datatype pairing_err = ErrPairingNotFound | ErrPairingNotPending | ErrPairingNotClaimable | ErrPairingExpired

text \<open>\<open>DBError\<close> stands for the errors that the code wraps without a sentinel of its own;
  \<open>UserAccessRef\<close> is \<open>useraccess.ErrReferenceNotFound\<close>.\<close>

datatype err = HostsErr hosts_err | PolicyErr networkpolicies_err | DeviceErr device_err
  | RuleErr rule_err | AuthErr auth_err | PairingErr pairing_err | UserAccessRef | DBError

section \<open>Rows\<close>

record Host =
  h_ID :: id
  h_FQDN :: string
  h_UpdatedAt :: time
  h_CreatedAt :: time

record HostGroupRow =
  g_ID :: id
  g_Name :: string
  g_Color :: string
  g_Icon :: string
  g_Description :: "string option"
  g_UpdatedAt :: time
  g_CreatedAt :: time

record UserHostSetting =
  us_UserID :: id
  us_BypassHostCheck :: bool

record NetworkPolicy =
  np_ID :: id
  np_Name :: string
  np_CIDR :: string
  np_Description :: "string option"
  np_Enabled :: bool
  np_BypassHostCheck :: bool
  np_CreatedAt :: time
  np_UpdatedAt :: time

datatype Role = SuperAdminRole | AdminRole | UserRole

record User =
  u_ID :: id
  u_Username :: string
  u_DisplayName :: string
  u_Email :: "string option"
  u_PasswordHash :: "string option"
  u_Role :: Role
  u_MustChangePassword :: bool
  u_CreatedBy :: "id option"
  u_CreatedAt :: time
  u_DeletedAt :: "time option"

record Session =
  s_ID :: id
  s_UserID :: id
  s_TokenHash :: string
  s_CreatedAt :: time
  s_ExpiresAt :: time
  s_LastUsedAt :: "time option"
  s_RevokedAt :: "time option"

record DeviceRow =
  d_ID :: id
  d_Name :: string
  d_Description :: "string option"
  d_Icon :: "string option"
  d_CreatedAt :: time
  d_UpdatedAt :: time
  d_DeletedAt :: "time option"
  d_DisabledAt :: "time option"
  d_OwnerID :: id

record APIKeyRow =
  k_DeviceID :: id
  k_Prefix :: string
  k_Hash :: string
  k_CreatedAt :: time

datatype EventSource = EventSourceHeartbeat | EventSourceWebUI | EventSourceExpiry | EventSourceLimitExceeded

datatype EventTrigger = EventTriggerUser | EventTriggerSchedule | EventTriggerNetworkChange | EventTriggerSystem

record Address =
  a_ID :: id
  a_DeviceID :: id
  a_IP :: string
  a_IsEnabled :: bool
  a_Source :: EventSource
  a_CreatedAt :: time
  a_UpdatedAt :: time

record AddressEventRow =
  ae_AddressID :: id
  ae_IsEnabled :: bool
  ae_Source :: EventSource
  ae_Trigger :: EventTrigger
  ae_CreatedAt :: time

datatype RuleType = RuleTypeDeviceAddressLease | RuleTypeMaxActiveAddresses

record Rule =
  r_ID :: id
  r_DeviceID :: id
  r_RuleType :: RuleType
  r_Enabled :: bool
  r_Config :: string
  r_CreatedAt :: time
  r_UpdatedAt :: time

record AddressLease =
  l_ID :: id
  l_DeviceID :: id
  l_AddressID :: id
  l_ExpiresAt :: "time option"
  l_UpdatedAt :: time
  l_CreatedAt :: time

datatype storedPairingStatus = storedPending | storedUsed | storedInvalidated | storedReplaced

record pairingRow =
  pr_ID :: id
  pr_DeviceID :: id
  pr_PairingCode :: string
  pr_HeartbeatServerURL :: string
  pr_HeartbeatIntervalSeconds :: int
  pr_AppBiometricEnabled :: bool
  pr_AppSettingsLocked :: bool
  pr_ExpiresAt :: time
  pr_CreatedAt :: time
  pr_UpdatedAt :: time
  pr_Status :: storedPairingStatus

section \<open>The store\<close>

text \<open>A row of \<open>access_log\<close> and its children: the devices behind the client, the network policy that let it in (whose id
  becomes \<open>NULL\<close> when the policy is deleted) and what GeoIP says; then the hourly aggregates of both kinds.\<close>

record AccessLogRow =
  al_ID :: id
  al_ClientIP :: string
  al_Outcome :: bool
  al_DenyReason :: "string option"
  al_ContributorCount :: int
  al_CreatedAt :: time
  al_XFFChain :: "string option"
  al_TargetHost :: "string option"
  al_TargetURI :: "string option"
  al_HTTPMethod :: "string option"
  al_HeadersJSON :: string
  al_DurationUs :: int

record LogContributor =
  lc_AccessLogID :: id
  lc_DeviceID :: id
  lc_AddressID :: id
  lc_UserID :: id

record LogPolicy =
  lp_AccessLogID :: id
  lp_PolicyID :: "id option"
  lp_PolicyName :: string

record LogGeoip =
  lg_AccessLogID :: id
  lg_CountryCode :: string
  lg_CountryName :: string
  lg_ContinentCode :: string
  lg_ASN :: int
  lg_ASNOrg :: string

record TrafficAggregate =
  ta_BucketAt :: time
  ta_ClientIP :: string
  ta_TargetHost :: string
  ta_Outcome :: bool
  ta_DenyReason :: string
  ta_RequestCount :: int
  ta_SumDurationUs :: int
  ta_MaxDurationUs :: int
  ta_CountryCode :: string
  ta_CountryName :: string
  ta_ContinentCode :: string

record AttributionAggregate =
  aa_BucketAt :: time
  aa_EntityKind :: string
  aa_EntityID :: "id option"
  aa_EntityName :: string
  aa_Outcome :: bool
  aa_RequestCount :: int

record store =
  st_users :: "User list"
  st_sessions :: "Session list"
  st_devices :: "DeviceRow list"
  st_apiKeys :: "APIKeyRow list"
  st_addresses :: "Address list"
  st_addressEvents :: "AddressEventRow list"
  st_rules :: "Rule list"
  st_leases :: "AddressLease list"
  st_hosts :: "Host list"
  st_hostGroups :: "HostGroupRow list"
  st_groupMembers :: "(id \<times> id) list"
  st_ignored :: "(id \<times> string) list"
  st_userSettings :: "UserHostSetting list"
  st_userGroups :: "(id \<times> id) list"
  st_policies :: "NetworkPolicy list"
  st_policySeq :: id
  st_policyGroups :: "(id \<times> id) list"
  st_pairings :: "pairingRow list"
  st_accessLog :: "AccessLogRow list"
  st_logContributors :: "LogContributor list"
  st_logPolicies :: "LogPolicy list"
  st_logGeoip :: "LogGeoip list"
  st_trafficAggregates :: "TrafficAggregate list"
  st_attributionAggregates :: "AttributionAggregate list"

definition emptyStore :: store where
  "emptyStore = \<lparr> st_users = [], st_sessions = [], st_devices = [], st_apiKeys = [], st_addresses = [],
     st_addressEvents = [], st_rules = [], st_leases = [], st_hosts = [], st_hostGroups = [],
     st_groupMembers = [], st_ignored = [], st_userSettings = [], st_userGroups = [], st_policies = [],
     st_policySeq = 0, st_policyGroups = [], st_pairings = [], st_accessLog = [], st_logContributors = [],
     st_logPolicies = [], st_logGeoip = [], st_trafficAggregates = [], st_attributionAggregates = [] \<rparr>"

text \<open>The next id of a table without \<open>AUTOINCREMENT\<close>: one more than the largest id in use.\<close>

definition nextID :: "id list \<Rightarrow> id" where
  "nextID ids = fold max ids 0 + 1"

lemma fold_max_ge: "(m::int) \<le> fold max xs m"
proof (induction xs arbitrary: m)
  case (Cons y ys)
  then show ?case using order_trans[OF max.cobounded2 Cons.IH[of "max y m"]] by simp
qed simp

lemma fold_max_mem: "x \<in> set xs \<Longrightarrow> (x::int) \<le> fold max xs m"
proof (induction xs arbitrary: m)
  case (Cons y ys)
  then show ?case using fold_max_ge[of "max y m" ys] by (cases "x = y") auto
qed simp

lemma nextID_fresh: "nextID ids \<notin> set ids"
  using fold_max_mem[of "nextID ids" ids 0] by (auto simp: nextID_def)

lemma nextID_neq [simp]: "x \<in> set xs \<Longrightarrow> nextID (map f xs) \<noteq> f x" "x \<in> set xs \<Longrightarrow> f x \<noteq> nextID (map f xs)"
  using nextID_fresh[of "map f xs"] by (metis image_eqI set_map)+

lemma nextID_pos: "0 < nextID ids"
  using fold_max_ge[of 0 ids] by (simp add: nextID_def)

section \<open>Operations and transactions\<close>

type_synonym 'a op = "store \<Rightarrow> (err, 'a) result \<times> store"

definition ret :: "'a \<Rightarrow> 'a op" where
  "ret x s = (Inr x, s)"

definition throw :: "err \<Rightarrow> 'a op" where
  "throw e s = (Inl e, s)"

definition andThen :: "'a op \<Rightarrow> ('a \<Rightarrow> 'b op) \<Rightarrow> 'b op" where
  "andThen f g s = (case f s of (Inl e, s') \<Rightarrow> (Inl e, s') | (Inr x, s') \<Rightarrow> g x s')"

definition get :: "(store \<Rightarrow> 'a) \<Rightarrow> 'a op" where
  "get f s = (Inr (f s), s)"

definition modify :: "(store \<Rightarrow> store) \<Rightarrow> unit op" where
  "modify f s = (Inr (), f s)"

fun forEach :: "('x \<Rightarrow> unit op) \<Rightarrow> 'x list \<Rightarrow> unit op" where
  "forEach f [] = ret ()"
| "forEach f (x # xs) = andThen (f x) (\<lambda>_. forEach f xs)"

fun mapEach :: "('x \<Rightarrow> 'a op) \<Rightarrow> 'x list \<Rightarrow> 'a list op" where
  "mapEach f [] = ret []"
| "mapEach f (x # xs) = andThen (f x) (\<lambda>y. andThen (mapEach f xs) (\<lambda>ys. ret (y # ys)))"

text \<open>A failure inside a transaction is the function's own error, an error code of the driver, or
  a driver error that \<open>mapBusyErr\<close> has recognised as lock contention.\<close>

datatype 'e txerr = FnErr 'e | DriverErr int | ErrContended int

definition mapBusyErr :: "'e txerr \<Rightarrow> 'e txerr" where
  "mapBusyErr e = (case e of DriverErr code \<Rightarrow>
       if code = 5 \<or> code = 261 \<or> code = 517 then ErrContended code else DriverErr code
     | _ \<Rightarrow> e)"

text \<open>\<open>beginErr\<close> and \<open>commitErr\<close> are the driver's answers to BEGIN and COMMIT. A transaction that
  ends in an error, at either end or in between, leaves the store as it was.\<close>

definition execTx ::
  "int option \<Rightarrow> int option \<Rightarrow> ('s \<Rightarrow> ('e txerr, 'a) result \<times> 's) \<Rightarrow> 's \<Rightarrow> ('e txerr, 'a) result \<times> 's" where
  "execTx beginErr commitErr fn s = (case beginErr of Some c \<Rightarrow> (Inl (DriverErr c), s)
     | None \<Rightarrow> (case fn s of (Inl e, _) \<Rightarrow> (Inl e, s)
       | (Inr x, s') \<Rightarrow> (case commitErr of Some c \<Rightarrow> (Inl (DriverErr c), s) | None \<Rightarrow> (Inr x, s'))))"

definition withinTxDriver ::
  "bool \<Rightarrow> int option \<Rightarrow> int option \<Rightarrow> ('s \<Rightarrow> ('e txerr, 'a) result \<times> 's)
   \<Rightarrow> 's \<Rightarrow> (('e txerr, 'a) result \<times> 's) \<times> bool" where
  "withinTxDriver inTx beginErr commitErr fn s =
    (if inTx then (fn s, False)
     else case execTx beginErr commitErr fn s of
       (Inl e, s') \<Rightarrow> ((Inl (mapBusyErr e), s'), (case mapBusyErr e of ErrContended _ \<Rightarrow> True | _ \<Rightarrow> False))
     | (Inr x, s') \<Rightarrow> ((Inr x, s'), False))"

text \<open>The same on repository operations when the driver answers: nested calls run in the outer
  transaction, without savepoints.\<close>

definition withinTx :: "bool \<Rightarrow> 'a op \<Rightarrow> 'a op" where
  "withinTx inTx fn s = (if inTx then fn s
     else case fn s of (Inl e, _) \<Rightarrow> (Inl e, s) | (Inr x, s') \<Rightarrow> (Inr x, s'))"

lemma ret_eq [simp]: "ret x s = (Inr x, s)" by (simp add: ret_def)
lemma throw_eq [simp]: "throw e s = (Inl e, s)" by (simp add: throw_def)
lemma get_eq [simp]: "get f s = (Inr (f s), s)" by (simp add: get_def)
lemma modify_eq [simp]: "modify f s = (Inr (), f s)" by (simp add: modify_def)

lemma andThen_Inl: "f s = (Inl e, s') \<Longrightarrow> andThen f g s = (Inl e, s')"
  by (simp add: andThen_def)

lemma andThen_Inr: "f s = (Inr x, s') \<Longrightarrow> andThen f g s = g x s'"
  by (simp add: andThen_def)

lemma andThen_get [simp]: "andThen (get f) g s = g (f s) s"
  by (simp add: andThen_def)

lemma andThen_ret [simp]: "andThen (ret x) g s = g x s"
  by (simp add: andThen_def)

lemma andThen_throw [simp]: "andThen (throw e) g s = (Inl e, s)"
  by (simp add: andThen_def)

lemma andThen_modify [simp]: "andThen (modify f) g s = g () (f s)"
  by (simp add: andThen_def)

lemma andThen_InrD:
  assumes "andThen f g s = (Inr y, s')"
  obtains x t where "f s = (Inr x, t)" "g x t = (Inr y, s')"
  using assms by (auto simp: andThen_def split: prod.splits sum.splits)

lemma andThen_cases:
  obtains (err) e t where "f s = (Inl e, t)" "andThen f g s = (Inl e, t)"
  | (ok) x t where "f s = (Inr x, t)" "andThen f g s = g x t"
  by (cases "f s"; cases "fst (f s)") (auto simp: andThen_def)

lemma withinTx_True [simp]: "withinTx True fn s = fn s"
  by (simp add: withinTx_def)

lemma withinTx_Inl: "withinTx False fn s = (Inl e, s') \<Longrightarrow> s' = s"
  by (auto simp: withinTx_def split: prod.splits sum.splits)

lemma withinTx_Inr: "withinTx b fn s = (Inr x, s') \<longleftrightarrow> fn s = (Inr x, s')"
  by (auto simp: withinTx_def split: prod.splits sum.splits)

lemma withinTx_fst: "fst (withinTx b fn s) = fst (fn s)"
  by (auto simp: withinTx_def split: prod.splits sum.splits)

text \<open>An invariant kept by the function is kept by the transaction, and the combinators keep what
  their parts keep.\<close>

definition keeps :: "(store \<Rightarrow> bool) \<Rightarrow> 'a op \<Rightarrow> bool" where
  "keeps I f \<longleftrightarrow> (\<forall>s. I s \<longrightarrow> I (snd (f s)))"

lemma keepsI: "(\<And>s. I s \<Longrightarrow> I (snd (f s))) \<Longrightarrow> keeps I f"
  by (simp add: keeps_def)

lemma keepsD: "keeps I f \<Longrightarrow> I s \<Longrightarrow> f s = (r, s') \<Longrightarrow> I s'"
  by (metis keeps_def snd_conv)

lemma keeps_ret [inv_intros]: "keeps I (ret x)" by (simp add: keeps_def)
lemma keeps_throw [inv_intros]: "keeps I (throw e)" by (simp add: keeps_def)
lemma keeps_get [inv_intros]: "keeps I (get f)" by (simp add: keeps_def)

lemma keeps_andThen [inv_intros]:
  assumes "keeps I f" "\<And>x. keeps I (g x)"
  shows "keeps I (andThen f g)"
proof (rule keepsI)
  fix s assume s: "I s"
  show "I (snd (andThen f g s))"
  proof (cases rule: andThen_cases[of f s g])
    case (err e t)
    then show ?thesis using keepsD[OF assms(1) s] by simp
  next
    case (ok x t)
    then show ?thesis using keepsD[OF assms(1) s] assms(2)[of x] by (simp add: keeps_def)
  qed
qed

lemma keeps_withinTx [inv_intros]:
  assumes "keeps I f"
  shows "keeps I (withinTx b f)"
proof (rule keepsI)
  fix s assume "I s"
  then show "I (snd (withinTx b f s))"
    using assms by (cases "f s"; cases "fst (f s)") (auto simp: withinTx_def dest: keepsD split: sum.splits)
qed

lemma keeps_forEach [inv_intros]:
  assumes "\<And>x. x \<in> set xs \<Longrightarrow> keeps I (f x)"
  shows "keeps I (forEach f xs)"
  using assms by (induction xs) (auto intro: inv_intros)

lemma keeps_mapEach [inv_intros]:
  assumes "\<And>x. x \<in> set xs \<Longrightarrow> keeps I (f x)"
  shows "keeps I (mapEach f xs)"
  using assms by (induction xs) (auto intro!: inv_intros)

text \<open>The transactor as an interface: a service only relies on these laws of \<open>WithinTx\<close>.\<close>

locale transactor =
  fixes tx :: "bool \<Rightarrow> 'a op \<Rightarrow> 'a op"
  assumes tx_ok: "fn s = (Inr x, s') \<Longrightarrow> tx b fn s = (Inr x, s')"
    and tx_err: "fn s = (Inl e, s') \<Longrightarrow> tx False fn s = (Inl e, s)"
    and tx_nested: "tx True fn s = fn s"
begin

lemma tx_atomic: "tx False fn s = (Inl e, s') \<Longrightarrow> s' = s"
  by (metis tx_ok tx_err old.sum.exhaust prod.exhaust_sel sum.distinct(1) Pair_inject)

lemma tx_result: "fst (tx b fn s) = fst (fn s)"
  by (cases b; cases "fn s"; cases "fst (fn s)") (auto simp: tx_nested tx_ok tx_err)

lemma tx_inv: "(\<And>t. I t \<Longrightarrow> I (snd (fn t))) \<Longrightarrow> I s \<Longrightarrow> I (snd (tx b fn s))"
  by (cases b; cases "fn s"; cases "fst (fn s)") (auto simp: tx_nested tx_ok tx_err, (metis snd_conv)+)

end

interpretation storeTx: transactor withinTx
  by unfold_locales (auto simp: withinTx_def)

text \<open>With an answering driver, \<open>withinTxDriver\<close> is \<open>withinTx\<close>.\<close>

lemma withinTxDriver_withinTx:
  "withinTxDriver b None None (\<lambda>s. case fn s of (Inl e, s') \<Rightarrow> (Inl (FnErr e), s') | (Inr x, s') \<Rightarrow> (Inr x, s')) s =
    ((case withinTx b fn s of (Inl e, s') \<Rightarrow> (Inl (FnErr e), s') | (Inr x, s') \<Rightarrow> (Inr x, s')), False)"
  by (cases "fn s"; cases "fst (fn s)")
    (auto simp: withinTxDriver_def execTx_def withinTx_def mapBusyErr_def split: sum.splits)

end
