(* ===== verification/Events.thy ===== *)
theory Events
  imports Store
begin

text \<open>
  The events the services hand to their observers, and the shape of a service call: a result, the
  notifications it sent, and the store it leaves. The observers themselves (the policy cache, the
  lease and address-limit listeners) are modelled in their own theories; here a notification is a
  value, so that the theorems can say which calls send one.
\<close>

datatype AddressEventType = EventTypeAddressCreated | EventTypeAddressEnabled
  | EventTypeAddressRefreshed | EventTypeAddressDisabled

record AddressEvent =
  ev_Type :: AddressEventType
  ev_AddressID :: id
  ev_DeviceID :: id
  ev_OccurredAt :: time

definition NewAddressEvent :: "time \<Rightarrow> Address \<Rightarrow> AddressEventType \<Rightarrow> AddressEvent" where
  "NewAddressEvent now address eventType = \<lparr> ev_Type = eventType, ev_AddressID = a_ID address,
     ev_DeviceID = a_DeviceID address, ev_OccurredAt = now \<rparr>"

fun IsAddressEnabled :: "AddressEvent \<Rightarrow> bool" where
  "IsAddressEnabled e = (case ev_Type e of EventTypeAddressCreated \<Rightarrow> True | EventTypeAddressEnabled \<Rightarrow> True
     | EventTypeAddressRefreshed \<Rightarrow> True | EventTypeAddressDisabled \<Rightarrow> False)"

datatype DeviceEventType = DeviceEventTypeOwnershipChanged

record DeviceEvent =
  dev_Type :: DeviceEventType
  dev_DeviceID :: id
  dev_OccurredAt :: time

datatype RuleEventType = RuleEventTypeEnabled | RuleEventTypeDisabled

record RuleEvent =
  rev_Type :: RuleEventType
  rev_DeviceID :: id
  rev_RuleType :: RuleType
  rev_TTLSeconds :: "int option"
  rev_OccurredAt :: time

datatype UserEventType = EventTypeUserCreated | EventTypeUserDeleted

record UserEvent =
  uev_Type :: UserEventType
  uev_UserID :: id

text \<open>An enabled address with its device and owner, as \<open>device.GetEnabledIPEntries\<close> returns it to the
  policy cache.\<close>

record IPEntry =
  ie_IP :: string
  ie_DeviceID :: id
  ie_AddressID :: id
  ie_UserID :: id

datatype notice = HostAccessChanged | NetworkPolicyChanged | AddressNotice AddressEvent
  | DeviceNotice DeviceEvent | RuleNotice RuleEvent

type_synonym 'a svc = "store \<Rightarrow> (err, 'a) result \<times> notice list \<times> store"

text \<open>\<open>notifying f ev\<close>: the common end of a service call, which returns early on an error and
  notifies the observers otherwise.\<close>

definition notifying :: "'a op \<Rightarrow> ('a \<Rightarrow> notice list) \<Rightarrow> 'a svc" where
  "notifying f ev s = (case f s of (Inl e, s') \<Rightarrow> (Inl e, [], s') | (Inr x, s') \<Rightarrow> (Inr x, ev x, s'))"

definition storeAfter :: "(err, 'a) result \<times> notice list \<times> store \<Rightarrow> store" where
  "storeAfter r = snd (snd r)"

definition noticesOf :: "(err, 'a) result \<times> notice list \<times> store \<Rightarrow> notice list" where
  "noticesOf r = fst (snd r)"

lemma notifying_Inr: "notifying f ev s = (Inr x, ns, s') \<longleftrightarrow> f s = (Inr x, s') \<and> ns = ev x"
  by (auto simp: notifying_def split: prod.splits sum.splits)

lemma notifying_Inl: "notifying f ev s = (Inl e, ns, s') \<longleftrightarrow> f s = (Inl e, s') \<and> ns = []"
  by (auto simp: notifying_def split: prod.splits sum.splits)

lemma notifying_store: "storeAfter (notifying f ev s) = snd (f s)"
  by (auto simp: notifying_def storeAfter_def split: prod.splits sum.splits)

end
