(* ===== verification/Hosts.thy ===== *)
theory Hosts
  imports Events
begin

text \<open>
  Package \<open>hosts\<close> (\<open>src/internal/hosts\<close>): the normalisation and validation of host names, the
  host and host-group tables, and the reconcilers that make the tables converge to a desired image.
\<close>

section \<open>Names (params.go)\<close>

definition isNumericPort :: "string \<Rightarrow> bool" where
  "isNumericPort port \<longleftrightarrow> port \<noteq> [] \<and> list_all isDigit port"

definition NormaliseFQDN :: "string \<Rightarrow> string" where
  "NormaliseFQDN raw = TrimSuffixChar CHR ''.'' (ToLower (TrimSpace raw))"

definition NormaliseHost :: "string \<Rightarrow> string" where
  "NormaliseHost raw = (case SplitHostPort (TrimSpace raw) of
     None \<Rightarrow> NormaliseFQDN raw
   | Some (host, port) \<Rightarrow> if isNumericPort port then NormaliseFQDN host else NormaliseFQDN raw)"

definition labelChar :: "char \<Rightarrow> bool" where
  "labelChar c \<longleftrightarrow> isLower c \<or> isUpper c \<or> isDigit c \<or> c = CHR ''-''"

definition validateLabel :: "string \<Rightarrow> err option" where
  "validateLabel label =
    (if length label = 0 \<or> length label > 63 then Some (HostsErr ErrBadRequest)
     else if hd label = CHR ''-'' \<or> last label = CHR ''-'' then Some (HostsErr ErrBadRequest)
     else if \<not> list_all labelChar label then Some (HostsErr ErrBadRequest)
     else None)"

definition ValidateFQDN :: "string \<Rightarrow> err option" where
  "ValidateFQDN s =
    (let cleaned = TrimSuffixChar CHR ''.'' s in
     if cleaned = [] then Some (HostsErr ErrBadRequest)
     else if length cleaned > 253 then Some (HostsErr ErrBadRequest)
     else let labels = Split CHR ''.'' cleaned in
       if length labels < 2 then Some (HostsErr ErrBadRequest)
       else case List.find (\<lambda>l. validateLabel l \<noteq> None) labels of
         Some l \<Rightarrow> validateLabel l
       | None \<Rightarrow> if list_all isDigit (last labels) then Some (HostsErr ErrBadRequest) else None)"

section \<open>Host and host-group structs\<close>

record HostGroup = HostGroupRow +
  g_HostIDs :: "id list"

record HostDraft =
  hd_FQDN :: string
  hd_GroupIDs :: "id list"

record HostGroupDraft =
  gd_Name :: string
  gd_Color :: string
  gd_Icon :: string
  gd_Description :: "string option"
  gd_HostIDs :: "id list"

fun sameHostIDs :: "id list \<Rightarrow> id list \<Rightarrow> bool" where
  "sameHostIDs [] [] = True"
| "sameHostIDs (a # as) (b # bs) = (a = b \<and> sameHostIDs as bs)"
| "sameHostIDs _ _ = False"

fun equalStringPtr :: "string option \<Rightarrow> string option \<Rightarrow> bool" where
  "equalStringPtr None None = True"
| "equalStringPtr (Some a) (Some b) = (a = b)"
| "equalStringPtr _ _ = False"

definition SameDefinitionAs :: "HostGroup \<Rightarrow> HostGroup \<Rightarrow> bool" where
  "SameDefinitionAs g other =
    (if g_Name g \<noteq> g_Name other then False
     else if g_Color g \<noteq> g_Color other then False
     else if g_Icon g \<noteq> g_Icon other then False
     else if \<not> equalStringPtr (g_Description g) (g_Description other) then False
     else sameHostIDs (g_HostIDs g) (g_HostIDs other))"

section \<open>Repository (repository.go)\<close>

definition ListHosts :: "Host list op" where
  "ListHosts = get (\<lambda>s. sort_key h_ID (st_hosts s))"

definition CreateHost :: "time \<Rightarrow> HostDraft \<Rightarrow> id op" where
  "CreateHost now draft s =
    (if hd_FQDN draft \<in> h_FQDN ` set (st_hosts s) then (Inl (HostsErr ErrHostConflict), s)
     else let i = nextID (map h_ID (st_hosts s)) in
       (Inr i, s\<lparr>st_hosts := st_hosts s @
          [\<lparr> h_ID = i, h_FQDN = hd_FQDN draft, h_UpdatedAt = now, h_CreatedAt = now \<rparr>]\<rparr>))"

definition DeleteHost :: "id \<Rightarrow> unit op" where
  "DeleteHost i s =
    (if i \<notin> h_ID ` set (st_hosts s) then (Inl (HostsErr ErrHostNotFound), s)
     else (Inr (), s\<lparr>st_hosts := filter (\<lambda>h. h_ID h \<noteq> i) (st_hosts s),
                     st_groupMembers := filter (\<lambda>m. snd m \<noteq> i) (st_groupMembers s)\<rparr>))"

definition ListHostsByIDs :: "id list \<Rightarrow> Host list op" where
  "ListHostsByIDs hostIDs =
    (if hostIDs = [] then ret [] else get (\<lambda>s. filter (\<lambda>h. h_ID h \<in> set hostIDs) (st_hosts s)))"

text \<open>An \<open>INSERT\<close> into \<open>host_group_members\<close>, with its foreign keys and its unique index.\<close>

definition insertMember :: "id \<Rightarrow> id \<Rightarrow> unit op" where
  "insertMember groupID hostID s =
    (if (groupID, hostID) \<in> set (st_groupMembers s) then (Inl DBError, s)
     else if groupID \<notin> g_ID ` set (st_hostGroups s) \<or> hostID \<notin> h_ID ` set (st_hosts s)
       then (Inl (HostsErr ErrReferenceNotFound), s)
     else (Inr (), s\<lparr>st_groupMembers := st_groupMembers s @ [(groupID, hostID)]\<rparr>))"

definition SetHostGroupMembership :: "bool \<Rightarrow> id \<Rightarrow> id list \<Rightarrow> unit op" where
  "SetHostGroupMembership inTx hostID groupIDs = withinTx inTx
    (andThen (modify (\<lambda>s. s\<lparr>st_groupMembers := filter (\<lambda>m. snd m \<noteq> hostID) (st_groupMembers s)\<rparr>))
      (\<lambda>_. forEach (\<lambda>groupID. insertMember groupID hostID) groupIDs))"

definition ListHostGroups :: "HostGroup list op" where
  "ListHostGroups = get (\<lambda>s.
     let hostIDsByGroup = GroupByMap (st_groupMembers s) fst snd in
     map (\<lambda>g. HostGroupRow.extend (g\<lparr>g_UpdatedAt := 0, g_CreatedAt := 0\<rparr>)
                (HostGroup.fields (hostIDsByGroup (g_ID g)))) (st_hostGroups s))"

definition replaceHostGroupMembers :: "bool \<Rightarrow> id \<Rightarrow> id list \<Rightarrow> unit op" where
  "replaceHostGroupMembers inTx groupID hostIDs = withinTx inTx
    (andThen (modify (\<lambda>s. s\<lparr>st_groupMembers := filter (\<lambda>m. fst m \<noteq> groupID) (st_groupMembers s)\<rparr>))
      (\<lambda>_. forEach (\<lambda>hostID. insertMember groupID hostID) hostIDs))"

definition insertHostGroup :: "time \<Rightarrow> HostGroupDraft \<Rightarrow> id op" where
  "insertHostGroup now draft s =
    (if gd_Name draft \<in> g_Name ` set (st_hostGroups s) then (Inl (HostsErr ErrHostGroupConflict), s)
     else let i = nextID (map g_ID (st_hostGroups s)) in
       (Inr i, s\<lparr>st_hostGroups := st_hostGroups s @
          [\<lparr> g_ID = i, g_Name = gd_Name draft, g_Color = gd_Color draft, g_Icon = gd_Icon draft,
             g_Description = gd_Description draft, g_UpdatedAt = now, g_CreatedAt = now \<rparr>]\<rparr>))"

definition CreateHostGroup :: "bool \<Rightarrow> time \<Rightarrow> HostGroupDraft \<Rightarrow> id op" where
  "CreateHostGroup inTx now draft = withinTx inTx
    (andThen (insertHostGroup now draft)
      (\<lambda>groupID. andThen (replaceHostGroupMembers True groupID (gd_HostIDs draft)) (\<lambda>_. ret groupID)))"

definition updateHostGroupRow :: "time \<Rightarrow> HostGroup \<Rightarrow> unit op" where
  "updateHostGroupRow now grp s =
    (if g_ID grp \<notin> g_ID ` set (st_hostGroups s) then (Inl (HostsErr ErrHostGroupNotFound), s)
     else if \<exists>r \<in> set (st_hostGroups s). g_ID r \<noteq> g_ID grp \<and> g_Name r = g_Name grp
       then (Inl (HostsErr ErrHostGroupConflict), s)
     else (Inr (), s\<lparr>st_hostGroups := map (\<lambda>r. if g_ID r = g_ID grp
        then r\<lparr>g_Name := g_Name grp, g_Description := g_Description grp, g_Icon := g_Icon grp,
               g_Color := g_Color grp, g_UpdatedAt := now\<rparr> else r) (st_hostGroups s)\<rparr>))"

definition UpdateHostGroup :: "bool \<Rightarrow> time \<Rightarrow> HostGroup \<Rightarrow> unit op" where
  "UpdateHostGroup inTx now grp = withinTx inTx
    (andThen (updateHostGroupRow now grp)
      (\<lambda>_. replaceHostGroupMembers True (g_ID grp) (g_HostIDs grp)))"

definition DeleteHostGroup :: "id \<Rightarrow> unit op" where
  "DeleteHostGroup i s =
    (if i \<notin> g_ID ` set (st_hostGroups s) then (Inl (HostsErr ErrHostGroupNotFound), s)
     else (Inr (), s\<lparr>st_hostGroups := filter (\<lambda>g. g_ID g \<noteq> i) (st_hostGroups s),
                     st_groupMembers := filter (\<lambda>m. fst m \<noteq> i) (st_groupMembers s),
                     st_userGroups := filter (\<lambda>m. snd m \<noteq> i) (st_userGroups s),
                     st_policyGroups := filter (\<lambda>m. snd m \<noteq> i) (st_policyGroups s)\<rparr>))"

definition repoAddIgnoredSuggestion :: "string \<Rightarrow> (id \<times> string) op" where
  "repoAddIgnoredSuggestion fqdn s =
    (let f = ToLower fqdn; i = nextID (map fst (st_ignored s)) in
     if f \<in> snd ` set (st_ignored s) then (Inl (HostsErr ErrSuggestionConflict), s)
     else (Inr (i, f), s\<lparr>st_ignored := st_ignored s @ [(i, f)]\<rparr>))"

definition RemoveIgnoredSuggestionByFQDN :: "string \<Rightarrow> unit op" where
  "RemoveIgnoredSuggestionByFQDN fqdn s =
    (let f = ToLower fqdn in
     if f \<notin> snd ` set (st_ignored s) then (Inl (HostsErr ErrSuggestionNotFound), s)
     else (Inr (), s\<lparr>st_ignored := filter (\<lambda>g. snd g \<noteq> f) (st_ignored s)\<rparr>))"

definition AddIgnoredSuggestion :: "string \<Rightarrow> (id \<times> string) op" where
  "AddIgnoredSuggestion fqdn =
    (let normalised = NormaliseHost fqdn in
     case ValidateFQDN normalised of Some e \<Rightarrow> throw e
     | None \<Rightarrow> repoAddIgnoredSuggestion normalised)"

section \<open>Reconciling hosts (reconcile\_hosts.go)\<close>

record DesiredHost =
  dh_ID :: "id option"
  dh_FQDN :: string
  dh_GroupIDs :: "id list"

definition prepareHost :: "DesiredHost \<Rightarrow> (err, DesiredHost) result" where
  "prepareHost h =
    (let fqdn = NormaliseHost (dh_FQDN h) in
     case ValidateFQDN fqdn of Some e \<Rightarrow> Inl e
     | None \<Rightarrow> Inr (h\<lparr>dh_FQDN := fqdn, dh_GroupIDs := Dedup (dh_GroupIDs h)\<rparr>))"

fun prepareEach :: "('a \<Rightarrow> (err, 'a) result) \<Rightarrow> 'a list \<Rightarrow> (err, 'a list) result" where
  "prepareEach f [] = Inr []"
| "prepareEach f (h # hs) = (case f h of Inl e \<Rightarrow> Inl e
     | Inr h' \<Rightarrow> (case prepareEach f hs of Inl e \<Rightarrow> Inl e | Inr hs' \<Rightarrow> Inr (h' # hs')))"

text \<open>The duplicate checks: the loop over the entries with the set of values seen so far.\<close>

fun hasDup :: "('a \<Rightarrow> 'k option) \<Rightarrow> 'k set \<Rightarrow> 'a list \<Rightarrow> bool" where
  "hasDup key seen [] = False"
| "hasDup key seen (x # xs) = (case key x of None \<Rightarrow> hasDup key seen xs
     | Some k \<Rightarrow> if k \<in> seen then True else hasDup key (insert k seen) xs)"

definition prepareHosts :: "DesiredHost list \<Rightarrow> (err, DesiredHost list) result" where
  "prepareHosts hosts = (case prepareEach prepareHost hosts of Inl e \<Rightarrow> Inl e
   | Inr hs \<Rightarrow>
      if hasDup dh_ID {} hs then Inl (HostsErr ErrDuplicateHostID)
      else if hasDup (\<lambda>h. Some (dh_FQDN h)) {} hs then Inl (HostsErr ErrDuplicateHostFQDN)
      else Inr hs)"

record hostReconcilePlan =
  hp_toCreate :: "HostDraft list"
  hp_toDelete :: "id list"
  hp_toSetGroups :: "(id \<times> id list) list"

fun hostPlanLoop ::
  "(id \<rightharpoonup> Host) \<Rightarrow> string set \<Rightarrow> DesiredHost list \<Rightarrow> id set \<Rightarrow> hostReconcilePlan
   \<Rightarrow> (err, id set \<times> hostReconcilePlan) result" where
  "hostPlanLoop byID byFQDN [] ids plan = Inr (ids, plan)"
| "hostPlanLoop byID byFQDN (h # hs) ids plan =
    (case dh_ID h of
       None \<Rightarrow>
         if dh_FQDN h \<in> byFQDN then Inl (HostsErr ErrHostConflict)
         else hostPlanLoop byID byFQDN hs ids
           (plan\<lparr>hp_toCreate := hp_toCreate plan @ [\<lparr>hd_FQDN = dh_FQDN h, hd_GroupIDs = dh_GroupIDs h\<rparr>]\<rparr>)
     | Some i \<Rightarrow>
         (case byID i of
            None \<Rightarrow> Inl (HostsErr ErrHostNotFound)
          | Some existing \<Rightarrow>
              if h_FQDN existing \<noteq> dh_FQDN h then Inl (HostsErr ErrHostFQDNImmutable)
              else hostPlanLoop byID byFQDN hs (insert i ids)
                (plan\<lparr>hp_toSetGroups := hp_toSetGroups plan @ [(i, dh_GroupIDs h)]\<rparr>)))"

definition buildHostReconcilePlan :: "Host list \<Rightarrow> DesiredHost list \<Rightarrow> (err, hostReconcilePlan) result" where
  "buildHostReconcilePlan current desired =
    (let byID = map_of (rev (map (\<lambda>h. (h_ID h, h)) current)); byFQDN = h_FQDN ` set current in
     case hostPlanLoop byID byFQDN desired {} \<lparr>hp_toCreate = [], hp_toDelete = [], hp_toSetGroups = []\<rparr> of
       Inl e \<Rightarrow> Inl e
     | Inr (desiredIDs, plan) \<Rightarrow>
         Inr (plan\<lparr>hp_toDelete := map h_ID (filter (\<lambda>h. h_ID h \<notin> desiredIDs) current)\<rparr>))"

definition createDraft :: "time \<Rightarrow> HostDraft \<Rightarrow> unit op" where
  "createDraft now draft = andThen (CreateHost now draft)
     (\<lambda>newID. SetHostGroupMembership True newID (hd_GroupIDs draft))"

definition applyHostPlan :: "time \<Rightarrow> hostReconcilePlan \<Rightarrow> unit op" where
  "applyHostPlan now plan =
    andThen (forEach DeleteHost (hp_toDelete plan)) (\<lambda>_.
    andThen (forEach (createDraft now) (hp_toCreate plan)) (\<lambda>_.
    forEach (\<lambda>gs. SetHostGroupMembership True (fst gs) (snd gs)) (hp_toSetGroups plan)))"

definition ReconcileHosts :: "bool \<Rightarrow> time \<Rightarrow> DesiredHost list \<Rightarrow> unit svc" where
  "ReconcileHosts inTx now input =
    (case prepareHosts input of Inl e \<Rightarrow> notifying (throw e) (\<lambda>_. [])
     | Inr hosts \<Rightarrow> notifying
        (andThen ListHosts (\<lambda>currentHosts.
          case buildHostReconcilePlan currentHosts hosts of Inl e \<Rightarrow> throw e
          | Inr plan \<Rightarrow> withinTx inTx (applyHostPlan now plan)))
        (\<lambda>_. [HostAccessChanged]))"

section \<open>Reconciling host groups (reconcile\_groups.go)\<close>

record DesiredHostGroup =
  dg_ID :: "id option"
  dg_Name :: string
  dg_Color :: string
  dg_Icon :: string
  dg_Description :: "string option"
  dg_HostIDs :: "id list"

text \<open>The regular expression \<open>^#[0-9a-fA-F]{6}$\<close>.\<close>

definition hexColorRE :: "string \<Rightarrow> bool" where
  "hexColorRE c \<longleftrightarrow> length c = 7 \<and> hd c = CHR ''#'' \<and> list_all (\<lambda>x. hexVal x \<noteq> None) (tl c)"

definition prepareGroup :: "DesiredHostGroup \<Rightarrow> (err, DesiredHostGroup) result" where
  "prepareGroup g =
    (let g' = g\<lparr>dg_Name := TrimSpace (dg_Name g), dg_HostIDs := Dedup (dg_HostIDs g)\<rparr> in
     if dg_Name g' = [] then Inl (HostsErr ErrGroupNameRequired)
     else if \<not> hexColorRE (dg_Color g') then Inl (HostsErr ErrInvalidGroupColor)
     else Inr g')"

definition prepareGroups :: "DesiredHostGroup list \<Rightarrow> (err, DesiredHostGroup list) result" where
  "prepareGroups groups = (case prepareEach prepareGroup groups of Inl e \<Rightarrow> Inl e
   | Inr gs \<Rightarrow> if hasDup dg_ID {} gs then Inl (HostsErr ErrDuplicateGroupID) else Inr gs)"

record groupReconcilePlan =
  gp_toCreate :: "HostGroupDraft list"
  gp_toUpdate :: "HostGroup list"
  gp_toDelete :: "id list"

definition groupCandidate :: "id \<Rightarrow> DesiredHostGroup \<Rightarrow> HostGroup" where
  "groupCandidate i g = \<lparr> g_ID = i, g_Name = dg_Name g, g_Color = dg_Color g, g_Icon = dg_Icon g,
     g_Description = dg_Description g, g_UpdatedAt = 0, g_CreatedAt = 0, g_HostIDs = dg_HostIDs g \<rparr>"

fun groupPlanLoop ::
  "(id \<rightharpoonup> HostGroup) \<Rightarrow> DesiredHostGroup list \<Rightarrow> id set \<Rightarrow> groupReconcilePlan
   \<Rightarrow> (err, id set \<times> groupReconcilePlan) result" where
  "groupPlanLoop byID [] ids plan = Inr (ids, plan)"
| "groupPlanLoop byID (g # gs) ids plan =
    (case dg_ID g of
       None \<Rightarrow> groupPlanLoop byID gs ids (plan\<lparr>gp_toCreate := gp_toCreate plan @
          [\<lparr>gd_Name = dg_Name g, gd_Color = dg_Color g, gd_Icon = dg_Icon g,
            gd_Description = dg_Description g, gd_HostIDs = dg_HostIDs g\<rparr>]\<rparr>)
     | Some i \<Rightarrow>
         (case byID i of
            None \<Rightarrow> Inl (HostsErr ErrHostGroupNotFound)
          | Some currentGroup \<Rightarrow>
              let candidate = groupCandidate i g in
              groupPlanLoop byID gs (insert i ids)
                (if SameDefinitionAs currentGroup candidate then plan
                 else plan\<lparr>gp_toUpdate := gp_toUpdate plan @ [candidate]\<rparr>)))"

definition buildGroupReconcilePlan :: "HostGroup list \<Rightarrow> DesiredHostGroup list \<Rightarrow> (err, groupReconcilePlan) result" where
  "buildGroupReconcilePlan current desired =
    (case groupPlanLoop (map_of (rev (map (\<lambda>g. (g_ID g, g)) current))) desired {}
        \<lparr>gp_toCreate = [], gp_toUpdate = [], gp_toDelete = []\<rparr> of
       Inl e \<Rightarrow> Inl e
     | Inr (desiredIDs, plan) \<Rightarrow>
         Inr (plan\<lparr>gp_toDelete := map g_ID (filter (\<lambda>g. g_ID g \<notin> desiredIDs) current)\<rparr>))"

definition validateReferencedHosts :: "DesiredHostGroup list \<Rightarrow> unit op" where
  "validateReferencedHosts groups =
    (let hostIDs = Dedup (concat (map dg_HostIDs groups)) in
     if hostIDs = [] then ret ()
     else andThen (ListHostsByIDs hostIDs) (\<lambda>foundHosts.
       if \<forall>i \<in> set hostIDs. i \<in> h_ID ` set foundHosts then ret ()
       else throw (HostsErr ErrReferenceNotFound)))"

definition applyGroupPlan :: "time \<Rightarrow> groupReconcilePlan \<Rightarrow> unit op" where
  "applyGroupPlan now plan =
    andThen (forEach DeleteHostGroup (gp_toDelete plan)) (\<lambda>_.
    andThen (forEach (UpdateHostGroup True now) (gp_toUpdate plan)) (\<lambda>_.
    forEach (\<lambda>draft. andThen (CreateHostGroup True now draft) (\<lambda>_. ret ())) (gp_toCreate plan)))"

definition ReconcileHostGroups :: "bool \<Rightarrow> time \<Rightarrow> DesiredHostGroup list \<Rightarrow> unit svc" where
  "ReconcileHostGroups inTx now input =
    (case prepareGroups input of Inl e \<Rightarrow> notifying (throw e) (\<lambda>_. [])
     | Inr groups \<Rightarrow> notifying
        (andThen (validateReferencedHosts groups) (\<lambda>_.
         andThen ListHostGroups (\<lambda>currentGroups.
          case buildGroupReconcilePlan currentGroups groups of Inl e \<Rightarrow> throw e
          | Inr plan \<Rightarrow> withinTx inTx (applyGroupPlan now plan))))
        (\<lambda>_. [HostAccessChanged]))"

section \<open>What the validator accepts\<close>

lemma validateLabel_iff:
  "validateLabel l = None \<longleftrightarrow> 0 < length l \<and> length l \<le> 63 \<and> hd l \<noteq> CHR ''-'' \<and> last l \<noteq> CHR ''-''
    \<and> list_all labelChar l"
  by (auto simp: validateLabel_def)

lemma ValidateFQDN_iff:
  "ValidateFQDN s = None \<longleftrightarrow>
    (let c = TrimSuffixChar CHR ''.'' s; labels = Split CHR ''.'' c in
     c \<noteq> [] \<and> length c \<le> 253 \<and> 2 \<le> length labels \<and> (\<forall>l \<in> set labels. validateLabel l = None)
     \<and> \<not> list_all isDigit (last labels))"
  unfolding ValidateFQDN_def Let_def
  by (auto split: option.splits simp: find_None_iff_ex dest: find_SomeD)

lemma TrimSuffixChar_cases: "s = TrimSuffixChar c s \<or> s = TrimSuffixChar c s @ [c]"
  unfolding TrimSuffixChar_def by (cases s rule: rev_cases) auto

lemma labelChar_byte:
  "labelChar c \<Longrightarrow> byte c = 45 \<or> 48 \<le> byte c \<and> byte c \<le> 57 \<or> 65 \<le> byte c \<and> byte c \<le> 90
    \<or> 97 \<le> byte c \<and> byte c \<le> 122"
  by (auto simp: labelChar_def isLower_def isUpper_def isDigit_def byte_literals)

lemma labelChar_props:
  assumes "labelChar c"
  shows "\<not> isSpace c" "c \<noteq> CHR '':''" "c \<noteq> CHR ''[''" "c \<noteq> CHR '']''" "c \<noteq> CHR ''.''"
  using labelChar_byte[OF assms] by (auto simp: isSpace_def byte_literals)

lemma dot_props: "\<not> isSpace CHR ''.''" "\<not> isLower CHR ''.''" "\<not> isUpper CHR ''.''" "\<not> isUpper CHR ''-''" "\<not> isLower CHR ''-''"
  "\<not> isSpace CHR '':''"
  by (simp_all add: isSpace_def isLower_def isUpper_def byte_literals)

lemma labelChar_lowerChar [simp]: "labelChar (lowerChar c) \<longleftrightarrow> labelChar c"
proof (cases "isUpper c")
  case True
  then show ?thesis using isLower_lowerChar[OF True] by (auto simp: labelChar_def)
qed simp

lemma ValidateFQDN_chars:
  assumes "ValidateFQDN s = None" "c \<in> set s"
  shows "labelChar c \<or> c = CHR ''.''"
proof -
  let ?t = "TrimSuffixChar CHR ''.'' s"
  have "c \<in> set ?t \<or> c = CHR ''.''"
    using TrimSuffixChar_cases[of s "CHR ''.''"] assms(2) by (metis Un_iff empty_iff list.set(1,2) insertE set_append)
  moreover have "\<exists>l \<in> set (Split CHR ''.'' ?t). c \<in> set l" if "c \<in> set ?t" "c \<noteq> CHR ''.''"
    using set_Split[OF that(1), of "CHR ''.''"] that(2) by auto
  moreover have "labelChar c" if "l \<in> set (Split CHR ''.'' ?t)" "c \<in> set l" for l
    using assms(1) that unfolding ValidateFQDN_iff Let_def by (auto simp: validateLabel_iff list_all_iff)
  ultimately show ?thesis by blast
qed

section \<open>Normalisation of a requested host\<close>

text \<open>A canonical name: valid, in lower case and without the trailing dot.\<close>

definition canonicalFQDN :: "string \<Rightarrow> bool" where
  "canonicalFQDN h \<longleftrightarrow> ValidateFQDN h = None \<and> ToLower h = h \<and> last h \<noteq> CHR ''.''"

lemma TrimSpace_surround:
  assumes "x \<noteq> []" "trimmed x" "list_all isSpace p" "list_all isSpace q"
  shows "TrimSpace (p @ x @ q) = x"
proof -
  have "dropWhile isSpace (p @ x @ q) = x @ q"
    using assms by (cases x) (auto simp: trimmed_def list_all_iff dropWhile_append1 dropWhile_append)
  moreover have "dropWhile isSpace (rev (x @ q)) = rev x"
  proof -
    obtain y ys where y: "rev x = y # ys" using assms(1) by (cases "rev x") auto
    then have "y = last x" by (metis hd_rev list.sel(1))
    then have "\<not> isSpace y" using assms(1,2) by (simp add: trimmed_def)
    then show ?thesis using assms(4) y by (auto simp: list_all_iff dropWhile_append)
  qed
  ultimately show ?thesis by (simp add: TrimSpace_def)
qed

lemma no_space_trimmed: "\<forall>c \<in> set s. \<not> isSpace c \<Longrightarrow> trimmed s"
  by (cases s) (auto simp: trimmed_def)

lemma TrimSuffix_dot: "last h \<noteq> CHR ''.'' \<Longrightarrow> d = [] \<or> d = ''.'' \<Longrightarrow> TrimSuffixChar CHR ''.'' (h @ d) = h"
  by (auto simp: TrimSuffixChar_def)

lemma canonical_variant_chars:
  assumes "canonicalFQDN h" "ToLower h' = h" "c \<in> set h'"
  shows "labelChar c \<or> c = CHR ''.''"
proof -
  have "lowerChar c \<in> set h" using assms(2,3) by (auto simp: ToLower_def)
  then have "labelChar (lowerChar c) \<or> lowerChar c = CHR ''.''"
    using ValidateFQDN_chars[of h] assms(1) unfolding canonicalFQDN_def by blast
  then show ?thesis by (simp add: lowerChar_eq_iff dot_props)
qed

lemma digit_props:
  assumes "isDigit c"
  shows "\<not> isSpace c" "c \<noteq> CHR '':''" "c \<noteq> CHR ''[''" "c \<noteq> CHR '']''"
  using assms by (auto simp: isDigit_def isSpace_def byte_literals)

text \<open>All the usual ways to write a canonical host in a request are recognised: surrounding white
  space, upper case, one trailing dot, a numeric port.\<close>

lemma NormaliseHost_canonical:
  assumes "canonicalFQDN h" "ToLower h' = h" "d = [] \<or> d = ''.''"
    and "port = [] \<or> (\<exists>p. port = CHR '':'' # p \<and> p \<noteq> [] \<and> list_all isDigit p)"
    and "list_all isSpace pre" "list_all isSpace post"
  shows "NormaliseHost (pre @ h' @ d @ port @ post) = h"
proof -
  let ?x = "h' @ d"
  note ch = canonical_variant_chars[OF assms(1,2)]
  have ne: "h' \<noteq> []" using assms(1,2) by (auto simp: canonicalFQDN_def ValidateFQDN_def TrimSuffixChar_def)
  have xs: "\<not> isSpace c \<and> c \<noteq> CHR '':'' \<and> c \<noteq> CHR ''['' \<and> c \<noteq> CHR '']''" if "c \<in> set ?x" for c
  proof (cases "c \<in> set h'")
    case True
    then show ?thesis using ch[OF True] labelChar_props[of c] dot_props(1) by auto
  next
    case False
    then have "c = CHR ''.''" using that assms(3) by auto
    then show ?thesis using dot_props(1) by auto
  qed
  have ps: "\<forall>c \<in> set port. \<not> isSpace c"
    using assms(4) digit_props(1) dot_props(6) by (auto simp: list_all_iff)
  have tr: "TrimSpace (pre @ (?x @ port) @ post) = ?x @ port"
    using ne xs ps assms(5,6) by (intro TrimSpace_surround no_space_trimmed) auto
  have trx: "TrimSpace ?x = ?x" using xs by (intro TrimSpace_id no_space_trimmed) auto
  have lst: "last (ToLower h') \<noteq> CHR ''.''" using assms(1,2) by (simp add: canonicalFQDN_def)
  have low: "ToLower ?x = h @ d" using assms(2,3) by (auto simp: ToLower_append ToLower_def dot_props)
  have res: "NormaliseFQDN ?x = h" using trx low TrimSuffix_dot[OF lst assms(3)] assms(2) by (simp add: NormaliseFQDN_def)
  show ?thesis
  proof (cases "port = []")
    case True
    then have "SplitHostPort ?x = None" using xs by (intro SplitHostPort_no_colon) blast
    then have "NormaliseHost (pre @ h' @ d @ port @ post) = NormaliseFQDN (pre @ h' @ d @ port @ post)"
      using tr True by (simp add: NormaliseHost_def)
    also have "\<dots> = NormaliseFQDN ?x" using tr trx True by (simp add: NormaliseFQDN_def)
    finally show ?thesis using res by simp
  next
    case False
    then obtain p where p: "port = CHR '':'' # p" "p \<noteq> []" "list_all isDigit p" using assms(4) by auto
    have "CHR '':'' \<notin> set ?x" "CHR ''['' \<notin> set ?x" "CHR '']'' \<notin> set ?x"
      using xs[of "CHR '':''"] xs[of "CHR ''[''"] xs[of "CHR '']''"] by auto
    moreover have "CHR '':'' \<notin> set p" "CHR ''['' \<notin> set p" "CHR '']'' \<notin> set p"
      using p(3) digit_props(2)[of "CHR '':''"] digit_props(3)[of "CHR ''[''"] digit_props(4)[of "CHR '']''"]
      by (auto simp: list_all_iff)
    ultimately have "SplitHostPort (?x @ CHR '':'' # p) = Some (?x, p)"
      by (intro SplitHostPort_plain) auto
    then show ?thesis using tr p res by (simp add: NormaliseHost_def isNumericPort_def)
  qed
qed

section \<open>Preparing a request\<close>

lemma prepareEach_Inr: "prepareEach f xs = Inr ys \<Longrightarrow> list_all2 (\<lambda>x y. f x = Inr y) xs ys"
  by (induction xs arbitrary: ys) (auto split: sum.splits)

lemma hasDup_iff:
  "hasDup key seen xs \<longleftrightarrow> \<not> (distinct (List.map_filter key xs) \<and> set (List.map_filter key xs) \<inter> seen = {})"
  by (induction xs arbitrary: seen) (auto simp: map_filter_simps split: option.splits)

lemma map_filter_Some [simp]: "List.map_filter (\<lambda>x. Some (f x)) xs = map f xs"
  by (induction xs) (auto simp: map_filter_simps)

lemma prepareHosts_ok:
  assumes "prepareHosts input = Inr hs"
  shows "list_all2 (\<lambda>x y. prepareHost x = Inr y) input hs" "distinct (List.map_filter dh_ID hs)"
    "distinct (map dh_FQDN hs)"
  using assms by (auto simp: prepareHosts_def hasDup_iff dest: prepareEach_Inr split: sum.splits if_splits)

lemma prepareHost_ok:
  assumes "prepareHost h = Inr h'"
  shows "dh_FQDN h' = NormaliseHost (dh_FQDN h)" "ValidateFQDN (dh_FQDN h') = None"
    "dh_GroupIDs h' = Dedup (dh_GroupIDs h)" "dh_ID h' = dh_ID h"
  using assms by (auto simp: prepareHost_def Let_def split: option.splits)

section \<open>The plan and its effect on the host table\<close>

lemma hostPlanLoop_ok:
  assumes "hostPlanLoop byID byFQDN hs ids plan = Inr (ids', plan')"
  shows "ids' = ids \<union> set (List.map_filter dh_ID hs)"
    "hp_toCreate plan' = hp_toCreate plan @
       map (\<lambda>h. \<lparr>hd_FQDN = dh_FQDN h, hd_GroupIDs = dh_GroupIDs h\<rparr>) (filter (\<lambda>h. dh_ID h = None) hs)"
    "hp_toSetGroups plan' = hp_toSetGroups plan @
       map (\<lambda>h. (the (dh_ID h), dh_GroupIDs h)) (filter (\<lambda>h. dh_ID h \<noteq> None) hs)"
    "\<forall>h \<in> set hs. dh_ID h = None \<longrightarrow> dh_FQDN h \<notin> byFQDN"
    "\<forall>h \<in> set hs. \<forall>i. dh_ID h = Some i \<longrightarrow> (\<exists>e. byID i = Some e \<and> h_FQDN e = dh_FQDN h)"
  using assms
proof (induction hs arbitrary: ids plan)
  case (Cons h hs)
  {
    case 1 then show ?case using Cons.IH(1) by (fastforce simp: map_filter_simps split: option.splits if_splits)
  next
    case 2 then show ?case using Cons.IH(2) by (fastforce split: option.splits if_splits)
  next
    case 3 then show ?case using Cons.IH(3) by (fastforce split: option.splits if_splits)
  next
    case 4 then show ?case using Cons.IH(4) by (fastforce split: option.splits if_splits)
  next
    case 5 then show ?case using Cons.IH(5) by (fastforce split: option.splits if_splits)
  }
qed (simp_all add: map_filter_simps)

text \<open>The table after each part of the plan.\<close>

lemma forEach_DeleteHost:
  assumes "forEach DeleteHost is s = (Inr (), s')"
  shows "st_hosts s' = filter (\<lambda>h. h_ID h \<notin> set is) (st_hosts s) \<and>
    st_groupMembers s' = filter (\<lambda>m. snd m \<notin> set is) (st_groupMembers s) \<and> st_hostGroups s' = st_hostGroups s"
  using assms
proof (induction "is" arbitrary: s)
  case (Cons i "is")
  from Cons.prems obtain t where t: "DeleteHost i s = (Inr (), t)" "forEach DeleteHost is t = (Inr (), s')"
    by (auto elim!: andThen_InrD)
  have "st_hosts t = filter (\<lambda>h. h_ID h \<noteq> i) (st_hosts s)"
    "st_groupMembers t = filter (\<lambda>m. snd m \<noteq> i) (st_groupMembers s)" "st_hostGroups t = st_hostGroups s"
    using t(1) by (auto simp: DeleteHost_def split: if_splits)
  then show ?case using Cons.IH[OF t(2)] by (simp add: conj_commute)
qed simp

lemma forEach_insertMember_host:
  assumes "forEach (\<lambda>g. insertMember g hostID) gs s = (Inr (), s')"
  shows "s' = s\<lparr>st_groupMembers := st_groupMembers s @ map (\<lambda>g. (g, hostID)) gs\<rparr> \<and>
    set gs \<subseteq> g_ID ` set (st_hostGroups s) \<and> (gs = [] \<or> hostID \<in> h_ID ` set (st_hosts s))"
  using assms
proof (induction gs arbitrary: s)
  case (Cons g gs)
  from Cons.prems obtain t where t: "insertMember g hostID s = (Inr (), t)"
    "forEach (\<lambda>g. insertMember g hostID) gs t = (Inr (), s')" by (auto elim!: andThen_InrD)
  then have tt: "t = s\<lparr>st_groupMembers := st_groupMembers s @ [(g, hostID)]\<rparr>"
    "g \<in> g_ID ` set (st_hostGroups s)" "hostID \<in> h_ID ` set (st_hosts s)"
    by (auto simp: insertMember_def split: if_splits)
  then show ?case using Cons.IH[OF t(2)] by simp
qed simp

lemma SetHostGroupMembership_ok:
  assumes "SetHostGroupMembership b hostID gs s = (Inr (), s')"
  shows "s' = s\<lparr>st_groupMembers := filter (\<lambda>m. snd m \<noteq> hostID) (st_groupMembers s) @ map (\<lambda>g. (g, hostID)) gs\<rparr>"
proof -
  have "forEach (\<lambda>g. insertMember g hostID) gs
      (s\<lparr>st_groupMembers := filter (\<lambda>m. snd m \<noteq> hostID) (st_groupMembers s)\<rparr>) = (Inr (), s')"
    using assms by (simp add: SetHostGroupMembership_def withinTx_Inr)
  from forEach_insertMember_host[OF this] show ?thesis by simp
qed

definition groupsOfHost :: "store \<Rightarrow> id \<Rightarrow> id set" where
  "groupsOfHost s i = {g. (g, i) \<in> set (st_groupMembers s)}"

lemma SetHostGroupMembership_effect:
  assumes "SetHostGroupMembership b hostID gs s = (Inr (), s')"
  shows "st_hosts s' = st_hosts s" "st_hostGroups s' = st_hostGroups s"
    "groupsOfHost s' i = (if i = hostID then set gs else groupsOfHost s i)"
  using SetHostGroupMembership_ok[OF assms] by (auto simp: groupsOfHost_def)

lemma forEach_setGroups:
  assumes "forEach (\<lambda>gs. SetHostGroupMembership True (fst gs) (snd gs)) xs s = (Inr (), s')" "distinct (map fst xs)"
  shows "st_hosts s' = st_hosts s \<and> st_hostGroups s' = st_hostGroups s \<and> (\<forall>i. groupsOfHost s' i =
    (case map_of xs i of Some gs \<Rightarrow> set gs | None \<Rightarrow> groupsOfHost s i))"
  using assms
proof (induction xs arbitrary: s)
  case (Cons x xs)
  from Cons.prems(1) obtain t where t: "SetHostGroupMembership True (fst x) (snd x) s = (Inr (), t)"
    "forEach (\<lambda>gs. SetHostGroupMembership True (fst gs) (snd gs)) xs t = (Inr (), s')"
    by (auto elim!: andThen_InrD)
  have "map_of xs (fst x) = None" using Cons.prems(2) by (auto simp: map_of_eq_None_iff)
  moreover have "st_hosts s' = st_hosts t \<and> st_hostGroups s' = st_hostGroups t \<and> (\<forall>i. groupsOfHost s' i =
      (case map_of xs i of Some gs \<Rightarrow> set gs | None \<Rightarrow> groupsOfHost t i))"
    using Cons.IH[OF t(2)] Cons.prems(2) by simp
  ultimately show ?case using SetHostGroupMembership_effect[OF t(1)]
    by (cases x) (auto split: option.splits if_splits)
qed simp

lemma CreateHost_ok:
  assumes "CreateHost now d s = (Inr i, t)"
  shows "\<exists>r. st_hosts t = st_hosts s @ [r] \<and> h_ID r = i \<and> h_FQDN r = hd_FQDN d \<and> i \<notin> h_ID ` set (st_hosts s)
    \<and> st_groupMembers t = st_groupMembers s \<and> st_hostGroups t = st_hostGroups s"
  using assms nextID_fresh[of "map h_ID (st_hosts s)"]
  by (auto simp: CreateHost_def Let_def split: if_splits)

lemma createDraft_ok:
  assumes "createDraft now d s = (Inr (), t)"
  shows "\<exists>r. st_hosts t = st_hosts s @ [r] \<and> h_FQDN r = hd_FQDN d \<and> h_ID r \<notin> h_ID ` set (st_hosts s)
    \<and> (\<forall>i. groupsOfHost t i = (if i = h_ID r then set (hd_GroupIDs d) else groupsOfHost s i))"
proof -
  obtain i u where u: "CreateHost now d s = (Inr i, u)" "SetHostGroupMembership True i (hd_GroupIDs d) u = (Inr (), t)"
    using assms by (auto simp: createDraft_def elim!: andThen_InrD)
  obtain r where "st_hosts u = st_hosts s @ [r]" "h_ID r = i" "h_FQDN r = hd_FQDN d" "i \<notin> h_ID ` set (st_hosts s)"
    "st_groupMembers u = st_groupMembers s" using CreateHost_ok[OF u(1)] by blast
  then show ?thesis using SetHostGroupMembership_effect[OF u(2)] by (auto simp: groupsOfHost_def)
qed

lemma forEach_createDraft:
  assumes "forEach (createDraft now) ds s = (Inr (), s')" "distinct (map h_ID (st_hosts s))"
  shows "\<exists>rows. st_hosts s' = st_hosts s @ rows \<and> distinct (map h_ID (st_hosts s')) \<and>
    list_all2 (\<lambda>r d. h_FQDN r = hd_FQDN d \<and> groupsOfHost s' (h_ID r) = set (hd_GroupIDs d)) rows ds \<and>
    (\<forall>i. i \<notin> h_ID ` set rows \<longrightarrow> groupsOfHost s' i = groupsOfHost s i)"
  using assms
proof (induction ds arbitrary: s)
  case (Cons d ds)
  from Cons.prems(1) obtain t where t: "createDraft now d s = (Inr (), t)"
    "forEach (createDraft now) ds t = (Inr (), s')" by (auto elim!: andThen_InrD)
  obtain r where r: "st_hosts t = st_hosts s @ [r]" "h_FQDN r = hd_FQDN d" "h_ID r \<notin> h_ID ` set (st_hosts s)"
    "\<forall>i. groupsOfHost t i = (if i = h_ID r then set (hd_GroupIDs d) else groupsOfHost s i)"
    using createDraft_ok[OF t(1)] by blast
  then have "distinct (map h_ID (st_hosts t))" using Cons.prems(2) by auto
  then obtain rows where rows: "st_hosts s' = st_hosts t @ rows" "distinct (map h_ID (st_hosts s'))"
    "list_all2 (\<lambda>r d. h_FQDN r = hd_FQDN d \<and> groupsOfHost s' (h_ID r) = set (hd_GroupIDs d)) rows ds"
    "\<forall>i. i \<notin> h_ID ` set rows \<longrightarrow> groupsOfHost s' i = groupsOfHost t i" using Cons.IH[OF t(2)] by blast
  have "h_ID r \<notin> h_ID ` set rows" using rows(1,2) r(1) by auto
  then show ?case using r rows by (intro exI[of _ "r # rows"]) auto
qed simp

text \<open>The schema's constraints on the four tables of the package.\<close>

definition hostsInv :: "store \<Rightarrow> bool" where
  "hostsInv s \<longleftrightarrow> distinct (map h_ID (st_hosts s)) \<and> distinct (map h_FQDN (st_hosts s))
    \<and> distinct (map g_ID (st_hostGroups s)) \<and> distinct (map g_Name (st_hostGroups s))
    \<and> distinct (st_groupMembers s)
    \<and> (\<forall>m \<in> set (st_groupMembers s). fst m \<in> g_ID ` set (st_hostGroups s) \<and> snd m \<in> h_ID ` set (st_hosts s))"

lemma map_of_rev_unique:
  assumes "distinct (map f xs)"
  shows "map_of (rev (map (\<lambda>x. (f x, x)) xs)) i = Some e \<longleftrightarrow> e \<in> set xs \<and> f e = i"
proof -
  have "distinct (map fst (rev (map (\<lambda>x. (f x, x)) xs)))" using assms by (simp add: rev_map[symmetric] comp_def)
  then show ?thesis by (auto simp: map_of_eq_Some_iff)
qed

lemma map_filter_dh_ID: "i \<in> set (List.map_filter dh_ID hs) \<longleftrightarrow> (\<exists>h \<in> set hs. dh_ID h = Some i)"
  by (induction hs) (auto simp: map_filter_simps split: option.splits)

lemma distinct_set_IDs:
  "distinct (List.map_filter dh_ID hs) \<Longrightarrow>
   distinct (map fst (map (\<lambda>h. (the (dh_ID h), dh_GroupIDs h)) (filter (\<lambda>h. dh_ID h \<noteq> None) hs)))"
  by (induction hs) (auto simp: map_filter_simps map_filter_dh_ID image_iff split: option.splits)

text \<open>A successful plan: what is deleted, created and regrouped.\<close>

definition draftsOf :: "DesiredHost list \<Rightarrow> HostDraft list" where
  "draftsOf hs = map (\<lambda>h. \<lparr>hd_FQDN = dh_FQDN h, hd_GroupIDs = dh_GroupIDs h\<rparr>) (filter (\<lambda>h. dh_ID h = None) hs)"

definition regroupsOf :: "DesiredHost list \<Rightarrow> (id \<times> id list) list" where
  "regroupsOf hs = map (\<lambda>h. (the (dh_ID h), dh_GroupIDs h)) (filter (\<lambda>h. dh_ID h \<noteq> None) hs)"

lemma regroupsOf_mem: "x \<in> set (regroupsOf hs) \<longleftrightarrow> (\<exists>h \<in> set hs. dh_ID h = Some (fst x) \<and> dh_GroupIDs h = snd x)"
  by (cases x) (force simp: regroupsOf_def image_iff)

lemma buildHostReconcilePlan_ok:
  assumes "buildHostReconcilePlan cur hs = Inr plan" "distinct (map h_ID cur)"
  shows "hp_toCreate plan = draftsOf hs" "hp_toSetGroups plan = regroupsOf hs"
    "hp_toDelete plan = map h_ID (filter (\<lambda>h. h_ID h \<notin> set (List.map_filter dh_ID hs)) cur)"
    "h \<in> set hs \<Longrightarrow> dh_ID h = Some i \<Longrightarrow> \<exists>e \<in> set cur. h_ID e = i \<and> h_FQDN e = dh_FQDN h"
proof -
  let ?loop = "hostPlanLoop (map_of (rev (map (\<lambda>h. (h_ID h, h)) cur))) (h_FQDN ` set cur) hs {}
      \<lparr>hp_toCreate = [], hp_toDelete = [], hp_toSetGroups = []\<rparr>"
  obtain D p where p: "?loop = Inr (D, p)" and pl: "plan = p\<lparr>hp_toDelete := map h_ID (filter (\<lambda>h. h_ID h \<notin> D) cur)\<rparr>"
    using assms(1) by (cases ?loop) (auto simp: buildHostReconcilePlan_def Let_def)
  note loop = hostPlanLoop_ok[OF p]
  show "hp_toCreate plan = draftsOf hs" "hp_toSetGroups plan = regroupsOf hs"
    "hp_toDelete plan = map h_ID (filter (\<lambda>h. h_ID h \<notin> set (List.map_filter dh_ID hs)) cur)"
    using loop(1-3) pl by (simp_all add: draftsOf_def regroupsOf_def)
  show "\<exists>e \<in> set cur. h_ID e = i \<and> h_FQDN e = dh_FQDN h" if "h \<in> set hs" "dh_ID h = Some i"
    using loop(5) that map_of_rev_unique[OF assms(2)] by metis
qed

text \<open>A run of the plan that succeeds: the kept rows are the current rows of the desired ids, the new
  rows are those of the drafts, and every desired host has exactly the desired groups.\<close>

lemma applyHostPlan_converges:
  assumes inv: "distinct (map h_ID (st_hosts s))" and ids: "distinct (List.map_filter dh_ID hs)"
    and plan: "buildHostReconcilePlan (sort_key h_ID (st_hosts s)) hs = Inr plan"
    and run: "applyHostPlan now plan s = (Inr (), s')"
  shows "h_FQDN ` set (st_hosts s') \<subseteq> dh_FQDN ` set hs" and "h \<in> set hs \<Longrightarrow> \<exists>r \<in> set (st_hosts s').
    h_FQDN r = dh_FQDN h \<and> (\<forall>i. dh_ID h = Some i \<longrightarrow> h_ID r = i) \<and> groupsOfHost s' (h_ID r) = set (dh_GroupIDs h)"
proof -
  let ?D = "set (List.map_filter dh_ID hs)"
  have "distinct (map h_ID (sort_key h_ID (st_hosts s)))" using inv by (simp add: distinct_map)
  note built = buildHostReconcilePlan_ok[OF plan this]
  obtain t u where t: "forEach DeleteHost (hp_toDelete plan) s = (Inr (), t)"
    and u: "forEach (createDraft now) (draftsOf hs) t = (Inr (), u)"
    and v: "forEach (\<lambda>gs. SetHostGroupMembership True (fst gs) (snd gs)) (regroupsOf hs) u = (Inr (), s')"
    using run built(1,2) by (auto simp: applyHostPlan_def elim!: andThen_InrD)
  have th: "set (st_hosts t) = {h \<in> set (st_hosts s). h_ID h \<in> ?D}" "distinct (map h_ID (st_hosts t))"
    using forEach_DeleteHost[OF t] inv unfolding built(3) by (auto simp: distinct_map_filter)
  obtain rows where rows: "st_hosts u = st_hosts t @ rows" "distinct (map h_ID (st_hosts u))"
    "list_all2 (\<lambda>r d. h_FQDN r = hd_FQDN d \<and> groupsOfHost u (h_ID r) = set (hd_GroupIDs d)) rows (draftsOf hs)"
    using forEach_createDraft[OF u th(2)] by blast
  have dsets: "distinct (map fst (regroupsOf hs))" unfolding regroupsOf_def using ids by (rule distinct_set_IDs)
  note fin = forEach_setGroups[OF v dsets]
  have old: "\<exists>r \<in> set (st_hosts t). h_FQDN r = dh_FQDN h \<and> h_ID r = i \<and> groupsOfHost s' i = set (dh_GroupIDs h)"
    if hi: "h \<in> set hs" "dh_ID h = Some i" for h i
  proof -
    obtain e where "e \<in> set (st_hosts s)" "h_ID e = i" "h_FQDN e = dh_FQDN h" using built(4)[OF hi] by auto
    moreover have "i \<in> ?D" using hi by (auto simp: map_filter_dh_ID)
    moreover have "map_of (regroupsOf hs) i = Some (dh_GroupIDs h)"
      using dsets hi by (auto simp: map_of_eq_Some_iff regroupsOf_mem)
    ultimately show ?thesis using th(1) fin by auto
  qed
  have kept: "h_FQDN r \<in> dh_FQDN ` set hs" if "r \<in> set (st_hosts t)" for r
  proof -
    from that th(1) obtain h where h: "h \<in> set hs" "dh_ID h = Some (h_ID r)" by (auto simp: map_filter_dh_ID)
    then obtain r' where "r' \<in> set (st_hosts t)" "h_FQDN r' = dh_FQDN h" "h_ID r' = h_ID r" using old by blast
    moreover from this have "r' = r" using th(2) that by (metis distinct_map inj_onD)
    ultimately show ?thesis using h by auto
  qed
  have newF: "h_FQDN r \<in> dh_FQDN ` set hs" if "r \<in> set rows" for r
    using list_all2_ex1[OF rows(3) that] by (auto simp: draftsOf_def)
  show "h_FQDN ` set (st_hosts s') \<subseteq> dh_FQDN ` set hs" using kept newF fin rows(1) by auto
  show "\<exists>r \<in> set (st_hosts s'). h_FQDN r = dh_FQDN h \<and> (\<forall>i. dh_ID h = Some i \<longrightarrow> h_ID r = i)
      \<and> groupsOfHost s' (h_ID r) = set (dh_GroupIDs h)" if h: "h \<in> set hs"
  proof (cases "dh_ID h")
    case None
    then have "\<lparr>hd_FQDN = dh_FQDN h, hd_GroupIDs = dh_GroupIDs h\<rparr> \<in> set (draftsOf hs)" using h by (auto simp: draftsOf_def)
    then obtain r where r: "r \<in> set rows" "h_FQDN r = dh_FQDN h" "groupsOfHost u (h_ID r) = set (dh_GroupIDs h)"
      using list_all2_ex2[OF rows(3)] by fastforce
    have "h_ID r \<notin> h_ID ` set (st_hosts t)" using rows(1,2) r(1) by auto
    moreover have "x \<in> h_ID ` set (st_hosts t)" if "(x, gs) \<in> set (regroupsOf hs)" for x gs
      using that old unfolding regroupsOf_mem by force
    ultimately have "map_of (regroupsOf hs) (h_ID r) = None" by (auto simp: map_of_eq_None_iff)
    then show ?thesis using r fin rows(1) None by auto
  qed (use old[OF h] fin rows(1) in auto)
qed

section \<open>The constraints of the tables are kept\<close>

lemma hostsInv_CreateHost [inv_intros]: "keeps hostsInv (CreateHost now d)"
  by (auto simp: keeps_def CreateHost_def hostsInv_def Let_def)

lemma hostsInv_DeleteHost [inv_intros]: "keeps hostsInv (DeleteHost i)"
  by (auto simp: keeps_def DeleteHost_def hostsInv_def distinct_map_filter)

lemma hostsInv_insertMember [inv_intros]: "keeps hostsInv (insertMember g h)"
  by (auto simp: keeps_def insertMember_def hostsInv_def)

lemma hostsInv_clearMembers [inv_intros]:
  "keeps hostsInv (modify (\<lambda>s. s\<lparr>st_groupMembers := filter P (st_groupMembers s)\<rparr>))"
  by (auto simp: keeps_def hostsInv_def)

lemma hostsInv_SetHostGroupMembership [inv_intros]: "keeps hostsInv (SetHostGroupMembership b h gs)"
  unfolding SetHostGroupMembership_def by (intro inv_intros)

lemma hostsInv_replaceHostGroupMembers [inv_intros]: "keeps hostsInv (replaceHostGroupMembers b g hs)"
  unfolding replaceHostGroupMembers_def by (intro inv_intros)

lemma hostsInv_insertHostGroup [inv_intros]: "keeps hostsInv (insertHostGroup now d)"
  by (auto simp: keeps_def insertHostGroup_def hostsInv_def Let_def)

lemma hostsInv_updateHostGroupRow [inv_intros]: "keeps hostsInv (updateHostGroupRow now grp)"
proof (rule keepsI)
  fix s assume inv: "hostsInv s"
  let ?upd = "\<lambda>r. if g_ID r = g_ID grp then r\<lparr>g_Name := g_Name grp, g_Description := g_Description grp,
      g_Icon := g_Icon grp, g_Color := g_Color grp, g_UpdatedAt := now\<rparr> else r"
  define gs' where "gs' = map ?upd (st_hostGroups s)"
  have upd: "g_ID (?upd r) = g_ID r" for r by simp
  have ids: "map g_ID gs' = map g_ID (st_hostGroups s)" unfolding gs'_def by (simp only: map_map comp_def upd)
  then have idset: "g_ID ` set gs' = g_ID ` set (st_hostGroups s)" by (metis set_map)
  have names: "distinct (map g_Name gs')"
    if "\<forall>r \<in> set (st_hostGroups s). g_ID r \<noteq> g_ID grp \<longrightarrow> g_Name r \<noteq> g_Name grp"
    using inv that unfolding gs'_def map_map comp_def hostsInv_def distinct_map inj_on_def by (auto split: if_splits)
  show "hostsInv (snd (updateHostGroupRow now grp s))"
  proof (cases "g_ID grp \<notin> g_ID ` set (st_hostGroups s) \<or>
      (\<exists>r \<in> set (st_hostGroups s). g_ID r \<noteq> g_ID grp \<and> g_Name r = g_Name grp)")
    case True
    then show ?thesis using inv by (auto simp: updateHostGroupRow_def)
  next
    case False
    then have "snd (updateHostGroupRow now grp s) = s\<lparr>st_hostGroups := gs'\<rparr>"
      unfolding updateHostGroupRow_def gs'_def by (simp only: de_Morgan_disj if_False snd_conv if_not_P not_not)
    moreover have "distinct (map g_Name gs')" using names False by blast
    ultimately show ?thesis using inv ids idset by (simp add: hostsInv_def)
  qed
qed

lemma hostsInv_DeleteHostGroup [inv_intros]: "keeps hostsInv (DeleteHostGroup i)"
  by (auto simp: keeps_def DeleteHostGroup_def hostsInv_def distinct_map_filter)

lemma hostsInv_CreateHostGroup [inv_intros]: "keeps hostsInv (CreateHostGroup b now d)"
  unfolding CreateHostGroup_def by (intro inv_intros)

lemma hostsInv_UpdateHostGroup [inv_intros]: "keeps hostsInv (UpdateHostGroup b now g)"
  unfolding UpdateHostGroup_def by (intro inv_intros)

lemma hostsInv_applyHostPlan [inv_intros]: "keeps hostsInv (applyHostPlan now plan)"
  unfolding applyHostPlan_def createDraft_def by (intro inv_intros)

lemma hostsInv_applyGroupPlan [inv_intros]: "keeps hostsInv (applyGroupPlan now plan)"
  unfolding applyGroupPlan_def by (intro inv_intros)

section \<open>Properties\<close>

text \<open>Every request spelling of a canonical stored name (upper case, one trailing
  dot, a numeric port, surrounding white space) is normalised to exactly that name, so the lookup of
  the policy engine cannot be missed because of the spelling of the \<open>X-Forwarded-Host\<close> value.\<close>

lemma NormaliseHost_recognises:
  assumes "canonicalFQDN h" "ToLower h' = h" "d = [] \<or> d = ''.''"
    and "port = [] \<or> (port = CHR '':'' # p \<and> p \<noteq> [] \<and> list_all isDigit p)"
    and "list_all isSpace pre" "list_all isSpace post"
  shows "NormaliseHost (pre @ h' @ d @ port @ post) = h"
  using assms by (intro NormaliseHost_canonical) auto

lemma NormaliseHost_recognises_witness:
  "NormaliseHost ('' '' @ ''App.Example.COM'' @ ''.'' @ '':8443'' @ []) = ''app.example.com''"
  by (rule NormaliseHost_recognises[where p = "''8443''"]) code_simp+

text \<open>C19 (functional). A reconcile that returns without error leaves exactly the desired hosts: the
  names in the table are the normalised names of the request, every desired host with an id keeps its
  id, every desired host belongs to exactly the desired groups, and the observers are notified.\<close>

theorem ReconcileHosts_converges:
  assumes "hostsInv s" "ReconcileHosts inTx now input s = (Inr (), ns, s')"
  shows "\<exists>hs. prepareHosts input = Inr hs \<and> h_FQDN ` set (st_hosts s') = dh_FQDN ` set hs \<and>
    (\<forall>h \<in> set hs. \<exists>r \<in> set (st_hosts s'). h_FQDN r = dh_FQDN h \<and> (\<forall>i. dh_ID h = Some i \<longrightarrow> h_ID r = i) \<and>
       groupsOfHost s' (h_ID r) = set (dh_GroupIDs h)) \<and> ns = [HostAccessChanged]"
proof -
  obtain hs where hs: "prepareHosts input = Inr hs"
    using assms(2) by (cases "prepareHosts input") (auto simp: ReconcileHosts_def notifying_Inr)
  obtain plan where p: "buildHostReconcilePlan (sort_key h_ID (st_hosts s)) hs = Inr plan"
    "applyHostPlan now plan s = (Inr (), s')" "ns = [HostAccessChanged]"
    using assms(2) hs
    by (auto simp: ReconcileHosts_def notifying_Inr ListHosts_def withinTx_Inr split: sum.splits)
  have inv: "distinct (map h_ID (st_hosts s))" using assms(1) by (simp add: hostsInv_def)
  note conv = applyHostPlan_converges[OF inv prepareHosts_ok(2)[OF hs] p(1,2)]
  have "h_FQDN ` set (st_hosts s') = dh_FQDN ` set hs" using conv by (auto simp: image_iff) metis+
  then show ?thesis using hs p(3) conv(2) by blast
qed

theorem ReconcileHosts_converges_witness:
  "h_FQDN ` set (st_hosts (storeAfter (ReconcileHosts False 7
     [\<lparr>dh_ID = None, dh_FQDN = '' App.Example.com'', dh_GroupIDs = []\<rparr>] emptyStore))) = {''app.example.com''}"
proof -
  let ?in = "[\<lparr>dh_ID = None, dh_FQDN = '' App.Example.com'', dh_GroupIDs = []\<rparr>]"
  let ?row = "\<lparr>h_ID = 1, h_FQDN = ''app.example.com'', h_UpdatedAt = 7, h_CreatedAt = 7\<rparr>"
  have run: "ReconcileHosts False 7 ?in emptyStore =
      (Inr (), [HostAccessChanged], emptyStore\<lparr>st_hosts := [?row]\<rparr>)" by code_simp
  have "prepareHosts ?in = Inr [\<lparr>dh_ID = None, dh_FQDN = ''app.example.com'', dh_GroupIDs = []\<rparr>]" by code_simp
  moreover have "hostsInv emptyStore" by (simp add: hostsInv_def emptyStore_def)
  ultimately show ?thesis using ReconcileHosts_converges[OF _ run] by (auto simp: run storeAfter_def)
qed

text \<open>Neither reconciler can break the constraints of the host tables (unique ids and
  names, unique memberships that refer to existing rows), whether it succeeds or fails half-way.\<close>

lemma reconcile_keeps_hostsInv:
  assumes "hostsInv s"
  shows "hostsInv (storeAfter (ReconcileHosts inTx now hosts s)) \<and>
    hostsInv (storeAfter (ReconcileHostGroups inTx now groups s))"
proof
  show "hostsInv (storeAfter (ReconcileHosts inTx now hosts s))"
  proof (cases "prepareHosts hosts")
    case (Inr hs)
    have "keeps hostsInv (andThen ListHosts (\<lambda>cur. case buildHostReconcilePlan cur hs of Inl e \<Rightarrow> throw e
        | Inr plan \<Rightarrow> withinTx inTx (applyHostPlan now plan)))"
      unfolding ListHosts_def by (intro inv_intros) (auto intro: inv_intros split: sum.splits)
    then show ?thesis using assms Inr by (simp add: ReconcileHosts_def notifying_store keeps_def)
  qed (use assms in \<open>simp add: ReconcileHosts_def notifying_store\<close>)
  show "hostsInv (storeAfter (ReconcileHostGroups inTx now groups s))"
  proof (cases "prepareGroups groups")
    case (Inr gs)
    have "keeps hostsInv (validateReferencedHosts gs)"
      unfolding validateReferencedHosts_def ListHostsByIDs_def Let_def by (auto intro!: inv_intros)
    then have "keeps hostsInv (andThen (validateReferencedHosts gs) (\<lambda>_. andThen ListHostGroups (\<lambda>cur.
        case buildGroupReconcilePlan cur gs of Inl e \<Rightarrow> throw e
        | Inr plan \<Rightarrow> withinTx inTx (applyGroupPlan now plan))))"
      unfolding ListHostGroups_def by (intro inv_intros) (auto intro: inv_intros split: sum.splits)
    then show ?thesis using assms Inr by (simp add: ReconcileHostGroups_def notifying_store keeps_def)
  qed (use assms in \<open>simp add: ReconcileHostGroups_def notifying_store\<close>)
qed

lemma reconcile_keeps_hostsInv_witness:
  "hostsInv (storeAfter (ReconcileHosts False 7 [] emptyStore)) \<and>
   hostsInv (storeAfter (ReconcileHostGroups False 7 [\<lparr>dg_ID = None, dg_Name = ''g'', dg_Color = ''#4C6EF5'',
     dg_Icon = ''server'', dg_Description = None, dg_HostIDs = []\<rparr>] emptyStore))"
  by (rule reconcile_keeps_hostsInv) (simp add: hostsInv_def emptyStore_def)

text \<open>The validator strips one more trailing dot than the normaliser has stripped: a name
  sent with two trailing dots is accepted and stored with one, and then neither its own spelling nor
  the plain name is recognised as that host, and a request that sends the stored row back by its id
  is refused as a rename.\<close>

lemma trailing_dots_stored:
  assumes "canonicalFQDN h"
  shows "prepareHost \<lparr>dh_ID = None, dh_FQDN = h @ ''..'', dh_GroupIDs = []\<rparr> =
      Inr \<lparr>dh_ID = None, dh_FQDN = h @ ''.'', dh_GroupIDs = []\<rparr> \<and>
    NormaliseHost h \<noteq> h @ ''.'' \<and> NormaliseHost (h @ ''.'') \<noteq> h @ ''.'' \<and>
    buildHostReconcilePlan [\<lparr>h_ID = 1, h_FQDN = h @ ''.'', h_UpdatedAt = 0, h_CreatedAt = 0\<rparr>]
      [\<lparr>dh_ID = Some 1, dh_FQDN = NormaliseHost (h @ ''.''), dh_GroupIDs = []\<rparr>] = Inl (HostsErr ErrHostFQDNImmutable)"
proof -
  have n: "NormaliseHost h = h" "NormaliseHost (h @ ''.'') = h"
    using NormaliseHost_canonical[OF assms, of h "[]" "[]" "[]" "[]"] assms
      NormaliseHost_canonical[OF assms, of h "''.''" "[]" "[]" "[]"] by (auto simp: canonicalFQDN_def)
  have ch: "\<And>c. c \<in> set h \<Longrightarrow> labelChar c \<or> c = CHR ''.''" and low: "ToLower h = h"
    using assms ValidateFQDN_chars by (auto simp: canonicalFQDN_def)
  have "CHR '':'' \<notin> set (h @ ''..'')" using ch[of "CHR '':''"] labelChar_props(2) by auto
  moreover have "trimmed (h @ ''..'')" using ch labelChar_props(1) dot_props(1) by (intro no_space_trimmed) auto
  ultimately have "NormaliseHost (h @ ''..'') = TrimSuffixChar CHR ''.'' (ToLower (h @ ''..''))"
    by (simp add: NormaliseHost_def NormaliseFQDN_def SplitHostPort_no_colon)
  also have "\<dots> = h @ ''.''" using low by (simp add: ToLower_def TrimSuffixChar_def dot_props butlast_append)
  finally have two: "NormaliseHost (h @ ''..'') = h @ ''.''" .
  have "TrimSuffixChar CHR ''.'' (h @ ''.'') = TrimSuffixChar CHR ''.'' h"
    using assms by (simp add: TrimSuffixChar_def canonicalFQDN_def)
  then have "ValidateFQDN (h @ ''.'') = None" using assms by (simp add: ValidateFQDN_def canonicalFQDN_def)
  then show ?thesis using n two by (simp add: prepareHost_def buildHostReconcilePlan_def Let_def)
qed

lemma trailing_dots_stored_witness:
  "NormaliseHost (''app.example.com'' @ ''.'') \<noteq> ''app.example.com'' @ ''.''"
proof -
  have "canonicalFQDN ''app.example.com''" by code_simp
  from trailing_dots_stored[OF this] show ?thesis by blast
qed

end
