(* ===== verification/Useraccess.thy ===== *)
theory Useraccess
  imports Hosts
begin

text \<open>
  Package \<open>useraccess\<close> (\<open>src/internal/useraccess\<close>): the per-user bypass flag and the groups a user
  may reach, and the projection \<open>policy.UserHostAccess\<close> that feeds the policy cache. Go's maps are
  iterated in an unspecified order; where the result of such an iteration is a slice, the model lists
  it in the order of insertion, and the theorems speak of what a user's entry contains.
\<close>

record UserHostAccess =
  ua_UserID :: id
  ua_BypassAllowlist :: bool
  ua_AllowedHosts :: "string list"

record UserHostGrant =
  ug_UserID :: id
  ug_FQDN :: string

section \<open>Repository\<close>

definition insertUserGroup :: "id \<Rightarrow> id \<Rightarrow> unit op" where
  "insertUserGroup userID groupID s =
    (if (userID, groupID) \<in> set (st_userGroups s) then (Inl DBError, s)
     else if userID \<notin> u_ID ` set (st_users s) \<or> groupID \<notin> g_ID ` set (st_hostGroups s)
       then (Inl UserAccessRef, s)
     else (Inr (), s\<lparr>st_userGroups := st_userGroups s @ [(userID, groupID)]\<rparr>))"

definition upsertSetting :: "id \<Rightarrow> bool \<Rightarrow> unit op" where
  "upsertSetting userID bypass s =
    (if userID \<notin> u_ID ` set (st_users s) then (Inl (AuthErr ErrUserNotFound), s)
     else (Inr (), s\<lparr>st_userSettings := filter (\<lambda>r. us_UserID r \<noteq> userID) (st_userSettings s)
       @ [\<lparr>us_UserID = userID, us_BypassHostCheck = bypass\<rparr>]\<rparr>))"

definition repoSetUserAccess :: "bool \<Rightarrow> id \<Rightarrow> bool \<Rightarrow> id list \<Rightarrow> unit op" where
  "repoSetUserAccess inTx userID bypass groupIDs = withinTx inTx
    (andThen (modify (\<lambda>s. s\<lparr>st_userGroups := filter (\<lambda>m. fst m \<noteq> userID) (st_userGroups s)\<rparr>)) (\<lambda>_.
     andThen (forEach (insertUserGroup userID) groupIDs) (\<lambda>_.
     upsertSetting userID bypass)))"

definition EnsureUserSettings :: "id \<Rightarrow> unit op" where
  "EnsureUserSettings userID s =
    (if userID \<in> us_UserID ` set (st_userSettings s) then (Inr (), s)
     else if userID \<notin> u_ID ` set (st_users s) then (Inl DBError, s)
     else (Inr (), s\<lparr>st_userSettings := st_userSettings s @ [\<lparr>us_UserID = userID, us_BypassHostCheck = False\<rparr>]\<rparr>))"

definition DeleteUserData :: "bool \<Rightarrow> id \<Rightarrow> unit op" where
  "DeleteUserData inTx userID = withinTx inTx
    (andThen (modify (\<lambda>s. s\<lparr>st_userSettings := filter (\<lambda>r. us_UserID r \<noteq> userID) (st_userSettings s)\<rparr>)) (\<lambda>_.
     modify (\<lambda>s. s\<lparr>st_userGroups := filter (\<lambda>m. fst m \<noteq> userID) (st_userGroups s)\<rparr>)))"

definition GetAllUserHostSettings :: "UserHostSetting list op" where
  "GetAllUserHostSettings = get st_userSettings"

text \<open>The inner joins of \<open>user_allowed_host_groups\<close>, \<open>host_group_members\<close> and \<open>hosts\<close>.\<close>

definition userGrants :: "store \<Rightarrow> UserHostGrant list" where
  "userGrants s = concat (map (\<lambda>ug. concat (map (\<lambda>gm. if fst gm = snd ug
      then map (\<lambda>h. \<lparr>ug_UserID = fst ug, ug_FQDN = h_FQDN h\<rparr>) (filter (\<lambda>h. h_ID h = snd gm) (st_hosts s))
      else []) (st_groupMembers s))) (st_userGroups s))"

definition GetAllUserHostGrants :: "UserHostGrant list op" where
  "GetAllUserHostGrants = get userGrants"

section \<open>Service\<close>

text \<open>The entries by user while merging: the bypass flag and the hosts seen.\<close>

type_synonym accessMap = "(id \<times> (bool \<times> string list)) list"

definition settingsStep :: "accessMap \<Rightarrow> UserHostSetting \<Rightarrow> accessMap" where
  "settingsStep m r = AList.update (us_UserID r) (us_BypassHostCheck r, []) m"

definition grantStep :: "accessMap \<Rightarrow> UserHostGrant \<Rightarrow> accessMap" where
  "grantStep m g = (case map_of m (ug_UserID g) of None \<Rightarrow> m
     | Some (b, hs) \<Rightarrow> AList.update (ug_UserID g) (b, if ug_FQDN g \<in> set hs then hs else hs @ [ug_FQDN g]) m)"

definition mergeUserHostAccess :: "UserHostSetting list \<Rightarrow> UserHostGrant list \<Rightarrow> UserHostAccess list" where
  "mergeUserHostAccess settings groupHosts =
    (let byUser = foldl grantStep (foldl settingsStep [] settings) groupHosts in
     map (\<lambda>(u, b, hs). \<lparr>ua_UserID = u, ua_BypassAllowlist = b, ua_AllowedHosts = hs\<rparr>)
       (filter (\<lambda>(u, b, hs). \<not> (\<not> b \<and> length hs = 0)) byUser))"

definition GetAllUserHostAccess :: "bool \<Rightarrow> UserHostAccess list op" where
  "GetAllUserHostAccess inTx = withinTx inTx
    (andThen GetAllUserHostSettings (\<lambda>settings. andThen GetAllUserHostGrants (\<lambda>grants.
     ret (mergeUserHostAccess settings grants))))"

definition SetUserAccess :: "bool \<Rightarrow> id \<Rightarrow> bool \<Rightarrow> id list \<Rightarrow> unit svc" where
  "SetUserAccess inTx userID bypass groupIDs =
    notifying (repoSetUserAccess inTx userID bypass (Dedup groupIDs)) (\<lambda>_. [HostAccessChanged])"

text \<open>The observer of user events: the error of the repository is logged and dropped.\<close>

definition useraccess_OnUserEvent :: "bool \<Rightarrow> UserEvent \<Rightarrow> unit svc" where
  "useraccess_OnUserEvent inTx e s =
    (case uev_Type e of
       EventTypeUserCreated \<Rightarrow> (Inr (), [HostAccessChanged], snd (EnsureUserSettings (uev_UserID e) s))
     | EventTypeUserDeleted \<Rightarrow> (Inr (), [HostAccessChanged], snd (DeleteUserData inTx (uev_UserID e) s)))"

section \<open>What a user's entry contains\<close>

definition accessOf :: "UserHostAccess list \<Rightarrow> id \<Rightarrow> (bool \<times> string set)" where
  "accessOf xs u = (case List.find (\<lambda>a. ua_UserID a = u) xs of None \<Rightarrow> (False, {})
     | Some a \<Rightarrow> (ua_BypassAllowlist a, set (ua_AllowedHosts a)))"

lemma map_of_settings:
  "map_of (foldl settingsStep m rs) u = (case List.find (\<lambda>r. us_UserID r = u) (rev rs) of
     None \<Rightarrow> map_of m u | Some r \<Rightarrow> Some (us_BypassHostCheck r, []))"
  by (induction rs arbitrary: m) (auto simp: settingsStep_def find_append split: option.splits)

lemma distinct_settings: "distinct (map fst m) \<Longrightarrow> distinct (map fst (foldl settingsStep m rs))"
  by (induction rs arbitrary: m) (auto simp: settingsStep_def)

lemma grantStep_keys: "map fst (grantStep m g) = map fst m"
proof (cases "map_of m (ug_UserID g)")
  case (Some a)
  then have "ug_UserID g \<in> fst ` set m" by (metis map_of_eq_None_iff option.distinct(1))
  then show ?thesis using Some by (cases a) (simp add: grantStep_def AList.update_keys)
qed (simp add: grantStep_def)

lemma foldl_grantStep_keys: "map fst (foldl grantStep m gs) = map fst m"
  by (induction gs arbitrary: m) (simp_all add: grantStep_keys)

lemma map_of_grants:
  "map_option (\<lambda>(b, hs). (b, set hs)) (map_of (foldl grantStep m gs) u) =
   map_option (\<lambda>(b, hs). (b, set hs \<union> {ug_FQDN g | g. g \<in> set gs \<and> ug_UserID g = u})) (map_of m u)"
proof (induction gs arbitrary: m)
  case Nil
  then show ?case by (auto simp: map_option_case split: option.splits)
next
  case (Cons g gs)
  show ?case
  proof (cases "map_of m (ug_UserID g)")
    case None
    then show ?thesis using Cons[of m]
      by (cases "map_of m u") (auto simp: grantStep_def split: prod.splits)
  next
    case (Some a)
    then show ?thesis using Cons[of "grantStep m g"]
      by (cases a; cases "map_of m u") (auto simp: grantStep_def split: if_splits prod.splits)
  qed
qed

lemma find_map_of:
  assumes "distinct (map fst m)"
  shows "List.find (\<lambda>a. ua_UserID a = u)
     (map (\<lambda>(u, b, hs). \<lparr>ua_UserID = u, ua_BypassAllowlist = b, ua_AllowedHosts = hs\<rparr>)
       (filter (\<lambda>(u, b, hs). \<not> (\<not> b \<and> length hs = 0)) m)) =
   (case map_of m u of None \<Rightarrow> None | Some (b, hs) \<Rightarrow> if \<not> b \<and> hs = [] then None
     else Some \<lparr>ua_UserID = u, ua_BypassAllowlist = b, ua_AllowedHosts = hs\<rparr>)"
  using assms
proof (induction m)
  case (Cons x m)
  obtain k b hs where x: "x = (k, b, hs)" by (metis prod_cases3)
  show ?case
  proof (cases "k = u")
    case True
    then have "map_of m u = None" using Cons.prems x by (simp add: map_of_eq_None_iff image_iff)
    then show ?thesis using Cons x True by auto
  qed (use Cons x in auto)
qed simp

lemma accessOf_merge:
  "accessOf (mergeUserHostAccess settings grants) u =
    (case List.find (\<lambda>r. us_UserID r = u) (rev settings) of None \<Rightarrow> (False, {})
     | Some r \<Rightarrow> (us_BypassHostCheck r, {ug_FQDN g | g. g \<in> set grants \<and> ug_UserID g = u}))"
proof -
  let ?init = "foldl settingsStep [] settings"
  let ?all = "foldl grantStep ?init grants"
  have d: "distinct (map fst ?all)" by (simp add: foldl_grantStep_keys distinct_settings)
  show ?thesis
  proof (cases "List.find (\<lambda>r. us_UserID r = u) (rev settings)")
    case None
    then have "map_of ?all u = None" using map_of_grants[of ?init grants u] by (auto simp: map_of_settings)
    then show ?thesis using None find_map_of[OF d] by (simp add: accessOf_def mergeUserHostAccess_def Let_def)
  next
    case (Some r)
    then obtain hs where "map_of ?all u = Some (us_BypassHostCheck r, hs)"
      "set hs = {ug_FQDN g | g. g \<in> set grants \<and> ug_UserID g = u}"
      using map_of_grants[of ?init grants u] by (auto simp: map_of_settings)
    then show ?thesis using Some find_map_of[OF d] by (auto simp: accessOf_def mergeUserHostAccess_def Let_def)
  qed
qed

lemma userGrants_mem:
  "{ug_FQDN g | g. g \<in> set (userGrants s) \<and> ug_UserID g = u} =
   {h_FQDN h | h g. h \<in> set (st_hosts s) \<and> (u, g) \<in> set (st_userGroups s) \<and> (g, h_ID h) \<in> set (st_groupMembers s)}"
  by (force simp: userGrants_def split: if_splits)

section \<open>Setting a user's access\<close>

lemma forEach_insertUserGroup:
  assumes "forEach (insertUserGroup u) gs s = (Inr (), s')"
  shows "s' = s\<lparr>st_userGroups := st_userGroups s @ map (Pair u) gs\<rparr> \<and> set gs \<subseteq> g_ID ` set (st_hostGroups s)"
  using assms
proof (induction gs arbitrary: s)
  case (Cons g gs)
  from Cons.prems obtain t where t: "insertUserGroup u g s = (Inr (), t)" "forEach (insertUserGroup u) gs t = (Inr (), s')"
    by (auto elim!: andThen_InrD)
  then have "t = s\<lparr>st_userGroups := st_userGroups s @ [(u, g)]\<rparr>" "g \<in> g_ID ` set (st_hostGroups s)"
    by (auto simp: insertUserGroup_def split: if_splits)
  then show ?case using Cons.IH[OF t(2)] by simp
qed simp

lemma repoSetUserAccess_ok:
  assumes "repoSetUserAccess b u bypass gs s = (Inr (), s')"
  shows "s' = s\<lparr>st_userGroups := filter (\<lambda>m. fst m \<noteq> u) (st_userGroups s) @ map (Pair u) gs,
      st_userSettings := filter (\<lambda>r. us_UserID r \<noteq> u) (st_userSettings s) @ [\<lparr>us_UserID = u, us_BypassHostCheck = bypass\<rparr>]\<rparr>
    \<and> set gs \<subseteq> g_ID ` set (st_hostGroups s) \<and> u \<in> u_ID ` set (st_users s)"
proof -
  let ?s0 = "s\<lparr>st_userGroups := filter (\<lambda>m. fst m \<noteq> u) (st_userGroups s)\<rparr>"
  obtain t where t: "forEach (insertUserGroup u) gs ?s0 = (Inr (), t)" "upsertSetting u bypass t = (Inr (), s')"
    using assms by (auto simp: repoSetUserAccess_def withinTx_Inr elim!: andThen_InrD)
  show ?thesis using forEach_insertUserGroup[OF t(1)] t(2) by (auto simp: upsertSetting_def split: if_splits)
qed

lemma GetAllUserHostAccess_eq:
  "GetAllUserHostAccess b s = (Inr (mergeUserHostAccess (st_userSettings s) (userGrants s)), s)"
  by (simp add: GetAllUserHostAccess_def GetAllUserHostSettings_def GetAllUserHostGrants_def withinTx_def)

lemma find_filter_neq: "List.find (\<lambda>r. f r = v) (filter (\<lambda>r. f r \<noteq> u) xs) =
    (if v = u then None else List.find (\<lambda>r. f r = v) xs)"
  by (induction xs) auto

section \<open>Properties\<close>

text \<open>After a successful \<open>SetUserAccess\<close> the feed of the policy cache gives the user
  exactly the new bypass flag and the hosts of exactly the new groups; every other user's access is
  what it was, and the observers are notified.\<close>

lemma SetUserAccess_feeds_cache:
  assumes "SetUserAccess b u bypass gs s = (Inr (), ns, s')"
  shows "\<exists>acc acc'. GetAllUserHostAccess False s = (Inr acc, s) \<and> GetAllUserHostAccess False s' = (Inr acc', s') \<and>
    accessOf acc' u = (bypass, {h_FQDN h | h g. h \<in> set (st_hosts s) \<and> g \<in> set gs \<and> (g, h_ID h) \<in> set (st_groupMembers s)}) \<and>
    (\<forall>v. v \<noteq> u \<longrightarrow> accessOf acc' v = accessOf acc v) \<and> ns = [HostAccessChanged]"
proof -
  have r: "repoSetUserAccess b u bypass (Dedup gs) s = (Inr (), s')" and ns: "ns = [HostAccessChanged]"
    using assms by (auto simp: SetUserAccess_def notifying_Inr)
  note s' = conjunct1[OF repoSetUserAccess_ok[OF r]]
  have grants: "{ug_FQDN g | g. g \<in> set (userGrants s') \<and> ug_UserID g = v} = (if v = u
      then {h_FQDN h | h g. h \<in> set (st_hosts s) \<and> g \<in> set gs \<and> (g, h_ID h) \<in> set (st_groupMembers s)}
      else {ug_FQDN g | g. g \<in> set (userGrants s) \<and> ug_UserID g = v})" for v
    unfolding userGrants_mem by (auto simp: s')
  have "List.find (\<lambda>r. us_UserID r = v) (rev (st_userSettings s')) = (if v = u
      then Some \<lparr>us_UserID = u, us_BypassHostCheck = bypass\<rparr>
      else List.find (\<lambda>r. us_UserID r = v) (rev (st_userSettings s)))" for v
    by (simp add: s' rev_filter find_filter_neq)
  note settings = this
  have "accessOf (mergeUserHostAccess (st_userSettings s') (userGrants s')) v = (if v = u
      then (bypass, {h_FQDN h | h g. h \<in> set (st_hosts s) \<and> g \<in> set gs \<and> (g, h_ID h) \<in> set (st_groupMembers s)})
      else accessOf (mergeUserHostAccess (st_userSettings s) (userGrants s)) v)" for v
    unfolding accessOf_merge grants settings by simp
  then show ?thesis using ns unfolding GetAllUserHostAccess_eq by simp
qed

definition sampleStore :: store where
  "sampleStore = emptyStore\<lparr>
    st_users := [\<lparr>u_ID = 5, u_Username = ''bob'', u_DisplayName = ''Bob'', u_Email = None, u_PasswordHash = None,
      u_Role = UserRole, u_MustChangePassword = False, u_CreatedBy = None, u_CreatedAt = 0, u_DeletedAt = None\<rparr>],
    st_hosts := [\<lparr>h_ID = 1, h_FQDN = ''a.example.com'', h_UpdatedAt = 0, h_CreatedAt = 0\<rparr>],
    st_hostGroups := [\<lparr>g_ID = 2, g_Name = ''g'', g_Color = ''#000000'', g_Icon = ''i'', g_Description = None,
      g_UpdatedAt = 0, g_CreatedAt = 0\<rparr>],
    st_groupMembers := [(2, 1)]\<rparr>"

lemma SetUserAccess_feeds_cache_witness:
  "\<exists>ns s' acc'. SetUserAccess False 5 False [2, 2] sampleStore = (Inr (), ns, s') \<and>
     GetAllUserHostAccess False s' = (Inr acc', s') \<and> accessOf acc' 5 = (False, {''a.example.com''})"
proof -
  have "fst (SetUserAccess False 5 False [2, 2] sampleStore) = Inr ()" by code_simp
  then obtain ns s' where run: "SetUserAccess False 5 False [2, 2] sampleStore = (Inr (), ns, s')"
    by (metis prod.collapse)
  have "{h_FQDN h | h g. h \<in> set (st_hosts sampleStore) \<and> g \<in> set [2, 2] \<and>
      (g, h_ID h) \<in> set (st_groupMembers sampleStore)} = {''a.example.com''}"
    by (auto simp: sampleStore_def emptyStore_def)
  then show ?thesis using SetUserAccess_feeds_cache[OF run] run by auto
qed

end
