(* ===== verification/Network_Policies.thy ===== *)
theory Network_Policies
  imports Events
begin

text \<open>
  Package \<open>networkpolicies\<close> (\<open>src/internal/networkpolicies\<close>): the CIDR ranges that admit addresses no
  device has registered, their normal form and the bands that reject ranges that are too broad, the
  table with its repository, the service, and the feed of the policy cache.
\<close>

section \<open>CIDRs (network\_policy.go)\<close>

datatype cidrBand = cidrNormal | cidrBroad | cidrTooBroad

definition rejectMaxBitsV4 :: int where "rejectMaxBitsV4 = 8"
definition warnMaxBitsV4 :: int where "warnMaxBitsV4 = 16"
definition rejectMaxBitsV6 :: int where "rejectMaxBitsV6 = 32"
definition warnMaxBitsV6 :: int where "warnMaxBitsV6 = 47"

lemmas bandLimits = rejectMaxBitsV4_def warnMaxBitsV4_def rejectMaxBitsV6_def warnMaxBitsV6_def

definition classifyCIDR :: "prefix \<Rightarrow> cidrBand" where
  "classifyCIDR p =
    (let addr = pfx_ip p;
         bits = (if Is4In6 addr then pfx_bits p - 96 else pfx_bits p);
         addr' = (if Is4In6 addr then Unmap addr else addr);
         (rejectMax, warnMax) = (if Is4 addr' then (rejectMaxBitsV4, warnMaxBitsV4)
                                 else (rejectMaxBitsV6, warnMaxBitsV6))
     in if bits \<le> rejectMax then cidrTooBroad
        else if bits \<le> warnMax then cidrBroad
        else cidrNormal)"

definition normalizeCIDR :: "string \<Rightarrow> (err, string) result" where
  "normalizeCIDR cidr = (case ParsePrefix cidr of None \<Rightarrow> Inl (PolicyErr ErrInvalidCIDR)
   | Some p \<Rightarrow> if classifyCIDR p = cidrTooBroad then Inl (PolicyErr ErrCIDRTooBroad)
       else Inr (PrefixString (Masked p)))"

definition broadCIDR :: "string \<Rightarrow> bool" where
  "broadCIDR cidr = (case ParsePrefix cidr of None \<Rightarrow> False | Some p \<Rightarrow> classifyCIDR p = cidrBroad)"

definition broadLimitMessage :: "prefix \<Rightarrow> string" where
  "broadLimitMessage p =
    (let narrowest = (if \<not> Is4 (Unmap (pfx_ip p)) then ''/33'' else ''/9'') in
     PrefixString p @ '' covers an entire network operator's range; the broadest allowed prefix is '' @ narrowest)"

record UpdateFields =
  uf_Name :: string
  uf_CIDR :: string
  uf_Description :: "string option"
  uf_Enabled :: bool

definition Apply :: "NetworkPolicy \<Rightarrow> UpdateFields \<Rightarrow> (err, NetworkPolicy) result" where
  "Apply p flds = (case normalizeCIDR (uf_CIDR flds) of Inl e \<Rightarrow> Inl e
   | Inr normalized \<Rightarrow> Inr (p\<lparr>np_Name := uf_Name flds, np_CIDR := normalized,
       np_Description := uf_Description flds, np_Enabled := uf_Enabled flds\<rparr>))"

section \<open>Repository (repository.go)\<close>

record CacheEntry =
  ce_PolicyID :: id
  ce_PolicyName :: string
  ce_CIDR :: string
  ce_BypassHostCheck :: bool
  ce_AllowedHostFQDNs :: "string list"

text \<open>The table has an \<open>AUTOINCREMENT\<close> key: ids are never used again.\<close>

definition repoCreatePolicy :: "time \<Rightarrow> NetworkPolicy \<Rightarrow> NetworkPolicy op" where
  "repoCreatePolicy now p s =
    (if np_CIDR p \<in> np_CIDR ` set (st_policies s) then (Inl (PolicyErr ErrCIDRConflict), s)
     else let row = p\<lparr>np_ID := st_policySeq s + 1, np_CreatedAt := now, np_UpdatedAt := now\<rparr> in
       (Inr row, s\<lparr>st_policies := st_policies s @ [row], st_policySeq := st_policySeq s + 1\<rparr>))"

definition GetPolicy :: "id \<Rightarrow> NetworkPolicy op" where
  "GetPolicy i s = (case List.find (\<lambda>p. np_ID p = i) (st_policies s) of
     None \<Rightarrow> (Inl (PolicyErr ErrNotFound), s) | Some p \<Rightarrow> (Inr p, s))"

definition repoUpdatePolicy :: "time \<Rightarrow> NetworkPolicy \<Rightarrow> NetworkPolicy op" where
  "repoUpdatePolicy now p s =
    (case List.find (\<lambda>r. np_ID r = np_ID p) (st_policies s) of
       None \<Rightarrow> (Inl (PolicyErr ErrNotFound), s)
     | Some old \<Rightarrow>
        if \<exists>r \<in> set (st_policies s). np_ID r \<noteq> np_ID p \<and> np_CIDR r = np_CIDR p
        then (Inl (PolicyErr ErrCIDRConflict), s)
        else let row = old\<lparr>np_Name := np_Name p, np_CIDR := np_CIDR p, np_Description := np_Description p,
              np_Enabled := np_Enabled p, np_BypassHostCheck := np_BypassHostCheck p, np_UpdatedAt := now\<rparr>
          in (Inr row, s\<lparr>st_policies := map (\<lambda>r. if np_ID r = np_ID p then row else r) (st_policies s)\<rparr>))"

definition repoDeletePolicy :: "id \<Rightarrow> unit op" where
  "repoDeletePolicy i s =
    (if i \<notin> np_ID ` set (st_policies s) then (Inl (PolicyErr ErrNotFound), s)
     else (Inr (), s\<lparr>st_policies := filter (\<lambda>p. np_ID p \<noteq> i) (st_policies s),
                     st_policyGroups := filter (\<lambda>m. fst m \<noteq> i) (st_policyGroups s),
                     st_logPolicies := map (\<lambda>r. if lp_PolicyID r = Some i then r\<lparr>lp_PolicyID := None\<rparr> else r) (st_logPolicies s)\<rparr>))"

definition insertPolicyGroup :: "id \<Rightarrow> id \<Rightarrow> unit op" where
  "insertPolicyGroup i g s =
    (if (i, g) \<in> set (st_policyGroups s) then (Inl DBError, s)
     else if i \<notin> np_ID ` set (st_policies s) \<or> g \<notin> g_ID ` set (st_hostGroups s) then (Inl DBError, s)
     else (Inr (), s\<lparr>st_policyGroups := st_policyGroups s @ [(i, g)]\<rparr>))"

definition setPolicyBypass :: "time \<Rightarrow> id \<Rightarrow> bool \<Rightarrow> store \<Rightarrow> store" where
  "setPolicyBypass now i bypass s = s\<lparr>st_policies := map (\<lambda>p. if np_ID p = i
     then p\<lparr>np_BypassHostCheck := bypass, np_UpdatedAt := now\<rparr> else p) (st_policies s)\<rparr>"

definition repoSetHostAccess :: "bool \<Rightarrow> time \<Rightarrow> id \<Rightarrow> bool \<Rightarrow> id list \<Rightarrow> unit op" where
  "repoSetHostAccess inTx now i bypass groupIDs = withinTx inTx
    (andThen (get (\<lambda>s. i \<in> np_ID ` set (st_policies s))) (\<lambda>ex.
     if \<not> ex then throw (PolicyErr ErrNotFound)
     else andThen (modify (\<lambda>s. s\<lparr>st_policyGroups := filter (\<lambda>m. fst m \<noteq> i) (st_policyGroups s)\<rparr>)) (\<lambda>_.
       andThen (forEach (insertPolicyGroup i) groupIDs) (\<lambda>_.
       modify (setPolicyBypass now i bypass)))))"

text \<open>The rows of the left joins: for a policy without groups, and for a group without members, the
  host name is \<open>NULL\<close>. \<open>DISTINCT\<close> and \<open>ORDER BY\<close> sort the names of each policy, \<open>NULL\<close> first.\<close>

definition memberFQDNs :: "store \<Rightarrow> id \<Rightarrow> string option list" where
  "memberFQDNs s g =
    (let members = map snd (filter (\<lambda>m. fst m = g) (st_groupMembers s)) in
     if members = [] then [None]
     else map (\<lambda>h. map_option h_FQDN (List.find (\<lambda>r. h_ID r = h) (st_hosts s))) members)"

definition joinedFQDNs :: "store \<Rightarrow> NetworkPolicy \<Rightarrow> string option list" where
  "joinedFQDNs s p =
    (let groups = map snd (filter (\<lambda>m. fst m = np_ID p) (st_policyGroups s)) in
     if groups = [] then [None] else concat (map (memberFQDNs s) groups))"

definition policyRows :: "store \<Rightarrow> (NetworkPolicy \<times> string option) list" where
  "policyRows s = concat (map (\<lambda>p. map (Pair p) (sort (remdups (joinedFQDNs s p))))
     (sort_key np_ID (filter np_Enabled (st_policies s))))"

text \<open>The loop over the rows keeps the positions by policy id and appends the names; it is the loop
  of \<open>collate.Collapse\<close> written out.\<close>

definition GetEnabledCacheEntries :: "CacheEntry list op" where
  "GetEnabledCacheEntries = get (\<lambda>s. Collapse (policyRows s) (\<lambda>row. np_ID (fst row))
     (\<lambda>row. \<lparr>ce_PolicyID = np_ID (fst row), ce_PolicyName = np_Name (fst row), ce_CIDR = np_CIDR (fst row),
              ce_BypassHostCheck = np_BypassHostCheck (fst row), ce_AllowedHostFQDNs = []\<rparr>)
     snd (\<lambda>e f. e\<lparr>ce_AllowedHostFQDNs := ce_AllowedHostFQDNs e @ [f]\<rparr>))"

section \<open>Service (service.go)\<close>

definition CreatePolicy :: "time \<Rightarrow> string \<Rightarrow> string \<Rightarrow> string option \<Rightarrow> NetworkPolicy svc" where
  "CreatePolicy now name cidr description =
    (case normalizeCIDR cidr of Inl e \<Rightarrow> notifying (throw e) (\<lambda>_. [])
     | Inr normalized \<Rightarrow> notifying (repoCreatePolicy now
        \<lparr>np_ID = 0, np_Name = name, np_CIDR = normalized, np_Description = description, np_Enabled = True,
         np_BypassHostCheck = False, np_CreatedAt = 0, np_UpdatedAt = 0\<rparr>) (\<lambda>_. []))"

definition UpdatePolicy :: "bool \<Rightarrow> time \<Rightarrow> id \<Rightarrow> UpdateFields \<Rightarrow> NetworkPolicy svc" where
  "UpdatePolicy inTx now i flds = notifying (withinTx inTx
    (andThen (GetPolicy i) (\<lambda>existing.
     case Apply existing flds of Inl e \<Rightarrow> throw e
     | Inr updated \<Rightarrow> repoUpdatePolicy now updated))) (\<lambda>_. [NetworkPolicyChanged])"

definition DeletePolicy :: "id \<Rightarrow> unit svc" where
  "DeletePolicy i = notifying (repoDeletePolicy i) (\<lambda>_. [NetworkPolicyChanged])"

definition SetHostAccess :: "bool \<Rightarrow> time \<Rightarrow> id \<Rightarrow> bool \<Rightarrow> id list \<Rightarrow> unit svc" where
  "SetHostAccess inTx now i bypass groupIDs =
    notifying (repoSetHostAccess inTx now i bypass groupIDs) (\<lambda>_. [NetworkPolicyChanged])"

section \<open>The bands\<close>

lemma classifyCIDR_accepts:
  "classifyCIDR p \<noteq> cidrTooBroad \<longleftrightarrow>
    (if Is4In6 (pfx_ip p) then 104 < pfx_bits p else if Is4 (pfx_ip p) then 8 < pfx_bits p else 32 < pfx_bits p)"
  by (cases "pfx_ip p") (auto simp: classifyCIDR_def Let_def bandLimits)

text \<open>Masking does not move a prefix between the address families the bands distinguish.\<close>

lemma mask_4In6:
  fixes w :: "128 word"
  assumes "k \<le> 32"
  shows "drop_bit 32 (push_bit k (drop_bit k w)) = drop_bit 32 w"
  using assms by (intro bit_word_eqI) (auto simp: bit_simps dest: bit_imp_le_length)

lemma low_bit_lost:
  fixes w :: "128 word"
  assumes "32 < k"
  shows "drop_bit 32 (push_bit k (drop_bit k w)) \<noteq> 0xffff"
proof
  assume "drop_bit 32 (push_bit k (drop_bit k w)) = 0xffff"
  then have "bit (drop_bit 32 (push_bit k (drop_bit k w))) 0 = bit (0xffff :: 128 word) 0" by simp
  moreover have "\<not> bit (drop_bit 32 (push_bit k (drop_bit k w))) 0" using assms by (simp add: bit_simps)
  moreover have "bit (0xffff :: 128 word) 0" by simp
  ultimately show False by blast
qed

lemma classify_Masked:
  assumes "prefixOK p" "classifyCIDR p \<noteq> cidrTooBroad"
  shows "classifyCIDR (Masked p) \<noteq> cidrTooBroad \<and> Is4In6 (pfx_ip (Masked p)) = Is4In6 (pfx_ip p)"
proof (cases "pfx_ip p")
  case (V6 w z)
  let ?k = "128 - nat (pfx_bits p)"
  have m: "Masked p = \<lparr>pfx_ip = V6 (push_bit ?k (drop_bit ?k w)) z, pfx_bits = pfx_bits p\<rparr>"
    using Masked_ok[OF assms(1)] V6 by (simp add: and_not_mask_eq)
  show ?thesis
  proof (cases "?k \<le> 32")
    case True
    then show ?thesis using assms(2) m V6 mask_4In6[OF True, of w] by (simp add: classifyCIDR_accepts)
  next
    case False
    then have "\<not> Is4In6 (pfx_ip p)" using assms(2) V6 by (auto simp: classifyCIDR_accepts split: if_splits)
    then show ?thesis using assms(2) m V6 low_bit_lost[of ?k w] False by (simp add: classifyCIDR_accepts)
  qed
qed (use assms Masked_ok[OF assms(1)] in \<open>auto simp: classifyCIDR_accepts prefixOK_def IsValid_def\<close>)

lemma Masked_Masked:
  assumes "prefixOK p"
  shows "Masked (Masked p) = Masked p"
proof -
  let ?b = "nat (pfx_bits p)"
  have "maskAddr (maskAddr (pfx_ip p) ?b) ?b = maskAddr (pfx_ip p) ?b"
    using assms maskAddr_sameHigh[of "pfx_ip p" ?b] by (intro maskAddr_eqI) (auto simp: prefixOK_def)
  then show ?thesis using Masked_ok[OF Masked_prefixOK[OF assms]] Masked_ok[OF assms] by simp
qed

text \<open>The normal form of a stored range: the text of a masked prefix that is not too broad.\<close>

definition normalCIDR :: "string \<Rightarrow> bool" where
  "normalCIDR c \<longleftrightarrow> (\<exists>p. ParsePrefix c = Some p \<and> prefixOK p \<and> Masked p = p \<and> PrefixString p = c
     \<and> classifyCIDR p \<noteq> cidrTooBroad)"

lemma normalizeCIDR_normal:
  assumes "normalizeCIDR c = Inr n"
  shows "normalCIDR n"
proof -
  obtain p where p: "ParsePrefix c = Some p" "classifyCIDR p \<noteq> cidrTooBroad" "n = PrefixString (Masked p)"
    using assms by (auto simp: normalizeCIDR_def split: option.splits if_splits)
  have ok: "prefixOK p" using ParsePrefix_ok[OF p(1)] .
  have "ParsePrefix n = Some (Masked p)" using p(3) ParsePrefix_print[OF Masked_prefixOK[OF ok]] by simp
  then show ?thesis using p ok Masked_prefixOK[OF ok] Masked_Masked[OF ok] classify_Masked[OF ok p(2)]
    unfolding normalCIDR_def by blast
qed

lemma normalizeCIDR_idem: "normalCIDR n \<Longrightarrow> normalizeCIDR n = Inr n"
  by (auto simp: normalCIDR_def normalizeCIDR_def)

section \<open>The table invariant\<close>

definition policiesInv :: "store \<Rightarrow> bool" where
  "policiesInv s \<longleftrightarrow> distinct (map np_ID (st_policies s)) \<and> distinct (map np_CIDR (st_policies s))
    \<and> (\<forall>p \<in> set (st_policies s). np_ID p \<le> st_policySeq s \<and> normalCIDR (np_CIDR p))"

lemma policiesInv_groups [simp]: "policiesInv (s\<lparr>st_policyGroups := x\<rparr>) = policiesInv s"
  by (simp add: policiesInv_def)

text \<open>Rows replaced in place keep the invariant when ids stay and ranges stay normal and distinct.\<close>

lemma policiesInv_replace:
  assumes "policiesInv s" "map np_ID ps = map np_ID (st_policies s)" "distinct (map np_CIDR ps)"
    and "\<forall>r \<in> set ps. normalCIDR (np_CIDR r)"
  shows "policiesInv (s\<lparr>st_policies := ps\<rparr>)"
proof -
  have "np_ID ` set ps = np_ID ` set (st_policies s)" using assms(2) by (metis set_map)
  then show ?thesis using assms unfolding policiesInv_def by (auto simp: image_iff) (metis imageE imageI)
qed

lemma policiesInv_repoCreate:
  assumes "policiesInv s" "normalCIDR (np_CIDR p)"
  shows "policiesInv (snd (repoCreatePolicy now p s))"
  using assms by (fastforce simp: repoCreatePolicy_def policiesInv_def Let_def)

lemma policiesInv_repoUpdate:
  assumes "policiesInv s" "normalCIDR (np_CIDR p)"
  shows "policiesInv (snd (repoUpdatePolicy now p s))"
proof (cases "List.find (\<lambda>r. np_ID r = np_ID p) (st_policies s)")
  case None
  then show ?thesis using assms by (simp add: repoUpdatePolicy_def)
next
  case (Some old)
  define row where "row = old\<lparr>np_Name := np_Name p, np_CIDR := np_CIDR p, np_Description := np_Description p,
      np_Enabled := np_Enabled p, np_BypassHostCheck := np_BypassHostCheck p, np_UpdatedAt := now\<rparr>"
  let ?upd = "\<lambda>r. if np_ID r = np_ID p then row else r"
  have row: "np_ID row = np_ID p" "np_CIDR row = np_CIDR p" using find_SomeD[OF Some] by (auto simp: row_def)
  have upd: "np_ID (?upd r) = np_ID r" for r using row by simp
  show ?thesis
  proof (cases "\<exists>r \<in> set (st_policies s). np_ID r \<noteq> np_ID p \<and> np_CIDR r = np_CIDR p")
    case True
    then show ?thesis using Some assms by (auto simp: repoUpdatePolicy_def)
  next
    case False
    then have s': "snd (repoUpdatePolicy now p s) = s\<lparr>st_policies := map ?upd (st_policies s)\<rparr>"
      using Some by (auto simp: repoUpdatePolicy_def row_def Let_def)
    show ?thesis unfolding s'
    proof (rule policiesInv_replace[OF assms(1)])
      show "map np_ID (map ?upd (st_policies s)) = map np_ID (st_policies s)" by (simp only: map_map comp_def upd)
      show "distinct (map np_CIDR (map ?upd (st_policies s)))"
        using assms(1) False row unfolding policiesInv_def map_map comp_def distinct_map inj_on_def
        by (auto split: if_splits)
      show "\<forall>r \<in> set (map ?upd (st_policies s)). normalCIDR (np_CIDR r)"
        using assms row by (auto simp: policiesInv_def)
    qed
  qed
qed

lemma policiesInv_repoDelete [inv_intros]: "keeps policiesInv (repoDeletePolicy i)"
  by (auto simp: keeps_def repoDeletePolicy_def policiesInv_def distinct_map_filter)

lemma policiesInv_setBypass [inv_intros]: "keeps policiesInv (modify (setPolicyBypass now i b))"
proof (rule keepsI)
  fix s assume inv: "policiesInv s"
  let ?upd = "\<lambda>p. if np_ID p = i then p\<lparr>np_BypassHostCheck := b, np_UpdatedAt := now\<rparr> else p"
  have upd: "np_ID (?upd r) = np_ID r" "np_CIDR (?upd r) = np_CIDR r" for r by simp_all
  have ids: "map np_ID (map ?upd (st_policies s)) = map np_ID (st_policies s)"
    and cidrs: "map np_CIDR (map ?upd (st_policies s)) = map np_CIDR (st_policies s)" by (simp_all only: map_map comp_def upd)
  have "policiesInv (s\<lparr>st_policies := map ?upd (st_policies s)\<rparr>)"
  proof (rule policiesInv_replace[OF inv ids])
    show "distinct (map np_CIDR (map ?upd (st_policies s)))" using inv unfolding cidrs policiesInv_def by simp
    show "\<forall>r \<in> set (map ?upd (st_policies s)). normalCIDR (np_CIDR r)" using inv by (auto simp: policiesInv_def)
  qed
  then show "policiesInv (snd (modify (setPolicyBypass now i b) s))" by (simp add: setPolicyBypass_def)
qed

lemma policiesInv_insertPolicyGroup [inv_intros]: "keeps policiesInv (insertPolicyGroup i g)"
  by (auto simp: keeps_def insertPolicyGroup_def)

lemma policiesInv_repoSetHostAccess [inv_intros]: "keeps policiesInv (repoSetHostAccess b now i bypass gs)"
proof -
  have "keeps policiesInv (modify (\<lambda>s. s\<lparr>st_policyGroups := filter (\<lambda>m. fst m \<noteq> i) (st_policyGroups s)\<rparr>))"
    by (simp add: keeps_def)
  then show ?thesis unfolding repoSetHostAccess_def by (auto intro!: inv_intros)
qed

section \<open>The feed of the policy cache\<close>

text \<open>The hosts a policy admits: those of its groups.\<close>

definition policyHosts :: "store \<Rightarrow> id \<Rightarrow> string set" where
  "policyHosts s i = {h_FQDN h | h g. h \<in> set (st_hosts s) \<and> (i, g) \<in> set (st_policyGroups s) \<and> (g, h_ID h) \<in> set (st_groupMembers s)}"

lemma memberFQDNs_not_Nil: "memberFQDNs s g \<noteq> []"
  by (simp add: memberFQDNs_def Let_def)

lemma joinedFQDNs_not_Nil: "joinedFQDNs s p \<noteq> []"
  using memberFQDNs_not_Nil by (cases "filter (\<lambda>m. fst m = np_ID p) (st_policyGroups s)")
    (simp_all add: joinedFQDNs_def)

lemma find_h_ID: "distinct (map h_ID xs) \<Longrightarrow> List.find (\<lambda>r. h_ID r = i) xs = Some h \<longleftrightarrow> h \<in> set xs \<and> h_ID h = i"
  by (auto dest: find_SomeD intro!: find_unique simp: distinct_map inj_on_def)

lemma image_snd_iff: "x \<in> F ` snd ` {m \<in> M. fst m = g} \<longleftrightarrow> (\<exists>i. (g, i) \<in> M \<and> F i = x)"
  by force

lemma memberFQDNs_Some:
  assumes "distinct (map h_ID (st_hosts s))"
  shows "Some f \<in> set (memberFQDNs s g) \<longleftrightarrow> (\<exists>h \<in> set (st_hosts s). h_FQDN h = f \<and> (g, h_ID h) \<in> set (st_groupMembers s))"
proof -
  have "Some f \<in> set (memberFQDNs s g) \<longleftrightarrow>
      (\<exists>i. (g, i) \<in> set (st_groupMembers s) \<and> map_option h_FQDN (List.find (\<lambda>r. h_ID r = i) (st_hosts s)) = Some f)"
    (is "_ \<longleftrightarrow> (\<exists>i. _ \<and> ?F i = _)")
  proof (cases "filter (\<lambda>m. fst m = g) (st_groupMembers s) = []")
    case True
    then show ?thesis by (auto simp: memberFQDNs_def filter_empty_conv)
  next
    case False
    then have "set (memberFQDNs s g) = ?F ` snd ` {m \<in> set (st_groupMembers s). fst m = g}"
      by (simp add: memberFQDNs_def image_image)
    then show ?thesis by (simp only: image_snd_iff)
  qed
  also have "\<dots> \<longleftrightarrow> (\<exists>h \<in> set (st_hosts s). h_FQDN h = f \<and> (g, h_ID h) \<in> set (st_groupMembers s))"
    using find_h_ID[OF assms] by auto
  finally show ?thesis .
qed

lemma joinedFQDNs_Some:
  assumes "distinct (map h_ID (st_hosts s))"
  shows "Some f \<in> set (joinedFQDNs s p) \<longleftrightarrow> f \<in> policyHosts s (np_ID p)"
proof -
  have "Some f \<in> set (joinedFQDNs s p) \<longleftrightarrow> (\<exists>g. (np_ID p, g) \<in> set (st_policyGroups s) \<and> Some f \<in> set (memberFQDNs s g))"
    by (auto simp: joinedFQDNs_def filter_empty_conv)
  then show ?thesis unfolding memberFQDNs_Some[OF assms] policyHosts_def by blast
qed

lemma map_filter_snd_Pair: "List.map_filter snd (map (Pair p) xs) = List.map_filter (\<lambda>x. x) xs"
  by (induction xs) (auto simp: map_filter_simps split: option.splits)

lemma set_map_filter_id: "set (List.map_filter (\<lambda>x. x) xs) = {y. Some y \<in> set xs}"
  by (induction xs) (auto simp: map_filter_simps split: option.splits)

lemma distinct_map_filter_id: "distinct xs \<Longrightarrow> distinct (List.map_filter (\<lambda>x. x) xs)"
  by (induction xs) (auto simp: map_filter_simps set_map_filter_id split: option.splits)

lemma foldl_append_hosts:
  "foldl (\<lambda>e f. e\<lparr>ce_AllowedHostFQDNs := ce_AllowedHostFQDNs e @ [f]\<rparr>) e fs =
    e\<lparr>ce_AllowedHostFQDNs := ce_AllowedHostFQDNs e @ fs\<rparr>"
  by (induction fs arbitrary: e) simp_all

lemma rows_other: "i \<notin> np_ID ` set ps \<Longrightarrow> row \<in> set (concat (map (\<lambda>p. map (Pair p) (f p)) ps)) \<Longrightarrow> np_ID (fst row) \<noteq> i"
  by auto

lemma Dedup_rows:
  assumes "distinct (map np_ID ps)" "\<And>p. p \<in> set ps \<Longrightarrow> f p \<noteq> []"
  shows "Dedup (map (\<lambda>row. np_ID (fst row)) (concat (map (\<lambda>p. map (Pair p) (f p)) ps))) = map np_ID ps"
  using assms
proof (induction ps)
  case (Cons p ps)
  obtain x xs where x: "f p = x # xs" using Cons.prems(2)[of p] by (cases "f p") auto
  let ?rest = "concat (map (\<lambda>p. map (Pair p) (f p)) ps)"
  have "filter (\<lambda>i. i \<noteq> np_ID p) (map (\<lambda>row. np_ID (fst row)) (map (Pair p) xs)) = []" by (auto simp: filter_empty_conv)
  moreover have "filter (\<lambda>i. i \<noteq> np_ID p) (map (\<lambda>row. np_ID (fst row)) ?rest) = map (\<lambda>row. np_ID (fst row)) ?rest"
    using Cons.prems(1) rows_other[of "np_ID p" ps _ f] by (auto simp: filter_id_conv simp del: set_concat)
  ultimately show ?case using Cons x by (simp add: Dedup_Cons)
qed simp

lemma filter_rows:
  assumes "distinct (map np_ID ps)" "p \<in> set ps"
  shows "filter (\<lambda>row. np_ID (fst row) = np_ID p) (concat (map (\<lambda>p. map (Pair p) (f p)) ps)) = map (Pair p) (f p)"
  using assms
proof (induction ps)
  case (Cons q ps)
  show ?case
  proof (cases "p = q")
    case True
    have "filter (\<lambda>row. np_ID (fst row) = np_ID p) (concat (map (\<lambda>p. map (Pair p) (f p)) ps)) = []"
      using Cons.prems(1) True rows_other[of "np_ID p" ps _ f] by (auto simp: filter_empty_conv simp del: set_concat)
    then show ?thesis using True by (simp add: filter_id_conv)
  next
    case False
    then have "p \<in> set ps" "np_ID q \<noteq> np_ID p" using Cons.prems by auto
    then show ?thesis using Cons False by (simp add: filter_empty_conv)
  qed
qed simp

text \<open>The feed: one entry per enabled policy in the order of the ids, each with its hosts.\<close>

lemma GetEnabledCacheEntries_eq:
  assumes "policiesInv s"
  shows "GetEnabledCacheEntries s = (Inr (map (\<lambda>p. \<lparr>ce_PolicyID = np_ID p, ce_PolicyName = np_Name p,
      ce_CIDR = np_CIDR p, ce_BypassHostCheck = np_BypassHostCheck p,
      ce_AllowedHostFQDNs = List.map_filter (\<lambda>x. x) (sort (remdups (joinedFQDNs s p)))\<rparr>)
      (sort_key np_ID (filter np_Enabled (st_policies s)))), s)"
proof -
  let ?ps = "sort_key np_ID (filter np_Enabled (st_policies s))"
  let ?f = "\<lambda>p. sort (remdups (joinedFQDNs s p))"
  have d: "distinct (map np_ID ?ps)" using assms by (simp add: policiesInv_def distinct_map inj_on_def)
  have ne: "?f p \<noteq> []" for p using joinedFQDNs_not_Nil by (metis set_empty2 set_remdups set_sort)
  have "parentOf (\<lambda>row. np_ID (fst row))
      (\<lambda>row. \<lparr>ce_PolicyID = np_ID (fst row), ce_PolicyName = np_Name (fst row), ce_CIDR = np_CIDR (fst row),
              ce_BypassHostCheck = np_BypassHostCheck (fst row), ce_AllowedHostFQDNs = []\<rparr>)
      snd (\<lambda>e f. e\<lparr>ce_AllowedHostFQDNs := ce_AllowedHostFQDNs e @ [f]\<rparr>) (policyRows s) (np_ID p) =
      \<lparr>ce_PolicyID = np_ID p, ce_PolicyName = np_Name p, ce_CIDR = np_CIDR p, ce_BypassHostCheck = np_BypassHostCheck p,
       ce_AllowedHostFQDNs = List.map_filter (\<lambda>x. x) (?f p)\<rparr>" if "p \<in> set ?ps" for p
    unfolding parentOf_def policyRows_def filter_rows[OF d that]
    using ne[of p] by (simp add: hd_map Let_def foldl_append_hosts map_filter_snd_Pair)
  then show ?thesis unfolding GetEnabledCacheEntries_def get_eq Collapse_eq
    using Dedup_rows[OF d, of ?f] ne by (simp add: policyRows_def comp_def)
qed

lemma allowed_of_entry:
  assumes "distinct (map h_ID (st_hosts s))"
  shows "set (List.map_filter (\<lambda>x. x) (sort (remdups (joinedFQDNs s p)))) = policyHosts s (np_ID p)"
  using joinedFQDNs_Some[OF assms] by (auto simp: set_map_filter_id)

section \<open>Properties\<close>

text \<open>What \<open>normalizeCIDR\<close> accepts: the input parses, the result is the masked prefix
  printed, it admits exactly the addresses of the input, it is accepted again unchanged, and it is at
  least /9 for IPv4 (written plainly or inside IPv6) and at least /33 for IPv6.\<close>

lemma normalizeCIDR_sound:
  assumes "normalizeCIDR cidr = Inr n"
  shows "\<exists>p q. ParsePrefix cidr = Some p \<and> ParsePrefix n = Some q \<and> q = Masked p \<and>
    (\<forall>a. Contains q a = Contains p a) \<and> normalizeCIDR n = Inr n \<and>
    (if Is4In6 (pfx_ip q) then 105 \<le> pfx_bits q else if Is4 (pfx_ip q) then 9 \<le> pfx_bits q else 33 \<le> pfx_bits q)"
proof -
  obtain p where p: "ParsePrefix cidr = Some p" "classifyCIDR p \<noteq> cidrTooBroad" "n = PrefixString (Masked p)"
    using assms by (auto simp: normalizeCIDR_def split: option.splits if_splits)
  have ok: "prefixOK p" using ParsePrefix_ok[OF p(1)] .
  have "ParsePrefix n = Some (Masked p)" using p(3) ParsePrefix_print[OF Masked_prefixOK[OF ok]] by simp
  moreover have "classifyCIDR (Masked p) \<noteq> cidrTooBroad" using classify_Masked[OF ok p(2)] by simp
  ultimately show ?thesis
    using p(1) Contains_Masked[OF ok] normalizeCIDR_idem[OF normalizeCIDR_normal[OF assms]]
    by (auto simp: classifyCIDR_accepts)
qed

lemma normalizeCIDR_sound_witness:
  "\<exists>q. ParsePrefix ''10.1.0.0/16'' = Some q \<and> normalizeCIDR ''10.1.0.0/16'' = Inr ''10.1.0.0/16''"
proof -
  have "normalizeCIDR ''10.1.2.3/16'' = Inr ''10.1.0.0/16''" by code_simp
  from normalizeCIDR_sound[OF this] show ?thesis by blast
qed

text \<open>Every service call keeps the table well-formed: unique ids, unique ranges, and
  only normal ranges that are not too broad. A created policy gets an id no policy had before.\<close>

lemma policies_stay_normal:
  assumes "policiesInv s"
  shows "policiesInv (storeAfter (CreatePolicy now name cidr descr s)) \<and>
    policiesInv (storeAfter (UpdatePolicy inTx now i flds s)) \<and>
    policiesInv (storeAfter (DeletePolicy i s)) \<and>
    policiesInv (storeAfter (SetHostAccess inTx now i bypass groups s)) \<and>
    (\<forall>p ns s'. CreatePolicy now name cidr descr s = (Inr p, ns, s') \<longrightarrow> np_ID p \<notin> np_ID ` set (st_policies s))"
proof (intro conjI)
  show "policiesInv (storeAfter (CreatePolicy now name cidr descr s))"
    using assms normalizeCIDR_normal[of cidr]
    by (cases "normalizeCIDR cidr") (auto simp: CreatePolicy_def notifying_store intro!: policiesInv_repoCreate)
  have "keeps policiesInv (andThen (GetPolicy i) (\<lambda>existing. case Apply existing flds of Inl e \<Rightarrow> throw e
      | Inr updated \<Rightarrow> repoUpdatePolicy now updated))"
    using normalizeCIDR_normal[of "uf_CIDR flds"] unfolding keeps_def
    by (auto simp: andThen_def GetPolicy_def Apply_def intro!: policiesInv_repoUpdate split: option.splits sum.splits)
  from keeps_withinTx[OF this, of inTx]
  show "policiesInv (storeAfter (UpdatePolicy inTx now i flds s))"
    using assms by (simp add: UpdatePolicy_def notifying_store keeps_def)
  show "policiesInv (storeAfter (DeletePolicy i s))" "policiesInv (storeAfter (SetHostAccess inTx now i bypass groups s))"
    using assms policiesInv_repoDelete[of i] policiesInv_repoSetHostAccess[of inTx now i bypass groups]
    by (auto simp: DeletePolicy_def SetHostAccess_def notifying_store keeps_def)
  show "\<forall>p ns s'. CreatePolicy now name cidr descr s = (Inr p, ns, s') \<longrightarrow> np_ID p \<notin> np_ID ` set (st_policies s)"
    using assms by (fastforce simp: CreatePolicy_def notifying_Inr repoCreatePolicy_def policiesInv_def Let_def
        split: sum.splits if_splits)
qed

lemma policies_stay_normal_witness:
  "policiesInv (storeAfter (CreatePolicy 7 ''lan'' ''10.1.2.3/16'' None emptyStore))"
proof -
  have "policiesInv emptyStore" by (simp add: policiesInv_def emptyStore_def)
  from policies_stay_normal[OF this] show ?thesis by blast
qed

text \<open>C18 (functional). The cache feed lists exactly the enabled policies, each with its range, its
  bypass flag and exactly the hosts of its groups, without duplicates.\<close>

theorem cache_feed_complete:
  assumes "policiesInv s" "distinct (map h_ID (st_hosts s))"
  shows "\<exists>es. GetEnabledCacheEntries s = (Inr es, s) \<and>
    set (map ce_PolicyID es) = {np_ID p | p. p \<in> set (st_policies s) \<and> np_Enabled p} \<and>
    (\<forall>e \<in> set es. distinct (ce_AllowedHostFQDNs e) \<and> set (ce_AllowedHostFQDNs e) = policyHosts s (ce_PolicyID e) \<and>
      (\<exists>p \<in> set (st_policies s). np_Enabled p \<and> np_ID p = ce_PolicyID e \<and> np_CIDR p = ce_CIDR e \<and>
         np_BypassHostCheck p = ce_BypassHostCheck e))"
proof -
  have "distinct (List.map_filter (\<lambda>x. x) (sort (remdups (joinedFQDNs s p))))" for p
    by (rule distinct_map_filter_id) simp
  then show ?thesis unfolding GetEnabledCacheEntries_eq[OF assms(1)]
    using allowed_of_entry[OF assms(2)] by (auto simp: image_iff)
qed

theorem cache_feed_complete_witness:
  "\<exists>es. GetEnabledCacheEntries (storeAfter (CreatePolicy 7 ''lan'' ''10.1.2.3/16'' None emptyStore)) =
    (Inr es, storeAfter (CreatePolicy 7 ''lan'' ''10.1.2.3/16'' None emptyStore)) \<and> map ce_CIDR es = [''10.1.0.0/16'']"
proof -
  let ?s = "storeAfter (CreatePolicy 7 ''lan'' ''10.1.2.3/16'' None emptyStore)"
  have n: "normalizeCIDR ''10.1.2.3/16'' = Inr ''10.1.0.0/16''" by code_simp
  have "policiesInv ?s" using normalizeCIDR_normal[OF n]
    by (simp add: policiesInv_def emptyStore_def CreatePolicy_def n notifying_store repoCreatePolicy_def Let_def)
  moreover have "distinct (map h_ID (st_hosts ?s))"
    by (simp add: emptyStore_def CreatePolicy_def n notifying_store repoCreatePolicy_def Let_def)
  ultimately obtain es where es: "GetEnabledCacheEntries ?s = (Inr es, ?s)" using cache_feed_complete by blast
  moreover have "map_prod (map_sum id (map ce_CIDR)) (\<lambda>_. ()) (GetEnabledCacheEntries ?s) = (Inr [''10.1.0.0/16''], ())"
    by code_simp
  ultimately show ?thesis by simp
qed

text \<open>Two policies can stand for the same range: a range written inside IPv6 and its plain
  IPv4 form have different texts, so the unique constraint does not see that they are the same, and
  both pass the validator.\<close>

lemma same_range_twice:
  "normalizeCIDR ''10.1.0.0/16'' = Inr ''10.1.0.0/16'' \<and>
   normalizeCIDR ''::ffff:10.1.0.0/112'' = Inr ''::ffff:10.1.0.0/112'' \<and>
   (\<exists>p. fst (CreatePolicy 2 ''b'' ''::ffff:10.1.0.0/112'' None
      (storeAfter (CreatePolicy 1 ''a'' ''10.1.0.0/16'' None emptyStore))) = Inr p)"
proof (intro conjI)
  show "normalizeCIDR ''10.1.0.0/16'' = Inr ''10.1.0.0/16''" by code_simp
  show "normalizeCIDR ''::ffff:10.1.0.0/112'' = Inr ''::ffff:10.1.0.0/112''" by code_simp
  have "is_ok (fst (CreatePolicy 2 ''b'' ''::ffff:10.1.0.0/112'' None
      (storeAfter (CreatePolicy 1 ''a'' ''10.1.0.0/16'' None emptyStore))))" by code_simp
  then show "\<exists>p. fst (CreatePolicy 2 ''b'' ''::ffff:10.1.0.0/112'' None
      (storeAfter (CreatePolicy 1 ''a'' ''10.1.0.0/16'' None emptyStore))) = Inr p" by (simp add: is_ok_iff)
qed

end
