(* ===== verification/Policy_Cache.thy ===== *)
theory Policy_Cache
  imports Useraccess Network_Policies
begin

text \<open>
  The two caches of the policy engine (\<open>src/internal/policy/cache.go\<close>): the set of enabled addresses,
  built by joining the enabled addresses with the access of their owners under the rule that the
  narrowest owner wins, and the network policies, parsed and sorted with the most specific first.

  Sets of host names (\<open>map[string]struct{}\<close>) are sets of strings; a nil map and an empty one behave
  alike in every use here. The map of addresses is an association list in the order of the first
  entry of an address. \<open>slices.SortFunc\<close> is a stable sort here; Go's is not stable, and the theorems
  say what holds for every sorting of the entries.
\<close>

section \<open>Types\<close>

record ContributorAccess =
  ca_DeviceID :: id
  ca_AddressID :: id
  ca_UserID :: id
  ca_UserBypass :: bool
  ca_UserAllowedHosts :: "string list"

record ipSetEntry =
  is_Contributors :: "ContributorAccess list"
  is_BypassAllowlist :: bool
  is_AllowedHosts :: "string set"
  is_IntersectionApplied :: bool

record networkPolicyCacheEntry =
  nc_PolicyID :: id
  nc_PolicyName :: string
  nc_Prefix :: prefix
  nc_BypassHostCheck :: bool
  nc_AllowedHosts :: "string set"

section \<open>Building the address set\<close>

definition sortedKeys :: "string set \<Rightarrow> string list" where
  "sortedKeys m = sorted_list_of_set m"

definition intersectHostSets :: "string set \<Rightarrow> string set \<Rightarrow> string set" where
  "intersectHostSets dst src = {h \<in> dst. h \<in> src}"

record accumulator =
  acc_contributors :: "ContributorAccess list"
  acc_allBypass :: bool
  acc_hasRestrictedUser :: bool
  acc_allowedHosts :: "string set"
  acc_initialHostsLen :: nat

definition newAccumulator :: accumulator where
  "newAccumulator = \<lparr>acc_contributors = [], acc_allBypass = True, acc_hasRestrictedUser = False,
     acc_allowedHosts = {}, acc_initialHostsLen = 0\<rparr>"

text \<open>The maps by user; a missing user reads as the zero value: no bypass and no hosts.\<close>

definition bypassByUser :: "UserHostAccess list \<Rightarrow> id \<Rightarrow> bool" where
  "bypassByUser hostAccess u =
    (case foldl (\<lambda>m ua. m(ua_UserID ua \<mapsto> ua_BypassAllowlist ua)) Map.empty hostAccess u of
       None \<Rightarrow> False | Some b \<Rightarrow> b)"

definition hostSetByUser :: "UserHostAccess list \<Rightarrow> id \<Rightarrow> string set" where
  "hostSetByUser hostAccess u =
    (case foldl (\<lambda>m ua. m(ua_UserID ua \<mapsto> set (ua_AllowedHosts ua))) Map.empty hostAccess u of
       None \<Rightarrow> {} | Some hs \<Rightarrow> hs)"

definition accumulate :: "UserHostAccess list \<Rightarrow> accumulator \<Rightarrow> IPEntry \<Rightarrow> accumulator" where
  "accumulate hostAccess acc e =
    (let bypass = bypassByUser hostAccess (ie_UserID e);
         userHosts = hostSetByUser hostAccess (ie_UserID e);
         acc1 = acc\<lparr>acc_contributors := acc_contributors acc @ [\<lparr>ca_DeviceID = ie_DeviceID e,
                  ca_AddressID = ie_AddressID e, ca_UserID = ie_UserID e, ca_UserBypass = bypass,
                  ca_UserAllowedHosts = sortedKeys userHosts\<rparr>],
                    acc_allBypass := acc_allBypass acc \<and> bypass\<rparr>
     in if bypass then acc1
        else if \<not> acc_hasRestrictedUser acc1 then
          acc1\<lparr>acc_allowedHosts := userHosts, acc_initialHostsLen := card userHosts, acc_hasRestrictedUser := True\<rparr>
        else acc1\<lparr>acc_allowedHosts := intersectHostSets (acc_allowedHosts acc1) userHosts\<rparr>)"

definition ipSetStep :: "UserHostAccess list \<Rightarrow> (addr \<times> accumulator) list \<Rightarrow> IPEntry \<Rightarrow> (addr \<times> accumulator) list" where
  "ipSetStep hostAccess byIP e =
    (case ParseAddr (ie_IP e) of None \<Rightarrow> byIP
     | Some a \<Rightarrow>
        let addr = Unmap a;
            acc = (case map_of byIP addr of None \<Rightarrow> newAccumulator | Some acc \<Rightarrow> acc)
        in AList.update addr (accumulate hostAccess acc e) byIP)"

definition finishEntry :: "accumulator \<Rightarrow> ipSetEntry" where
  "finishEntry acc = \<lparr>is_Contributors = acc_contributors acc, is_BypassAllowlist = acc_allBypass acc,
     is_AllowedHosts = acc_allowedHosts acc,
     is_IntersectionApplied = (acc_hasRestrictedUser acc \<and> card (acc_allowedHosts acc) < acc_initialHostsLen acc)\<rparr>"

definition buildIPSet :: "IPEntry list \<Rightarrow> UserHostAccess list \<Rightarrow> (addr \<times> ipSetEntry) list" where
  "buildIPSet ipEntries hostAccess =
    map (\<lambda>(ip, acc). (ip, finishEntry acc)) (foldl (ipSetStep hostAccess) [] ipEntries)"

section \<open>Building the network policy cache\<close>

definition byMostSpecificFirst :: "networkPolicyCacheEntry \<Rightarrow> networkPolicyCacheEntry \<Rightarrow> int" where
  "byMostSpecificFirst a b = pfx_bits (nc_Prefix b) - pfx_bits (nc_Prefix a)"

definition cachePrefix :: "prefix \<Rightarrow> prefix" where
  "cachePrefix p = (let p' = (if Is4In6 (pfx_ip p) then PrefixFrom (Unmap (pfx_ip p)) (pfx_bits p - 96) else p)
     in Masked p')"

definition toCacheEntry :: "CacheEntry \<Rightarrow> networkPolicyCacheEntry option" where
  "toCacheEntry e = (case ParsePrefix (ce_CIDR e) of None \<Rightarrow> None
   | Some p \<Rightarrow> Some \<lparr>nc_PolicyID = ce_PolicyID e, nc_PolicyName = ce_PolicyName e, nc_Prefix = cachePrefix p,
       nc_BypassHostCheck = ce_BypassHostCheck e, nc_AllowedHosts = set (ce_AllowedHostFQDNs e)\<rparr>)"

definition buildNetworkPolicyCache :: "CacheEntry list \<Rightarrow> networkPolicyCacheEntry list" where
  "buildNetworkPolicyCache entries =
    sort_key (\<lambda>e. - pfx_bits (nc_Prefix e)) (List.map_filter toCacheEntry entries)"

section \<open>The service and its refresh\<close>

record policyService =
  ps_apiSecretHash :: string
  ps_trustedProxy :: addr
  ps_ipSet :: "(addr \<times> ipSetEntry) list"
  ps_networkPolicies :: "networkPolicyCacheEntry list"
  ps_lastRefreshedAt :: time
  ps_lastRefreshDurationMs :: int
  ps_refreshSignal :: bool

text \<open>The answers of the three providers at one refresh; \<open>None\<close> stands for a provider that is not
  configured.\<close>

record providers =
  pr_ipEntries :: "(err, IPEntry list) result"
  pr_hostAccess :: "(err, UserHostAccess list) result option"
  pr_networkPolicies :: "(err, CacheEntry list) result option"

definition refreshCache :: "time \<Rightarrow> time \<Rightarrow> providers \<Rightarrow> policyService \<Rightarrow> err option \<times> policyService" where
  "refreshCache start now pr svc =
    (case pr_ipEntries pr of Inl e \<Rightarrow> (Some e, svc)
     | Inr ipEntries \<Rightarrow>
      (case pr_hostAccess pr of Some (Inl e) \<Rightarrow> (Some e, svc)
       | ha \<Rightarrow>
        (let hostAccess = (case ha of Some (Inr xs) \<Rightarrow> xs | _ \<Rightarrow> []);
             newIPSet = buildIPSet ipEntries hostAccess
         in case pr_networkPolicies pr of Some (Inl e) \<Rightarrow> (Some e, svc)
          | np \<Rightarrow>
            (let entries = (case np of Some (Inr xs) \<Rightarrow> xs | _ \<Rightarrow> []);
                 newNetworkPolicies = buildNetworkPolicyCache entries
             in (None, svc\<lparr>ps_ipSet := newIPSet, ps_networkPolicies := newNetworkPolicies,
                   ps_lastRefreshedAt := now, ps_lastRefreshDurationMs := (now - start) div 1000000\<rparr>)))))"

section \<open>The address set against its reference\<close>

definition canonIP :: "string \<Rightarrow> addr option" where
  "canonIP s = map_option Unmap (ParseAddr s)"

definition entriesAt :: "IPEntry list \<Rightarrow> addr \<Rightarrow> IPEntry list" where
  "entriesAt es ip = filter (\<lambda>e. canonIP (ie_IP e) = Some ip) es"

lemma ipSetStep_eq:
  "map_of (ipSetStep ha byIP e) = (case canonIP (ie_IP e) of None \<Rightarrow> map_of byIP
     | Some ip \<Rightarrow> (map_of byIP)(ip \<mapsto> accumulate ha (case map_of byIP ip of None \<Rightarrow> newAccumulator | Some acc \<Rightarrow> acc) e))"
  by (auto simp: ipSetStep_def canonIP_def Let_def split: option.splits)

lemma ipSet_accumulators:
  "map_of (foldl (ipSetStep ha) byIP es) ip =
    (if entriesAt es ip = [] then map_of byIP ip
     else Some (foldl (accumulate ha) (case map_of byIP ip of None \<Rightarrow> newAccumulator | Some acc \<Rightarrow> acc) (entriesAt es ip)))"
  by (induction es arbitrary: byIP) (auto simp: entriesAt_def ipSetStep_eq split: option.splits)

lemma map_of_map_finish: "map_of (map (\<lambda>(k, v). (k, f v)) xs) k = map_option f (map_of xs k)"
  by (induction xs) auto

lemma buildIPSet_lookup:
  "map_of (buildIPSet es ha) ip = (if entriesAt es ip = [] then None
     else Some (finishEntry (foldl (accumulate ha) newAccumulator (entriesAt es ip))))"
  by (simp add: buildIPSet_def map_of_map_finish ipSet_accumulators)

text \<open>What the entries of one address amount to.\<close>

definition restricted :: "UserHostAccess list \<Rightarrow> IPEntry list \<Rightarrow> IPEntry list" where
  "restricted ha es = filter (\<lambda>e. \<not> bypassByUser ha (ie_UserID e)) es"

definition contributorOf :: "UserHostAccess list \<Rightarrow> IPEntry \<Rightarrow> ContributorAccess" where
  "contributorOf ha e = \<lparr>ca_DeviceID = ie_DeviceID e, ca_AddressID = ie_AddressID e, ca_UserID = ie_UserID e,
     ca_UserBypass = bypassByUser ha (ie_UserID e), ca_UserAllowedHosts = sortedKeys (hostSetByUser ha (ie_UserID e))\<rparr>"

definition restrictedHosts :: "UserHostAccess list \<Rightarrow> IPEntry list \<Rightarrow> string set list" where
  "restrictedHosts ha es = map (\<lambda>e. hostSetByUser ha (ie_UserID e)) (restricted ha es)"

lemma restrictedHosts_simps [simp]:
  "restrictedHosts ha [] = []"
  "restrictedHosts ha (e # es) = (if bypassByUser ha (ie_UserID e) then restrictedHosts ha es
     else hostSetByUser ha (ie_UserID e) # restrictedHosts ha es)"
  by (simp_all add: restrictedHosts_def restricted_def)

lemma accumulate_simps [simp]:
  "acc_contributors (accumulate ha acc e) = acc_contributors acc @ [contributorOf ha e]"
  "acc_allBypass (accumulate ha acc e) = (acc_allBypass acc \<and> bypassByUser ha (ie_UserID e))"
  "acc_hasRestrictedUser (accumulate ha acc e) = (acc_hasRestrictedUser acc \<or> \<not> bypassByUser ha (ie_UserID e))"
  "acc_allowedHosts (accumulate ha acc e) = (if bypassByUser ha (ie_UserID e) then acc_allowedHosts acc
     else if acc_hasRestrictedUser acc then acc_allowedHosts acc \<inter> hostSetByUser ha (ie_UserID e)
     else hostSetByUser ha (ie_UserID e))"
  "acc_initialHostsLen (accumulate ha acc e) = (if bypassByUser ha (ie_UserID e) \<or> acc_hasRestrictedUser acc
     then acc_initialHostsLen acc else card (hostSetByUser ha (ie_UserID e)))"
  by (auto simp: accumulate_def Let_def contributorOf_def intersectHostSets_def)

lemma foldl_contributors:
  "acc_contributors (foldl (accumulate ha) acc es) = acc_contributors acc @ map (contributorOf ha) es"
  by (induction es arbitrary: acc) simp_all

lemma foldl_allBypass:
  "acc_allBypass (foldl (accumulate ha) acc es) = (acc_allBypass acc \<and> (\<forall>e \<in> set es. bypassByUser ha (ie_UserID e)))"
  by (induction es arbitrary: acc) auto

lemma foldl_hasRestricted:
  "acc_hasRestrictedUser (foldl (accumulate ha) acc es) = (acc_hasRestrictedUser acc \<or> restrictedHosts ha es \<noteq> [])"
  by (induction es arbitrary: acc) auto

lemma foldl_allowedHosts:
  "acc_allowedHosts (foldl (accumulate ha) acc es) =
    (if acc_hasRestrictedUser acc then acc_allowedHosts acc \<inter> \<Inter> (set (restrictedHosts ha es))
     else if restrictedHosts ha es = [] then acc_allowedHosts acc else \<Inter> (set (restrictedHosts ha es)))"
  by (induction es arbitrary: acc) (auto simp: inf_assoc)

lemma foldl_initialHostsLen:
  "acc_initialHostsLen (foldl (accumulate ha) acc es) =
    (if acc_hasRestrictedUser acc \<or> restrictedHosts ha es = [] then acc_initialHostsLen acc
     else card (hd (restrictedHosts ha es)))"
  by (induction es arbitrary: acc) auto

lemmas foldl_accumulate = foldl_contributors foldl_allBypass foldl_hasRestricted foldl_allowedHosts foldl_initialHostsLen

text \<open>The reference of an entry: all contributors in order, bypass if every owner bypasses, and the
  intersection of the host sets of the owners that do not.\<close>

definition specEntry :: "UserHostAccess list \<Rightarrow> IPEntry list \<Rightarrow> ipSetEntry" where
  "specEntry ha es = \<lparr>is_Contributors = map (contributorOf ha) es,
     is_BypassAllowlist = (\<forall>e \<in> set es. bypassByUser ha (ie_UserID e)),
     is_AllowedHosts = (if restrictedHosts ha es = [] then {} else \<Inter> (set (restrictedHosts ha es))),
     is_IntersectionApplied = (restrictedHosts ha es \<noteq> [] \<and>
       card (\<Inter> (set (restrictedHosts ha es))) < card (hd (restrictedHosts ha es)))\<rparr>"

lemma buildIPSet_spec:
  "map_of (buildIPSet es ha) ip = (if entriesAt es ip = [] then None else Some (specEntry ha (entriesAt es ip)))"
  by (simp add: buildIPSet_lookup finishEntry_def foldl_accumulate newAccumulator_def specEntry_def)

text \<open>C3 (equivalence). The address set that \<open>buildIPSet\<close> computes in one pass over the rows is
  the reference one: an address is in it exactly if some row parses to it (after unmapping), its
  contributors are the owners of all those rows in order, it bypasses the host check only if every
  owner does, and its hosts are those that every owner without bypass may reach.\<close>

theorem buildIPSet_reference:
  "map_of (buildIPSet es ha) ip = (if entriesAt es ip = [] then None else Some (specEntry ha (entriesAt es ip)))"
  by (rule buildIPSet_spec)

lemma entriesAt_mset: "mset es = mset es' \<Longrightarrow> set (entriesAt es ip) = set (entriesAt es' ip)"
  by (auto simp: entriesAt_def dest: mset_eq_setD)

lemma restrictedHosts_set: "set (restrictedHosts ha es) = hostSetByUser ha ` ie_UserID ` {e \<in> set es. \<not> bypassByUser ha (ie_UserID e)}"
  by (auto simp: restrictedHosts_def restricted_def)

text \<open>The part of an entry on which access decisions are based.\<close>

definition accessPart :: "ipSetEntry \<Rightarrow> bool \<times> string set" where
  "accessPart e = (is_BypassAllowlist e, is_AllowedHosts e)"

lemma specEntry_access:
  assumes "set es = set es'"
  shows "accessPart (specEntry ha es) = accessPart (specEntry ha es')"
proof -
  have "set (restrictedHosts ha es) = set (restrictedHosts ha es')" by (simp add: restrictedHosts_set assms)
  then show ?thesis using assms by (auto simp: accessPart_def specEntry_def set_empty[symmetric] simp del: set_empty)
qed

text \<open>The order in which the database returns the rows does not matter for access:
  any two orders of the same rows give the same addresses, the same bypass flags and the same
  allowed hosts.\<close>

lemma buildIPSet_order:
  assumes "mset es = mset es'"
  shows "map_option accessPart (map_of (buildIPSet es ha) ip) = map_option accessPart (map_of (buildIPSet es' ha) ip)"
proof -
  have eq: "set (entriesAt es ip) = set (entriesAt es' ip)" using assms by (rule entriesAt_mset)
  then have "entriesAt es ip = [] \<longleftrightarrow> entriesAt es' ip = []" by (metis set_empty)
  then show ?thesis using specEntry_access[OF eq] by (simp add: buildIPSet_spec)
qed

definition sharedRows :: "IPEntry list" where
  "sharedRows = [\<lparr>ie_IP = ''10.0.0.9'', ie_DeviceID = 1, ie_AddressID = 11, ie_UserID = 1\<rparr>,
     \<lparr>ie_IP = ''::ffff:10.0.0.9'', ie_DeviceID = 2, ie_AddressID = 12, ie_UserID = 2\<rparr>]"

definition sharedAccess :: "UserHostAccess list" where
  "sharedAccess = [\<lparr>ua_UserID = 1, ua_BypassAllowlist = False, ua_AllowedHosts = [''a.io'']\<rparr>,
     \<lparr>ua_UserID = 2, ua_BypassAllowlist = False, ua_AllowedHosts = [''a.io'', ''b.io'']\<rparr>]"

lemma buildIPSet_order_witness:
  "mset sharedRows = mset (rev sharedRows) \<and>
   map_option accessPart (map_of (buildIPSet sharedRows sharedAccess) (V4 0x0A000009)) =
   map_option accessPart (map_of (buildIPSet (rev sharedRows) sharedAccess) (V4 0x0A000009)) \<and>
   map_option accessPart (map_of (buildIPSet sharedRows sharedAccess) (V4 0x0A000009)) = Some (False, {''a.io''})"
proof (intro conjI)
  show "mset sharedRows = mset (rev sharedRows)" by simp
  show "map_option accessPart (map_of (buildIPSet sharedRows sharedAccess) (V4 0x0A000009)) =
    map_option accessPart (map_of (buildIPSet (rev sharedRows) sharedAccess) (V4 0x0A000009))"
    by (rule buildIPSet_order) simp
  show "map_option accessPart (map_of (buildIPSet sharedRows sharedAccess) (V4 0x0A000009)) = Some (False, {''a.io''})"
    by code_simp
qed

text \<open>The flag \<open>IntersectionApplied\<close> depends on the order of the rows: the field's
  comment says that it is set when the intersection trimmed at least one contributor's hosts, but
  only the first restricted contributor is looked at. Here the second contributor loses \<open>b.io\<close> in
  both orders, and the flag is set in one of them only.\<close>

lemma intersection_flag_order:
  "map_option is_IntersectionApplied (map_of (buildIPSet sharedRows sharedAccess) (V4 0x0A000009)) = Some False \<and>
   map_option is_IntersectionApplied (map_of (buildIPSet (rev sharedRows) sharedAccess) (V4 0x0A000009)) = Some True"
  by code_simp

section \<open>Most specific match\<close>

text \<open>Every prefix of the cache is masked, or invalid and then contains nothing.\<close>

definition cacheOK :: "prefix \<Rightarrow> bool" where
  "cacheOK p \<longleftrightarrow> p = PrefixZero \<or> prefixOK p \<and> Masked p = p"

lemma PrefixZero_Contains [simp]: "\<not> Contains PrefixZero a"
  by (simp add: Contains_def PrefixZero_def PrefixIsValid_def)

lemma Masked_cacheOK: "Zone (pfx_ip p) = [] \<Longrightarrow> cacheOK (Masked p)"
  using Masked_Masked[of p] Masked_prefixOK[of p]
  by (cases "prefixOK p") (auto simp: cacheOK_def Masked_def prefixOK_def IsValid_def)

lemma cachePrefix_ok: "ParsePrefix s = Some p \<Longrightarrow> cacheOK (cachePrefix p)"
  using ParsePrefix_ok[of s p] by (auto simp: cachePrefix_def Let_def PrefixFrom_def prefixOK_def intro!: Masked_cacheOK)

lemma cacheOK_unique:
  assumes "cacheOK p" "cacheOK q" "Contains p a" "Contains q a" "pfx_bits p = pfx_bits q"
  shows "p = q"
  using assms Masked_unique[of p q a] by (auto simp: cacheOK_def)

lemma set_buildNetworkPolicyCache: "set (buildNetworkPolicyCache es) = set (List.map_filter toCacheEntry es)"
  by (simp add: buildNetworkPolicyCache_def)

lemma buildNetworkPolicyCache_ok: "np \<in> set (buildNetworkPolicyCache es) \<Longrightarrow> cacheOK (nc_Prefix np)"
  by (induction es) (auto simp: set_buildNetworkPolicyCache List.map_filter_simps toCacheEntry_def dest!: cachePrefix_ok split: option.splits if_splits)

lemma sorted_bySpecific:
  "sorted_wrt (\<lambda>a b. byMostSpecificFirst a b \<le> 0) nps \<longleftrightarrow> sorted (map (\<lambda>e. - pfx_bits (nc_Prefix e)) nps)"
  by (simp add: byMostSpecificFirst_def sorted_map)

lemma buildNetworkPolicyCache_sorted:
  "sorted_wrt (\<lambda>a b. byMostSpecificFirst a b \<le> 0) (buildNetworkPolicyCache es)"
  by (simp add: sorted_bySpecific buildNetworkPolicyCache_def)

lemma inj_prefix_eq:
  "distinct (map nc_Prefix xs) \<Longrightarrow> x \<in> set xs \<Longrightarrow> y \<in> set xs \<Longrightarrow> nc_Prefix x = nc_Prefix y \<Longrightarrow> x = y"
  by (metis distinct_map inj_onD)

text \<open>Longest prefix match does not depend on how the sort breaks ties: for
  policies with distinct ranges, any list of them that is sorted by \<open>byMostSpecificFirst\<close> has the
  same first range around an address, whichever sort produced it.\<close>

lemma network_match_sort_independent:
  assumes "mset nps = mset (List.map_filter toCacheEntry es)"
    and "sorted_wrt (\<lambda>a b. byMostSpecificFirst a b \<le> 0) nps"
    and "distinct (map nc_Prefix nps)"
  shows "List.find (\<lambda>np. Contains (nc_Prefix np) ip) nps =
    List.find (\<lambda>np. Contains (nc_Prefix np) ip) (buildNetworkPolicyCache es)"
proof (rule find_sorted_perm[where f = "\<lambda>e. - pfx_bits (nc_Prefix e)"])
  show sets: "set nps = set (buildNetworkPolicyCache es)"
    using mset_eq_setD[OF assms(1)] by (simp add: set_buildNetworkPolicyCache)
  show "x = y" if "x \<in> set nps" "y \<in> set nps" "Contains (nc_Prefix x) ip" "Contains (nc_Prefix y) ip"
    "- pfx_bits (nc_Prefix x) = - pfx_bits (nc_Prefix y)" for x y
    using that sets assms(3) cacheOK_unique[of "nc_Prefix x" "nc_Prefix y" ip]
    by (auto intro!: inj_prefix_eq[OF assms(3)] buildNetworkPolicyCache_ok)
qed (use assms(2) buildNetworkPolicyCache_sorted in \<open>simp_all only: sorted_bySpecific\<close>)

definition sampleEntries :: "CacheEntry list" where
  "sampleEntries = [\<lparr>ce_PolicyID = 1, ce_PolicyName = ''wide'', ce_CIDR = ''10.0.0.0/8'', ce_BypassHostCheck = True, ce_AllowedHostFQDNs = []\<rparr>,
    \<lparr>ce_PolicyID = 2, ce_PolicyName = ''mapped'', ce_CIDR = ''::ffff:10.1.2.3/120'', ce_BypassHostCheck = False, ce_AllowedHostFQDNs = [''a.io'']\<rparr>,
    \<lparr>ce_PolicyID = 3, ce_PolicyName = ''other'', ce_CIDR = ''10.1.3.0/24'', ce_BypassHostCheck = False, ce_AllowedHostFQDNs = [''b.io'']\<rparr>]"

definition resorted :: "networkPolicyCacheEntry list" where
  "resorted = (case buildNetworkPolicyCache sampleEntries of [a, b, c] \<Rightarrow> [b, a, c] | xs \<Rightarrow> xs)"

lemma network_match_sort_independent_witness:
  "resorted \<noteq> buildNetworkPolicyCache sampleEntries \<and>
   List.find (\<lambda>np. Contains (nc_Prefix np) (V4 0x0A010205)) resorted =
   List.find (\<lambda>np. Contains (nc_Prefix np) (V4 0x0A010205)) (buildNetworkPolicyCache sampleEntries) \<and>
   map_option nc_PolicyID (List.find (\<lambda>np. Contains (nc_Prefix np) (V4 0x0A010205)) resorted) = Some 2"
proof (intro conjI)
  show "resorted \<noteq> buildNetworkPolicyCache sampleEntries" by code_simp
  show "List.find (\<lambda>np. Contains (nc_Prefix np) (V4 0x0A010205)) resorted =
    List.find (\<lambda>np. Contains (nc_Prefix np) (V4 0x0A010205)) (buildNetworkPolicyCache sampleEntries)"
    by (rule network_match_sort_independent) code_simp+
  show "map_option nc_PolicyID (List.find (\<lambda>np. Contains (nc_Prefix np) (V4 0x0A010205)) resorted) = Some 2" by code_simp
qed

lemma find_network_longest:
  assumes "List.find (\<lambda>np. Contains (nc_Prefix np) ip) (buildNetworkPolicyCache es) = Some np"
    "np' \<in> set (buildNetworkPolicyCache es)" "Contains (nc_Prefix np') ip"
  shows "pfx_bits (nc_Prefix np') \<le> pfx_bits (nc_Prefix np)"
  using find_sorted_least[OF _ assms] buildNetworkPolicyCache_sorted[of es] by (fastforce simp: sorted_bySpecific)

section \<open>Refreshing\<close>

lemma refreshCache_err: "refreshCache start now pr svc = (Some e, svc') \<Longrightarrow> svc' = svc"
  by (auto simp: refreshCache_def Let_def split: sum.splits option.splits)

definition answer :: "(err, 'a list) result option \<Rightarrow> 'a list" where
  "answer r = (case r of Some (Inr xs) \<Rightarrow> xs | _ \<Rightarrow> [])"

lemma refreshCache_ok:
  "refreshCache start now pr svc = (None, svc') \<Longrightarrow>
   \<exists>ips. pr_ipEntries pr = Inr ips \<and> ps_ipSet svc' = buildIPSet ips (answer (pr_hostAccess pr)) \<and>
     ps_networkPolicies svc' = buildNetworkPolicyCache (answer (pr_networkPolicies pr)) \<and>
     ps_trustedProxy svc' = ps_trustedProxy svc \<and> ps_apiSecretHash svc' = ps_apiSecretHash svc"
  by (auto simp: refreshCache_def answer_def Let_def split: sum.splits option.splits)

end
