(* ===== verification/Policy_Access.thy ===== *)
theory Policy_Access
  imports Policy_Cache
begin

text \<open>
  The decisions of the policy engine (\<open>src/internal/policy/\<close> \<open>access.go\<close>, \<open>request.go\<close>,
  \<open>observer.go\<close>, \<open>decision.go\<close>, \<open>service.go\<close>, \<open>handler.go\<close>, \<open>audit.go\<close>) and the part of the HTTP
  server that says which client a request comes from (\<open>src/internal/httpserver/middleware.go\<close>,
  \<open>server.go\<close>, \<open>src/internal/config/config.go\<close>).

  \<open>sha256\<close> and the geo database are arguments. A header set is the association list of the canonical
  header names, as \<open>net/http\<close> builds it. A decision has an observable effect beyond its answer: the
  event for the observers, which is part of the result.
\<close>

section \<open>Decisions\<close>

datatype DenyReason = DenyReasonNoDeviceMatch | DenyReasonIPNotRegistered | DenyReasonInvalidToken
  | DenyReasonHostNotAllowed

text \<open>\<open>MatchSourceUnset\<close> is the empty string of an unset \<open>MatchSource\<close>.\<close>

datatype MatchSource = MatchSourceUnset | MatchSourceDevice | MatchSourceNetworkPolicy

datatype policy_err = ErrSecretNotConfigured | ErrInvalidBearerToken | ErrIPNotEnabled | ErrHostNotAllowed

record IPContributor =
  ic_DeviceID :: id
  ic_AddressID :: id
  ic_UserID :: id

record DecisionResult =
  dr_Allowed :: bool
  dr_DenyReason :: "DenyReason option"
  dr_Contributors :: "IPContributor list"
  dr_MatchSource :: MatchSource
  dr_NetworkPolicyID :: "id option"
  dr_NetworkPolicyName :: "string option"

definition denyResult :: "DenyReason \<Rightarrow> DecisionResult" where
  "denyResult r = \<lparr>dr_Allowed = False, dr_DenyReason = Some r, dr_Contributors = [],
     dr_MatchSource = MatchSourceUnset, dr_NetworkPolicyID = None, dr_NetworkPolicyName = None\<rparr>"

definition toIPContributors :: "ContributorAccess list \<Rightarrow> IPContributor list" where
  "toIPContributors cs =
    map (\<lambda>c. \<lparr>ic_DeviceID = ca_DeviceID c, ic_AddressID = ca_AddressID c, ic_UserID = ca_UserID c\<rparr>) cs"

definition isTrustedProxy :: "policyService \<Rightarrow> addr \<Rightarrow> bool" where
  "isTrustedProxy svc ip \<longleftrightarrow> IsValid (ps_trustedProxy svc) \<and> Compare (ps_trustedProxy svc) ip = 0"

definition lookupIP :: "policyService \<Rightarrow> addr \<Rightarrow> ipSetEntry option" where
  "lookupIP svc ip = (if isTrustedProxy svc ip then None else map_of (ps_ipSet svc) ip)"

definition networkDecision :: "networkPolicyCacheEntry \<Rightarrow> string \<Rightarrow> DecisionResult" where
  "networkDecision np h =
    (if nc_BypassHostCheck np \<or> h \<in> nc_AllowedHosts np
     then \<lparr>dr_Allowed = True, dr_DenyReason = None, dr_Contributors = [], dr_MatchSource = MatchSourceNetworkPolicy,
            dr_NetworkPolicyID = Some (nc_PolicyID np), dr_NetworkPolicyName = Some (nc_PolicyName np)\<rparr>
     else denyResult DenyReasonHostNotAllowed)"

fun scanPolicies :: "addr \<Rightarrow> string \<Rightarrow> networkPolicyCacheEntry list \<Rightarrow> DecisionResult" where
  "scanPolicies ip h [] = denyResult DenyReasonIPNotRegistered"
| "scanPolicies ip h (np # policies) =
    (if Contains (nc_Prefix np) ip then networkDecision np h else scanPolicies ip h policies)"

definition Decide :: "policyService \<Rightarrow> addr \<Rightarrow> string \<Rightarrow> DecisionResult" where
  "Decide svc ip0 host =
    (if \<not> IsValid ip0 then denyResult DenyReasonIPNotRegistered
     else let ip = Unmap ip0 in
       case lookupIP svc ip of
         Some entry \<Rightarrow>
           (let contributors = toIPContributors (is_Contributors entry);
                allowed = \<lparr>dr_Allowed = True, dr_DenyReason = None, dr_Contributors = contributors,
                  dr_MatchSource = MatchSourceDevice, dr_NetworkPolicyID = None, dr_NetworkPolicyName = None\<rparr>
            in if is_BypassAllowlist entry then allowed
               else if NormaliseHost host \<notin> is_AllowedHosts entry
               then (denyResult DenyReasonHostNotAllowed)\<lparr>dr_Contributors := contributors, dr_MatchSource := MatchSourceDevice\<rparr>
               else allowed)
       | None \<Rightarrow>
           if isTrustedProxy svc ip then denyResult DenyReasonIPNotRegistered
           else scanPolicies ip (NormaliseHost host) (ps_networkPolicies svc))"

section \<open>Requests and events\<close>

type_synonym header = "(string \<times> string list) list"

definition headerValues :: "header \<Rightarrow> string \<Rightarrow> string list" where
  "headerValues h key = (case map_of h key of None \<Rightarrow> [] | Some vals \<Rightarrow> vals)"

definition headerGet :: "header \<Rightarrow> string \<Rightarrow> string" where
  "headerGet h key = (case headerValues h key of [] \<Rightarrow> [] | v # _ \<Rightarrow> v)"

definition nilIfEmpty :: "string \<Rightarrow> string option" where
  "nilIfEmpty s = (if s = [] then None else Some s)"

record VerifyRequest =
  vr_Token :: string
  vr_ClientIP :: addr
  vr_TargetHost :: "string option"
  vr_TargetURI :: "string option"
  vr_HTTPMethod :: "string option"
  vr_XFFChain :: "string option"
  vr_rawHeader :: header

definition NewVerifyRequest :: "string \<Rightarrow> addr \<Rightarrow> header \<Rightarrow> VerifyRequest" where
  "NewVerifyRequest token clientIP h = \<lparr>vr_Token = token, vr_ClientIP = clientIP,
     vr_TargetHost = nilIfEmpty (headerGet h ''X-Forwarded-Host''),
     vr_TargetURI = nilIfEmpty (headerGet h ''X-Forwarded-Uri''),
     vr_HTTPMethod = nilIfEmpty (headerGet h ''X-Forwarded-Method''),
     vr_XFFChain = nilIfEmpty (headerGet h ''X-Forwarded-For''), vr_rawHeader = h\<rparr>"

definition sensitiveHeaders :: "string \<Rightarrow> bool" where
  "sensitiveHeaders k \<longleftrightarrow> k \<in> {''authorization'', ''cookie'', ''proxy-authorization''}"

definition forwardingHeaderKeys :: "string list" where
  "forwardingHeaderKeys = [''X-Forwarded-Host'', ''X-Forwarded-Uri'', ''X-Forwarded-Method'',
     ''X-Forwarded-Proto'', ''X-Forwarded-For'', ''X-Real-Ip'', ''User-Agent'']"

definition fullEnrichmentHeaders :: "header \<Rightarrow> header" where
  "fullEnrichmentHeaders h = filter (\<lambda>(key, vals). \<not> sensitiveHeaders (ToLower key)) h"

definition minimalEnrichmentHeaders :: "header \<Rightarrow> header" where
  "minimalEnrichmentHeaders h =
    map (\<lambda>key. (key, headerValues h key)) (filter (\<lambda>key. headerValues h key \<noteq> []) forwardingHeaderKeys)"

record GeoResult =
  geo_CountryCode :: string
  geo_CountryName :: string
  geo_ContinentCode :: string
  geo_ASN :: nat
  geo_ASNOrg :: string

definition emptyGeo :: GeoResult where
  "emptyGeo = \<lparr>geo_CountryCode = [], geo_CountryName = [], geo_ContinentCode = [], geo_ASN = 0, geo_ASNOrg = []\<rparr>"

record DecisionEvent =
  de_ClientIP :: string
  de_Outcome :: bool
  de_DenyReason :: "DenyReason option"
  de_IPContributors :: "IPContributor list"
  de_MatchSource :: MatchSource
  de_NetworkPolicyID :: "id option"
  de_NetworkPolicyName :: "string option"
  de_CreatedAt :: time
  de_DurationUs :: int
  de_TargetHost :: "string option"
  de_TargetURI :: "string option"
  de_HTTPMethod :: "string option"
  de_XFFChain :: "string option"
  de_Headers :: header
  de_GeoIP :: GeoResult

definition NewDecisionEvent ::
  "bool \<Rightarrow> DenyReason option \<Rightarrow> DecisionResult option \<Rightarrow> VerifyRequest \<Rightarrow> GeoResult \<Rightarrow> time \<Rightarrow> int \<Rightarrow> DecisionEvent" where
  "NewDecisionEvent outcome denyReason res req geo now durationUs =
    (let headers = (if outcome then fullEnrichmentHeaders (vr_rawHeader req) else minimalEnrichmentHeaders (vr_rawHeader req));
         e = \<lparr>de_ClientIP = AddrString (vr_ClientIP req), de_Outcome = outcome, de_DenyReason = denyReason,
           de_IPContributors = [], de_MatchSource = MatchSourceUnset, de_NetworkPolicyID = None,
           de_NetworkPolicyName = None, de_CreatedAt = now, de_DurationUs = durationUs,
           de_TargetHost = vr_TargetHost req, de_TargetURI = vr_TargetURI req, de_HTTPMethod = vr_HTTPMethod req,
           de_XFFChain = vr_XFFChain req, de_Headers = headers, de_GeoIP = geo\<rparr>
     in case res of None \<Rightarrow> e
        | Some r \<Rightarrow> e\<lparr>de_IPContributors := dr_Contributors r, de_MatchSource := dr_MatchSource r,
             de_NetworkPolicyID := dr_NetworkPolicyID r, de_NetworkPolicyName := dr_NetworkPolicyName r\<rparr>)"

text \<open>\<open>VerifyAccess\<close> notifies the observers exactly once on every path; the event is the second
  component.\<close>

definition VerifyAccess ::
  "(string \<Rightarrow> string) \<Rightarrow> (string \<Rightarrow> GeoResult) option \<Rightarrow> time \<Rightarrow> int \<Rightarrow> policyService \<Rightarrow> VerifyRequest
   \<Rightarrow> policy_err option \<times> DecisionEvent" where
  "VerifyAccess sha256 geoResolver now dur svc req =
    (if sha256 (vr_Token req) \<noteq> ps_apiSecretHash svc
     then (Some ErrInvalidBearerToken, NewDecisionEvent False (Some DenyReasonInvalidToken) None req emptyGeo now dur)
     else
       let geo = (case geoResolver of None \<Rightarrow> emptyGeo | Some g \<Rightarrow> g (AddrString (vr_ClientIP req)));
           host = (case vr_TargetHost req of None \<Rightarrow> [] | Some h \<Rightarrow> h);
           res = Decide svc (vr_ClientIP req) host
       in if \<not> dr_Allowed res
          then if dr_DenyReason res = Some DenyReasonIPNotRegistered
               then (Some ErrIPNotEnabled, NewDecisionEvent False (dr_DenyReason res) None req geo now dur)
               else (Some ErrHostNotAllowed, NewDecisionEvent False (dr_DenyReason res) (Some res) req geo now dur)
          else (None, NewDecisionEvent True None (Some res) req geo now dur))"

section \<open>Construction\<close>

definition NewService :: "(string \<Rightarrow> string) \<Rightarrow> string \<Rightarrow> addr \<Rightarrow> (policy_err, policyService) result" where
  "NewService sha256 secret trustedProxy =
    (if TrimSpace secret = [] then Inl ErrSecretNotConfigured
     else Inr \<lparr>ps_apiSecretHash = sha256 secret, ps_trustedProxy = trustedProxy, ps_ipSet = [],
       ps_networkPolicies = [], ps_lastRefreshedAt = 0, ps_lastRefreshDurationMs = 0, ps_refreshSignal = False\<rparr>)"

section \<open>Handlers\<close>

definition CutPrefix :: "string \<Rightarrow> string \<Rightarrow> string option" where
  "CutPrefix s pre = (if take (length pre) s = pre then Some (drop (length pre) s) else None)"

text \<open>A request: the peer, the headers, and the client IP that the middleware has put into the
  context.\<close>

record httpRequest =
  rq_RemoteAddr :: string
  rq_Header :: header
  rq_clientIP :: "string option"

definition ClientIPFromContext :: "httpRequest \<Rightarrow> string option" where
  "ClientIPFromContext r = (case rq_clientIP r of None \<Rightarrow> None | Some ip \<Rightarrow> if ip = [] then None else Some ip)"

definition HandleForwardAuthIP ::
  "(string \<Rightarrow> string) \<Rightarrow> (string \<Rightarrow> GeoResult) option \<Rightarrow> time \<Rightarrow> int \<Rightarrow> policyService \<Rightarrow> httpRequest
   \<Rightarrow> nat \<times> DecisionEvent list" where
  "HandleForwardAuthIP sha256 geo now dur svc r =
    (if headerGet (rq_Header r) ''Early-Data'' = ''1'' then (425, [])
     else case CutPrefix (headerGet (rq_Header r) ''Authorization'') ''Bearer '' of
       None \<Rightarrow> (403, [])
     | Some token \<Rightarrow>
        if token = [] then (403, [])
        else case ClientIPFromContext r of None \<Rightarrow> (403, [])
        | Some clientIP \<Rightarrow>
          (case ParseAddr clientIP of None \<Rightarrow> (403, [])
           | Some addr \<Rightarrow>
             (case VerifyAccess sha256 geo now dur svc (NewVerifyRequest token (Unmap addr) (rq_Header r)) of
                (Some _, ev) \<Rightarrow> (403, [ev]) | (None, ev) \<Rightarrow> (200, [ev]))))"

record PolicySimulateResult =
  sim_Ip :: string
  sim_Host :: string
  sim_Allowed :: bool
  sim_DenyReason :: "DenyReason option"
  sim_MatchSource :: "MatchSource option"
  sim_NetworkPolicyId :: "id option"
  sim_NetworkPolicyName :: "string option"

definition SimulatePolicyAccess :: "policyService \<Rightarrow> string \<Rightarrow> string \<Rightarrow> PolicySimulateResult" where
  "SimulatePolicyAccess svc ip host =
    (let addr = Unmap (case ParseAddr ip of None \<Rightarrow> AddrZero | Some a \<Rightarrow> a);
         res = Decide svc addr host
     in \<lparr>sim_Ip = (if IsValid addr then AddrString addr else ip), sim_Host = host, sim_Allowed = dr_Allowed res,
          sim_DenyReason = dr_DenyReason res,
          sim_MatchSource = (if dr_Allowed res then Some (dr_MatchSource res) else None),
          sim_NetworkPolicyId = dr_NetworkPolicyID res, sim_NetworkPolicyName = dr_NetworkPolicyName res\<rparr>)"

section \<open>Who the client is\<close>

definition extractIPFromRemoteAddr :: "httpRequest \<Rightarrow> string" where
  "extractIPFromRemoteAddr r = (case SplitHostPort (rq_RemoteAddr r) of None \<Rightarrow> rq_RemoteAddr r | Some (h, _) \<Rightarrow> h)"

definition setClientIPInContext :: "httpRequest \<Rightarrow> string \<Rightarrow> httpRequest" where
  "setClientIPInContext r ip =
    (let ip' = (case ParseAddr ip of None \<Rightarrow> ip | Some addr \<Rightarrow> AddrString (Unmap addr))
     in r\<lparr>rq_clientIP := Some ip'\<rparr>)"

definition ClientIPFromRequestMiddleware :: "httpRequest \<Rightarrow> httpRequest" where
  "ClientIPFromRequestMiddleware r = setClientIPInContext r (extractIPFromRemoteAddr r)"

definition ClientIPFromRealIPMiddleware :: "addr \<Rightarrow> httpRequest \<Rightarrow> httpRequest" where
  "ClientIPFromRealIPMiddleware trustedProxy r =
    (let clientIP = extractIPFromRemoteAddr r in
     case ParseAddr clientIP of None \<Rightarrow> setClientIPInContext r clientIP
     | Some peerAddr \<Rightarrow>
        let rawRealIP = TrimSpace (headerGet (rq_Header r) ''X-Real-Ip'') in
        if Compare trustedProxy peerAddr \<noteq> 0 then setClientIPInContext r (AddrString peerAddr)
        else if rawRealIP = [] then setClientIPInContext r (AddrString peerAddr)
        else case ParseAddr rawRealIP of None \<Rightarrow> setClientIPInContext r (AddrString peerAddr)
        | Some realAddr \<Rightarrow> setClientIPInContext r (AddrString realAddr))"

definition clientIPMiddleware :: "addr \<Rightarrow> httpRequest \<Rightarrow> httpRequest" where
  "clientIPMiddleware trustedProxy r =
    (if IsValid trustedProxy then ClientIPFromRealIPMiddleware trustedProxy r else ClientIPFromRequestMiddleware r)"

definition parseIPAddressFunc :: "string \<Rightarrow> addr option" where
  "parseIPAddressFunc rawIP = (if rawIP = [] then Some AddrZero else map_option Unmap (ParseAddr rawIP))"

text \<open>A forward-auth request on its way through the server.\<close>

definition serveVerify ::
  "(string \<Rightarrow> string) \<Rightarrow> (string \<Rightarrow> GeoResult) option \<Rightarrow> time \<Rightarrow> int \<Rightarrow> policyService \<Rightarrow> httpRequest
   \<Rightarrow> nat \<times> DecisionEvent list" where
  "serveVerify sha256 geo now dur svc r =
    HandleForwardAuthIP sha256 geo now dur svc (clientIPMiddleware (ps_trustedProxy svc) r)"

section \<open>Audit snapshot\<close>

record PolicyMapEntry =
  pm_IP :: string
  pm_BypassAllowlist :: bool
  pm_AllowedHosts :: "string list"
  pm_IntersectionApplied :: bool
  pm_Contributors :: "ContributorAccess list"

record PolicyMapSnapshot =
  sn_Entries :: "PolicyMapEntry list"
  sn_LastRefreshedAt :: time
  sn_LastRefreshDurationMs :: int

definition toPolicyMapEntry :: "addr \<Rightarrow> ipSetEntry \<Rightarrow> PolicyMapEntry" where
  "toPolicyMapEntry ip e = \<lparr>pm_IP = AddrString ip, pm_BypassAllowlist = is_BypassAllowlist e,
     pm_AllowedHosts = sortedKeys (is_AllowedHosts e), pm_IntersectionApplied = is_IntersectionApplied e,
     pm_Contributors = is_Contributors e\<rparr>"

definition GetPolicyMap :: "policyService \<Rightarrow> PolicyMapSnapshot" where
  "GetPolicyMap svc = \<lparr>sn_Entries = map (\<lambda>(ip, e). toPolicyMapEntry ip e) (ps_ipSet svc),
     sn_LastRefreshedAt = ps_lastRefreshedAt svc, sn_LastRefreshDurationMs = ps_lastRefreshDurationMs svc\<rparr>"

section \<open>What a decision depends on\<close>

lemma scanPolicies_find:
  "scanPolicies ip h nps = (case List.find (\<lambda>np. Contains (nc_Prefix np) ip) nps of
     None \<Rightarrow> denyResult DenyReasonIPNotRegistered | Some np \<Rightarrow> networkDecision np h)"
  by (induction nps) auto

lemma denyResult_simps [simp]: "\<not> dr_Allowed (denyResult r)" "dr_DenyReason (denyResult r) = Some r"
  by (simp_all add: denyResult_def)

lemma networkDecision_allowed [simp]:
  "dr_Allowed (networkDecision np h) \<longleftrightarrow> nc_BypassHostCheck np \<or> h \<in> nc_AllowedHosts np"
  by (simp add: networkDecision_def)

lemma isTrustedProxy_eq: "isTrustedProxy svc ip \<longleftrightarrow> IsValid (ps_trustedProxy svc) \<and> ip = ps_trustedProxy svc"
  by (auto simp: isTrustedProxy_def)

lemma Decide_invalid: "\<not> IsValid ip \<Longrightarrow> Decide svc ip host = denyResult DenyReasonIPNotRegistered"
  by (simp add: Decide_def)

lemma Decide_proxy: "isTrustedProxy svc (Unmap ip) \<Longrightarrow> Decide svc ip host = denyResult DenyReasonIPNotRegistered"
  by (simp add: Decide_def lookupIP_def)

lemma Decide_Unmap: "Decide svc (Unmap ip) host = Decide svc ip host"
  by (simp add: Decide_def)

lemma Decide_allowed:
  "dr_Allowed (Decide svc ip host) \<longleftrightarrow> IsValid ip \<and> \<not> isTrustedProxy svc (Unmap ip) \<and>
    (case map_of (ps_ipSet svc) (Unmap ip) of
       Some entry \<Rightarrow> is_BypassAllowlist entry \<or> NormaliseHost host \<in> is_AllowedHosts entry
     | None \<Rightarrow> (case List.find (\<lambda>np. Contains (nc_Prefix np) (Unmap ip)) (ps_networkPolicies svc) of
           None \<Rightarrow> False | Some np \<Rightarrow> nc_BypassHostCheck np \<or> NormaliseHost host \<in> nc_AllowedHosts np))"
  by (auto simp: Decide_def lookupIP_def Let_def scanPolicies_find split: option.splits)

text \<open>A denial has a reason, an allowance has none.\<close>

lemma Decide_reason: "dr_DenyReason (Decide svc ip host) = None \<longleftrightarrow> dr_Allowed (Decide svc ip host)"
  by (auto simp: Decide_def Let_def scanPolicies_find networkDecision_def split: option.splits)

definition longestAllows :: "networkPolicyCacheEntry list \<Rightarrow> addr \<Rightarrow> string \<Rightarrow> bool" where
  "longestAllows nps ip h \<longleftrightarrow> (\<exists>np \<in> set nps. Contains (nc_Prefix np) ip \<and>
     (\<forall>np' \<in> set nps. Contains (nc_Prefix np') ip \<longrightarrow> pfx_bits (nc_Prefix np') \<le> pfx_bits (nc_Prefix np)) \<and>
     (nc_BypassHostCheck np \<or> h \<in> nc_AllowedHosts np))"

lemma network_longest:
  assumes "distinct (map nc_Prefix (buildNetworkPolicyCache es))"
  shows "(case List.find (\<lambda>np. Contains (nc_Prefix np) ip) (buildNetworkPolicyCache es) of
     None \<Rightarrow> False | Some np \<Rightarrow> nc_BypassHostCheck np \<or> h \<in> nc_AllowedHosts np) \<longleftrightarrow>
     longestAllows (List.map_filter toCacheEntry es) ip h"
proof (cases "List.find (\<lambda>np. Contains (nc_Prefix np) ip) (buildNetworkPolicyCache es)")
  case None
  then have "\<not> (\<exists>x \<in> set (buildNetworkPolicyCache es). Contains (nc_Prefix x) ip)" by (rule find_None_iff_ex[THEN iffD1])
  with None show ?thesis by (auto simp: longestAllows_def set_buildNetworkPolicyCache[symmetric])
next
  case (Some np)
  note np = find_SomeD[OF Some]
  have unique: "np' = np" if hyp: "np' \<in> set (buildNetworkPolicyCache es)" "Contains (nc_Prefix np') ip"
    "pfx_bits (nc_Prefix np) \<le> pfx_bits (nc_Prefix np')" for np'
    using hyp np find_network_longest[OF Some] inj_prefix_eq[OF assms] cacheOK_unique buildNetworkPolicyCache_ok
    by (metis order_antisym)
  show ?thesis using Some np unique find_network_longest[OF Some]
    by (fastforce simp: longestAllows_def set_buildNetworkPolicyCache[symmetric])
qed

lemma specEntry_allows:
  "is_BypassAllowlist (specEntry ha es) \<or> h \<in> is_AllowedHosts (specEntry ha es) \<longleftrightarrow>
    list_all (\<lambda>e. bypassByUser ha (ie_UserID e) \<or> h \<in> hostSetByUser ha (ie_UserID e)) es"
  by (cases "restrictedHosts ha es = []")
    (auto simp: specEntry_def list_all_iff restrictedHosts_set restrictedHosts_def restricted_def filter_empty_conv)

text \<open>C1 (functional). After a refresh, a request is allowed in exactly these cases: the address is
  valid and is not the trusted proxy's, and either some enabled address is equal to it (after
  unmapping) and every owner of such an address bypasses the host check or may reach the host, or
  no enabled address is equal to it and the longest network policy around it bypasses the host check
  or allows the host. Everything else is denied. A registered address never falls back to a network
  policy.\<close>

theorem Decide_refreshed:
  assumes "refreshCache start now pr svc0 = (None, svc)" and "pr_ipEntries pr = Inr es"
    and "distinct (map nc_Prefix (ps_networkPolicies svc))"
  shows "dr_Allowed (Decide svc ip host) \<longleftrightarrow>
    IsValid ip \<and> \<not> (IsValid (ps_trustedProxy svc0) \<and> Unmap ip = ps_trustedProxy svc0) \<and>
    (if entriesAt es (Unmap ip) \<noteq> []
     then list_all (\<lambda>e. bypassByUser (answer (pr_hostAccess pr)) (ie_UserID e) \<or>
            NormaliseHost host \<in> hostSetByUser (answer (pr_hostAccess pr)) (ie_UserID e)) (entriesAt es (Unmap ip))
     else longestAllows (List.map_filter toCacheEntry (answer (pr_networkPolicies pr))) (Unmap ip) (NormaliseHost host))"
proof -
  have svc: "ps_ipSet svc = buildIPSet es (answer (pr_hostAccess pr))" "ps_trustedProxy svc = ps_trustedProxy svc0"
    "ps_networkPolicies svc = buildNetworkPolicyCache (answer (pr_networkPolicies pr))"
    using refreshCache_ok[OF assms(1)] assms(2) by auto
  have "distinct (map nc_Prefix (buildNetworkPolicyCache (answer (pr_networkPolicies pr))))"
    using assms(3) svc(3) by simp
  from network_longest[OF this] show ?thesis
    by (simp add: Decide_allowed isTrustedProxy_eq svc buildIPSet_spec specEntry_allows)
qed

definition sampleProviders :: providers where
  "sampleProviders = \<lparr>pr_ipEntries = Inr [\<lparr>ie_IP = ''10.1.2.9'', ie_DeviceID = 1, ie_AddressID = 11, ie_UserID = 1\<rparr>],
     pr_hostAccess = Some (Inr sharedAccess), pr_networkPolicies = Some (Inr sampleEntries)\<rparr>"

definition sampleService :: policyService where
  "sampleService = \<lparr>ps_apiSecretHash = ''k'', ps_trustedProxy = V4 0x0A010206, ps_ipSet = [],
     ps_networkPolicies = [], ps_lastRefreshedAt = 0, ps_lastRefreshDurationMs = 0, ps_refreshSignal = False\<rparr>"

definition liveService :: policyService where
  "liveService = snd (refreshCache 0 5000000 sampleProviders sampleService)"

lemma liveService_ok: "refreshCache 0 5000000 sampleProviders sampleService = (None, liveService)"
  by (simp add: liveService_def refreshCache_def sampleProviders_def)

theorem Decide_refreshed_witness:
  "dr_Allowed (Decide liveService (V4 0x0A010209) ''A.io:443'') \<and>
   \<not> dr_Allowed (Decide liveService (V4 0x0A010209) ''b.io'') \<and>
   dr_Allowed (Decide liveService (V4 0x0A630101) ''b.io'') \<and>
   \<not> dr_Allowed (Decide liveService (V4 0x0A010206) ''a.io'')"
proof -
  have d: "distinct (map nc_Prefix (ps_networkPolicies liveService))" by code_simp
  have ok: "pr_ipEntries sampleProviders = Inr [\<lparr>ie_IP = ''10.1.2.9'', ie_DeviceID = 1, ie_AddressID = 11, ie_UserID = 1\<rparr>]"
    by (simp add: sampleProviders_def)
  note eq = Decide_refreshed[OF liveService_ok ok d]
  show ?thesis unfolding eq by code_simp
qed

section \<open>Fail closed\<close>

lemma VerifyAccess_ok:
  "fst (VerifyAccess sha256 geo now dur svc req) = None \<longleftrightarrow>
    sha256 (vr_Token req) = ps_apiSecretHash svc \<and>
    dr_Allowed (Decide svc (vr_ClientIP req) (case vr_TargetHost req of None \<Rightarrow> [] | Some h \<Rightarrow> h))"
  by (simp add: VerifyAccess_def Let_def)

lemma nilIfEmpty_host: "(case nilIfEmpty h of None \<Rightarrow> [] | Some h \<Rightarrow> h) = h"
  by (simp add: nilIfEmpty_def)

lemma CutPrefix_Some: "CutPrefix s pre = Some t \<longleftrightarrow> s = pre @ t"
  by (auto simp: CutPrefix_def) (metis append_take_drop_id)

lemma ParseAddr_empty: "ParseAddr [] = None"
  by (simp add: ParseAddr_def)

lemma HandleForwardAuthIP_status:
  "fst (HandleForwardAuthIP sha256 geo now dur svc r) =
    (if headerGet (rq_Header r) ''Early-Data'' = ''1'' then 425
     else if (\<exists>token addr. token \<noteq> [] \<and> headerGet (rq_Header r) ''Authorization'' = ''Bearer '' @ token \<and>
         sha256 token = ps_apiSecretHash svc \<and> Option.bind (rq_clientIP r) ParseAddr = Some addr \<and>
         dr_Allowed (Decide svc addr (headerGet (rq_Header r) ''X-Forwarded-Host'')))
     then 200 else 403)"
proof -
  let ?h = "rq_Header r"
  have verify: "(case VerifyAccess sha256 geo now dur svc (NewVerifyRequest token (Unmap addr) ?h) of
      (Some x, ev) \<Rightarrow> (403, [ev]) | (None, ev) \<Rightarrow> (200::nat, [ev])) =
      (if sha256 token = ps_apiSecretHash svc \<and> dr_Allowed (Decide svc addr (headerGet ?h ''X-Forwarded-Host''))
       then 200 else 403, [snd (VerifyAccess sha256 geo now dur svc (NewVerifyRequest token (Unmap addr) ?h))])" for token addr
    using VerifyAccess_ok[of sha256 geo now dur svc "NewVerifyRequest token (Unmap addr) ?h"]
    by (auto simp: NewVerifyRequest_def nilIfEmpty_host Decide_Unmap split: prod.splits option.splits)
  show ?thesis
  proof (cases "CutPrefix (headerGet ?h ''Authorization'') ''Bearer ''")
    case None
    then show ?thesis using CutPrefix_Some[of "headerGet ?h ''Authorization''" "''Bearer ''"]
      by (auto simp: HandleForwardAuthIP_def)
  next
    case (Some token)
    note tok = this[unfolded CutPrefix_Some]
    have auth: "headerGet ?h ''Authorization'' = ''Bearer '' @ t \<longleftrightarrow> t = token" for t using tok by auto
    show ?thesis unfolding HandleForwardAuthIP_def Some option.case verify ClientIPFromContext_def auth
      by (cases "rq_clientIP r") (auto simp: ParseAddr_empty split: option.splits)
  qed
qed

text \<open>C2 (error). Forward-auth fails closed. A request that is not TLS early data is answered 200 exactly
  if the bearer token is present and hashes to the configured secret, the client address parses and
  the decision for it and the forwarded host is to allow; every other such request gets 403.\<close>

theorem HandleForwardAuthIP_fail_closed:
  assumes "headerGet (rq_Header r) ''Early-Data'' \<noteq> ''1''"
  shows "fst (HandleForwardAuthIP sha256 geo now dur svc r) =
    (if (\<exists>token addr. token \<noteq> [] \<and> headerGet (rq_Header r) ''Authorization'' = ''Bearer '' @ token \<and>
         sha256 token = ps_apiSecretHash svc \<and> Option.bind (rq_clientIP r) ParseAddr = Some addr \<and>
         dr_Allowed (Decide svc addr (headerGet (rq_Header r) ''X-Forwarded-Host'')))
     then 200 else 403)"
  using assms by (simp add: HandleForwardAuthIP_status)

definition sampleHeader :: header where
  "sampleHeader = [(''Authorization'', [''Bearer k'']), (''X-Forwarded-Host'', [''a.io'']), (''Cookie'', [''s=1'']), (''X-Real-Ip'', [''10.1.2.9''])]"

theorem HandleForwardAuthIP_fail_closed_witness:
  "fst (HandleForwardAuthIP id None 7 3 liveService
     \<lparr>rq_RemoteAddr = ''10.1.2.6:99'', rq_Header = sampleHeader, rq_clientIP = Some ''10.1.2.9''\<rparr>) = 200 \<and>
   fst (HandleForwardAuthIP id None 7 3 liveService
     \<lparr>rq_RemoteAddr = ''10.1.2.6:99'', rq_Header = sampleHeader, rq_clientIP = Some ''10.1.2.6''\<rparr>) = 403"
proof -
  let ?r = "\<lambda>ip. \<lparr>rq_RemoteAddr = ''10.1.2.6:99'', rq_Header = sampleHeader, rq_clientIP = Some ip\<rparr>"
  have late: "headerGet (rq_Header (?r ip)) ''Early-Data'' \<noteq> ''1''" for ip by simp code_simp
  have head: "headerGet sampleHeader ''Authorization'' = ''Bearer '' @ ''k''" "id ''k'' = ps_apiSecretHash liveService" by code_simp+
  have addr: "ParseAddr ''10.1.2.9'' \<noteq> None" by code_simp
  have yes: "dr_Allowed (Decide liveService (the (ParseAddr ''10.1.2.9'')) (headerGet sampleHeader ''X-Forwarded-Host''))" by code_simp
  have no: "\<not> dr_Allowed (Decide liveService (the (ParseAddr ''10.1.2.6'')) (headerGet sampleHeader ''X-Forwarded-Host''))" by code_simp
  note st = HandleForwardAuthIP_fail_closed[OF late, of id None 7 3 liveService]
  have "\<exists>token addr. token \<noteq> [] \<and> headerGet (rq_Header (?r ''10.1.2.9'')) ''Authorization'' = ''Bearer '' @ token \<and>
      id token = ps_apiSecretHash liveService \<and> Option.bind (rq_clientIP (?r ''10.1.2.9'')) ParseAddr = Some addr \<and>
      dr_Allowed (Decide liveService addr (headerGet (rq_Header (?r ''10.1.2.9'')) ''X-Forwarded-Host''))"
    using head addr yes by (intro exI[of _ "''k''"] exI[of _ "the (ParseAddr ''10.1.2.9'')"]) auto
  moreover have "\<nexists>token addr. token \<noteq> [] \<and> headerGet (rq_Header (?r ''10.1.2.6'')) ''Authorization'' = ''Bearer '' @ token \<and>
      id token = ps_apiSecretHash liveService \<and> Option.bind (rq_clientIP (?r ''10.1.2.6'')) ParseAddr = Some addr \<and>
      dr_Allowed (Decide liveService addr (headerGet (rq_Header (?r ''10.1.2.6'')) ''X-Forwarded-Host''))"
    using no by auto
  ultimately show ?thesis unfolding st by (simp only: if_True if_False simp_thms)
qed

text \<open>C17 (equivalence). The simulation that administrators use agrees with the engine: for every
  text of an address and every host, it answers allowed exactly if a request with the right token
  from that address for that host is answered 200, and it reports the reason that the event of such
  a request carries.\<close>

theorem SimulatePolicyAccess_agrees:
  assumes "sha256 token = ps_apiSecretHash svc" and "token \<noteq> []"
    and "headerGet h ''Early-Data'' \<noteq> ''1''" and "headerGet h ''Authorization'' = ''Bearer '' @ token"
  shows "fst (HandleForwardAuthIP sha256 geo now dur svc \<lparr>rq_RemoteAddr = peer, rq_Header = h, rq_clientIP = Some ip\<rparr>) =
      (if sim_Allowed (SimulatePolicyAccess svc ip (headerGet h ''X-Forwarded-Host'')) then 200 else 403) \<and>
    map de_DenyReason (snd (HandleForwardAuthIP sha256 geo now dur svc
        \<lparr>rq_RemoteAddr = peer, rq_Header = h, rq_clientIP = Some ip\<rparr>)) =
      (if ParseAddr ip = None then [] else [sim_DenyReason (SimulatePolicyAccess svc ip (headerGet h ''X-Forwarded-Host''))])"
proof -
  let ?r = "\<lparr>rq_RemoteAddr = peer, rq_Header = h, rq_clientIP = Some ip\<rparr>"
  let ?host = "headerGet h ''X-Forwarded-Host''"
  have cut: "CutPrefix (headerGet h ''Authorization'') ''Bearer '' = Some token" by (simp only: CutPrefix_Some assms(4))
  have status: "fst (HandleForwardAuthIP sha256 geo now dur svc ?r) =
      (if sim_Allowed (SimulatePolicyAccess svc ip ?host) then 200 else 403)"
    using assms
    by (cases "ParseAddr ip")
      (auto simp: HandleForwardAuthIP_status SimulatePolicyAccess_def Let_def Decide_Unmap Decide_invalid IsValid_def)
  have reason: "de_DenyReason (snd (VerifyAccess sha256 geo now dur svc (NewVerifyRequest token (Unmap a) h))) =
      dr_DenyReason (Decide svc a ?host)" for a
    using assms(1) Decide_reason[of svc a ?host]
    by (auto simp: VerifyAccess_def Let_def NewVerifyRequest_def nilIfEmpty_host Decide_Unmap NewDecisionEvent_def)
  have "map de_DenyReason (snd (HandleForwardAuthIP sha256 geo now dur svc ?r)) =
      (if ParseAddr ip = None then [] else [sim_DenyReason (SimulatePolicyAccess svc ip ?host)])"
  proof (cases "ip = [] \<or> ParseAddr ip = None")
    case True
    then show ?thesis using assms(2,3) cut
      by (auto simp: HandleForwardAuthIP_def ClientIPFromContext_def ParseAddr_empty)
  next
    case False
    then obtain a where a: "ParseAddr ip = Some a" "ip \<noteq> []" by auto
    then show ?thesis using assms(2,3) cut reason[of a]
      by (auto simp: HandleForwardAuthIP_def ClientIPFromContext_def SimulatePolicyAccess_def Let_def Decide_Unmap
          split: prod.splits option.splits)
  qed
  with status show ?thesis by simp
qed

theorem SimulatePolicyAccess_agrees_witness:
  "fst (HandleForwardAuthIP id None 7 3 liveService
     \<lparr>rq_RemoteAddr = ''10.1.2.6:99'', rq_Header = sampleHeader, rq_clientIP = Some ''10.1.2.9''\<rparr>) = 200 \<and>
   map de_DenyReason (snd (HandleForwardAuthIP id None 7 3 liveService
     \<lparr>rq_RemoteAddr = ''10.1.2.6:99'', rq_Header = sampleHeader, rq_clientIP = Some ''10.1.2.6''\<rparr>)) = [Some DenyReasonIPNotRegistered]"
proof -
  have h: "id ''k'' = ps_apiSecretHash liveService" "''k'' \<noteq> []" "headerGet sampleHeader ''Early-Data'' \<noteq> ''1''"
    "headerGet sampleHeader ''Authorization'' = ''Bearer '' @ ''k''" by code_simp+
  note sim = SimulatePolicyAccess_agrees[of id "''k''" liveService sampleHeader, OF h, of None 7 3 "''10.1.2.6:99''"]
  show ?thesis unfolding sim[THEN conjunct1] sim[THEN conjunct2] by code_simp
qed

section \<open>The client address\<close>

lemma setClientIP_addr:
  "IsValid a \<Longrightarrow> setClientIPInContext r (AddrString a) = r\<lparr>rq_clientIP := Some (AddrString (Unmap a))\<rparr>"
  by (simp add: setClientIPInContext_def ParseAddr_print)

lemma extractIP_header [simp]: "extractIPFromRemoteAddr (r\<lparr>rq_Header := h\<rparr>) = extractIPFromRemoteAddr r"
  by (simp add: extractIPFromRemoteAddr_def split: option.splits)

lemma setClientIP_header: "rq_clientIP (setClientIPInContext (r\<lparr>rq_Header := h\<rparr>) ip) = rq_clientIP (setClientIPInContext r ip)"
  by (simp add: setClientIPInContext_def)

text \<open>A client cannot choose its address: unless the direct peer is the trusted proxy,
  the address that the server attributes to a request is a function of the connection alone,
  whatever headers the client sends.\<close>

lemma untrusted_peer_headers_ignored:
  assumes "ParseAddr (extractIPFromRemoteAddr r) \<noteq> Some (ps_trustedProxy svc)"
  shows "rq_clientIP (clientIPMiddleware (ps_trustedProxy svc) (r\<lparr>rq_Header := h\<rparr>)) =
    rq_clientIP (setClientIPInContext r (extractIPFromRemoteAddr r))"
proof (cases "ParseAddr (extractIPFromRemoteAddr r)")
  case None
  then show ?thesis
    by (simp add: clientIPMiddleware_def ClientIPFromRealIPMiddleware_def ClientIPFromRequestMiddleware_def setClientIP_header)
next
  case (Some peer)
  then have "Compare (ps_trustedProxy svc) peer \<noteq> 0" "ParseAddr (AddrString peer) = Some peer"
    using assms by (auto intro!: ParseAddr_print ParseAddr_valid)
  then show ?thesis using Some
    by (simp add: clientIPMiddleware_def ClientIPFromRealIPMiddleware_def ClientIPFromRequestMiddleware_def setClientIP_header)
      (simp add: setClientIPInContext_def)
qed

lemma untrusted_peer_headers_ignored_witness:
  "rq_clientIP (clientIPMiddleware (ps_trustedProxy liveService)
     (\<lparr>rq_RemoteAddr = ''192.0.2.7:5'', rq_Header = [], rq_clientIP = None\<rparr>\<lparr>rq_Header := sampleHeader\<rparr>)) = Some ''192.0.2.7''"
proof -
  have "ParseAddr (extractIPFromRemoteAddr \<lparr>rq_RemoteAddr = ''192.0.2.7:5'', rq_Header = [], rq_clientIP = None\<rparr>)
      \<noteq> Some (ps_trustedProxy liveService)" by code_simp
  note eq = untrusted_peer_headers_ignored[OF this, of sampleHeader]
  show ?thesis unfolding eq by code_simp
qed

text \<open>The trusted proxy itself is never authorised: a request that comes from the proxy
  without a usable \<open>X-Real-IP\<close> is attributed to the proxy's own address and refused, also when that
  address is registered for a device or lies in the range of a network policy.\<close>

lemma trusted_proxy_refused:
  assumes "IsValid (ps_trustedProxy svc)" and "Unmap (ps_trustedProxy svc) = ps_trustedProxy svc"
    and "ParseAddr (extractIPFromRemoteAddr r) = Some (ps_trustedProxy svc)"
    and "ParseAddr (TrimSpace (headerGet (rq_Header r) ''X-Real-Ip'')) = None"
  shows "fst (serveVerify sha256 geo now dur svc r) \<noteq> 200"
proof -
  have "clientIPMiddleware (ps_trustedProxy svc) r = r\<lparr>rq_clientIP := Some (AddrString (ps_trustedProxy svc))\<rparr>"
    using assms by (simp add: clientIPMiddleware_def ClientIPFromRealIPMiddleware_def setClientIP_addr Let_def)
  moreover have "\<not> dr_Allowed (Decide svc (ps_trustedProxy svc) host)" for host
    using Decide_proxy[of svc "ps_trustedProxy svc"] assms(1,2) by (simp add: isTrustedProxy_eq)
  ultimately show ?thesis using assms(1)
    by (auto simp: serveVerify_def HandleForwardAuthIP_status ParseAddr_print)
qed

lemma trusted_proxy_refused_witness:
  "fst (serveVerify id None 7 3 liveService \<lparr>rq_RemoteAddr = ''10.1.2.6:99'',
     rq_Header = [(''Authorization'', [''Bearer k'']), (''X-Forwarded-Host'', [''a.io''])], rq_clientIP = None\<rparr>) \<noteq> 200 \<and>
   fst (serveVerify id None 7 3 liveService \<lparr>rq_RemoteAddr = ''10.1.2.6:99'', rq_Header = sampleHeader, rq_clientIP = None\<rparr>) = 200"
proof
  show "fst (serveVerify id None 7 3 liveService \<lparr>rq_RemoteAddr = ''10.1.2.6:99'',
     rq_Header = [(''Authorization'', [''Bearer k'']), (''X-Forwarded-Host'', [''a.io''])], rq_clientIP = None\<rparr>) \<noteq> 200"
    by (rule trusted_proxy_refused) code_simp+
  show "fst (serveVerify id None 7 3 liveService \<lparr>rq_RemoteAddr = ''10.1.2.6:99'', rq_Header = sampleHeader, rq_clientIP = None\<rparr>) = 200"
    by code_simp
qed

section \<open>What the observers see\<close>

lemma minimal_not_sensitive: "filter (\<lambda>(k, vals). sensitiveHeaders (ToLower k)) (minimalEnrichmentHeaders h) = []"
proof -
  have "list_all (\<lambda>k. \<not> sensitiveHeaders (ToLower k)) forwardingHeaderKeys" by code_simp
  then show ?thesis by (auto simp: minimalEnrichmentHeaders_def filter_empty_conv list_all_iff)
qed

lemma full_not_sensitive: "filter (\<lambda>(k, vals). sensitiveHeaders (ToLower k)) (fullEnrichmentHeaders h) = []"
  by (auto simp: fullEnrichmentHeaders_def filter_empty_conv)

lemma VerifyAccess_event:
  "\<exists>reason res geo'. snd (VerifyAccess sha256 geo now dur svc req) =
     NewDecisionEvent (fst (VerifyAccess sha256 geo now dur svc req) = None) reason res req geo' now dur"
  by (auto simp: VerifyAccess_def Let_def)

text \<open>The event of a decision tells the outcome and never carries credentials: no header
  whose name is \<open>Authorization\<close>, \<open>Cookie\<close> or \<open>Proxy-Authorization\<close> in any spelling is in it. An
  allowed request keeps all its other headers, a denied one only the forwarding headers.\<close>

lemma decision_event_headers:
  fixes sha256 geo now dur svc req
  defines "ev \<equiv> snd (VerifyAccess sha256 geo now dur svc req)"
  shows "filter (\<lambda>(k, vals). sensitiveHeaders (ToLower k)) (de_Headers ev) = [] \<and>
    de_Outcome ev = (fst (VerifyAccess sha256 geo now dur svc req) = None) \<and>
    de_Headers ev = (if de_Outcome ev then filter (\<lambda>(k, vals). \<not> sensitiveHeaders (ToLower k)) (vr_rawHeader req)
      else minimalEnrichmentHeaders (vr_rawHeader req))"
proof -
  obtain reason res geo' where ev:
    "ev = NewDecisionEvent (fst (VerifyAccess sha256 geo now dur svc req) = None) reason res req geo' now dur"
    using VerifyAccess_event unfolding ev_def by blast
  have "de_Outcome ev = (fst (VerifyAccess sha256 geo now dur svc req) = None)"
    "de_Headers ev = (if fst (VerifyAccess sha256 geo now dur svc req) = None then fullEnrichmentHeaders (vr_rawHeader req)
       else minimalEnrichmentHeaders (vr_rawHeader req))"
    unfolding ev by (simp_all add: NewDecisionEvent_def Let_def split: option.splits)
  then show ?thesis by (simp add: minimal_not_sensitive full_not_sensitive) (simp add: fullEnrichmentHeaders_def)
qed

text \<open>An allowed event need not name a contributor: the comment on the field says that
  there is at least one on every allowed or host-denied request, but a request that a network policy
  admits, or refuses for its host, has none.\<close>

lemma network_match_has_no_contributors:
  "de_Outcome (snd (VerifyAccess id None 7 3 liveService
      (NewVerifyRequest ''k'' (V4 0x0A630101) sampleHeader))) \<and>
   de_IPContributors (snd (VerifyAccess id None 7 3 liveService
      (NewVerifyRequest ''k'' (V4 0x0A630101) sampleHeader))) = [] \<and>
   de_DenyReason (snd (VerifyAccess id None 7 3 liveService
      (NewVerifyRequest ''k'' (V4 0x0A010301) sampleHeader))) = Some DenyReasonHostNotAllowed \<and>
   de_IPContributors (snd (VerifyAccess id None 7 3 liveService
      (NewVerifyRequest ''k'' (V4 0x0A010301) sampleHeader))) = []"
  by code_simp

end
