(* ===== verification/Device_Repo.thy ===== *)
theory Device_Repo
  imports Events
begin

text \<open>
  Devices, their addresses and API keys: the values (\<open>src/internal/device/device.go\<close>, \<open>address.go\<close>)
  and the queries (\<open>device_repository.go\<close>, \<open>address_repository.go\<close>).

  \<open>inTx\<close> tells whether a call runs inside a transaction of its caller. A constraint that the
  schema enforces is a guard of the statement that would violate it: the unique indexes are checked
  first, the foreign keys at the end of the statement. \<open>sqlNow\<close> is \<open>CURRENT_TIMESTAMP\<close>, which has
  whole seconds. The random bytes of a key and the hash are arguments.
\<close>

section \<open>Values\<close>

record Device =
  dv_row :: DeviceRow
  dv_KeyPrefix :: "string option"

text \<open>A patch field of type \<open>**string\<close>: absent, clear or set.\<close>

type_synonym patch = "string option option"

definition Update ::
  "DeviceRow \<Rightarrow> string option \<Rightarrow> patch \<Rightarrow> patch \<Rightarrow> id option \<Rightarrow> (device_err, DeviceRow) result" where
  "Update d name description icon ownerID =
    (if (case name of Some n \<Rightarrow> length n < 1 \<or> length n > 50 | None \<Rightarrow> False) then Inl ErrInvalidDeviceName
     else if (case description of Some (Some t) \<Rightarrow> length t > 200 | _ \<Rightarrow> False) then Inl ErrDescriptionTooLong
     else if (case icon of Some (Some t) \<Rightarrow> length t > 80 | _ \<Rightarrow> False) then Inl ErrIconTooLong
     else Inr (d\<lparr>d_Name := case_option (d_Name d) id name,
                 d_Description := case_option (d_Description d) id description,
                 d_Icon := case_option (d_Icon d) id icon,
                 d_OwnerID := case_option (d_OwnerID d) id ownerID\<rparr>))"

definition APIKeyPrefix :: string where
  "APIKeyPrefix = ''wdk_''"

text \<open>\<open>hash\<close> stands for the base64url text of the SHA-256 of a string, \<open>raw\<close> for the base64url text
  of the random bytes.\<close>

definition HashAPIKey :: "(string \<Rightarrow> string) \<Rightarrow> string \<Rightarrow> string" where
  "HashAPIKey hash rawKey = hash rawKey"

definition GenerateAPIKey :: "(string \<Rightarrow> string) \<Rightarrow> string option \<Rightarrow> (err, string \<times> string \<times> string) result" where
  "GenerateAPIKey hash random = (case random of None \<Rightarrow> Inl DBError
   | Some rawKey \<Rightarrow> (let prefixedKey = APIKeyPrefix @ rawKey
      in Inr (prefixedKey, HashAPIKey hash prefixedKey, take (length APIKeyPrefix + 8) prefixedKey)))"

definition triggerOf :: "string \<Rightarrow> EventTrigger option" where
  "triggerOf v = (if v = ''network_change'' then Some EventTriggerNetworkChange
     else if v = ''schedule'' then Some EventTriggerSchedule
     else if v = ''system'' then Some EventTriggerSystem
     else if v = ''user'' then Some EventTriggerUser else None)"

definition ParseEventTrigger :: "string \<Rightarrow> EventTrigger \<times> bool" where
  "ParseEventTrigger v = (case triggerOf v of None \<Rightarrow> (EventTriggerSchedule, False)
   | Some t \<Rightarrow> if t = EventTriggerSystem then (EventTriggerSchedule, False) else (t, True))"

definition ParseAndValidateIP :: "string \<Rightarrow> (device_err, addr) result" where
  "ParseAndValidateIP ipInput = (case ParseAddr ipInput of Some a \<Rightarrow> Inr (Unmap a)
   | None \<Rightarrow> (case ParseAddrPort ipInput of Some (a, _) \<Rightarrow> Inr (Unmap a) | None \<Rightarrow> Inl ErrInvalidIPFormat))"

record CreateAddressParams =
  cap_DeviceID :: id
  cap_IP :: addr

definition NewCreateAddressParams :: "id \<Rightarrow> string \<Rightarrow> addr \<Rightarrow> (device_err, CreateAddressParams) result" where
  "NewCreateAddressParams deviceID ipAddress trustedProxy = (case ParseAndValidateIP ipAddress of Inl e \<Rightarrow> Inl e
   | Inr parsedIP \<Rightarrow>
      if IsLoopback parsedIP \<or> IsMulticast parsedIP \<or> IsUnspecified parsedIP \<or> IsLinkLocalUnicast parsedIP
      then Inl ErrInvalidDeviceIP
      else if IsValid trustedProxy \<and> Compare trustedProxy parsedIP = 0 then Inl ErrTrustedProxyIPRejected
      else Inr \<lparr>cap_DeviceID = deviceID, cap_IP = parsedIP\<rparr>)"

section \<open>Device queries\<close>

definition sqlNow :: "time \<Rightarrow> time" where
  "sqlNow now = now div 1000000000 * 1000000000"

definition activeDevice :: "store \<Rightarrow> id \<Rightarrow> DeviceRow option" where
  "activeDevice s i = List.find (\<lambda>d. d_ID d = i \<and> d_DeletedAt d = None) (st_devices s)"

definition keyOf :: "store \<Rightarrow> id \<Rightarrow> APIKeyRow option" where
  "keyOf s i = List.find (\<lambda>k. k_DeviceID k = i) (st_apiKeys s)"

definition withKey :: "store \<Rightarrow> DeviceRow \<Rightarrow> Device" where
  "withKey s d = \<lparr>dv_row = d, dv_KeyPrefix = map_option k_Prefix (keyOf s (d_ID d))\<rparr>"

definition repoGetDevice :: "id \<Rightarrow> Device op" where
  "repoGetDevice i s = (case activeDevice s i of None \<Rightarrow> throw (DeviceErr ErrDeviceNotFound) s
     | Some d \<Rightarrow> ret (withKey s d) s)"

definition IsDeviceDisabled :: "id \<Rightarrow> bool op" where
  "IsDeviceDisabled i s = (case activeDevice s i of None \<Rightarrow> throw (DeviceErr ErrDeviceNotFound) s
     | Some d \<Rightarrow> ret (d_DisabledAt d \<noteq> None) s)"

record CreateDeviceParams =
  cdp_Name :: string
  cdp_OwnerID :: id
  cdp_Description :: "string option"
  cdp_Icon :: "string option"

definition nameTaken :: "DeviceRow list \<Rightarrow> string \<Rightarrow> id \<Rightarrow> bool" where
  "nameTaken ds name owner \<longleftrightarrow> (\<exists>d \<in> set ds. d_Name d = name \<and> d_OwnerID d = owner \<and> d_DeletedAt d = None)"

definition repoCreateDevice :: "time \<Rightarrow> CreateDeviceParams \<Rightarrow> Device op" where
  "repoCreateDevice now params s =
    (if nameTaken (st_devices s) (cdp_Name params) (cdp_OwnerID params) then throw (DeviceErr ErrDuplicateDeviceName) s
     else if cdp_OwnerID params \<notin> u_ID ` set (st_users s) then throw (DeviceErr ErrOwnerNotFound) s
     else let row = \<lparr>d_ID = nextID (map d_ID (st_devices s)), d_Name = cdp_Name params, d_Description = cdp_Description params,
                d_Icon = cdp_Icon params, d_CreatedAt = now, d_UpdatedAt = sqlNow now, d_DeletedAt = None, d_DisabledAt = None,
                d_OwnerID = cdp_OwnerID params\<rparr>
          in ret \<lparr>dv_row = row, dv_KeyPrefix = None\<rparr> (s\<lparr>st_devices := st_devices s @ [row]\<rparr>))"

definition UpsertAPIKey :: "time \<Rightarrow> id \<Rightarrow> string \<Rightarrow> string \<Rightarrow> unit op" where
  "UpsertAPIKey now deviceID keyHash keyPrefix s =
    (let row = \<lparr>k_DeviceID = deviceID, k_Prefix = keyPrefix, k_Hash = keyHash, k_CreatedAt = sqlNow now\<rparr> in
     if (\<exists>k \<in> set (st_apiKeys s). k_Hash k = keyHash \<and> k_DeviceID k \<noteq> deviceID) then throw DBError s
     else if deviceID \<notin> d_ID ` set (st_devices s) then throw (DeviceErr ErrDeviceNotFound) s
     else if deviceID \<in> k_DeviceID ` set (st_apiKeys s)
     then ret () (s\<lparr>st_apiKeys := map (\<lambda>k. if k_DeviceID k = deviceID then row else k) (st_apiKeys s)\<rparr>)
     else ret () (s\<lparr>st_apiKeys := st_apiKeys s @ [row]\<rparr>))"

definition repoDeleteAPIKey :: "id \<Rightarrow> unit op" where
  "repoDeleteAPIKey deviceID s =
    (if deviceID \<in> k_DeviceID ` set (st_apiKeys s)
     then ret () (s\<lparr>st_apiKeys := filter (\<lambda>k. k_DeviceID k \<noteq> deviceID) (st_apiKeys s)\<rparr>)
     else throw (DeviceErr ErrNoAPIKey) s)"

definition GetDeviceByAPIKeyHash :: "string \<Rightarrow> Device op" where
  "GetDeviceByAPIKeyHash keyHash s =
    (case List.find (\<lambda>k. k_Hash k = keyHash \<and> activeDevice s (k_DeviceID k) \<noteq> None) (st_apiKeys s) of
       None \<Rightarrow> throw (DeviceErr ErrDeviceNotFound) s
     | Some k \<Rightarrow> (case activeDevice s (k_DeviceID k) of None \<Rightarrow> throw (DeviceErr ErrDeviceNotFound) s
        | Some d \<Rightarrow> ret \<lparr>dv_row = d, dv_KeyPrefix = Some (k_Prefix k)\<rparr> s))"

definition GetDeviceIDsByOwner :: "id \<Rightarrow> id list op" where
  "GetDeviceIDsByOwner ownerID =
    get (\<lambda>s. map d_ID (filter (\<lambda>d. d_OwnerID d = ownerID \<and> d_DeletedAt d = None) (st_devices s)))"

definition updateActive :: "id \<Rightarrow> (DeviceRow \<Rightarrow> DeviceRow) \<Rightarrow> store \<Rightarrow> store" where
  "updateActive i f s = s\<lparr>st_devices := map (\<lambda>d. if d_ID d = i \<and> d_DeletedAt d = None then f d else d) (st_devices s)\<rparr>"

definition repoDeleteDevice :: "time \<Rightarrow> id \<Rightarrow> unit op" where
  "repoDeleteDevice now i s = (if activeDevice s i = None then throw (DeviceErr ErrDeviceNotFound) s
     else ret () (updateActive i (\<lambda>d. d\<lparr>d_DeletedAt := Some now\<rparr>) s))"

definition SetDeviceDisabled :: "time \<Rightarrow> id \<Rightarrow> bool \<Rightarrow> unit op" where
  "SetDeviceDisabled now i disabled s = (if activeDevice s i = None then throw (DeviceErr ErrDeviceNotFound) s
     else ret () (updateActive i (\<lambda>d. d\<lparr>d_DisabledAt := (if disabled then Some now else None)\<rparr>) s))"

definition repoUpdateDevice :: "time \<Rightarrow> DeviceRow \<Rightarrow> Device op" where
  "repoUpdateDevice now device s =
    (if activeDevice s (d_ID device) = None then throw (DeviceErr ErrDeviceNotFound) s
     else if nameTaken (filter (\<lambda>d. d_ID d \<noteq> d_ID device) (st_devices s)) (d_Name device) (d_OwnerID device)
     then throw (DeviceErr ErrDuplicateDeviceName) s
     else if d_OwnerID device \<notin> u_ID ` set (st_users s) then throw (DeviceErr ErrOwnerNotFound) s
     else repoGetDevice (d_ID device)
       (updateActive (d_ID device) (\<lambda>d. d\<lparr>d_Name := d_Name device, d_Description := d_Description device,
          d_Icon := d_Icon device, d_OwnerID := d_OwnerID device, d_UpdatedAt := sqlNow now\<rparr>) s))"

section \<open>Address queries\<close>

definition DeleteAddressEventsOlderThan :: "time \<Rightarrow> nat op" where
  "DeleteAddressEventsOlderThan before s =
    ret (length (filter (\<lambda>e. ae_CreatedAt e < before) (st_addressEvents s)))
      (s\<lparr>st_addressEvents := filter (\<lambda>e. \<not> ae_CreatedAt e < before) (st_addressEvents s)\<rparr>)"

definition GetAddress :: "id \<Rightarrow> Address op" where
  "GetAddress addressID s = (case List.find (\<lambda>a. a_ID a = addressID) (st_addresses s) of
     None \<Rightarrow> throw (DeviceErr ErrAddressNotFound) s | Some a \<Rightarrow> ret a s)"

definition insertAddressEvent :: "time \<Rightarrow> id \<Rightarrow> bool \<Rightarrow> EventSource \<Rightarrow> EventTrigger \<Rightarrow> unit op" where
  "insertAddressEvent now addressID isEnabled source trigger s =
    (if addressID \<notin> a_ID ` set (st_addresses s) then throw DBError s
     else ret () (s\<lparr>st_addressEvents := st_addressEvents s @ [\<lparr>ae_AddressID = addressID, ae_IsEnabled = isEnabled,
        ae_Source = source, ae_Trigger = trigger, ae_CreatedAt = now\<rparr>]\<rparr>))"

definition insertAddress :: "time \<Rightarrow> CreateAddressParams \<Rightarrow> EventSource \<Rightarrow> id op" where
  "insertAddress now params source s =
    (if (\<exists>a \<in> set (st_addresses s). a_DeviceID a = cap_DeviceID params \<and> a_IP a = AddrString (cap_IP params)) then throw DBError s
     else if cap_DeviceID params \<notin> d_ID ` set (st_devices s) then throw DBError s
     else let i = nextID (map a_ID (st_addresses s))
          in ret i (s\<lparr>st_addresses := st_addresses s @ [\<lparr>a_ID = i, a_DeviceID = cap_DeviceID params,
               a_IP = AddrString (cap_IP params), a_IsEnabled = True, a_Source = source, a_CreatedAt = now, a_UpdatedAt = now\<rparr>]\<rparr>))"

definition CreateAddress :: "bool \<Rightarrow> time \<Rightarrow> CreateAddressParams \<Rightarrow> EventSource \<Rightarrow> EventTrigger \<Rightarrow> Address op" where
  "CreateAddress inTx now params source trigger =
    withinTx inTx (andThen (insertAddress now params source) (\<lambda>addressID.
      andThen (insertAddressEvent now addressID True source trigger) (\<lambda>_. GetAddress addressID)))"

definition byUpdatedDesc :: "Address list \<Rightarrow> Address list" where
  "byUpdatedDesc as = sort_key (\<lambda>a. - a_UpdatedAt a) as"

definition GetAddressForDeviceByIP :: "id \<Rightarrow> addr \<Rightarrow> Address op" where
  "GetAddressForDeviceByIP deviceID ip s =
    (case byUpdatedDesc (filter (\<lambda>a. a_DeviceID a = deviceID \<and> a_IP a = AddrString ip) (st_addresses s)) of
       [] \<Rightarrow> throw (DeviceErr ErrAddressNotFound) s | a # _ \<Rightarrow> ret a s)"

definition CheckAddressOwnership :: "id \<Rightarrow> id \<Rightarrow> unit op" where
  "CheckAddressOwnership deviceID addressID s =
    (if \<exists>a \<in> set (st_addresses s). a_ID a = addressID \<and> a_DeviceID a = deviceID then ret () s
     else throw (DeviceErr ErrAddressNotOwnedByDevice) s)"

definition setAddressState :: "time \<Rightarrow> id \<Rightarrow> bool \<Rightarrow> EventSource \<Rightarrow> store \<Rightarrow> store" where
  "setAddressState now addressID isEnabled source s = s\<lparr>st_addresses := map (\<lambda>a. if a_ID a = addressID
     then a\<lparr>a_IsEnabled := isEnabled, a_Source := source, a_UpdatedAt := now\<rparr> else a) (st_addresses s)\<rparr>"

definition recordAddressEvent :: "bool \<Rightarrow> time \<Rightarrow> id \<Rightarrow> bool \<Rightarrow> EventSource \<Rightarrow> EventTrigger \<Rightarrow> Address op" where
  "recordAddressEvent inTx now addressID isEnabled source trigger =
    withinTx inTx (andThen (insertAddressEvent now addressID isEnabled source trigger) (\<lambda>_.
      andThen (modify (setAddressState now addressID isEnabled source)) (\<lambda>_. GetAddress addressID)))"

definition repoDisableAddress :: "bool \<Rightarrow> time \<Rightarrow> id \<Rightarrow> Address op" where
  "repoDisableAddress inTx now addressID = recordAddressEvent inTx now addressID False EventSourceWebUI EventTriggerUser"

definition repoDisableAddresses :: "bool \<Rightarrow> time \<Rightarrow> id list \<Rightarrow> EventSource \<Rightarrow> EventTrigger \<Rightarrow> Address list op" where
  "repoDisableAddresses inTx now addressIDs source trigger =
    (if addressIDs = [] then ret []
     else withinTx inTx (mapEach (\<lambda>addressID. recordAddressEvent True now addressID False source trigger) addressIDs))"

definition EnableAddress :: "bool \<Rightarrow> time \<Rightarrow> id \<Rightarrow> EventSource \<Rightarrow> EventTrigger \<Rightarrow> Address op" where
  "EnableAddress inTx now addressID source trigger = recordAddressEvent inTx now addressID True source trigger"

definition RefreshAddress :: "bool \<Rightarrow> time \<Rightarrow> id \<Rightarrow> EventSource \<Rightarrow> EventTrigger \<Rightarrow> Address op" where
  "RefreshAddress inTx now addressID source trigger = EnableAddress inTx now addressID source trigger"

text \<open>The join of the enabled addresses with their devices.\<close>

definition enabledRow :: "store \<Rightarrow> Address \<Rightarrow> IPEntry list" where
  "enabledRow s a = (if a_IsEnabled a
     then map (\<lambda>d. \<lparr>ie_IP = a_IP a, ie_DeviceID = a_DeviceID a, ie_AddressID = a_ID a, ie_UserID = d_OwnerID d\<rparr>)
       (filter (\<lambda>d. d_ID d = a_DeviceID a \<and> d_DeletedAt d = None) (st_devices s)) else [])"

definition GetEnabledIPEntries :: "IPEntry list op" where
  "GetEnabledIPEntries = get (\<lambda>s. concat (map (enabledRow s) (byUpdatedDesc (st_addresses s))))"

definition GetEnabledAddressesForDevice :: "id \<Rightarrow> Address list op" where
  "GetEnabledAddressesForDevice deviceID =
    get (\<lambda>s. byUpdatedDesc (filter (\<lambda>a. a_DeviceID a = deviceID \<and> a_IsEnabled a) (st_addresses s)))"

end
