(* ===== verification/Devices.thy ===== *)
theory Devices
  imports Device_Repo
begin

text \<open>
  The device service (\<open>src/internal/device/service.go\<close>, \<open>addresses.go\<close>): registration of addresses by
  heartbeat or by hand, disabling, enabling and deleting devices, API keys, and the reaction to a
  deleted user.

  The invariant \<open>deviceInv\<close> says, beyond the constraints of the schema, what the policy cache relies
  on: an enabled address belongs to a device that is neither deleted nor disabled, every stored
  address is the canonical text of an address that devices may register, and an API key belongs to a
  device that is not deleted.
\<close>

section \<open>Operations\<close>

definition liftE :: "('a \<Rightarrow> err) \<Rightarrow> ('a, 'b) result \<Rightarrow> 'b op" where
  "liftE wrap r s = (case r of Inl e \<Rightarrow> throw (wrap e) s | Inr x \<Rightarrow> ret x s)"

definition Authenticate :: "(string \<Rightarrow> string) \<Rightarrow> string \<Rightarrow> id op" where
  "Authenticate hash rawKey =
    (if length rawKey < length APIKeyPrefix \<or> take (length APIKeyPrefix) rawKey \<noteq> APIKeyPrefix
     then throw (DeviceErr ErrInvalidAPIKey)
     else andThen (GetDeviceByAPIKeyHash (HashAPIKey hash rawKey)) (\<lambda>device. ret (d_ID (dv_row device))))"

record CreateDeviceInput =
  cdi_Name :: string
  cdi_OwnerID :: "id option"
  cdi_Description :: "string option"
  cdi_Icon :: "string option"
  cdi_GenerateAPIKey :: bool

definition CreateDeviceWithOptions ::
  "(string \<Rightarrow> string) \<Rightarrow> string option \<Rightarrow> time \<Rightarrow> id \<Rightarrow> CreateDeviceInput \<Rightarrow> (Device \<times> string) op" where
  "CreateDeviceWithOptions hash random now caller input =
    (let ownerID = (case cdi_OwnerID input of None \<Rightarrow> caller | Some o' \<Rightarrow> o') in
     withinTx False (andThen (repoCreateDevice now \<lparr>cdp_Name = cdi_Name input, cdp_OwnerID = ownerID,
         cdp_Description = cdi_Description input, cdp_Icon = cdi_Icon input\<rparr>) (\<lambda>createdDevice.
       if cdi_GenerateAPIKey input
       then andThen (liftE (\<lambda>e. e) (GenerateAPIKey hash random)) (\<lambda>(rawKey, keyHash, keyPrefix).
         andThen (UpsertAPIKey now (d_ID (dv_row createdDevice)) keyHash keyPrefix) (\<lambda>_.
         andThen (repoGetDevice (d_ID (dv_row createdDevice))) (\<lambda>device. ret (device, rawKey))))
       else ret (createdDevice, []))))"

definition CreateDevice :: "time \<Rightarrow> id \<Rightarrow> string \<Rightarrow> id option \<Rightarrow> Device op" where
  "CreateDevice now caller name requestedOwnerID =
    andThen (CreateDeviceWithOptions (\<lambda>k. k) None now caller \<lparr>cdi_Name = name, cdi_OwnerID = requestedOwnerID,
      cdi_Description = None, cdi_Icon = None, cdi_GenerateAPIKey = False\<rparr>) (\<lambda>(device, _). ret device)"

definition disabledNotices :: "time \<Rightarrow> Address list \<Rightarrow> notice list" where
  "disabledNotices now as = map (\<lambda>a. AddressNotice (NewAddressEvent now a EventTypeAddressDisabled)) as"

definition disableEnabled :: "time \<Rightarrow> id \<Rightarrow> Address list op" where
  "disableEnabled now deviceID = andThen (GetEnabledAddressesForDevice deviceID) (\<lambda>addresses.
     repoDisableAddresses True now (map a_ID addresses) EventSourceWebUI EventTriggerUser)"

text \<open>Deleting the API key of a device that has none is not an error.\<close>

definition deleteKeyIfAny :: "id \<Rightarrow> unit op" where
  "deleteKeyIfAny deviceID s = (case repoDeleteAPIKey deviceID s of
     (Inl e, s') \<Rightarrow> if e = DeviceErr ErrNoAPIKey then (Inr (), s') else (Inl e, s') | r \<Rightarrow> r)"

definition DeleteDevice :: "bool \<Rightarrow> time \<Rightarrow> id \<Rightarrow> Address list svc" where
  "DeleteDevice inTx now deviceID =
    notifying (withinTx inTx (andThen (repoDeleteDevice now deviceID) (\<lambda>_.
      andThen (disableEnabled now deviceID) (\<lambda>disabledAddresses.
      andThen (deleteKeyIfAny deviceID) (\<lambda>_. ret disabledAddresses))))) (disabledNotices now)"

definition DisableDevice :: "time \<Rightarrow> id \<Rightarrow> (Device \<times> Address list) svc" where
  "DisableDevice now deviceID =
    notifying (withinTx False (andThen (repoGetDevice deviceID) (\<lambda>_.
      andThen (disableEnabled now deviceID) (\<lambda>disabledAddresses.
      andThen (SetDeviceDisabled now deviceID True) (\<lambda>_.
      andThen (repoGetDevice deviceID) (\<lambda>device. ret (device, disabledAddresses))))))) (\<lambda>(_, as). disabledNotices now as)"

definition EnableDevice :: "time \<Rightarrow> id \<Rightarrow> Device op" where
  "EnableDevice now deviceID =
    withinTx False (andThen (SetDeviceDisabled now deviceID False) (\<lambda>_. repoGetDevice deviceID))"

record UpdateDeviceInput =
  udi_Name :: "string option"
  udi_Description :: patch
  udi_Icon :: patch
  udi_OwnerID :: "id option"

definition ownershipChanged :: "UpdateDeviceInput \<Rightarrow> DeviceRow \<Rightarrow> bool" where
  "ownershipChanged input d \<longleftrightarrow> (case udi_OwnerID input of None \<Rightarrow> False | Some u \<Rightarrow> u \<noteq> d_OwnerID d)"

definition UpdateDevice :: "time \<Rightarrow> id \<Rightarrow> UpdateDeviceInput \<Rightarrow> (Device \<times> bool) svc" where
  "UpdateDevice now deviceID input =
    notifying (andThen (repoGetDevice deviceID) (\<lambda>device.
      andThen (liftE DeviceErr (Update (dv_row device) (udi_Name input) (udi_Description input) (udi_Icon input) (udi_OwnerID input))) (\<lambda>row.
      andThen (repoUpdateDevice now row) (\<lambda>updated. ret (updated, ownershipChanged input (dv_row device))))))
     (\<lambda>(_, changed). if changed then [DeviceNotice \<lparr>dev_Type = DeviceEventTypeOwnershipChanged,
        dev_DeviceID = deviceID, dev_OccurredAt = now\<rparr>] else [])"

definition RegenerateAPIKey :: "(string \<Rightarrow> string) \<Rightarrow> string option \<Rightarrow> time \<Rightarrow> id \<Rightarrow> (Device \<times> string) op" where
  "RegenerateAPIKey hash random now deviceID =
    andThen (liftE (\<lambda>e. e) (GenerateAPIKey hash random)) (\<lambda>(rawKey, keyHash, keyPrefix).
      withinTx False (andThen (repoGetDevice deviceID) (\<lambda>_.
        andThen (UpsertAPIKey now deviceID keyHash keyPrefix) (\<lambda>_.
        andThen (repoGetDevice deviceID) (\<lambda>device. ret (device, rawKey))))))"

definition DeleteAPIKey :: "id \<Rightarrow> unit op" where
  "DeleteAPIKey deviceID = withinTx False (andThen (repoGetDevice deviceID) (\<lambda>_. repoDeleteAPIKey deviceID))"

text \<open>The error of one deletion is logged and the loop goes on, inside the same transaction.\<close>

fun deleteOwned :: "time \<Rightarrow> id list \<Rightarrow> store \<Rightarrow> notice list \<times> store" where
  "deleteOwned now [] s = ([], s)"
| "deleteOwned now (i # is) s = (case DeleteDevice True now i s of (_, ns, s') \<Rightarrow>
     (case deleteOwned now is s' of (ns', s'') \<Rightarrow> (ns @ ns', s'')))"

definition device_OnUserEvent :: "time \<Rightarrow> UserEvent \<Rightarrow> store \<Rightarrow> notice list \<times> store" where
  "device_OnUserEvent now event s =
    (if uev_Type event \<noteq> EventTypeUserDeleted then ([], s)
     else case GetDeviceIDsByOwner (uev_UserID event) s of
       (Inl _, s') \<Rightarrow> ([], s') | (Inr deviceIDs, s') \<Rightarrow> deleteOwned now deviceIDs s')"

definition registerTx ::
  "time \<Rightarrow> CreateAddressParams \<Rightarrow> EventSource \<Rightarrow> EventTrigger \<Rightarrow> (Address \<times> AddressEventType) op" where
  "registerTx now params source trigger =
    andThen (IsDeviceDisabled (cap_DeviceID params)) (\<lambda>disabled.
      if disabled then throw (DeviceErr ErrDeviceDisabled)
      else (\<lambda>s. case GetAddressForDeviceByIP (cap_DeviceID params) (cap_IP params) s of
        (Inl e, s') \<Rightarrow>
          if e = DeviceErr ErrAddressNotFound
          then andThen (CreateAddress True now params source trigger) (\<lambda>a. ret (a, EventTypeAddressCreated)) s'
          else throw e s'
      | (Inr existing, s') \<Rightarrow>
          if \<not> a_IsEnabled existing
          then andThen (EnableAddress True now (a_ID existing) source trigger) (\<lambda>a. ret (a, EventTypeAddressEnabled)) s'
          else andThen (RefreshAddress True now (a_ID existing) source trigger) (\<lambda>a. ret (a, EventTypeAddressRefreshed)) s'))"

definition RegisterAddressActivity ::
  "addr \<Rightarrow> time \<Rightarrow> id \<Rightarrow> string \<Rightarrow> EventSource \<Rightarrow> EventTrigger \<Rightarrow> (Address \<times> AddressEventType) svc" where
  "RegisterAddressActivity trustedProxy now deviceID inputIP source trigger =
    notifying (andThen (liftE DeviceErr (NewCreateAddressParams deviceID inputIP trustedProxy)) (\<lambda>params.
      withinTx False (registerTx now params source trigger)))
     (\<lambda>(address, eventType). [AddressNotice (NewAddressEvent now address eventType)])"

definition DisableAddress :: "time \<Rightarrow> id \<Rightarrow> id \<Rightarrow> Address svc" where
  "DisableAddress now deviceID addressID =
    notifying (withinTx False (andThen (repoGetDevice deviceID) (\<lambda>_.
      andThen (CheckAddressOwnership deviceID addressID) (\<lambda>_. repoDisableAddress True now addressID))))
     (\<lambda>a. disabledNotices now [a])"

definition DisableAddresses :: "time \<Rightarrow> id list \<Rightarrow> EventSource \<Rightarrow> EventTrigger \<Rightarrow> Address list svc" where
  "DisableAddresses now addressIDs source trigger =
    notifying (repoDisableAddresses False now addressIDs source trigger) (disabledNotices now)"

section \<open>The invariant\<close>

definition liveDevice :: "store \<Rightarrow> id \<Rightarrow> bool" where
  "liveDevice s i \<longleftrightarrow> (\<exists>d \<in> set (st_devices s). d_ID d = i \<and> d_DeletedAt d = None \<and> d_DisabledAt d = None)"

definition presentDevice :: "store \<Rightarrow> id \<Rightarrow> bool" where
  "presentDevice s i \<longleftrightarrow> (\<exists>d \<in> set (st_devices s). d_ID d = i \<and> d_DeletedAt d = None)"

text \<open>An address that devices may register: valid, plain, and of none of the special kinds.\<close>

definition registrable :: "addr \<Rightarrow> bool" where
  "registrable a \<longleftrightarrow> IsValid a \<and> Unmap a = a \<and> \<not> IsLoopback a \<and> \<not> IsMulticast a \<and> \<not> IsUnspecified a \<and> \<not> IsLinkLocalUnicast a"

definition storedIP :: "string \<Rightarrow> bool" where
  "storedIP t \<longleftrightarrow> (\<exists>a. ParseAddr t = Some a \<and> AddrString a = t \<and> registrable a)"

definition namesInv :: "DeviceRow list \<Rightarrow> bool" where
  "namesInv ds \<longleftrightarrow> distinct (map (\<lambda>d. (d_Name d, d_OwnerID d)) (filter (\<lambda>d. d_DeletedAt d = None) ds))"

definition deviceInv :: "store \<Rightarrow> bool" where
  "deviceInv s \<longleftrightarrow>
     distinct (map d_ID (st_devices s)) \<and> namesInv (st_devices s) \<and>
     (\<forall>d \<in> set (st_devices s). d_OwnerID d \<in> u_ID ` set (st_users s)) \<and>
     distinct (map a_ID (st_addresses s)) \<and> distinct (map (\<lambda>a. (a_DeviceID a, a_IP a)) (st_addresses s)) \<and>
     (\<forall>a \<in> set (st_addresses s). a_DeviceID a \<in> d_ID ` set (st_devices s) \<and> storedIP (a_IP a) \<and>
        (a_IsEnabled a \<longrightarrow> liveDevice s (a_DeviceID a))) \<and>
     distinct (map k_DeviceID (st_apiKeys s)) \<and> distinct (map k_Hash (st_apiKeys s)) \<and>
     (\<forall>k \<in> set (st_apiKeys s). presentDevice s (k_DeviceID k))"

lemma activeDevice_Some:
  assumes "activeDevice s i = Some d"
  shows "d \<in> set (st_devices s)" "d_ID d = i" "d_DeletedAt d = None"
  using find_SomeD[OF assms[unfolded activeDevice_def]] by auto

lemma activeDevice_None: "activeDevice s i = None \<longleftrightarrow> \<not> presentDevice s i"
  by (auto simp: activeDevice_def find_None_iff_ex presentDevice_def)

lemma live_present: "liveDevice s i \<Longrightarrow> presentDevice s i"
  by (auto simp: liveDevice_def presentDevice_def)

lemma deviceInvD:
  assumes "deviceInv s"
  shows "distinct (map d_ID (st_devices s))" "distinct (map a_ID (st_addresses s))"
    "a \<in> set (st_addresses s) \<Longrightarrow> storedIP (a_IP a)"
    "a \<in> set (st_addresses s) \<Longrightarrow> a_IsEnabled a \<Longrightarrow> liveDevice s (a_DeviceID a)"
    "k \<in> set (st_apiKeys s) \<Longrightarrow> presentDevice s (k_DeviceID k)"
    "distinct (map k_Hash (st_apiKeys s))" "distinct (map k_DeviceID (st_apiKeys s))"
  using assms by (auto simp: deviceInv_def)

section \<open>How the store changes\<close>

text \<open>The addresses change state only.\<close>

lemma deviceInv_states:
  assumes "deviceInv s"
    and f: "\<And>a. a_ID (f a) = a_ID a \<and> a_DeviceID (f a) = a_DeviceID a \<and> a_IP (f a) = a_IP a"
    and en: "\<And>a. a \<in> set (st_addresses s) \<Longrightarrow> a_IsEnabled (f a) \<Longrightarrow> a_IsEnabled a \<or> liveDevice s (a_DeviceID a)"
  shows "deviceInv (s\<lparr>st_addresses := map f (st_addresses s), st_addressEvents := evs\<rparr>)"
proof -
  have "liveDevice (s\<lparr>st_addresses := as, st_addressEvents := evs\<rparr>) i = liveDevice s i"
    "presentDevice (s\<lparr>st_addresses := as, st_addressEvents := evs\<rparr>) i = presentDevice s i" for as i
    by (simp_all add: liveDevice_def presentDevice_def)
  moreover have "map a_ID (map f (st_addresses s)) = map a_ID (st_addresses s)"
    "map (\<lambda>a. (a_DeviceID a, a_IP a)) (map f (st_addresses s)) = map (\<lambda>a. (a_DeviceID a, a_IP a)) (st_addresses s)"
    using f by (simp_all add: comp_def)
  ultimately show ?thesis using assms(1) f en unfolding deviceInv_def by (fastforce simp del: map_map)
qed

text \<open>The rows of one device change.\<close>

lemma updateActive_sel [simp]:
  "st_addresses (updateActive i g s) = st_addresses s" "st_apiKeys (updateActive i g s) = st_apiKeys s"
  "st_users (updateActive i g s) = st_users s" "st_addressEvents (updateActive i g s) = st_addressEvents s"
  by (simp_all add: updateActive_def)

lemma updateActive_devices:
  "st_devices (updateActive i g s) = map (\<lambda>d. if d_ID d = i \<and> d_DeletedAt d = None then g d else d) (st_devices s)"
  by (simp add: updateActive_def)

lemma updateActive_mem:
  "d \<in> set (st_devices s) \<Longrightarrow> d_ID d = i \<Longrightarrow> d_DeletedAt d = None \<Longrightarrow> g d \<in> set (st_devices (updateActive i g s))"
  by (force simp: updateActive_devices)

lemma updateActive_ids:
  "(\<And>d. d_ID (g d) = d_ID d) \<Longrightarrow> map d_ID (st_devices (updateActive i g s)) = map d_ID (st_devices s)"
  by (auto simp: updateActive_devices)

lemma updateActive_other:
  assumes "j \<noteq> i" "\<And>d. d_ID (g d) = d_ID d"
  shows "liveDevice (updateActive i g s) j = liveDevice s j" "presentDevice (updateActive i g s) j = presentDevice s j"
  using assms by (auto simp: liveDevice_def presentDevice_def updateActive_devices)

lemma deviceInv_updateActive:
  assumes inv: "deviceInv s" and id: "\<And>d. d_ID (g d) = d_ID d"
    and names: "namesInv (st_devices (updateActive i g s))"
    and owner: "\<And>d. d \<in> set (st_devices s) \<Longrightarrow> d_OwnerID (g d) \<in> u_ID ` set (st_users s)"
    and live: "\<And>a. a \<in> set (st_addresses s) \<Longrightarrow> a_DeviceID a = i \<Longrightarrow> a_IsEnabled a \<Longrightarrow> liveDevice (updateActive i g s) i"
    and keys: "\<And>k. k \<in> set (st_apiKeys s) \<Longrightarrow> k_DeviceID k = i \<Longrightarrow> presentDevice (updateActive i g s) i"
  shows "deviceInv (updateActive i g s)"
proof -
  have ids: "map d_ID (st_devices (updateActive i g s)) = map d_ID (st_devices s)" using id by (rule updateActive_ids)
  then have sets: "d_ID ` set (st_devices (updateActive i g s)) = d_ID ` set (st_devices s)" by (metis set_map)
  have own: "\<forall>d \<in> set (st_devices (updateActive i g s)). d_OwnerID d \<in> u_ID ` set (st_users s)"
    using inv owner by (auto simp: updateActive_devices deviceInv_def)
  have addr: "liveDevice (updateActive i g s) (a_DeviceID a)" if h: "a \<in> set (st_addresses s)" "a_IsEnabled a" for a
    using live[OF h(1) _ h(2)] deviceInvD(4)[OF inv h] updateActive_other(1)[OF _ id] by metis
  have key: "presentDevice (updateActive i g s) (k_DeviceID k)" if h: "k \<in> set (st_apiKeys s)" for k
    using keys[OF h] deviceInvD(5)[OF inv h] updateActive_other(2)[OF _ id] by metis
  show ?thesis using inv ids sets own addr key names unfolding deviceInv_def by simp
qed

text \<open>One state change of an address, with its event.\<close>

definition inState :: "time \<Rightarrow> bool \<Rightarrow> EventSource \<Rightarrow> Address \<Rightarrow> Address" where
  "inState now en source a = a\<lparr>a_IsEnabled := en, a_Source := source, a_UpdatedAt := now\<rparr>"

lemma inState_simps [simp]:
  "a_ID (inState now en source a) = a_ID a" "a_DeviceID (inState now en source a) = a_DeviceID a"
  "a_IP (inState now en source a) = a_IP a" "a_IsEnabled (inState now en source a) = en"
  by (simp_all add: inState_def)

definition withState :: "time \<Rightarrow> id set \<Rightarrow> bool \<Rightarrow> EventSource \<Rightarrow> Address \<Rightarrow> Address" where
  "withState now is en source a = (if a_ID a \<in> is then inState now en source a else a)"

lemma withState_simps [simp]:
  "a_ID (withState now is en source a) = a_ID a" "a_DeviceID (withState now is en source a) = a_DeviceID a"
  "a_IP (withState now is en source a) = a_IP a"
  "a_IsEnabled (withState now is en source a) = (if a_ID a \<in> is then en else a_IsEnabled a)"
  by (simp_all add: withState_def)

lemma withState_withState:
  "withState now is en source (withState now {i} en source a) = withState now (insert i is) en source a"
  by (simp add: withState_def inState_def)

lemma recordAddressEvent_missing:
  "i \<notin> a_ID ` set (st_addresses s) \<Longrightarrow> recordAddressEvent b now i en source trigger s = (Inl DBError, s)"
  by (simp add: recordAddressEvent_def insertAddressEvent_def andThen_def withinTx_def)

definition eventRow :: "time \<Rightarrow> id \<Rightarrow> bool \<Rightarrow> EventSource \<Rightarrow> EventTrigger \<Rightarrow> AddressEventRow" where
  "eventRow now i en source trigger = \<lparr>ae_AddressID = i, ae_IsEnabled = en, ae_Source = source, ae_Trigger = trigger, ae_CreatedAt = now\<rparr>"

lemma recordAddressEvent_found:
  assumes "i \<in> a_ID ` set (st_addresses s)"
  shows "\<exists>a \<in> set (st_addresses s). a_ID a = i \<and> recordAddressEvent b now i en source trigger s =
    (Inr (inState now en source a), s\<lparr>st_addresses := map (withState now {i} en source) (st_addresses s),
       st_addressEvents := st_addressEvents s @ [eventRow now i en source trigger]\<rparr>)"
proof -
  let ?t = "s\<lparr>st_addressEvents := st_addressEvents s @ [eventRow now i en source trigger]\<rparr>"
  let ?u = "setAddressState now i en source ?t"
  obtain a where a: "List.find (\<lambda>a. a_ID a = i) (st_addresses s) = Some a"
    using assms find_None_iff_ex[of "\<lambda>a. a_ID a = i" "st_addresses s"] by fastforce
  have u: "?u = s\<lparr>st_addresses := map (withState now {i} en source) (st_addresses s),
      st_addressEvents := st_addressEvents s @ [eventRow now i en source trigger]\<rparr>"
    by (simp add: setAddressState_def withState_def inState_def cong: if_cong)
  then have "GetAddress i ?u = (Inr (inState now en source a), ?u)"
    using a find_SomeD[OF a] by (simp add: GetAddress_def find_map_eq withState_def)
  then have "recordAddressEvent b now i en source trigger s = (Inr (inState now en source a), ?u)"
    using assms by (simp add: recordAddressEvent_def insertAddressEvent_def andThen_def withinTx_def eventRow_def)
  then show ?thesis using u find_SomeD[OF a] by metis
qed

lemma mapEach_disable:
  assumes "set is \<subseteq> a_ID ` set (st_addresses s)"
  shows "\<exists>as evs. mapEach (\<lambda>i. recordAddressEvent True now i False source trigger) is s =
      (Inr as, s\<lparr>st_addresses := map (withState now (set is) False source) (st_addresses s),
                 st_addressEvents := st_addressEvents s @ evs\<rparr>) \<and> map a_ID as = is \<and> length evs = length is"
  using assms
proof (induction "is" arbitrary: s)
  case Nil
  have "map (withState now {} False source) (st_addresses s) = st_addresses s" by (simp add: withState_def map_idI)
  then show ?case by simp
next
  case (Cons i "is")
  let ?t = "s\<lparr>st_addresses := map (withState now {i} False source) (st_addresses s),
     st_addressEvents := st_addressEvents s @ [eventRow now i False source trigger]\<rparr>"
  obtain a where a: "a_ID a = i" "recordAddressEvent True now i False source trigger s = (Inr (inState now False source a), ?t)"
    using recordAddressEvent_found[of i s] Cons.prems by (metis list.set_intros(1) subsetD)
  have "set is \<subseteq> a_ID ` set (st_addresses ?t)" using Cons.prems by (force simp: image_image)
  from Cons.IH[OF this] obtain as evs where
    rest: "mapEach (\<lambda>i. recordAddressEvent True now i False source trigger) is ?t =
      (Inr as, ?t\<lparr>st_addresses := map (withState now (set is) False source) (st_addresses ?t),
        st_addressEvents := st_addressEvents ?t @ evs\<rparr>)" "map a_ID as = is" "length evs = length is" by blast
  then show ?case using a
    by (intro exI[of _ "inState now False source a # as"] exI[of _ "eventRow now i False source trigger # evs"])
      (simp add: andThen_def comp_def withState_withState)
qed

lemma mapEach_record_inv:
  assumes "deviceInv s"
  shows "deviceInv (snd (mapEach (\<lambda>i. recordAddressEvent True now i False source trigger) is s))"
proof -
  have "keeps deviceInv (recordAddressEvent True now i False source trigger)" for i
  proof (rule keepsI)
    fix s assume s: "deviceInv s"
    show "deviceInv (snd (recordAddressEvent True now i False source trigger s))"
    proof (cases "i \<in> a_ID ` set (st_addresses s)")
      case True
      from recordAddressEvent_found[OF this, of True now False source trigger]
      show ?thesis using deviceInv_states[OF s, of "withState now {i} False source"]
        by (auto split: if_splits)
    qed (simp add: recordAddressEvent_missing s)
  qed
  then show ?thesis using assms keeps_mapEach unfolding keeps_def by metis
qed

lemma repoDisableAddresses_inv: "keeps deviceInv (repoDisableAddresses b now is source trigger)"
  using mapEach_record_inv by (auto simp: repoDisableAddresses_def keeps_def withinTx_def intro: mapEach_record_inv split: prod.splits sum.splits)
    (metis snd_conv)+

definition enabledIDs :: "store \<Rightarrow> id \<Rightarrow> id set" where
  "enabledIDs s i = a_ID ` {a \<in> set (st_addresses s). a_DeviceID a = i \<and> a_IsEnabled a}"

definition disableStore :: "time \<Rightarrow> id \<Rightarrow> AddressEventRow list \<Rightarrow> store \<Rightarrow> store" where
  "disableStore now i evs s = s\<lparr>st_addresses := map (withState now (enabledIDs s i) False EventSourceWebUI) (st_addresses s),
     st_addressEvents := st_addressEvents s @ evs\<rparr>"

lemma disableEnabled_effect:
  "\<exists>as evs. disableEnabled now i s = (Inr as, disableStore now i evs s) \<and> a_ID ` set as = enabledIDs s i"
proof -
  let ?as = "byUpdatedDesc (filter (\<lambda>a. a_DeviceID a = i \<and> a_IsEnabled a) (st_addresses s))"
  have ids: "set (map a_ID ?as) = enabledIDs s i" by (auto simp: byUpdatedDesc_def enabledIDs_def)
  show ?thesis
  proof (cases "?as = []")
    case True
    then have none: "enabledIDs s i = {}" using ids by simp
    have "map (withState now {} False EventSourceWebUI) (st_addresses s) = st_addresses s" by (simp add: withState_def map_idI)
    then have "disableEnabled now i s = (Inr [], disableStore now i [] s)" using True none
      by (simp add: disableEnabled_def GetEnabledAddressesForDevice_def repoDisableAddresses_def disableStore_def)
    then show ?thesis using none by (intro exI[of _ "[]"]) auto
  next
    case False
    have "set (map a_ID ?as) \<subseteq> a_ID ` set (st_addresses s)" by (auto simp: byUpdatedDesc_def)
    from mapEach_disable[OF this] obtain as evs where
      "mapEach (\<lambda>i. recordAddressEvent True now i False EventSourceWebUI EventTriggerUser) (map a_ID ?as) s =
        (Inr as, disableStore now i evs s)" "map a_ID as = map a_ID ?as"
      unfolding disableStore_def ids by metis
    then show ?thesis using False ids
      by (intro exI[of _ as] exI[of _ evs])
        (simp add: disableEnabled_def GetEnabledAddressesForDevice_def repoDisableAddresses_def, metis set_map)
  qed
qed

lemma disableStore_sel [simp]:
  "st_devices (disableStore now i evs s) = st_devices s" "st_apiKeys (disableStore now i evs s) = st_apiKeys s"
  "st_users (disableStore now i evs s) = st_users s"
  by (simp_all add: disableStore_def)

lemma disableStore_off: "a \<in> set (st_addresses (disableStore now i evs s)) \<Longrightarrow> a_DeviceID a = i \<Longrightarrow> \<not> a_IsEnabled a"
proof -
  assume "a \<in> set (st_addresses (disableStore now i evs s))" and i: "a_DeviceID a = i"
  then obtain x where x: "x \<in> set (st_addresses s)" "a = withState now (enabledIDs s i) False EventSourceWebUI x"
    by (auto simp: disableStore_def)
  with i show "\<not> a_IsEnabled a" by (simp add: enabledIDs_def) blast
qed

lemma disableStore_inv: "deviceInv s \<Longrightarrow> deviceInv (disableStore now i evs s)"
  unfolding disableStore_def by (rule deviceInv_states) (auto split: if_splits)

lemma disableStore_updateActive: "disableStore now j evs (updateActive i g s) = updateActive i g (disableStore now j evs s)"
  by (simp add: disableStore_def updateActive_def enabledIDs_def)

text \<open>Names stay unique.\<close>

lemma namesInv_Cons: "namesInv (d # ds) \<longleftrightarrow> namesInv ds \<and> (d_DeletedAt d = None \<longrightarrow>
    (d_Name d, d_OwnerID d) \<notin> (\<lambda>d. (d_Name d, d_OwnerID d)) ` {d \<in> set ds. d_DeletedAt d = None})"
  by (auto simp: namesInv_def)

lemma namesInv_delete:
  "namesInv ds \<Longrightarrow> namesInv (map (\<lambda>d. if d_ID d = i \<and> d_DeletedAt d = None then d\<lparr>d_DeletedAt := Some t\<rparr> else d) ds)"
  unfolding namesInv_def by (induction ds) auto

lemma namesInv_disable:
  "namesInv ds \<Longrightarrow> namesInv (map (\<lambda>d. if d_ID d = i \<and> d_DeletedAt d = None then d\<lparr>d_DisabledAt := t\<rparr> else d) ds)"
proof -
  have "map (\<lambda>d. (d_Name d, d_OwnerID d)) (filter (\<lambda>d. d_DeletedAt d = None)
      (map (\<lambda>d. if d_ID d = i \<and> d_DeletedAt d = None then d\<lparr>d_DisabledAt := t\<rparr> else d) ds)) =
    map (\<lambda>d. (d_Name d, d_OwnerID d)) (filter (\<lambda>d. d_DeletedAt d = None) ds)" for ds by (induction ds) auto
  then show "namesInv ds \<Longrightarrow> namesInv (map (\<lambda>d. if d_ID d = i \<and> d_DeletedAt d = None then d\<lparr>d_DisabledAt := t\<rparr> else d) ds)"
    unfolding namesInv_def by metis
qed

lemma namesInv_rename:
  assumes "distinct (map d_ID ds)" "namesInv ds" "\<not> nameTaken (filter (\<lambda>d. d_ID d \<noteq> i) ds) n ow"
    and g: "\<And>d. d_Name (g d) = n \<and> d_OwnerID (g d) = ow \<and> d_DeletedAt (g d) = d_DeletedAt d"
  shows "namesInv (map (\<lambda>d. if d_ID d = i \<and> d_DeletedAt d = None then g d else d) ds)"
  using assms(1-3)
proof (induction ds)
  case (Cons d ds)
  let ?f = "\<lambda>d. if d_ID d = i \<and> d_DeletedAt d = None then g d else d"
  have IH: "namesInv (map ?f ds)" using Cons by (auto simp: namesInv_def nameTaken_def split: if_splits)
  show ?case
  proof (cases "d_ID d = i \<and> d_DeletedAt d = None")
    case True
    then have other: "d_ID d' \<noteq> i" if h: "d' \<in> set ds" for d' using h Cons.prems(1) True by (metis distinct.simps(2) image_eqI list.simps(9) set_map)
    then have "map ?f ds = ds" by (simp add: map_idI)
    moreover have "(n, ow) \<notin> (\<lambda>d. (d_Name d, d_OwnerID d)) ` {d \<in> set ds. d_DeletedAt d = None}"
    proof
      assume "(n, ow) \<in> (\<lambda>d. (d_Name d, d_OwnerID d)) ` {d \<in> set ds. d_DeletedAt d = None}"
      then obtain d' where d': "d' \<in> set ds" "d_DeletedAt d' = None" "n = d_Name d'" "ow = d_OwnerID d'" by auto
      then have "d' \<in> set (filter (\<lambda>d. d_ID d \<noteq> i) (d # ds))" using other[OF d'(1)] by simp
      then show False using Cons.prems(3) d' unfolding nameTaken_def by blast
    qed
    ultimately show ?thesis using True IH g by (auto simp: namesInv_def)
  next
    case False
    let ?pair = "\<lambda>d. (d_Name d, d_OwnerID d)"
    have "?pair ` {d \<in> set (map ?f ds). d_DeletedAt d = None} \<subseteq> insert (n, ow) (?pair ` {d \<in> set ds. d_DeletedAt d = None})"
      using g by auto
    moreover have "?pair d \<noteq> (n, ow)" if h: "d_DeletedAt d = None" using h False Cons.prems(3) by (auto simp: nameTaken_def)
    moreover have "?pair d \<notin> ?pair ` {d \<in> set ds. d_DeletedAt d = None}" if h: "d_DeletedAt d = None"
      using h Cons.prems(2) by (auto simp: namesInv_def)
    ultimately have new: "?pair d \<notin> ?pair ` {d \<in> set (map ?f ds). d_DeletedAt d = None}" if h: "d_DeletedAt d = None"
      using h by (metis (no_types, lifting) insertE subsetD)
    have "map ?f (d # ds) = d # map ?f ds" using False by auto
    then show ?thesis using IH new by (simp only: namesInv_Cons) simp
  qed
qed (simp add: namesInv_def)

text \<open>API keys.\<close>

lemma deviceInv_dropKey: "deviceInv s \<Longrightarrow> deviceInv (s\<lparr>st_apiKeys := filter P (st_apiKeys s)\<rparr>)"
  by (simp add: deviceInv_def liveDevice_def presentDevice_def distinct_map_filter)

lemma deleteKeyIfAny_effect:
  "deleteKeyIfAny i s = (Inr (), s\<lparr>st_apiKeys := filter (\<lambda>k. k_DeviceID k \<noteq> i) (st_apiKeys s)\<rparr>)"
proof (cases "i \<in> k_DeviceID ` set (st_apiKeys s)")
  case False
  then have "filter (\<lambda>k. k_DeviceID k \<noteq> i) (st_apiKeys s) = st_apiKeys s" by (auto intro: filter_True)
  then show ?thesis using False by (simp add: deleteKeyIfAny_def repoDeleteAPIKey_def)
qed (simp add: deleteKeyIfAny_def repoDeleteAPIKey_def)

lemma UpsertAPIKey_inv:
  assumes "deviceInv s" "presentDevice s i"
  shows "deviceInv (snd (UpsertAPIKey now i h pre s))"
proof -
  let ?row = "\<lparr>k_DeviceID = i, k_Prefix = pre, k_Hash = h, k_CreatedAt = sqlNow now\<rparr>"
  let ?f = "\<lambda>k. if k_DeviceID k = i then ?row else k"
  have keys: "deviceInv (s\<lparr>st_apiKeys := ks\<rparr>)" if h: "distinct (map k_DeviceID ks)" "distinct (map k_Hash ks)"
    "\<And>k. k \<in> set ks \<Longrightarrow> presentDevice s (k_DeviceID k)" for ks
    using h assms(1) by (simp add: deviceInv_def liveDevice_def presentDevice_def)
  have dev: "map k_DeviceID (map ?f (st_apiKeys s)) = map k_DeviceID (st_apiKeys s)" by auto
  have hash: "distinct (map k_Hash (map ?f ks))" if hk: "distinct (map k_DeviceID ks)" "distinct (map k_Hash ks)"
    "\<not> (\<exists>k \<in> set ks. k_Hash k = h \<and> k_DeviceID k \<noteq> i)" for ks
    using hk
  proof (induction ks)
    case (Cons k ks)
    then show ?case by (auto split: if_splits; metis image_eqI)
  qed simp
  show ?thesis
  proof (cases "(\<exists>k \<in> set (st_apiKeys s). k_Hash k = h \<and> k_DeviceID k \<noteq> i) \<or> i \<notin> d_ID ` set (st_devices s)")
    case True
    then show ?thesis using assms(1) by (auto simp: UpsertAPIKey_def Let_def)
  next
    case ok: False
    show ?thesis
    proof (cases "i \<in> k_DeviceID ` set (st_apiKeys s)")
      case True
      have "deviceInv (s\<lparr>st_apiKeys := map ?f (st_apiKeys s)\<rparr>)"
      proof (rule keys)
        show "distinct (map k_DeviceID (map ?f (st_apiKeys s)))" unfolding dev using deviceInvD(7)[OF assms(1)] .
        show "distinct (map k_Hash (map ?f (st_apiKeys s)))" using ok deviceInvD(6,7)[OF assms(1)] by (intro hash) auto
      qed (use assms deviceInvD(5)[OF assms(1)] in auto)
      then show ?thesis using True ok assms(1) by (auto simp: UpsertAPIKey_def Let_def)
    next
      case False
      have "h \<notin> k_Hash ` set (st_apiKeys s)"
      proof
        assume "h \<in> k_Hash ` set (st_apiKeys s)"
        then obtain k where "k \<in> set (st_apiKeys s)" "k_Hash k = h" by auto
        then show False using ok False by force
      qed
      then have "deviceInv (s\<lparr>st_apiKeys := st_apiKeys s @ [?row]\<rparr>)"
        using False assms deviceInvD(5-7)[OF assms(1)] by (intro keys) auto
      then show ?thesis using False ok assms(1) by (auto simp: UpsertAPIKey_def Let_def)
    qed
  qed
qed

section \<open>Every operation keeps the invariant\<close>

lemma svc_keeps: "keeps I f \<Longrightarrow> I s \<Longrightarrow> I (storeAfter (notifying f ev s))"
  by (auto simp: notifying_def storeAfter_def dest: keepsD split: prod.splits sum.splits)

lemma keeps_liftE [inv_intros]: "keeps I (liftE wrap r)"
  by (auto simp: keeps_def liftE_def split: sum.splits)

lemma deleteTx_effect:
  assumes "presentDevice s i"
  shows "\<exists>as evs. andThen (repoDeleteDevice now i) (\<lambda>_. andThen (disableEnabled now i) (\<lambda>as.
      andThen (deleteKeyIfAny i) (\<lambda>_. ret as))) s =
    (Inr as, updateActive i (\<lambda>d. d\<lparr>d_DeletedAt := Some now\<rparr>)
       ((disableStore now i evs s)\<lparr>st_apiKeys := filter (\<lambda>k. k_DeviceID k \<noteq> i) (st_apiKeys s)\<rparr>)) \<and>
    a_ID ` set as = enabledIDs s i"
proof -
  let ?t = "updateActive i (\<lambda>d. d\<lparr>d_DeletedAt := Some now\<rparr>) s"
  have "enabledIDs ?t i = enabledIDs s i" by (simp add: enabledIDs_def)
  moreover obtain as evs where "disableEnabled now i ?t = (Inr as, disableStore now i evs ?t)" "a_ID ` set as = enabledIDs ?t i"
    using disableEnabled_effect by blast
  ultimately show ?thesis using assms
    by (intro exI[of _ as] exI[of _ evs])
      (simp add: andThen_def repoDeleteDevice_def activeDevice_None deleteKeyIfAny_effect disableStore_updateActive,
       simp add: updateActive_def)
qed

lemma deleteTx_missing:
  "\<not> presentDevice s i \<Longrightarrow> andThen (repoDeleteDevice now i) g s = (Inl (DeviceErr ErrDeviceNotFound), s)"
  by (simp add: andThen_def repoDeleteDevice_def activeDevice_None)

lemma delete_inv:
  assumes "deviceInv s"
  shows "deviceInv (updateActive i (\<lambda>d. d\<lparr>d_DeletedAt := Some now\<rparr>)
    ((disableStore now i evs s)\<lparr>st_apiKeys := filter (\<lambda>k. k_DeviceID k \<noteq> i) (st_apiKeys s)\<rparr>))"
    (is "deviceInv (updateActive i ?g ?t)")
proof (rule deviceInv_updateActive)
  show "deviceInv ?t" using deviceInv_dropKey[OF disableStore_inv[OF assms]] by simp
  show "namesInv (st_devices (updateActive i ?g ?t))"
    using assms namesInv_delete by (simp add: updateActive_devices deviceInv_def)
  show "d_OwnerID (?g d) \<in> u_ID ` set (st_users ?t)" if "d \<in> set (st_devices ?t)" for d
    using that assms by (simp add: deviceInv_def)
  show "liveDevice (updateActive i ?g ?t) i" if "a \<in> set (st_addresses ?t)" "a_DeviceID a = i" "a_IsEnabled a" for a
    using that disableStore_off[of a now i evs s] by simp
qed auto

lemma deleteTx_keeps:
  "keeps deviceInv (andThen (repoDeleteDevice now i) (\<lambda>_. andThen (disableEnabled now i) (\<lambda>as.
      andThen (deleteKeyIfAny i) (\<lambda>_. ret as))))"
proof (rule keepsI)
  fix s assume s: "deviceInv s"
  show "deviceInv (snd (andThen (repoDeleteDevice now i) (\<lambda>_. andThen (disableEnabled now i) (\<lambda>as.
      andThen (deleteKeyIfAny i) (\<lambda>_. ret as))) s))"
  proof (cases "presentDevice s i")
    case True
    from deleteTx_effect[OF this, of now] show ?thesis using delete_inv[OF s] by (elim exE conjE) simp
  qed (simp add: deleteTx_missing s)
qed

lemma setDisabled_inv:
  assumes "deviceInv s" "\<And>a. a \<in> set (st_addresses s) \<Longrightarrow> a_DeviceID a = i \<Longrightarrow> t \<noteq> None \<Longrightarrow> \<not> a_IsEnabled a"
  shows "deviceInv (updateActive i (\<lambda>d. d\<lparr>d_DisabledAt := t\<rparr>) s)" (is "deviceInv (updateActive i ?g s)")
proof (rule deviceInv_updateActive[OF assms(1)])
  show "namesInv (st_devices (updateActive i ?g s))"
    using assms namesInv_disable by (simp add: updateActive_devices deviceInv_def)
  show "d_OwnerID (?g d) \<in> u_ID ` set (st_users s)" if "d \<in> set (st_devices s)" for d
    using that assms by (simp add: deviceInv_def)
  show "liveDevice (updateActive i ?g s) i" if h: "a \<in> set (st_addresses s)" "a_DeviceID a = i" "a_IsEnabled a" for a
  proof -
    have "t = None" using assms(2)[OF h(1,2)] h(3) by blast
    moreover have "presentDevice s i" using deviceInvD(4)[OF assms(1) h(1,3)] h(2) live_present by simp
    then obtain d where "d \<in> set (st_devices s)" "d_ID d = i" "d_DeletedAt d = None" by (auto simp: presentDevice_def)
    ultimately show ?thesis using updateActive_mem[of d s i ?g] by (auto simp: liveDevice_def intro!: bexI[of _ "?g d"])
  qed
  show "presentDevice (updateActive i ?g s) i" if h: "k \<in> set (st_apiKeys s)" "k_DeviceID k = i" for k
  proof -
    obtain d where "d \<in> set (st_devices s)" "d_ID d = i" "d_DeletedAt d = None"
      using deviceInvD(5)[OF assms(1) h(1)] h(2) by (auto simp: presentDevice_def)
    then show ?thesis using updateActive_mem[of d s i ?g] by (auto simp: presentDevice_def intro!: bexI[of _ "?g d"])
  qed
qed simp

lemma repoGetDevice_snd [simp]: "snd (repoGetDevice i s) = s"
  by (simp add: repoGetDevice_def split: option.splits)

lemma repoGetDevice_Inr: "repoGetDevice i s = (Inr d, s') \<longleftrightarrow> s' = s \<and> (\<exists>row. activeDevice s i = Some row \<and> d = withKey s row)"
  by (auto simp: repoGetDevice_def split: option.splits)

lemma keeps_readonly: "(\<And>s. snd (f s) = s) \<Longrightarrow> keeps I f"
  by (simp add: keeps_def)

lemma keeps_repoGetDevice [inv_intros]: "keeps I (repoGetDevice i)"
  by (rule keeps_readonly) simp

lemma disableTx_keeps:
  "keeps deviceInv (andThen (repoGetDevice i) (\<lambda>_. andThen (disableEnabled now i) (\<lambda>as.
     andThen (SetDeviceDisabled now i True) (\<lambda>_. andThen (repoGetDevice i) (\<lambda>device. ret (device, as))))))"
    (is "keeps deviceInv ?f")
proof (rule keepsI)
  fix s assume s: "deviceInv s"
  obtain as evs where dis: "disableEnabled now i s = (Inr as, disableStore now i evs s)"
    using disableEnabled_effect by blast
  have inv: "deviceInv (updateActive i (\<lambda>d. d\<lparr>d_DisabledAt := Some now\<rparr>) (disableStore now i evs s))"
    by (rule setDisabled_inv[OF disableStore_inv[OF s]]) (auto dest: disableStore_off)
  show "deviceInv (snd (?f s))"
    using s dis inv disableStore_inv[OF s] by (auto simp: andThen_def SetDeviceDisabled_def repoGetDevice_def split: option.splits)
qed

lemma SetDeviceDisabled_off_keeps [inv_intros]: "keeps deviceInv (SetDeviceDisabled now i False)"
  using setDisabled_inv by (auto simp: keeps_def SetDeviceDisabled_def)

lemma repoDeleteAPIKey_keeps [inv_intros]: "keeps deviceInv (repoDeleteAPIKey i)"
  using deviceInv_dropKey by (auto simp: keeps_def repoDeleteAPIKey_def)

lemma repoCreateDevice_inv:
  assumes "deviceInv s"
  shows "deviceInv (snd (repoCreateDevice now params s))"
proof -
  let ?new = "nextID (map d_ID (st_devices s))"
  have "deviceInv (s\<lparr>st_devices := st_devices s @ [row]\<rparr>)" if h: "d_ID row = ?new" "d_OwnerID row \<in> u_ID ` set (st_users s)"
    "d_DeletedAt row = None" "\<not> nameTaken (st_devices s) (d_Name row) (d_OwnerID row)" for row
  proof -
    have "namesInv (st_devices s @ [row])"
      using assms h(3,4) by (auto simp: deviceInv_def namesInv_def nameTaken_def)
    moreover have "liveDevice s i \<Longrightarrow> liveDevice (s\<lparr>st_devices := st_devices s @ [row]\<rparr>) i"
      "presentDevice s i \<Longrightarrow> presentDevice (s\<lparr>st_devices := st_devices s @ [row]\<rparr>) i" for i
      by (auto simp: liveDevice_def presentDevice_def)
    ultimately show ?thesis using assms h nextID_fresh[of "map d_ID (st_devices s)"] by (auto simp: deviceInv_def)
  qed
  then show ?thesis using assms by (auto simp: repoCreateDevice_def Let_def)
qed

lemma repoCreateDevice_present:
  "repoCreateDevice now params s = (Inr d, s') \<Longrightarrow> presentDevice s' (d_ID (dv_row d))"
  by (auto simp: repoCreateDevice_def Let_def presentDevice_def split: if_splits)

lemma keeps_snd: "(\<And>s. I s \<Longrightarrow> I (snd (f s))) \<Longrightarrow> (\<And>s x s'. I s \<Longrightarrow> f s = (Inr x, s') \<Longrightarrow> I s' \<Longrightarrow> I (snd (g x s'))) \<Longrightarrow> keeps I (andThen f g)"
proof (rule keepsI)
  fix s assume f: "\<And>s. I s \<Longrightarrow> I (snd (f s))" and g: "\<And>s x s'. I s \<Longrightarrow> f s = (Inr x, s') \<Longrightarrow> I s' \<Longrightarrow> I (snd (g x s'))"
    and s: "I s"
  show "I (snd (andThen f g s))"
    using f[OF s] g[OF s] by (cases rule: andThen_cases[of f s g]) auto
qed

lemma UpsertAPIKey_present: "UpsertAPIKey now i h pre s = (r, s') \<Longrightarrow> presentDevice s' j = presentDevice s j"
  by (auto simp: UpsertAPIKey_def Let_def presentDevice_def split: if_splits)

lemma CreateDeviceWithOptions_keeps: "keeps deviceInv (CreateDeviceWithOptions hash random now caller input)"
  unfolding CreateDeviceWithOptions_def Let_def
proof (intro keeps_withinTx keeps_snd)
  fix s x t assume c: "repoCreateDevice now \<lparr>cdp_Name = cdi_Name input,
      cdp_OwnerID = case cdi_OwnerID input of None \<Rightarrow> caller | Some o' \<Rightarrow> o',
      cdp_Description = cdi_Description input, cdp_Icon = cdi_Icon input\<rparr> s = (Inr x, t)" and t: "deviceInv t"
  note p = repoCreateDevice_present[OF c]
  have "deviceInv (snd (andThen (UpsertAPIKey now (d_ID (dv_row x)) kh kp) (\<lambda>_. andThen (repoGetDevice (d_ID (dv_row x))) (\<lambda>device. ret (device, rk))) t))"
    for kh kp rk
    using UpsertAPIKey_inv[OF t p, of now kh kp]
    by (cases "UpsertAPIKey now (d_ID (dv_row x)) kh kp t"; cases "fst (UpsertAPIKey now (d_ID (dv_row x)) kh kp t)")
      (auto simp: andThen_def repoGetDevice_def split: option.splits)
  then show "deviceInv (snd ((if cdi_GenerateAPIKey input
       then andThen (liftE (\<lambda>e. e) (GenerateAPIKey hash random)) (\<lambda>(rawKey, keyHash, keyPrefix).
         andThen (UpsertAPIKey now (d_ID (dv_row x)) keyHash keyPrefix) (\<lambda>_.
         andThen (repoGetDevice (d_ID (dv_row x))) (\<lambda>device. ret (device, rawKey))))
       else ret (x, [])) t))"
    using t by (cases "GenerateAPIKey hash random") (auto simp: liftE_def andThen_def[of "liftE _ _"] split: prod.splits)
qed (rule repoCreateDevice_inv)

lemma RegenerateAPIKey_keeps: "keeps deviceInv (RegenerateAPIKey hash random now i)"
  unfolding RegenerateAPIKey_def
proof (intro keeps_andThen keeps_liftE, clarify, intro keeps_withinTx keeps_snd)
  fix rk kh kp s d t assume "deviceInv s" "repoGetDevice i s = (Inr d, t)"
  then have t: "deviceInv t" "presentDevice t i"
    by (auto simp: repoGetDevice_Inr presentDevice_def dest: activeDevice_Some)
  show "deviceInv (snd (andThen (UpsertAPIKey now i kh kp) (\<lambda>_. andThen (repoGetDevice i) (\<lambda>device. ret (device, rk))) t))"
    using UpsertAPIKey_inv[OF t, of now kh kp]
    by (cases "UpsertAPIKey now i kh kp t"; cases "fst (UpsertAPIKey now i kh kp t)")
      (auto simp: andThen_def repoGetDevice_def split: option.splits)
qed simp

lemma repoUpdateDevice_keeps [inv_intros]: "keeps deviceInv (repoUpdateDevice now row)"
proof (rule keepsI)
  fix s assume s: "deviceInv s"
  let ?i = "d_ID row"
  let ?g = "\<lambda>d. d\<lparr>d_Name := d_Name row, d_Description := d_Description row, d_Icon := d_Icon row,
     d_OwnerID := d_OwnerID row, d_UpdatedAt := sqlNow now\<rparr>"
  have "deviceInv (updateActive ?i ?g s)"
    if h: "\<not> nameTaken (filter (\<lambda>d. d_ID d \<noteq> ?i) (st_devices s)) (d_Name row) (d_OwnerID row)"
      "d_OwnerID row \<in> u_ID ` set (st_users s)"
  proof (rule deviceInv_updateActive[OF s])
    show "namesInv (st_devices (updateActive ?i ?g s))" unfolding updateActive_devices
      using s h(1) by (intro namesInv_rename) (auto simp: deviceInv_def)
    show "liveDevice (updateActive ?i ?g s) ?i" if k: "a \<in> set (st_addresses s)" "a_DeviceID a = ?i" "a_IsEnabled a" for a
    proof -
      obtain d where "d \<in> set (st_devices s)" "d_ID d = ?i" "d_DeletedAt d = None" "d_DisabledAt d = None"
        using deviceInvD(4)[OF s k(1,3)] k(2) by (auto simp: liveDevice_def)
      then show ?thesis using updateActive_mem[of d s ?i ?g] by (auto simp: liveDevice_def intro!: bexI[of _ "?g d"])
    qed
    show "presentDevice (updateActive ?i ?g s) ?i" if k: "k \<in> set (st_apiKeys s)" "k_DeviceID k = ?i" for k
    proof -
      obtain d where "d \<in> set (st_devices s)" "d_ID d = ?i" "d_DeletedAt d = None"
        using deviceInvD(5)[OF s k(1)] k(2) by (auto simp: presentDevice_def)
      then show ?thesis using updateActive_mem[of d s ?i ?g] by (auto simp: presentDevice_def intro!: bexI[of _ "?g d"])
    qed
  qed (use h(2) in simp_all)
  then show "deviceInv (snd (repoUpdateDevice now row s))" using s by (auto simp: repoUpdateDevice_def)
qed

text \<open>What \<open>NewCreateAddressParams\<close> lets through.\<close>

lemma NewCreateAddressParams_ok:
  assumes "NewCreateAddressParams i t proxy = Inr params"
  shows "registrable (cap_IP params)" "cap_DeviceID params = i" "\<not> (IsValid proxy \<and> cap_IP params = proxy)"
proof -
  obtain a where a: "ParseAndValidateIP t = Inr a" using assms by (auto simp: NewCreateAddressParams_def split: sum.splits)
  have pap: "IsValid x" if "ParseAddrPort t = Some (x, n)" for x n
    using that ParseAddr_valid by (auto simp: ParseAddrPort_def Let_def split: option.splits if_splits)
  have "IsValid a \<and> Unmap a = a" using a ParseAddr_valid[of t] pap
    by (auto simp: ParseAndValidateIP_def Unmap_Unmap split: option.splits)
  then show "registrable (cap_IP params)" "cap_DeviceID params = i" "\<not> (IsValid proxy \<and> cap_IP params = proxy)"
    using assms a by (auto simp: NewCreateAddressParams_def registrable_def split: if_splits)
qed

section \<open>Registering an address\<close>

definition rowsAt :: "store \<Rightarrow> CreateAddressParams \<Rightarrow> Address list" where
  "rowsAt s params = filter (\<lambda>a. a_DeviceID a = cap_DeviceID params \<and> a_IP a = AddrString (cap_IP params)) (st_addresses s)"

definition newAddress :: "store \<Rightarrow> time \<Rightarrow> CreateAddressParams \<Rightarrow> EventSource \<Rightarrow> Address" where
  "newAddress s now params source = \<lparr>a_ID = nextID (map a_ID (st_addresses s)), a_DeviceID = cap_DeviceID params,
     a_IP = AddrString (cap_IP params), a_IsEnabled = True, a_Source = source, a_CreatedAt = now, a_UpdatedAt = now\<rparr>"

lemma distinct_filter_pair:
  "distinct (map f xs) \<Longrightarrow> filter (\<lambda>x. f x = k) xs = [] \<or> (\<exists>x. filter (\<lambda>x. f x = k) xs = [x])"
proof (induction xs)
  case (Cons x xs)
  have "f x = k \<Longrightarrow> filter (\<lambda>x. f x = k) xs = []" using Cons.prems by (auto simp: filter_empty_conv) (metis image_eqI)
  then show ?case using Cons by (cases "f x = k") auto
qed simp

lemma rowsAt_unique:
  assumes "deviceInv s"
  shows "rowsAt s params = [] \<or> (\<exists>a. rowsAt s params = [a])"
proof -
  have "rowsAt s params = filter (\<lambda>a. (a_DeviceID a, a_IP a) = (cap_DeviceID params, AddrString (cap_IP params))) (st_addresses s)"
    by (simp add: rowsAt_def)
  moreover have "distinct (map (\<lambda>a. (a_DeviceID a, a_IP a)) (st_addresses s))" using assms by (simp add: deviceInv_def)
  ultimately show ?thesis using distinct_filter_pair by metis
qed

lemma GetAddressForDeviceByIP_rowsAt:
  assumes "deviceInv s"
  shows "GetAddressForDeviceByIP (cap_DeviceID params) (cap_IP params) s =
    (case rowsAt s params of [] \<Rightarrow> (Inl (DeviceErr ErrAddressNotFound), s) | a # _ \<Rightarrow> (Inr a, s))"
  using rowsAt_unique[OF assms, of params] by (auto simp: GetAddressForDeviceByIP_def rowsAt_def byUpdatedDesc_def)

lemma CreateAddress_effect:
  assumes "rowsAt s params = []" "presentDevice s (cap_DeviceID params)"
  shows "CreateAddress b now params source trigger s = (Inr (newAddress s now params source),
    s\<lparr>st_addresses := st_addresses s @ [newAddress s now params source],
      st_addressEvents := st_addressEvents s @ [eventRow now (nextID (map a_ID (st_addresses s))) True source trigger]\<rparr>)"
proof -
  have "cap_DeviceID params \<in> d_ID ` set (st_devices s)" using assms(2) by (force simp: presentDevice_def)
  moreover have "\<not> (\<exists>a \<in> set (st_addresses s). a_DeviceID a = cap_DeviceID params \<and> a_IP a = AddrString (cap_IP params))"
    using assms(1) by (auto simp: rowsAt_def filter_empty_conv)
  moreover have "List.find (\<lambda>a. a_ID a = nextID (map a_ID (st_addresses s))) (st_addresses s) = None"
    by (auto simp: find_None_iff_ex)
  ultimately show ?thesis
    by (auto simp: CreateAddress_def insertAddress_def insertAddressEvent_def GetAddress_def andThen_def withinTx_def
        newAddress_def eventRow_def find_append Let_def)
qed

lemma registerTx_missing:
  "\<not> presentDevice s (cap_DeviceID params) \<Longrightarrow> registerTx now params source trigger s = (Inl (DeviceErr ErrDeviceNotFound), s)"
  by (simp add: registerTx_def IsDeviceDisabled_def andThen_def activeDevice_None[symmetric])

lemma present_not_live:
  assumes "deviceInv s" "presentDevice s i" "\<not> liveDevice s i"
  shows "\<exists>d. activeDevice s i = Some d \<and> d_DisabledAt d \<noteq> None"
  using assms activeDevice_None[of s i] activeDevice_Some[of s i] by (fastforce simp: liveDevice_def)

lemma live_active:
  assumes "deviceInv s" "liveDevice s i"
  shows "\<exists>d. activeDevice s i = Some d \<and> d_DisabledAt d = None"
proof -
  obtain d where d: "d \<in> set (st_devices s)" "d_ID d = i" "d_DeletedAt d = None" "d_DisabledAt d = None"
    using assms(2) by (auto simp: liveDevice_def)
  moreover have "activeDevice s i = Some d" unfolding activeDevice_def
    using d deviceInvD(1)[OF assms(1)] by (intro find_unique) (auto simp: distinct_map dest: inj_onD)
  ultimately show ?thesis by simp
qed

lemma registerTx_disabled:
  assumes "deviceInv s" "presentDevice s (cap_DeviceID params)" "\<not> liveDevice s (cap_DeviceID params)"
  shows "registerTx now params source trigger s = (Inl (DeviceErr ErrDeviceDisabled), s)"
  using present_not_live[OF assms] by (auto simp: registerTx_def IsDeviceDisabled_def andThen_def)

lemma registerTx_create:
  assumes "deviceInv s" "liveDevice s (cap_DeviceID params)" "rowsAt s params = []"
  shows "registerTx now params source trigger s = (Inr (newAddress s now params source, EventTypeAddressCreated),
    s\<lparr>st_addresses := st_addresses s @ [newAddress s now params source],
      st_addressEvents := st_addressEvents s @ [eventRow now (nextID (map a_ID (st_addresses s))) True source trigger]\<rparr>)"
  using live_active[OF assms(1,2)] assms(3) CreateAddress_effect[OF assms(3) live_present[OF assms(2)]]
  by (auto simp: registerTx_def IsDeviceDisabled_def andThen_def GetAddressForDeviceByIP_rowsAt[OF assms(1)])

lemma registerTx_existing:
  assumes "deviceInv s" "liveDevice s (cap_DeviceID params)" "rowsAt s params = [a]"
  shows "registerTx now params source trigger s =
    (Inr (inState now True source a, if a_IsEnabled a then EventTypeAddressRefreshed else EventTypeAddressEnabled),
     s\<lparr>st_addresses := map (withState now {a_ID a} True source) (st_addresses s),
       st_addressEvents := st_addressEvents s @ [eventRow now (a_ID a) True source trigger]\<rparr>)"
proof -
  have a: "a \<in> set (st_addresses s)" using assms(3) by (auto simp: rowsAt_def filter_eq_Cons_iff)
  obtain a' where a': "a' \<in> set (st_addresses s)" "a_ID a' = a_ID a"
    "recordAddressEvent True now (a_ID a) True source trigger s = (Inr (inState now True source a'),
      s\<lparr>st_addresses := map (withState now {a_ID a} True source) (st_addresses s),
        st_addressEvents := st_addressEvents s @ [eventRow now (a_ID a) True source trigger]\<rparr>)"
    using recordAddressEvent_found[of "a_ID a" s True now True source trigger] a by blast
  moreover have "a' = a" using a a'(1,2) deviceInvD(2)[OF assms(1)] by (meson distinct_map inj_onD)
  ultimately show ?thesis using live_active[OF assms(1,2)] assms(3)
    by (auto simp: registerTx_def IsDeviceDisabled_def andThen_def GetAddressForDeviceByIP_rowsAt[OF assms(1)]
        EnableAddress_def RefreshAddress_def)
qed

lemma registrable_stored: "registrable a \<Longrightarrow> storedIP (AddrString a)"
  by (auto simp: registrable_def storedIP_def ParseAddr_print)

lemma create_inv:
  assumes "deviceInv s" "liveDevice s (cap_DeviceID params)" "rowsAt s params = []" "registrable (cap_IP params)"
  shows "deviceInv (s\<lparr>st_addresses := st_addresses s @ [newAddress s now params source], st_addressEvents := evs\<rparr>)"
proof -
  let ?t = "s\<lparr>st_addresses := st_addresses s @ [newAddress s now params source], st_addressEvents := evs\<rparr>"
  have "liveDevice ?t i = liveDevice s i" "presentDevice ?t i = presentDevice s i" for i
    by (simp_all add: liveDevice_def presentDevice_def)
  moreover have "(cap_DeviceID params, AddrString (cap_IP params)) \<notin> (\<lambda>a. (a_DeviceID a, a_IP a)) ` set (st_addresses s)"
    using assms(3) by (auto simp: rowsAt_def filter_empty_conv)
  moreover have "cap_DeviceID params \<in> d_ID ` set (st_devices s)" using assms(2) by (force simp: liveDevice_def)
  ultimately show ?thesis using assms(1,2) registrable_stored[OF assms(4)] nextID_fresh[of "map a_ID (st_addresses s)"]
    by (auto simp: deviceInv_def newAddress_def)
qed

lemma registerTx_inv:
  assumes s: "deviceInv s" and ip: "registrable (cap_IP params)"
  shows "deviceInv (snd (registerTx now params source trigger s))"
proof (cases "liveDevice s (cap_DeviceID params)")
  case live: True
  from rowsAt_unique[OF s] consider "rowsAt s params = []" | a where "rowsAt s params = [a]" by blast
  then show ?thesis
  proof cases
    case 1
    then show ?thesis using create_inv[OF s live 1 ip] by (simp add: registerTx_create[OF s live 1])
  next
    case (2 a)
    have "liveDevice s (a_DeviceID x)" if "x \<in> set (st_addresses s)" "a_ID x = a_ID a" for x
    proof -
      have "a \<in> set (st_addresses s)" "a_DeviceID a = cap_DeviceID params"
        using 2 by (auto simp: rowsAt_def filter_eq_Cons_iff)
      moreover from this have "x = a" using that deviceInvD(2)[OF s] by (meson distinct_map inj_onD)
      ultimately show ?thesis using live by simp
    qed
    then have "deviceInv (s\<lparr>st_addresses := map (withState now {a_ID a} True source) (st_addresses s), st_addressEvents := evs\<rparr>)" for evs
      by (intro deviceInv_states[OF s]) (auto split: if_splits)
    then show ?thesis by (simp add: registerTx_existing[OF s live 2])
  qed
next
  case False
  then show ?thesis using s registerTx_missing[of s params] registerTx_disabled[OF s _ False]
    by (cases "presentDevice s (cap_DeviceID params)") simp_all
qed

section \<open>Properties\<close>

definition keepsSvc :: "(store \<Rightarrow> bool) \<Rightarrow> 'a svc \<Rightarrow> bool" where
  "keepsSvc I f \<longleftrightarrow> (\<forall>s. I s \<longrightarrow> I (storeAfter (f s)))"

lemma keepsSvc_notifying: "keeps I f \<Longrightarrow> keepsSvc I (notifying f ev)"
  by (simp add: keepsSvc_def svc_keeps)

lemma RegisterAddressActivity_keeps: "keepsSvc deviceInv (RegisterAddressActivity proxy now i t source trigger)"
  unfolding RegisterAddressActivity_def
proof (intro keepsSvc_notifying keeps_snd)
  fix s params t' assume "liftE DeviceErr (NewCreateAddressParams i t proxy) s = (Inr params, t')" "deviceInv t'"
  then have ok: "NewCreateAddressParams i t proxy = Inr params" and t': "deviceInv t'"
    by (auto simp: liftE_def split: sum.splits)
  show "deviceInv (snd (withinTx False (registerTx now params source trigger) t'))"
    using registerTx_inv[OF t' NewCreateAddressParams_ok(1)[OF ok], of now source trigger] t'
    by (auto simp: withinTx_def split: prod.splits sum.splits)
qed (auto simp: liftE_def split: sum.splits)

lemma DeleteDevice_keeps: "keepsSvc deviceInv (DeleteDevice b now i)"
  unfolding DeleteDevice_def by (intro keepsSvc_notifying keeps_withinTx deleteTx_keeps)

lemma DisableDevice_keeps: "keepsSvc deviceInv (DisableDevice now i)"
  unfolding DisableDevice_def by (intro keepsSvc_notifying keeps_withinTx disableTx_keeps)

lemma UpdateDevice_keeps: "keepsSvc deviceInv (UpdateDevice now i input)"
  unfolding UpdateDevice_def by (intro keepsSvc_notifying inv_intros)

lemma EnableDevice_keeps: "keeps deviceInv (EnableDevice now i)"
  unfolding EnableDevice_def by (intro inv_intros)

lemma DeleteAPIKey_keeps: "keeps deviceInv (DeleteAPIKey i)"
  unfolding DeleteAPIKey_def by (intro inv_intros)

lemma recordAddressEvent_off_keeps [inv_intros]: "keeps deviceInv (recordAddressEvent b now i False source trigger)"
proof (rule keepsI)
  fix s assume s: "deviceInv s"
  show "deviceInv (snd (recordAddressEvent b now i False source trigger s))"
  proof (cases "i \<in> a_ID ` set (st_addresses s)")
    case True
    from recordAddressEvent_found[OF this, of b now False source trigger]
    show ?thesis using deviceInv_states[OF s, of "withState now {i} False source"] by (auto split: if_splits)
  qed (simp add: recordAddressEvent_missing s)
qed

lemma CheckAddressOwnership_keeps [inv_intros]: "keeps I (CheckAddressOwnership i j)"
  by (auto simp: keeps_def CheckAddressOwnership_def)

lemma DisableAddress_keeps: "keepsSvc deviceInv (DisableAddress now i j)"
  unfolding DisableAddress_def repoDisableAddress_def by (intro keepsSvc_notifying inv_intros)

lemma DisableAddresses_keeps: "keepsSvc deviceInv (DisableAddresses now is source trigger)"
  unfolding DisableAddresses_def by (intro keepsSvc_notifying repoDisableAddresses_inv)

lemma deleteOwned_keeps: "deviceInv s \<Longrightarrow> deviceInv (snd (deleteOwned now is s))"
proof (induction "is" arbitrary: s)
  case (Cons i "is")
  obtain r ns t where d: "DeleteDevice True now i s = (r, ns, t)" by (metis prod_cases3)
  then have "deviceInv t" using DeleteDevice_keeps[of True now i] Cons.prems by (auto simp: keepsSvc_def storeAfter_def)
  then show ?case using Cons.IH[of t] d by (auto split: prod.splits)
qed simp

lemma device_OnUserEvent_keeps: "deviceInv s \<Longrightarrow> deviceInv (snd (device_OnUserEvent now ev s))"
  using deleteOwned_keeps by (simp add: device_OnUserEvent_def GetDeviceIDsByOwner_def)

lemma CreateDevice_keeps: "keeps deviceInv (CreateDevice now caller name owner)"
  unfolding CreateDevice_def
  by (intro keeps_andThen CreateDeviceWithOptions_keeps) (auto simp: keeps_def split: prod.splits)

text \<open>C4 (invariant). Every operation of the device service keeps the device invariant: the schema's
  keys, that a stored address is the canonical text of an address devices may register, that an
  enabled address belongs to a device that is neither deleted nor disabled, and that an API key
  belongs to a device that is not deleted. It holds also for a call that fails.\<close>

theorem device_operations_keep_invariant:
  "keepsSvc deviceInv (RegisterAddressActivity proxy now i ip source trigger) \<and>
   keepsSvc deviceInv (DisableAddress now i j) \<and>
   keepsSvc deviceInv (DisableAddresses now js source trigger) \<and>
   keepsSvc deviceInv (DeleteDevice inTx now i) \<and>
   keepsSvc deviceInv (DisableDevice now i) \<and>
   keepsSvc deviceInv (UpdateDevice now i input) \<and>
   keeps deviceInv (CreateDeviceWithOptions hash random now caller createInput) \<and>
   keeps deviceInv (CreateDevice now caller name owner) \<and>
   keeps deviceInv (EnableDevice now i) \<and>
   keeps deviceInv (RegenerateAPIKey hash random now i) \<and>
   keeps deviceInv (DeleteAPIKey i) \<and>
   keeps deviceInv (\<lambda>s. (Inr (), snd (device_OnUserEvent now ev s)))"
  by (simp add: RegisterAddressActivity_keeps DisableAddress_keeps DisableAddresses_keeps DeleteDevice_keeps
      DisableDevice_keeps UpdateDevice_keeps CreateDeviceWithOptions_keeps CreateDevice_keeps EnableDevice_keeps
      RegenerateAPIKey_keeps DeleteAPIKey_keeps keepsI device_OnUserEvent_keeps)

end
