(* ===== verification/Device_Access.thy ===== *)
theory Device_Access
  imports Devices
begin

text \<open>
  What the operations of the device service achieve: the effect of a heartbeat, the rows that reach
  the policy cache, that a disabled or deleted device is gone from them, and the life of an API key.
\<close>

section \<open>Heartbeats\<close>

definition otherRows :: "CreateAddressParams \<Rightarrow> Address list \<Rightarrow> Address list" where
  "otherRows params as = filter (\<lambda>a. \<not> (a_DeviceID a = cap_DeviceID params \<and> a_IP a = AddrString (cap_IP params))) as"

definition activityType :: "store \<Rightarrow> CreateAddressParams \<Rightarrow> AddressEventType" where
  "activityType s params = (case rowsAt s params of [] \<Rightarrow> EventTypeAddressCreated
     | a # _ \<Rightarrow> if a_IsEnabled a then EventTypeAddressRefreshed else EventTypeAddressEnabled)"

lemma rowsAt_existing:
  assumes "deviceInv s" "rowsAt s params = [a]"
  shows "filter (\<lambda>x. a_DeviceID x = cap_DeviceID params \<and> a_IP x = AddrString (cap_IP params))
      (map (withState now {a_ID a} True source) (st_addresses s)) = [inState now True source a]"
    and "otherRows params (map (withState now {a_ID a} True source) (st_addresses s)) = otherRows params (st_addresses s)"
proof -
  let ?w = "withState now {a_ID a} True source"
  have "filter (\<lambda>x. a_DeviceID x = cap_DeviceID params \<and> a_IP x = AddrString (cap_IP params)) (map ?w (st_addresses s)) =
      map ?w (rowsAt s params)" by (simp add: filter_map comp_def rowsAt_def)
  then show "filter (\<lambda>x. a_DeviceID x = cap_DeviceID params \<and> a_IP x = AddrString (cap_IP params))
      (map ?w (st_addresses s)) = [inState now True source a]" using assms(2) by (simp add: withState_def)
  have a: "a \<in> set (st_addresses s)" "a_DeviceID a = cap_DeviceID params \<and> a_IP a = AddrString (cap_IP params)"
    using assms(2) by (auto simp: rowsAt_def filter_eq_Cons_iff)
  have "?w x = x" if "x \<in> set (otherRows params (st_addresses s))" for x
  proof -
    have "x \<in> set (st_addresses s)" "x \<noteq> a" using that a by (auto simp: otherRows_def)
    then have "a_ID x \<noteq> a_ID a" using a(1) deviceInvD(2)[OF assms(1)] by (meson distinct_map inj_onD)
    then show ?thesis by (simp add: withState_def)
  qed
  then have "map ?w (otherRows params (st_addresses s)) = otherRows params (st_addresses s)" by (simp add: map_idI)
  then show "otherRows params (map ?w (st_addresses s)) = otherRows params (st_addresses s)"
    by (simp add: otherRows_def filter_map comp_def)
qed

lemma register_live:
  assumes "deviceInv s" "liveDevice s (cap_DeviceID params)"
  shows "\<exists>a t. registerTx now params source trigger s = (Inr (a, activityType s params), t) \<and>
    rowsAt t params = [a] \<and> a_IsEnabled a \<and> a_UpdatedAt a = now \<and>
    otherRows params (st_addresses t) = otherRows params (st_addresses s) \<and> st_devices t = st_devices s"
proof -
  from rowsAt_unique[OF assms(1)] consider "rowsAt s params = []" | a where "rowsAt s params = [a]" by blast
  then show ?thesis
  proof cases
    case 1
    let ?a = "newAddress s now params source"
    have "filter (\<lambda>a. a_DeviceID a = cap_DeviceID params \<and> a_IP a = AddrString (cap_IP params)) (st_addresses s) = []"
      using 1 by (simp only: rowsAt_def)
    then show ?thesis using registerTx_create[OF assms 1, of now source trigger]
      by (simp add: activityType_def 1) (simp add: rowsAt_def otherRows_def newAddress_def)
  next
    case (2 a)
    then show ?thesis
      using registerTx_existing[OF assms 2, of now source trigger] rowsAt_existing[OF assms(1) 2, of now source]
      by (simp add: activityType_def) (simp add: rowsAt_def inState_def)
  qed
qed

text \<open>C5 (functional). What a heartbeat does, on every branch, in a store that satisfies the device
  invariant. An address that may not be registered is refused; so is a device that is unknown or
  deleted, or disabled; nothing changes then and nobody is notified. Otherwise the device has exactly
  one row for the address afterwards, enabled and stamped with the time of the call, all other
  addresses and all devices are as before, and the observers are notified once, with created, enabled
  or refreshed according to what was there.\<close>

theorem RegisterAddressActivity_outcome:
  assumes "deviceInv s"
  shows "case NewCreateAddressParams i ip proxy of
      Inl e \<Rightarrow> RegisterAddressActivity proxy now i ip source trigger s = (Inl (DeviceErr e), [], s)
    | Inr params \<Rightarrow>
        if \<not> presentDevice s i
        then RegisterAddressActivity proxy now i ip source trigger s = (Inl (DeviceErr ErrDeviceNotFound), [], s)
        else if \<not> liveDevice s i
        then RegisterAddressActivity proxy now i ip source trigger s = (Inl (DeviceErr ErrDeviceDisabled), [], s)
        else \<exists>a t. RegisterAddressActivity proxy now i ip source trigger s =
            (Inr (a, activityType s params), [AddressNotice (NewAddressEvent now a (activityType s params))], t) \<and>
          rowsAt t params = [a] \<and> a_IsEnabled a \<and> a_UpdatedAt a = now \<and>
          otherRows params (st_addresses t) = otherRows params (st_addresses s) \<and> st_devices t = st_devices s"
proof (cases "NewCreateAddressParams i ip proxy")
  case (Inl e)
  then show ?thesis by (simp add: RegisterAddressActivity_def notifying_def andThen_def liftE_def)
next
  case (Inr params)
  note i = NewCreateAddressParams_ok(2)[OF Inr]
  have eq: "RegisterAddressActivity proxy now i ip source trigger s =
      notifying (withinTx False (registerTx now params source trigger))
        (\<lambda>(address, eventType). [AddressNotice (NewAddressEvent now address eventType)]) s"
    by (simp add: RegisterAddressActivity_def notifying_def andThen_def liftE_def Inr)
  show ?thesis
  proof (cases "liveDevice s i")
    case True
    from register_live[OF assms, of params now source trigger] True i obtain a t where
      "registerTx now params source trigger s = (Inr (a, activityType s params), t)" "rowsAt t params = [a]"
      "a_IsEnabled a" "a_UpdatedAt a = now" "otherRows params (st_addresses t) = otherRows params (st_addresses s)"
      "st_devices t = st_devices s" by auto
    then show ?thesis using Inr True live_present[OF True] by (simp add: eq notifying_def withinTx_def)
  next
    case False
    then show ?thesis using Inr i registerTx_missing[of s params] registerTx_disabled[OF assms, of params]
      by (simp add: eq notifying_def withinTx_def)
  qed
qed

definition sampleUser :: User where
  "sampleUser = \<lparr>u_ID = 1, u_Username = ''ann'', u_DisplayName = ''Ann'', u_Email = None, u_PasswordHash = None,
     u_Role = UserRole, u_MustChangePassword = False, u_CreatedBy = None, u_CreatedAt = 0, u_DeletedAt = None\<rparr>"

definition sampleRow :: "id \<Rightarrow> string \<Rightarrow> time option \<Rightarrow> DeviceRow" where
  "sampleRow i n dis = \<lparr>d_ID = i, d_Name = n, d_Description = None, d_Icon = None, d_CreatedAt = 0, d_UpdatedAt = 0,
     d_DeletedAt = None, d_DisabledAt = dis, d_OwnerID = 1\<rparr>"

definition deviceStore :: store where
  "deviceStore = emptyStore\<lparr>st_users := [sampleUser], st_devices := [sampleRow 1 ''phone'' None, sampleRow 2 ''old'' (Some 5)],
     st_apiKeys := [\<lparr>k_DeviceID = 1, k_Prefix = ''wdk_a'', k_Hash = ''wdk_abc'', k_CreatedAt = 0\<rparr>],
     st_addresses := [\<lparr>a_ID = 1, a_DeviceID = 1, a_IP = ''10.0.0.9'', a_IsEnabled = True, a_Source = EventSourceHeartbeat, a_CreatedAt = 3, a_UpdatedAt = 3\<rparr>,
       \<lparr>a_ID = 2, a_DeviceID = 2, a_IP = ''10.0.0.9'', a_IsEnabled = False, a_Source = EventSourceWebUI, a_CreatedAt = 3, a_UpdatedAt = 4\<rparr>]\<rparr>"

lemma storedIP_code [code]: "storedIP t = (case ParseAddr t of None \<Rightarrow> False | Some a \<Rightarrow> AddrString a = t \<and> registrable a)"
  by (auto simp: storedIP_def split: option.splits)

lemma deviceStore_ok: "deviceInv deviceStore"
  by code_simp

theorem RegisterAddressActivity_outcome_witness:
  "fst (RegisterAddressActivity AddrZero 9 2 ''10.0.0.9'' EventSourceHeartbeat EventTriggerSchedule deviceStore) = Inl (DeviceErr ErrDeviceDisabled) \<and>
   fst (RegisterAddressActivity AddrZero 9 1 ''[::ffff:10.0.0.9]:80'' EventSourceHeartbeat EventTriggerSchedule deviceStore) =
     Inr (inState 9 True EventSourceHeartbeat (hd (st_addresses deviceStore)), EventTypeAddressRefreshed)"
proof
  have d: "NewCreateAddressParams 2 ''10.0.0.9'' AddrZero = Inr \<lparr>cap_DeviceID = 2, cap_IP = V4 0x0A000009\<rparr>"
    "presentDevice deviceStore 2" "\<not> liveDevice deviceStore 2" by code_simp+
  show "fst (RegisterAddressActivity AddrZero 9 2 ''10.0.0.9'' EventSourceHeartbeat EventTriggerSchedule deviceStore) =
     Inl (DeviceErr ErrDeviceDisabled)"
    using RegisterAddressActivity_outcome[OF deviceStore_ok, where i = 2 and ip = "''10.0.0.9''" and proxy = AddrZero and now = 9
        and source = EventSourceHeartbeat and trigger = EventTriggerSchedule] d
    by simp
  show "fst (RegisterAddressActivity AddrZero 9 1 ''[::ffff:10.0.0.9]:80'' EventSourceHeartbeat EventTriggerSchedule deviceStore) =
     Inr (inState 9 True EventSourceHeartbeat (hd (st_addresses deviceStore)), EventTypeAddressRefreshed)"
    by code_simp
qed

section \<open>The rows of the policy cache\<close>

definition ipEntries :: "store \<Rightarrow> IPEntry list" where
  "ipEntries s = concat (map (enabledRow s) (byUpdatedDesc (st_addresses s)))"

lemma GetEnabledIPEntries_eq: "GetEnabledIPEntries s = (Inr (ipEntries s), s)"
  by (simp add: GetEnabledIPEntries_def ipEntries_def)

lemma ipEntries_iff:
  "e \<in> set (ipEntries s) \<longleftrightarrow> (\<exists>a \<in> set (st_addresses s). \<exists>d \<in> set (st_devices s). a_IsEnabled a \<and> d_ID d = a_DeviceID a \<and>
     d_DeletedAt d = None \<and> e = \<lparr>ie_IP = a_IP a, ie_DeviceID = a_DeviceID a, ie_AddressID = a_ID a, ie_UserID = d_OwnerID d\<rparr>)"
  by (force simp: ipEntries_def enabledRow_def byUpdatedDesc_def)

lemma unique_device:
  "deviceInv s \<Longrightarrow> d \<in> set (st_devices s) \<Longrightarrow> d' \<in> set (st_devices s) \<Longrightarrow> d_ID d = d_ID d' \<Longrightarrow> d = d'"
  using deviceInvD(1) by (meson distinct_map inj_onD)

text \<open>The rows that the policy cache is built from are exactly the enabled addresses with
  the owners of their devices, and each of them is of a device that is neither deleted nor disabled
  and has an address that parses to a plain, registrable one; so the cache skips no row, and neither
  a loopback, multicast, link-local or unspecified address nor a mapped IPv4 address is ever a key of
  it.\<close>

lemma enabled_entries_sound:
  assumes "deviceInv s" and "e \<in> set (ipEntries s)"
  shows "liveDevice s (ie_DeviceID e) \<and>
    (\<exists>x. ParseAddr (ie_IP e) = Some x \<and> registrable x) \<and>
    (\<exists>a \<in> set (st_addresses s). a_IsEnabled a \<and> a_ID a = ie_AddressID e \<and> a_DeviceID a = ie_DeviceID e \<and> a_IP a = ie_IP e) \<and>
    map d_OwnerID (filter (\<lambda>d. d_ID d = ie_DeviceID e) (st_devices s)) = [ie_UserID e]"
proof -
  obtain a d where a: "a \<in> set (st_addresses s)" "a_IsEnabled a" and d: "d \<in> set (st_devices s)" "d_ID d = a_DeviceID a"
    and e: "e = \<lparr>ie_IP = a_IP a, ie_DeviceID = a_DeviceID a, ie_AddressID = a_ID a, ie_UserID = d_OwnerID d\<rparr>"
    using assms(2) unfolding ipEntries_iff by blast
  have "filter (\<lambda>x. d_ID x = d_ID d) (st_devices s) = [d]"
  proof -
    have "set (filter (\<lambda>x. d_ID x = d_ID d) (st_devices s)) = {d}" using d(1) unique_device[OF assms(1)] by auto
    then show ?thesis using distinct_filter_pair[OF deviceInvD(1)[OF assms(1)], of "d_ID d"] by (elim disjE exE) simp_all
  qed
  then show ?thesis using deviceInvD(3,4)[OF assms(1) a(1)] a d e by (auto simp: storedIP_def)
qed

lemma enabled_entries_sound_witness:
  "liveDevice deviceStore 1 \<and> (\<exists>x. ParseAddr ''10.0.0.9'' = Some x \<and> registrable x)"
proof -
  have "\<lparr>ie_IP = ''10.0.0.9'', ie_DeviceID = 1, ie_AddressID = 1, ie_UserID = 1\<rparr> \<in> set (ipEntries deviceStore)" by code_simp
  from enabled_entries_sound[OF deviceStore_ok this] show ?thesis by simp
qed

section \<open>Disabled and deleted devices\<close>

lemma ipEntries_live:
  assumes "deviceInv s"
  shows "e \<in> set (ipEntries s) \<Longrightarrow> liveDevice s (ie_DeviceID e)"
  using deviceInvD(4)[OF assms] by (auto simp: ipEntries_iff)

lemma ipEntries_frame:
  assumes "\<And>a. a_DeviceID a \<noteq> i \<Longrightarrow> a_IsEnabled a \<Longrightarrow> a \<in> set (st_addresses t) \<longleftrightarrow> a \<in> set (st_addresses s)"
    and "\<And>d. d_ID d \<noteq> i \<Longrightarrow> d \<in> set (st_devices t) \<longleftrightarrow> d \<in> set (st_devices s)"
  shows "{e \<in> set (ipEntries t). ie_DeviceID e \<noteq> i} = {e \<in> set (ipEntries s). ie_DeviceID e \<noteq> i}"
  using assms by (fastforce simp: ipEntries_iff)

lemma updateActive_frame:
  "(\<And>d. d_ID (g d) = d_ID d) \<Longrightarrow> d_ID d \<noteq> i \<Longrightarrow> d \<in> set (st_devices (updateActive i g s)) \<longleftrightarrow> d \<in> set (st_devices s)"
  by (auto simp: updateActive_devices image_iff)

lemma updateActive_cases:
  assumes "d \<in> set (st_devices (updateActive i g s))"
  obtains (updated) x where "d_ID x = i" "d_DeletedAt x = None" "d = g x"
  | (same) "d \<in> set (st_devices s)" "\<not> (d_ID d = i \<and> d_DeletedAt d = None)"
proof -
  obtain x where "x \<in> set (st_devices s)" "d = (if d_ID x = i \<and> d_DeletedAt x = None then g x else x)"
    using assms unfolding updateActive_devices by auto
  then show thesis using that by (cases "d_ID x = i \<and> d_DeletedAt x = None") auto
qed

lemma deleted_not_present: "\<not> presentDevice (updateActive i (\<lambda>d. d\<lparr>d_DeletedAt := Some t\<rparr>) s) i"
proof
  assume "presentDevice (updateActive i (\<lambda>d. d\<lparr>d_DeletedAt := Some t\<rparr>) s) i"
  then obtain d where d: "d \<in> set (st_devices (updateActive i (\<lambda>d. d\<lparr>d_DeletedAt := Some t\<rparr>) s))" "d_ID d = i" "d_DeletedAt d = None"
    unfolding presentDevice_def by blast
  from d(1) show False using d(2,3) by (cases rule: updateActive_cases) simp_all
qed

lemma disabled_not_live: "\<not> liveDevice (updateActive i (\<lambda>d. d\<lparr>d_DisabledAt := Some t\<rparr>) s) i"
proof
  assume "liveDevice (updateActive i (\<lambda>d. d\<lparr>d_DisabledAt := Some t\<rparr>) s) i"
  then obtain d where d: "d \<in> set (st_devices (updateActive i (\<lambda>d. d\<lparr>d_DisabledAt := Some t\<rparr>) s))" "d_ID d = i"
    "d_DeletedAt d = None" "d_DisabledAt d = None" unfolding liveDevice_def by blast
  from d(1) show False using d(2-4) by (cases rule: updateActive_cases) simp_all
qed

lemma disableStore_frame:
  assumes "deviceInv s" "a_DeviceID a \<noteq> i"
  shows "a \<in> set (st_addresses (disableStore now i evs s)) \<longleftrightarrow> a \<in> set (st_addresses s)"
proof -
  have "withState now (enabledIDs s i) False EventSourceWebUI x = x" if "x \<in> set (st_addresses s)" "a_DeviceID x \<noteq> i" for x
  proof -
    have "a_ID x \<notin> enabledIDs s i"
      using that deviceInvD(2)[OF assms(1)] by (auto simp: enabledIDs_def distinct_map dest: inj_onD)
    then show ?thesis by (simp add: withState_def)
  qed
  then show ?thesis using assms(2) by (force simp: disableStore_def image_iff)
qed

lemma no_entries:
  "deviceInv t \<Longrightarrow> \<not> liveDevice t i \<Longrightarrow> {e \<in> set (ipEntries t). ie_DeviceID e = i} = {}"
  using ipEntries_live by blast

text \<open>The rows of one device are gone and those of all others stay.\<close>

definition entriesWithout :: "id \<Rightarrow> store \<Rightarrow> IPEntry set" where
  "entriesWithout i s = {e \<in> set (ipEntries s). ie_DeviceID e \<noteq> i}"

lemma entriesWithoutI:
  assumes "deviceInv t" "\<not> liveDevice t i" "{e \<in> set (ipEntries t). ie_DeviceID e \<noteq> i} = {e \<in> set (ipEntries s). ie_DeviceID e \<noteq> i}"
  shows "set (ipEntries t) = entriesWithout i s"
  using assms no_entries[OF assms(1,2)] by (auto simp: entriesWithout_def)

lemma DeleteDevice_ok:
  assumes "deviceInv s" "presentDevice s i"
  shows "\<exists>as t. DeleteDevice b now i s = (Inr as, disabledNotices now as, t) \<and> \<not> presentDevice t i \<and> deviceInv t \<and>
    set (ipEntries t) = entriesWithout i s \<and> a_ID ` set as = enabledIDs s i"
proof -
  let ?g = "\<lambda>d. d\<lparr>d_DeletedAt := Some now\<rparr>"
  obtain as evs where eff: "andThen (repoDeleteDevice now i) (\<lambda>_. andThen (disableEnabled now i) (\<lambda>as.
      andThen (deleteKeyIfAny i) (\<lambda>_. ret as))) s = (Inr as, updateActive i ?g
       ((disableStore now i evs s)\<lparr>st_apiKeys := filter (\<lambda>k. k_DeviceID k \<noteq> i) (st_apiKeys s)\<rparr>))"
    "a_ID ` set as = enabledIDs s i" using deleteTx_effect[OF assms(2)] by blast
  let ?u = "(disableStore now i evs s)\<lparr>st_apiKeys := filter (\<lambda>k. k_DeviceID k \<noteq> i) (st_apiKeys s)\<rparr>"
  let ?t = "updateActive i ?g ?u"
  have gone: "\<not> presentDevice ?t i" by (rule deleted_not_present)
  have inv: "deviceInv ?t" by (rule delete_inv[OF assms(1)])
  have "set (ipEntries ?t) = entriesWithout i s"
  proof (rule entriesWithoutI[OF inv])
    show "{e \<in> set (ipEntries ?t). ie_DeviceID e \<noteq> i} = {e \<in> set (ipEntries s). ie_DeviceID e \<noteq> i}"
    proof (rule ipEntries_frame)
      show "a \<in> set (st_addresses ?t) \<longleftrightarrow> a \<in> set (st_addresses s)" if "a_DeviceID a \<noteq> i" for a
        using disableStore_frame[OF assms(1) that] by simp
      show "d \<in> set (st_devices ?t) \<longleftrightarrow> d \<in> set (st_devices s)" if "d_ID d \<noteq> i" for d
        using updateActive_frame[of ?g d i ?u] that by simp
    qed
  qed (use gone live_present in blast)
  moreover have "DeleteDevice b now i s = (Inr as, disabledNotices now as, ?t)"
    unfolding DeleteDevice_def notifying_def withinTx_def eff(1) by simp
  ultimately show ?thesis using eff(2) gone inv by - (intro exI conjI, assumption+)
qed

lemma DisableDevice_ok:
  assumes "deviceInv s" "presentDevice s i"
  shows "\<exists>d as t. DisableDevice now i s = (Inr (d, as), disabledNotices now as, t) \<and> d_DisabledAt (dv_row d) = Some now \<and>
    \<not> liveDevice t i \<and> deviceInv t \<and> st_apiKeys t = st_apiKeys s \<and> set (ipEntries t) = entriesWithout i s \<and> a_ID ` set as = enabledIDs s i"
proof -
  let ?g = "\<lambda>d. d\<lparr>d_DisabledAt := Some now\<rparr>"
  obtain as evs where dis: "disableEnabled now i s = (Inr as, disableStore now i evs s)" "a_ID ` set as = enabledIDs s i"
    using disableEnabled_effect by blast
  let ?u = "disableStore now i evs s"
  let ?t = "updateActive i ?g ?u"
  have inv: "deviceInv ?t" by (rule setDisabled_inv[OF disableStore_inv[OF assms(1)]]) (auto dest: disableStore_off)
  obtain r where r: "activeDevice s i = Some r" "activeDevice ?u i \<noteq> None"
    using assms(2) activeDevice_None[of s i] activeDevice_None[of ?u i] by (auto simp: presentDevice_def)
  obtain d where d: "activeDevice ?t i = Some d"
  proof -
    obtain d where "d \<in> set (st_devices s)" "d_ID d = i" "d_DeletedAt d = None" using assms(2) by (auto simp: presentDevice_def)
    then have "presentDevice ?t i" using updateActive_mem[of d ?u i ?g] by (auto simp: presentDevice_def intro!: bexI[of _ "?g d"])
    then show thesis using that activeDevice_None[of ?t i] by auto
  qed
  have "DisableDevice now i s = (Inr (withKey ?t d, as), disabledNotices now as, ?t)"
    unfolding DisableDevice_def notifying_def withinTx_def andThen_def repoGetDevice_def SetDeviceDisabled_def
    by (simp only: r(1) dis(1) d r(2) option.case sum.case prod.case ret_eq if_True if_False)
  moreover have "d_DisabledAt (dv_row (withKey ?t d)) = Some now" unfolding withKey_def
    using activeDevice_Some(1)[OF d] activeDevice_Some(2,3)[OF d] by (cases rule: updateActive_cases) simp_all
  moreover have notlive: "\<not> liveDevice ?t i" by (rule disabled_not_live)
  moreover have "set (ipEntries ?t) = entriesWithout i s"
  proof (rule entriesWithoutI[OF inv notlive], rule ipEntries_frame)
    show "a \<in> set (st_addresses ?t) \<longleftrightarrow> a \<in> set (st_addresses s)" if "a_DeviceID a \<noteq> i" for a
      using disableStore_frame[OF assms(1) that] by simp
    show "x \<in> set (st_devices ?t) \<longleftrightarrow> x \<in> set (st_devices s)" if "d_ID x \<noteq> i" for x
      using updateActive_frame[of ?g x i ?u] that by simp
  qed
  moreover have "st_apiKeys ?t = st_apiKeys s" by simp
  ultimately show ?thesis using dis(2) inv by - (intro exI conjI, assumption+)
qed

text \<open>C9 (safety). Disabling or deleting a device takes its addresses, and no others, out of the rows
  of the policy cache, in one step with the change of the device, and notifies the observers of every
  address it turned off. A disabled device keeps its API key, but a heartbeat of it is refused.\<close>

theorem disabled_device_is_out:
  assumes "deviceInv s" and "presentDevice s i"
  shows "(\<exists>d as t. DisableDevice now i s = (Inr (d, as), disabledNotices now as, t) \<and>
       set (ipEntries t) = entriesWithout i s \<and> a_ID ` set as = enabledIDs s i \<and> st_apiKeys t = st_apiKeys s \<and>
       fst (RegisterAddressActivity proxy now' i ip source trigger t) \<in>
         {Inl (DeviceErr ErrDeviceDisabled), Inl (DeviceErr ErrDeviceNotFound)} \<union> Inl ` DeviceErr ` {ErrInvalidIPFormat, ErrInvalidDeviceIP, ErrTrustedProxyIPRejected}) \<and>
    (\<exists>as t. DeleteDevice False now i s = (Inr as, disabledNotices now as, t) \<and>
       set (ipEntries t) = entriesWithout i s \<and> a_ID ` set as = enabledIDs s i \<and> \<not> presentDevice t i)"
proof
  have refused: "fst (RegisterAddressActivity proxy now' i ip source trigger t) \<in>
      {Inl (DeviceErr ErrDeviceDisabled), Inl (DeviceErr ErrDeviceNotFound)} \<union> Inl ` DeviceErr ` {ErrInvalidIPFormat, ErrInvalidDeviceIP, ErrTrustedProxyIPRejected}"
    if h: "deviceInv t" "\<not> liveDevice t i" for t
  proof (cases "NewCreateAddressParams i ip proxy")
    case (Inl e)
    then have "e \<in> {ErrInvalidIPFormat, ErrInvalidDeviceIP, ErrTrustedProxyIPRejected}"
      by (auto simp: NewCreateAddressParams_def ParseAndValidateIP_def split: sum.splits if_splits option.splits)
    then show ?thesis using Inl by (auto simp: RegisterAddressActivity_def notifying_def andThen_def liftE_def)
  next
    case (Inr params)
    then show ?thesis using NewCreateAddressParams_ok(2)[OF Inr] h registerTx_missing[of t params] registerTx_disabled[OF h(1), of params]
      by (cases "presentDevice t i") (simp_all add: RegisterAddressActivity_def notifying_def andThen_def[of "liftE _ _"] liftE_def withinTx_def)
  qed
  obtain d as t where "DisableDevice now i s = (Inr (d, as), disabledNotices now as, t)" "set (ipEntries t) = entriesWithout i s"
    "a_ID ` set as = enabledIDs s i" "st_apiKeys t = st_apiKeys s" "deviceInv t" "\<not> liveDevice t i"
    using DisableDevice_ok[OF assms, of now] by (elim exE conjE) (rule that, assumption+)
  then show "\<exists>d as t. DisableDevice now i s = (Inr (d, as), disabledNotices now as, t) \<and>
       set (ipEntries t) = entriesWithout i s \<and> a_ID ` set as = enabledIDs s i \<and> st_apiKeys t = st_apiKeys s \<and>
       fst (RegisterAddressActivity proxy now' i ip source trigger t) \<in>
         {Inl (DeviceErr ErrDeviceDisabled), Inl (DeviceErr ErrDeviceNotFound)} \<union> Inl ` DeviceErr ` {ErrInvalidIPFormat, ErrInvalidDeviceIP, ErrTrustedProxyIPRejected}"
    by - (intro exI conjI, assumption+, rule refused)
  show "\<exists>as t. DeleteDevice False now i s = (Inr as, disabledNotices now as, t) \<and>
       set (ipEntries t) = entriesWithout i s \<and> a_ID ` set as = enabledIDs s i \<and> \<not> presentDevice t i"
    using DeleteDevice_ok[OF assms, of False now] by (elim exE conjE) (intro exI conjI, assumption+)
qed

theorem disabled_device_is_out_witness:
  "(\<exists>d as t. DisableDevice 9 1 deviceStore = (Inr (d, as), disabledNotices 9 as, t) \<and> ipEntries t = []) \<and>
   ipEntries deviceStore \<noteq> []"
proof
  have p: "presentDevice deviceStore 1" "entriesWithout 1 deviceStore = {}" by code_simp+
  from disabled_device_is_out[OF deviceStore_ok p(1), of 9 AddrZero 9 "[]" EventSourceHeartbeat EventTriggerUser, THEN conjunct1]
  obtain d as t where "DisableDevice 9 1 deviceStore = (Inr (d, as), disabledNotices 9 as, t)" "set (ipEntries t) = {}"
    unfolding p(2) by (elim exE conjE) (rule that, assumption+)
  then show "\<exists>d as t. DisableDevice 9 1 deviceStore = (Inr (d, as), disabledNotices 9 as, t) \<and> ipEntries t = []"
    by (intro exI conjI) (assumption, simp only: set_empty)
  show "ipEntries deviceStore \<noteq> []" by code_simp
qed

section \<open>API keys\<close>

lemma Authenticate_Inr:
  "fst (Authenticate hash rawKey s) = Inr i \<longleftrightarrow> take (length APIKeyPrefix) rawKey = APIKeyPrefix \<and>
     (\<exists>k. List.find (\<lambda>k. k_Hash k = hash rawKey \<and> activeDevice s (k_DeviceID k) \<noteq> None) (st_apiKeys s) = Some k \<and> k_DeviceID k = i)"
proof -
  have len: "take (length APIKeyPrefix) rawKey = APIKeyPrefix \<Longrightarrow> \<not> length rawKey < length APIKeyPrefix"
    by (auto simp: APIKeyPrefix_def)
  show ?thesis
  proof (cases "List.find (\<lambda>k. k_Hash k = hash rawKey \<and> activeDevice s (k_DeviceID k) \<noteq> None) (st_apiKeys s)")
    case None
    then show ?thesis by (auto simp: Authenticate_def andThen_def GetDeviceByAPIKeyHash_def HashAPIKey_def)
  next
    case (Some k)
    obtain d where d: "activeDevice s (k_DeviceID k) = Some d" using find_SomeD(2)[OF Some] by auto
    have "GetDeviceByAPIKeyHash (hash rawKey) s = (Inr \<lparr>dv_row = d, dv_KeyPrefix = Some (k_Prefix k)\<rparr>, s)"
      unfolding GetDeviceByAPIKeyHash_def Some option.case d by simp
    then show ?thesis using len activeDevice_Some(2)[OF d] unfolding Some
      by (auto simp: Authenticate_def andThen_def HashAPIKey_def)
  qed
qed

lemma find_key_unique:
  assumes "deviceInv s" "k \<in> set (st_apiKeys s)"
  shows "List.find (\<lambda>x. k_Hash x = k_Hash k \<and> activeDevice s (k_DeviceID x) \<noteq> None) (st_apiKeys s) = Some k"
proof (rule find_unique)
  show "k_Hash k = k_Hash k \<and> activeDevice s (k_DeviceID k) \<noteq> None"
    using deviceInvD(5)[OF assms] by (simp only: activeDevice_None) simp
  show "y = k" if "y \<in> set (st_apiKeys s)" "k_Hash y = k_Hash k \<and> activeDevice s (k_DeviceID y) \<noteq> None" for y
    using that assms(2) deviceInvD(6)[OF assms(1)] by (meson distinct_map inj_onD)
qed (rule assms(2))

lemma Authenticate_key:
  assumes "deviceInv s" "k \<in> set (st_apiKeys s)" "k_Hash k = hash rawKey" "take (length APIKeyPrefix) rawKey = APIKeyPrefix"
  shows "fst (Authenticate hash rawKey s) = Inr (k_DeviceID k)"
  using find_key_unique[OF assms(1,2)] assms(3,4) by (simp add: Authenticate_Inr)

lemma no_key_no_auth: "i \<notin> k_DeviceID ` set (st_apiKeys s) \<Longrightarrow> fst (Authenticate hash rawKey s) \<noteq> Inr i"
  by (auto simp: Authenticate_Inr dest: find_SomeD(1))

lemma UpsertAPIKey_row:
  assumes up: "UpsertAPIKey now i h pre s = (Inr (), t)"
  shows "\<lparr>k_DeviceID = i, k_Prefix = pre, k_Hash = h, k_CreatedAt = sqlNow now\<rparr> \<in> set (st_apiKeys t)" (is "?row \<in> _")
proof (cases "i \<in> k_DeviceID ` set (st_apiKeys s)")
  case True
  let ?f = "\<lambda>k. if k_DeviceID k = i then ?row else k"
  obtain k where k: "k \<in> set (st_apiKeys s)" "k_DeviceID k = i" using True by blast
  have "t = s\<lparr>st_apiKeys := map ?f (st_apiKeys s)\<rparr>" using up True unfolding UpsertAPIKey_def Let_def by (simp split: if_splits)
  moreover have "?f k \<in> ?f ` set (st_apiKeys s)" using k(1) by (rule imageI)
  ultimately show ?thesis using k(2) by simp
next
  case False
  then have "t = s\<lparr>st_apiKeys := st_apiKeys s @ [?row]\<rparr>" using up unfolding UpsertAPIKey_def Let_def by (simp split: if_splits)
  then show ?thesis by simp
qed

lemma RegenerateAPIKey_Inr:
  assumes "RegenerateAPIKey hash (Some raw) now i s = (Inr (d, key), t)"
  shows "key = APIKeyPrefix @ raw" "\<exists>k \<in> set (st_apiKeys t). k_DeviceID k = i \<and> k_Hash k = hash key"
proof -
  have "withinTx False (andThen (repoGetDevice i) (\<lambda>_.
      andThen (UpsertAPIKey now i (hash (APIKeyPrefix @ raw)) (take (length APIKeyPrefix + 8) (APIKeyPrefix @ raw))) (\<lambda>_.
      andThen (repoGetDevice i) (\<lambda>device. ret (device, APIKeyPrefix @ raw))))) s = (Inr (d, key), t)"
    using assms by (simp add: RegenerateAPIKey_def andThen_def[of "liftE _ _"] liftE_def GenerateAPIKey_def HashAPIKey_def Let_def)
  then obtain x u where "andThen (UpsertAPIKey now i (hash (APIKeyPrefix @ raw)) (take (length APIKeyPrefix + 8) (APIKeyPrefix @ raw))) (\<lambda>_.
      andThen (repoGetDevice i) (\<lambda>device. ret (device, APIKeyPrefix @ raw))) u = (Inr (d, key), t)"
    unfolding withinTx_Inr by (rule andThen_InrD)
  then obtain y t' where up: "UpsertAPIKey now i (hash (APIKeyPrefix @ raw)) (take (length APIKeyPrefix + 8) (APIKeyPrefix @ raw)) u = (Inr y, t')"
    and last: "andThen (repoGetDevice i) (\<lambda>device. ret (device, APIKeyPrefix @ raw)) t' = (Inr (d, key), t)" by (rule andThen_InrD)
  have up: "UpsertAPIKey now i (hash (APIKeyPrefix @ raw)) (take (length APIKeyPrefix + 8) (APIKeyPrefix @ raw)) u = (Inr (), t')"
    using up by simp
  from last show key: "key = APIKeyPrefix @ raw" by (elim andThen_InrD) simp
  from last have "t = t'" by (elim andThen_InrD) (simp add: repoGetDevice_Inr)
  then show "\<exists>k \<in> set (st_apiKeys t). k_DeviceID k = i \<and> k_Hash k = hash key"
    using key by (intro bexI[OF _ UpsertAPIKey_row[OF up, folded \<open>t = t'\<close>]]) simp
qed

text \<open>C10 (roundtrip). A new API key authenticates its device and only the newest one does: after a
  successful regeneration the returned key authenticates as the device, and every other key whose
  hash differs does not; after deleting the key or the device no key authenticates as it.\<close>

theorem api_key_lifecycle:
  assumes "deviceInv s"
  shows "(RegenerateAPIKey hash (Some raw) now i s = (Inr (d, key), t) \<longrightarrow>
       fst (Authenticate hash key t) = Inr i \<and> (hash other \<noteq> hash key \<longrightarrow> fst (Authenticate hash other t) \<noteq> Inr i)) \<and>
    (DeleteAPIKey i s = (Inr (), t) \<longrightarrow> fst (Authenticate hash other t) \<noteq> Inr i) \<and>
    (DeleteDevice b now i s = (Inr as, ns, t) \<longrightarrow> fst (Authenticate hash other t) \<noteq> Inr i)"
proof (intro conjI impI)
  assume r: "RegenerateAPIKey hash (Some raw) now i s = (Inr (d, key), t)"
  have inv: "deviceInv t" using keepsD[OF RegenerateAPIKey_keeps assms r] .
  obtain k where k: "k \<in> set (st_apiKeys t)" "k_DeviceID k = i" "k_Hash k = hash key" using RegenerateAPIKey_Inr(2)[OF r] by blast
  show "fst (Authenticate hash key t) = Inr i"
    using Authenticate_key[OF inv k(1), of hash key] k(2,3) RegenerateAPIKey_Inr(1)[OF r] by simp
  show "fst (Authenticate hash other t) \<noteq> Inr i" if neq: "hash other \<noteq> hash key"
  proof
    assume "fst (Authenticate hash other t) = Inr i"
    then obtain k' where "List.find (\<lambda>k. k_Hash k = hash other \<and> activeDevice t (k_DeviceID k) \<noteq> None) (st_apiKeys t) = Some k'"
      "k_DeviceID k' = i" by (auto simp: Authenticate_Inr)
    then have "k' \<in> set (st_apiKeys t)" "k_Hash k' = hash other" "k_DeviceID k' = i" by (auto dest: find_SomeD)
    then have "k' = k" using k deviceInvD(7)[OF inv] by (metis distinct_map inj_onD)
    then show False using k(3) \<open>k_Hash k' = hash other\<close> neq by simp
  qed
next
  assume "DeleteAPIKey i s = (Inr (), t)"
  then have "i \<notin> k_DeviceID ` set (st_apiKeys t)"
    unfolding DeleteAPIKey_def withinTx_Inr by (elim andThen_InrD) (auto simp: repoGetDevice_Inr repoDeleteAPIKey_def split: if_splits)
  then show "fst (Authenticate hash other t) \<noteq> Inr i" by (rule no_key_no_auth)
next
  assume d: "DeleteDevice b now i s = (Inr as, ns, t)"
  have "presentDevice s i"
  proof (rule ccontr)
    assume "\<not> presentDevice s i"
    then have "fst (DeleteDevice b now i s) = Inl (DeviceErr ErrDeviceNotFound)"
      by (simp add: DeleteDevice_def notifying_def withinTx_def deleteTx_missing)
    then show False using d by simp
  qed
  from DeleteDevice_ok[OF assms this, of b now] d have "\<not> presentDevice t i" "deviceInv t" by auto
  then have "i \<notin> k_DeviceID ` set (st_apiKeys t)" using deviceInvD(5) by blast
  then show "fst (Authenticate hash other t) \<noteq> Inr i" by (rule no_key_no_auth)
qed

definition rekeyed :: "(Device \<times> string) \<times> store" where
  "rekeyed = (case RegenerateAPIKey id (Some ''secret-bytes'') 9 1 deviceStore of (Inr r, t) \<Rightarrow> (r, t) | (Inl _, t) \<Rightarrow> ((undefined, []), t))"

theorem api_key_lifecycle_witness:
  "fst (Authenticate id ''wdk_abc'' deviceStore) = Inr 1 \<and>
   fst (Authenticate id (snd (fst rekeyed)) (snd rekeyed)) = Inr 1 \<and> fst (Authenticate id ''wdk_abc'' (snd rekeyed)) \<noteq> Inr 1"
proof -
  have r: "RegenerateAPIKey id (Some ''secret-bytes'') 9 1 deviceStore = (Inr (fst (fst rekeyed), snd (fst rekeyed)), snd rekeyed)"
    by code_simp
  have "id ''wdk_abc'' \<noteq> id (snd (fst rekeyed))" by code_simp
  moreover have "fst (Authenticate id ''wdk_abc'' deviceStore) = Inr 1" by code_simp
  ultimately show ?thesis
    using api_key_lifecycle[OF deviceStore_ok, of id "''secret-bytes''" 9 1 "fst (fst rekeyed)" "snd (fst rekeyed)" "snd rekeyed" "''wdk_abc''"] r
    by blast
qed

end
