(* ===== verification/Device_Notices.thy ===== *)
theory Device_Notices
  imports Device_Access
begin

text \<open>
  What the observers of the device service may rely on. The lease and address-limit listeners and the
  policy cache never read the addresses in the same transaction as a change; they learn of it through
  notifications. \<open>address_source\<close> is that contract: the notifications of a call tell the state of every
  address after it, and a call that sends nothing the policy cache reacts to leaves the rows of the
  cache as they were. Every operation of the device service interprets it.
\<close>

definition addressEvents :: "notice list \<Rightarrow> AddressEvent list" where
  "addressEvents ns = List.map_filter (\<lambda>n. case n of AddressNotice e \<Rightarrow> Some e | _ \<Rightarrow> None) ns"

text \<open>The observer side of \<open>policy.Service\<close>: \<open>OnAddressEvent\<close> ignores refreshes, the other three react
  to everything, and it does not observe rules.\<close>

definition policyTriggers :: "notice \<Rightarrow> bool" where
  "policyTriggers n = (case n of AddressNotice e \<Rightarrow> ev_Type e \<noteq> EventTypeAddressRefreshed
     | DeviceNotice _ \<Rightarrow> True | HostAccessChanged \<Rightarrow> True | NetworkPolicyChanged \<Rightarrow> True | RuleNotice _ \<Rightarrow> False)"

definition enabledIn :: "store \<Rightarrow> id \<Rightarrow> bool" where
  "enabledIn s i \<longleftrightarrow> (\<exists>a \<in> set (st_addresses s). a_ID a = i \<and> a_IsEnabled a)"

definition lastState :: "AddressEvent list \<Rightarrow> id \<Rightarrow> bool option" where
  "lastState es i = map_option IsAddressEnabled (List.find (\<lambda>e. ev_AddressID e = i) (rev es))"

text \<open>The state of an address once the events are taken into account.\<close>

definition stateAfter :: "(id \<Rightarrow> bool) \<Rightarrow> AddressEvent list \<Rightarrow> id \<Rightarrow> bool" where
  "stateAfter before es i = (case lastState es i of None \<Rightarrow> before i | Some b \<Rightarrow> b)"

definition announced :: "store \<Rightarrow> notice list \<Rightarrow> store \<Rightarrow> bool" where
  "announced s ns s' \<longleftrightarrow> enabledIn s' = stateAfter (enabledIn s) (addressEvents ns)"

lemma addressEvents_simps [simp]:
  "addressEvents [] = []" "addressEvents (AddressNotice e # ns) = e # addressEvents ns"
  "addressEvents (DeviceNotice d # ns) = addressEvents ns"
  by (simp_all add: addressEvents_def List.map_filter_simps)

lemma stateAfter_Nil [simp]: "stateAfter f [] = f"
  by (rule ext) (simp add: stateAfter_def lastState_def)

lemma stateAfter_append: "stateAfter f (es @ es') = stateAfter (stateAfter f es) es'"
  by (rule ext) (simp add: stateAfter_def lastState_def find_append split: option.splits)

lemma stateAfter_single: "stateAfter f [e] = f(ev_AddressID e := IsAddressEnabled e)"
  by (rule ext) (simp add: stateAfter_def lastState_def)

lemma stateAfter_Cons: "stateAfter f (e # es) = stateAfter (f(ev_AddressID e := IsAddressEnabled e)) es"
  using stateAfter_append[of f "[e]" es] by (simp add: stateAfter_single)

lemma addressEvents_disabled [simp]:
  "addressEvents (disabledNotices now as) = map (\<lambda>a. NewAddressEvent now a EventTypeAddressDisabled) as"
  by (induction as) (simp_all add: disabledNotices_def)

lemma stateAfter_disabled:
  "stateAfter f (map (\<lambda>a. NewAddressEvent now a EventTypeAddressDisabled) as) = (\<lambda>i. f i \<and> i \<notin> a_ID ` set as)"
proof (induction as arbitrary: f)
  case (Cons a as)
  show ?case unfolding list.map stateAfter_Cons Cons.IH by (rule ext) (auto simp: NewAddressEvent_def)
qed (simp add: stateAfter_def lastState_def)

lemma enabledIn_off:
  "st_addresses s' = map (withState now is False source) (st_addresses s) \<Longrightarrow> enabledIn s' = (\<lambda>i. enabledIn s i \<and> i \<notin> is)"
  by (rule ext) (auto simp: enabledIn_def)

lemma announced_disabled:
  assumes "st_addresses s' = map (withState now (a_ID ` set as) False source) (st_addresses s)"
  shows "announced s (disabledNotices now' as) s'"
  using enabledIn_off[OF assms] by (simp add: announced_def stateAfter_disabled)

lemma announced_same: "st_addresses s' = st_addresses s \<Longrightarrow> announced s [] s'"
  by (simp add: announced_def enabledIn_def fun_eq_iff)

lemma disabledNotices_trigger: "n \<in> set (disabledNotices now as) \<Longrightarrow> policyTriggers n"
  by (auto simp: disabledNotices_def policyTriggers_def NewAddressEvent_def)

lemma disabledNotices_none: "(\<forall>n \<in> set (disabledNotices now as). \<not> policyTriggers n) \<longleftrightarrow> as = []"
  using disabledNotices_trigger by (cases as) (auto simp: disabledNotices_def policyTriggers_def NewAddressEvent_def)

text \<open>What no device call touches: hosts, access and policies, leases and rules; rows of addresses and devices only come, and an
  address stays with its device.\<close>

definition addressKey :: "Address \<Rightarrow> id \<times> id" where
  "addressKey a = (a_ID a, a_DeviceID a)"

text \<open>The tables the other inputs of the policy cache are read from.\<close>

definition hostTables :: "store \<Rightarrow> Host list \<times> (id \<times> id) list \<times> UserHostSetting list \<times> (id \<times> id) list \<times> NetworkPolicy list \<times> (id \<times> id) list" where
  "hostTables s = (st_hosts s, st_groupMembers s, st_userSettings s, st_userGroups s, st_policies s, st_policyGroups s)"

definition tables :: "store \<Rightarrow> store \<Rightarrow> bool" where
  "tables s t \<longleftrightarrow> hostTables t = hostTables s \<and> st_leases t = st_leases s \<and> st_rules t = st_rules s \<and>
     addressKey ` set (st_addresses s) \<subseteq> addressKey ` set (st_addresses t) \<and> d_ID ` set (st_devices s) \<subseteq> d_ID ` set (st_devices t)"

lemma tables_refl [simp]: "tables s s"
  by (simp add: tables_def)

lemma tables_ids: "tables s t \<Longrightarrow> a_ID ` set (st_addresses s) \<subseteq> a_ID ` set (st_addresses t)"
proof -
  assume "tables s t"
  then have "fst ` addressKey ` set (st_addresses s) \<subseteq> fst ` addressKey ` set (st_addresses t)" by (auto simp: tables_def)
  then show ?thesis by (simp add: image_image addressKey_def)
qed

lemma tables_updateActive: "(\<And>d. d_ID (g d) = d_ID d) \<Longrightarrow> tables s t \<Longrightarrow> tables s (updateActive i g t)"
proof -
  assume g: "\<And>d. d_ID (g d) = d_ID d" and t: "tables s t"
  have "set (map d_ID (st_devices (updateActive i g t))) = set (map d_ID (st_devices t))" using updateActive_ids[OF g] by simp
  then show ?thesis using t by (simp add: tables_def) (simp add: updateActive_def hostTables_def)
qed

lemma tables_readonly [inv_intros]:
  "keeps (tables s) (IsDeviceDisabled i)" "keeps (tables s) (GetAddress i)" "keeps (tables s) (GetEnabledAddressesForDevice i)"
  by (auto simp: keeps_def IsDeviceDisabled_def GetAddress_def GetEnabledAddressesForDevice_def split: option.splits)

lemma tables_keeps:
  assumes "\<And>t. hostTables (snd (f t)) = hostTables t \<and> st_leases (snd (f t)) = st_leases t \<and> st_rules (snd (f t)) = st_rules t \<and>
    (\<exists>is. map addressKey (st_addresses (snd (f t))) = map addressKey (st_addresses t) @ is) \<and> (\<exists>is. map d_ID (st_devices (snd (f t))) = map d_ID (st_devices t) @ is)"
  shows "keeps (tables s) f"
proof (rule keepsI)
  fix t assume t: "tables s t"
  obtain "is" js where ids: "map addressKey (st_addresses (snd (f t))) = map addressKey (st_addresses t) @ is"
    "map d_ID (st_devices (snd (f t))) = map d_ID (st_devices t) @ js" using assms[of t] by blast
  from arg_cong[OF ids(1), of set] arg_cong[OF ids(2), of set]
  show "tables s (snd (f t))" using t assms[of t] unfolding tables_def by (metis (no_types, lifting) set_append set_map sup.coboundedI1)
qed

lemma tables_writes [inv_intros]:
  "keeps (tables s) (insertAddressEvent now i b source trigger)" "keeps (tables s) (insertAddress now params source)"
  "keeps (tables s) (repoDeleteAPIKey i)" "keeps (tables s) (UpsertAPIKey now i h pre)" "keeps (tables s) (repoCreateDevice now cparams)"
  by (rule tables_keeps, simp add: insertAddressEvent_def insertAddress_def repoDeleteAPIKey_def UpsertAPIKey_def repoCreateDevice_def Let_def hostTables_def)+

lemma tables_setAddressState [inv_intros]: "keeps (tables s) (modify (setAddressState now i b source))"
  by (rule tables_keeps) (simp add: setAddressState_def hostTables_def comp_def addressKey_def[abs_def] if_distrib[of a_ID] if_distrib[of a_DeviceID] cong: if_cong)

lemma tables_devices [inv_intros]:
  "keeps (tables s) (repoDeleteDevice now i)" "keeps (tables s) (SetDeviceDisabled now i b)" "keeps (tables s) (repoUpdateDevice now row)"
  by (auto simp: keeps_def repoDeleteDevice_def SetDeviceDisabled_def repoUpdateDevice_def intro!: tables_updateActive)

lemma tables_record [inv_intros]: "keeps (tables s) (recordAddressEvent b now i en source trigger)"
  unfolding recordAddressEvent_def by (intro inv_intros)

lemma tables_disableAddresses [inv_intros]: "keeps (tables s) (repoDisableAddresses b now is source trigger)"
  unfolding repoDisableAddresses_def by (auto intro!: inv_intros)

lemma tables_disableEnabled [inv_intros]: "keeps (tables s) (disableEnabled now i)"
  unfolding disableEnabled_def by (intro inv_intros)

lemma tables_deleteKeyIfAny [inv_intros]: "keeps (tables s) (deleteKeyIfAny i)"
  by (simp add: keeps_def deleteKeyIfAny_effect tables_def hostTables_def)

lemma tables_registerTx [inv_intros]: "keeps (tables s) (registerTx now params source trigger)"
proof -
  have new: "keeps (tables s) (andThen (CreateAddress True now params source trigger) (\<lambda>a. ret (a, ty)))" for ty
    unfolding CreateAddress_def by (intro inv_intros)
  have old: "keeps (tables s) (andThen (EnableAddress True now j source trigger) (\<lambda>a. ret (a, ty)))" for j ty
    unfolding EnableAddress_def by (intro inv_intros)
  have look: "keeps (tables s) (\<lambda>t. case GetAddressForDeviceByIP d ip t of (Inl e, s') \<Rightarrow> f e s' | (Inr x, s') \<Rightarrow> g x s')"
    if "\<And>e. keeps (tables s) (f e)" "\<And>x. keeps (tables s) (g x)" for d ip and f g :: "_ \<Rightarrow> 'b op"
    using that by (auto simp: keeps_def GetAddressForDeviceByIP_def split: list.splits)
  have if_op: "(\<lambda>t. if b then f t else g t) = (if b then f else g)" for b and f g :: "'b op" by auto
  show ?thesis unfolding registerTx_def RefreshAddress_def
    by (intro inv_intros) (auto intro!: look inv_intros new old simp: if_op simp del: throw_eq)
qed

text \<open>An event that says an address is enabled names a row and its device; a refresh is of an address
  that was enabled before.\<close>

definition eventRowOk :: "store \<Rightarrow> AddressEvent \<Rightarrow> store \<Rightarrow> bool" where
  "eventRowOk s e s' \<longleftrightarrow> (\<exists>a \<in> set (st_addresses s'). a_ID a = ev_AddressID e \<and> a_DeviceID a = ev_DeviceID e) \<and>
     (ev_Type e = EventTypeAddressRefreshed \<longrightarrow> enabledIn s (ev_AddressID e))"

lemma eventRowOk_ids:
  assumes "eventRowOk s e s'" "deviceInv s'"
  shows "ev_AddressID e \<in> a_ID ` set (st_addresses s') \<and> ev_DeviceID e \<in> d_ID ` set (st_devices s')"
proof -
  obtain a where a: "a \<in> set (st_addresses s')" "ev_AddressID e = a_ID a" "ev_DeviceID e = a_DeviceID a"
    using assms(1) by (auto simp: eventRowOk_def)
  moreover have "a_DeviceID a \<in> d_ID ` set (st_devices s')" using assms(2) a(1) unfolding deviceInv_def by blast
  ultimately show ?thesis by simp
qed

locale address_source =
  fixes call :: "'a svc"
  assumes announces: "deviceInv s \<Longrightarrow> call s = (r, ns, s') \<Longrightarrow> announced s ns s'"
    and silent: "deviceInv s \<Longrightarrow> call s = (r, ns, s') \<Longrightarrow> \<not> (\<exists>n \<in> set ns. policyTriggers n) \<Longrightarrow> set (ipEntries s') = set (ipEntries s)"
    and keeps_inv: "deviceInv s \<Longrightarrow> call s = (r, ns, s') \<Longrightarrow> deviceInv s'"
    and rows: "deviceInv s \<Longrightarrow> call s = (r, ns, s') \<Longrightarrow> e \<in> set (addressEvents ns) \<Longrightarrow> IsAddressEnabled e \<Longrightarrow>
      eventRowOk s e s'"
    and rest: "call s = (r, ns, s') \<Longrightarrow> tables s s'"
begin

text \<open>A listener whose picture of the addresses is right once its queue is processed stays so when the
  notifications of a call are appended to the queue.\<close>

lemma queue_stays_right:
  assumes "deviceInv s" "stateAfter view q = enabledIn s" "call s = (r, ns, s')"
  shows "stateAfter view (q @ addressEvents ns) = enabledIn s'"
  using announces[OF assms(1,3)] assms(2) by (simp add: announced_def stateAfter_append)

end

lemma keepsSvcD: "keepsSvc I f \<Longrightarrow> I s \<Longrightarrow> f s = (r, ns, s') \<Longrightarrow> I s'"
  by (auto simp: keepsSvc_def storeAfter_def)

section \<open>The calls\<close>

lemma ipEntries_cong:
  assumes "st_devices s' = st_devices s"
    and "\<And>a :: Address. a_IsEnabled a \<Longrightarrow> (\<exists>b \<in> set (st_addresses s'). a_IsEnabled b \<and> a_ID b = a_ID a \<and> a_DeviceID b = a_DeviceID a \<and> a_IP b = a_IP a) \<longleftrightarrow>
      (\<exists>b \<in> set (st_addresses s). a_IsEnabled b \<and> a_ID b = a_ID a \<and> a_DeviceID b = a_DeviceID a \<and> a_IP b = a_IP a)"
  shows "set (ipEntries s') = set (ipEntries s)"
proof (rule set_eqI)
  fix e
  show "e \<in> set (ipEntries s') \<longleftrightarrow> e \<in> set (ipEntries s)"
  proof
    assume "e \<in> set (ipEntries s')"
    then obtain a d where a: "a \<in> set (st_addresses s')" "a_IsEnabled a" "d \<in> set (st_devices s')" "d_ID d = a_DeviceID a" "d_DeletedAt d = None"
      "e = \<lparr>ie_IP = a_IP a, ie_DeviceID = a_DeviceID a, ie_AddressID = a_ID a, ie_UserID = d_OwnerID d\<rparr>" unfolding ipEntries_iff by blast
    then obtain b where "b \<in> set (st_addresses s)" "a_IsEnabled b" "a_ID b = a_ID a" "a_DeviceID b = a_DeviceID a" "a_IP b = a_IP a"
      using assms(2)[OF a(2)] by blast
    then show "e \<in> set (ipEntries s)" using a assms(1) unfolding ipEntries_iff by force
  next
    assume "e \<in> set (ipEntries s)"
    then obtain a d where a: "a \<in> set (st_addresses s)" "a_IsEnabled a" "d \<in> set (st_devices s)" "d_ID d = a_DeviceID a" "d_DeletedAt d = None"
      "e = \<lparr>ie_IP = a_IP a, ie_DeviceID = a_DeviceID a, ie_AddressID = a_ID a, ie_UserID = d_OwnerID d\<rparr>" unfolding ipEntries_iff by blast
    then obtain b where "b \<in> set (st_addresses s')" "a_IsEnabled b" "a_ID b = a_ID a" "a_DeviceID b = a_DeviceID a" "a_IP b = a_IP a"
      using assms(2)[OF a(2)] by blast
    then show "e \<in> set (ipEntries s')" using a assms(1) unfolding ipEntries_iff by force
  qed
qed

text \<open>All calls have the shape of \<open>notifying\<close>; a failed one leaves the store as it was.\<close>

lemma notifying_source:
  assumes "keepsSvc deviceInv (notifying f ev)"
    and fails: "\<And>s e s'. f s = (Inl e, s') \<Longrightarrow> s' = s"
    and ann: "\<And>s x s'. deviceInv s \<Longrightarrow> f s = (Inr x, s') \<Longrightarrow> announced s (ev x) s'"
    and sil: "\<And>s x s'. deviceInv s \<Longrightarrow> f s = (Inr x, s') \<Longrightarrow> \<not> (\<exists>n \<in> set (ev x). policyTriggers n) \<Longrightarrow>
      set (ipEntries s') = set (ipEntries s)"
    and row: "\<And>s x s' e. deviceInv s \<Longrightarrow> f s = (Inr x, s') \<Longrightarrow> e \<in> set (addressEvents (ev x)) \<Longrightarrow> IsAddressEnabled e \<Longrightarrow>
      eventRowOk s e s'"
    and tab: "\<And>s. keeps (tables s) f"
  shows "address_source (notifying f ev)"
proof
  fix s s' r ns e assume c: "notifying f ev s = (r, ns, s')"
  show "tables s s'" using c keepsD[OF tab tables_refl] by (cases r) (auto simp: notifying_Inl notifying_Inr)
  assume s: "deviceInv s"
  show "eventRowOk s e s'"
    if "e \<in> set (addressEvents ns)" "IsAddressEnabled e"
    using c row[OF s _ _ that(2)] that(1) by (cases r) (auto simp: notifying_Inl notifying_Inr)
  show "deviceInv s'" using keepsSvcD[OF assms(1) s c] .
  show "announced s ns s'" using c ann[OF s] by (cases r) (auto simp: notifying_Inl notifying_Inr announced_same dest: fails)
  show "set (ipEntries s') = set (ipEntries s)" if "\<not> (\<exists>n \<in> set ns. policyTriggers n)"
    using c sil[OF s] that by (cases r) (auto simp: notifying_Inl notifying_Inr dest: fails)
qed

lemma enabledIn_on:
  assumes "st_addresses s' = map (withState now {i} True source) (st_addresses s)" "i \<in> a_ID ` set (st_addresses s)"
  shows "enabledIn s' = (enabledIn s)(i := True)"
  using assms by (intro ext) (auto simp: enabledIn_def)

lemma register_announced:
  assumes s: "deviceInv s" and reg: "registerTx now params source trigger s = (Inr (a, ty), s')"
  shows "announced s [AddressNotice (NewAddressEvent now' a ty)] s'"
    and "ty = EventTypeAddressRefreshed \<Longrightarrow> set (ipEntries s') = set (ipEntries s)"
proof -
  have live: "liveDevice s (cap_DeviceID params)"
    using reg registerTx_missing[of s params] registerTx_disabled[OF s, of params] by (metis Inl_Inr_False prod.inject)
  have "announced s [AddressNotice (NewAddressEvent now' a ty)] s' \<and> (ty = EventTypeAddressRefreshed \<longrightarrow> set (ipEntries s') = set (ipEntries s))"
  proof (cases rule: disjE[OF rowsAt_unique[OF s, of params]])
    case 1
    then have "a = newAddress s now params source" "ty = EventTypeAddressCreated" "st_addresses s' = st_addresses s @ [a]"
      using reg by (auto simp: registerTx_create[OF s live 1])
    then show ?thesis
      by (auto simp: announced_def stateAfter_single NewAddressEvent_def enabledIn_def newAddress_def fun_eq_iff)
  next
    case 2
    then obtain b where b: "rowsAt s params = [b]" by blast
    then have mem: "b \<in> set (st_addresses s)" by (auto simp: rowsAt_def filter_eq_Cons_iff)
    have eff: "a = inState now True source b" "ty = (if a_IsEnabled b then EventTypeAddressRefreshed else EventTypeAddressEnabled)"
      "st_addresses s' = map (withState now {a_ID b} True source) (st_addresses s)" "st_devices s' = st_devices s"
      using reg by (auto simp: registerTx_existing[OF s live b])
    have "set (ipEntries s') = set (ipEntries s)" if "a_IsEnabled b"
    proof (rule ipEntries_cong[OF eff(4)])
      have "x = b" if "x \<in> set (st_addresses s)" "a_ID x = a_ID b" for x
        using that mem deviceInvD(2)[OF s] by (meson distinct_map inj_onD)
      then show "(\<exists>x \<in> set (st_addresses s'). a_IsEnabled x \<and> a_ID x = a_ID y \<and> a_DeviceID x = a_DeviceID y \<and> a_IP x = a_IP y) \<longleftrightarrow>
        (\<exists>x \<in> set (st_addresses s). a_IsEnabled x \<and> a_ID x = a_ID y \<and> a_DeviceID x = a_DeviceID y \<and> a_IP x = a_IP y)" for y :: Address
        using that by (auto simp: eff(3))
    qed
    then show ?thesis using enabledIn_on[OF eff(3)] mem eff(1,2)
      by (auto simp: announced_def stateAfter_single NewAddressEvent_def split: if_splits)
  qed
  then show "announced s [AddressNotice (NewAddressEvent now' a ty)] s'"
    "ty = EventTypeAddressRefreshed \<Longrightarrow> set (ipEntries s') = set (ipEntries s)" by blast+
qed

lemma register_row:
  assumes s: "deviceInv s" and reg: "registerTx now params source trigger s = (Inr (a, ty), s')"
  shows "a \<in> set (st_addresses s')" "ty = EventTypeAddressRefreshed \<Longrightarrow> enabledIn s (a_ID a)"
proof -
  have live: "liveDevice s (cap_DeviceID params)"
    using reg registerTx_missing[of s params] registerTx_disabled[OF s, of params] by (metis Inl_Inr_False prod.inject)
  from register_live[OF s live, of now source trigger] reg have "rowsAt s' params = [a]" by auto
  then show "a \<in> set (st_addresses s')" by (auto simp: rowsAt_def filter_eq_Cons_iff)
  show "enabledIn s (a_ID a)" if ty: "ty = EventTypeAddressRefreshed"
  proof (cases rule: disjE[OF rowsAt_unique[OF s, of params]])
    case 1
    then show ?thesis using reg ty by (auto simp: registerTx_create[OF s live 1])
  next
    case 2
    then obtain b where b: "rowsAt s params = [b]" by blast
    then have "b \<in> set (st_addresses s)" by (auto simp: rowsAt_def filter_eq_Cons_iff)
    then show ?thesis using reg ty by (auto simp: registerTx_existing[OF s live b] enabledIn_def split: if_splits)
  qed
qed

lemma RegisterAddressActivity_source: "address_source (RegisterAddressActivity proxy now i ip source trigger)"
  unfolding RegisterAddressActivity_def
proof (rule notifying_source[OF RegisterAddressActivity_keeps[unfolded RegisterAddressActivity_def]])
  let ?f = "andThen (liftE DeviceErr (NewCreateAddressParams i ip proxy)) (\<lambda>params. withinTx False (registerTx now params source trigger))"
  have tx: "\<exists>params. registerTx now params source trigger s = (Inr x, s')" if "?f s = (Inr x, s')" for s x s'
    using that by (auto simp: andThen_def liftE_def withinTx_Inr split: sum.splits)
  show "s' = s" if "?f s = (Inl e, s')" for s e s'
    using that by (auto simp: andThen_def liftE_def dest: withinTx_Inl split: sum.splits)
  fix s x s' assume s: "deviceInv s" and f: "?f s = (Inr x, s')"
  from tx[OF f] obtain params a ty where x: "registerTx now params source trigger s = (Inr (a, ty), s')" "x = (a, ty)"
    by (cases x) auto
  show "announced s (case x of (address, eventType) \<Rightarrow> [AddressNotice (NewAddressEvent now address eventType)]) s'"
    using register_announced(1)[OF s x(1)] x(2) by simp
  show "set (ipEntries s') = set (ipEntries s)"
    if "\<not> (\<exists>n \<in> set (case x of (address, eventType) \<Rightarrow> [AddressNotice (NewAddressEvent now address eventType)]). policyTriggers n)"
    using that x(2) register_announced(2)[OF s x(1)] by (simp add: policyTriggers_def NewAddressEvent_def)
  show "eventRowOk s e s'"
    if "e \<in> set (addressEvents (case x of (address, eventType) \<Rightarrow> [AddressNotice (NewAddressEvent now address eventType)]))" for e
    using that x(2) register_row[OF s x(1)] by (auto simp: NewAddressEvent_def eventRowOk_def)
qed (intro inv_intros)

lemma mapEach_record_ids:
  "mapEach (\<lambda>i. recordAddressEvent True now i False source trigger) is s = (Inr as, s') \<Longrightarrow> set is \<subseteq> a_ID ` set (st_addresses s)"
proof (induction "is" arbitrary: s as)
  case (Cons i "is")
  then obtain b t bs where t: "recordAddressEvent True now i False source trigger s = (Inr b, t)"
    "mapEach (\<lambda>i. recordAddressEvent True now i False source trigger) is t = (Inr bs, s')"
    by (auto elim!: andThen_InrD)
  have i: "i \<in> a_ID ` set (st_addresses s)" using t(1) recordAddressEvent_missing[of i s] by (metis Inl_Inr_False prod.inject)
  have "st_addresses t = map (withState now {i} False source) (st_addresses s)"
    using recordAddressEvent_found[OF i, of True now False source trigger] t(1) by auto
  then show ?case using Cons.IH[OF t(2)] i by (simp add: image_image)
qed simp

text \<open>A call that disables addresses announces all of them, and one that announces none disables none.\<close>

lemma tables_repoDisableAddress [inv_intros]: "keeps (tables s) (repoDisableAddress b now i)"
  unfolding repoDisableAddress_def by (intro inv_intros)

lemma disabling_source:
  assumes "keepsSvc deviceInv (notifying f ev)" "\<And>s e s'. f s = (Inl e, s') \<Longrightarrow> s' = s"
    and ok: "\<And>s x s'. deviceInv s \<Longrightarrow> f s = (Inr x, s') \<Longrightarrow>
      \<exists>as source. ev x = disabledNotices now as \<and> st_addresses s' = map (withState now (a_ID ` set as) False source) (st_addresses s)
        \<and> (as = [] \<longrightarrow> set (ipEntries s') = set (ipEntries s))"
    and tab: "\<And>s. keeps (tables s) f"
  shows "address_source (notifying f ev)"
proof (rule notifying_source[OF assms(1)])
  fix s x s' assume s: "deviceInv s" "f s = (Inr x, s')"
  from ok[OF s] obtain as source where as: "ev x = disabledNotices now as"
    "st_addresses s' = map (withState now (a_ID ` set as) False source) (st_addresses s)"
    "as = [] \<Longrightarrow> set (ipEntries s') = set (ipEntries s)" by blast
  show "announced s (ev x) s'" using announced_disabled[OF as(2)] as(1) by simp
  show "set (ipEntries s') = set (ipEntries s)" if "\<not> (\<exists>n \<in> set (ev x). policyTriggers n)"
    using that as(1,3) disabledNotices_none[of now as] by auto
  show "eventRowOk s e s'"
    if "e \<in> set (addressEvents (ev x))" "IsAddressEnabled e" for e
    using that by (auto simp: as(1) NewAddressEvent_def)
qed (erule assms(2), rule tab)

lemma withState_none [simp]: "map (withState now {} b source) as = as"
  by (simp add: withState_def map_idI)

lemma disabled_one:
  assumes "andThen (repoGetDevice i) (\<lambda>_. andThen (CheckAddressOwnership i j) (\<lambda>_. repoDisableAddress True now j)) s = (Inr x, s')"
  shows "a_ID x = j \<and> st_addresses s' = map (withState now {j} False EventSourceWebUI) (st_addresses s)"
proof -
  have eff: "repoDisableAddress True now j s = (Inr x, s')"
    using assms by (auto simp: andThen_def repoGetDevice_def CheckAddressOwnership_def split: option.splits if_splits)
  then have j: "j \<in> a_ID ` set (st_addresses s)"
    using recordAddressEvent_missing[of j s] unfolding repoDisableAddress_def by (metis Inl_Inr_False prod.inject)
  from recordAddressEvent_found[OF j, of True now False EventSourceWebUI EventTriggerUser] eff show ?thesis
    unfolding repoDisableAddress_def by auto
qed

lemma DisableAddress_source: "address_source (DisableAddress now i j)"
  unfolding DisableAddress_def
proof (rule disabling_source[OF DisableAddress_keeps[unfolded DisableAddress_def] withinTx_Inl])
  fix s x s' assume "withinTx False (andThen (repoGetDevice i) (\<lambda>_. andThen (CheckAddressOwnership i j) (\<lambda>_. repoDisableAddress True now j))) s = (Inr x, s')"
  from disabled_one[OF this[unfolded withinTx_Inr]]
  show "\<exists>as source. disabledNotices now [x] = disabledNotices now as \<and>
      st_addresses s' = map (withState now (a_ID ` set as) False source) (st_addresses s) \<and> (as = [] \<longrightarrow> set (ipEntries s') = set (ipEntries s))"
    by (intro exI[of _ "[x]"] exI[of _ EventSourceWebUI]) simp
qed (auto intro!: inv_intros)

lemma DisableAddresses_source: "address_source (DisableAddresses now is source trigger)"
  unfolding DisableAddresses_def
proof (rule disabling_source[OF DisableAddresses_keeps[unfolded DisableAddresses_def]])
  show "s' = s" if "repoDisableAddresses False now is source trigger s = (Inl e, s')" for s e s'
    using that by (auto simp: repoDisableAddresses_def dest: withinTx_Inl split: if_splits)
  fix s x s' assume ok: "repoDisableAddresses False now is source trigger s = (Inr x, s')"
  show "\<exists>as source. disabledNotices now x = disabledNotices now as \<and>
      st_addresses s' = map (withState now (a_ID ` set as) False source) (st_addresses s) \<and> (as = [] \<longrightarrow> set (ipEntries s') = set (ipEntries s))"
  proof (cases "is = []")
    case True
    then show ?thesis using ok by (intro exI[of _ "[]"]) (auto simp: repoDisableAddresses_def disabledNotices_def)
  next
    case False
    then have m: "mapEach (\<lambda>i. recordAddressEvent True now i False source trigger) is s = (Inr x, s')"
      using ok by (simp add: repoDisableAddresses_def withinTx_Inr)
    from mapEach_disable[OF mapEach_record_ids[OF m], of now source trigger] m
    have "map a_ID x = is" "st_addresses s' = map (withState now (set is) False source) (st_addresses s)" by auto
    then show ?thesis using False by (intro exI[of _ x] exI[of _ source]) auto
  qed
qed (auto intro!: inv_intros)

lemma no_enabled_same:
  assumes "enabledIDs s i = {}" "set (ipEntries t) = entriesWithout i s"
  shows "set (ipEntries t) = set (ipEntries s)"
proof -
  have "ie_DeviceID e \<noteq> i" if "e \<in> set (ipEntries s)" for e
    using that assms(1) by (auto simp: ipEntries_iff enabledIDs_def)
  then show ?thesis using assms(2) by (auto simp: entriesWithout_def)
qed

lemma DeleteDevice_source: "address_source (DeleteDevice b now i)"
  unfolding DeleteDevice_def
proof (rule disabling_source[OF DeleteDevice_keeps[unfolded DeleteDevice_def]])
  let ?f = "andThen (repoDeleteDevice now i) (\<lambda>_. andThen (disableEnabled now i) (\<lambda>as. andThen (deleteKeyIfAny i) (\<lambda>_. ret as)))"
  show "s' = s" if h: "withinTx b ?f s = (Inl e, s')" for s e s'
  proof (cases "presentDevice s i")
    case True
    then show ?thesis using deleteTx_effect[OF True, of now] h by (auto simp: withinTx_def split: if_splits)
  qed (use h in \<open>auto simp: withinTx_def deleteTx_missing split: if_splits\<close>)
  fix s x s' assume s: "deviceInv s" and ok: "withinTx b ?f s = (Inr x, s')"
  then have f: "?f s = (Inr x, s')" by (simp add: withinTx_Inr)
  then have here: "presentDevice s i" using deleteTx_missing[of s i now] by (metis Inl_Inr_False prod.inject)
  from deleteTx_effect[OF here, of now] f
  have ids: "a_ID ` set x = enabledIDs s i" and adr: "st_addresses s' = map (withState now (enabledIDs s i) False EventSourceWebUI) (st_addresses s)"
    by (auto simp: disableStore_def)
  have "set (ipEntries s') = entriesWithout i s"
    using DeleteDevice_ok[OF s here, of b now] ok by (auto simp: DeleteDevice_def notifying_def)
  then show "\<exists>as source. disabledNotices now x = disabledNotices now as \<and>
      st_addresses s' = map (withState now (a_ID ` set as) False source) (st_addresses s) \<and> (as = [] \<longrightarrow> set (ipEntries s') = set (ipEntries s))"
    using ids adr no_enabled_same[of s i s'] by (intro exI[of _ x] exI[of _ EventSourceWebUI]) auto
qed (auto intro!: inv_intros)

lemma disableTx_missing:
  "\<not> presentDevice s i \<Longrightarrow> andThen (repoGetDevice i) g s = (Inl (DeviceErr ErrDeviceNotFound), s)"
  by (simp add: andThen_def repoGetDevice_def activeDevice_None[symmetric])

lemma disableTx_addresses:
  assumes "andThen (repoGetDevice i) (\<lambda>_. andThen (disableEnabled now i) (\<lambda>as. andThen (SetDeviceDisabled now i True) (\<lambda>_.
      andThen (repoGetDevice i) (\<lambda>device. ret (device, as))))) s = (Inr x, s')"
  shows "a_ID ` set (snd x) = enabledIDs s i \<and> st_addresses s' = map (withState now (enabledIDs s i) False EventSourceWebUI) (st_addresses s)"
proof -
  obtain as evs where "disableEnabled now i s = (Inr as, disableStore now i evs s)" "a_ID ` set as = enabledIDs s i"
    using disableEnabled_effect by blast
  then show ?thesis using assms
    by (auto simp: andThen_def repoGetDevice_def SetDeviceDisabled_def disableStore_def split: option.splits if_splits)
qed

lemma DisableDevice_source: "address_source (DisableDevice now i)"
  unfolding DisableDevice_def
proof (rule disabling_source[OF DisableDevice_keeps[unfolded DisableDevice_def] withinTx_Inl])
  let ?f = "andThen (repoGetDevice i) (\<lambda>_. andThen (disableEnabled now i) (\<lambda>as. andThen (SetDeviceDisabled now i True) (\<lambda>_.
      andThen (repoGetDevice i) (\<lambda>device. ret (device, as)))))"
  fix s x s' assume s: "deviceInv s" and ok: "withinTx False ?f s = (Inr x, s')"
  then have f: "?f s = (Inr x, s')" by (simp add: withinTx_Inr)
  then have here: "presentDevice s i" by - (rule ccontr, simp add: disableTx_missing)
  have "set (ipEntries s') = entriesWithout i s"
  proof -
    from DisableDevice_ok[OF s here, of now] obtain y ns t where t: "DisableDevice now i s = (Inr y, ns, t)" "set (ipEntries t) = entriesWithout i s"
      by (elim exE conjE) (rule that, assumption+)
    have "withinTx False ?f s = (Inr y, t)" using t(1) unfolding DisableDevice_def notifying_Inr by (rule conjunct1)
    then show ?thesis using t(2) ok by simp
  qed
  then show "\<exists>as source. (case x of (uu, as) \<Rightarrow> disabledNotices now as) = disabledNotices now as \<and>
      st_addresses s' = map (withState now (a_ID ` set as) False source) (st_addresses s) \<and> (as = [] \<longrightarrow> set (ipEntries s') = set (ipEntries s))"
    using disableTx_addresses[OF f] no_enabled_same[of s i s'] by (cases x, intro exI[of _ "snd x"] exI[of _ EventSourceWebUI]) auto
qed (auto intro!: inv_intros)

text \<open>Only the owner of a device reaches the cache; a change of it is announced.\<close>

lemma ipEntries_rename:
  assumes "\<And>d. d \<in> set (st_devices s) \<Longrightarrow> d_ID d = i \<Longrightarrow> d_DeletedAt d = None \<Longrightarrow>
      d_ID (g d) = d_ID d \<and> d_DeletedAt (g d) = None \<and> d_OwnerID (g d) = d_OwnerID d"
  shows "set (ipEntries (updateActive i g s)) = set (ipEntries s)"
proof -
  have "map (\<lambda>d. \<lparr>ie_IP = a_IP a, ie_DeviceID = a_DeviceID a, ie_AddressID = a_ID a, ie_UserID = d_OwnerID d\<rparr>)
      (filter (\<lambda>d. d_ID d = a_DeviceID a \<and> d_DeletedAt d = None) (map (\<lambda>d. if d_ID d = i \<and> d_DeletedAt d = None then g d else d) ds)) =
    map (\<lambda>d. \<lparr>ie_IP = a_IP a, ie_DeviceID = a_DeviceID a, ie_AddressID = a_ID a, ie_UserID = d_OwnerID d\<rparr>)
      (filter (\<lambda>d. d_ID d = a_DeviceID a \<and> d_DeletedAt d = None) ds)" if "set ds \<subseteq> set (st_devices s)" for a :: Address and ds
    using that assms by (induction ds) auto
  from this[of "st_devices s"] have "enabledRow (updateActive i g s) a = enabledRow s a" for a by (simp add: enabledRow_def updateActive_devices)
  then have "enabledRow (updateActive i g s) = enabledRow s" by (rule ext)
  then show ?thesis by (simp add: ipEntries_def)
qed

lemma activeDevice_unique:
  "deviceInv s \<Longrightarrow> activeDevice s i = Some d \<Longrightarrow> x \<in> set (st_devices s) \<Longrightarrow> d_ID x = i \<Longrightarrow> x = d"
  using activeDevice_Some[of s i d] unique_device[of s x d] by simp

lemma repoUpdateDevice_cases:
  assumes "repoUpdateDevice now row s = (r, s')"
  shows "(s' = s \<and> (\<exists>e. r = Inl e)) \<or> (\<exists>x. r = Inr x) \<and> s' = updateActive (d_ID row) (\<lambda>d. d\<lparr>d_Name := d_Name row, d_Description := d_Description row,
          d_Icon := d_Icon row, d_OwnerID := d_OwnerID row, d_UpdatedAt := sqlNow now\<rparr>) s"
proof -
  let ?g = "\<lambda>d. d\<lparr>d_Name := d_Name row, d_Description := d_Description row, d_Icon := d_Icon row, d_OwnerID := d_OwnerID row, d_UpdatedAt := sqlNow now\<rparr>"
  let ?t = "updateActive (d_ID row) ?g s"
  have "activeDevice ?t (d_ID row) \<noteq> None" if "activeDevice s (d_ID row) \<noteq> None"
  proof -
    obtain d where "d \<in> set (st_devices s)" "d_ID d = d_ID row" "d_DeletedAt d = None"
      using \<open>activeDevice s (d_ID row) \<noteq> None\<close> unfolding activeDevice_None by (auto simp: presentDevice_def)
    then have "presentDevice ?t (d_ID row)" using updateActive_mem[of d s "d_ID row" ?g]
      by (auto simp: presentDevice_def intro!: bexI[of _ "?g d"])
    then show ?thesis using activeDevice_None[of ?t "d_ID row"] by simp
  qed
  then show ?thesis using assms
    by (auto simp: repoUpdateDevice_def repoGetDevice_def split: if_splits option.splits)
qed

lemma UpdateDevice_source: "address_source (UpdateDevice now i input)"
  unfolding UpdateDevice_def
proof (rule notifying_source[OF UpdateDevice_keeps[unfolded UpdateDevice_def]])
  let ?f = "andThen (repoGetDevice i) (\<lambda>device.
      andThen (liftE DeviceErr (Update (dv_row device) (udi_Name input) (udi_Description input) (udi_Icon input) (udi_OwnerID input))) (\<lambda>row.
      andThen (repoUpdateDevice now row) (\<lambda>updated. ret (updated, ownershipChanged input (dv_row device)))))"
  show "s' = s" if "?f s = (Inl e, s')" for s e s'
    using that repoUpdateDevice_cases by (fastforce simp: andThen_def repoGetDevice_def liftE_def split: option.splits sum.splits prod.splits)
  fix s x s' assume s: "deviceInv s" and f: "?f s = (Inr x, s')"
  obtain d row where d: "activeDevice s i = Some d"
    and row: "Update d (udi_Name input) (udi_Description input) (udi_Icon input) (udi_OwnerID input) = Inr row"
    and changed: "snd x = ownershipChanged input d"
    and upd: "\<exists>y. repoUpdateDevice now row s = (Inr y, s')"
    using f by (auto simp: andThen_def repoGetDevice_def liftE_def withKey_def split: option.splits sum.splits prod.splits)
  have r: "d_ID row = i" "\<not> ownershipChanged input d \<Longrightarrow> d_OwnerID row = d_OwnerID d"
    using row activeDevice_Some(2)[OF d] by (auto simp: Update_def ownershipChanged_def split: if_splits option.splits)
  have s': "s' = updateActive i (\<lambda>d. d\<lparr>d_Name := d_Name row, d_Description := d_Description row,
      d_Icon := d_Icon row, d_OwnerID := d_OwnerID row, d_UpdatedAt := sqlNow now\<rparr>) s"
    using upd repoUpdateDevice_cases[of now row s] r(1) by fastforce
  let ?ev = "case x of (uu, changed) \<Rightarrow> if changed then [DeviceNotice \<lparr>dev_Type = DeviceEventTypeOwnershipChanged,
        dev_DeviceID = i, dev_OccurredAt = now\<rparr>] else []"
  have "addressEvents ?ev = []" by (simp split: prod.splits)
  then show "announced s ?ev s'" using s' by (simp add: announced_def enabledIn_def fun_eq_iff)
  show "set (ipEntries s') = set (ipEntries s)" if "\<not> (\<exists>n \<in> set ?ev. policyTriggers n)"
  proof -
    have "\<not> ownershipChanged input d" using that changed by (cases x) (auto simp: policyTriggers_def split: if_splits)
    then have "d_OwnerID y = d_OwnerID row" if "y \<in> set (st_devices s)" "d_ID y = i" for y
      using r(2) activeDevice_unique[OF s d that] by simp
    then show ?thesis unfolding s' by (intro ipEntries_rename) simp
  qed
qed (auto intro!: inv_intros split: if_splits)

interpretation heartbeats: address_source "RegisterAddressActivity proxy now i ip source trigger" for proxy now i ip source trigger
  by (rule RegisterAddressActivity_source)

interpretation disabling: address_source "DisableAddress now i j" for now i j
  by (rule DisableAddress_source)

interpretation disablings: address_source "DisableAddresses now is source trigger" for now "is" source trigger
  by (rule DisableAddresses_source)

interpretation deletion: address_source "DeleteDevice b now i" for b now i
  by (rule DeleteDevice_source)

interpretation deviceOff: address_source "DisableDevice now i" for now i
  by (rule DisableDevice_source)

interpretation deviceEdit: address_source "UpdateDevice now i input" for now i input
  by (rule UpdateDevice_source)

text \<open>The other calls send nothing and change no row of the cache.\<close>

definition sameRows :: "store \<Rightarrow> store \<Rightarrow> bool" where
  "sameRows s t \<longleftrightarrow> st_addresses t = st_addresses s \<and> set (ipEntries t) = set (ipEntries s) \<and>
     (\<forall>a \<in> set (st_addresses t). a_DeviceID a \<in> d_ID ` set (st_devices t))"

lemma sameRows_keys [inv_intros]:
  "keeps (sameRows s) (repoDeleteAPIKey i)" "keeps (sameRows s) (UpsertAPIKey now i h pre)"
  by (auto simp: keeps_def repoDeleteAPIKey_def UpsertAPIKey_def sameRows_def ipEntries_iff Let_def)

lemma sameRows_on [inv_intros]: "keeps (sameRows s) (SetDeviceDisabled now i b)"
proof (rule keepsI)
  fix t assume t: "sameRows s t"
  let ?g = "\<lambda>d. d\<lparr>d_DisabledAt := (if b then Some now else None)\<rparr>"
  have "set (ipEntries (updateActive i ?g t)) = set (ipEntries t)" by (rule ipEntries_rename) simp
  moreover have "set (map d_ID (st_devices (updateActive i ?g t))) = set (map d_ID (st_devices t))" by (subst updateActive_ids) simp_all
  ultimately show "sameRows s (snd (SetDeviceDisabled now i b t))" using t by (simp add: SetDeviceDisabled_def sameRows_def)
qed

lemma sameRows_create [inv_intros]: "keeps (sameRows s) (repoCreateDevice now params)"
proof (rule keepsI)
  fix t assume t: "sameRows s t"
  have "sameRows s (t\<lparr>st_devices := st_devices t @ [row]\<rparr>)" if new: "d_ID row = nextID (map d_ID (st_devices t))" for row
  proof -
    have "d_ID row \<noteq> a_DeviceID a" if "a \<in> set (st_addresses t)" for a
    proof -
      have "a_DeviceID a \<in> d_ID ` set (st_devices t)" using t that by (simp add: sameRows_def)
      then show ?thesis unfolding new using nextID_neq(1)[of _ "st_devices t" d_ID] by (metis imageE)
    qed
    then have "set (ipEntries (t\<lparr>st_devices := st_devices t @ [row]\<rparr>)) = set (ipEntries t)" by (auto simp: ipEntries_iff)
    then show ?thesis using t by (simp add: sameRows_def)
  qed
  then show "sameRows s (snd (repoCreateDevice now params t))" using t by (auto simp: repoCreateDevice_def Let_def)
qed

lemma silent_source:
  assumes "keeps deviceInv f" "\<And>s e s'. f s = (Inl e, s') \<Longrightarrow> s' = s" "\<And>s. keeps (sameRows s) f" "\<And>s. keeps (tables s) f"
  shows "address_source (notifying f (\<lambda>_. []))"
proof (rule notifying_source[OF keepsSvc_notifying[OF assms(1)]])
  fix s x s' assume "deviceInv s" "f s = (Inr x, s')"
  then have "sameRows s s'" using keepsD[OF assms(3)[of s], of s] by (auto simp: sameRows_def deviceInv_def)
  then show "announced s [] s'" "set (ipEntries s') = set (ipEntries s)" by (auto simp: sameRows_def announced_same)
qed (erule assms(2), simp, rule assms(4))

lemma CreateDeviceWithOptions_source: "address_source (notifying (CreateDeviceWithOptions hash random now caller input) (\<lambda>_. []))"
proof (rule silent_source[OF CreateDeviceWithOptions_keeps])
  show "s' = s" if "CreateDeviceWithOptions hash random now caller input s = (Inl e, s')" for s e s'
    using that unfolding CreateDeviceWithOptions_def Let_def by (rule withinTx_Inl)
qed (auto simp: CreateDeviceWithOptions_def Let_def split: prod.splits intro!: inv_intros)

lemma EnableDevice_source: "address_source (notifying (EnableDevice now i) (\<lambda>_. []))"
proof (rule silent_source[OF EnableDevice_keeps])
  show "s' = s" if "EnableDevice now i s = (Inl e, s')" for s e s'
    using that unfolding EnableDevice_def by (rule withinTx_Inl)
qed (auto simp: EnableDevice_def intro!: inv_intros)

lemma RegenerateAPIKey_source: "address_source (notifying (RegenerateAPIKey hash random now i) (\<lambda>_. []))"
proof (rule silent_source[OF RegenerateAPIKey_keeps])
  show "s' = s" if "RegenerateAPIKey hash random now i s = (Inl e, s')" for s e s'
    using that by (auto simp: RegenerateAPIKey_def andThen_def[of "liftE _ _"] liftE_def split: sum.splits prod.splits dest: withinTx_Inl)
qed (auto simp: RegenerateAPIKey_def split: prod.splits intro!: inv_intros)

lemma DeleteAPIKey_source: "address_source (notifying (DeleteAPIKey i) (\<lambda>_. []))"
proof (rule silent_source[OF DeleteAPIKey_keeps])
  show "s' = s" if "DeleteAPIKey i s = (Inl e, s')" for s e s'
    using that unfolding DeleteAPIKey_def by (rule withinTx_Inl)
qed (auto simp: DeleteAPIKey_def intro!: inv_intros)

interpretation creation: address_source "notifying (CreateDeviceWithOptions hash random now caller input) (\<lambda>_. [])" for hash random now caller input
  by (rule CreateDeviceWithOptions_source)

interpretation deviceOn: address_source "notifying (EnableDevice now i) (\<lambda>_. [])" for now i
  by (rule EnableDevice_source)

interpretation newKey: address_source "notifying (RegenerateAPIKey hash random now i) (\<lambda>_. [])" for hash random now i
  by (rule RegenerateAPIKey_source)

interpretation noKey: address_source "notifying (DeleteAPIKey i) (\<lambda>_. [])" for i
  by (rule DeleteAPIKey_source)

section \<open>The calls as steps\<close>

text \<open>One call of the device service: the store it leaves and the notifications it still has to send.
  A call that fails is a step too.\<close>

inductive deviceCall :: "store \<Rightarrow> notice list \<Rightarrow> store \<Rightarrow> bool" where
  heartbeat: "RegisterAddressActivity proxy now i ip source trigger s = (r, ns, s') \<Longrightarrow> deviceCall s ns s'"
| disable: "DisableAddress now i j s = (r, ns, s') \<Longrightarrow> deviceCall s ns s'"
| disables: "DisableAddresses now is source trigger s = (r, ns, s') \<Longrightarrow> deviceCall s ns s'"
| delete: "DeleteDevice False now i s = (r, ns, s') \<Longrightarrow> deviceCall s ns s'"
| off: "DisableDevice now i s = (r, ns, s') \<Longrightarrow> deviceCall s ns s'"
| on: "notifying (EnableDevice now i) (\<lambda>_. []) s = (r, ns, s') \<Longrightarrow> deviceCall s ns s'"
| update: "UpdateDevice now i input s = (r, ns, s') \<Longrightarrow> deviceCall s ns s'"
| create: "notifying (CreateDeviceWithOptions hash random now caller cinput) (\<lambda>_. []) s = (r, ns, s') \<Longrightarrow> deviceCall s ns s'"
| newKey: "notifying (RegenerateAPIKey hash random now i) (\<lambda>_. []) s = (r, ns, s') \<Longrightarrow> deviceCall s ns s'"
| noKey: "notifying (DeleteAPIKey i) (\<lambda>_. []) s = (r, ns, s') \<Longrightarrow> deviceCall s ns s'"

text \<open>The laws of the interface for one step.\<close>

definition lawful :: "store \<Rightarrow> notice list \<Rightarrow> store \<Rightarrow> bool" where
  "lawful s ns s' \<longleftrightarrow> announced s ns s' \<and> (\<not> (\<exists>n \<in> set ns. policyTriggers n) \<longrightarrow> set (ipEntries s') = set (ipEntries s)) \<and> deviceInv s' \<and>
     (\<forall>e \<in> set (addressEvents ns). IsAddressEnabled e \<longrightarrow>
        eventRowOk s e s') \<and> tables s s'"

context address_source
begin

lemma call_lawful: "deviceInv s \<Longrightarrow> call s = (r, ns, s') \<Longrightarrow> lawful s ns s'"
proof -
  assume s: "deviceInv s" and c: "call s = (r, ns, s')"
  show ?thesis using announces[OF s c] silent[OF s c] keeps_inv[OF s c] rows[OF s c] rest[OF c] by (simp add: lawful_def)
qed

end

lemma deviceCall_lawful: "deviceCall s ns s' \<Longrightarrow> deviceInv s \<Longrightarrow> lawful s ns s'"
  by (cases rule: deviceCall.cases, assumption) (auto intro: heartbeats.call_lawful disabling.call_lawful disablings.call_lawful deletion.call_lawful
      deviceOff.call_lawful deviceOn.call_lawful deviceEdit.call_lawful creation.call_lawful newKey.call_lawful noKey.call_lawful)

text \<open>A device gains an enabled address only with an event of it that is not a mere refresh.\<close>

definition isActivation :: "AddressEvent \<Rightarrow> bool" where
  "isActivation e \<longleftrightarrow> ev_Type e = EventTypeAddressCreated \<or> ev_Type e = EventTypeAddressEnabled"

lemma stateAfter_gain: "stateAfter f es i \<Longrightarrow> \<not> f i \<Longrightarrow> \<exists>e \<in> set es. ev_AddressID e = i \<and> IsAddressEnabled e"
proof (induction es arbitrary: f)
  case (Cons e es)
  show ?case
  proof (cases "ev_AddressID e = i \<and> IsAddressEnabled e")
    case False
    then have "\<not> (f(ev_AddressID e := IsAddressEnabled e)) i" using Cons.prems(2) by auto
    from Cons.IH[OF Cons.prems(1)[unfolded stateAfter_Cons] this] show ?thesis by (simp del: IsAddressEnabled.simps)
  qed auto
qed simp

lemma lawful_gain:
  assumes law: "lawful s ns s'" and inv: "deviceInv s" and a: "i \<in> enabledIDs s' d" "i \<notin> enabledIDs s d"
  shows "\<exists>e \<in> set (addressEvents ns). isActivation e \<and> ev_DeviceID e = d"
proof -
  obtain a where a': "a \<in> set (st_addresses s')" "a_ID a = i" "a_DeviceID a = d" "a_IsEnabled a" using a(1) by (auto simp: enabledIDs_def)
  have same: "x = a" if "x \<in> set (st_addresses s')" "a_ID x = i" for x
  proof -
    have "distinct (map a_ID (st_addresses s'))" using law deviceInvD(2) by (simp add: lawful_def)
    then show ?thesis using that a'(1,2) by (auto simp: distinct_map dest: inj_onD)
  qed
  have "\<not> enabledIn s i"
  proof
    assume "enabledIn s i"
    then obtain b where b: "b \<in> set (st_addresses s)" "a_ID b = i" "a_IsEnabled b" by (auto simp: enabledIn_def)
    have "addressKey b \<in> addressKey ` set (st_addresses s')" using law b(1) by (auto simp: lawful_def tables_def)
    then obtain c where "c \<in> set (st_addresses s')" "a_ID c = i" "a_DeviceID c = a_DeviceID b" using b(2) by (auto simp: addressKey_def)
    then have "a_DeviceID b = d" using same a'(3) by simp
    then show False using a(2) b by (auto simp: enabledIDs_def)
  qed
  moreover have "enabledIn s' i" using a' by (auto simp: enabledIn_def)
  then have "stateAfter (enabledIn s) (addressEvents ns) i" using law by (simp add: lawful_def announced_def)
  ultimately obtain e where e: "e \<in> set (addressEvents ns)" "ev_AddressID e = i" "IsAddressEnabled e" "\<not> enabledIn s i"
    using stateAfter_gain by blast
  then have "eventRowOk s e s'" using law unfolding lawful_def by blast
  then have "ev_DeviceID e = d \<and> ev_Type e \<noteq> EventTypeAddressRefreshed" using same a'(3) e(2,4) by (auto simp: eventRowOk_def)
  then show ?thesis using e(1,3) by (intro bexI[of _ e]) (auto simp: isActivation_def split: AddressEventType.splits)
qed

lemma lawful_rows:
  "lawful s ns s' \<Longrightarrow> e \<in> set (addressEvents ns) \<Longrightarrow> IsAddressEnabled e \<Longrightarrow>
   ev_AddressID e \<in> a_ID ` set (st_addresses s') \<and> ev_DeviceID e \<in> d_ID ` set (st_devices s')"
  unfolding lawful_def by (rule eventRowOk_ids) blast+

end
