(* ===== verification/Auth.thy ===== *)
theory Auth
  imports Device_Access Useraccess
begin

text \<open>
  Users, sessions and roles (\<open>src/internal/auth\<close>): accounts and their validation, log-in, sessions,
  promotion, demotion and deletion of users, and the start-up account.

  bcrypt is an argument of the calls; \<open>hasherLaw\<close> is what the code relies on: a password matches the hash
  that was generated from it. The SHA-256 of a token and the random bytes are arguments, as for the API keys of devices.
  A session is valid while it is not revoked, its end is after \<open>CURRENT_TIMESTAMP\<close> and its user is not deleted;
  the role of a principal is read from the user each time. SQLite compares the two instants as texts, and
  the end, written with its time zone, is the longer one: so a session lasts to the end of its last second.
\<close>

section \<open>Values\<close>

record hasher =
  ph_generate :: "string \<Rightarrow> string option"
  ph_compare :: "string \<Rightarrow> string \<Rightarrow> bool"

definition hasherLaw :: "hasher \<Rightarrow> bool" where
  "hasherLaw bcrypt \<longleftrightarrow> (\<forall>p h. ph_generate bcrypt p = Some h \<longrightarrow> ph_compare bcrypt h p)"

definition usernameChar :: "char \<Rightarrow> bool" where
  "usernameChar c \<longleftrightarrow> (byte c \<ge> 97 \<and> byte c \<le> 122) \<or> isDigit c \<or> c = CHR ''_'' \<or> c = CHR ''-''"

definition ValidateDisplayName :: "string \<Rightarrow> (err, string) result" where
  "ValidateDisplayName input = (let clean = TrimSpace input in
     if length clean < 1 then Inl (AuthErr ErrInvalidDisplayName)
     else if length clean > 50 then Inl (AuthErr ErrInvalidDisplayName) else Inr clean)"

definition ValidateUsername :: "string \<Rightarrow> (err, string) result" where
  "ValidateUsername username = (let normalized = ToLower (TrimSpace username) in
     if length normalized < 3 then Inl (AuthErr ErrInvalidUsername)
     else if length normalized > 32 then Inl (AuthErr ErrInvalidUsername)
     else if \<not> list_all usernameChar normalized then Inl (AuthErr ErrInvalidUsername) else Inr normalized)"

definition ValidatePassword :: "string \<Rightarrow> (err, unit) result" where
  "ValidatePassword password =
    (if length password < 8 then Inl (AuthErr ErrInvalidPassword)
     else if length password > 72 then Inl (AuthErr ErrInvalidPassword) else Inr ())"

definition hashPassword :: "hasher \<Rightarrow> string \<Rightarrow> (err, string) result" where
  "hashPassword bcrypt password = (case ph_generate bcrypt password of None \<Rightarrow> Inl DBError | Some h \<Rightarrow> Inr h)"

definition checkPassword :: "hasher \<Rightarrow> string \<Rightarrow> string \<Rightarrow> bool" where
  "checkPassword bcrypt h password = ph_compare bcrypt h password"

definition bindR :: "('e, 'a) result \<Rightarrow> ('a \<Rightarrow> ('e, 'b) result) \<Rightarrow> ('e, 'b) result" where
  "bindR r f = (case r of Inl e \<Rightarrow> Inl e | Inr x \<Rightarrow> f x)"

definition NewBootstrappedAdmin :: "hasher \<Rightarrow> time \<Rightarrow> string \<Rightarrow> (err, User) result" where
  "NewBootstrappedAdmin bcrypt now password =
    bindR (ValidatePassword password) (\<lambda>_. bindR (hashPassword bcrypt password) (\<lambda>h.
      Inr \<lparr>u_ID = 0, u_Username = ''admin'', u_DisplayName = ''Admin'', u_Email = Some ''admin@pulseweaver.invalid'',
        u_PasswordHash = Some h, u_Role = SuperAdminRole, u_MustChangePassword = False, u_CreatedBy = None, u_CreatedAt = now,
        u_DeletedAt = None\<rparr>))"

definition NewAdminUser :: "hasher \<Rightarrow> time \<Rightarrow> string \<Rightarrow> string \<Rightarrow> string \<Rightarrow> string option \<Rightarrow> id option \<Rightarrow> bool \<Rightarrow> (err, User) result" where
  "NewAdminUser bcrypt now username displayName password email createdByID mustChangePassword =
    bindR (ValidatePassword password) (\<lambda>_. bindR (ValidateUsername username) (\<lambda>validUsername.
      bindR (ValidateDisplayName displayName) (\<lambda>validDisplayName. bindR (hashPassword bcrypt password) (\<lambda>h.
      Inr \<lparr>u_ID = 0, u_Username = validUsername, u_DisplayName = validDisplayName, u_Email = email, u_PasswordHash = Some h,
        u_Role = AdminRole, u_MustChangePassword = mustChangePassword, u_CreatedBy = createdByID, u_CreatedAt = now, u_DeletedAt = None\<rparr>))))"

definition NewUserAccount :: "time \<Rightarrow> string \<Rightarrow> string \<Rightarrow> string option \<Rightarrow> id option \<Rightarrow> (err, User) result" where
  "NewUserAccount now username displayName email createdByID =
    bindR (ValidateUsername username) (\<lambda>validUsername. bindR (ValidateDisplayName displayName) (\<lambda>validDisplayName.
      Inr \<lparr>u_ID = 0, u_Username = validUsername, u_DisplayName = validDisplayName, u_Email = email, u_PasswordHash = None,
        u_Role = UserRole, u_MustChangePassword = False, u_CreatedBy = createdByID, u_CreatedAt = now, u_DeletedAt = None\<rparr>))"

record ProfileUpdates =
  pu_DisplayName :: "string option"
  pu_Username :: "string option"
  pu_Email :: patch

definition userUpdate :: "User \<Rightarrow> ProfileUpdates \<Rightarrow> (err, User) result" where
  "userUpdate u up =
    (if pu_DisplayName up = None \<and> pu_Username up = None \<and> pu_Email up = None then Inl (AuthErr ErrNoUpdateFields)
     else let u1 = u\<lparr>u_Email := case_option (u_Email u) id (pu_Email up)\<rparr> in
       bindR (case pu_DisplayName up of None \<Rightarrow> Inr u1
              | Some d \<Rightarrow> bindR (ValidateDisplayName d) (\<lambda>v. Inr (u1\<lparr>u_DisplayName := v\<rparr>))) (\<lambda>u2.
       case pu_Username up of None \<Rightarrow> Inr u2
       | Some n \<Rightarrow> bindR (ValidateUsername n) (\<lambda>v. Inr (u2\<lparr>u_Username := v\<rparr>))))"

definition tokenDuration :: time where
  "tokenDuration = 7 * 24 * 3600 * 1000000000"

definition NewSession :: "time \<Rightarrow> id \<Rightarrow> string \<Rightarrow> Session" where
  "NewSession now userID tokenHash = \<lparr>s_ID = 0, s_UserID = userID, s_TokenHash = tokenHash, s_CreatedAt = now,
     s_ExpiresAt = now + tokenDuration, s_LastUsedAt = None, s_RevokedAt = None\<rparr>"

record Principal =
  p_UserID :: id
  p_SessionID :: id
  p_Role :: Role

definition IsSuperAdmin :: "Principal \<Rightarrow> bool" where
  "IsSuperAdmin p \<longleftrightarrow> p_Role p = SuperAdminRole"

definition IsAdmin :: "Principal \<Rightarrow> bool" where
  "IsAdmin p \<longleftrightarrow> p_Role p = AdminRole \<or> IsSuperAdmin p"

section \<open>Queries\<close>

definition activeUser :: "store \<Rightarrow> id \<Rightarrow> User option" where
  "activeUser s i = List.find (\<lambda>u. u_ID u = i \<and> u_DeletedAt u = None) (st_users s)"

text \<open>The unique indexes: names without regard to case, addresses that are not empty, of users that are
  not deleted.\<close>

definition usernameTaken :: "User list \<Rightarrow> string \<Rightarrow> bool" where
  "usernameTaken us n \<longleftrightarrow> (\<exists>u \<in> set us. u_DeletedAt u = None \<and> ToLower (u_Username u) = ToLower n)"

definition emailTaken :: "User list \<Rightarrow> string option \<Rightarrow> bool" where
  "emailTaken us m \<longleftrightarrow> m \<noteq> None \<and> m \<noteq> Some [] \<and> (\<exists>u \<in> set us. u_DeletedAt u = None \<and> u_Email u = m)"

definition auth_CreateUser :: "User \<Rightarrow> User op" where
  "auth_CreateUser user s =
    (if usernameTaken (st_users s) (u_Username user) then throw (AuthErr ErrUsernameTaken) s
     else if emailTaken (st_users s) (u_Email user) then throw (AuthErr ErrEmailTaken) s
     else if u_CreatedBy user \<noteq> None \<and> the (u_CreatedBy user) \<notin> u_ID ` set (st_users s) then throw DBError s
     else let row = user\<lparr>u_ID := nextID (map u_ID (st_users s))\<rparr> in ret row (s\<lparr>st_users := st_users s @ [row]\<rparr>))"

definition GetUserByUsername :: "string \<Rightarrow> User op" where
  "GetUserByUsername username s =
    (case List.find (\<lambda>u. ToLower (u_Username u) = ToLower username \<and> u_DeletedAt u = None) (st_users s) of
       None \<Rightarrow> throw (AuthErr ErrUserNotFound) s | Some u \<Rightarrow> ret u s)"

definition GetUserByID :: "id \<Rightarrow> User op" where
  "GetUserByID i s = (case activeUser s i of None \<Rightarrow> throw (AuthErr ErrUserNotFound) s | Some u \<Rightarrow> ret u s)"

definition CountUsers :: "nat op" where
  "CountUsers = get (\<lambda>s. length (filter (\<lambda>u. u_DeletedAt u = None) (st_users s)))"

definition GetAllUsers :: "User list op" where
  "GetAllUsers = get (\<lambda>s. sort_key (\<lambda>u. - u_CreatedAt u) (filter (\<lambda>u. u_DeletedAt u = None) (st_users s)))"

definition CreateSession :: "Session \<Rightarrow> Session op" where
  "CreateSession session s =
    (if s_UserID session \<notin> u_ID ` set (st_users s) then throw DBError s
     else let row = session\<lparr>s_ID := nextID (map s_ID (st_sessions s)), s_LastUsedAt := None, s_RevokedAt := None\<rparr>
          in ret row (s\<lparr>st_sessions := st_sessions s @ [row]\<rparr>))"

definition FindBootstrappedAdmin :: "User op" where
  "FindBootstrappedAdmin s = (case List.find (\<lambda>u. u_CreatedBy u = None) (st_users s) of
     None \<Rightarrow> throw (AuthErr ErrUserNotFound) s | Some u \<Rightarrow> ret u s)"

definition updateUserRow :: "id \<Rightarrow> (User \<Rightarrow> User) \<Rightarrow> store \<Rightarrow> store" where
  "updateUserRow i f s = s\<lparr>st_users := map (\<lambda>u. if u_ID u = i \<and> u_DeletedAt u = None then f u else u) (st_users s)\<rparr>"

definition repoUpdateUser :: "User \<Rightarrow> User op" where
  "repoUpdateUser user s =
    (if activeUser s (u_ID user) = None then throw (AuthErr ErrUserNotFound) s
     else if usernameTaken (filter (\<lambda>u. u_ID u \<noteq> u_ID user) (st_users s)) (u_Username user) then throw (AuthErr ErrUsernameTaken) s
     else if emailTaken (filter (\<lambda>u. u_ID u \<noteq> u_ID user) (st_users s)) (u_Email user) then throw (AuthErr ErrEmailTaken) s
     else GetUserByID (u_ID user) (updateUserRow (u_ID user) (\<lambda>u. u\<lparr>u_Username := u_Username user, u_DisplayName := u_DisplayName user,
        u_Email := u_Email user, u_Role := u_Role user, u_MustChangePassword := u_MustChangePassword user\<rparr>) s))"

definition UpdatePasswordHash :: "id \<Rightarrow> string \<Rightarrow> bool \<Rightarrow> unit op" where
  "UpdatePasswordHash userID newHash mustChange s =
    (if activeUser s userID = None then throw (AuthErr ErrUserNotFound) s
     else ret () (updateUserRow userID (\<lambda>u. u\<lparr>u_PasswordHash := Some newHash, u_MustChangePassword := mustChange\<rparr>) s))"

definition NullifyPasswordHash :: "id \<Rightarrow> unit op" where
  "NullifyPasswordHash userID s =
    (if activeUser s userID = None then throw (AuthErr ErrUserNotFound) s
     else ret () (updateUserRow userID (\<lambda>u. u\<lparr>u_PasswordHash := None\<rparr>) s))"

definition SoftDeleteUser :: "time \<Rightarrow> id \<Rightarrow> unit op" where
  "SoftDeleteUser now userID s =
    (if activeUser s userID = None then throw (AuthErr ErrUserNotFound) s
     else ret () (updateUserRow userID (\<lambda>u. u\<lparr>u_DeletedAt := Some (sqlNow now)\<rparr>) s))"

definition liveSession :: "time \<Rightarrow> Session \<Rightarrow> bool" where
  "liveSession now x \<longleftrightarrow> s_RevokedAt x = None \<and> sqlNow now \<le> s_ExpiresAt x"

definition revokeWhere :: "time \<Rightarrow> (Session \<Rightarrow> bool) \<Rightarrow> store \<Rightarrow> store" where
  "revokeWhere now P s = s\<lparr>st_sessions := map (\<lambda>x. if P x then x\<lparr>s_RevokedAt := Some (sqlNow now)\<rparr> else x) (st_sessions s)\<rparr>"

definition RevokeAllUserSessions :: "time \<Rightarrow> id \<Rightarrow> unit op" where
  "RevokeAllUserSessions now userID = modify (revokeWhere now (\<lambda>x. s_UserID x = userID \<and> liveSession now x))"

definition RevokeAllUserSessionsExcept :: "time \<Rightarrow> id \<Rightarrow> id \<Rightarrow> unit op" where
  "RevokeAllUserSessionsExcept now userID exceptID =
    modify (revokeWhere now (\<lambda>x. s_UserID x = userID \<and> s_ID x \<noteq> exceptID \<and> liveSession now x))"

definition GetSessionWithRoleByTokenHash :: "time \<Rightarrow> string \<Rightarrow> (Session \<times> Role) op" where
  "GetSessionWithRoleByTokenHash now tokenHash s =
    (case List.find (\<lambda>x. s_TokenHash x = tokenHash \<and> liveSession now x \<and> activeUser s (s_UserID x) \<noteq> None) (st_sessions s) of
       None \<Rightarrow> throw (AuthErr ErrInvalidCredentials) s
     | Some x \<Rightarrow> ret (x, u_Role (the (activeUser s (s_UserID x)))) s)"

definition RevokeSessionByID :: "time \<Rightarrow> id \<Rightarrow> unit op" where
  "RevokeSessionByID now sid = modify (revokeWhere now (\<lambda>x. s_ID x = sid))"

section \<open>The service\<close>

definition hashRawToken :: "(string \<Rightarrow> string) \<Rightarrow> string \<Rightarrow> string" where
  "hashRawToken hash rawToken = hash rawToken"

definition PrincipalFromSession :: "Session \<times> Role \<Rightarrow> Principal" where
  "PrincipalFromSession session = \<lparr>p_UserID = s_UserID (fst session), p_SessionID = s_ID (fst session), p_Role = snd session\<rparr>"

definition generateToken :: "(string \<Rightarrow> string) \<Rightarrow> string option \<Rightarrow> (err, string \<times> string) result" where
  "generateToken hash random = (case random of None \<Rightarrow> Inl DBError | Some rawToken \<Rightarrow> Inr (rawToken, hashRawToken hash rawToken))"

text \<open>The observers in the order in which \<open>app.go\<close> registers them, called within the caller's transaction.\<close>

definition notifyUserObservers :: "bool \<Rightarrow> time \<Rightarrow> UserEvent \<Rightarrow> store \<Rightarrow> notice list \<times> store" where
  "notifyUserObservers inTx now event s = (case useraccess_OnUserEvent inTx event s of (_, ns, s1) \<Rightarrow>
     (case device_OnUserEvent now event s1 of (ns', s2) \<Rightarrow> (ns @ ns', s2)))"

text \<open>A transaction around a call that notifies: on an error the store is rolled back, what was sent was sent.\<close>

definition withinTxSvc :: "'a svc \<Rightarrow> 'a svc" where
  "withinTxSvc f s = (case f s of (Inl e, ns, _) \<Rightarrow> (Inl e, ns, s) | (Inr x, ns, s') \<Rightarrow> (Inr x, ns, s'))"

definition createUser :: "bool \<Rightarrow> time \<Rightarrow> User \<Rightarrow> User svc" where
  "createUser inTx now newUser s = (case auth_CreateUser newUser s of (Inl e, s') \<Rightarrow> (Inl e, [], s')
     | (Inr user, s') \<Rightarrow> (case notifyUserObservers inTx now \<lparr>uev_Type = EventTypeUserCreated, uev_UserID = u_ID user\<rparr> s' of
         (ns, s'') \<Rightarrow> (Inr user, ns, s'')))"

definition Login :: "hasher \<Rightarrow> (string \<Rightarrow> string) \<Rightarrow> string option \<Rightarrow> time \<Rightarrow> string \<Rightarrow> string \<Rightarrow> (string \<times> User) op" where
  "Login bcrypt hash random now username password = withinTx False
    (andThen (GetUserByUsername username) (\<lambda>user.
      if u_PasswordHash user = None \<or> \<not> checkPassword bcrypt (the (u_PasswordHash user)) password then throw (AuthErr ErrInvalidCredentials)
      else andThen (liftE (\<lambda>e. e) (generateToken hash random)) (\<lambda>(rawToken, tokenHash).
        andThen (CreateSession (NewSession now (u_ID user) tokenHash)) (\<lambda>_. ret (rawToken, user)))))"

definition GetUserFromPrincipal :: "Principal \<Rightarrow> User op" where
  "GetUserFromPrincipal p = GetUserByID (p_UserID p)"

definition RevokeSession :: "time \<Rightarrow> id \<Rightarrow> unit op" where
  "RevokeSession now sessionID = RevokeSessionByID now sessionID"

definition CreateUser :: "time \<Rightarrow> string \<Rightarrow> string \<Rightarrow> string option \<Rightarrow> Principal \<Rightarrow> User svc" where
  "CreateUser now username displayName email p s =
    (if \<not> IsSuperAdmin p then (Inl (AuthErr ErrSuperAdminCredentialsRequired), [], s)
     else case NewUserAccount now username displayName email (Some (p_UserID p)) of Inl e \<Rightarrow> (Inl e, [], s)
     | Inr newUser \<Rightarrow> createUser False now newUser s)"

definition auth_Authenticate :: "(string \<Rightarrow> string) \<Rightarrow> time \<Rightarrow> string \<Rightarrow> Principal op" where
  "auth_Authenticate hash now rawToken =
    andThen (GetSessionWithRoleByTokenHash now (hashRawToken hash rawToken)) (\<lambda>session.
      ret (PrincipalFromSession session))"

text \<open>The middleware: the principal of the session cookie, if it authenticates, goes with the request; a
  request with a principal that is no administrator is refused, one without a principal passes.\<close>

definition PrincipalUserContextMiddleware :: "(string \<Rightarrow> string) \<Rightarrow> time \<Rightarrow> string option \<Rightarrow> store \<Rightarrow> Principal option" where
  "PrincipalUserContextMiddleware hash now token s = (case token of None \<Rightarrow> None
     | Some rawToken \<Rightarrow> (case fst (auth_Authenticate hash now rawToken s) of Inl _ \<Rightarrow> None | Inr p \<Rightarrow> Some p))"

definition RequireAdmin :: "Principal option \<Rightarrow> bool" where
  "RequireAdmin p = (case p of None \<Rightarrow> True | Some p \<Rightarrow> IsAdmin p)"

definition TokenFromRequest :: "string option \<Rightarrow> string option" where
  "TokenFromRequest cookie = (if cookie = None \<or> cookie = Some [] then None else cookie)"

definition BootstrapAdmin :: "hasher \<Rightarrow> time \<Rightarrow> string \<Rightarrow> unit svc" where
  "BootstrapAdmin bcrypt now password = withinTxSvc (\<lambda>s. case FindBootstrappedAdmin s of
     (Inr _, s') \<Rightarrow> (Inr (), [], s')
   | (Inl e, s') \<Rightarrow>
      if e \<noteq> AuthErr ErrUserNotFound then (Inl e, [], s')
      else case NewBootstrappedAdmin bcrypt now password of Inl e' \<Rightarrow> (Inl e', [], s')
        | Inr newUser \<Rightarrow> (case createUser True now newUser s' of (Inl e', ns, s'') \<Rightarrow> (Inl e', ns, s'') | (Inr _, ns, s'') \<Rightarrow> (Inr (), ns, s'')))"

definition UpdateOwnProfile :: "id \<Rightarrow> ProfileUpdates \<Rightarrow> User op" where
  "UpdateOwnProfile userID updates = withinTx False
    (andThen (GetUserByID userID) (\<lambda>user. andThen (liftE (\<lambda>e. e) (userUpdate user updates)) repoUpdateUser))"

definition ChangePassword :: "hasher \<Rightarrow> time \<Rightarrow> id \<Rightarrow> id \<Rightarrow> string \<Rightarrow> string \<Rightarrow> unit op" where
  "ChangePassword bcrypt now userID sessionID currentPassword newPassword = withinTx False
    (andThen (GetUserByID userID) (\<lambda>user.
      if u_PasswordHash user = None \<or> \<not> checkPassword bcrypt (the (u_PasswordHash user)) currentPassword then throw (AuthErr ErrInvalidCredentials)
      else andThen (liftE (\<lambda>e. e) (ValidatePassword newPassword)) (\<lambda>_.
        andThen (liftE (\<lambda>e. e) (hashPassword bcrypt newPassword)) (\<lambda>newPasswordHash.
        andThen (UpdatePasswordHash userID newPasswordHash False) (\<lambda>_.
        RevokeAllUserSessionsExcept now userID sessionID)))))"

definition PromoteUser :: "hasher \<Rightarrow> Principal \<Rightarrow> id \<Rightarrow> string \<Rightarrow> User op" where
  "PromoteUser bcrypt p targetID newPassword =
    (if \<not> IsSuperAdmin p then throw (AuthErr ErrSuperAdminCredentialsRequired)
     else if p_UserID p = targetID then throw (AuthErr ErrSelfRoleChangeForbidden)
     else andThen (liftE (\<lambda>e. e) (ValidatePassword newPassword)) (\<lambda>_.
       andThen (liftE (\<lambda>e. e) (hashPassword bcrypt newPassword)) (\<lambda>passwordHash.
       withinTx False (andThen (GetUserByID targetID) (\<lambda>target.
         if u_Role target = AdminRole then throw (AuthErr ErrPromoteAlreadyAdmin)
         else andThen (repoUpdateUser (target\<lparr>u_Role := AdminRole\<rparr>)) (\<lambda>updatedUser.
           andThen (UpdatePasswordHash targetID passwordHash True) (\<lambda>_. ret updatedUser)))))))"

definition DemoteUser :: "time \<Rightarrow> Principal \<Rightarrow> id \<Rightarrow> User op" where
  "DemoteUser now p targetID =
    (if \<not> IsSuperAdmin p then throw (AuthErr ErrSuperAdminCredentialsRequired)
     else if p_UserID p = targetID then throw (AuthErr ErrSelfRoleChangeForbidden)
     else withinTx False (andThen (GetUserByID targetID) (\<lambda>target.
       andThen (repoUpdateUser (target\<lparr>u_Role := UserRole\<rparr>)) (\<lambda>updatedUser.
       andThen (NullifyPasswordHash targetID) (\<lambda>_.
       andThen (RevokeAllUserSessions now targetID) (\<lambda>_. ret updatedUser))))))"

definition DeleteUser :: "time \<Rightarrow> Principal \<Rightarrow> id \<Rightarrow> unit svc" where
  "DeleteUser now p targetID s =
    (if \<not> IsSuperAdmin p then (Inl (AuthErr ErrSuperAdminCredentialsRequired), [], s)
     else if p_UserID p = targetID then (Inl (AuthErr ErrSelfDeleteForbidden), [], s)
     else withinTxSvc (\<lambda>s. case andThen (GetUserByID targetID) (\<lambda>_. andThen (RevokeAllUserSessions now targetID) (\<lambda>_. SoftDeleteUser now targetID)) s of
         (Inl e, s') \<Rightarrow> (Inl e, [], s')
       | (Inr _, s') \<Rightarrow> (case notifyUserObservers True now \<lparr>uev_Type = EventTypeUserDeleted, uev_UserID = targetID\<rparr> s' of
           (ns, s'') \<Rightarrow> (Inr (), ns, s''))) s)"

section \<open>The invariant\<close>

definition authInv :: "time \<Rightarrow> store \<Rightarrow> bool" where
  "authInv now s \<longleftrightarrow> distinct (map u_ID (st_users s)) \<and> distinct (map s_ID (st_sessions s)) \<and>
     distinct (map (\<lambda>u. ToLower (u_Username u)) (filter (\<lambda>u. u_DeletedAt u = None) (st_users s))) \<and>
     (\<forall>u \<in> set (st_users s). u_DeletedAt u = None \<longrightarrow> u_PasswordHash u \<noteq> None \<longrightarrow> u_Role u \<noteq> UserRole) \<and>
     (\<forall>x \<in> set (st_sessions s). liveSession now x \<longrightarrow> (\<exists>u. activeUser s (s_UserID x) = Some u \<and> u_Role u \<noteq> UserRole))"

lemma sqlNow_mono: "t \<le> t' \<Longrightarrow> sqlNow t \<le> sqlNow t'"
  by (simp add: sqlNow_def zdiv_mono1)

lemma liveSession_mono: "t \<le> t' \<Longrightarrow> liveSession t' x \<Longrightarrow> liveSession t x"
  using sqlNow_mono[of t t'] by (auto simp: liveSession_def)

lemma authInv_mono: "t \<le> t' \<Longrightarrow> authInv t s \<Longrightarrow> authInv t' s"
  using liveSession_mono unfolding authInv_def by blast

lemma activeUser_Some:
  assumes "activeUser s i = Some u"
  shows "u \<in> set (st_users s)" "u_ID u = i" "u_DeletedAt u = None"
  using find_SomeD[OF assms[unfolded activeUser_def]] by auto

text \<open>Rows of one user change, their key and their deletion do not.\<close>

lemma activeUser_update:
  assumes "\<And>u. u_ID (f u) = u_ID u \<and> u_DeletedAt (f u) = u_DeletedAt u"
  shows "activeUser (updateUserRow i f s) j = map_option (\<lambda>u. if j = i then f u else u) (activeUser s j)"
proof -
  have "List.find (\<lambda>u. u_ID u = j \<and> u_DeletedAt u = None) (map (\<lambda>u. if u_ID u = i \<and> u_DeletedAt u = None then f u else u) us) =
    map_option (\<lambda>u. if j = i then f u else u) (List.find (\<lambda>u. u_ID u = j \<and> u_DeletedAt u = None) us)" for us
    using assms by (induction us) auto
  then show ?thesis by (simp add: activeUser_def updateUserRow_def)
qed

lemma updateUserRow_ids: "(\<And>u. u_ID (f u) = u_ID u) \<Longrightarrow> map u_ID (st_users (updateUserRow i f s)) = map u_ID (st_users s)"
  by (auto simp: updateUserRow_def)

lemma updateUserRow_sel [simp]: "st_sessions (updateUserRow i f s) = st_sessions s" "st_devices (updateUserRow i f s) = st_devices s"
  by (simp_all add: updateUserRow_def)

lemma distinct_keys_update:
  assumes "distinct (map ident xs)" "distinct (map key (filter P xs))" "\<And>x. x \<in> set xs \<Longrightarrow> ident x \<noteq> i \<Longrightarrow> P x \<Longrightarrow> key x \<noteq> k"
    and f: "\<And>x. P (f x) = P x" "\<And>x. key (f x) = k"
  shows "distinct (map key (filter P (map (\<lambda>x. if ident x = i \<and> P x then f x else x) xs)))"
  using assms(1-3)
proof (induction xs)
  case (Cons x xs)
  let ?f = "\<lambda>x. if ident x = i \<and> P x then f x else x"
  have IH: "distinct (map key (filter P (map ?f xs)))" using Cons by (auto split: if_splits)
  show ?case
  proof (cases "P x")
    case True
    have keys: "key ` {y \<in> set (map ?f xs). P y} \<subseteq> (if i \<in> ident ` set xs then {k} else {}) \<union> key ` {y \<in> set xs. ident y \<noteq> i \<and> P y}"
      using f by auto
    have "key (?f x) \<notin> key ` {y \<in> set (map ?f xs). P y}"
    proof (cases "ident x = i")
      case ix: True
      then have "i \<notin> ident ` set xs" using Cons.prems(1) by auto
      moreover have "k \<notin> key ` {y \<in> set xs. ident y \<noteq> i \<and> P y}" using Cons.prems(3) by auto
      ultimately have "k \<notin> key ` {y \<in> set (map ?f xs). P y}" using subsetD[OF keys] by auto
      then show ?thesis using ix True f(2) by simp
    next
      case False
      then have "key x \<noteq> k" using Cons.prems(3) True by simp
      moreover have "key x \<notin> key ` {y \<in> set xs. P y}" using Cons.prems(2) True by auto
      ultimately show ?thesis using keys False by (auto split: if_splits)
    qed
    moreover have "P (?f x)" using f(1) True by simp
    ultimately show ?thesis using IH by simp
  qed (use IH in simp)
qed simp

lemma revokeWhere_sel [simp]:
  "st_users (revokeWhere now P s) = st_users s" "activeUser (revokeWhere now P s) i = activeUser s i" "st_devices (revokeWhere now P s) = st_devices s"
  "map s_ID (st_sessions (revokeWhere now P s)) = map s_ID (st_sessions s)"
  by (auto simp: revokeWhere_def activeUser_def)

lemma revokeWhere_live:
  "y \<in> set (st_sessions (revokeWhere now P s)) \<Longrightarrow> liveSession t y \<Longrightarrow> y \<in> set (st_sessions s) \<and> \<not> P y"
  by (auto simp: revokeWhere_def liveSession_def split: if_splits)

lemma revokeWhere_none [simp]: "revokeWhere now (\<lambda>_. False) s = s"
  by (simp add: revokeWhere_def)

text \<open>One user's row changes and some sessions are revoked: what has to be checked.\<close>

lemma authInv_change:
  assumes inv: "authInv now s" and f: "\<And>u. u_ID (f u) = u_ID u \<and> u_DeletedAt (f u) = u_DeletedAt u"
    and names: "distinct (map (\<lambda>u. ToLower (u_Username u)) (filter (\<lambda>u. u_DeletedAt u = None) (st_users (updateUserRow i f s))))"
    and pw: "\<And>u. u \<in> set (st_users s) \<Longrightarrow> u_ID u = i \<Longrightarrow> u_DeletedAt u = None \<Longrightarrow> u_PasswordHash (f u) \<noteq> None \<Longrightarrow> u_Role (f u) \<noteq> UserRole"
    and sess: "\<And>u x. activeUser s i = Some u \<Longrightarrow> x \<in> set (st_sessions s) \<Longrightarrow> s_UserID x = i \<Longrightarrow> liveSession now x \<Longrightarrow> \<not> P x \<Longrightarrow> u_Role (f u) \<noteq> UserRole"
  shows "authInv now (revokeWhere now P (updateUserRow i f s))" (is "authInv now ?t")
  unfolding authInv_def
proof (intro conjI ballI impI)
  have "map u_ID (st_users (updateUserRow i f s)) = map u_ID (st_users s)" using f by (intro updateUserRow_ids) simp
  then show "distinct (map u_ID (st_users ?t))" using inv by (simp add: authInv_def)
  show "distinct (map s_ID (st_sessions ?t))" using inv by (simp add: authInv_def)
  show "distinct (map (\<lambda>u. ToLower (u_Username u)) (filter (\<lambda>u. u_DeletedAt u = None) (st_users ?t)))" using names by simp
next
  fix u assume u: "u \<in> set (st_users ?t)" "u_DeletedAt u = None" "u_PasswordHash u \<noteq> None"
  then obtain v where v: "v \<in> set (st_users s)" "u = (if u_ID v = i \<and> u_DeletedAt v = None then f v else v)" by (auto simp: updateUserRow_def)
  show "u_Role u \<noteq> UserRole"
  proof (cases "u_ID v = i \<and> u_DeletedAt v = None")
    case True
    then show ?thesis using v u pw by simp
  next
    case False
    then have "u = v" using v(2) by auto
    then show ?thesis using v(1) u(2,3) inv by (simp add: authInv_def)
  qed
next
  fix x assume x: "x \<in> set (st_sessions ?t)" "liveSession now x"
  then have x': "x \<in> set (st_sessions s)" "\<not> P x" using revokeWhere_live[OF x] by simp_all
  then obtain u where u: "activeUser s (s_UserID x) = Some u" "u_Role u \<noteq> UserRole" using inv x(2) by (auto simp: authInv_def)
  show "\<exists>u. activeUser ?t (s_UserID x) = Some u \<and> u_Role u \<noteq> UserRole"
    using u sess[of u x] x' x(2) f by (auto simp: activeUser_update)
qed

lemma names_renamed:
  assumes "authInv now s" "\<not> usernameTaken (filter (\<lambda>u. u_ID u \<noteq> i) (st_users s)) n"
    and "\<And>u. u_DeletedAt (f u) = u_DeletedAt u \<and> u_Username (f u) = n"
  shows "distinct (map (\<lambda>u. ToLower (u_Username u)) (filter (\<lambda>u. u_DeletedAt u = None) (st_users (updateUserRow i f s))))"
proof -
  have "distinct (map u_ID (st_users s))" "distinct (map (\<lambda>u. ToLower (u_Username u)) (filter (\<lambda>u. u_DeletedAt u = None) (st_users s)))"
    using assms(1) by (simp_all add: authInv_def)
  moreover have "ToLower (u_Username u) \<noteq> ToLower n" if "u \<in> set (st_users s)" "u_ID u \<noteq> i" "u_DeletedAt u = None" for u
    using assms(2) that unfolding usernameTaken_def by auto
  ultimately have "distinct (map (\<lambda>u. ToLower (u_Username u)) (filter (\<lambda>u. u_DeletedAt u = None) (map (\<lambda>u. if u_ID u = i \<and> u_DeletedAt u = None then f u else u) (st_users s))))"
    using assms(3) by (intro distinct_keys_update[where k = "ToLower n"]) simp_all
  then show ?thesis by (simp add: updateUserRow_def)
qed

text \<open>The observers of user events leave accounts and sessions alone.\<close>

definition sameAuth :: "store \<Rightarrow> store \<Rightarrow> bool" where
  "sameAuth s t \<longleftrightarrow> st_users t = st_users s \<and> st_sessions t = st_sessions s"

lemma sameAuth_inv: "sameAuth s t \<Longrightarrow> authInv now t = authInv now s"
  by (simp add: sameAuth_def authInv_def activeUser_def)

lemma sameAuth_DeleteDevice: "DeleteDevice True now i s = (r, ns, t) \<Longrightarrow> sameAuth s t"
proof (cases "presentDevice s i")
  case True
  assume "DeleteDevice True now i s = (r, ns, t)"
  then show ?thesis using deleteTx_effect[OF True, of now]
    by (auto simp: DeleteDevice_def notifying_def sameAuth_def updateActive_def disableStore_def)
next
  case False
  assume "DeleteDevice True now i s = (r, ns, t)"
  then show ?thesis by (simp add: DeleteDevice_def notifying_def deleteTx_missing[OF False] sameAuth_def)
qed

lemma sameAuth_deleteOwned: "sameAuth s (snd (deleteOwned now is s))"
proof (induction "is" arbitrary: s)
  case (Cons i "is")
  obtain r ns t where d: "DeleteDevice True now i s = (r, ns, t)" by (metis prod_cases3)
  then show ?case using sameAuth_DeleteDevice[OF d] Cons.IH[of t] by (auto simp: sameAuth_def split: prod.splits)
qed (simp add: sameAuth_def)

lemma sameAuth_observers: "sameAuth s (snd (notifyUserObservers b now ev s))"
proof -
  have one: "sameAuth s (storeAfter (useraccess_OnUserEvent b ev s))"
    by (auto simp: useraccess_OnUserEvent_def storeAfter_def EnsureUserSettings_def DeleteUserData_def withinTx_def sameAuth_def split: UserEventType.splits)
  have two: "sameAuth t (snd (device_OnUserEvent now ev t))" for t
    using sameAuth_deleteOwned by (simp add: device_OnUserEvent_def GetDeviceIDsByOwner_def sameAuth_def)
  show ?thesis using one two[of "storeAfter (useraccess_OnUserEvent b ev s)"]
    by (auto simp: notifyUserObservers_def storeAfter_def sameAuth_def split: prod.splits)
qed

end
