(* ===== verification/Auth_Access.thy ===== *)
theory Auth_Access
  imports Auth
begin

text \<open>
  What the calls of \<open>src/internal/auth\<close> guarantee. \<open>authChange\<close> lists the ways in which a call changes
  accounts and sessions; every call is one of them, and each keeps the invariant. \<open>authWorld\<close> runs the
  calls one after the other with the principals that the middleware has read: such a principal may be
  out of date by the time it is used.
\<close>

section \<open>The changes a call can make\<close>

definition superInv :: "store \<Rightarrow> bool" where
  "superInv s \<longleftrightarrow> length (filter (\<lambda>u. u_CreatedBy u = None) (st_users s)) \<le> 1 \<and>
     (\<forall>u \<in> set (st_users s). u_Role u = SuperAdminRole \<longrightarrow> u_CreatedBy u = None)"

definition isSuper :: "store \<Rightarrow> id \<Rightarrow> bool" where
  "isSuper s i \<longleftrightarrow> (\<exists>u. activeUser s i = Some u \<and> u_Role u = SuperAdminRole)"

definition rowOnly :: "(User \<Rightarrow> User) \<Rightarrow> bool" where
  "rowOnly f \<longleftrightarrow> (\<forall>u. u_ID (f u) = u_ID u \<and> u_DeletedAt (f u) = u_DeletedAt u \<and> u_CreatedBy (f u) = u_CreatedBy u)"

definition freeNames :: "User list \<Rightarrow> bool" where
  "freeNames us \<longleftrightarrow> distinct (map (\<lambda>u. ToLower (u_Username u)) (filter (\<lambda>u. u_DeletedAt u = None) us))"

text \<open>\<open>holder\<close> is the user that holds the role of the super administrator.\<close>

inductive authChange :: "id \<Rightarrow> time \<Rightarrow> store \<Rightarrow> store \<Rightarrow> bool" for holder now s where
  same: "sameAuth s t \<Longrightarrow> authChange holder now s t"
| session: "activeUser s (s_UserID x) = Some u \<Longrightarrow> u_PasswordHash u \<noteq> None \<Longrightarrow> s_ID x \<notin> s_ID ` set (st_sessions s) \<Longrightarrow>
    st_users t = st_users s \<Longrightarrow> st_sessions t = st_sessions s @ [x] \<Longrightarrow> authChange holder now s t"
| account: "u_ID u \<notin> u_ID ` set (st_users s) \<Longrightarrow> \<not> usernameTaken (st_users s) (u_Username u) \<Longrightarrow>
    u_PasswordHash u \<noteq> None \<longrightarrow> u_Role u \<noteq> UserRole \<Longrightarrow> u_Role u = SuperAdminRole \<longrightarrow> u_CreatedBy u = None \<Longrightarrow>
    u_CreatedBy u = None \<longrightarrow> (\<forall>v \<in> set (st_users s). u_CreatedBy v \<noteq> None) \<Longrightarrow>
    st_users t = st_users s @ [u] \<Longrightarrow> st_sessions t = st_sessions s \<Longrightarrow> authChange holder now s t"
| row: "rowOnly f \<Longrightarrow> freeNames (st_users (updateUserRow i f s)) \<Longrightarrow> activeUser s i = Some u \<Longrightarrow>
    u_PasswordHash (f u) \<noteq> None \<longrightarrow> u_Role (f u) \<noteq> UserRole \<Longrightarrow>
    u_Role (f u) = UserRole \<longrightarrow> u_Role u = UserRole \<or> (\<forall>x \<in> set (st_sessions s). s_UserID x = i \<and> liveSession now x \<longrightarrow> P x) \<Longrightarrow>
    u_Role (f u) = SuperAdminRole \<longrightarrow> u_Role u = SuperAdminRole \<Longrightarrow> i = holder \<longrightarrow> u_Role (f u) = u_Role u \<Longrightarrow>
    t = revokeWhere now P (updateUserRow i f s) \<Longrightarrow> authChange holder now s t"
| removal: "i \<noteq> holder \<Longrightarrow> st_users t = st_users (updateUserRow i (\<lambda>u. u\<lparr>u_DeletedAt := Some d\<rparr>) s) \<Longrightarrow>
    st_sessions t = st_sessions (revokeWhere now (\<lambda>x. s_UserID x = i \<and> liveSession now x) s) \<Longrightarrow> authChange holder now s t"
| revocation: "t = revokeWhere now P s \<Longrightarrow> authChange holder now s t"

lemma freeNames_kept:
  assumes "freeNames (st_users s)" "\<And>u. u_DeletedAt (f u) = u_DeletedAt u \<and> u_Username (f u) = u_Username u"
  shows "freeNames (st_users (updateUserRow i f s))"
proof -
  have "map (\<lambda>u. ToLower (u_Username u)) (filter (\<lambda>u. u_DeletedAt u = None) (map (\<lambda>u. if u_ID u = i \<and> u_DeletedAt u = None then f u else u) us)) =
      map (\<lambda>u. ToLower (u_Username u)) (filter (\<lambda>u. u_DeletedAt u = None) us)" for us
    using assms(2) by (induction us) auto
  then show ?thesis using assms(1) by (simp add: freeNames_def updateUserRow_def)
qed

lemma authInv_freeNames: "authInv now s \<Longrightarrow> freeNames (st_users s)"
  by (simp add: authInv_def freeNames_def)

lemma unique_row:
  assumes "authInv now s" "activeUser s i = Some u" "v \<in> set (st_users s)" "u_ID v = i"
  shows "v = u"
  using assms activeUser_Some[OF assms(2)] by (auto simp: authInv_def distinct_map inj_on_def)

lemma activeUser_cong: "st_users t = st_users s \<Longrightarrow> activeUser t i = activeUser s i"
  by (simp add: activeUser_def)

lemma activeUser_append: "u_ID u \<notin> u_ID ` set (st_users s) \<Longrightarrow> st_users t = st_users s @ [u] \<Longrightarrow> activeUser s i = Some v \<Longrightarrow> activeUser t i = Some v"
  by (auto simp: activeUser_def find_append)

lemma activeUser_removed:
  assumes "st_users t = st_users (updateUserRow i (\<lambda>u. u\<lparr>u_DeletedAt := Some d\<rparr>) s)"
  shows "activeUser t j = (if j = i then None else activeUser s j)"
proof -
  have "List.find (\<lambda>u. u_ID u = j \<and> u_DeletedAt u = None) (map (\<lambda>u. if u_ID u = i \<and> u_DeletedAt u = None then u\<lparr>u_DeletedAt := Some d\<rparr> else u) us) =
    (if j = i then None else List.find (\<lambda>u. u_ID u = j \<and> u_DeletedAt u = None) us)" for us :: "User list"
    by (induction us) auto
  from this[of "st_users s"] show ?thesis using assms unfolding activeUser_def updateUserRow_def by simp
qed

lemma liveSession_append: "x \<in> set (st_sessions t) \<Longrightarrow> st_sessions t = st_sessions s @ [y] \<Longrightarrow> x \<in> set (st_sessions s) \<or> x = y"
  by auto

lemma authChange_inv:
  assumes "authChange holder now s t" "authInv now s"
  shows "authInv now t"
  using assms
proof (cases rule: authChange.cases)
  case same
  then show ?thesis using assms(2) sameAuth_inv by simp
next
  case (session x u)
  then have "u_Role u \<noteq> UserRole" using assms(2) activeUser_Some[OF session(1)] by (simp add: authInv_def)
  then show ?thesis using session assms(2) by (auto simp: authInv_def activeUser_def)
next
  case (account u)
  then have "\<exists>v. activeUser t (s_UserID x) = Some v \<and> u_Role v \<noteq> UserRole" if "x \<in> set (st_sessions s)" "liveSession now x" for x
    using that assms(2) activeUser_append[OF account(1) account(6)] unfolding authInv_def by metis
  then show ?thesis using account assms(2) by (auto simp: authInv_def usernameTaken_def)
next
  case (row f i u P)
  then have u: "u \<in> set (st_users s)" "u_ID u = i" "u_DeletedAt u = None" using activeUser_Some by simp_all
  show ?thesis unfolding row(8)
  proof (rule authInv_change)
    fix v assume "v \<in> set (st_users s)" "u_ID v = i" "u_PasswordHash (f v) \<noteq> None"
    then show "u_Role (f v) \<noteq> UserRole" using unique_row[OF assms(2) row(3)] row(4) by simp
  next
    fix v x assume x: "activeUser s i = Some v" "x \<in> set (st_sessions s)" "s_UserID x = i" "liveSession now x" "\<not> P x"
    then have "v = u" "u_Role u \<noteq> UserRole" using row(3) assms(2) by (auto simp: authInv_def)
    then show "u_Role (f v) \<noteq> UserRole" using x row(5) by auto
  qed (use row assms(2) in \<open>auto simp: rowOnly_def freeNames_def\<close>)
next
  case (removal i d)
  let ?f = "\<lambda>u. if u_ID u = i \<and> u_DeletedAt u = None then u\<lparr>u_DeletedAt := Some d\<rparr> else u"
  have users: "st_users t = map ?f (st_users s)" using removal(2) by (simp add: updateUserRow_def)
  have kept: "filter (\<lambda>u. u_DeletedAt u = None) (map ?f us) = filter (\<lambda>u. u_ID u \<noteq> i) (filter (\<lambda>u. u_DeletedAt u = None) us)" for us :: "User list"
    by (induction us) simp_all
  have live: "\<exists>v. activeUser t (s_UserID x) = Some v \<and> u_Role v \<noteq> UserRole" if "x \<in> set (st_sessions t)" "liveSession now x" for x
  proof -
    have "x \<in> set (st_sessions s) \<and> \<not> (s_UserID x = i \<and> liveSession now x)"
      using revokeWhere_live[OF that(1)[unfolded removal(3)] that(2)] .
    then show ?thesis using that(2) assms(2) activeUser_removed[OF removal(2)] by (simp add: authInv_def)
  qed
  have "map u_ID (st_users t) = map u_ID (st_users s)" "map s_ID (st_sessions t) = map s_ID (st_sessions s)" using users removal(3) by (auto simp: comp_def)
  moreover have "u_Role u \<noteq> UserRole" if u: "u \<in> set (st_users t)" "u_DeletedAt u = None" "u_PasswordHash u \<noteq> None" for u
  proof -
    obtain v where "v \<in> set (st_users s)" "u = ?f v" using u(1) users by auto
    then have "u = v" "v \<in> set (st_users s)" using u(2) by (auto split: if_splits)
    then show ?thesis using u assms(2) by (simp add: authInv_def)
  qed
  moreover have "freeNames (st_users t)"
    unfolding freeNames_def users kept using authInv_freeNames[OF assms(2)] unfolding freeNames_def by (rule distinct_map_filter)
  ultimately show ?thesis using assms(2) live unfolding authInv_def freeNames_def by simp
next
  case (revocation P)
  then show ?thesis using assms(2) revokeWhere_live[of _ now P s now] by (auto simp: authInv_def)
qed

lemma superInv_map:
  assumes "superInv s" "st_users t = map g (st_users s)" "\<And>u. u_CreatedBy (g u) = u_CreatedBy u"
    "\<And>u. u \<in> set (st_users s) \<Longrightarrow> u_Role (g u) = SuperAdminRole \<Longrightarrow> u_Role u = SuperAdminRole"
  shows "superInv t"
proof -
  have "length (filter (\<lambda>u. u_CreatedBy u = None) (map g us)) = length (filter (\<lambda>u. u_CreatedBy u = None) us)" for us
    using assms(3) by (induction us) auto
  then show ?thesis using assms unfolding superInv_def by auto
qed

lemma authChange_superInv:
  assumes "authChange holder now s t" "superInv s" "authInv now s"
  shows "superInv t"
  using assms(1)
proof (cases rule: authChange.cases)
  case (account u)
  then show ?thesis using assms(2) by (auto simp: superInv_def)
next
  case (row f i u P)
  show ?thesis
  proof (rule superInv_map[OF assms(2)])
    show "st_users t = map (\<lambda>u. if u_ID u = i \<and> u_DeletedAt u = None then f u else u) (st_users s)"
      using row(8) by (simp add: updateUserRow_def)
    fix v assume "v \<in> set (st_users s)" "u_Role (if u_ID v = i \<and> u_DeletedAt v = None then f v else v) = SuperAdminRole"
    then show "u_Role v = SuperAdminRole" using unique_row[OF assms(3) row(3), of v] row(6) by (auto split: if_splits)
  qed (use row(1) in \<open>auto simp: rowOnly_def\<close>)
next
  case (removal i d)
  show ?thesis using removal(2)
    by (intro superInv_map[OF assms(2), of _ "\<lambda>u. if u_ID u = i \<and> u_DeletedAt u = None then u\<lparr>u_DeletedAt := Some d\<rparr> else u"])
      (auto simp: updateUserRow_def split: if_splits)
qed (use assms(2) in \<open>auto simp: superInv_def sameAuth_def\<close>)

lemma authChange_holder:
  assumes "authChange holder now s t" "isSuper s holder"
  shows "isSuper t holder"
  using assms(1)
proof (cases rule: authChange.cases)
  case (account u)
  then show ?thesis using assms(2) activeUser_append[OF account(1) account(6)] by (auto simp: isSuper_def)
next
  case (row f i u P)
  obtain v where v: "activeUser s holder = Some v" "u_Role v = SuperAdminRole" using assms(2) by (auto simp: isSuper_def)
  have "activeUser t holder = Some (if holder = i then f v else v)"
    using v(1) row(1,8) activeUser_update[of f i s holder] by (simp add: rowOnly_def)
  moreover have "u_Role (if holder = i then f v else v) = SuperAdminRole" using v row(3,7) by auto
  ultimately show ?thesis by (simp add: isSuper_def)
next
  case (removal i d)
  then show ?thesis using assms(2) activeUser_removed[OF removal(2)] by (simp add: isSuper_def)
qed (use assms(2) in \<open>auto simp: isSuper_def sameAuth_def activeUser_def\<close>)

text \<open>There is at most one.\<close>

lemma superInv_unique:
  assumes "superInv s" "isSuper s i" "isSuper s j"
  shows "i = j"
proof -
  have row: "\<exists>u. u \<in> set (filter (\<lambda>u. u_CreatedBy u = None) (st_users s)) \<and> u_ID u = k" if "isSuper s k" for k
  proof -
    from that obtain u where u: "activeUser s k = Some u" "u_Role u = SuperAdminRole" by (auto simp: isSuper_def)
    then show ?thesis using activeUser_Some[OF u(1)] assms(1) unfolding superInv_def by auto
  qed
  then obtain u v where u: "u \<in> set (filter (\<lambda>u. u_CreatedBy u = None) (st_users s))" "u_ID u = i"
      and v: "v \<in> set (filter (\<lambda>u. u_CreatedBy u = None) (st_users s))" "u_ID v = j"
    using assms(2,3) by meson
  moreover have "length (filter (\<lambda>u. u_CreatedBy u = None) (st_users s)) \<le> 1" using assms(1) by (simp add: superInv_def)
  ultimately have "u = v"
    by (cases "filter (\<lambda>u. u_CreatedBy u = None) (st_users s)") simp_all
  then show ?thesis using u v by simp
qed

section \<open>Every call is such a change\<close>

lemma withinTx_cases:
  "withinTx b f s = (case f s of (Inl e, s') \<Rightarrow> (Inl e, if b then s' else s) | (Inr x, s') \<Rightarrow> (Inr x, s'))"
  by (auto simp: withinTx_def split: prod.splits sum.splits)

lemma updateUserRow_twice:
  "rowOnly f \<Longrightarrow> updateUserRow i g (updateUserRow i f s) = updateUserRow i (g \<circ> f) s"
  by (simp add: updateUserRow_def rowOnly_def comp_def cong: if_cong)

lemma GetUserByUsername_Inr:
  assumes "GetUserByUsername n s = (Inr u, t)" "authInv now s"
  shows "t = s" "activeUser s (u_ID u) = Some u" "ToLower (u_Username u) = ToLower n"
proof -
  have u: "u \<in> set (st_users s)" "u_DeletedAt u = None" "ToLower (u_Username u) = ToLower n" "t = s"
    using assms(1) by (auto simp: GetUserByUsername_def dest: find_SomeD split: option.splits)
  then show "t = s" "ToLower (u_Username u) = ToLower n" by simp_all
  obtain v where v: "activeUser s (u_ID u) = Some v"
    using u by (cases "activeUser s (u_ID u)") (auto simp: activeUser_def find_None_iff)
  then show "activeUser s (u_ID u) = Some u" using unique_row[OF assms(2) v u(1)] by simp
qed

lemma Login_Inr:
  assumes "Login bcrypt hash random now username password s = (Inr (tok, u), t)" "authInv now s"
  shows "activeUser s (u_ID u) = Some u" "u_PasswordHash u \<noteq> None" "random = Some tok" "ToLower (u_Username u) = ToLower username"
    "checkPassword bcrypt (the (u_PasswordHash u)) password"
    "t = s\<lparr>st_sessions := st_sessions s @ [(NewSession now (u_ID u) (hash tok))\<lparr>s_ID := nextID (map s_ID (st_sessions s))\<rparr>]\<rparr>"
proof -
  obtain v where v: "GetUserByUsername username s = (Inr v, s)"
    using assms by (cases "GetUserByUsername username s"; cases "fst (GetUserByUsername username s)")
      (auto simp: Login_def withinTx_Inr andThen_def dest: GetUserByUsername_Inr)
  note user = GetUserByUsername_Inr[OF v assms(2)]
  show "activeUser s (u_ID u) = Some u" "u_PasswordHash u \<noteq> None" "random = Some tok" "ToLower (u_Username u) = ToLower username"
    "checkPassword bcrypt (the (u_PasswordHash u)) password"
    "t = s\<lparr>st_sessions := st_sessions s @ [(NewSession now (u_ID u) (hash tok))\<lparr>s_ID := nextID (map s_ID (st_sessions s))\<rparr>]\<rparr>"
    using assms(1) user v by (auto simp: Login_def withinTx_Inr andThen_def generateToken_def CreateSession_def NewSession_def
        hashRawToken_def liftE_def Let_def split: if_splits option.splits)
qed

lemma Login_change:
  assumes "authInv now s"
  shows "authChange holder now s (snd (Login bcrypt hash random now username password s))"
proof (cases "Login bcrypt hash random now username password s")
  case (Pair r t)
  show ?thesis
  proof (cases r)
    case (Inl e)
    then have "t = s" using Pair unfolding Login_def by (auto dest: withinTx_Inl)
    then show ?thesis using Pair by (auto intro!: authChange.same simp: sameAuth_def)
  next
    case (Inr x)
    then obtain tok u where x: "Login bcrypt hash random now username password s = (Inr (tok, u), t)" using Pair by (cases x) auto
    note f = Login_Inr[OF x assms]
    have "authChange holder now s t" using f(1,2,6) nextID_fresh[of "map s_ID (st_sessions s)"]
      by (intro authChange.session[of s "(NewSession now (u_ID u) (hash tok))\<lparr>s_ID := nextID (map s_ID (st_sessions s))\<rparr>" u t]) (auto simp: NewSession_def)
    then show ?thesis using x by simp
  qed
qed

lemma change_refl: "authChange holder now s s"
  by (simp add: authChange.same sameAuth_def)

lemma change_tx:
  assumes "\<And>x t. f s = (Inr x, t) \<Longrightarrow> authChange holder now s t"
  shows "authChange holder now s (snd (withinTx False f s))"
  using assms by (cases "f s"; cases "fst (f s)") (auto simp: withinTx_cases change_refl)

definition setRow :: "User \<Rightarrow> User \<Rightarrow> User" where
  "setRow user u = u\<lparr>u_Username := u_Username user, u_DisplayName := u_DisplayName user,
     u_Email := u_Email user, u_Role := u_Role user, u_MustChangePassword := u_MustChangePassword user\<rparr>"

lemma setRow_sel [simp]: "u_ID (setRow w u) = u_ID u" "u_DeletedAt (setRow w u) = u_DeletedAt u" "u_CreatedBy (setRow w u) = u_CreatedBy u"
  "u_Username (setRow w u) = u_Username w" "u_Role (setRow w u) = u_Role w" "u_PasswordHash (setRow w u) = u_PasswordHash u"
  "u_MustChangePassword (setRow w u) = u_MustChangePassword w"
  by (simp_all add: setRow_def)

lemma repoUpdateUser_Inr:
  assumes "repoUpdateUser user s = (Inr u', t)" "authInv now s"
  shows "t = updateUserRow (u_ID user) (setRow user) s" "freeNames (st_users t)"
    "\<exists>v. activeUser s (u_ID user) = Some v \<and> u' = setRow user v \<and> activeUser t (u_ID user) = Some u'"
proof -
  have t: "GetUserByID (u_ID user) (updateUserRow (u_ID user) (setRow user) s) = (Inr u', t)"
    and free: "\<not> usernameTaken (filter (\<lambda>u. u_ID u \<noteq> u_ID user) (st_users s)) (u_Username user)"
    using assms(1) by (auto simp: repoUpdateUser_def setRow_def[abs_def] split: if_splits)
  then show s: "t = updateUserRow (u_ID user) (setRow user) s" by (auto simp: GetUserByID_def split: option.splits)
  show "freeNames (st_users t)" unfolding s freeNames_def by (rule names_renamed[OF assms(2) free]) simp
  show "\<exists>v. activeUser s (u_ID user) = Some v \<and> u' = setRow user v \<and> activeUser t (u_ID user) = Some u'"
    using t s by (auto simp: GetUserByID_def activeUser_update split: option.splits)
qed

lemma userUpdate_Inr:
  assumes "userUpdate u up = Inr w"
  shows "u_ID w = u_ID u" "u_Role w = u_Role u"
  using assms by (auto simp: userUpdate_def bindR_def Let_def split: if_splits option.splits sum.splits)

lemma UpdateOwnProfile_change:
  assumes "authInv now s"
  shows "authChange holder now s (snd (UpdateOwnProfile i up s))"
  unfolding UpdateOwnProfile_def
proof (rule change_tx)
  fix x t assume "andThen (GetUserByID i) (\<lambda>user. andThen (liftE (\<lambda>e. e) (userUpdate user up)) repoUpdateUser) s = (Inr x, t)"
  then obtain u w where u: "activeUser s i = Some u" "userUpdate u up = Inr w" "repoUpdateUser w s = (Inr x, t)"
    by (auto simp: GetUserByID_def andThen_def liftE_def split: option.splits sum.splits)
  note r = repoUpdateUser_Inr[OF u(3) assms] and w = userUpdate_Inr[OF u(2)] and a = activeUser_Some[OF u(1)]
  have "u_PasswordHash u \<noteq> None \<longrightarrow> u_Role u \<noteq> UserRole" using a assms by (auto simp: authInv_def)
  then show "authChange holder now s t" using r(1,2) w a u(1)
    by (intro authChange.row[of "setRow w" i s u _ "\<lambda>_. False"]) (auto simp: rowOnly_def)
qed

lemma ChangePassword_Inr:
  assumes "ChangePassword bcrypt now i sid old new s = (Inr x, t)"
  shows "\<exists>u h. activeUser s i = Some u \<and> u_PasswordHash u \<noteq> None \<and> ph_generate bcrypt new = Some h \<and>
    t = revokeWhere now (\<lambda>x. s_UserID x = i \<and> s_ID x \<noteq> sid \<and> liveSession now x)
      (updateUserRow i (\<lambda>u. u\<lparr>u_PasswordHash := Some h, u_MustChangePassword := False\<rparr>) s)"
  using assms by (auto simp: ChangePassword_def withinTx_Inr GetUserByID_def andThen_def liftE_def ValidatePassword_def hashPassword_def
      UpdatePasswordHash_def RevokeAllUserSessionsExcept_def split: option.splits sum.splits if_splits)

lemma ChangePassword_change:
  assumes "authInv now s"
  shows "authChange holder now s (snd (ChangePassword bcrypt now i sid old new s))"
proof (cases "ChangePassword bcrypt now i sid old new s")
  case (Pair r t)
  show ?thesis
  proof (cases r)
    case (Inl e)
    then show ?thesis using Pair change_refl unfolding ChangePassword_def by (auto dest: withinTx_Inl)
  next
    case (Inr x)
    then obtain u h where u: "activeUser s i = Some u" "u_PasswordHash u \<noteq> None"
      and t: "t = revokeWhere now (\<lambda>x. s_UserID x = i \<and> s_ID x \<noteq> sid \<and> liveSession now x)
        (updateUserRow i (\<lambda>u. u\<lparr>u_PasswordHash := Some h, u_MustChangePassword := False\<rparr>) s)"
      using ChangePassword_Inr Pair by blast
    have "u_Role u \<noteq> UserRole" using u assms activeUser_Some[OF u(1)] by (auto simp: authInv_def)
    moreover have "freeNames (st_users (updateUserRow i (\<lambda>u. u\<lparr>u_PasswordHash := Some h, u_MustChangePassword := False\<rparr>) s))"
      using assms by (intro freeNames_kept) (simp_all add: authInv_freeNames)
    ultimately have "authChange holder now s t" using u(1)
      by (intro authChange.row[OF _ _ _ _ _ _ _ t, of u]) (auto simp: rowOnly_def)
    then show ?thesis using Pair by simp
  qed
qed

lemma PromoteUser_Inr:
  assumes "PromoteUser bcrypt p i pw s = (Inr u', t)" "authInv now s"
  shows "\<exists>u h. IsSuperAdmin p \<and> p_UserID p \<noteq> i \<and> activeUser s i = Some u \<and> ph_generate bcrypt pw = Some h \<and>
    u' = u\<lparr>u_Role := AdminRole\<rparr> \<and> freeNames (st_users t) \<and>
    t = updateUserRow i ((\<lambda>u. u\<lparr>u_PasswordHash := Some h, u_MustChangePassword := True\<rparr>) \<circ> setRow (u\<lparr>u_Role := AdminRole\<rparr>)) s"
proof -
  from assms(1) obtain u h t' where u: "IsSuperAdmin p" "p_UserID p \<noteq> i" "activeUser s i = Some u" "ph_generate bcrypt pw = Some h"
    "repoUpdateUser (u\<lparr>u_Role := AdminRole\<rparr>) s = (Inr u', t')" "UpdatePasswordHash i h True t' = (Inr (), t)"
    by (auto simp: PromoteUser_def withinTx_Inr GetUserByID_def andThen_def liftE_def hashPassword_def split: option.splits sum.splits if_splits prod.splits)
  note r = repoUpdateUser_Inr[OF u(5) assms(2)] and a = activeUser_Some[OF u(3)]
  have t: "t = updateUserRow i (\<lambda>u. u\<lparr>u_PasswordHash := Some h, u_MustChangePassword := True\<rparr>) t'"
    using u(6) by (auto simp: UpdatePasswordHash_def split: if_splits)
  have "freeNames (st_users t)" unfolding t using r(2) by (rule freeNames_kept) simp
  moreover have "u' = u\<lparr>u_Role := AdminRole\<rparr>" using r(3) u(3) a by (auto simp: setRow_def)
  ultimately show ?thesis using u r(1) a t updateUserRow_twice[of "setRow (u\<lparr>u_Role := AdminRole\<rparr>)" i _ s] by (auto simp: rowOnly_def)
qed

lemma DemoteUser_Inr:
  assumes "DemoteUser now p i s = (Inr u', t)" "authInv now s"
  shows "\<exists>u. IsSuperAdmin p \<and> p_UserID p \<noteq> i \<and> activeUser s i = Some u \<and> u' = u\<lparr>u_Role := UserRole\<rparr> \<and> freeNames (st_users t) \<and>
    t = revokeWhere now (\<lambda>x. s_UserID x = i \<and> liveSession now x)
      (updateUserRow i ((\<lambda>u. u\<lparr>u_PasswordHash := None\<rparr>) \<circ> setRow (u\<lparr>u_Role := UserRole\<rparr>)) s)"
proof -
  from assms(1) obtain u t' t'' where u: "IsSuperAdmin p" "p_UserID p \<noteq> i" "activeUser s i = Some u"
    "repoUpdateUser (u\<lparr>u_Role := UserRole\<rparr>) s = (Inr u', t')" "NullifyPasswordHash i t' = (Inr (), t'')" "RevokeAllUserSessions now i t'' = (Inr (), t)"
    by (auto simp: DemoteUser_def withinTx_Inr GetUserByID_def andThen_def split: option.splits sum.splits if_splits prod.splits)
  note r = repoUpdateUser_Inr[OF u(4) assms(2)] and a = activeUser_Some[OF u(3)]
  have t'': "t'' = updateUserRow i (\<lambda>u. u\<lparr>u_PasswordHash := None\<rparr>) t'" using u(5) by (auto simp: NullifyPasswordHash_def split: if_splits)
  then have "freeNames (st_users t'')" using freeNames_kept[OF r(2)] by simp
  moreover have "t = revokeWhere now (\<lambda>x. s_UserID x = i \<and> liveSession now x) t''" using u(6) by (auto simp: RevokeAllUserSessions_def)
  moreover have "u' = u\<lparr>u_Role := UserRole\<rparr>" using r(3) u(3) a by (auto simp: setRow_def)
  ultimately show ?thesis using u(1-3) r(1) a t'' updateUserRow_twice[of "setRow (u\<lparr>u_Role := UserRole\<rparr>)" i _ s] by (auto simp: rowOnly_def)
qed

lemma PromoteUser_change:
  assumes "authInv now s" "IsSuperAdmin p \<Longrightarrow> p_UserID p = holder"
  shows "authChange holder now s (snd (PromoteUser bcrypt p i pw s))"
proof (cases "PromoteUser bcrypt p i pw s")
  case (Pair r t)
  show ?thesis
  proof (cases r)
    case (Inl e)
    then have "t = s" using Pair by (auto simp: PromoteUser_def andThen_def liftE_def hashPassword_def ValidatePassword_def dest: withinTx_Inl split: if_splits option.splits)
    then show ?thesis using Pair change_refl by simp
  next
    case (Inr u')
    then obtain u h where u: "IsSuperAdmin p" "p_UserID p \<noteq> i" "activeUser s i = Some u" "freeNames (st_users t)"
      and t: "t = updateUserRow i ((\<lambda>u. u\<lparr>u_PasswordHash := Some h, u_MustChangePassword := True\<rparr>) \<circ> setRow (u\<lparr>u_Role := AdminRole\<rparr>)) s"
      using PromoteUser_Inr[OF _ assms(1)] Pair by blast
    have "authChange holder now s t" using u assms(2) unfolding t
      by (intro authChange.row[of _ i s u _ "\<lambda>_. False"]) (auto simp: rowOnly_def)
    then show ?thesis using Pair by simp
  qed
qed

lemma DemoteUser_change:
  assumes "authInv now s" "IsSuperAdmin p \<Longrightarrow> p_UserID p = holder"
  shows "authChange holder now s (snd (DemoteUser now p i s))"
proof (cases "DemoteUser now p i s")
  case (Pair r t)
  show ?thesis
  proof (cases r)
    case (Inl e)
    then have "t = s" using Pair by (auto simp: DemoteUser_def dest: withinTx_Inl split: if_splits)
    then show ?thesis using Pair change_refl by simp
  next
    case (Inr u')
    then obtain u where u: "IsSuperAdmin p" "p_UserID p \<noteq> i" "activeUser s i = Some u" "freeNames (st_users t)"
      and t: "t = revokeWhere now (\<lambda>x. s_UserID x = i \<and> liveSession now x)
        (updateUserRow i ((\<lambda>u. u\<lparr>u_PasswordHash := None\<rparr>) \<circ> setRow (u\<lparr>u_Role := UserRole\<rparr>)) s)"
      using DemoteUser_Inr[OF _ assms(1)] Pair by blast
    have "authChange holder now s t" using u assms(2) unfolding t
      by (intro authChange.row[of _ i s u]) (auto simp: rowOnly_def)
    then show ?thesis using Pair by simp
  qed
qed

lemma DeleteUser_Inr:
  assumes "DeleteUser now p i s = (Inr x, ns, t)"
  shows "IsSuperAdmin p \<and> p_UserID p \<noteq> i \<and> activeUser s i \<noteq> None \<and>
    t = snd (notifyUserObservers True now \<lparr>uev_Type = EventTypeUserDeleted, uev_UserID = i\<rparr>
      (updateUserRow i (\<lambda>u. u\<lparr>u_DeletedAt := Some (sqlNow now)\<rparr>) (revokeWhere now (\<lambda>x. s_UserID x = i \<and> liveSession now x) s)))"
  using assms by (auto simp: DeleteUser_def withinTxSvc_def GetUserByID_def andThen_def RevokeAllUserSessions_def SoftDeleteUser_def
      split: if_splits option.splits prod.splits sum.splits)

lemma DeleteUser_ok:
  assumes "IsSuperAdmin p" "p_UserID p \<noteq> i" "activeUser s i \<noteq> None"
  shows "fst (DeleteUser now p i s) = Inr ()"
  using assms by (auto simp: DeleteUser_def withinTxSvc_def GetUserByID_def andThen_def RevokeAllUserSessions_def SoftDeleteUser_def split: prod.splits)

lemma DeleteUser_Inl: "DeleteUser now p i s = (Inl e, ns, t) \<Longrightarrow> t = s"
  by (auto simp: DeleteUser_def withinTxSvc_def split: if_splits prod.splits sum.splits)

lemma DeleteUser_change:
  assumes "IsSuperAdmin p \<Longrightarrow> p_UserID p = holder"
  shows "authChange holder now s (storeAfter (DeleteUser now p i s))"
proof (cases "DeleteUser now p i s")
  case (fields r ns t)
  show ?thesis
  proof (cases r)
    case (Inl e)
    then show ?thesis using fields change_refl by (auto simp: storeAfter_def dest: DeleteUser_Inl)
  next
    case (Inr x)
    note d = DeleteUser_Inr[OF fields[unfolded Inr]]
    have "i \<noteq> holder" using d assms by auto
    moreover have "sameAuth (updateUserRow i (\<lambda>u. u\<lparr>u_DeletedAt := Some (sqlNow now)\<rparr>) (revokeWhere now (\<lambda>x. s_UserID x = i \<and> liveSession now x) s)) t"
      using d sameAuth_observers by simp
    ultimately have "authChange holder now s t"
      by (intro authChange.removal[where i = i and d = "sqlNow now"]) (auto simp: sameAuth_def updateUserRow_def revokeWhere_def)
    then show ?thesis using fields by (simp add: storeAfter_def)
  qed
qed

lemma createUser_change:
  assumes "u_PasswordHash w \<noteq> None \<longrightarrow> u_Role w \<noteq> UserRole" "u_Role w = SuperAdminRole \<longrightarrow> u_CreatedBy w = None"
    "u_CreatedBy w = None \<longrightarrow> (\<forall>v \<in> set (st_users s). u_CreatedBy v \<noteq> None)"
  shows "authChange holder now s (storeAfter (createUser b now w s))"
proof (cases "auth_CreateUser w s")
  case (Pair r t)
  show ?thesis
  proof (cases r)
    case (Inl e)
    then show ?thesis using Pair change_refl by (auto simp: createUser_def storeAfter_def auth_CreateUser_def Let_def split: if_splits)
  next
    case (Inr u)
    have u: "u = w\<lparr>u_ID := nextID (map u_ID (st_users s))\<rparr>" "t = s\<lparr>st_users := st_users s @ [u]\<rparr>" "\<not> usernameTaken (st_users s) (u_Username w)"
      using Pair Inr by (auto simp: auth_CreateUser_def Let_def split: if_splits)
    have "storeAfter (createUser b now w s) = snd (notifyUserObservers b now \<lparr>uev_Type = EventTypeUserCreated, uev_UserID = u_ID u\<rparr> t)"
      using Pair Inr by (simp add: createUser_def storeAfter_def split: prod.splits)
    then have "sameAuth t (storeAfter (createUser b now w s))" using sameAuth_observers by simp
    then show ?thesis using u assms nextID_fresh[of "map u_ID (st_users s)"]
      by (intro authChange.account[of u]) (auto simp: sameAuth_def)
  qed
qed

lemma CreateUser_change: "authChange holder now s (storeAfter (CreateUser now username displayName email p s))"
proof (cases "NewUserAccount now username displayName email (Some (p_UserID p))")
  case (Inr w)
  then have "u_PasswordHash w = None" "u_Role w = UserRole" "u_CreatedBy w = Some (p_UserID p)"
    by (auto simp: NewUserAccount_def bindR_def split: sum.splits)
  then show ?thesis using createUser_change[of w s holder now False] Inr change_refl by (simp add: CreateUser_def storeAfter_def)
qed (simp add: CreateUser_def storeAfter_def change_refl)

lemma BootstrapAdmin_change: "authChange holder now s (storeAfter (BootstrapAdmin bcrypt now password s))"
proof (cases "List.find (\<lambda>u. u_CreatedBy u = None) (st_users s)")
  case (Some u)
  then show ?thesis by (simp add: BootstrapAdmin_def withinTxSvc_def FindBootstrappedAdmin_def storeAfter_def change_refl)
next
  case None
  show ?thesis
  proof (cases "NewBootstrappedAdmin bcrypt now password")
    case (Inl e)
    then show ?thesis using None by (simp add: BootstrapAdmin_def withinTxSvc_def FindBootstrappedAdmin_def storeAfter_def change_refl)
  next
    case (Inr w)
    then have w: "u_PasswordHash w \<noteq> None" "u_Role w = SuperAdminRole" "u_CreatedBy w = None"
      by (auto simp: NewBootstrappedAdmin_def bindR_def split: sum.splits)
    have "\<forall>v \<in> set (st_users s). u_CreatedBy v \<noteq> None" using None by (auto simp: find_None_iff)
    then have "authChange holder now s (storeAfter (createUser True now w s))" using w by (intro createUser_change) auto
    then show ?thesis using None Inr change_refl by (cases "createUser True now w s"; cases "fst (createUser True now w s)")
      (auto simp: BootstrapAdmin_def withinTxSvc_def FindBootstrappedAdmin_def storeAfter_def)
  qed
qed

section \<open>The calls, one after the other\<close>

datatype authCall =
    CallLogin string string "string option"
  | CallRevokeSession id
  | CallCreateUser Principal string string "string option"
  | CallBootstrapAdmin string
  | CallUpdateOwnProfile id ProfileUpdates
  | CallChangePassword id id string string
  | CallPromoteUser Principal id string
  | CallDemoteUser Principal id
  | CallDeleteUser Principal id

fun runAuth :: "hasher \<Rightarrow> (string \<Rightarrow> string) \<Rightarrow> time \<Rightarrow> authCall \<Rightarrow> store \<Rightarrow> store" where
  "runAuth bcrypt hash now (CallLogin username password random) s = snd (Login bcrypt hash random now username password s)"
| "runAuth bcrypt hash now (CallRevokeSession sid) s = snd (RevokeSession now sid s)"
| "runAuth bcrypt hash now (CallCreateUser p username displayName email) s = storeAfter (CreateUser now username displayName email p s)"
| "runAuth bcrypt hash now (CallBootstrapAdmin password) s = storeAfter (BootstrapAdmin bcrypt now password s)"
| "runAuth bcrypt hash now (CallUpdateOwnProfile i up) s = snd (UpdateOwnProfile i up s)"
| "runAuth bcrypt hash now (CallChangePassword i sid old new) s = snd (ChangePassword bcrypt now i sid old new s)"
| "runAuth bcrypt hash now (CallPromoteUser p i pw) s = snd (PromoteUser bcrypt p i pw s)"
| "runAuth bcrypt hash now (CallDemoteUser p i) s = snd (DemoteUser now p i s)"
| "runAuth bcrypt hash now (CallDeleteUser p i) s = storeAfter (DeleteUser now p i s)"

fun callPrincipal :: "authCall \<Rightarrow> Principal option" where
  "callPrincipal (CallCreateUser p _ _ _) = Some p"
| "callPrincipal (CallPromoteUser p _ _) = Some p"
| "callPrincipal (CallDemoteUser p _) = Some p"
| "callPrincipal (CallDeleteUser p _) = Some p"
| "callPrincipal _ = None"

text \<open>The principals in flight were read by the middleware, now or earlier.\<close>

record authWorld =
  aw_now :: time
  aw_store :: store
  aw_inflight :: "Principal list"

inductive authStep :: "hasher \<Rightarrow> (string \<Rightarrow> string) \<Rightarrow> authWorld \<Rightarrow> authWorld \<Rightarrow> bool" for bcrypt hash where
  passes: "aw_now w \<le> t \<Longrightarrow> authStep bcrypt hash w (w\<lparr>aw_now := t\<rparr>)"
| authenticated: "auth_Authenticate hash (aw_now w) rawToken (aw_store w) = (Inr p, s) \<Longrightarrow>
    authStep bcrypt hash w (w\<lparr>aw_inflight := p # aw_inflight w\<rparr>)"
| called: "\<forall>p. callPrincipal c = Some p \<longrightarrow> p \<in> set (aw_inflight w) \<Longrightarrow>
    authStep bcrypt hash w (w\<lparr>aw_store := runAuth bcrypt hash (aw_now w) c (aw_store w)\<rparr>)"

inductive authReach :: "hasher \<Rightarrow> (string \<Rightarrow> string) \<Rightarrow> authWorld \<Rightarrow> authWorld \<Rightarrow> bool" for bcrypt hash w where
  start: "authReach bcrypt hash w w"
| step: "authReach bcrypt hash w v \<Longrightarrow> authStep bcrypt hash v v' \<Longrightarrow> authReach bcrypt hash w v'"

definition freshAuth :: "time \<Rightarrow> authWorld" where
  "freshAuth now = \<lparr>aw_now = now, aw_store = emptyStore, aw_inflight = []\<rparr>"

definition authOK :: "authWorld \<Rightarrow> bool" where
  "authOK w \<longleftrightarrow> authInv (aw_now w) (aw_store w) \<and> superInv (aw_store w) \<and>
     (\<forall>p \<in> set (aw_inflight w). IsSuperAdmin p \<longrightarrow> isSuper (aw_store w) (p_UserID p))"

lemma runAuth_change:
  assumes "authInv now s" "\<And>p. callPrincipal c = Some p \<Longrightarrow> IsSuperAdmin p \<Longrightarrow> p_UserID p = holder"
  shows "authChange holder now s (runAuth bcrypt hash now c s)"
  using assms
  by (cases c) (auto simp: RevokeSession_def RevokeSessionByID_def intro: Login_change CreateUser_change BootstrapAdmin_change
      UpdateOwnProfile_change ChangePassword_change PromoteUser_change DemoteUser_change DeleteUser_change authChange.revocation)

lemma auth_Authenticate_Inr:
  assumes "auth_Authenticate hash now rawToken s = (Inr p, t)"
  shows "\<exists>x u. x \<in> set (st_sessions s) \<and> s_TokenHash x = hash rawToken \<and> liveSession now x \<and> activeUser s (s_UserID x) = Some u \<and>
    p = \<lparr>p_UserID = s_UserID x, p_SessionID = s_ID x, p_Role = u_Role u\<rparr>"
proof -
  obtain x where x: "List.find (\<lambda>x. s_TokenHash x = hash rawToken \<and> liveSession now x \<and> activeUser s (s_UserID x) \<noteq> None) (st_sessions s) = Some x"
    "p = \<lparr>p_UserID = s_UserID x, p_SessionID = s_ID x, p_Role = u_Role (the (activeUser s (s_UserID x)))\<rparr>"
    using assms by (auto simp: auth_Authenticate_def PrincipalFromSession_def andThen_def GetSessionWithRoleByTokenHash_def hashRawToken_def split: option.splits)
  then show ?thesis using find_SomeD[OF x(1)] by auto
qed

text \<open>The holder of the role: whoever has it, or anyone when no one does.\<close>

lemma holder_exists:
  assumes "authOK w"
  obtains holder where "\<And>i. isSuper (aw_store w) i \<Longrightarrow> i = holder"
  using assms superInv_unique unfolding authOK_def by metis

lemma called_change:
  assumes "authOK w" "\<forall>p. callPrincipal c = Some p \<longrightarrow> p \<in> set (aw_inflight w)" "\<And>i. isSuper (aw_store w) i \<Longrightarrow> i = holder"
  shows "authChange holder (aw_now w) (aw_store w) (runAuth bcrypt hash (aw_now w) c (aw_store w))"
  using assms unfolding authOK_def by (intro runAuth_change) blast+

lemma called_super:
  assumes "authOK w" "\<forall>p. callPrincipal c = Some p \<longrightarrow> p \<in> set (aw_inflight w)" "isSuper (aw_store w) i"
  shows "isSuper (runAuth bcrypt hash (aw_now w) c (aw_store w)) i"
  using authChange_holder[OF called_change[OF assms(1,2), of i] assms(3)] superInv_unique[OF _ _ assms(3)] assms(1) by (simp add: authOK_def)

lemma authStep_OK:
  assumes "authStep bcrypt hash w v" "authOK w"
  shows "authOK v"
  using assms(1)
proof cases
  case (passes t)
  then show ?thesis using assms(2) authInv_mono by (auto simp: authOK_def)
next
  case (authenticated rawToken p s)
  then show ?thesis using assms(2) auth_Authenticate_Inr[OF authenticated(2)] by (auto simp: authOK_def IsSuperAdmin_def isSuper_def)
next
  case (called c)
  obtain holder where h: "\<And>i. isSuper (aw_store w) i \<Longrightarrow> i = holder" using holder_exists[OF assms(2)] by blast
  note change = called_change[OF assms(2) called(2) h, of bcrypt hash]
  have "authInv (aw_now w) (runAuth bcrypt hash (aw_now w) c (aw_store w))" "superInv (runAuth bcrypt hash (aw_now w) c (aw_store w))"
    using authChange_inv[OF change] authChange_superInv[OF change] assms(2) by (simp_all add: authOK_def)
  then show ?thesis using called(1) called_super[OF assms(2) called(2)] assms(2) by (auto simp: authOK_def)
qed

lemma authReach_OK: "authReach bcrypt hash w v \<Longrightarrow> authOK w \<Longrightarrow> authOK v"
  by (induction rule: authReach.induct) (auto intro: authStep_OK)

lemma freshAuth_OK: "authOK (freshAuth now)"
  by (simp add: authOK_def freshAuth_def authInv_def superInv_def emptyStore_def)

lemma authStep_super:
  assumes "authStep bcrypt hash w v" "authOK w" "isSuper (aw_store w) i"
  shows "isSuper (aw_store v) i"
  using assms called_super[OF assms(2)] by cases auto

section \<open>What holds of every session\<close>

definition plainHasher :: hasher where
  "plainHasher = \<lparr>ph_generate = Some, ph_compare = (=)\<rparr>"

lemma hasherLaw_plain: "hasherLaw plainHasher"
  by (simp add: hasherLaw_def plainHasher_def)

text \<open>The first administrator is there and has logged in.\<close>

definition firstWorld :: authWorld where
  "firstWorld = (freshAuth 0)\<lparr>aw_store := runAuth plainHasher (\<lambda>t. t) 0 (CallLogin ''Admin'' ''password1'' (Some ''tok''))
     (runAuth plainHasher (\<lambda>t. t) 0 (CallBootstrapAdmin ''password1'') emptyStore)\<rparr>"

lemma firstWorld_reached: "authReach plainHasher (\<lambda>t. t) (freshAuth 0) firstWorld"
proof -
  let ?w = "(freshAuth 0)\<lparr>aw_store := runAuth plainHasher (\<lambda>t. t) 0 (CallBootstrapAdmin ''password1'') emptyStore\<rparr>"
  have "authReach plainHasher (\<lambda>t. t) (freshAuth 0) ?w"
    using authReach.step[OF authReach.start authStep.called[of "CallBootstrapAdmin ''password1''" "freshAuth 0"]] by (simp add: freshAuth_def)
  then show ?thesis
    using authReach.step[OF _ authStep.called[of "CallLogin ''Admin'' ''password1'' (Some ''tok'')" ?w]] by (simp add: firstWorld_def freshAuth_def)
qed

lemma firstWorld_store: "aw_now firstWorld = 0" "st_users (aw_store firstWorld) = [\<lparr>u_ID = 1, u_Username = ''admin'', u_DisplayName = ''Admin'',
    u_Email = Some ''admin@pulseweaver.invalid'', u_PasswordHash = Some ''password1'', u_Role = SuperAdminRole, u_MustChangePassword = False,
    u_CreatedBy = None, u_CreatedAt = 0, u_DeletedAt = None\<rparr>]"
  by code_simp+

text \<open>C11 (invariant). Starting from an empty database, whatever calls are made with principals that the
  middleware has read, however old these are: the keys of users and sessions are unique, the names of the
  users that are not deleted are unique without regard to case, only administrators have a password or a
  live session, and at most one user is the super administrator. So every principal that a token
  gives at any moment is an administrator, and the middleware's check of that never refuses a request.\<close>

theorem sessions_are_admins:
  assumes "authReach bcrypt hash (freshAuth now) w"
  shows "authInv (aw_now w) (aw_store w) \<and> (\<forall>i j. isSuper (aw_store w) i \<longrightarrow> isSuper (aw_store w) j \<longrightarrow> i = j) \<and>
    (\<forall>rawToken p s. auth_Authenticate hash (aw_now w) rawToken (aw_store w) = (Inr p, s) \<longrightarrow> IsAdmin p) \<and>
    (\<forall>cookie. RequireAdmin (PrincipalUserContextMiddleware hash (aw_now w) (TokenFromRequest cookie) (aw_store w)))"
proof -
  have ok: "authOK w" using authReach_OK[OF assms freshAuth_OK] .
  then have inv: "authInv (aw_now w) (aw_store w)" by (simp add: authOK_def)
  have admin: "IsAdmin p" if auth: "auth_Authenticate hash (aw_now w) rawToken (aw_store w) = (Inr p, s)" for rawToken p s
  proof -
    obtain x u where x: "x \<in> set (st_sessions (aw_store w))" "liveSession (aw_now w) x" "activeUser (aw_store w) (s_UserID x) = Some u"
      "p = \<lparr>p_UserID = s_UserID x, p_SessionID = s_ID x, p_Role = u_Role u\<rparr>" using auth_Authenticate_Inr[OF auth] by blast
    then have "u_Role u \<noteq> UserRole" using inv by (auto simp: authInv_def)
    then show "IsAdmin p" using x(4) by (cases "u_Role u") (simp_all add: IsAdmin_def IsSuperAdmin_def)
  qed
  moreover have "RequireAdmin (PrincipalUserContextMiddleware hash (aw_now w) token (aw_store w))" for token
    using admin by (auto simp: RequireAdmin_def PrincipalUserContextMiddleware_def split: option.splits sum.splits) (metis prod.collapse)
  ultimately show ?thesis using inv ok superInv_unique unfolding authOK_def by blast
qed

theorem sessions_are_admins_witness:
  "\<exists>p. auth_Authenticate (\<lambda>t. t) 0 ''tok'' (aw_store firstWorld) = (Inr p, aw_store firstWorld) \<and> IsAdmin p"
proof -
  have "auth_Authenticate (\<lambda>t. t) 0 ''tok'' (aw_store firstWorld) = (Inr \<lparr>p_UserID = 1, p_SessionID = 1, p_Role = SuperAdminRole\<rparr>, aw_store firstWorld)"
    by code_simp
  then show ?thesis using sessions_are_admins[OF firstWorld_reached] unfolding firstWorld_store by blast
qed

text \<open>C12 (safety). Once a user is the super administrator, this user stays active and stays the only super
  administrator through every later call: no demotion, deletion or promotion reaches this user, not even one
  made with an old principal.\<close>

theorem super_admin_stays:
  assumes "authReach bcrypt hash (freshAuth now) w" "isSuper (aw_store w) i" "authReach bcrypt hash w v"
  shows "isSuper (aw_store v) i \<and> (\<forall>j. isSuper (aw_store v) j \<longrightarrow> j = i)"
proof -
  have ok: "authOK w" using authReach_OK[OF assms(1) freshAuth_OK] .
  have "isSuper (aw_store v) i"
    using assms(3) by (induction rule: authReach.induct) (auto simp: assms(2) intro: authStep_super authReach_OK[OF _ ok])
  then show ?thesis using authReach_OK[OF assms(3) ok] superInv_unique by (auto simp: authOK_def)
qed

theorem super_admin_stays_witness:
  "isSuper (aw_store (firstWorld\<lparr>aw_store := runAuth plainHasher (\<lambda>t. t) 0 (CallRevokeSession 1) (aw_store firstWorld)\<rparr>)) 1"
proof -
  let ?v = "firstWorld\<lparr>aw_store := runAuth plainHasher (\<lambda>t. t) 0 (CallRevokeSession 1) (aw_store firstWorld)\<rparr>"
  have "authReach plainHasher (\<lambda>t. t) firstWorld ?v"
    using authReach.step[OF authReach.start authStep.called[of "CallRevokeSession 1" firstWorld]] by (simp add: firstWorld_store)
  moreover have "isSuper (aw_store firstWorld) 1" by (simp add: isSuper_def activeUser_def firstWorld_store)
  ultimately show ?thesis using super_admin_stays[OF firstWorld_reached] by blast
qed

section \<open>Tokens\<close>

lemma Login_ok:
  assumes "authInv now s" "activeUser s i = Some u" "u_PasswordHash u = Some h" "checkPassword bcrypt h password" "ToLower username = ToLower (u_Username u)"
  shows "Login bcrypt hash (Some tok) now username password s = (Inr (tok, u),
    s\<lparr>st_sessions := st_sessions s @ [(NewSession now (u_ID u) (hash tok))\<lparr>s_ID := nextID (map s_ID (st_sessions s))\<rparr>]\<rparr>)"
proof -
  note a = activeUser_Some[OF assms(2)]
  obtain v where v: "List.find (\<lambda>u. ToLower (u_Username u) = ToLower username \<and> u_DeletedAt u = None) (st_users s) = Some v"
    using a assms(5) by (cases "List.find (\<lambda>u. ToLower (u_Username u) = ToLower username \<and> u_DeletedAt u = None) (st_users s)")
      (auto simp: find_None_iff)
  have "inj_on (\<lambda>u. ToLower (u_Username u)) (set (filter (\<lambda>u. u_DeletedAt u = None) (st_users s)))"
    using assms(1) unfolding authInv_def distinct_map by blast
  then have "v = u" using find_SomeD[OF v] a assms(5) by (auto dest: inj_onD)
  then show ?thesis using v assms(3,4) a
    by (auto simp: Login_def withinTx_def GetUserByUsername_def andThen_def liftE_def generateToken_def hashRawToken_def CreateSession_def NewSession_def Let_def)
qed

text \<open>A token that no other session has reads back the session and the role of its user until it ends.\<close>

lemma Authenticate_new:
  assumes "hash tok \<notin> s_TokenHash ` set (st_sessions s)" "activeUser s i = Some u"
    "t = s\<lparr>st_sessions := st_sessions s @ [(NewSession now i (hash tok))\<lparr>s_ID := k\<rparr>]\<rparr>"
  shows "auth_Authenticate hash now' tok t = (if sqlNow now' \<le> now + tokenDuration
    then Inr \<lparr>p_UserID = i, p_SessionID = k, p_Role = u_Role u\<rparr> else Inl (AuthErr ErrInvalidCredentials), t)"
proof -
  have act: "activeUser t j = activeUser s j" for j using assms(3) by (simp add: activeUser_def)
  have "List.find (\<lambda>x. s_TokenHash x = hash tok \<and> liveSession now' x \<and> activeUser t (s_UserID x) \<noteq> None) (st_sessions s) = None"
    using assms(1) by (auto simp: find_None_iff image_iff)
  then have "List.find (\<lambda>x. s_TokenHash x = hash tok \<and> liveSession now' x \<and> activeUser t (s_UserID x) \<noteq> None) (st_sessions t) =
    (if sqlNow now' \<le> now + tokenDuration then Some ((NewSession now i (hash tok))\<lparr>s_ID := k\<rparr>) else None)"
    using assms(2,3) act by (simp add: find_append NewSession_def liveSession_def)
  then show ?thesis using assms(2) act by (simp add: auth_Authenticate_def PrincipalFromSession_def andThen_def GetSessionWithRoleByTokenHash_def hashRawToken_def NewSession_def)
qed

text \<open>Whoever is promoted with a password logs in with it, has to change it, and gets a
  token that authenticates as this user in the role of an administrator for a week, to the end of the last second, and then no more, given that
  bcrypt accepts what it has generated and no session has a token with the same hash.\<close>

lemma promoted_user_logs_in:
  assumes "authInv now s" "hasherLaw bcrypt" "PromoteUser bcrypt p i pw s = (Inr u, t)" "hash tok \<notin> s_TokenHash ` set (st_sessions s)"
  shows "\<exists>v t'. Login bcrypt hash (Some tok) now (u_Username u) pw t = (Inr (tok, v), t') \<and> u_ID v = i \<and> u_MustChangePassword v \<and>
    (\<forall>now'. auth_Authenticate hash now' tok t' = (if sqlNow now' \<le> now + tokenDuration
       then Inr \<lparr>p_UserID = i, p_SessionID = nextID (map s_ID (st_sessions s)), p_Role = AdminRole\<rparr> else Inl (AuthErr ErrInvalidCredentials), t'))"
proof -
  obtain w h where w: "activeUser s i = Some w" "ph_generate bcrypt pw = Some h" "u = w\<lparr>u_Role := AdminRole\<rparr>" "IsSuperAdmin p" "p_UserID p \<noteq> i"
    and t: "t = updateUserRow i ((\<lambda>u. u\<lparr>u_PasswordHash := Some h, u_MustChangePassword := True\<rparr>) \<circ> setRow (w\<lparr>u_Role := AdminRole\<rparr>)) s"
    using PromoteUser_Inr[OF assms(3,1)] by blast
  let ?v = "(setRow (w\<lparr>u_Role := AdminRole\<rparr>) w)\<lparr>u_PasswordHash := Some h, u_MustChangePassword := True\<rparr>"
  have v: "activeUser t i = Some ?v" unfolding t by (subst activeUser_update) (simp_all add: w(1))
  have id: "u_ID w = i" using activeUser_Some[OF w(1)] by simp
  have "authInv now t" using authChange_inv[OF PromoteUser_change[OF assms(1), of p "p_UserID p" bcrypt i pw] assms(1)] assms(3) by simp
  moreover have "checkPassword bcrypt h pw" using assms(2) w(2) by (simp add: checkPassword_def hasherLaw_def)
  ultimately have login: "Login bcrypt hash (Some tok) now (u_Username u) pw t = (Inr (tok, ?v),
      t\<lparr>st_sessions := st_sessions t @ [(NewSession now i (hash tok))\<lparr>s_ID := nextID (map s_ID (st_sessions t))\<rparr>]\<rparr>)" (is "_ = (_, ?t)")
    using Login_ok[OF _ v, of now h bcrypt pw "u_Username u" hash tok] w(3) id by simp
  have sess: "st_sessions t = st_sessions s" by (simp add: t)
  have fresh: "hash tok \<notin> s_TokenHash ` set (st_sessions t)" using assms(4) sess by simp
  have "auth_Authenticate hash now' tok ?t = (if sqlNow now' \<le> now + tokenDuration
       then Inr \<lparr>p_UserID = i, p_SessionID = nextID (map s_ID (st_sessions s)), p_Role = AdminRole\<rparr> else Inl (AuthErr ErrInvalidCredentials), ?t)" for now'
    using Authenticate_new[where hash = hash and tok = tok and now' = now' and now = now and k = "nextID (map s_ID (st_sessions t))", OF fresh v refl] by (simp add: sess)
  then show ?thesis using login id by (intro exI[of _ ?v] exI[of _ ?t]) simp
qed

definition superPrincipal :: Principal where
  "superPrincipal = \<lparr>p_UserID = 1, p_SessionID = 1, p_Role = SuperAdminRole\<rparr>"

text \<open>The first administrator has created a second user.\<close>

definition twoUsers :: store where
  "twoUsers = storeAfter (CreateUser 5 '' Bob '' ''Bob'' None superPrincipal (aw_store firstWorld))"

lemma twoUsers_inv: "authInv 5 twoUsers"
proof -
  have "authInv 5 (aw_store firstWorld)"
    using authReach_OK[OF firstWorld_reached freshAuth_OK] authInv_mono[of 0 5] by (simp add: authOK_def firstWorld_store)
  then show ?thesis unfolding twoUsers_def using authChange_inv[OF CreateUser_change] by blast
qed

lemma promoted_user_logs_in_witness:
  "\<exists>t' v. Login plainHasher (\<lambda>t. t) (Some ''tok2'') 5 ''bob'' ''password2'' (snd (PromoteUser plainHasher superPrincipal 2 ''password2'' twoUsers)) = (Inr (''tok2'', v), t') \<and>
     fst (auth_Authenticate (\<lambda>t. t) 6 ''tok2'' t') = Inr \<lparr>p_UserID = 2, p_SessionID = 2, p_Role = AdminRole\<rparr>"
proof -
  let ?r = "PromoteUser plainHasher superPrincipal 2 ''password2'' twoUsers"
  let ?u = "the (activeUser twoUsers 2)\<lparr>u_Role := AdminRole\<rparr>"
  have r: "?r = (Inr ?u, snd ?r)" and u: "u_Username ?u = ''bob''" and new: "''tok2'' \<notin> s_TokenHash ` set (st_sessions twoUsers)"
    and k: "nextID (map s_ID (st_sessions twoUsers)) = 2" and now: "sqlNow 6 \<le> 5 + tokenDuration" by code_simp+
  from promoted_user_logs_in[OF twoUsers_inv hasherLaw_plain r, of "\<lambda>t. t" "''tok2''"] show ?thesis using u new k now by auto
qed

lemma revoked_later:
  assumes "x \<in> set (st_sessions (revokeWhere now (\<lambda>x. Q x \<and> liveSession now x) s))" "liveSession now' x" "now \<le> now'"
  shows "\<not> Q x"
  using revokeWhere_live[OF assms(1,2)] liveSession_mono[OF assms(3,2)] by simp

text \<open>C13 (safety). Sessions end with what gave the right to them: from the moment a user is demoted or deleted
  no token authenticates as this user, and from the moment a user changes the password only the session
  that did so is left, at every later time.\<close>

theorem revoked_tokens:
  assumes "authInv now s" "now \<le> now'" "auth_Authenticate hash now' rawToken t = (Inr q, t')"
  shows "(DemoteUser now p i s = (Inr u, t) \<longrightarrow> p_UserID q \<noteq> i) \<and>
    (DeleteUser now p i s = (Inr x, ns, t) \<longrightarrow> p_UserID q \<noteq> i) \<and>
    (ChangePassword bcrypt now i sid old new s = (Inr y, t) \<longrightarrow> p_UserID q = i \<longrightarrow> p_SessionID q = sid)"
proof (intro conjI impI)
  obtain z where z: "z \<in> set (st_sessions t)" "liveSession now' z" "activeUser t (s_UserID z) \<noteq> None" "p_UserID q = s_UserID z" "p_SessionID q = s_ID z"
    using auth_Authenticate_Inr[OF assms(3)] by auto
  show "p_UserID q \<noteq> i" if d: "DemoteUser now p i s = (Inr u, t)"
  proof -
    obtain f where "t = revokeWhere now (\<lambda>x. s_UserID x = i \<and> liveSession now x) (updateUserRow i f s)" using DemoteUser_Inr[OF d assms(1)] by blast
    then show ?thesis using revoked_later[of z now "\<lambda>x. s_UserID x = i" _ now'] z assms(2) by simp
  qed
  show "p_UserID q \<noteq> i" if d: "DeleteUser now p i s = (Inr x, ns, t)"
  proof -
    let ?d = "updateUserRow i (\<lambda>u. u\<lparr>u_DeletedAt := Some (sqlNow now)\<rparr>) (revokeWhere now (\<lambda>x. s_UserID x = i \<and> liveSession now x) s)"
    have "sameAuth ?d t" using DeleteUser_Inr[OF d] sameAuth_observers by simp
    then have "st_users t = st_users (updateUserRow i (\<lambda>u. u\<lparr>u_DeletedAt := Some (sqlNow now)\<rparr>) s)"
      by (simp add: sameAuth_def updateUserRow_def)
    then show ?thesis using activeUser_removed[of t i "sqlNow now" s i] z(3,4) by auto
  qed
  assume c: "ChangePassword bcrypt now i sid old new s = (Inr y, t)" "p_UserID q = i"
  obtain f where "t = revokeWhere now (\<lambda>x. s_UserID x = i \<and> s_ID x \<noteq> sid \<and> liveSession now x) (updateUserRow i f s)"
    using ChangePassword_Inr[OF c(1)] by blast
  then show "p_SessionID q = sid" using revoked_later[of z now "\<lambda>x. s_UserID x = i \<and> s_ID x \<noteq> sid" _ now'] z c(2) assms(2) by auto
qed

theorem revoked_tokens_witness:
  "fst (auth_Authenticate (\<lambda>t. t) 9 ''tok'' (snd (ChangePassword plainHasher 5 1 2 ''password1'' ''password3'' twoUsers))) = Inl (AuthErr ErrInvalidCredentials) \<and>
   (\<exists>q t. auth_Authenticate (\<lambda>t. t) 9 ''tok'' (snd (ChangePassword plainHasher 5 1 1 ''password1'' ''password3'' twoUsers)) = (Inr q, t) \<and>
     p_UserID q = 1 \<and> p_SessionID q = 1)"
proof
  let ?t = "snd (ChangePassword plainHasher 5 1 1 ''password1'' ''password3'' twoUsers)"
  show "fst (auth_Authenticate (\<lambda>t. t) 9 ''tok'' (snd (ChangePassword plainHasher 5 1 2 ''password1'' ''password3'' twoUsers))) = Inl (AuthErr ErrInvalidCredentials)"
    by code_simp
  have c: "ChangePassword plainHasher 5 1 1 ''password1'' ''password3'' twoUsers = (Inr (), ?t)" by code_simp
  have "auth_Authenticate (\<lambda>t. t) 9 ''tok'' ?t = (Inr \<lparr>p_UserID = 1, p_SessionID = 1, p_Role = SuperAdminRole\<rparr>, ?t)" by code_simp
  then have "\<exists>q. auth_Authenticate (\<lambda>t. t) 9 ''tok'' ?t = (Inr q, ?t) \<and> p_UserID q = 1" by simp
  then obtain q where q: "auth_Authenticate (\<lambda>t. t) 9 ''tok'' ?t = (Inr q, ?t)" "p_UserID q = 1" by blast
  then have "p_SessionID q = 1" using revoked_tokens[OF twoUsers_inv _ q(1), where bcrypt = plainHasher and i = 1 and sid = 1] c by auto
  then show "\<exists>q t. auth_Authenticate (\<lambda>t. t) 9 ''tok'' ?t = (Inr q, t) \<and> p_UserID q = 1 \<and> p_SessionID q = 1" using q by blast
qed

section \<open>The devices of a deleted user\<close>

lemma DeleteDevice_entries:
  assumes "deviceInv s" "DeleteDevice True now i s = (r, ns, t)"
  shows "deviceInv t \<and> set (ipEntries t) = entriesWithout i s"
proof (cases "presentDevice s i")
  case True
  then show ?thesis using DeleteDevice_ok[OF assms(1) True, of True now] assms(2) by auto
next
  case False
  then have "t = s" using assms(2) by (simp add: DeleteDevice_def notifying_def deleteTx_missing)
  moreover have "\<not> liveDevice s i" using False live_present by blast
  ultimately show ?thesis using no_entries[OF assms(1), of i] assms(1) by (auto simp: entriesWithout_def)
qed

lemma deleteOwned_entries:
  "deviceInv s \<Longrightarrow> set (ipEntries (snd (deleteOwned now is s))) = {e \<in> set (ipEntries s). ie_DeviceID e \<notin> set is}"
proof (induction "is" arbitrary: s)
  case (Cons i "is")
  obtain r ns t where d: "DeleteDevice True now i s = (r, ns, t)" by (metis prod_cases3)
  then have "snd (deleteOwned now (i # is) s) = snd (deleteOwned now is t)" by (simp split: prod.splits)
  then show ?case using DeleteDevice_entries[OF Cons.prems d] Cons.IH[of t] unfolding entriesWithout_def by (simp only:) auto
qed simp

lemma owned_entries:
  assumes "deviceInv s" "e \<in> set (ipEntries s)"
  shows "ie_DeviceID e \<in> set (map d_ID (filter (\<lambda>d. d_OwnerID d = i \<and> d_DeletedAt d = None) (st_devices s))) \<longleftrightarrow> ie_UserID e = i"
proof -
  obtain d where d: "d \<in> set (st_devices s)" "d_DeletedAt d = None" "ie_DeviceID e = d_ID d" "ie_UserID e = d_OwnerID d"
    using assms(2) unfolding ipEntries_iff by auto
  have "d' = d" if "d' \<in> set (st_devices s)" "d_ID d' = d_ID d" for d' using unique_device[OF assms(1) that(1) d(1) that(2)] .
  then show ?thesis using d by (auto simp: image_iff)
qed

lemma deviceInv_users:
  assumes "st_users t = map f (st_users s)" "\<And>u. u_ID (f u) = u_ID u" "st_devices t = st_devices s" "st_addresses t = st_addresses s" "st_apiKeys t = st_apiKeys s"
  shows "deviceInv t = deviceInv s"
proof -
  have "u_ID ` set (st_users t) = u_ID ` set (st_users s)" using assms(1,2) by (simp add: image_image)
  then show ?thesis using assms(3-5) by (simp add: deviceInv_def liveDevice_def presentDevice_def)
qed

lemma ipEntries_same_rows: "st_devices t = st_devices s \<Longrightarrow> st_addresses t = st_addresses s \<Longrightarrow> ipEntries t = ipEntries s"
  by (simp add: ipEntries_def enabledRow_def[abs_def] cong: if_cong)

lemma DeleteUser_entries:
  assumes "deviceInv s" "DeleteUser now p i s = (Inr x, ns, t)"
  shows "deviceInv t \<and> set (ipEntries t) = {e \<in> set (ipEntries s). ie_UserID e \<noteq> i}"
proof -
  let ?d = "updateUserRow i (\<lambda>u. u\<lparr>u_DeletedAt := Some (sqlNow now)\<rparr>) (revokeWhere now (\<lambda>x. s_UserID x = i \<and> liveSession now x) s)"
  let ?ev = "\<lparr>uev_Type = EventTypeUserDeleted, uev_UserID = i\<rparr>"
  let ?a = "storeAfter (useraccess_OnUserEvent True ?ev ?d)"
  let ?is = "map d_ID (filter (\<lambda>d. d_OwnerID d = i \<and> d_DeletedAt d = None) (st_devices s))"
  have a: "st_devices ?a = st_devices s" "st_addresses ?a = st_addresses s" "st_apiKeys ?a = st_apiKeys s" "st_users ?a = st_users ?d"
    by (simp_all add: useraccess_OnUserEvent_def storeAfter_def DeleteUserData_def updateUserRow_def revokeWhere_def)
  have inv: "deviceInv ?a" using assms(1) a
    by (subst deviceInv_users[of _ "\<lambda>u. if u_ID u = i \<and> u_DeletedAt u = None then u\<lparr>u_DeletedAt := Some (sqlNow now)\<rparr> else u" s])
      (simp_all add: updateUserRow_def revokeWhere_def)
  have "t = snd (notifyUserObservers True now ?ev ?d)" using DeleteUser_Inr[OF assms(2)] by simp
  then have t: "t = snd (deleteOwned now ?is ?a)"
    using a(1) by (auto simp: notifyUserObservers_def storeAfter_def device_OnUserEvent_def GetDeviceIDsByOwner_def split: prod.splits)
  have "set (ipEntries t) = {e \<in> set (ipEntries s). ie_DeviceID e \<notin> set ?is}"
    unfolding t using deleteOwned_entries[OF inv, of now ?is] ipEntries_same_rows[OF a(1,2)] by simp
  also have "\<dots> = {e \<in> set (ipEntries s). ie_UserID e \<noteq> i}" using owned_entries[OF assms(1), of _ i] by blast
  finally show ?thesis unfolding t using deleteOwned_keeps[OF inv] by simp
qed

text \<open>C14 (safety). The deletion of a user takes the user's devices along through the observers: afterwards the rows
  that the policy cache is built from are those of all other owners, unchanged, and none of this user.\<close>

theorem deleted_user_is_out:
  assumes "deviceInv s" "DeleteUser now p i s = (Inr x, ns, t)"
  shows "deviceInv t \<and> set (ipEntries t) = {e \<in> set (ipEntries s). ie_UserID e \<noteq> i}"
  by (rule DeleteUser_entries[OF assms])

theorem deleted_user_is_out_witness:
  "ipEntries deviceStore \<noteq> [] \<and> ipEntries (storeAfter (DeleteUser 9 (superPrincipal\<lparr>p_UserID := 7\<rparr>) 1 deviceStore)) = []"
proof -
  let ?r = "DeleteUser 9 (superPrincipal\<lparr>p_UserID := 7\<rparr>) 1 deviceStore"
  have one: "map ie_UserID (ipEntries deviceStore) = [1]"
    by (simp add: ipEntries_def byUpdatedDesc_def deviceStore_def enabledRow_def sampleRow_def)
  have "activeUser deviceStore 1 \<noteq> None" by (simp add: activeUser_def deviceStore_def sampleUser_def)
  then have ok: "fst ?r = Inr ()" by (intro DeleteUser_ok) (simp_all add: IsSuperAdmin_def superPrincipal_def)
  have "?r = (Inr (), fst (snd ?r), storeAfter ?r)" using ok by (simp add: storeAfter_def prod_eq_iff)
  note out = conjunct2[OF deleted_user_is_out[OF deviceStore_ok this]]
  have "ie_UserID e = 1" if "e \<in> set (ipEntries deviceStore)" for e
    using that one by (metis image_eqI list.set_map empty_set list.simps(15) singletonD)
  then have "set (ipEntries (storeAfter ?r)) = {}" unfolding out by blast
  moreover have "ipEntries deviceStore \<noteq> []" using one by (metis list.map_disc_iff list.distinct(1))
  ultimately show ?thesis by simp
qed

end
