(* ===== verification/Policy_Lifecycle.thy ===== *)
theory Policy_Lifecycle
  imports Policy_Access Device_Notices Auth_Access
begin

text \<open>
  How the policy cache is kept up to date (\<open>src/internal/policy/lifecycle.go\<close>, with \<open>refreshCache\<close> of
  \<open>cache.go\<close>): observers set a signal, the listener takes it and rebuilds the cache, and a ticker makes
  it rebuild it in any case.

  A refresh reads the enabled addresses, the host access and the network policies in three queries and
  then swaps the caches under the lock; calls may commit between any two of these, and a call tells its
  observers some time after it committed. Only the deletion of a user tells them before it commits, since
  \<open>DeleteUser\<close> notifies within its transaction. Every one of these is a step of \<open>policyStep\<close>. The theorems
  say that no change is lost except in two recorded cases: when nothing is pending the decisions are those
  of a cache built from the store as it is.
\<close>

section \<open>The observers\<close>

definition triggerRefresh :: "policyService \<Rightarrow> policyService" where
  "triggerRefresh svc = svc\<lparr>ps_refreshSignal := True\<rparr>"

definition policy_OnAddressEvent :: "AddressEvent \<Rightarrow> policyService \<Rightarrow> policyService" where
  "policy_OnAddressEvent e svc = (if ev_Type e = EventTypeAddressRefreshed then svc else triggerRefresh svc)"

definition policy_OnDeviceEvent :: "DeviceEvent \<Rightarrow> policyService \<Rightarrow> policyService" where
  "policy_OnDeviceEvent e svc = triggerRefresh svc"

definition policy_OnHostAccessChanged :: "policyService \<Rightarrow> policyService" where
  "policy_OnHostAccessChanged svc = triggerRefresh svc"

definition policy_OnNetworkPolicyChanged :: "policyService \<Rightarrow> policyService" where
  "policy_OnNetworkPolicyChanged svc = triggerRefresh svc"

definition policy_observe :: "notice \<Rightarrow> policyService \<Rightarrow> policyService" where
  "policy_observe n = (case n of AddressNotice e \<Rightarrow> policy_OnAddressEvent e | DeviceNotice e \<Rightarrow> policy_OnDeviceEvent e
     | HostAccessChanged \<Rightarrow> policy_OnHostAccessChanged | NetworkPolicyChanged \<Rightarrow> policy_OnNetworkPolicyChanged | RuleNotice _ \<Rightarrow> (\<lambda>svc. svc))"

lemma policy_observe_trigger: "policy_observe n svc = (if policyTriggers n then triggerRefresh svc else svc)"
  by (cases n) (simp_all add: policy_observe_def policyTriggers_def policy_OnAddressEvent_def policy_OnDeviceEvent_def
      policy_OnHostAccessChanged_def policy_OnNetworkPolicyChanged_def)

lemma policy_observes:
  "fold policy_observe ns svc = (if \<exists>n \<in> set ns. policyTriggers n then triggerRefresh svc else svc)"
  by (induction ns arbitrary: svc) (auto simp: policy_observe_trigger triggerRefresh_def)

section \<open>Calls\<close>

text \<open>What the three queries of a refresh answer.\<close>

definition hostRows :: "store \<Rightarrow> UserHostAccess list" where
  "hostRows s = mergeUserHostAccess (st_userSettings s) (userGrants s)"

definition policyEntries :: "store \<Rightarrow> CacheEntry list" where
  "policyEntries s = (case fst (GetEnabledCacheEntries s) of Inr es \<Rightarrow> es | Inl _ \<Rightarrow> [])"

definition sameReads :: "store \<Rightarrow> store \<Rightarrow> bool" where
  "sameReads s t \<longleftrightarrow> set (ipEntries t) = set (ipEntries s) \<and> hostRows t = hostRows s \<and> policyEntries t = policyEntries s"

lemma hostTables_reads: "hostTables t = hostTables s \<Longrightarrow> hostRows t = hostRows s \<and> policyEntries t = policyEntries s"
proof -
  assume h: "hostTables t = hostTables s"
  then have "memberFQDNs t = memberFQDNs s" by (intro ext) (simp add: hostTables_def memberFQDNs_def)
  moreover from this h have "joinedFQDNs t = joinedFQDNs s" by (intro ext) (simp add: hostTables_def joinedFQDNs_def)
  ultimately show ?thesis using h
    by (simp add: hostTables_def hostRows_def userGrants_def policyEntries_def GetEnabledCacheEntries_def policyRows_def cong: if_cong)
qed

text \<open>The contract of a service towards the cache: a call keeps the device invariant and either tells the
  cache or leaves what it reads alone.\<close>

locale cache_source =
  fixes call :: "'a svc"
  assumes told: "deviceInv s \<Longrightarrow> call s = (r, ns, s') \<Longrightarrow> (\<exists>n \<in> set ns. policyTriggers n) \<or> sameReads s s'"
    and keeps_devices: "deviceInv s \<Longrightarrow> call s = (r, ns, s') \<Longrightarrow> deviceInv s'"

sublocale address_source \<subseteq> cache_source call
proof
  fix s r ns s' assume s: "deviceInv s" and c: "call s = (r, ns, s')"
  show "deviceInv s'" by (rule keeps_inv[OF s c])
  show "(\<exists>n \<in> set ns. policyTriggers n) \<or> sameReads s s'"
    using silent[OF s c] hostTables_reads[of s' s] rest[OF c] by (auto simp: sameReads_def tables_def)
qed

text \<open>The calls on hosts, access and network policies touch none of the device tables.\<close>

definition deviceTables :: "store \<Rightarrow> User list \<times> DeviceRow list \<times> APIKeyRow list \<times> Address list" where
  "deviceTables s = (st_users s, st_devices s, st_apiKeys s, st_addresses s)"

definition sameDevices :: "store \<Rightarrow> store \<Rightarrow> bool" where
  "sameDevices s t \<longleftrightarrow> deviceTables t = deviceTables s"

lemma sameDevices_inv: "sameDevices s t \<Longrightarrow> deviceInv t = deviceInv s"
  by (simp add: sameDevices_def deviceTables_def deviceInv_def liveDevice_def presentDevice_def)

lemma sameDevices_hosts [inv_intros]:
  "keeps (sameDevices s) (CreateHost now draft)" "keeps (sameDevices s) (DeleteHost i)" "keeps (sameDevices s) (insertMember g h)"
  "keeps (sameDevices s) (insertHostGroup now gdraft)" "keeps (sameDevices s) (updateHostGroupRow now grp)" "keeps (sameDevices s) (DeleteHostGroup i)"
  "keeps (sameDevices s) (ListHostsByIDs is)"
  by (auto simp: keeps_def sameDevices_def deviceTables_def CreateHost_def DeleteHost_def insertMember_def insertHostGroup_def
      updateHostGroupRow_def DeleteHostGroup_def ListHostsByIDs_def Let_def)

lemma sameDevices_modify: "(\<And>t. deviceTables (f t) = deviceTables t) \<Longrightarrow> keeps (sameDevices s) (modify f)"
  by (simp add: keeps_def sameDevices_def)

lemma sameDevices_access [inv_intros]:
  "keeps (sameDevices s) (insertUserGroup u g)" "keeps (sameDevices s) (upsertSetting u b)" "keeps (sameDevices s) (insertPolicyGroup p g)"
  "keeps (sameDevices s) (repoUpdatePolicy now pol)" "keeps (sameDevices s) (repoDeletePolicy i)" "keeps (sameDevices s) (GetPolicy i)"
  by (auto simp: keeps_def sameDevices_def deviceTables_def insertUserGroup_def upsertSetting_def insertPolicyGroup_def
      repoUpdatePolicy_def repoDeletePolicy_def GetPolicy_def Let_def split: option.splits)

lemma sameDevices_members [inv_intros]:
  "keeps (sameDevices s) (SetHostGroupMembership b i gs)" "keeps (sameDevices s) (replaceHostGroupMembers b i hs)"
  "keeps (sameDevices s) (repoSetUserAccess b u bp gs)" "keeps (sameDevices s) (repoSetHostAccess b now i bp gs)"
  unfolding SetHostGroupMembership_def replaceHostGroupMembers_def repoSetUserAccess_def repoSetHostAccess_def
  by (auto intro!: inv_intros sameDevices_modify simp: deviceTables_def setPolicyBypass_def)

lemma sameDevices_groups [inv_intros]:
  "keeps (sameDevices s) (CreateHostGroup b now gdraft)" "keeps (sameDevices s) (UpdateHostGroup b now grp)"
  unfolding CreateHostGroup_def UpdateHostGroup_def by (intro inv_intros)+

text \<open>A call that tells the cache whenever it succeeds and changes nothing otherwise.\<close>

lemma telling_source:
  assumes "\<And>s e s'. f s = (Inl e, s') \<Longrightarrow> s' = s" "\<And>s. keeps (sameDevices s) f" "\<And>x. \<exists>n \<in> set (ev x). policyTriggers n"
  shows "cache_source (notifying f ev)"
proof
  fix s r ns s' assume c: "notifying f ev s = (r, ns, s')"
  show "(\<exists>n \<in> set ns. policyTriggers n) \<or> sameReads s s'"
    using c assms(3) by (cases r) (auto simp: notifying_Inl notifying_Inr sameReads_def dest: assms(1))
  have "sameDevices s s'" using c keepsD[OF assms(2), of s s] by (cases r) (auto simp: notifying_Inl notifying_Inr sameDevices_def)
  then show "deviceInv s \<Longrightarrow> deviceInv s'" by (simp add: sameDevices_inv)
qed

lemma ReconcileHosts_telling: "cache_source (ReconcileHosts False now input)"
proof (cases "prepareHosts input")
  case (Inl e)
  then show ?thesis by unfold_locales (auto simp: ReconcileHosts_def notifying_def sameReads_def)
next
  case (Inr hosts)
  let ?f = "andThen ListHosts (\<lambda>currentHosts. case buildHostReconcilePlan currentHosts hosts of Inl e \<Rightarrow> throw e
      | Inr plan \<Rightarrow> withinTx False (applyHostPlan now plan))"
  have "cache_source (notifying ?f (\<lambda>_. [HostAccessChanged]))"
  proof (rule telling_source)
    show "s' = s" if "?f s = (Inl e, s')" for s e s'
      using that by (auto simp: ListHosts_def split: sum.splits dest: withinTx_Inl)
    show "keeps (sameDevices s) ?f" for s
      unfolding ListHosts_def applyHostPlan_def createDraft_def by (auto intro!: inv_intros split: sum.split)
  qed (simp add: policyTriggers_def)
  then show ?thesis by (simp add: ReconcileHosts_def Inr)
qed

lemma ReconcileHostGroups_telling: "cache_source (ReconcileHostGroups False now input)"
proof (cases "prepareGroups input")
  case (Inl e)
  then show ?thesis by unfold_locales (auto simp: ReconcileHostGroups_def notifying_def sameReads_def)
next
  case (Inr groups)
  let ?f = "andThen (validateReferencedHosts groups) (\<lambda>_. andThen ListHostGroups (\<lambda>currentGroups.
      case buildGroupReconcilePlan currentGroups groups of Inl e \<Rightarrow> throw e | Inr plan \<Rightarrow> withinTx False (applyGroupPlan now plan)))"
  have "cache_source (notifying ?f (\<lambda>_. [HostAccessChanged]))"
  proof (rule telling_source)
    have ro: "snd (validateReferencedHosts groups s) = s" for s
      by (auto simp: validateReferencedHosts_def ListHostsByIDs_def andThen_def Let_def)
    show "s' = s" if f: "?f s = (Inl e, s')" for s e s'
    proof -
      obtain r where v: "validateReferencedHosts groups s = (r, s)" using ro[of s] by (metis prod.collapse)
      show ?thesis
      proof (cases r)
        case (Inl e')
        then show ?thesis using f v by (simp add: andThen_def[of "validateReferencedHosts groups"])
      next
        case (Inr x)
        then show ?thesis using f v by (auto simp: andThen_def[of "validateReferencedHosts groups"] ListHostGroups_def split: sum.splits dest: withinTx_Inl)
      qed
    qed
    show "keeps (sameDevices s) ?f" for s
      unfolding ListHostGroups_def applyGroupPlan_def using keeps_readonly[of "validateReferencedHosts groups", OF ro]
      by (auto intro!: inv_intros split: sum.split)
  qed (simp add: policyTriggers_def)
  then show ?thesis by (simp add: ReconcileHostGroups_def Inr)
qed

lemma SetUserAccess_telling: "cache_source (SetUserAccess False u b gs)"
  unfolding SetUserAccess_def
proof (rule telling_source)
  show "s' = s" if "repoSetUserAccess False u b (Dedup gs) s = (Inl e, s')" for s e s'
    using that unfolding repoSetUserAccess_def by (rule withinTx_Inl)
qed (auto intro!: inv_intros simp: policyTriggers_def)

lemma UpdatePolicy_telling: "cache_source (UpdatePolicy False now i flds)"
  unfolding UpdatePolicy_def by (rule telling_source[OF withinTx_Inl]) (auto intro!: inv_intros simp: policyTriggers_def split: sum.split)

lemma DeletePolicy_telling: "cache_source (DeletePolicy i)"
  unfolding DeletePolicy_def
  by (rule telling_source) (auto intro!: inv_intros simp: policyTriggers_def repoDeletePolicy_def split: if_splits)

lemma SetHostAccess_telling: "cache_source (SetHostAccess False now i b gs)"
  unfolding SetHostAccess_def
proof (rule telling_source)
  show "s' = s" if "repoSetHostAccess False now i b gs s = (Inl e, s')" for s e s'
    using that unfolding repoSetHostAccess_def by (rule withinTx_Inl)
qed (auto intro!: inv_intros simp: policyTriggers_def)

interpretation hostChange: cache_source "ReconcileHosts False now input" for now input by (rule ReconcileHosts_telling)
interpretation groupChange: cache_source "ReconcileHostGroups False now input" for now input by (rule ReconcileHostGroups_telling)
interpretation accessChange: cache_source "SetUserAccess False u b gs" for u b gs by (rule SetUserAccess_telling)
interpretation policyUpdate: cache_source "UpdatePolicy False now i flds" for now i flds by (rule UpdatePolicy_telling)
interpretation policyDelete: cache_source "DeletePolicy i" for i by (rule DeletePolicy_telling)
interpretation policyAccess: cache_source "SetHostAccess False now i b gs" for now i b gs by (rule SetHostAccess_telling)

text \<open>The calls of the auth service other than the deletion of a user leave the device tables and the tables of
  hosts and access alone, up to the settings of a user who is created.\<close>

definition sameDeviceRows :: "store \<Rightarrow> store \<Rightarrow> bool" where
  "sameDeviceRows s t \<longleftrightarrow> u_ID ` set (st_users s) \<subseteq> u_ID ` set (st_users t) \<and>
     (st_devices t, st_addresses t, st_apiKeys t) = (st_devices s, st_addresses s, st_apiKeys s)"

definition sameAccounts :: "store \<Rightarrow> store \<Rightarrow> bool" where
  "sameAccounts s t \<longleftrightarrow> sameDeviceRows s t \<and> hostTables t = hostTables s"

lemma sameDeviceRows_keeps:
  assumes "sameDeviceRows s t" "deviceInv s"
  shows "deviceInv t \<and> ipEntries t = ipEntries s"
  using assms ipEntries_same_rows[of t s] by (auto simp: sameDeviceRows_def deviceInv_def liveDevice_def presentDevice_def)

lemma updateUserRow_accounts:
  assumes "\<And>u. u_ID (f u) = u_ID u"
  shows "sameAccounts s (updateUserRow i f t) = sameAccounts s t"
proof -
  have "u_ID ` set (st_users (updateUserRow i f t)) = u_ID ` set (st_users t)"
    using updateUserRow_ids[of f i t, OF assms] by (metis list.set_map)
  then show ?thesis by (simp add: sameAccounts_def sameDeviceRows_def hostTables_def updateUserRow_def)
qed

lemma revokeWhere_accounts: "sameAccounts s (revokeWhere now P t) = sameAccounts s t"
  by (simp add: sameAccounts_def sameDeviceRows_def hostTables_def revokeWhere_def)

lemma sameAccounts_repo [inv_intros]:
  "keeps (sameAccounts s) (GetUserByUsername n)" "keeps (sameAccounts s) (GetUserByID i)" "keeps (sameAccounts s) (CreateSession x)"
  "keeps (sameAccounts s) (UpdatePasswordHash i h b)" "keeps (sameAccounts s) (NullifyPasswordHash i)"
  "keeps (sameAccounts s) (RevokeAllUserSessions now i)" "keeps (sameAccounts s) (RevokeAllUserSessionsExcept now i j)"
  "keeps (sameAccounts s) (RevokeSessionByID now i)"
  by (auto simp: keeps_def GetUserByUsername_def GetUserByID_def CreateSession_def UpdatePasswordHash_def NullifyPasswordHash_def
      RevokeAllUserSessions_def RevokeAllUserSessionsExcept_def RevokeSessionByID_def updateUserRow_accounts revokeWhere_accounts Let_def
      split: option.splits) (simp add: sameAccounts_def sameDeviceRows_def hostTables_def)+

lemma sameAccounts_update [inv_intros]: "keeps (sameAccounts s) (repoUpdateUser u)"
  by (auto simp: keeps_def repoUpdateUser_def GetUserByID_def updateUserRow_accounts split: option.splits)

lemma sameAccounts_lift [inv_intros]: "keeps (sameAccounts s) (liftE f r)"
  by (cases r) (simp_all add: keeps_def liftE_def)

lemma sameAccounts_calls:
  "keeps (sameAccounts s) (Login bcrypt hash random now username password)"
  "keeps (sameAccounts s) (RevokeSession now sid)"
  "keeps (sameAccounts s) (UpdateOwnProfile uid up)"
  "keeps (sameAccounts s) (ChangePassword bcrypt now uid sid old new)"
  "keeps (sameAccounts s) (PromoteUser bcrypt p uid pw)"
  "keeps (sameAccounts s) (DemoteUser now p uid)"
  unfolding Login_def RevokeSession_def UpdateOwnProfile_def ChangePassword_def PromoteUser_def DemoteUser_def
  by (auto intro!: inv_intros split: prod.split)

lemma account_source:
  assumes "\<And>s. keeps (sameAccounts s) f"
  shows "cache_source (notifying f (\<lambda>_. []))"
proof
  fix s r ns s' assume s: "deviceInv s" and c: "notifying f (\<lambda>_. []) s = (r, ns, s')"
  have "sameAccounts s s'" using c keepsD[OF assms, of s s]
    by (cases r) (auto simp: notifying_Inl notifying_Inr sameAccounts_def sameDeviceRows_def)
  then have a: "sameDeviceRows s s'" "hostTables s' = hostTables s" by (simp_all add: sameAccounts_def)
  show "deviceInv s'" using sameDeviceRows_keeps[OF a(1) s] ..
  show "(\<exists>n \<in> set ns. policyTriggers n) \<or> sameReads s s'"
    using sameDeviceRows_keeps[OF a(1) s] hostTables_reads[OF a(2)] by (simp add: sameReads_def)
qed

lemma CreateUser_telling: "cache_source (CreateUser now username displayName email p)"
proof
  fix s r ns s' assume s: "deviceInv s" and c: "CreateUser now username displayName email p s = (r, ns, s')"
  have "s' = s \<or> sameDeviceRows s s' \<and> HostAccessChanged \<in> set ns"
    using c by (auto simp: CreateUser_def createUser_def auth_CreateUser_def notifyUserObservers_def useraccess_OnUserEvent_def
        device_OnUserEvent_def EnsureUserSettings_def sameDeviceRows_def Let_def split: if_splits sum.splits)
  moreover have "policyTriggers HostAccessChanged" by (simp add: policyTriggers_def)
  ultimately show "deviceInv s'" "(\<exists>n \<in> set ns. policyTriggers n) \<or> sameReads s s'"
    using s sameDeviceRows_keeps[of s s'] by (auto simp: sameReads_def)
qed

interpretation login: cache_source "notifying (Login bcrypt hash random now username password) (\<lambda>_. [])" for bcrypt hash random now username password
  by (rule account_source[OF sameAccounts_calls(1)])
interpretation logout: cache_source "notifying (RevokeSession now sid) (\<lambda>_. [])" for now sid
  by (rule account_source[OF sameAccounts_calls(2)])
interpretation profile: cache_source "notifying (UpdateOwnProfile uid up) (\<lambda>_. [])" for uid up
  by (rule account_source[OF sameAccounts_calls(3)])
interpretation passwordChange: cache_source "notifying (ChangePassword bcrypt now uid sid old new) (\<lambda>_. [])" for bcrypt now uid sid old new
  by (rule account_source[OF sameAccounts_calls(4)])
interpretation promotion: cache_source "notifying (PromoteUser bcrypt p uid pw) (\<lambda>_. [])" for bcrypt p uid pw
  by (rule account_source[OF sameAccounts_calls(5)])
interpretation demotion: cache_source "notifying (DemoteUser now p uid) (\<lambda>_. [])" for now p uid
  by (rule account_source[OF sameAccounts_calls(6)])
interpretation newUser: cache_source "CreateUser now username displayName email p" for now username displayName email p
  by (rule CreateUser_telling)

text \<open>All calls that keep the contract, as steps. (The accounts of the start of the application,
  \<open>BootstrapAdmin\<close>, are made before the cache is initialized.)\<close>

inductive accountCall :: "store \<Rightarrow> notice list \<Rightarrow> store \<Rightarrow> bool" where
  logsIn: "notifying (Login bcrypt hash random now username password) (\<lambda>_. []) s = (r, ns, s') \<Longrightarrow> accountCall s ns s'"
| logsOut: "notifying (RevokeSession now sid) (\<lambda>_. []) s = (r', ns, s') \<Longrightarrow> accountCall s ns s'"
| renames: "notifying (UpdateOwnProfile uid up) (\<lambda>_. []) s = (r'', ns, s') \<Longrightarrow> accountCall s ns s'"
| changes: "notifying (ChangePassword bcrypt now uid sid old new) (\<lambda>_. []) s = (r', ns, s') \<Longrightarrow> accountCall s ns s'"
| promotes: "notifying (PromoteUser bcrypt p uid pw) (\<lambda>_. []) s = (r'', ns, s') \<Longrightarrow> accountCall s ns s'"
| demotes: "notifying (DemoteUser now p uid) (\<lambda>_. []) s = (r'', ns, s') \<Longrightarrow> accountCall s ns s'"
| creates: "CreateUser now username displayName email p s = (r'', ns, s') \<Longrightarrow> accountCall s ns s'"

lemma accountCall_lawful:
  assumes "accountCall s ns s'" "deviceInv s"
  shows "deviceInv s' \<and> ((\<exists>n \<in> set ns. policyTriggers n) \<or> sameReads s s')"
  using assms(1)
proof cases
  case (logsIn bcrypt hash random now username password r)
  then show ?thesis using assms(2) login.told login.keeps_devices by blast
next
  case (logsOut now sid r)
  then show ?thesis using assms(2) logout.told logout.keeps_devices by blast
next
  case (renames uid up r)
  then show ?thesis using assms(2) profile.told profile.keeps_devices by blast
next
  case (changes bcrypt now uid sid old new r)
  then show ?thesis using assms(2) passwordChange.told passwordChange.keeps_devices by blast
next
  case (promotes bcrypt p uid pw r)
  then show ?thesis using assms(2) promotion.told promotion.keeps_devices by blast
next
  case (demotes now p uid r)
  then show ?thesis using assms(2) demotion.told demotion.keeps_devices by blast
next
  case (creates now username displayName email p r)
  then show ?thesis using assms(2) newUser.told newUser.keeps_devices by blast
qed

inductive cacheCall :: "store \<Rightarrow> notice list \<Rightarrow> store \<Rightarrow> bool" where
  device: "deviceCall s ns s' \<Longrightarrow> cacheCall s ns s'"
| hosts: "ReconcileHosts False now hosts s = (r, ns, s') \<Longrightarrow> cacheCall s ns s'"
| groups: "ReconcileHostGroups False now groups s = (r, ns, s') \<Longrightarrow> cacheCall s ns s'"
| access: "SetUserAccess False u b gs s = (r, ns, s') \<Longrightarrow> cacheCall s ns s'"
| policy: "UpdatePolicy False now i flds s = (r', ns, s') \<Longrightarrow> cacheCall s ns s'"
| dropPolicy: "DeletePolicy i s = (r, ns, s') \<Longrightarrow> cacheCall s ns s'"
| policyAccess: "SetHostAccess False now i b gs s = (r, ns, s') \<Longrightarrow> cacheCall s ns s'"
| account: "accountCall s ns s' \<Longrightarrow> cacheCall s ns s'"

lemma cacheCall_lawful:
  assumes "cacheCall s ns s'" "deviceInv s"
  shows "deviceInv s' \<and> ((\<exists>n \<in> set ns. policyTriggers n) \<or> sameReads s s')"
  using assms(1)
proof cases
  case device
  then show ?thesis using deviceCall_lawful[OF device assms(2)] hostTables_reads[of s' s] by (auto simp: lawful_def sameReads_def tables_def)
next
  case account
  then show ?thesis by (rule accountCall_lawful[OF _ assms(2)])
qed (use assms(2) in \<open>blast dest: hostChange.told hostChange.keeps_devices groupChange.told groupChange.keeps_devices accessChange.told
    accessChange.keeps_devices policyUpdate.told policyUpdate.keeps_devices policyDelete.told policyDelete.keeps_devices
    policyAccess.told policyAccess.keeps_devices\<close>)+

section \<open>The listener\<close>

text \<open>How far a refresh has come: the time it began and the answers it has so far.\<close>

datatype refreshing = NeedIPs time | NeedHosts time "IPEntry list" | NeedPolicies time "IPEntry list" "UserHostAccess list"
  | Swap time "IPEntry list" "UserHostAccess list" "CacheEntry list"

record policyWorld =
  pw_store :: store
  pw_unsent :: "notice list list"
  pw_svc :: policyService
  pw_refresh :: "refreshing option"
  pw_failed :: bool
  pw_created :: bool
  pw_deleting :: "store option"
  pw_deleted :: bool

text \<open>\<open>pw_failed\<close>: the last refresh failed; \<open>pw_created\<close>: a network policy was created since the policies
  were read last; \<open>pw_deleted\<close>: a user was deleted since the addresses were read last. These only record
  what happened. \<open>pw_deleting\<close>: the store as the open transaction of \<open>DeleteUser\<close> sees it, after it told
  the observers and before it commits. The database has one writer: no other call commits in between.\<close>

definition swapCaches :: "time \<Rightarrow> time \<Rightarrow> IPEntry list \<Rightarrow> UserHostAccess list \<Rightarrow> CacheEntry list \<Rightarrow> policyService \<Rightarrow> policyService" where
  "swapCaches start now ips ha np svc = svc\<lparr>ps_ipSet := buildIPSet ips ha, ps_networkPolicies := buildNetworkPolicyCache np,
     ps_lastRefreshedAt := now, ps_lastRefreshDurationMs := (now - start) div 1000000\<rparr>"

text \<open>The refresh that the ticker begins, and the moves of a refresh whose queries answer.\<close>

definition tickRefresh :: "time \<Rightarrow> policyWorld \<Rightarrow> policyWorld" where
  "tickRefresh start w = w\<lparr>pw_refresh := Some (NeedIPs start)\<rparr>"

inductive refreshStep :: "policyWorld \<Rightarrow> policyWorld \<Rightarrow> bool" where
  ips: "pw_refresh w = Some (NeedIPs start) \<Longrightarrow> GetEnabledIPEntries (pw_store w) = (Inr es, s') \<Longrightarrow>
    refreshStep w (w\<lparr>pw_refresh := Some (NeedHosts start es), pw_deleted := False\<rparr>)"
| access: "pw_refresh w = Some (NeedHosts start es) \<Longrightarrow> GetAllUserHostAccess False (pw_store w) = (Inr ha, s') \<Longrightarrow>
    refreshStep w (w\<lparr>pw_refresh := Some (NeedPolicies start es ha)\<rparr>)"
| policies: "pw_refresh w = Some (NeedPolicies start es ha) \<Longrightarrow> GetEnabledCacheEntries (pw_store w) = (Inr np, s') \<Longrightarrow>
    refreshStep w (w\<lparr>pw_refresh := Some (Swap start es ha np), pw_created := False\<rparr>)"
| swap: "pw_refresh w = Some (Swap start es ha np) \<Longrightarrow>
    refreshStep w (w\<lparr>pw_refresh := None, pw_failed := False, pw_svc := swapCaches start now es ha np (pw_svc w)\<rparr>)"

inductive policyStep :: "policyWorld \<Rightarrow> policyWorld \<Rightarrow> bool" where
  call: "pw_deleting w = None \<Longrightarrow> cacheCall (pw_store w) ns s' \<Longrightarrow> policyStep w (w\<lparr>pw_store := s', pw_unsent := pw_unsent w @ [ns]\<rparr>)"
| create: "pw_deleting w = None \<Longrightarrow> CreatePolicy now name cidr description (pw_store w) = (r, ns, s') \<Longrightarrow>
    policyStep w (w\<lparr>pw_store := s', pw_unsent := pw_unsent w @ [ns], pw_created := True\<rparr>)"
| deletion: "pw_deleting w = None \<Longrightarrow> DeleteUser now p i (pw_store w) = (r', ns, s') \<Longrightarrow>
    policyStep w (w\<lparr>pw_svc := fold policy_observe ns (pw_svc w), pw_deleting := Some s'\<rparr>)"
| commit: "pw_deleting w = Some s' \<Longrightarrow> policyStep w (w\<lparr>pw_store := s', pw_deleting := None, pw_deleted := True\<rparr>)"
| rollback: "pw_deleting w = Some s' \<Longrightarrow> policyStep w (w\<lparr>pw_deleting := None\<rparr>)"
| deliver: "k < length (pw_unsent w) \<Longrightarrow> policyStep w (w\<lparr>pw_svc := fold policy_observe (pw_unsent w ! k) (pw_svc w),
    pw_unsent := take k (pw_unsent w) @ drop (Suc k) (pw_unsent w)\<rparr>)"
| signal: "pw_refresh w = None \<Longrightarrow> ps_refreshSignal (pw_svc w) \<Longrightarrow>
    policyStep w (w\<lparr>pw_svc := (pw_svc w)\<lparr>ps_refreshSignal := False\<rparr>, pw_refresh := Some (NeedIPs start)\<rparr>)"
| tick: "pw_refresh w = None \<Longrightarrow> policyStep w (tickRefresh start w)"
| refresh: "refreshStep w w' \<Longrightarrow> policyStep w w'"
| failed: "pw_refresh w = Some p' \<Longrightarrow> \<not> (\<exists>start es ha np. p' = Swap start es ha np) \<Longrightarrow> policyStep w (w\<lparr>pw_refresh := None, pw_failed := True\<rparr>)"

inductive_cases policyStepE: "policyStep w w'"
inductive_cases refreshStepE: "refreshStep w w'"

text \<open>The swap is what \<open>refreshCache\<close> leaves when the three queries answer.\<close>

lemma swapCaches_refresh:
  "refreshCache start now \<lparr>pr_ipEntries = Inr ips, pr_hostAccess = Some (Inr ha), pr_networkPolicies = Some (Inr np)\<rparr> svc =
    (None, swapCaches start now ips ha np svc)"
  by (simp add: refreshCache_def swapCaches_def)

section \<open>No change is lost\<close>

definition pendingTrigger :: "policyWorld \<Rightarrow> bool" where
  "pendingTrigger w \<longleftrightarrow> ps_refreshSignal (pw_svc w) \<or> (\<exists>ns \<in> set (pw_unsent w). \<exists>n \<in> set ns. policyTriggers n)"

definition cacheOf :: "store \<Rightarrow> bool \<Rightarrow> IPEntry list \<Rightarrow> UserHostAccess list \<Rightarrow> CacheEntry list \<Rightarrow> bool" where
  "cacheOf s created es ha np \<longleftrightarrow> set es = set (ipEntries s) \<and> ha = hostRows s \<and> (np = policyEntries s \<or> created)"

definition readsCurrent :: "policyWorld \<Rightarrow> bool" where
  "readsCurrent w = (case pw_refresh w of
     None \<Rightarrow> pw_failed w \<or> (\<exists>es ha np. cacheOf (pw_store w) (pw_created w) es ha np \<and>
        ps_ipSet (pw_svc w) = buildIPSet es ha \<and> ps_networkPolicies (pw_svc w) = buildNetworkPolicyCache np)
   | Some (NeedIPs _) \<Rightarrow> True
   | Some (NeedHosts _ es) \<Rightarrow> set es = set (ipEntries (pw_store w))
   | Some (NeedPolicies _ es ha) \<Rightarrow> set es = set (ipEntries (pw_store w)) \<and> ha = hostRows (pw_store w)
   | Some (Swap _ es ha np) \<Rightarrow> cacheOf (pw_store w) (pw_created w) es ha np)"

definition policyInv :: "policyWorld \<Rightarrow> bool" where
  "policyInv w \<longleftrightarrow> deviceInv (pw_store w) \<and> (\<forall>t. pw_deleting w = Some t \<longrightarrow> deviceInv t) \<and>
     (pendingTrigger w \<or> pw_deleted w \<or> readsCurrent w)"

lemma readsCurrent_same:
  assumes "sameReads (pw_store w) s'"
  shows "readsCurrent (w\<lparr>pw_store := s', pw_unsent := u\<rparr>) = readsCurrent w"
  using assms by (simp add: readsCurrent_def cacheOf_def sameReads_def split: option.splits refreshing.splits)

lemma policyInv_call:
  assumes "policyInv w" "cacheCall (pw_store w) ns s'"
  shows "policyInv (w\<lparr>pw_store := s', pw_unsent := pw_unsent w @ [ns]\<rparr>)"
  using assms(1) cacheCall_lawful[OF assms(2)] readsCurrent_same[of w s' "pw_unsent w @ [ns]"]
  by (auto simp: policyInv_def pendingTrigger_def)

text \<open>Creating a policy changes the third answer only.\<close>

lemma CreatePolicy_reads:
  assumes "CreatePolicy now name cidr description s = (r, ns, s')"
  shows "deviceInv s' = deviceInv s" "ipEntries s' = ipEntries s" "hostRows s' = hostRows s" "ns = []"
proof -
  have "s' = s \<or> (\<exists>ps i. s' = s\<lparr>st_policies := ps, st_policySeq := i\<rparr>)" "ns = []"
    using assms by (auto simp: CreatePolicy_def notifying_def repoCreatePolicy_def Let_def split: sum.splits if_splits)
  then show "deviceInv s' = deviceInv s" "ipEntries s' = ipEntries s" "hostRows s' = hostRows s" "ns = []"
    by (auto simp: deviceInv_def liveDevice_def presentDevice_def ipEntries_def enabledRow_def[abs_def] hostRows_def userGrants_def cong: if_cong)
qed

lemma policyInv_create:
  assumes "policyInv w" "CreatePolicy now name cidr description (pw_store w) = (r, ns, s')"
  shows "policyInv (w\<lparr>pw_store := s', pw_unsent := pw_unsent w @ [ns], pw_created := True\<rparr>)"
proof -
  note c = CreatePolicy_reads[OF assms(2)]
  have "readsCurrent w \<Longrightarrow> readsCurrent (w\<lparr>pw_store := s', pw_unsent := pw_unsent w @ [ns], pw_created := True\<rparr>)"
    using c(2,3) by (auto simp: readsCurrent_def cacheOf_def split: option.splits refreshing.splits)
  then show ?thesis using assms(1) c(1,4) by (auto simp: policyInv_def pendingTrigger_def)
qed

lemma policyInv_deliver:
  assumes "policyInv w" "k < length (pw_unsent w)"
  shows "policyInv (w\<lparr>pw_svc := fold policy_observe (pw_unsent w ! k) (pw_svc w), pw_unsent := take k (pw_unsent w) @ drop (Suc k) (pw_unsent w)\<rparr>)"
    (is "policyInv ?w")
proof -
  have "set (pw_unsent w) = insert (pw_unsent w ! k) (set (take k (pw_unsent w) @ drop (Suc k) (pw_unsent w)))"
    using id_take_nth_drop[OF assms(2)] by (metis Un_insert_right list.simps(15) set_append)
  then have "pendingTrigger w \<Longrightarrow> pendingTrigger ?w" by (auto simp: pendingTrigger_def policy_observes triggerRefresh_def)
  moreover have "readsCurrent ?w = readsCurrent w"
    by (simp add: readsCurrent_def policy_observes triggerRefresh_def split: option.splits refreshing.splits)
  ultimately show ?thesis using assms(1) by (auto simp: policyInv_def)
qed

lemma DeleteUser_keeps:
  assumes "DeleteUser now p i s = (r, ns, t)" "deviceInv s"
  shows "deviceInv t"
  using assms DeleteUser_entries[of s now p i] DeleteUser_Inl[of now p i s] by (cases r) auto

lemma policyInv_deletion:
  assumes "policyInv w" "DeleteUser now p i (pw_store w) = (r, ns, s')"
  shows "policyInv (w\<lparr>pw_svc := fold policy_observe ns (pw_svc w), pw_deleting := Some s'\<rparr>)" (is "policyInv ?w")
proof -
  have "pendingTrigger w \<Longrightarrow> pendingTrigger ?w" by (auto simp: pendingTrigger_def policy_observes triggerRefresh_def)
  moreover have "readsCurrent ?w = readsCurrent w"
    by (simp add: readsCurrent_def policy_observes triggerRefresh_def split: option.splits refreshing.splits)
  ultimately show ?thesis using assms(1) DeleteUser_keeps[OF assms(2)] by (auto simp: policyInv_def)
qed

lemma refreshStep_inv:
  assumes "refreshStep w w'" "policyInv w"
  shows "policyInv w'"
  using assms(1)
proof (cases rule: refreshStep.cases)
  case (ips start es s')
  then show ?thesis using assms(2) by (auto simp: policyInv_def pendingTrigger_def readsCurrent_def GetEnabledIPEntries_eq)
next
  case (access start es ha s')
  then show ?thesis using assms(2) by (auto simp: policyInv_def pendingTrigger_def readsCurrent_def GetAllUserHostAccess_eq hostRows_def)
next
  case (policies start es ha np s')
  then show ?thesis using assms(2)
    by (auto simp: policyInv_def pendingTrigger_def readsCurrent_def cacheOf_def policyEntries_def)
next
  case (swap start es ha np now)
  have "readsCurrent w \<Longrightarrow> readsCurrent w'"
    by (simp add: swap readsCurrent_def, intro exI[of _ es] exI[of _ ha] exI[of _ np]) (simp add: swapCaches_def)
  then show ?thesis using assms(2) by (auto simp: swap policyInv_def pendingTrigger_def swapCaches_def)
qed

lemma policyStep_inv:
  assumes "policyStep w w'" "policyInv w"
  shows "policyInv w'"
  using assms(1)
proof (cases rule: policyStep.cases)
  case (call ns s')
  then show ?thesis using policyInv_call[OF assms(2)] by simp
next
  case (create now name cidr description r ns s')
  then show ?thesis using policyInv_create[OF assms(2)] by simp
next
  case (deletion now p i r ns s')
  then show ?thesis using policyInv_deletion[OF assms(2)] by simp
next
  case (deliver k)
  then show ?thesis using policyInv_deliver[OF assms(2)] by simp
next
  case refresh
  then show ?thesis by (rule refreshStep_inv[OF _ assms(2)])
next
  case (rollback s')
  have "readsCurrent w' = readsCurrent w" by (simp add: rollback(1) readsCurrent_def split: option.splits refreshing.splits)
  then show ?thesis using assms(2) by (simp add: rollback(1) policyInv_def pendingTrigger_def)
qed (use assms(2) in \<open>auto simp: policyInv_def pendingTrigger_def readsCurrent_def tickRefresh_def\<close>)

lemma policySteps_inv: "policyStep\<^sup>*\<^sup>* w w' \<Longrightarrow> policyInv w \<Longrightarrow> policyInv w'"
  by (induction rule: rtranclp_induct) (auto intro: policyStep_inv)

section \<open>Decisions\<close>

text \<open>Whether the store as it is lets an address reach a host.\<close>

definition storeAllows :: "addr \<Rightarrow> store \<Rightarrow> addr \<Rightarrow> string \<Rightarrow> bool" where
  "storeAllows proxy s ip host \<longleftrightarrow> IsValid ip \<and> \<not> (IsValid proxy \<and> Unmap ip = proxy) \<and>
     (if entriesAt (ipEntries s) (Unmap ip) \<noteq> []
      then list_all (\<lambda>e. bypassByUser (hostRows s) (ie_UserID e) \<or> NormaliseHost host \<in> hostSetByUser (hostRows s) (ie_UserID e))
             (entriesAt (ipEntries s) (Unmap ip))
      else longestAllows (List.map_filter toCacheEntry (policyEntries s)) (Unmap ip) (NormaliseHost host))"

definition rangesDistinct :: "store \<Rightarrow> bool" where
  "rangesDistinct s \<longleftrightarrow> distinct (map nc_Prefix (buildNetworkPolicyCache (policyEntries s)))"

lemma cacheOf_decides:
  assumes "cacheOf s False es ha np" "rangesDistinct s" "ps_ipSet svc = buildIPSet es ha" "ps_networkPolicies svc = buildNetworkPolicyCache np"
  shows "dr_Allowed (Decide svc ip host) \<longleftrightarrow> storeAllows (ps_trustedProxy svc) s ip host"
proof -
  have np: "np = policyEntries s" and ha: "ha = hostRows s" and es: "set es = set (ipEntries s)" using assms(1) by (auto simp: cacheOf_def)
  have sets: "set (entriesAt es a) = set (entriesAt (ipEntries s) a)" for a using es by (auto simp: entriesAt_def)
  then have "entriesAt es a = [] \<longleftrightarrow> entriesAt (ipEntries s) a = []" for a by (metis set_empty2)
  moreover have "list_all P (entriesAt es a) = list_all P (entriesAt (ipEntries s) a)" for P a using sets by (simp add: list_all_iff)
  ultimately show ?thesis using network_longest[OF assms(2)[unfolded rangesDistinct_def]]
    by (simp add: Decide_allowed isTrustedProxy_eq assms(3,4) buildIPSet_spec specEntry_allows storeAllows_def np ha)
qed

text \<open>The service after \<open>Initialize\<close>, with no call under way.\<close>

definition policyStart :: "policyWorld \<Rightarrow> bool" where
  "policyStart w \<longleftrightarrow> deviceInv (pw_store w) \<and> pw_unsent w = [] \<and> pw_refresh w = None \<and> \<not> pw_failed w \<and> \<not> pw_created w \<and> pw_deleting w = None \<and>
     (\<exists>start now svc. pw_svc w = swapCaches start now (ipEntries (pw_store w)) (hostRows (pw_store w)) (policyEntries (pw_store w)) svc)"

lemma policyStart_inv:
  assumes "policyStart w"
  shows "policyInv w"
proof -
  have "readsCurrent w" using assms
    by (auto simp: policyStart_def readsCurrent_def cacheOf_def swapCaches_def)
  then show ?thesis using assms by (simp add: policyStart_def policyInv_def)
qed

text \<open>C6 (safety). The cache loses no change for good, two recorded cases aside: whatever calls of the device,
  host, access, policy and auth services ran since the start, in whatever order their notifications came and wherever they fell
  between the queries of a refresh, once no notification is outstanding, the signal is clear and the
  listener idle, every decision is the one that the store as it is gives, provided the last refresh did
  not fail, no network policy was created since the policies were last read (creating one does not notify
  the cache), no user was deleted since the addresses were last read (the deletion notifies before it
  commits) and the ranges of the enabled policies are distinct.\<close>

theorem cache_follows_store:
  assumes "policyStart w" and "policyStep\<^sup>*\<^sup>* w w'" and "\<not> pendingTrigger w'" and "pw_refresh w' = None"
    and "\<not> pw_failed w'" and "\<not> pw_created w'" and "\<not> pw_deleted w'" and "rangesDistinct (pw_store w')"
  shows "dr_Allowed (Decide (pw_svc w') ip host) \<longleftrightarrow> storeAllows (ps_trustedProxy (pw_svc w')) (pw_store w') ip host"
proof -
  have "policyInv w'" by (rule policySteps_inv[OF assms(2) policyStart_inv[OF assms(1)]])
  then have "readsCurrent w'" using assms(3,7) by (simp add: policyInv_def)
  then obtain es ha np where c: "cacheOf (pw_store w') False es ha np" "ps_ipSet (pw_svc w') = buildIPSet es ha"
    "ps_networkPolicies (pw_svc w') = buildNetworkPolicyCache np"
    using assms(4-6) by (auto simp: readsCurrent_def)
  show ?thesis by (rule cacheOf_decides[OF c(1) assms(8) c(2,3)])
qed

text \<open>What a refresh leaves that nothing else interrupts.\<close>

definition refreshed :: "time \<Rightarrow> time \<Rightarrow> policyWorld \<Rightarrow> policyWorld" where
  "refreshed start now w = w\<lparr>pw_refresh := None, pw_failed := False, pw_created := False, pw_deleted := False,
     pw_svc := swapCaches start now (ipEntries (pw_store w)) (hostRows (pw_store w)) (policyEntries (pw_store w)) (pw_svc w)\<rparr>"

inductive_simps refreshStep_simps: "refreshStep w w'"

lemma refreshStep_phases:
  "pw_refresh w = Some (NeedIPs start) \<Longrightarrow> refreshStep w w' \<longleftrightarrow>
    w' = w\<lparr>pw_refresh := Some (NeedHosts start (ipEntries (pw_store w))), pw_deleted := False\<rparr>"
  "pw_refresh w = Some (NeedHosts start es) \<Longrightarrow> refreshStep w w' \<longleftrightarrow>
    w' = w\<lparr>pw_refresh := Some (NeedPolicies start es (hostRows (pw_store w)))\<rparr>"
  "pw_refresh w = Some (NeedPolicies start es ha) \<Longrightarrow> refreshStep w w' \<longleftrightarrow>
    w' = w\<lparr>pw_refresh := Some (Swap start es ha (policyEntries (pw_store w))), pw_created := False\<rparr>"
  "pw_refresh w = Some (Swap start es ha np) \<Longrightarrow> refreshStep w w' \<longleftrightarrow>
    (\<exists>now. w' = w\<lparr>pw_refresh := None, pw_failed := False, pw_svc := swapCaches start now es ha np (pw_svc w)\<rparr>)"
  by (auto simp: refreshStep_simps GetEnabledIPEntries_eq GetAllUserHostAccess_eq hostRows_def policyEntries_def GetEnabledCacheEntries_def)

lemma refresh_moves:
  assumes "pw_refresh w = Some (NeedIPs start)"
  shows "(refreshStep ^^ 4) w w' \<longleftrightarrow> (\<exists>now. w' = refreshed start now w)"
proof -
  have four: "(4::nat) = Suc (Suc (Suc (Suc 0)))" by simp
  show ?thesis unfolding four relpowp_Suc_right[abs_def]
    using assms by (cases w) (simp add: OO_def refreshStep_phases refreshed_def)
qed

lemma refreshed_decides:
  assumes "rangesDistinct (pw_store w)"
  shows "dr_Allowed (Decide (pw_svc (refreshed start now w)) ip host) \<longleftrightarrow> storeAllows (ps_trustedProxy (pw_svc w)) (pw_store w) ip host"
proof -
  have "cacheOf (pw_store w) False (ipEntries (pw_store w)) (hostRows (pw_store w)) (policyEntries (pw_store w))" by (simp add: cacheOf_def)
  from cacheOf_decides[OF this assms, of "pw_svc (refreshed start now w)"] show ?thesis by (simp add: refreshed_def swapCaches_def)
qed

text \<open>C20 (liveness). The periodic rebuild repairs the cache. From every state with an idle listener, whatever
  is stale and for whatever reason (a failed refresh, a created policy, a deleted user, a lost signal), a
  tick and the four moves of the refresh that it begins, the three queries and the swap, can be made, and
  however they are made they leave the store and the notifications alone and end with an idle listener and
  a cache whose every decision is the one the store gives, if the ranges of the enabled policies are distinct.\<close>

theorem reconcile_repairs_cache:
  assumes "pw_refresh w = None" and "rangesDistinct (pw_store w)"
  shows "policyStep w (tickRefresh start w) \<and> (\<exists>w'. (refreshStep ^^ 4) (tickRefresh start w) w') \<and>
    (\<forall>w'. (refreshStep ^^ 4) (tickRefresh start w) w' \<longrightarrow>
       pw_store w' = pw_store w \<and> pw_unsent w' = pw_unsent w \<and> pw_refresh w' = None \<and> \<not> pw_failed w' \<and> \<not> pw_created w' \<and> \<not> pw_deleted w' \<and>
       (\<forall>ip host. dr_Allowed (Decide (pw_svc w') ip host) \<longleftrightarrow> storeAllows (ps_trustedProxy (pw_svc w)) (pw_store w') ip host))"
proof -
  let ?t = "tickRefresh start w"
  have "pw_refresh ?t = Some (NeedIPs start)" by (simp add: tickRefresh_def)
  note moves = refresh_moves[OF this]
  have "rangesDistinct (pw_store ?t)" using assms(2) by (simp add: tickRefresh_def)
  note decides = refreshed_decides[OF this]
  show ?thesis unfolding moves using policyStep.tick[OF assms(1)] decides[unfolded tickRefresh_def]
    by (auto simp: refreshed_def tickRefresh_def)
qed

section \<open>Sample runs\<close>

definition lanPolicy :: NetworkPolicy where
  "lanPolicy = \<lparr>np_ID = 1, np_Name = ''lan'', np_CIDR = ''10.0.0.0/16'', np_Description = None, np_Enabled = True,
     np_BypassHostCheck = True, np_CreatedAt = 0, np_UpdatedAt = 0\<rparr>"

definition lanStore :: store where
  "lanStore = deviceStore\<lparr>st_policies := [lanPolicy], st_policySeq := 1\<rparr>"

definition startService :: policyService where
  "startService = swapCaches 0 0 (ipEntries lanStore) (hostRows lanStore) (policyEntries lanStore) sampleService"

definition policyWorld1 :: policyWorld where
  "policyWorld1 = \<lparr>pw_store = lanStore, pw_unsent = [], pw_svc = startService, pw_refresh = None, pw_failed = False, pw_created = False,
     pw_deleting = None, pw_deleted = False\<rparr>"

lemma policyWorld1_start: "policyStart policyWorld1"
proof -
  have "deviceInv lanStore" using deviceStore_ok by (simp add: lanStore_def deviceInv_def liveDevice_def presentDevice_def)
  then show ?thesis by (auto simp: policyStart_def policyWorld1_def startService_def)
qed

text \<open>Address 10.0.0.9 is registered by a device whose owner may reach nothing; once it is disabled, the
  network policy around it applies.\<close>

definition offStore :: store where
  "offStore = storeAfter (DisableAddress 9 1 1 lanStore)"

definition policyWorld2 :: policyWorld where
  "policyWorld2 = policyWorld1\<lparr>pw_store := offStore, pw_refresh := Some (NeedIPs 0)\<rparr>"

lemma policyWorld2_reached: "policyStep\<^sup>*\<^sup>* policyWorld1 policyWorld2"
proof -
  let ?ns = "noticesOf (DisableAddress 9 1 1 lanStore)"
  let ?a = "policyWorld1\<lparr>pw_store := offStore, pw_unsent := [?ns]\<rparr>"
  let ?b = "policyWorld1\<lparr>pw_store := offStore, pw_svc := triggerRefresh startService\<rparr>"
  have "deviceCall lanStore ?ns offStore" unfolding offStore_def
    by (rule deviceCall.disable[of 9 1 1 _ "fst (DisableAddress 9 1 1 lanStore)"]) (simp add: noticesOf_def storeAfter_def)
  then have one: "policyStep policyWorld1 ?a" using policyStep.call[OF _ cacheCall.device, of policyWorld1 ?ns offStore]
    by (simp add: policyWorld1_def)
  have trig: "\<exists>n \<in> set ?ns. policyTriggers n" by code_simp
  have "policyStep ?a ?b" using policyStep.deliver[of 0 ?a] trig by (simp add: policy_observes policyWorld1_def)
  moreover have "policyStep ?b (?b\<lparr>pw_svc := (pw_svc ?b)\<lparr>ps_refreshSignal := False\<rparr>, pw_refresh := Some (NeedIPs 0)\<rparr>)"
    by (rule policyStep.signal) (simp_all add: policyWorld1_def triggerRefresh_def)
  moreover have "?b\<lparr>pw_svc := (pw_svc ?b)\<lparr>ps_refreshSignal := False\<rparr>, pw_refresh := Some (NeedIPs 0)\<rparr> = policyWorld2"
    by (simp add: policyWorld2_def policyWorld1_def triggerRefresh_def startService_def swapCaches_def sampleService_def)
  ultimately have "policyStep ?a ?b" "policyStep ?b policyWorld2" by simp_all
  then show ?thesis using one by (meson converse_rtranclp_into_rtranclp r_into_rtranclp)
qed

lemma offStore_ok: "rangesDistinct offStore" "storeAllows (ps_trustedProxy startService) offStore (V4 0x0A000009) ''x.io''"
  "\<not> dr_Allowed (Decide startService (V4 0x0A000009) ''x.io'')"
  by code_simp+

lemma refresh_run: "pw_refresh w = Some (NeedIPs start) \<Longrightarrow> policyStep\<^sup>*\<^sup>* w (refreshed start now w)"
  using refresh_moves[of w start "refreshed start now w"] relpowp_imp_rtranclp[of 4 refreshStep w "refreshed start now w"]
    rtranclp_mono[of refreshStep policyStep] policyStep.refresh by blast

theorem cache_follows_store_witness:
  "\<exists>w. policyStep\<^sup>*\<^sup>* policyWorld1 w \<and> dr_Allowed (Decide (pw_svc w) (V4 0x0A000009) ''x.io'') \<and>
     \<not> dr_Allowed (Decide (pw_svc policyWorld1) (V4 0x0A000009) ''x.io'')"
proof -
  let ?w = "refreshed 0 0 policyWorld2"
  have w: "pw_store ?w = offStore" "pw_unsent ?w = []" "pw_refresh ?w = None" "\<not> pw_failed ?w" "\<not> pw_created ?w" "\<not> pw_deleted ?w"
    by (simp_all add: refreshed_def policyWorld2_def policyWorld1_def)
  have run: "policyStep\<^sup>*\<^sup>* policyWorld1 ?w"
    using policyWorld2_reached refresh_run[of policyWorld2 0 0] by (simp add: policyWorld2_def policyWorld1_def)
  have quiet: "\<not> pendingTrigger ?w" "ps_trustedProxy (pw_svc ?w) = ps_trustedProxy startService"
    using w(2) by (simp_all add: pendingTrigger_def refreshed_def policyWorld2_def policyWorld1_def swapCaches_def startService_def sampleService_def)
  from cache_follows_store[OF policyWorld1_start run quiet(1) w(3-6), of "V4 0x0A000009" "''x.io''"]
  have "dr_Allowed (Decide (pw_svc ?w) (V4 0x0A000009) ''x.io'')" using w(1) quiet(2) offStore_ok(1,2) by simp
  then show ?thesis using run offStore_ok(3) by (auto simp: policyWorld1_def)
qed

theorem reconcile_repairs_cache_witness:
  "\<exists>w. (refreshStep ^^ 4) (tickRefresh 5 (policyWorld1\<lparr>pw_store := offStore, pw_failed := True\<rparr>)) w \<and>
     dr_Allowed (Decide (pw_svc w) (V4 0x0A000009) ''x.io'')"
  using reconcile_repairs_cache[of "policyWorld1\<lparr>pw_store := offStore, pw_failed := True\<rparr>" 5] offStore_ok(1,2)
  by (auto simp: policyWorld1_def)

text \<open>A policy that is created is not seen until the next tick: 10.0.1.1 is still let through by the range
  around it, although the new, narrower range allows no host, and nothing is pending.\<close>

definition newPolicyStore :: store where
  "newPolicyStore = storeAfter (CreatePolicy 9 ''guests'' ''10.0.1.0/24'' None lanStore)"

theorem created_policy_unseen:
  "\<exists>w. policyStep\<^sup>*\<^sup>* policyWorld1 w \<and> \<not> pendingTrigger w \<and> pw_refresh w = None \<and> \<not> pw_failed w \<and> rangesDistinct (pw_store w) \<and>
     dr_Allowed (Decide (pw_svc w) (V4 0x0A000101) ''x.io'') \<and>
     \<not> storeAllows (ps_trustedProxy (pw_svc w)) (pw_store w) (V4 0x0A000101) ''x.io''"
proof -
  let ?w = "policyWorld1\<lparr>pw_store := newPolicyStore, pw_unsent := [[]], pw_created := True\<rparr>"
  let ?c = "CreatePolicy 9 ''guests'' ''10.0.1.0/24'' None lanStore"
  have c: "?c = (fst ?c, noticesOf ?c, newPolicyStore)" by (simp add: newPolicyStore_def noticesOf_def storeAfter_def)
  from CreatePolicy_reads(4)[OF c] have "?c = (fst ?c, [], newPolicyStore)" using c by simp
  then have "policyStep policyWorld1 ?w" using policyStep.create[of policyWorld1 9 "''guests''" "''10.0.1.0/24''" None "fst ?c" "[]" newPolicyStore]
    by (simp add: policyWorld1_def)
  moreover have "\<not> pendingTrigger ?w" by (simp add: pendingTrigger_def policyWorld1_def startService_def swapCaches_def sampleService_def)
  moreover have "rangesDistinct newPolicyStore" "dr_Allowed (Decide startService (V4 0x0A000101) ''x.io'')"
    "\<not> storeAllows (ps_trustedProxy startService) newPolicyStore (V4 0x0A000101) ''x.io''" by code_simp+
  ultimately show ?thesis by (intro exI[of _ ?w]) (auto simp: policyWorld1_def)
qed

text \<open>The deletion of a user signals the cache before it commits: a refresh that runs in between takes the signal and
  still reads the addresses of the user, and nothing is pending afterwards.\<close>

definition deletedStore :: store where
  "deletedStore = storeAfter (DeleteUser 9 (superPrincipal\<lparr>p_UserID := 7\<rparr>) 1 lanStore)"

theorem deleted_user_still_decides:
  "\<exists>w. policyStep\<^sup>*\<^sup>* policyWorld1 w \<and> \<not> pendingTrigger w \<and> pw_refresh w = None \<and> \<not> pw_failed w \<and> \<not> pw_created w \<and> rangesDistinct (pw_store w) \<and>
     \<not> dr_Allowed (Decide (pw_svc w) (V4 0x0A000009) ''x.io'') \<and>
     storeAllows (ps_trustedProxy (pw_svc w)) (pw_store w) (V4 0x0A000009) ''x.io''"
proof -
  let ?c = "DeleteUser 9 (superPrincipal\<lparr>p_UserID := 7\<rparr>) 1 lanStore"
  let ?a = "policyWorld1\<lparr>pw_svc := triggerRefresh startService, pw_deleting := Some deletedStore\<rparr>"
  let ?b = "?a\<lparr>pw_svc := (pw_svc ?a)\<lparr>ps_refreshSignal := False\<rparr>, pw_refresh := Some (NeedIPs 0)\<rparr>"
  let ?r = "refreshed 0 0 ?b"
  let ?w = "?r\<lparr>pw_store := deletedStore, pw_deleting := None, pw_deleted := True\<rparr>"
  have c: "?c = (fst ?c, noticesOf ?c, deletedStore)" by (simp add: deletedStore_def noticesOf_def storeAfter_def)
  have "\<exists>n \<in> set (noticesOf ?c). policyTriggers n" by code_simp
  then have "policyStep policyWorld1 ?a" using policyStep.deletion[of policyWorld1 9 "superPrincipal\<lparr>p_UserID := 7\<rparr>" 1 "fst ?c" "noticesOf ?c" deletedStore] c
    by (simp add: policyWorld1_def policy_observes)
  moreover have "policyStep ?a ?b" by (rule policyStep.signal) (simp_all add: policyWorld1_def triggerRefresh_def)
  moreover have "policyStep\<^sup>*\<^sup>* ?b ?r" by (rule refresh_run) simp
  moreover have "policyStep ?r ?w" by (rule policyStep.commit) (simp add: refreshed_def)
  ultimately have run: "policyStep\<^sup>*\<^sup>* policyWorld1 ?w"
    by (meson converse_rtranclp_into_rtranclp rtranclp.rtrancl_into_rtrancl)
  have svc: "pw_svc ?w = startService" by (simp add: refreshed_def policyWorld1_def startService_def swapCaches_def triggerRefresh_def sampleService_def)
  have "rangesDistinct deletedStore" "storeAllows (ps_trustedProxy startService) deletedStore (V4 0x0A000009) ''x.io''" by code_simp+
  moreover have "\<not> pendingTrigger ?w" unfolding pendingTrigger_def svc
    by (simp add: refreshed_def policyWorld1_def startService_def swapCaches_def sampleService_def)
  ultimately show ?thesis using run svc offStore_ok(3) by (intro exI[of _ ?w]) (simp add: refreshed_def policyWorld1_def)
qed

end
