(* ===== verification/Rules.thy ===== *)
theory Rules
  imports Devices
begin

text \<open>
  The rules of a device (\<open>src/internal/rule\<close>): automatic expiry of its addresses and a limit on how
  many of them are enabled at a time.

  A rule's configuration is stored as a JSON document with one integer member. \<open>encoding/json\<close> is the
  interface \<open>json_codec\<close>: what \<open>Marshal\<close> writes for such a struct is not empty and \<open>Unmarshal\<close> reads the
  number back. The operations take the codec as an argument. \<open>goCodec\<close> writes the documents that
  \<open>Marshal\<close> writes and reads exactly these; it interprets the interface.
\<close>

section \<open>The JSON documents\<close>

record jsonCodec =
  jc_marshal :: "string \<Rightarrow> int \<Rightarrow> string"
  jc_unmarshal :: "string \<Rightarrow> string \<Rightarrow> int option"

locale json_codec =
  fixes codec :: jsonCodec
  assumes marshal_nonempty: "jc_marshal codec field n \<noteq> []"
    and unmarshal_marshal: "jc_unmarshal codec field (jc_marshal codec field n) = Some n"
begin

lemma marshal_inject: "jc_marshal codec field n = jc_marshal codec field m \<longleftrightarrow> n = m"
  using unmarshal_marshal by (metis option.inject)

end

fun showNat :: "nat \<Rightarrow> string" where
  "showNat n = (if n < 10 then [decChar n] else showNat (n div 10) @ [decChar (n mod 10)])"

declare showNat.simps [simp del]

definition showInt :: "int \<Rightarrow> string" where
  "showInt n = (if n < 0 then CHR ''-'' # showNat (nat (- n)) else showNat (nat n))"

definition readInt :: "string \<Rightarrow> int option" where
  "readInt s = (if s \<noteq> [] \<and> hd s = CHR ''-'' then map_option (\<lambda>n. - int n) (atoiDigits (tl s)) else map_option int (atoiDigits s))"

definition goCodec :: jsonCodec where
  "goCodec = \<lparr>jc_marshal = (\<lambda>field n. ''{'' @ [CHR 0x22] @ field @ [CHR 0x22] @ '':'' @ showInt n @ ''}''),
     jc_unmarshal = (\<lambda>field s. let open = ''{'' @ [CHR 0x22] @ field @ [CHR 0x22] @ '':'' in
       if take (length open) s = open \<and> s \<noteq> open \<and> last s = CHR ''}'' then readInt (butlast (drop (length open) s)) else None)\<rparr>"

lemma showNat_ne [simp]: "showNat n \<noteq> []"
  by (subst showNat.simps) simp

lemma showNat_digits: "list_all isDigit (showNat n)"
  by (induction n rule: showNat.induct) (subst showNat.simps, auto)

lemma showNat_read: "foldl (\<lambda>n c. n * 10 + digitVal c) 0 (showNat n) = n"
  by (induction n rule: showNat.induct) (subst showNat.simps, auto)

lemma atoiDigits_showNat [simp]: "atoiDigits (showNat n) = Some n"
  using showNat_digits showNat_read by (simp add: atoiDigits_def)

lemma showNat_no_minus: "hd (showNat n) \<noteq> CHR ''-''"
proof -
  have "isDigit (hd (showNat n))" using showNat_digits[of n] by (simp add: list_all_iff)
  then show ?thesis by (auto simp: isDigit_def byte_def)
qed

lemma readInt_showInt: "readInt (showInt n) = Some n"
  using showNat_no_minus[of "nat n"] by (simp add: showInt_def readInt_def)

interpretation goJson: json_codec goCodec
proof
  fix field n
  show "jc_marshal goCodec field n \<noteq> []" by (simp add: goCodec_def)
  show "jc_unmarshal goCodec field (jc_marshal goCodec field n) = Some n"
    by (simp add: goCodec_def Let_def readInt_showInt butlast_append)
qed

section \<open>Values\<close>

definition ttlField :: string where "ttlField = ''ttl_seconds''"
definition maxField :: string where "maxField = ''max_addresses''"

record DeviceAddressLeaseRule =
  dl_ID :: id
  dl_DeviceID :: id
  dl_Enabled :: bool
  dl_TTLSeconds :: int
  dl_CreatedAt :: time
  dl_UpdatedAt :: time

record MaxActiveAddressesRule =
  ma_ID :: id
  ma_DeviceID :: id
  ma_Enabled :: bool
  ma_MaxAddresses :: int
  ma_CreatedAt :: time
  ma_UpdatedAt :: time
  ma_ActiveAddressCount :: nat

definition parseDeviceAddressLeaseConfig :: "jsonCodec \<Rightarrow> string \<Rightarrow> (err, int) result" where
  "parseDeviceAddressLeaseConfig codec raw =
    (if raw = [] then Inl (RuleErr ErrInvalidRuleConfig)
     else case jc_unmarshal codec ttlField raw of None \<Rightarrow> Inl (RuleErr ErrInvalidRuleConfig)
     | Some ttl \<Rightarrow> if ttl < 0 then Inl (RuleErr ErrInvalidRuleConfig) else Inr ttl)"

definition NewDeviceAddressLeaseConfig :: "int \<Rightarrow> (err, int) result" where
  "NewDeviceAddressLeaseConfig addressTTLSeconds =
    (if addressTTLSeconds < 0 then Inl (RuleErr ErrInvalidRuleConfig) else Inr addressTTLSeconds)"

definition ToDeviceAddressLeaseRule :: "jsonCodec \<Rightarrow> Rule \<Rightarrow> (err, DeviceAddressLeaseRule) result" where
  "ToDeviceAddressLeaseRule codec r =
    (if r_RuleType r \<noteq> RuleTypeDeviceAddressLease then Inl (RuleErr ErrInvalidRuleConfig)
     else case parseDeviceAddressLeaseConfig codec (r_Config r) of Inl e \<Rightarrow> Inl e
     | Inr config \<Rightarrow> Inr \<lparr>dl_ID = r_ID r, dl_DeviceID = r_DeviceID r, dl_Enabled = r_Enabled r, dl_TTLSeconds = config,
         dl_CreatedAt = r_CreatedAt r, dl_UpdatedAt = r_UpdatedAt r\<rparr>)"

definition NewMaxActiveAddressesConfig :: "int \<Rightarrow> (err, int) result" where
  "NewMaxActiveAddressesConfig maxAddresses =
    (if maxAddresses < 1 then Inl (RuleErr ErrInvalidMaxAddresses) else Inr maxAddresses)"

definition parseMaxActiveAddressesConfig :: "jsonCodec \<Rightarrow> string \<Rightarrow> (err, int) result" where
  "parseMaxActiveAddressesConfig codec raw =
    (if raw = [] then Inl (RuleErr ErrInvalidRuleConfig)
     else case jc_unmarshal codec maxField raw of None \<Rightarrow> Inl (RuleErr ErrInvalidRuleConfig)
     | Some n \<Rightarrow> if n < 1 then Inl (RuleErr ErrInvalidRuleConfig) else Inr n)"

definition ToMaxActiveAddressesRule :: "jsonCodec \<Rightarrow> Rule \<Rightarrow> (err, MaxActiveAddressesRule) result" where
  "ToMaxActiveAddressesRule codec r =
    (if r_RuleType r \<noteq> RuleTypeMaxActiveAddresses then Inl (RuleErr ErrInvalidRuleConfig)
     else case parseMaxActiveAddressesConfig codec (r_Config r) of Inl e \<Rightarrow> Inl e
     | Inr config \<Rightarrow> Inr \<lparr>ma_ID = r_ID r, ma_DeviceID = r_DeviceID r, ma_Enabled = r_Enabled r, ma_MaxAddresses = config,
         ma_CreatedAt = r_CreatedAt r, ma_UpdatedAt = r_UpdatedAt r, ma_ActiveAddressCount = 0\<rparr>)"

section \<open>Queries\<close>

definition ruleOf :: "store \<Rightarrow> id \<Rightarrow> RuleType \<Rightarrow> Rule option" where
  "ruleOf s d t = List.find (\<lambda>r. r_DeviceID r = d \<and> r_RuleType r = t) (st_rules s)"

definition GetRuleByDeviceAndType :: "id \<Rightarrow> RuleType \<Rightarrow> Rule op" where
  "GetRuleByDeviceAndType deviceID ruleType s = (case ruleOf s deviceID ruleType of
     None \<Rightarrow> throw (RuleErr ErrRuleNotFound) s | Some r \<Rightarrow> ret r s)"

definition updateRule :: "id \<Rightarrow> RuleType \<Rightarrow> (Rule \<Rightarrow> Rule) \<Rightarrow> store \<Rightarrow> store" where
  "updateRule d t f s = s\<lparr>st_rules := map (\<lambda>r. if r_DeviceID r = d \<and> r_RuleType r = t then f r else r) (st_rules s)\<rparr>"

definition DisableRule :: "time \<Rightarrow> id \<Rightarrow> RuleType \<Rightarrow> Rule op" where
  "DisableRule now deviceID ruleType s =
    GetRuleByDeviceAndType deviceID ruleType (updateRule deviceID ruleType (\<lambda>r. r\<lparr>r_Enabled := False, r_UpdatedAt := now\<rparr>) s)"

text \<open>The upsert that both \<open>Enable...Config\<close> queries share.\<close>

definition upsertRule :: "time \<Rightarrow> id \<Rightarrow> RuleType \<Rightarrow> string \<Rightarrow> Rule op" where
  "upsertRule now deviceID ruleType config s =
    (case ruleOf s deviceID ruleType of
       Some _ \<Rightarrow> GetRuleByDeviceAndType deviceID ruleType
         (updateRule deviceID ruleType (\<lambda>r. r\<lparr>r_Enabled := True, r_Config := config, r_UpdatedAt := now\<rparr>) s)
     | None \<Rightarrow>
        if deviceID \<notin> d_ID ` set (st_devices s) then throw (DeviceErr ErrDeviceNotFound) s
        else let row = \<lparr>r_ID = nextID (map r_ID (st_rules s)), r_DeviceID = deviceID, r_RuleType = ruleType,
                r_Enabled = True, r_Config = config, r_CreatedAt = now, r_UpdatedAt = now\<rparr>
             in ret row (s\<lparr>st_rules := st_rules s @ [row]\<rparr>))"

definition EnableDeviceAddressLeaseRuleConfig :: "jsonCodec \<Rightarrow> time \<Rightarrow> id \<Rightarrow> int \<Rightarrow> Rule op" where
  "EnableDeviceAddressLeaseRuleConfig codec now deviceID config =
    upsertRule now deviceID RuleTypeDeviceAddressLease (jc_marshal codec ttlField config)"

definition EnableMaxActiveAddressesRuleConfig :: "jsonCodec \<Rightarrow> time \<Rightarrow> id \<Rightarrow> int \<Rightarrow> Rule op" where
  "EnableMaxActiveAddressesRuleConfig codec now deviceID config =
    upsertRule now deviceID RuleTypeMaxActiveAddresses (jc_marshal codec maxField config)"

definition CountEnabledAddresses :: "id \<Rightarrow> nat op" where
  "CountEnabledAddresses deviceID =
    get (\<lambda>s. length (filter (\<lambda>a. a_DeviceID a = deviceID \<and> a_IsEnabled a) (st_addresses s)))"

section \<open>The service\<close>

definition GetDeviceAddressLeaseTTLSeconds :: "jsonCodec \<Rightarrow> id \<Rightarrow> int option op" where
  "GetDeviceAddressLeaseTTLSeconds codec deviceID s =
    (case GetRuleByDeviceAndType deviceID RuleTypeDeviceAddressLease s of
       (Inl e, s') \<Rightarrow> if e = RuleErr ErrRuleNotFound then ret None s' else throw e s'
     | (Inr rule, s') \<Rightarrow>
         if \<not> r_Enabled rule then ret None s'
         else case ToDeviceAddressLeaseRule codec rule of
           Inl _ \<Rightarrow> throw (RuleErr ErrInvalidRuleConfig) s' | Inr r \<Rightarrow> ret (Some (dl_TTLSeconds r)) s')"

definition GetDeviceAddressLeaseRule :: "jsonCodec \<Rightarrow> id \<Rightarrow> DeviceAddressLeaseRule op" where
  "GetDeviceAddressLeaseRule codec deviceID s =
    (case GetRuleByDeviceAndType deviceID RuleTypeDeviceAddressLease s of
       (Inl e, s') \<Rightarrow> if e = RuleErr ErrRuleNotFound
         then ret \<lparr>dl_ID = 0, dl_DeviceID = deviceID, dl_Enabled = False, dl_TTLSeconds = 0, dl_CreatedAt = 0, dl_UpdatedAt = 0\<rparr> s'
         else throw e s'
     | (Inr rule, s') \<Rightarrow> liftE (\<lambda>e. e) (ToDeviceAddressLeaseRule codec rule) s')"

definition EnableDeviceAddressLeaseRule :: "jsonCodec \<Rightarrow> time \<Rightarrow> id \<Rightarrow> int \<Rightarrow> DeviceAddressLeaseRule svc" where
  "EnableDeviceAddressLeaseRule codec now deviceID ttlSeconds s =
    (case NewDeviceAddressLeaseConfig ttlSeconds of Inl e \<Rightarrow> (Inl e, [], s)
     | Inr config \<Rightarrow> (case EnableDeviceAddressLeaseRuleConfig codec now deviceID config s of
         (Inl e, s') \<Rightarrow> (Inl e, [], s')
       | (Inr newRule, s') \<Rightarrow> (ToDeviceAddressLeaseRule codec newRule,
           [RuleNotice \<lparr>rev_Type = RuleEventTypeEnabled, rev_DeviceID = deviceID, rev_RuleType = RuleTypeDeviceAddressLease,
              rev_TTLSeconds = Some config, rev_OccurredAt = now\<rparr>], s')))"

definition DisableDeviceAddressLeaseRule :: "jsonCodec \<Rightarrow> time \<Rightarrow> id \<Rightarrow> DeviceAddressLeaseRule svc" where
  "DisableDeviceAddressLeaseRule codec now deviceID s =
    (case DisableRule now deviceID RuleTypeDeviceAddressLease s of (Inl e, s') \<Rightarrow> (Inl e, [], s')
     | (Inr rule, s') \<Rightarrow> (ToDeviceAddressLeaseRule codec rule,
         [RuleNotice \<lparr>rev_Type = RuleEventTypeDisabled, rev_DeviceID = deviceID, rev_RuleType = RuleTypeDeviceAddressLease,
            rev_TTLSeconds = None, rev_OccurredAt = now\<rparr>], s'))"

definition withCount :: "id \<Rightarrow> (err, MaxActiveAddressesRule) result \<Rightarrow> MaxActiveAddressesRule op" where
  "withCount deviceID r = andThen (liftE (\<lambda>e. e) r) (\<lambda>rule.
     andThen (CountEnabledAddresses deviceID) (\<lambda>count. ret (rule\<lparr>ma_ActiveAddressCount := count\<rparr>)))"

definition GetMaxActiveAddressesRule :: "jsonCodec \<Rightarrow> id \<Rightarrow> MaxActiveAddressesRule op" where
  "GetMaxActiveAddressesRule codec deviceID s =
    (case GetRuleByDeviceAndType deviceID RuleTypeMaxActiveAddresses s of
       (Inl e, s') \<Rightarrow> if e \<noteq> RuleErr ErrRuleNotFound then throw e s'
         else withCount deviceID (Inr \<lparr>ma_ID = 0, ma_DeviceID = deviceID, ma_Enabled = False, ma_MaxAddresses = 0,
           ma_CreatedAt = 0, ma_UpdatedAt = 0, ma_ActiveAddressCount = 0\<rparr>) s'
     | (Inr rule, s') \<Rightarrow> withCount deviceID (ToMaxActiveAddressesRule codec rule) s')"

definition GetMaxActiveAddresses :: "jsonCodec \<Rightarrow> id \<Rightarrow> int option op" where
  "GetMaxActiveAddresses codec deviceID s =
    (case GetRuleByDeviceAndType deviceID RuleTypeMaxActiveAddresses s of
       (Inl e, s') \<Rightarrow> if e = RuleErr ErrRuleNotFound then ret None s' else throw e s'
     | (Inr rule, s') \<Rightarrow>
         if \<not> r_Enabled rule then ret None s'
         else case ToMaxActiveAddressesRule codec rule of
           Inl _ \<Rightarrow> throw (RuleErr ErrInvalidRuleConfig) s' | Inr r \<Rightarrow> ret (Some (ma_MaxAddresses r)) s')"

definition EnableMaxActiveAddressesRule :: "jsonCodec \<Rightarrow> time \<Rightarrow> id \<Rightarrow> int \<Rightarrow> MaxActiveAddressesRule svc" where
  "EnableMaxActiveAddressesRule codec now deviceID maxAddresses s =
    (case NewMaxActiveAddressesConfig maxAddresses of Inl e \<Rightarrow> (Inl e, [], s)
     | Inr config \<Rightarrow> (case EnableMaxActiveAddressesRuleConfig codec now deviceID config s of
         (Inl e, s') \<Rightarrow> (Inl e, [], s')
       | (Inr newRule, s') \<Rightarrow> (fst (withCount deviceID (ToMaxActiveAddressesRule codec newRule) s'),
           [RuleNotice \<lparr>rev_Type = RuleEventTypeEnabled, rev_DeviceID = deviceID, rev_RuleType = RuleTypeMaxActiveAddresses,
              rev_TTLSeconds = None, rev_OccurredAt = now\<rparr>], s')))"

definition DisableMaxActiveAddressesRule :: "jsonCodec \<Rightarrow> time \<Rightarrow> id \<Rightarrow> MaxActiveAddressesRule op" where
  "DisableMaxActiveAddressesRule codec now deviceID =
    andThen (DisableRule now deviceID RuleTypeMaxActiveAddresses) (\<lambda>rule. liftE (\<lambda>e. e) (ToMaxActiveAddressesRule codec rule))"

section \<open>Reading back a rule\<close>

lemma ruleOf_updateRule:
  assumes "\<And>r. r_DeviceID (f r) = r_DeviceID r \<and> r_RuleType (f r) = r_RuleType r"
  shows "ruleOf (updateRule d t f s) d' t' = map_option (\<lambda>r. if (d', t') = (d, t) then f r else r) (ruleOf s d' t')"
proof -
  have "List.find (\<lambda>r. r_DeviceID r = d' \<and> r_RuleType r = t') (map (\<lambda>r. if r_DeviceID r = d \<and> r_RuleType r = t then f r else r) rs) =
    map_option (\<lambda>r. if (d', t') = (d, t) then f r else r) (List.find (\<lambda>r. r_DeviceID r = d' \<and> r_RuleType r = t') rs)" for rs
    using assms by (induction rs) auto
  then show ?thesis by (simp add: ruleOf_def updateRule_def)
qed

lemma ruleOf_found: "ruleOf s d t = Some r \<Longrightarrow> r_DeviceID r = d \<and> r_RuleType r = t"
  unfolding ruleOf_def by (drule find_SomeD(2)) simp

text \<open>A successful upsert: the rule of the device and type is the returned row, enabled with the new
  configuration; every other rule is as before.\<close>

lemma upsertRule_Inr:
  assumes "upsertRule now d t config s = (Inr r, s')"
  shows "ruleOf s' d t = Some r" "r_RuleType r = t" "r_Enabled r" "r_Config r = config"
    and "(d', t') \<noteq> (d, t) \<Longrightarrow> ruleOf s' d' t' = ruleOf s d' t'"
    and "st_addresses s' = st_addresses s" "st_devices s' = st_devices s"
proof -
  let ?f = "\<lambda>r. r\<lparr>r_Enabled := True, r_Config := config, r_UpdatedAt := now\<rparr>"
  have "ruleOf s' d t = Some r \<and> r_RuleType r = t \<and> r_Enabled r \<and> r_Config r = config \<and>
      ((d', t') \<noteq> (d, t) \<longrightarrow> ruleOf s' d' t' = ruleOf s d' t') \<and> st_addresses s' = st_addresses s \<and> st_devices s' = st_devices s"
  proof (cases "ruleOf s d t")
    case None
    let ?row = "\<lparr>r_ID = nextID (map r_ID (st_rules s)), r_DeviceID = d, r_RuleType = t, r_Enabled = True, r_Config = config,
      r_CreatedAt = now, r_UpdatedAt = now\<rparr>"
    have r: "r = ?row" "s' = s\<lparr>st_rules := st_rules s @ [?row]\<rparr>"
      using assms None by (auto simp: upsertRule_def Let_def split: if_splits)
    show ?thesis using None unfolding r by (auto simp: ruleOf_def find_append split: option.splits)
  next
    case (Some q)
    have eq: "ruleOf (updateRule d t ?f s) d'' t'' = map_option (\<lambda>r. if (d'', t'') = (d, t) then ?f r else r) (ruleOf s d'' t'')" for d'' t''
      by (rule ruleOf_updateRule) simp
    have r: "r = ?f q" "s' = updateRule d t ?f s"
      using assms Some eq[of d t] by (auto simp: upsertRule_def GetRuleByDeviceAndType_def)
    show ?thesis using Some ruleOf_found[OF Some] eq unfolding r by (auto simp: updateRule_def option.map_ident)
  qed
  then show "ruleOf s' d t = Some r" "r_RuleType r = t" "r_Enabled r" "r_Config r = config"
    "(d', t') \<noteq> (d, t) \<Longrightarrow> ruleOf s' d' t' = ruleOf s d' t'" "st_addresses s' = st_addresses s" "st_devices s' = st_devices s" by blast+
qed

lemma upsertRule_ok: "d \<in> d_ID ` set (st_devices s) \<Longrightarrow> \<exists>r s'. upsertRule now d t config s = (Inr r, s')"
proof (cases "ruleOf s d t")
  case (Some q)
  have "ruleOf (updateRule d t (\<lambda>r. r\<lparr>r_Enabled := True, r_Config := config, r_UpdatedAt := now\<rparr>) s) d t \<noteq> None"
    by (subst ruleOf_updateRule) (simp_all add: Some)
  then show ?thesis using Some by (auto simp: upsertRule_def GetRuleByDeviceAndType_def)
qed (simp add: upsertRule_def Let_def)

lemma DisableRule_effect:
  assumes "ruleOf s d t = Some r"
  shows "\<exists>s'. DisableRule now d t s = (Inr (r\<lparr>r_Enabled := False, r_UpdatedAt := now\<rparr>), s') \<and>
    ruleOf s' d t = Some (r\<lparr>r_Enabled := False, r_UpdatedAt := now\<rparr>)"
proof -
  let ?f = "\<lambda>r. r\<lparr>r_Enabled := False, r_UpdatedAt := now\<rparr>"
  have "ruleOf (updateRule d t ?f s) d t = Some (?f r)" by (subst ruleOf_updateRule) (simp_all add: assms)
  then show ?thesis by (simp add: DisableRule_def GetRuleByDeviceAndType_def)
qed

context json_codec
begin

lemma ToDeviceAddressLeaseRule_marshal:
  "r_RuleType r = RuleTypeDeviceAddressLease \<Longrightarrow> r_Config r = jc_marshal codec ttlField ttl \<Longrightarrow> 0 \<le> ttl \<Longrightarrow>
   \<exists>q. ToDeviceAddressLeaseRule codec r = Inr q \<and> dl_TTLSeconds q = ttl \<and> dl_Enabled q = r_Enabled r"
  by (simp add: ToDeviceAddressLeaseRule_def parseDeviceAddressLeaseConfig_def marshal_nonempty unmarshal_marshal)

lemma ToMaxActiveAddressesRule_marshal:
  "r_RuleType r = RuleTypeMaxActiveAddresses \<Longrightarrow> r_Config r = jc_marshal codec maxField n \<Longrightarrow> 1 \<le> n \<Longrightarrow>
   \<exists>q. ToMaxActiveAddressesRule codec r = Inr q \<and> ma_MaxAddresses q = n \<and> ma_Enabled q = r_Enabled r"
  by (simp add: ToMaxActiveAddressesRule_def parseMaxActiveAddressesConfig_def marshal_nonempty unmarshal_marshal)

lemma lease_readback:
  assumes "d \<in> d_ID ` set (st_devices s)" "0 \<le> ttl"
  shows "\<exists>r s'. EnableDeviceAddressLeaseRule codec now d ttl s =
      (Inr r, [RuleNotice \<lparr>rev_Type = RuleEventTypeEnabled, rev_DeviceID = d, rev_RuleType = RuleTypeDeviceAddressLease,
         rev_TTLSeconds = Some ttl, rev_OccurredAt = now\<rparr>], s') \<and> dl_TTLSeconds r = ttl \<and> dl_Enabled r \<and>
    fst (GetDeviceAddressLeaseTTLSeconds codec d s') = Inr (Some ttl) \<and>
    fst (GetDeviceAddressLeaseTTLSeconds codec d (storeAfter (DisableDeviceAddressLeaseRule codec now' d s'))) = Inr None"
proof -
  let ?t = RuleTypeDeviceAddressLease
  obtain r s' where up: "upsertRule now d ?t (jc_marshal codec ttlField ttl) s = (Inr r, s')" using upsertRule_ok[OF assms(1)] by blast
  note r = upsertRule_Inr(1-4)[OF up]
  obtain q where q: "ToDeviceAddressLeaseRule codec r = Inr q" "dl_TTLSeconds q = ttl" "dl_Enabled q = r_Enabled r"
    using ToDeviceAddressLeaseRule_marshal[OF r(2,4) assms(2)] by blast
  obtain s'' where dis: "DisableRule now' d ?t s' = (Inr (r\<lparr>r_Enabled := False, r_UpdatedAt := now'\<rparr>), s'')"
    "ruleOf s'' d ?t = Some (r\<lparr>r_Enabled := False, r_UpdatedAt := now'\<rparr>)" using DisableRule_effect[OF r(1)] by blast
  have ttl: "GetDeviceAddressLeaseTTLSeconds codec d s' = (Inr (Some ttl), s')"
    using r q by (simp add: GetDeviceAddressLeaseTTLSeconds_def GetRuleByDeviceAndType_def)
  have off: "GetDeviceAddressLeaseTTLSeconds codec d s'' = (Inr None, s'')"
    using dis(2) by (simp add: GetDeviceAddressLeaseTTLSeconds_def GetRuleByDeviceAndType_def)
  show ?thesis using up q r(3) assms(2) ttl off dis(1)
    by (simp add: EnableDeviceAddressLeaseRule_def NewDeviceAddressLeaseConfig_def EnableDeviceAddressLeaseRuleConfig_def
        DisableDeviceAddressLeaseRule_def storeAfter_def)
qed

lemma max_readback:
  assumes "d \<in> d_ID ` set (st_devices s)" "1 \<le> n"
  shows "\<exists>r s'. EnableMaxActiveAddressesRule codec now d n s =
      (Inr r, [RuleNotice \<lparr>rev_Type = RuleEventTypeEnabled, rev_DeviceID = d, rev_RuleType = RuleTypeMaxActiveAddresses,
         rev_TTLSeconds = None, rev_OccurredAt = now\<rparr>], s') \<and> ma_MaxAddresses r = n \<and> ma_Enabled r \<and>
    fst (GetMaxActiveAddresses codec d s') = Inr (Some n)"
proof -
  let ?t = RuleTypeMaxActiveAddresses
  obtain r s' where up: "upsertRule now d ?t (jc_marshal codec maxField n) s = (Inr r, s')" using upsertRule_ok[OF assms(1)] by blast
  note r = upsertRule_Inr(1-4)[OF up]
  obtain q where q: "ToMaxActiveAddressesRule codec r = Inr q" "ma_MaxAddresses q = n" "ma_Enabled q = r_Enabled r"
    using ToMaxActiveAddressesRule_marshal[OF r(2,4) assms(2)] by blast
  show ?thesis using up q r assms(2)
    by (simp add: EnableMaxActiveAddressesRule_def NewMaxActiveAddressesConfig_def EnableMaxActiveAddressesRuleConfig_def withCount_def
        andThen_def liftE_def CountEnabledAddresses_def GetMaxActiveAddresses_def GetRuleByDeviceAndType_def)
qed

end

text \<open>C22 (roundtrip). What is written as the rule of an existing device is what the listeners read:
  after enabling the expiry rule they get exactly the given lifetime, after disabling it none, and
  after enabling the limit exactly the given limit; each enabling is announced once, the lifetime with
  it. A negative lifetime and a limit below one are refused without effect. The lifetime is not 0,
  which \<open>NewDeviceAddressLeaseConfig\<close> accepts although the documentation asks for a positive one.\<close>

theorem rules_read_back:
  assumes "d \<in> d_ID ` set (st_devices s)" and "ttl \<noteq> 0"
  shows "(if ttl < 0 then \<exists>e. EnableDeviceAddressLeaseRule goCodec now d ttl s = (Inl e, [], s)
     else \<exists>r s'. EnableDeviceAddressLeaseRule goCodec now d ttl s =
         (Inr r, [RuleNotice \<lparr>rev_Type = RuleEventTypeEnabled, rev_DeviceID = d, rev_RuleType = RuleTypeDeviceAddressLease,
            rev_TTLSeconds = Some ttl, rev_OccurredAt = now\<rparr>], s') \<and> dl_TTLSeconds r = ttl \<and> dl_Enabled r \<and>
       fst (GetDeviceAddressLeaseTTLSeconds goCodec d s') = Inr (Some ttl) \<and>
       fst (GetDeviceAddressLeaseTTLSeconds goCodec d (storeAfter (DisableDeviceAddressLeaseRule goCodec now' d s'))) = Inr None) \<and>
    (if n < 1 then EnableMaxActiveAddressesRule goCodec now d n s = (Inl (RuleErr ErrInvalidMaxAddresses), [], s)
     else \<exists>r s'. EnableMaxActiveAddressesRule goCodec now d n s =
         (Inr r, [RuleNotice \<lparr>rev_Type = RuleEventTypeEnabled, rev_DeviceID = d, rev_RuleType = RuleTypeMaxActiveAddresses,
            rev_TTLSeconds = None, rev_OccurredAt = now\<rparr>], s') \<and> ma_MaxAddresses r = n \<and> ma_Enabled r \<and>
       fst (GetMaxActiveAddresses goCodec d s') = Inr (Some n))"
  using goJson.lease_readback[OF assms(1), of ttl now now'] goJson.max_readback[OF assms(1), of n now]
  by (simp add: EnableDeviceAddressLeaseRule_def NewDeviceAddressLeaseConfig_def EnableMaxActiveAddressesRule_def
      NewMaxActiveAddressesConfig_def)

definition ruleStore :: store where
  "ruleStore = emptyStore\<lparr>st_devices := [\<lparr>d_ID = 1, d_Name = ''phone'', d_Description = None, d_Icon = None, d_CreatedAt = 0,
     d_UpdatedAt = 0, d_DeletedAt = None, d_DisabledAt = None, d_OwnerID = 1\<rparr>]\<rparr>"

theorem rules_read_back_witness:
  "(\<exists>r s'. EnableDeviceAddressLeaseRule goCodec 5 1 3600 ruleStore =
      (Inr r, [RuleNotice \<lparr>rev_Type = RuleEventTypeEnabled, rev_DeviceID = 1, rev_RuleType = RuleTypeDeviceAddressLease,
         rev_TTLSeconds = Some 3600, rev_OccurredAt = 5\<rparr>], s') \<and> dl_TTLSeconds r = 3600 \<and>
      fst (GetDeviceAddressLeaseTTLSeconds goCodec 1 s') = Inr (Some 3600)) \<and>
   (\<exists>e. EnableDeviceAddressLeaseRule goCodec 5 1 (-1) ruleStore = (Inl e, [], ruleStore))"
proof -
  have d: "1 \<in> d_ID ` set (st_devices ruleStore)" by (simp add: ruleStore_def)
  show ?thesis
    using rules_read_back[OF d, where ttl = 3600 and n = 1 and now = 5 and now' = 6]
      rules_read_back[OF d, where ttl = "-1" and n = 1 and now = 5 and now' = 6] by auto
qed

end
