(* ===== verification/Leases.thy ===== *)
theory Leases
  imports Rules Device_Notices
begin

text \<open>
  Leases of addresses (\<open>src/internal/lease\<close>): one row per enabled address, with the time at which
  the address expires when its device has the expiry rule. The listener keeps the table in step with
  the addresses from the events it is sent; the expiry job disables what is due.

  The listener runs beside the calls that change addresses and rules. The states of \<open>leaseWorld\<close> hold
  the store, the notifications of calls that have committed and not yet told their observers, the two
  channels of the listener, and the event it is working on with the lifetime it has read for it. A step
  is a call, the delivery of the notifications of one call, or a move of the listener, which may fail and
  then loses the event it worked on. Leases are written in their own statement, so a rule may change
  between the read of its lifetime and the write.
\<close>

section \<open>Leases\<close>

definition expiresAtFromTTL :: "time \<Rightarrow> int option \<Rightarrow> time option" where
  "expiresAtFromTTL now addressTTL = map_option (\<lambda>ttl. now + wrap64 (ttl * 1000000000)) addressTTL"

definition NewAddressLease :: "time \<Rightarrow> id \<Rightarrow> id \<Rightarrow> int option \<Rightarrow> AddressLease" where
  "NewAddressLease now addressID deviceID addressTTL = \<lparr>l_ID = 0, l_DeviceID = deviceID, l_AddressID = addressID,
     l_ExpiresAt = expiresAtFromTTL now addressTTL, l_UpdatedAt = now, l_CreatedAt = now\<rparr>"

definition UpsertAddressLease :: "AddressLease \<Rightarrow> AddressLease op" where
  "UpsertAddressLease lease s =
    (if l_DeviceID lease \<notin> d_ID ` set (st_devices s) \<or> l_AddressID lease \<notin> a_ID ` set (st_addresses s) then throw DBError s
     else case List.find (\<lambda>l. l_AddressID l = l_AddressID lease) (st_leases s) of
       Some old \<Rightarrow> (let f = (\<lambda>l. l\<lparr>l_DeviceID := l_DeviceID lease, l_ExpiresAt := l_ExpiresAt lease, l_UpdatedAt := l_UpdatedAt lease\<rparr>)
         in ret (f old) (s\<lparr>st_leases := map (\<lambda>l. if l_AddressID l = l_AddressID lease then f l else l) (st_leases s)\<rparr>))
     | None \<Rightarrow> (let row = lease\<lparr>l_ID := nextID (map l_ID (st_leases s))\<rparr> in ret row (s\<lparr>st_leases := st_leases s @ [row]\<rparr>)))"

definition DeleteAddressLease :: "id \<Rightarrow> unit op" where
  "DeleteAddressLease addressID = modify (\<lambda>s. s\<lparr>st_leases := filter (\<lambda>l. l_AddressID l \<noteq> addressID) (st_leases s)\<rparr>)"

definition GetExpiredAddressIDs :: "time \<Rightarrow> id list op" where
  "GetExpiredAddressIDs now = get (\<lambda>s. map l_AddressID
     (filter (\<lambda>l. case l_ExpiresAt l of None \<Rightarrow> False | Some t \<Rightarrow> t \<le> now) (st_leases s)))"

definition SetDeviceAddressLeasesExpiry :: "id \<Rightarrow> time option \<Rightarrow> time \<Rightarrow> unit op" where
  "SetDeviceAddressLeasesExpiry deviceID expiresAt updatedAt = modify (\<lambda>s. s\<lparr>st_leases :=
     map (\<lambda>l. if l_DeviceID l = deviceID then l\<lparr>l_ExpiresAt := expiresAt, l_UpdatedAt := updatedAt\<rparr> else l) (st_leases s)\<rparr>)"

section \<open>The service and the expiry job\<close>

definition AddAddressLease :: "jsonCodec \<Rightarrow> time \<Rightarrow> id \<Rightarrow> id \<Rightarrow> AddressLease op" where
  "AddAddressLease codec now deviceID addressID =
    andThen (GetDeviceAddressLeaseTTLSeconds codec deviceID) (\<lambda>addressTTL.
      UpsertAddressLease (NewAddressLease now addressID deviceID addressTTL))"

definition ClearAddressLease :: "id \<Rightarrow> id \<Rightarrow> unit op" where
  "ClearAddressLease deviceID addressID = DeleteAddressLease addressID"

definition handleLeaseRuleEvent :: "RuleEvent \<Rightarrow> unit op" where
  "handleLeaseRuleEvent event =
    (if rev_RuleType event \<noteq> RuleTypeDeviceAddressLease then ret ()
     else SetDeviceAddressLeasesExpiry (rev_DeviceID event)
       (expiresAtFromTTL (rev_OccurredAt event) (rev_TTLSeconds event)) (rev_OccurredAt event))"

definition ExpiryJob_Run :: "time \<Rightarrow> unit svc" where
  "ExpiryJob_Run now s = (case GetExpiredAddressIDs now s of (Inl e, s') \<Rightarrow> (Inl e, [], s')
     | (Inr ids, s') \<Rightarrow> if ids = [] then (Inr (), [], s')
        else case DisableAddresses now ids EventSourceExpiry EventTriggerSystem s' of
          (Inl e, ns, s'') \<Rightarrow> (Inl e, ns, s'') | (Inr _, ns, s'') \<Rightarrow> (Inr (), ns, s''))"

section \<open>The channels and the listener\<close>

definition lease_capacity :: nat where "lease_capacity = 500"

record leaseWorld =
  lw_store :: store
  lw_unsent :: "notice list list"
  lw_events :: "AddressEvent list"
  lw_ruleEvents :: "RuleEvent list"
  lw_busy :: "(AddressEvent \<times> int option) option"
  lw_dropped :: bool

definition lease_OnAddressEvent :: "AddressEvent \<Rightarrow> leaseWorld \<Rightarrow> leaseWorld" where
  "lease_OnAddressEvent event w = (if length (lw_events w) < lease_capacity then w\<lparr>lw_events := lw_events w @ [event]\<rparr>
     else w\<lparr>lw_dropped := True\<rparr>)"

definition lease_OnRuleEvent :: "RuleEvent \<Rightarrow> leaseWorld \<Rightarrow> leaseWorld" where
  "lease_OnRuleEvent event w = (if length (lw_ruleEvents w) < lease_capacity then w\<lparr>lw_ruleEvents := lw_ruleEvents w @ [event]\<rparr>
     else w\<lparr>lw_dropped := True\<rparr>)"

definition lease_observe :: "notice \<Rightarrow> leaseWorld \<Rightarrow> leaseWorld" where
  "lease_observe n w = (case n of AddressNotice e \<Rightarrow> lease_OnAddressEvent e w | RuleNotice e \<Rightarrow> lease_OnRuleEvent e w | _ \<Rightarrow> w)"

text \<open>The listener takes an event off its channel; one that says the address is enabled makes it read
  the lifetime first.\<close>

definition takeEvent :: "jsonCodec \<Rightarrow> leaseWorld \<Rightarrow> leaseWorld" where
  "takeEvent codec w = (case lw_events w of [] \<Rightarrow> w
     | event # es \<Rightarrow>
        if IsAddressEnabled event
        then case GetDeviceAddressLeaseTTLSeconds codec (ev_DeviceID event) (lw_store w) of
               (Inl _, s') \<Rightarrow> w\<lparr>lw_events := es, lw_store := s'\<rparr>
             | (Inr ttl, s') \<Rightarrow> w\<lparr>lw_events := es, lw_store := s', lw_busy := Some (event, ttl)\<rparr>
        else w\<lparr>lw_events := es, lw_store := snd (ClearAddressLease (ev_DeviceID event) (ev_AddressID event) (lw_store w))\<rparr>)"

definition writeLease :: "time \<Rightarrow> leaseWorld \<Rightarrow> leaseWorld" where
  "writeLease now w = (case lw_busy w of None \<Rightarrow> w
     | Some (event, ttl) \<Rightarrow> w\<lparr>lw_busy := None,
         lw_store := snd (UpsertAddressLease (NewAddressLease now (ev_AddressID event) (ev_DeviceID event) ttl) (lw_store w))\<rparr>)"

definition takeRuleEvent :: "leaseWorld \<Rightarrow> leaseWorld" where
  "takeRuleEvent w = (case lw_ruleEvents w of [] \<Rightarrow> w
     | event # es \<Rightarrow> w\<lparr>lw_ruleEvents := es, lw_store := snd (handleLeaseRuleEvent event (lw_store w))\<rparr>)"

text \<open>The calls of the rule service that change rules.\<close>

inductive ruleCall :: "jsonCodec \<Rightarrow> store \<Rightarrow> notice list \<Rightarrow> store \<Rightarrow> bool" for codec where
  "EnableDeviceAddressLeaseRule codec now d ttl s = (r, ns, s') \<Longrightarrow> ruleCall codec s ns s'"
| "DisableDeviceAddressLeaseRule codec now d s = (r, ns, s') \<Longrightarrow> ruleCall codec s ns s'"
| "EnableMaxActiveAddressesRule codec now d n s = (r', ns, s') \<Longrightarrow> ruleCall codec s ns s'"
| "notifying (DisableMaxActiveAddressesRule codec now d) (\<lambda>_. []) s = (r', ns, s') \<Longrightarrow> ruleCall codec s ns s'"

text \<open>The moves of the listener whose statements succeed, and those where one fails: the error is logged and the event
  is lost, as one that finds a full channel is.\<close>

inductive leaseMove :: "jsonCodec \<Rightarrow> leaseWorld \<Rightarrow> leaseWorld \<Rightarrow> bool" for codec where
  take: "lw_busy w = None \<Longrightarrow> lw_events w \<noteq> [] \<Longrightarrow> leaseMove codec w (takeEvent codec w)"
| put: "lw_busy w \<noteq> None \<Longrightarrow> leaseMove codec w (writeLease now w)"
| takeRule: "lw_busy w = None \<Longrightarrow> lw_ruleEvents w \<noteq> [] \<Longrightarrow> leaseMove codec w (takeRuleEvent w)"

inductive leaseFailure :: "leaseWorld \<Rightarrow> leaseWorld \<Rightarrow> bool" where
  event: "lw_busy w = None \<Longrightarrow> lw_events w = e # es \<Longrightarrow> leaseFailure w (w\<lparr>lw_events := es, lw_dropped := True\<rparr>)"
| upsert: "lw_busy w \<noteq> None \<Longrightarrow> leaseFailure w (w\<lparr>lw_busy := None, lw_dropped := True\<rparr>)"
| ruleEvent: "lw_busy w = None \<Longrightarrow> lw_ruleEvents w = r # rs \<Longrightarrow> leaseFailure w (w\<lparr>lw_ruleEvents := rs, lw_dropped := True\<rparr>)"

text \<open>The expiry job writes with \<open>DisableAddresses\<close>, a call like any other. With \<open>fifo\<close>, calls reach their observers in the order in which they committed.\<close>

inductive leaseStep :: "bool \<Rightarrow> jsonCodec \<Rightarrow> leaseWorld \<Rightarrow> leaseWorld \<Rightarrow> bool" for fifo codec where
  call: "deviceCall (lw_store w) ns s' \<Longrightarrow> leaseStep fifo codec w (w\<lparr>lw_store := s', lw_unsent := lw_unsent w @ [ns]\<rparr>)"
| rule: "ruleCall codec (lw_store w) ns s' \<Longrightarrow> leaseStep fifo codec w (w\<lparr>lw_store := s', lw_unsent := lw_unsent w @ [ns]\<rparr>)"
| deliver: "k < length (lw_unsent w) \<Longrightarrow> fifo \<longrightarrow> k = 0 \<Longrightarrow>
    leaseStep fifo codec w (fold lease_observe (lw_unsent w ! k) (w\<lparr>lw_unsent := take k (lw_unsent w) @ drop (Suc k) (lw_unsent w)\<rparr>))"
| move: "leaseMove codec w w' \<Longrightarrow> leaseStep fifo codec w w'"
| failure: "leaseFailure w w' \<Longrightarrow> leaseStep fifo codec w w'"

inductive_cases leaseStepE: "leaseStep fifo codec w w'"
inductive_cases leaseMoveE: "leaseMove codec w w'"

section \<open>Overflow\<close>

text \<open>C23 (bounds). A lease ends exactly its lifetime after the time it is taken as long as the lifetime
  is at most 9223372036 seconds (292 years). One second more and the product with the nanoseconds of a
  second wraps around: the lease ends more than 292 years before it starts, so the address is disabled
  by the next run of the expiry job. Whatever the lifetime, the end stays within 292 years of the start.\<close>

theorem lease_end_bounds:
  "(0 \<le> ttl \<and> ttl \<le> 9223372036 \<longrightarrow> expiresAtFromTTL now (Some ttl) = Some (now + ttl * 1000000000)) \<and>
   expiresAtFromTTL now (Some 9223372037) = Some (now - 9223372036709551616) \<and>
   (\<exists>t. expiresAtFromTTL now (Some ttl) = Some t \<and> now - 2 ^ 63 \<le> t \<and> t < now + 2 ^ 63) \<and>
   expiresAtFromTTL now None = None"
proof (intro conjI impI)
  assume "0 \<le> ttl \<and> ttl \<le> 9223372036"
  then show "expiresAtFromTTL now (Some ttl) = Some (now + ttl * 1000000000)" by (simp add: expiresAtFromTTL_def wrap64_id)
next
  show "\<exists>t. expiresAtFromTTL now (Some ttl) = Some t \<and> now - 2 ^ 63 \<le> t \<and> t < now + 2 ^ 63"
    using wrap64_range[of "ttl * 1000000000"] by (simp add: expiresAtFromTTL_def)
qed (simp_all add: expiresAtFromTTL_def wrap64_def)

theorem lease_end_bounds_witness: "expiresAtFromTTL 5 (Some 3600) = Some 3600000000005"
  using lease_end_bounds[of 3600 5] by simp

section \<open>The table follows the addresses\<close>

definition hasLease :: "store \<Rightarrow> id \<Rightarrow> bool" where
  "hasLease s i \<longleftrightarrow> i \<in> l_AddressID ` set (st_leases s)"

definition pendingEvents :: "leaseWorld \<Rightarrow> AddressEvent list" where
  "pendingEvents w = (case lw_busy w of None \<Rightarrow> [] | Some (e, _) \<Rightarrow> [e]) @ lw_events w @ concat (map addressEvents (lw_unsent w))"

definition readable :: "jsonCodec \<Rightarrow> store \<Rightarrow> bool" where
  "readable codec s \<longleftrightarrow> (\<forall>d. \<exists>ttl. GetDeviceAddressLeaseTTLSeconds codec d s = (Inr ttl, s))"

definition rowsExist :: "store \<Rightarrow> AddressEvent \<Rightarrow> bool" where
  "rowsExist s e \<longleftrightarrow> (IsAddressEnabled e \<longrightarrow> ev_AddressID e \<in> a_ID ` set (st_addresses s) \<and> ev_DeviceID e \<in> d_ID ` set (st_devices s))"

definition leaseInv :: "jsonCodec \<Rightarrow> leaseWorld \<Rightarrow> bool" where
  "leaseInv codec w \<longleftrightarrow> deviceInv (lw_store w) \<and> readable codec (lw_store w) \<and> (\<forall>e \<in> set (pendingEvents w). rowsExist (lw_store w) e) \<and>
     (\<forall>e ttl. lw_busy w = Some (e, ttl) \<longrightarrow> IsAddressEnabled e) \<and>
     (\<not> lw_dropped w \<longrightarrow> stateAfter (hasLease (lw_store w)) (pendingEvents w) = enabledIn (lw_store w))"

lemma readable_same: "st_rules s' = st_rules s \<Longrightarrow> readable codec s' = readable codec s"
  by (simp add: readable_def GetDeviceAddressLeaseTTLSeconds_def GetRuleByDeviceAndType_def ruleOf_def split: option.splits sum.splits)

lemma leaseInv_call:
  assumes w: "leaseInv codec w" and call: "deviceCall (lw_store w) ns s'"
  shows "leaseInv codec (w\<lparr>lw_store := s', lw_unsent := lw_unsent w @ [ns]\<rparr>)"
proof -
  let ?w = "w\<lparr>lw_store := s', lw_unsent := lw_unsent w @ [ns]\<rparr>"
  have law: "lawful (lw_store w) ns s'" using deviceCall_lawful[OF call] w by (simp add: leaseInv_def)
  then have tab: "tables (lw_store w) s'" by (simp add: lawful_def)
  have pend: "pendingEvents ?w = pendingEvents w @ addressEvents ns" by (simp add: pendingEvents_def)
  have lease: "hasLease s' = hasLease (lw_store w)" using tab by (simp add: hasLease_def fun_eq_iff tables_def)
  show ?thesis unfolding leaseInv_def pend
  proof (intro conjI impI)
    show "deviceInv (lw_store ?w)" using law by (simp add: lawful_def)
    show "readable codec (lw_store ?w)" using w tab readable_same[of s' "lw_store w"] by (simp add: leaseInv_def tables_def)
    have "rowsExist s' e" if "rowsExist (lw_store w) e" for e using that tab tables_ids[OF tab] by (auto simp: rowsExist_def tables_def)
    moreover have "rowsExist s' e" if "e \<in> set (addressEvents ns)" for e
      unfolding rowsExist_def using lawful_rows[OF law that] by blast
    ultimately show "\<forall>e \<in> set (pendingEvents w @ addressEvents ns). rowsExist (lw_store ?w) e" using w by (auto simp: leaseInv_def)
    show "\<forall>e ttl. lw_busy ?w = Some (e, ttl) \<longrightarrow> IsAddressEnabled e" using w by (simp add: leaseInv_def)
    assume "\<not> lw_dropped ?w"
    then show "stateAfter (hasLease (lw_store ?w)) (pendingEvents w @ addressEvents ns) = enabledIn (lw_store ?w)"
      using w law by (simp add: leaseInv_def lease stateAfter_append lawful_def announced_def)
  qed
qed

text \<open>Rule calls touch the rules only, and leave them readable.\<close>

lemma readable_iff: "readable codec s \<longleftrightarrow>
    (\<forall>d r. ruleOf s d RuleTypeDeviceAddressLease = Some r \<longrightarrow> r_Enabled r \<longrightarrow> (\<exists>q. ToDeviceAddressLeaseRule codec r = Inr q))"
proof -
  have "(\<exists>ttl. GetDeviceAddressLeaseTTLSeconds codec d s = (Inr ttl, s)) \<longleftrightarrow>
      (\<forall>r. ruleOf s d RuleTypeDeviceAddressLease = Some r \<longrightarrow> r_Enabled r \<longrightarrow> (\<exists>q. ToDeviceAddressLeaseRule codec r = Inr q))" for d
    by (auto simp: GetDeviceAddressLeaseTTLSeconds_def GetRuleByDeviceAndType_def split: option.splits sum.splits)
  then show ?thesis by (simp add: readable_def)
qed

lemma upsertRule_Inl: "upsertRule now d t config s = (Inl e, s') \<Longrightarrow> s' = s"
proof (cases "ruleOf s d t")
  case (Some q)
  assume h: "upsertRule now d t config s = (Inl e, s')"
  have "ruleOf (updateRule d t (\<lambda>r. r\<lparr>r_Enabled := True, r_Config := config, r_UpdatedAt := now\<rparr>) s) d t \<noteq> None"
    by (subst ruleOf_updateRule) (simp_all add: Some)
  then show ?thesis using h Some by (auto simp: upsertRule_def GetRuleByDeviceAndType_def split: option.splits)
qed (auto simp: upsertRule_def Let_def split: if_splits)

definition onlyRules :: "store \<Rightarrow> store \<Rightarrow> bool" where
  "onlyRules s t \<longleftrightarrow> (\<exists>rs. t = s\<lparr>st_rules := rs\<rparr>)"

lemma onlyRules_upsert: "upsertRule now d t config s = (r, s') \<Longrightarrow> onlyRules s s'"
  by (auto simp: upsertRule_def GetRuleByDeviceAndType_def updateRule_def Let_def onlyRules_def split: option.splits if_splits)
    (metis store.surjective store.update_convs(7))+

lemma onlyRules_disable: "DisableRule now d t s = (r, s') \<Longrightarrow> onlyRules s s'"
  by (auto simp: DisableRule_def GetRuleByDeviceAndType_def updateRule_def onlyRules_def split: option.splits)

lemma onlyRules_frame:
  assumes "onlyRules s t"
  shows "deviceInv t = deviceInv s" "hasLease t = hasLease s" "enabledIn t = enabledIn s" "rowsExist t = rowsExist s"
  using assms by (auto simp: onlyRules_def deviceInv_def liveDevice_def presentDevice_def hasLease_def enabledIn_def rowsExist_def fun_eq_iff)

lemma readable_disable:
  assumes "readable codec s" "DisableRule now d t s = (r, s')"
  shows "readable codec s'"
proof -
  let ?f = "\<lambda>r. r\<lparr>r_Enabled := False, r_UpdatedAt := now\<rparr>"
  have s': "s' = updateRule d t ?f s" using assms(2) by (auto simp: DisableRule_def GetRuleByDeviceAndType_def split: option.splits)
  have "ruleOf s' d' t' = map_option (\<lambda>r. if (d', t') = (d, t) then ?f r else r) (ruleOf s d' t')" for d' t'
    unfolding s' by (rule ruleOf_updateRule) simp
  then show ?thesis using assms(1) by (auto simp: readable_iff split: if_splits)
qed

lemma readable_upsert:
  assumes "readable codec s" "upsertRule now d t config s = (r, s')"
    and ok: "\<And>q. t = RuleTypeDeviceAddressLease \<Longrightarrow> r_RuleType q = t \<Longrightarrow> r_Config q = config \<Longrightarrow> \<exists>z. ToDeviceAddressLeaseRule codec q = Inr z"
  shows "readable codec s'"
proof (cases r)
  case (Inl e)
  then show ?thesis using upsertRule_Inl assms(1,2) by blast
next
  case (Inr q)
  note up = upsertRule_Inr[OF assms(2)[unfolded Inr]]
  show ?thesis unfolding readable_iff
  proof (intro allI impI)
    fix d' r' assume r': "ruleOf s' d' RuleTypeDeviceAddressLease = Some r'" "r_Enabled r'"
    show "\<exists>z. ToDeviceAddressLeaseRule codec r' = Inr z"
    proof (cases "(d', RuleTypeDeviceAddressLease) = (d, t)")
      case True
      then show ?thesis using r' up(1,2,4) ok[of r'] by simp
    next
      case False
      then show ?thesis using r' up(5)[OF False] assms(1) by (simp add: readable_iff)
    qed
  qed
qed

context json_codec
begin

lemma ruleCall_effect:
  assumes "ruleCall codec s ns s'" "readable codec s"
  shows "onlyRules s s' \<and> readable codec s' \<and> addressEvents ns = []"
  using assms(1)
proof cases
  case (1 now d ttl r)
  show ?thesis
  proof (cases "ttl < 0")
    case True
    then have "ns = []" "s' = s" using 1 by (auto simp: EnableDeviceAddressLeaseRule_def NewDeviceAddressLeaseConfig_def)
    then show ?thesis using assms(2) by (auto simp: onlyRules_def intro: exI[of _ "st_rules s"])
  next
    case False
    then obtain q where q: "upsertRule now d RuleTypeDeviceAddressLease (jc_marshal codec ttlField ttl) s = (q, s')" "addressEvents ns = []"
      using 1 by (auto simp: EnableDeviceAddressLeaseRule_def NewDeviceAddressLeaseConfig_def EnableDeviceAddressLeaseRuleConfig_def
          addressEvents_def List.map_filter_simps split: prod.splits sum.splits)
    moreover have "readable codec s'"
      by (rule readable_upsert[OF assms(2) q(1)]) (use False ToDeviceAddressLeaseRule_marshal in force)
    ultimately show ?thesis using onlyRules_upsert by blast
  qed
next
  case (2 now d r)
  then obtain q where q: "DisableRule now d RuleTypeDeviceAddressLease s = (q, s')" "addressEvents ns = []"
    by (auto simp: DisableDeviceAddressLeaseRule_def addressEvents_def List.map_filter_simps split: prod.splits sum.splits)
  then show ?thesis using readable_disable[OF assms(2) q(1)] onlyRules_disable[OF q(1)] by simp
next
  case (3 now d n r)
  show ?thesis
  proof (cases "n < 1")
    case True
    then have "ns = []" "s' = s" using 3 by (auto simp: EnableMaxActiveAddressesRule_def NewMaxActiveAddressesConfig_def)
    then show ?thesis using assms(2) by (auto simp: onlyRules_def intro: exI[of _ "st_rules s"])
  next
    case False
    then obtain q where q: "upsertRule now d RuleTypeMaxActiveAddresses (jc_marshal codec maxField n) s = (q, s')" "addressEvents ns = []"
      using 3 by (auto simp: EnableMaxActiveAddressesRule_def NewMaxActiveAddressesConfig_def EnableMaxActiveAddressesRuleConfig_def
          addressEvents_def List.map_filter_simps split: prod.splits sum.splits)
    moreover have "readable codec s'" by (rule readable_upsert[OF assms(2) q(1)]) simp
    ultimately show ?thesis using onlyRules_upsert by blast
  qed
next
  case (4 now d r)
  then obtain q where q: "DisableRule now d RuleTypeMaxActiveAddresses s = (q, s')" "ns = []"
    by (auto simp: notifying_def DisableMaxActiveAddressesRule_def andThen_def liftE_def split: prod.splits sum.splits)
  then show ?thesis using readable_disable[OF assms(2) q(1)] onlyRules_disable[OF q(1)] by simp
qed

lemma leaseInv_rule:
  assumes w: "leaseInv codec w" and call: "ruleCall codec (lw_store w) ns s'"
  shows "leaseInv codec (w\<lparr>lw_store := s', lw_unsent := lw_unsent w @ [ns]\<rparr>)"
proof -
  have eff: "onlyRules (lw_store w) s'" "readable codec s'" "addressEvents ns = []"
    using ruleCall_effect[OF call] w by (simp_all add: leaseInv_def)
  have "pendingEvents (w\<lparr>lw_store := s', lw_unsent := lw_unsent w @ [ns]\<rparr>) = pendingEvents w" using eff(3) by (simp add: pendingEvents_def)
  then show ?thesis using w eff(2) onlyRules_frame[OF eff(1)] by (simp add: leaseInv_def)
qed

end

text \<open>Delivery: the notifications of a call arrive in order, or some were dropped.\<close>

lemma observe_frame [simp]:
  "lw_store (lease_observe n w) = lw_store w" "lw_unsent (lease_observe n w) = lw_unsent w" "lw_busy (lease_observe n w) = lw_busy w"
  by (simp_all add: lease_observe_def lease_OnAddressEvent_def lease_OnRuleEvent_def split: notice.splits)

lemma observes_frame [simp]:
  "lw_store (fold lease_observe ns w) = lw_store w" "lw_unsent (fold lease_observe ns w) = lw_unsent w" "lw_busy (fold lease_observe ns w) = lw_busy w"
  by (induction ns arbitrary: w) simp_all

lemma observe_events:
  "\<not> lw_dropped (lease_observe n w) \<Longrightarrow> \<not> lw_dropped w \<and> lw_events (lease_observe n w) = lw_events w @ addressEvents [n]"
  "set (lw_events (lease_observe n w)) \<subseteq> set (lw_events w) \<union> set (addressEvents [n])"
  by (auto simp: lease_observe_def lease_OnAddressEvent_def lease_OnRuleEvent_def addressEvents_def List.map_filter_simps
      split: notice.splits if_splits)

lemma addressEvents_Cons: "addressEvents (n # ns) = addressEvents [n] @ addressEvents ns"
  by (simp add: addressEvents_def List.map_filter_simps split: option.splits)

lemma observes_events:
  "\<not> lw_dropped (fold lease_observe ns w) \<Longrightarrow> \<not> lw_dropped w \<and> lw_events (fold lease_observe ns w) = lw_events w @ addressEvents ns"
proof (induction ns arbitrary: w)
  case (Cons n ns)
  from Cons.IH[of "lease_observe n w"] Cons.prems observe_events(1)[of n w] show ?case
    by (simp add: addressEvents_Cons[of n ns])
qed simp

lemma observes_subset: "set (lw_events (fold lease_observe ns w)) \<subseteq> set (lw_events w) \<union> set (addressEvents ns)"
proof (induction ns arbitrary: w)
  case (Cons n ns)
  from Cons.IH[of "lease_observe n w"] observe_events(2)[of n w] show ?case by (auto simp: addressEvents_Cons[of n ns])
qed simp

lemma leaseInv_deliver:
  assumes w: "leaseInv codec w" and u: "lw_unsent w = ns # rest"
  shows "leaseInv codec (fold lease_observe ns (w\<lparr>lw_unsent := rest\<rparr>))" (is "leaseInv codec ?w")
proof -
  have all: "pendingEvents w = (case lw_busy w of None \<Rightarrow> [] | Some (e, _) \<Rightarrow> [e]) @ lw_events w @ addressEvents ns @ concat (map addressEvents rest)"
    by (simp add: pendingEvents_def u)
  have pend: "pendingEvents ?w = (case lw_busy w of None \<Rightarrow> [] | Some (e, _) \<Rightarrow> [e]) @ lw_events ?w @ concat (map addressEvents rest)"
    by (simp add: pendingEvents_def)
  have sub: "set (pendingEvents ?w) \<subseteq> set (pendingEvents w)"
    using observes_subset[of ns "w\<lparr>lw_unsent := rest\<rparr>"] unfolding all pend by (auto split: option.splits)
  have same: "\<not> lw_dropped ?w \<Longrightarrow> \<not> lw_dropped w \<and> pendingEvents ?w = pendingEvents w"
    using observes_events[of ns "w\<lparr>lw_unsent := rest\<rparr>"] unfolding all pend by simp
  show ?thesis using w sub same unfolding leaseInv_def by (simp add: subset_iff)
qed

text \<open>The listener.\<close>

lemma hasLease_delete: "hasLease (snd (ClearAddressLease d i s)) = (hasLease s)(i := False)"
  by (rule ext) (auto simp: hasLease_def ClearAddressLease_def DeleteAddressLease_def)

lemma hasLease_map: "(\<And>l. l_AddressID (f l) = l_AddressID l) \<Longrightarrow> hasLease (s\<lparr>st_leases := map f (st_leases s)\<rparr>) = hasLease s"
  by (simp add: hasLease_def fun_eq_iff image_image)

lemma hasLease_upsert:
  assumes "l_DeviceID l \<in> d_ID ` set (st_devices s)" "l_AddressID l \<in> a_ID ` set (st_addresses s)"
  shows "hasLease (snd (UpsertAddressLease l s)) = (hasLease s)(l_AddressID l := True)"
proof (cases "List.find (\<lambda>x. l_AddressID x = l_AddressID l) (st_leases s)")
  case None
  then show ?thesis using assms by (auto simp: UpsertAddressLease_def hasLease_def fun_eq_iff Let_def)
next
  case (Some old)
  have "l_AddressID old = l_AddressID l" "old \<in> set (st_leases s)" using find_SomeD[OF Some] by simp_all
  then have "hasLease s (l_AddressID l)" unfolding hasLease_def by (metis image_eqI)
  then have "(hasLease s)(l_AddressID l := True) = hasLease s" by (simp add: fun_eq_iff)
  then show ?thesis using assms Some by (simp add: UpsertAddressLease_def Let_def hasLease_map)
qed

definition onlyLeases :: "store \<Rightarrow> store \<Rightarrow> bool" where
  "onlyLeases s t \<longleftrightarrow> (\<exists>ls. t = s\<lparr>st_leases := ls\<rparr>)"

lemma onlyLeases_ops [simp]:
  "onlyLeases s s" "onlyLeases s (snd (UpsertAddressLease l s))" "onlyLeases s (snd (ClearAddressLease d i s))" "onlyLeases s (snd (handleLeaseRuleEvent e s))"
proof -
  have self: "s = s\<lparr>st_leases := st_leases s\<rparr>" by simp
  show id: "onlyLeases s s" using self unfolding onlyLeases_def by blast
  show "onlyLeases s (snd (UpsertAddressLease l s))" using id
    by (auto simp: UpsertAddressLease_def Let_def onlyLeases_def split: option.splits)
  show "onlyLeases s (snd (ClearAddressLease d i s))" by (auto simp: ClearAddressLease_def DeleteAddressLease_def onlyLeases_def)
  show "onlyLeases s (snd (handleLeaseRuleEvent e s))" using id
    by (auto simp: handleLeaseRuleEvent_def SetDeviceAddressLeasesExpiry_def onlyLeases_def)
qed

lemma onlyLeases_frame:
  assumes "onlyLeases s t"
  shows "deviceInv t = deviceInv s" "enabledIn t = enabledIn s" "rowsExist t = rowsExist s" "readable codec t = readable codec s"
  using assms by (auto simp: onlyLeases_def deviceInv_def liveDevice_def presentDevice_def enabledIn_def rowsExist_def fun_eq_iff readable_iff ruleOf_def)

lemma hasLease_rule: "hasLease (snd (handleLeaseRuleEvent e s)) = hasLease s"
  by (simp add: handleLeaseRuleEvent_def SetDeviceAddressLeasesExpiry_def hasLease_map)

lemma takeEvent_cases:
  assumes "leaseInv codec w" "lw_busy w = None" "lw_events w = e # es"
  shows "IsAddressEnabled e \<Longrightarrow> \<exists>ttl. takeEvent codec w = w\<lparr>lw_events := es, lw_busy := Some (e, ttl)\<rparr>"
    and "\<not> IsAddressEnabled e \<Longrightarrow> takeEvent codec w = w\<lparr>lw_events := es, lw_store := snd (ClearAddressLease (ev_DeviceID e) (ev_AddressID e) (lw_store w))\<rparr>"
proof -
  obtain ttl where "GetDeviceAddressLeaseTTLSeconds codec (ev_DeviceID e) (lw_store w) = (Inr ttl, lw_store w)"
    using assms(1) unfolding leaseInv_def readable_def by blast
  then show "IsAddressEnabled e \<Longrightarrow> \<exists>ttl. takeEvent codec w = w\<lparr>lw_events := es, lw_busy := Some (e, ttl)\<rparr>"
    using assms(3) by (intro exI[of _ ttl]) (simp add: takeEvent_def del: IsAddressEnabled.simps)
  show "\<not> IsAddressEnabled e \<Longrightarrow> takeEvent codec w = w\<lparr>lw_events := es, lw_store := snd (ClearAddressLease (ev_DeviceID e) (ev_AddressID e) (lw_store w))\<rparr>"
    using assms(3) by (simp add: takeEvent_def del: IsAddressEnabled.simps)
qed

lemma leaseInv_take:
  assumes w: "leaseInv codec w" and idle: "lw_busy w = None" and q: "lw_events w = e # es"
  shows "leaseInv codec (takeEvent codec w)"
proof (cases "IsAddressEnabled e")
  case True
  then obtain ttl where eq: "takeEvent codec w = w\<lparr>lw_events := es, lw_busy := Some (e, ttl)\<rparr>" using takeEvent_cases(1)[OF assms] by blast
  have "pendingEvents (takeEvent codec w) = pendingEvents w" using idle q by (simp add: eq pendingEvents_def)
  then show ?thesis using w True by (simp add: leaseInv_def eq)
next
  case False
  let ?s = "snd (ClearAddressLease (ev_DeviceID e) (ev_AddressID e) (lw_store w))"
  have eq: "takeEvent codec w = w\<lparr>lw_events := es, lw_store := ?s\<rparr>" by (rule takeEvent_cases(2)[OF assms False])
  have pend: "pendingEvents w = e # pendingEvents (takeEvent codec w)" using idle q by (simp add: eq pendingEvents_def)
  note fr = onlyLeases_frame[OF onlyLeases_ops(3)]
  show ?thesis using w False idle pend unfolding leaseInv_def eq
    by (simp add: fr hasLease_delete stateAfter_Cons)
qed

lemma leaseInv_put:
  assumes w: "leaseInv codec w" and busy: "lw_busy w = Some (e, ttl)"
  shows "leaseInv codec (writeLease now w)"
proof -
  let ?l = "NewAddressLease now (ev_AddressID e) (ev_DeviceID e) ttl"
  let ?s = "snd (UpsertAddressLease ?l (lw_store w))"
  have eq: "writeLease now w = w\<lparr>lw_busy := None, lw_store := ?s\<rparr>" using busy by (simp add: writeLease_def)
  have pend: "pendingEvents w = e # pendingEvents (writeLease now w)" using busy by (simp add: eq pendingEvents_def)
  have e: "IsAddressEnabled e" "rowsExist (lw_store w) e" using w busy pend by (simp_all add: leaseInv_def)
  have "hasLease ?s = (hasLease (lw_store w))(ev_AddressID e := True)"
    using hasLease_upsert[of ?l "lw_store w"] e by (simp add: NewAddressLease_def rowsExist_def)
  then show ?thesis using w e(1) pend unfolding leaseInv_def eq
    by (simp add: onlyLeases_frame[OF onlyLeases_ops(2)] stateAfter_Cons)
qed

lemma leaseInv_takeRule:
  assumes w: "leaseInv codec w"
  shows "leaseInv codec (takeRuleEvent w)"
proof (cases "lw_ruleEvents w")
  case (Cons e es)
  have "pendingEvents (takeRuleEvent w) = pendingEvents w" by (simp add: takeRuleEvent_def Cons pendingEvents_def)
  then show ?thesis using w by (simp add: leaseInv_def) (simp add: takeRuleEvent_def Cons onlyLeases_frame[OF onlyLeases_ops(4)] hasLease_rule)
qed (use w in \<open>simp add: takeRuleEvent_def\<close>)

text \<open>A listener left alone works off its channels.\<close>

definition backlog :: "leaseWorld \<Rightarrow> nat" where
  "backlog w = 2 * length (lw_events w) + (if lw_busy w = None then 0 else 1) + length (lw_ruleEvents w)"

lemma leaseMove_inv:
  assumes "leaseMove codec w w'" "leaseInv codec w"
  shows "leaseInv codec w'"
  using assms(1)
proof (cases rule: leaseMove.cases)
  case take
  then show ?thesis using leaseInv_take[OF assms(2)] by (cases "lw_events w") auto
next
  case (put now)
  then show ?thesis using leaseInv_put[OF assms(2)] by (cases "lw_busy w") auto
qed (use assms(2) in \<open>simp add: leaseInv_takeRule\<close>)

lemma leaseFailure_inv:
  assumes "leaseFailure w w'" "leaseInv codec w"
  shows "leaseInv codec w'"
  using assms(1)
proof (cases rule: leaseFailure.cases)
  case (event e es)
  then show ?thesis using assms(2) by (simp add: leaseInv_def pendingEvents_def)
next
  case upsert
  then show ?thesis using assms(2) by (auto simp: leaseInv_def pendingEvents_def)
next
  case (ruleEvent r rs)
  then show ?thesis using assms(2) by (simp add: leaseInv_def pendingEvents_def)
qed

lemma leaseMove_effect:
  assumes "leaseMove codec w w'"
  shows "backlog w' < backlog w" "lw_unsent w' = lw_unsent w" "lw_dropped w' = lw_dropped w" "enabledIn (lw_store w') = enabledIn (lw_store w)"
proof -
  have read: "snd (GetDeviceAddressLeaseTTLSeconds codec d s) = s" for d s
    by (auto simp: GetDeviceAddressLeaseTTLSeconds_def GetRuleByDeviceAndType_def split: option.splits sum.splits)
  have "backlog w' < backlog w \<and> lw_unsent w' = lw_unsent w \<and> lw_dropped w' = lw_dropped w \<and> enabledIn (lw_store w') = enabledIn (lw_store w)"
    using assms
  proof (cases rule: leaseMove.cases)
    case take
    then obtain e es where q: "lw_events w = e # es" by (cases "lw_events w") auto
    obtain r where r: "GetDeviceAddressLeaseTTLSeconds codec (ev_DeviceID e) (lw_store w) = (r, lw_store w)"
      using read by (metis prod.collapse)
    show ?thesis using take q r
      by (cases r) (auto simp: takeEvent_def backlog_def onlyLeases_frame[OF onlyLeases_ops(3)] simp del: IsAddressEnabled.simps)
  next
    case (put now)
    then show ?thesis by (auto simp: writeLease_def backlog_def onlyLeases_frame[OF onlyLeases_ops(2)])
  next
    case takeRule
    then show ?thesis by (cases "lw_ruleEvents w") (auto simp: takeRuleEvent_def backlog_def onlyLeases_frame[OF onlyLeases_ops(4)])
  qed
  then show "backlog w' < backlog w" "lw_unsent w' = lw_unsent w" "lw_dropped w' = lw_dropped w" "enabledIn (lw_store w') = enabledIn (lw_store w)"
    by simp_all
qed

text \<open>So every run of moves is short, and it can go on until the channels are empty.\<close>

lemma leaseMoves_bound: "(leaseMove codec ^^ n) w w' \<Longrightarrow> n + backlog w' \<le> backlog w"
proof (induction n arbitrary: w')
  case (Suc n)
  then obtain v where "(leaseMove codec ^^ n) w v" "leaseMove codec v w'" by auto
  then show ?case using Suc.IH[of v] leaseMove_effect(1)[of codec v w'] by simp
qed simp

lemma leaseMoves_kept:
  "(leaseMove codec)\<^sup>*\<^sup>* w w' \<Longrightarrow> lw_unsent w' = lw_unsent w \<and> lw_dropped w' = lw_dropped w \<and> enabledIn (lw_store w') = enabledIn (lw_store w)"
  by (induction rule: rtranclp_induct) (simp_all add: leaseMove_effect)

lemma leaseMoves_inv: "(leaseMove codec)\<^sup>*\<^sup>* w w' \<Longrightarrow> leaseInv codec w \<Longrightarrow> leaseInv codec w'"
  by (induction rule: rtranclp_induct) (auto intro: leaseMove_inv)

lemma leaseMove_stuck:
  assumes "\<nexists>v. leaseMove codec w v"
  shows "lw_events w = [] \<and> lw_ruleEvents w = [] \<and> lw_busy w = None"
  using assms leaseMove.intros[of w] by blast

context json_codec
begin

lemma leaseStep_inv:
  assumes "leaseStep True codec w w'" "leaseInv codec w"
  shows "leaseInv codec w'"
  using assms(1)
proof (cases rule: leaseStep.cases)
  case (deliver k)
  then obtain ns rest where "lw_unsent w = ns # rest" "k = 0" by (cases "lw_unsent w") auto
  then show ?thesis using deliver leaseInv_deliver[OF assms(2)] by simp
next
  case move
  then show ?thesis by (rule leaseMove_inv[OF _ assms(2)])
next
  case failure
  then show ?thesis by (rule leaseFailure_inv[OF _ assms(2)])
qed (use assms(2) in \<open>simp_all add: leaseInv_call leaseInv_rule\<close>)

lemma leaseSteps_inv: "(leaseStep True codec)\<^sup>*\<^sup>* w w' \<Longrightarrow> leaseInv codec w \<Longrightarrow> leaseInv codec w'"
  by (induction rule: rtranclp_induct) (auto intro: leaseStep_inv)

end

section \<open>Properties\<close>

definition leasedIDs :: "store \<Rightarrow> id set" where
  "leasedIDs s = l_AddressID ` set (st_leases s)"

definition enabledAddressIDs :: "store \<Rightarrow> id set" where
  "enabledAddressIDs s = a_ID ` {a \<in> set (st_addresses s). a_IsEnabled a}"

text \<open>An idle listener over a store that is in order.\<close>

definition leaseStart :: "jsonCodec \<Rightarrow> leaseWorld \<Rightarrow> bool" where
  "leaseStart codec w \<longleftrightarrow> lw_unsent w = [] \<and> lw_events w = [] \<and> lw_ruleEvents w = [] \<and> lw_busy w = None \<and> \<not> lw_dropped w \<and>
     deviceInv (lw_store w) \<and> readable codec (lw_store w) \<and> leasedIDs (lw_store w) = enabledAddressIDs (lw_store w)"

lemma lease_mem: "i \<in> leasedIDs s \<longleftrightarrow> hasLease s i" "i \<in> enabledAddressIDs s \<longleftrightarrow> enabledIn s i"
  by (auto simp: leasedIDs_def enabledAddressIDs_def hasLease_def enabledIn_def)

lemma lease_sets: "leasedIDs s = enabledAddressIDs s \<longleftrightarrow> hasLease s = enabledIn s"
  by (simp add: set_eq_iff fun_eq_iff lease_mem)

lemma leaseStart_inv: "leaseStart codec w \<Longrightarrow> leaseInv codec w"
  by (simp add: leaseStart_def leaseInv_def pendingEvents_def lease_sets)

lemma quiet_leases:
  "leaseInv codec w \<Longrightarrow> pendingEvents w = [] \<Longrightarrow> \<not> lw_dropped w \<Longrightarrow> leasedIDs (lw_store w) = enabledAddressIDs (lw_store w)"
  by (simp add: leaseInv_def lease_sets)

text \<open>C7 (invariant). Whatever calls of the device and rule services ran, and however the listener was
  scheduled between them: as long as the calls notified in the order in which they committed, no
  event was dropped from a full channel and no statement of the listener failed, the addresses with a lease are, once nothing is pending,
  exactly the enabled addresses, and the device invariant holds. While events are pending, they say
  what is missing: applied to the leases they give the enabled addresses.\<close>

theorem leases_follow_addresses:
  assumes "leaseStart goCodec w" and "(leaseStep True goCodec)\<^sup>*\<^sup>* w w'" and "\<not> lw_dropped w'"
  shows "stateAfter (\<lambda>i. i \<in> leasedIDs (lw_store w')) (pendingEvents w') = (\<lambda>i. i \<in> enabledAddressIDs (lw_store w')) \<and>
    (pendingEvents w' = [] \<longrightarrow> leasedIDs (lw_store w') = enabledAddressIDs (lw_store w')) \<and> deviceInv (lw_store w')"
proof -
  have inv: "leaseInv goCodec w'" using goJson.leaseSteps_inv[OF assms(2) leaseStart_inv[OF assms(1)]] .
  show ?thesis using inv quiet_leases[OF inv _ assms(3)] assms(3) by (simp add: leaseInv_def lease_mem)
qed

text \<open>C21 (liveness). The listener catches up. Take a state that such a run reaches, with notifications in the
  order of the commits, nothing dropped and every call's notifications sent. From there the listener's own moves
  cannot go on for ever, whatever order it takes the channels in: their number is bounded by its backlog, two moves
  per event of an address and one per event of a rule. And wherever they stop, with no move left, both channels
  are empty and the leases are exactly those of the addresses, which are enabled as before.\<close>

theorem lease_listener_catches_up:
  assumes "leaseStart goCodec w" and "(leaseStep True goCodec)\<^sup>*\<^sup>* w w'" and "\<not> lw_dropped w'" and "lw_unsent w' = []"
  shows "(\<forall>n w''. (leaseMove goCodec ^^ n) w' w'' \<longrightarrow> n \<le> backlog w') \<and>
    (\<forall>w''. (leaseMove goCodec)\<^sup>*\<^sup>* w' w'' \<and> (\<nexists>v. leaseMove goCodec w'' v) \<longrightarrow>
       lw_events w'' = [] \<and> lw_ruleEvents w'' = [] \<and> lw_busy w'' = None \<and>
       leasedIDs (lw_store w'') = enabledAddressIDs (lw_store w'') \<and> enabledAddressIDs (lw_store w'') = enabledAddressIDs (lw_store w'))"
proof (intro conjI allI impI)
  show "n \<le> backlog w'" if "(leaseMove goCodec ^^ n) w' w''" for n w'' using leaseMoves_bound[OF that] by simp
next
  fix v assume v: "(leaseMove goCodec)\<^sup>*\<^sup>* w' v \<and> (\<nexists>u. leaseMove goCodec v u)"
  then have run: "(leaseMove goCodec)\<^sup>*\<^sup>* w' v" and empty: "lw_events v = [] \<and> lw_ruleEvents v = [] \<and> lw_busy v = None"
    using leaseMove_stuck by blast+
  show "lw_events v = []" "lw_ruleEvents v = []" "lw_busy v = None" using empty by simp_all
  note kept = leaseMoves_kept[OF run]
  have "leaseInv goCodec v" by (rule leaseMoves_inv[OF run goJson.leaseSteps_inv[OF assms(2) leaseStart_inv[OF assms(1)]]])
  moreover have "pendingEvents v = []" using empty kept assms(4) by (simp add: pendingEvents_def)
  ultimately show "leasedIDs (lw_store v) = enabledAddressIDs (lw_store v)" using quiet_leases kept assms(3) by blast
  show "enabledAddressIDs (lw_store v) = enabledAddressIDs (lw_store w')" using kept by (simp add: set_eq_iff lease_mem)
qed

section \<open>The expiry job\<close>

definition dueIDs :: "time \<Rightarrow> store \<Rightarrow> id set" where
  "dueIDs now s = {i. \<exists>l \<in> set (st_leases s). \<exists>t. l_AddressID l = i \<and> l_ExpiresAt l = Some t \<and> t \<le> now}"

lemma GetExpiredAddressIDs_due: "\<exists>is. GetExpiredAddressIDs now s = (Inr is, s) \<and> set is = dueIDs now s"
  by (auto simp: GetExpiredAddressIDs_def dueIDs_def split: option.splits)

text \<open>One run of the expiry job, when every lease belongs to an existing address (the
  foreign key of the table): it succeeds, disables exactly the addresses whose lease has ended, marks
  them with expiry as the source and the time of the run, leaves all other addresses, the devices and
  the leases as they were, and announces each disabled address; with nothing due it changes and sends
  nothing.\<close>

lemma expiry_job_disables_due:
  assumes "\<forall>l \<in> set (st_leases s). l_AddressID l \<in> a_ID ` set (st_addresses s)"
  shows "\<exists>ns s'. ExpiryJob_Run now s = (Inr (), ns, s') \<and>
    st_addresses s' = map (withState now (dueIDs now s) False EventSourceExpiry) (st_addresses s) \<and>
    st_leases s' = st_leases s \<and> st_devices s' = st_devices s \<and>
    enabledAddressIDs s' = enabledAddressIDs s - dueIDs now s \<and>
    ev_AddressID ` set (addressEvents ns) = dueIDs now s \<and> (\<forall>e \<in> set (addressEvents ns). \<not> IsAddressEnabled e) \<and>
    (dueIDs now s = {} \<longrightarrow> ns = [] \<and> s' = s)"
proof -
  obtain "is" where ids: "GetExpiredAddressIDs now s = (Inr is, s)" "set is = dueIDs now s" using GetExpiredAddressIDs_due by blast
  have sub: "set is \<subseteq> a_ID ` set (st_addresses s)" using assms unfolding ids(2) by (auto simp: dueIDs_def)
  have off: "enabledAddressIDs s' = enabledAddressIDs s - dueIDs now s"
    if "st_addresses s' = map (withState now (dueIDs now s) False EventSourceExpiry) (st_addresses s)" for s'
    using enabledIn_off[OF that] by (auto simp: set_eq_iff lease_mem)
  show ?thesis
  proof (cases "is = []")
    case True
    then have "ExpiryJob_Run now s = (Inr (), [], s)" "dueIDs now s = {}" using ids by (simp_all add: ExpiryJob_Run_def)
    then show ?thesis by simp
  next
    case False
    obtain as evs where "mapEach (\<lambda>i. recordAddressEvent True now i False EventSourceExpiry EventTriggerSystem) is s =
      (Inr as, s\<lparr>st_addresses := map (withState now (set is) False EventSourceExpiry) (st_addresses s), st_addressEvents := st_addressEvents s @ evs\<rparr>)"
      "map a_ID as = is" using mapEach_disable[OF sub] by blast
    note eff = this
    let ?t = "s\<lparr>st_addresses := map (withState now (set is) False EventSourceExpiry) (st_addresses s), st_addressEvents := st_addressEvents s @ evs\<rparr>"
    have run: "ExpiryJob_Run now s = (Inr (), disabledNotices now as, ?t)"
      using ids(1) False eff(1) by (simp add: ExpiryJob_Run_def DisableAddresses_def notifying_def repoDisableAddresses_def withinTx_def)
    have "a_ID ` set as = dueIDs now s" using eff(2) ids(2) by (metis set_map)
    then have ev: "ev_AddressID ` set (addressEvents (disabledNotices now as)) = dueIDs now s"
      "\<forall>e \<in> set (addressEvents (disabledNotices now as)). \<not> IsAddressEnabled e"
      by (auto simp: NewAddressEvent_def image_image)
    have ne: "dueIDs now s \<noteq> {}" using False ids(2) by auto
    show ?thesis using run ev off[of ?t] ne by (intro exI[of _ "disabledNotices now as"] exI[of _ ?t]) (simp add: ids(2))
  qed
qed

section \<open>Sample runs\<close>

definition leaseRow :: "id \<Rightarrow> time option \<Rightarrow> AddressLease" where
  "leaseRow i t = \<lparr>l_ID = i, l_DeviceID = 1, l_AddressID = i, l_ExpiresAt = t, l_UpdatedAt = 0, l_CreatedAt = 0\<rparr>"

definition leaseStore :: store where
  "leaseStore = deviceStore\<lparr>st_leases := [leaseRow 1 (Some 7)]\<rparr>"

definition sampleWorld :: leaseWorld where
  "sampleWorld = \<lparr>lw_store = leaseStore, lw_unsent = [], lw_events = [], lw_ruleEvents = [], lw_busy = None, lw_dropped = False\<rparr>"

definition afterCall :: "'a svc \<Rightarrow> leaseWorld \<Rightarrow> leaseWorld" where
  "afterCall call w = w\<lparr>lw_store := storeAfter (call (lw_store w)), lw_unsent := lw_unsent w @ [noticesOf (call (lw_store w))]\<rparr>"

definition delivered :: "nat \<Rightarrow> leaseWorld \<Rightarrow> leaseWorld" where
  "delivered k w = fold lease_observe (lw_unsent w ! k) (w\<lparr>lw_unsent := take k (lw_unsent w) @ drop (Suc k) (lw_unsent w)\<rparr>)"

definition afterDisable :: leaseWorld where
  "afterDisable = delivered 0 (afterCall (DisableAddress 9 1 1) sampleWorld)"

lemma sampleWorld_start: "leaseStart goCodec sampleWorld"
proof -
  have "deviceInv leaseStore" using deviceStore_ok by (simp add: leaseStore_def deviceInv_def liveDevice_def presentDevice_def)
  moreover have "readable goCodec leaseStore" by (simp add: readable_iff ruleOf_def leaseStore_def deviceStore_def emptyStore_def)
  moreover have "leasedIDs leaseStore = enabledAddressIDs leaseStore" by code_simp
  ultimately show ?thesis by (simp add: leaseStart_def sampleWorld_def)
qed

lemma disable_step: "leaseStep f codec w (afterCall (DisableAddress now i j) w)"
  unfolding afterCall_def
  by (rule leaseStep.call, rule deviceCall.disable[of now i j _ "fst (DisableAddress now i j (lw_store w))"]) (simp add: storeAfter_def noticesOf_def)

lemma heartbeat_step: "leaseStep f codec w (afterCall (RegisterAddressActivity proxy now i ip source trigger) w)"
  unfolding afterCall_def
  by (rule leaseStep.call, rule deviceCall.heartbeat[of proxy now i ip source trigger _ "fst (RegisterAddressActivity proxy now i ip source trigger (lw_store w))"])
    (simp add: storeAfter_def noticesOf_def)

lemma afterDisable_reached: "(leaseStep True goCodec)\<^sup>*\<^sup>* sampleWorld afterDisable"
proof -
  have "0 < length (lw_unsent (afterCall (DisableAddress 9 1 1) sampleWorld))" by (simp add: afterCall_def)
  from leaseStep.deliver[OF this, of True goCodec] show ?thesis
    using disable_step[of True goCodec sampleWorld 9 1 1] unfolding afterDisable_def delivered_def
    by (meson converse_rtranclp_into_rtranclp r_into_rtranclp)
qed

lemma afterDisable_state: "\<not> lw_dropped afterDisable" "lw_unsent afterDisable = []" "lw_busy afterDisable = None"
  "map (\<lambda>e. (ev_Type e, ev_AddressID e)) (lw_events afterDisable) = [(EventTypeAddressDisabled, 1)]"
  by code_simp+

theorem leases_follow_addresses_witness:
  "leasedIDs (lw_store afterDisable) = {1} \<and> leasedIDs (lw_store (takeEvent goCodec afterDisable)) = {} \<and>
   enabledAddressIDs (lw_store (takeEvent goCodec afterDisable)) = {}"
proof -
  have "lw_events afterDisable \<noteq> []" using afterDisable_state(4) by auto
  then have st: "(leaseStep True goCodec)\<^sup>*\<^sup>* sampleWorld (takeEvent goCodec afterDisable)"
    using leaseStep.move[OF leaseMove.take[OF afterDisable_state(3)], where codec = goCodec and fifo = True] afterDisable_reached by (meson rtranclp.rtrancl_into_rtrancl)
  have "\<not> lw_dropped (takeEvent goCodec afterDisable)" "pendingEvents (takeEvent goCodec afterDisable) = []"
    "enabledAddressIDs (lw_store (takeEvent goCodec afterDisable)) = {}" "leasedIDs (lw_store afterDisable) = {1}" by code_simp+
  then show ?thesis using leases_follow_addresses[OF sampleWorld_start st] by simp
qed

theorem lease_listener_catches_up_witness:
  "leaseMove goCodec afterDisable (takeEvent goCodec afterDisable) \<and> leasedIDs (lw_store afterDisable) = {1} \<and>
   leasedIDs (lw_store (takeEvent goCodec afterDisable)) = {} \<and> (\<nexists>w. (leaseMove goCodec ^^ 3) afterDisable w)"
proof -
  let ?w = "takeEvent goCodec afterDisable"
  have one: "leaseMove goCodec afterDisable ?w" by (rule leaseMove.take) (use afterDisable_state in auto)
  note catch = lease_listener_catches_up[OF sampleWorld_start afterDisable_reached afterDisable_state(1,2)]
  have idle: "lw_events ?w = []" "lw_ruleEvents ?w = []" "lw_busy ?w = None" "backlog afterDisable = 2"
    "enabledAddressIDs (lw_store afterDisable) = {}" "leasedIDs (lw_store afterDisable) = {1}" by code_simp+
  have "\<nexists>v. leaseMove goCodec ?w v" using idle by (auto elim!: leaseMoveE)
  then have "leasedIDs (lw_store ?w) = {}" using catch one idle(5) by (metis r_into_rtranclp)
  moreover have "\<nexists>w. (leaseMove goCodec ^^ 3) afterDisable w" using catch idle(4) by fastforce
  ultimately show ?thesis using one idle(6) by simp
qed

lemma expiry_job_disables_due_witness:
  "\<exists>ns s'. ExpiryJob_Run 7 leaseStore = (Inr (), ns, s') \<and> enabledAddressIDs s' = {}"
proof -
  have "\<forall>l \<in> set (st_leases leaseStore). l_AddressID l \<in> a_ID ` set (st_addresses leaseStore)" by code_simp
  moreover have "1 \<in> dueIDs 7 leaseStore" by (simp add: dueIDs_def leaseStore_def leaseRow_def)
  moreover have "enabledAddressIDs leaseStore = {1}" by code_simp
  ultimately show ?thesis using expiry_job_disables_due[of leaseStore 7] by auto
qed

text \<open>Without the order of commits the table goes wrong: a heartbeat creates address 3, the address is
  disabled at once, and the second call notifies first. The listener clears a lease that is not there
  and then adds one for the disabled address, and it stays.\<close>

definition raceCalls :: leaseWorld where
  "raceCalls = afterCall (DisableAddress 10 1 3)
     (afterCall (RegisterAddressActivity AddrZero 9 1 ''10.0.0.7'' EventSourceHeartbeat EventTriggerSchedule) sampleWorld)"

definition raceWorld :: leaseWorld where
  "raceWorld = writeLease 11 (takeEvent goCodec (takeEvent goCodec (delivered 0 (delivered 1 raceCalls))))"

lemma delivered_step: "k < length (lw_unsent w) \<Longrightarrow> leaseStep False codec w (delivered k w)"
  unfolding delivered_def by (rule leaseStep.deliver) simp_all

theorem lease_of_disabled_address:
  "(leaseStep False goCodec)\<^sup>*\<^sup>* sampleWorld raceWorld \<and> pendingEvents raceWorld = [] \<and> \<not> lw_dropped raceWorld \<and>
   3 \<in> leasedIDs (lw_store raceWorld) \<and> 3 \<notin> enabledAddressIDs (lw_store raceWorld)"
proof -
  let ?d = "delivered 0 (delivered 1 raceCalls)"
  have cond: "1 < length (lw_unsent raceCalls) \<and> 0 < length (lw_unsent (delivered 1 raceCalls)) \<and> lw_busy ?d = None \<and> lw_events ?d \<noteq> [] \<and>
    lw_busy (takeEvent goCodec ?d) = None \<and> lw_events (takeEvent goCodec ?d) \<noteq> [] \<and> lw_busy (takeEvent goCodec (takeEvent goCodec ?d)) \<noteq> None"
    by code_simp
  have "(leaseStep False goCodec)\<^sup>*\<^sup>* sampleWorld raceCalls" unfolding raceCalls_def
    by (meson heartbeat_step disable_step r_into_rtranclp rtranclp.rtrancl_into_rtrancl)
  also have "leaseStep False goCodec raceCalls (delivered 1 raceCalls)" by (rule delivered_step) (use cond in blast)
  also have "leaseStep False goCodec (delivered 1 raceCalls) ?d" by (rule delivered_step) (use cond in blast)
  also have "leaseStep False goCodec ?d (takeEvent goCodec ?d)" by (rule leaseStep.move, rule leaseMove.take) (use cond in blast)+
  also have "leaseStep False goCodec (takeEvent goCodec ?d) (takeEvent goCodec (takeEvent goCodec ?d))"
    by (rule leaseStep.move, rule leaseMove.take) (use cond in blast)+
  also have "leaseStep False goCodec (takeEvent goCodec (takeEvent goCodec ?d)) raceWorld"
    unfolding raceWorld_def by (rule leaseStep.move, rule leaseMove.put) (use cond in blast)
  finally have "(leaseStep False goCodec)\<^sup>*\<^sup>* sampleWorld raceWorld" .
  moreover have "pendingEvents raceWorld = [] \<and> \<not> lw_dropped raceWorld \<and>
   3 \<in> leasedIDs (lw_store raceWorld) \<and> 3 \<notin> enabledAddressIDs (lw_store raceWorld)" by code_simp
  ultimately show ?thesis by blast
qed

end
