(* ===== verification/Max_Addresses.thy ===== *)
theory Max_Addresses
  imports Leases
begin

text \<open>
  The limit on the enabled addresses of a device (\<open>src/internal/maxaddr/service.go\<close>): a listener that
  disables the least recently updated addresses beyond the limit of the device's rule.

  As for the leases, the listener runs beside the calls. Enforcing reads the limit, reads the enabled
  addresses and disables some of them in three separate statements, so a state of the listener says how
  far it has come; other calls may run in between, and each of the statements may fail, which ends the
  work on the event.
\<close>

section \<open>Enforcing the limit\<close>

fun evictLoop :: "id \<Rightarrow> nat \<Rightarrow> id list \<Rightarrow> Address list \<Rightarrow> id list" where
  "evictLoop just excess toDisable [] = toDisable"
| "evictLoop just excess toDisable (a # as) =
    (if a_ID a = just then evictLoop just excess toDisable as
     else let toDisable' = toDisable @ [a_ID a] in
       if length toDisable' = excess then toDisable' else evictLoop just excess toDisable' as)"

text \<open>The addresses come newest first; the loop runs from the end.\<close>

definition victims :: "int \<Rightarrow> id \<Rightarrow> Address list \<Rightarrow> id list" where
  "victims maxAddresses just enabledAddresses =
    (let excess = int (length enabledAddresses) - maxAddresses in
     if excess \<le> 0 then [] else evictLoop just (nat excess) [] (rev enabledAddresses))"

definition enforce :: "jsonCodec \<Rightarrow> time \<Rightarrow> id \<Rightarrow> id \<Rightarrow> store \<Rightarrow> notice list \<times> store" where
  "enforce codec now deviceID just s =
    (case GetMaxActiveAddresses codec deviceID s of
       (Inl _, s') \<Rightarrow> ([], s')
     | (Inr None, s') \<Rightarrow> ([], s')
     | (Inr (Some maxAddresses), s') \<Rightarrow>
        (case GetEnabledAddressesForDevice deviceID s' of
           (Inl _, s'') \<Rightarrow> ([], s'')
         | (Inr enabledAddresses, s'') \<Rightarrow>
            let toDisable = victims maxAddresses just enabledAddresses in
            if toDisable = [] then ([], s'')
            else snd (DisableAddresses now toDisable EventSourceLimitExceeded EventTriggerSystem s'')))"

section \<open>The channels and the listener\<close>

datatype enforcing = ReadLimit id id int | Evict id "id list"

record maxWorld =
  mw_store :: store
  mw_unsent :: "notice list list"
  mw_events :: "AddressEvent list"
  mw_ruleEvents :: "RuleEvent list"
  mw_busy :: "enforcing option"
  mw_dropped :: bool

definition isLimitEvent :: "RuleEvent \<Rightarrow> bool" where
  "isLimitEvent e \<longleftrightarrow> \<not> (rev_RuleType e \<noteq> RuleTypeMaxActiveAddresses \<or> rev_Type e \<noteq> RuleEventTypeEnabled)"

definition maxaddr_OnAddressEvent :: "AddressEvent \<Rightarrow> maxWorld \<Rightarrow> maxWorld" where
  "maxaddr_OnAddressEvent event w =
    (if ev_Type event \<noteq> EventTypeAddressCreated \<and> ev_Type event \<noteq> EventTypeAddressEnabled then w
     else if length (mw_events w) < 500 then w\<lparr>mw_events := mw_events w @ [event]\<rparr> else w\<lparr>mw_dropped := True\<rparr>)"

definition maxaddr_OnRuleEvent :: "RuleEvent \<Rightarrow> maxWorld \<Rightarrow> maxWorld" where
  "maxaddr_OnRuleEvent event w =
    (if \<not> isLimitEvent event then w
     else if length (mw_ruleEvents w) < 100 then w\<lparr>mw_ruleEvents := mw_ruleEvents w @ [event]\<rparr> else w\<lparr>mw_dropped := True\<rparr>)"

definition maxaddr_observe :: "notice \<Rightarrow> maxWorld \<Rightarrow> maxWorld" where
  "maxaddr_observe n w = (case n of AddressNotice e \<Rightarrow> maxaddr_OnAddressEvent e w | RuleNotice e \<Rightarrow> maxaddr_OnRuleEvent e w | _ \<Rightarrow> w)"

text \<open>The three statements of \<open>enforce\<close>, one step each.\<close>

definition startEnforce :: "jsonCodec \<Rightarrow> id \<Rightarrow> id \<Rightarrow> maxWorld \<Rightarrow> maxWorld" where
  "startEnforce codec deviceID just w = (case GetMaxActiveAddresses codec deviceID (mw_store w) of
     (Inr (Some n), _) \<Rightarrow> w\<lparr>mw_busy := Some (ReadLimit deviceID just n)\<rparr> | _ \<Rightarrow> w\<lparr>mw_busy := None\<rparr>)"

definition planEnforce :: "id \<Rightarrow> id \<Rightarrow> int \<Rightarrow> maxWorld \<Rightarrow> maxWorld" where
  "planEnforce deviceID just n w = (case fst (GetEnabledAddressesForDevice deviceID (mw_store w)) of
     Inl _ \<Rightarrow> w\<lparr>mw_busy := None\<rparr>
   | Inr as \<Rightarrow> let vs = victims n just as in w\<lparr>mw_busy := (if vs = [] then None else Some (Evict deviceID vs))\<rparr>)"

definition evictStep :: "time \<Rightarrow> id list \<Rightarrow> maxWorld \<Rightarrow> maxWorld" where
  "evictStep now vs w = (case DisableAddresses now vs EventSourceLimitExceeded EventTriggerSystem (mw_store w) of
     (_, ns, s') \<Rightarrow> w\<lparr>mw_busy := None, mw_store := s', mw_unsent := mw_unsent w @ [ns]\<rparr>)"

text \<open>A statement that fails ends the work: the error is logged and the event is lost, as one that finds a full channel is.\<close>

inductive maxFailure :: "maxWorld \<Rightarrow> maxWorld \<Rightarrow> bool" where
  event: "mw_busy w = None \<Longrightarrow> mw_events w = e # es \<Longrightarrow> maxFailure w (w\<lparr>mw_events := es, mw_dropped := True\<rparr>)"
| ruleEvent: "mw_busy w = None \<Longrightarrow> mw_ruleEvents w = r # rs \<Longrightarrow> maxFailure w (w\<lparr>mw_ruleEvents := rs, mw_dropped := True\<rparr>)"
| statement: "mw_busy w \<noteq> None \<Longrightarrow> maxFailure w (w\<lparr>mw_busy := None, mw_dropped := True\<rparr>)"

inductive maxStep :: "jsonCodec \<Rightarrow> maxWorld \<Rightarrow> maxWorld \<Rightarrow> bool" for codec where
  call: "deviceCall (mw_store w) ns s' \<Longrightarrow> maxStep codec w (w\<lparr>mw_store := s', mw_unsent := mw_unsent w @ [ns]\<rparr>)"
| rule: "ruleCall codec (mw_store w) ns s' \<Longrightarrow> maxStep codec w (w\<lparr>mw_store := s', mw_unsent := mw_unsent w @ [ns]\<rparr>)"
| deliver: "k < length (mw_unsent w) \<Longrightarrow>
    maxStep codec w (fold maxaddr_observe (mw_unsent w ! k) (w\<lparr>mw_unsent := take k (mw_unsent w) @ drop (Suc k) (mw_unsent w)\<rparr>))"
| take: "mw_busy w = None \<Longrightarrow> mw_events w = e # es \<Longrightarrow>
    maxStep codec w (startEnforce codec (ev_DeviceID e) (ev_AddressID e) (w\<lparr>mw_events := es\<rparr>))"
| takeRule: "mw_busy w = None \<Longrightarrow> mw_ruleEvents w = e # es \<Longrightarrow>
    maxStep codec w (startEnforce codec (rev_DeviceID e) 0 (w\<lparr>mw_ruleEvents := es\<rparr>))"
| plan: "mw_busy w = Some (ReadLimit d just n) \<Longrightarrow> maxStep codec w (planEnforce d just n w)"
| evict: "mw_busy w = Some (Evict d vs) \<Longrightarrow> maxStep codec w (evictStep now vs w)"
| failure: "maxFailure w w' \<Longrightarrow> maxStep codec w w'"

inductive_cases maxStepE: "maxStep codec w w'"

text \<open>Undisturbed, the three steps are \<open>enforce\<close>.\<close>

lemma enforce_steps:
  assumes "GetMaxActiveAddresses codec d (mw_store w) = (Inr (Some n), mw_store w)" "mw_busy w = None"
  shows "let w1 = startEnforce codec d just w; w2 = planEnforce d just n w1 in
    mw_busy w1 = Some (ReadLimit d just n) \<and>
    (case mw_busy w2 of None \<Rightarrow> enforce codec now d just (mw_store w) = ([], mw_store w2)
     | Some (Evict d' vs) \<Rightarrow> mw_store (evictStep now vs w2) = snd (enforce codec now d just (mw_store w)) \<and>
         mw_unsent (evictStep now vs w2) = mw_unsent w @ [fst (enforce codec now d just (mw_store w))]
     | _ \<Rightarrow> False)"
  using assms by (simp add: startEnforce_def planEnforce_def enforce_def evictStep_def GetEnabledAddressesForDevice_def Let_def split: prod.splits)

section \<open>What the loop picks\<close>

lemma evictLoop_take:
  "length acc < excess \<Longrightarrow> evictLoop just excess acc as =
    acc @ take (excess - length acc) (map a_ID (filter (\<lambda>a. a_ID a \<noteq> just) as))"
proof (induction just excess acc as rule: evictLoop.induct)
  case (2 just excess acc a as)
  show ?case
  proof (cases "a_ID a = just")
    case False
    have "excess - length acc = Suc (excess - Suc (length acc))" using 2(3) by simp
    then show ?thesis using 2 False by (cases "Suc (length acc) = excess") (auto simp: Let_def)
  qed (use 2 in simp)
qed simp

lemma victims_eq: "0 \<le> n \<Longrightarrow> victims n just as = take (length as - nat n) (map a_ID (filter (\<lambda>a. a_ID a \<noteq> just) (rev as)))"
proof (cases "int (length as) - n \<le> 0")
  case True
  then show "0 \<le> n \<Longrightarrow> ?thesis" by (simp add: victims_def)
next
  case False
  assume n: "0 \<le> n"
  then have "nat (int (length as) - n) = length as - nat n" by simp
  then show ?thesis using False by (simp add: victims_def Let_def evictLoop_take)
qed

section \<open>The limit holds once the listener is idle\<close>

definition limitOf :: "jsonCodec \<Rightarrow> store \<Rightarrow> id \<Rightarrow> int option" where
  "limitOf codec s d = (case GetMaxActiveAddresses codec d s of (Inr r, _) \<Rightarrow> r | _ \<Rightarrow> None)"

definition triggerFor :: "id \<Rightarrow> notice \<Rightarrow> bool" where
  "triggerFor d n = (case n of AddressNotice e \<Rightarrow> isActivation e \<and> ev_DeviceID e = d
     | RuleNotice e \<Rightarrow> isLimitEvent e \<and> rev_DeviceID e = d | _ \<Rightarrow> False)"

definition triggered :: "maxWorld \<Rightarrow> id \<Rightarrow> bool" where
  "triggered w d \<longleftrightarrow> (\<exists>e \<in> set (mw_events w). ev_DeviceID e = d) \<or> (\<exists>e \<in> set (mw_ruleEvents w). rev_DeviceID e = d) \<or>
     (\<exists>ns \<in> set (mw_unsent w). \<exists>n \<in> set ns. triggerFor d n)"

definition covered :: "maxWorld \<Rightarrow> id \<Rightarrow> int \<Rightarrow> bool" where
  "covered w d n = (case mw_busy w of None \<Rightarrow> False | Some (ReadLimit d' just m) \<Rightarrow> d' = d \<and> m = n
     | Some (Evict d' vs) \<Rightarrow> d' = d \<and> card (enabledIDs (mw_store w) d - set vs) \<le> nat n)"

definition busyOk :: "maxWorld \<Rightarrow> bool" where
  "busyOk w = (case mw_busy w of None \<Rightarrow> True | Some (ReadLimit _ _ m) \<Rightarrow> 1 \<le> m
     | Some (Evict _ vs) \<Rightarrow> set vs \<subseteq> a_ID ` set (st_addresses (mw_store w)))"

definition withinLimits :: "jsonCodec \<Rightarrow> store \<Rightarrow> bool" where
  "withinLimits codec s \<longleftrightarrow> (\<forall>d n. limitOf codec s d = Some n \<longrightarrow> card (enabledIDs s d) \<le> nat n)"

definition maxInv :: "jsonCodec \<Rightarrow> maxWorld \<Rightarrow> bool" where
  "maxInv codec w \<longleftrightarrow> deviceInv (mw_store w) \<and> busyOk w \<and> (\<not> mw_dropped w \<longrightarrow> (\<forall>d n. limitOf codec (mw_store w) d = Some n \<longrightarrow>
     card (enabledIDs (mw_store w) d) \<le> nat n \<or> triggered w d \<or> covered w d n))"

lemma maxInvI:
  assumes "deviceInv (mw_store w)" "busyOk w"
    and "\<And>d n. \<not> mw_dropped w \<Longrightarrow> limitOf codec (mw_store w) d = Some n \<Longrightarrow> \<not> triggered w d \<Longrightarrow> \<not> covered w d n \<Longrightarrow>
      card (enabledIDs (mw_store w) d) \<le> nat n"
  shows "maxInv codec w"
  using assms unfolding maxInv_def by blast

lemma maxInvD:
  assumes "maxInv codec w"
  shows "deviceInv (mw_store w)" "busyOk w"
    "\<not> mw_dropped w \<Longrightarrow> limitOf codec (mw_store w) d = Some n \<Longrightarrow> \<not> triggered w d \<Longrightarrow> \<not> covered w d n \<Longrightarrow> card (enabledIDs (mw_store w) d) \<le> nat n"
  using assms unfolding maxInv_def by blast+

lemma GetMaxActiveAddresses_snd [simp]: "snd (GetMaxActiveAddresses codec d s) = s"
  by (auto simp: GetMaxActiveAddresses_def GetRuleByDeviceAndType_def split: option.splits sum.splits)

lemma limitOf_eq: "limitOf codec s d = (case ruleOf s d RuleTypeMaxActiveAddresses of None \<Rightarrow> None
    | Some r \<Rightarrow> if \<not> r_Enabled r then None else case ToMaxActiveAddressesRule codec r of Inl _ \<Rightarrow> None | Inr q \<Rightarrow> Some (ma_MaxAddresses q))"
  by (simp add: limitOf_def GetMaxActiveAddresses_def GetRuleByDeviceAndType_def split: option.splits sum.splits)

lemma limitOf_GetMax: "limitOf codec s d = Some n \<longleftrightarrow> GetMaxActiveAddresses codec d s = (Inr (Some n), s)"
  using GetMaxActiveAddresses_snd[of codec d s]
  by (cases "GetMaxActiveAddresses codec d s"; cases "fst (GetMaxActiveAddresses codec d s)") (auto simp: limitOf_def)

lemma limitOf_pos: "limitOf codec s d = Some n \<Longrightarrow> 1 \<le> n"
  by (auto simp: limitOf_eq ToMaxActiveAddressesRule_def parseMaxActiveAddressesConfig_def split: option.splits sum.splits if_splits)

lemma limitOf_rules: "st_rules s' = st_rules s \<Longrightarrow> limitOf codec s' d = limitOf codec s d"
  by (simp add: limitOf_eq ruleOf_def)

lemma finite_enabledIDs [simp]: "finite (enabledIDs s d)"
  by (simp add: enabledIDs_def)

lemma addressEvents_mem: "e \<in> set (addressEvents ns) \<Longrightarrow> AddressNotice e \<in> set ns"
  by (auto simp: addressEvents_def List.map_filter_def split: notice.splits)

lemma lawful_trigger:
  assumes "lawful s ns s'" "deviceInv s" "\<not> (\<exists>n \<in> set ns. triggerFor d n)"
  shows "enabledIDs s' d \<subseteq> enabledIDs s d"
proof
  fix i assume i: "i \<in> enabledIDs s' d"
  show "i \<in> enabledIDs s d"
  proof (rule ccontr)
    assume "i \<notin> enabledIDs s d"
    from lawful_gain[OF assms(1,2) i this] obtain e where "e \<in> set (addressEvents ns)" "isActivation e" "ev_DeviceID e = d" by blast
    then show False using assms(3) addressEvents_mem[of e ns] by (force simp: triggerFor_def)
  qed
qed

text \<open>A call whose notifications the listener need not see.\<close>

lemma maxInv_step:
  assumes w: "maxInv codec w" and inv: "deviceInv s'"
    and ids: "a_ID ` set (st_addresses (mw_store w)) \<subseteq> a_ID ` set (st_addresses s')"
    and sub: "\<And>d. \<not> (\<exists>n \<in> set ns. triggerFor d n) \<Longrightarrow> enabledIDs s' d \<subseteq> enabledIDs (mw_store w) d"
    and lim: "\<And>d n. \<not> (\<exists>n \<in> set ns. triggerFor d n) \<Longrightarrow> limitOf codec s' d = Some n \<Longrightarrow> limitOf codec (mw_store w) d = Some n"
  shows "maxInv codec (w\<lparr>mw_store := s', mw_unsent := mw_unsent w @ [ns]\<rparr>)" (is "maxInv codec ?w")
proof (rule maxInvI)
  show "deviceInv (mw_store ?w)" using inv by simp
  show "busyOk ?w" using maxInvD(2)[OF w] ids by (auto simp: busyOk_def split: option.splits enforcing.splits)
  fix d n assume h: "\<not> mw_dropped ?w" "limitOf codec (mw_store ?w) d = Some n" "\<not> triggered ?w d" "\<not> covered ?w d n"
  then have no: "\<not> (\<exists>n \<in> set ns. triggerFor d n)" "\<not> triggered w d" by (auto simp: triggered_def)
  then have s: "enabledIDs s' d \<subseteq> enabledIDs (mw_store w) d" and l: "limitOf codec (mw_store w) d = Some n" using sub lim h(2) by auto
  have mono: "card (A - V) \<le> card (B - V)" if "A \<subseteq> B" "finite B" for A B V :: "id set" using that by (intro card_mono) auto
  have "\<not> covered w d n" using h(4) mono[OF s, of "set _"] by (auto simp: covered_def split: option.splits enforcing.splits dest: order_trans)
  from maxInvD(3)[OF w _ l no(2) this] h(1) have "card (enabledIDs (mw_store w) d) \<le> nat n" by simp
  then show "card (enabledIDs (mw_store ?w) d) \<le> nat n" using card_mono[OF _ s] by simp
qed

text \<open>Rule calls: a limit that is new to a device is announced.\<close>

lemma ruleCall_forms:
  assumes "ruleCall codec s ns s'"
  obtains (none) "s' = s"
  | (lease) now d config q where "upsertRule now d RuleTypeDeviceAddressLease config s = (Inr q, s')"
  | (limit) now d config q where "upsertRule now d RuleTypeMaxActiveAddresses config s = (Inr q, s')" "\<exists>n \<in> set ns. triggerFor d n"
  | (off) now d t q where "DisableRule now d t s = (q, s')"
  using assms
proof cases
  case (1 now d ttl r)
  then show ?thesis using lease none upsertRule_Inl
    by (auto simp: EnableDeviceAddressLeaseRule_def EnableDeviceAddressLeaseRuleConfig_def split: prod.splits sum.splits)
next
  case (2 now d r)
  then show ?thesis using off by (auto simp: DisableDeviceAddressLeaseRule_def split: prod.splits sum.splits)
next
  case (3 now d n r)
  then show ?thesis using limit none upsertRule_Inl
    by (auto simp: EnableMaxActiveAddressesRule_def EnableMaxActiveAddressesRuleConfig_def triggerFor_def isLimitEvent_def split: prod.splits sum.splits)
next
  case (4 now d r)
  then show ?thesis using off by (auto simp: notifying_def DisableMaxActiveAddressesRule_def andThen_def liftE_def split: prod.splits sum.splits)
qed

lemma onlyRules_refl: "onlyRules s s"
  by (auto simp: onlyRules_def intro: exI[of _ "st_rules s"])

lemma ruleCall_only: "ruleCall codec s ns s' \<Longrightarrow> onlyRules s s'"
  by (erule ruleCall_forms) (auto simp: onlyRules_refl dest: onlyRules_upsert onlyRules_disable)

lemma ruleCall_limit:
  assumes "ruleCall codec s ns s'" "limitOf codec s' d = Some n" "\<not> (\<exists>n \<in> set ns. triggerFor d n)"
  shows "limitOf codec s d = Some n"
  using assms(1)
proof (cases rule: ruleCall_forms)
  case (lease now d' config q)
  then have "ruleOf s' d RuleTypeMaxActiveAddresses = ruleOf s d RuleTypeMaxActiveAddresses" using upsertRule_Inr(5) by fastforce
  then show ?thesis using assms(2) by (simp add: limitOf_eq)
next
  case (limit now d' config q)
  then have "d' \<noteq> d" using assms(3) by auto
  then have "ruleOf s' d RuleTypeMaxActiveAddresses = ruleOf s d RuleTypeMaxActiveAddresses" by (intro upsertRule_Inr(5)[OF limit(1)]) simp
  then show ?thesis using assms(2) by (simp add: limitOf_eq)
next
  case (off now d' t q)
  let ?f = "\<lambda>r. r\<lparr>r_Enabled := False, r_UpdatedAt := now\<rparr>"
  have s': "s' = updateRule d' t ?f s" using off by (auto simp: DisableRule_def GetRuleByDeviceAndType_def split: option.splits)
  have "ruleOf s' d u = map_option (\<lambda>r. if (d, u) = (d', t) then ?f r else r) (ruleOf s d u)" for u
    unfolding s' by (rule ruleOf_updateRule) simp
  then show ?thesis using assms(2) by (auto simp: limitOf_eq split: option.splits if_splits)
qed (use assms(2) in simp)

lemma maxInv_rule:
  assumes "maxInv codec w" "ruleCall codec (mw_store w) ns s'"
  shows "maxInv codec (w\<lparr>mw_store := s', mw_unsent := mw_unsent w @ [ns]\<rparr>)"
proof -
  have only: "onlyRules (mw_store w) s'" by (rule ruleCall_only[OF assms(2)])
  then have same: "st_addresses s' = st_addresses (mw_store w)" by (auto simp: onlyRules_def)
  then have "enabledIDs s' d = enabledIDs (mw_store w) d" for d by (simp add: enabledIDs_def)
  then show ?thesis using maxInvD(1)[OF assms(1)] onlyRules_frame(1)[OF only] same ruleCall_limit[OF assms(2)]
    by (intro maxInv_step[OF assms(1)]) auto
qed

lemma maxInv_call:
  assumes "maxInv codec w" "deviceCall (mw_store w) ns s'"
  shows "maxInv codec (w\<lparr>mw_store := s', mw_unsent := mw_unsent w @ [ns]\<rparr>)"
proof -
  note inv = maxInvD(1)[OF assms(1)]
  have law: "lawful (mw_store w) ns s'" by (rule deviceCall_lawful[OF assms(2) inv])
  then have tab: "tables (mw_store w) s'" "deviceInv s'" by (simp_all add: lawful_def)
  then have "limitOf codec s' d = limitOf codec (mw_store w) d" for d by (intro limitOf_rules) (simp add: tables_def)
  then show ?thesis using tab lawful_trigger[OF law inv] tables_ids[OF tab(1)] by (intro maxInv_step[OF assms(1)]) auto
qed

lemma maxInv_busy_same:
  assumes "maxInv codec w" "mw_store w' = mw_store w" "mw_busy w' = mw_busy w" "\<not> mw_dropped w' \<Longrightarrow> \<not> mw_dropped w"
    and "\<And>d. \<not> mw_dropped w' \<Longrightarrow> triggered w d \<Longrightarrow> triggered w' d"
  shows "maxInv codec w'"
proof (rule maxInvI)
  show "deviceInv (mw_store w')" using maxInvD(1)[OF assms(1)] assms(2) by simp
  show "busyOk w'" using maxInvD(2)[OF assms(1)] unfolding busyOk_def assms(2,3) .
  fix d n assume h: "\<not> mw_dropped w'" "limitOf codec (mw_store w') d = Some n" "\<not> triggered w' d" "\<not> covered w' d n"
  have "covered w d n = covered w' d n" unfolding covered_def assms(2,3) ..
  then have "\<not> mw_dropped w" "limitOf codec (mw_store w) d = Some n" "\<not> triggered w d" "\<not> covered w d n" using assms h by auto
  from maxInvD(3)[OF assms(1) this] show "card (enabledIDs (mw_store w') d) \<le> nat n" using assms(2) by simp
qed

text \<open>Delivery, in any order.\<close>

lemma max_observe:
  "mw_store (maxaddr_observe n w) = mw_store w \<and> mw_unsent (maxaddr_observe n w) = mw_unsent w \<and> mw_busy (maxaddr_observe n w) = mw_busy w \<and>
   (\<not> mw_dropped (maxaddr_observe n w) \<longrightarrow> \<not> mw_dropped w \<and> (triggered w d \<or> triggerFor d n \<longrightarrow> triggered (maxaddr_observe n w) d))"
  by (auto simp: maxaddr_observe_def maxaddr_OnAddressEvent_def maxaddr_OnRuleEvent_def triggered_def triggerFor_def isActivation_def split: notice.splits)

lemma max_observes:
  "mw_store (fold maxaddr_observe ns w) = mw_store w \<and> mw_unsent (fold maxaddr_observe ns w) = mw_unsent w \<and> mw_busy (fold maxaddr_observe ns w) = mw_busy w \<and>
   (\<not> mw_dropped (fold maxaddr_observe ns w) \<longrightarrow> \<not> mw_dropped w \<and>
     (triggered w d \<or> (\<exists>n \<in> set ns. triggerFor d n) \<longrightarrow> triggered (fold maxaddr_observe ns w) d))"
proof (induction ns arbitrary: w)
  case (Cons n ns)
  from Cons.IH[of "maxaddr_observe n w"] max_observe[of n w d] show ?case by auto
qed simp

lemma maxInv_deliver:
  assumes "maxInv codec w" "k < length (mw_unsent w)"
  shows "maxInv codec (fold maxaddr_observe (mw_unsent w ! k) (w\<lparr>mw_unsent := take k (mw_unsent w) @ drop (Suc k) (mw_unsent w)\<rparr>))"
proof -
  let ?ns = "mw_unsent w ! k" and ?w = "w\<lparr>mw_unsent := take k (mw_unsent w) @ drop (Suc k) (mw_unsent w)\<rparr>"
  have "set (mw_unsent w) = insert ?ns (set (take k (mw_unsent w) @ drop (Suc k) (mw_unsent w)))"
    using id_take_nth_drop[OF assms(2)] by (metis Un_insert_right list.simps(15) set_append)
  then have "triggered w d \<Longrightarrow> triggered ?w d \<or> (\<exists>n \<in> set ?ns. triggerFor d n)" for d by (auto simp: triggered_def)
  then show ?thesis using max_observes[of ?ns ?w] by (intro maxInv_busy_same[OF assms(1)]) auto
qed

text \<open>The moves of the listener.\<close>

lemma maxInv_start:
  assumes w: "maxInv codec w" and idle: "mw_busy w = None"
    and w': "mw_store w' = mw_store w" "mw_dropped w' = mw_dropped w" "\<And>d'. d' \<noteq> d \<Longrightarrow> triggered w d' \<Longrightarrow> triggered w' d'"
  shows "maxInv codec (startEnforce codec d just w')"
proof -
  let ?v = "startEnforce codec d just w'"
  have same: "mw_store ?v = mw_store w" "mw_dropped ?v = mw_dropped w" "triggered ?v d' = triggered w' d'" for d'
    using w' by (auto simp: startEnforce_def triggered_def split: prod.splits sum.splits option.splits)
  have busy: "mw_busy ?v = map_option (ReadLimit d just) (limitOf codec (mw_store w) d)"
    using w'(1) by (auto simp: startEnforce_def limitOf_def split: prod.splits sum.splits option.splits)
  show ?thesis
  proof (rule maxInvI)
    show "deviceInv (mw_store ?v)" using maxInvD(1)[OF w] same by simp
    show "busyOk ?v" using limitOf_pos[of codec "mw_store w" d] by (auto simp: busyOk_def busy split: option.splits)
    fix d' n assume h: "\<not> mw_dropped ?v" "limitOf codec (mw_store ?v) d' = Some n" "\<not> triggered ?v d'" "\<not> covered ?v d' n"
    have "d' \<noteq> d" using h(2,4) same by (auto simp: covered_def busy)
    then have "\<not> triggered w d'" using h(3) same w'(3) by blast
    then show "card (enabledIDs (mw_store ?v) d') \<le> nat n" using maxInvD(3)[OF w] h(1,2) same idle by (simp add: covered_def)
  qed
qed

lemma enabled_list:
  assumes "deviceInv s" "fst (GetEnabledAddressesForDevice d s) = Inr as"
  shows "distinct (map a_ID as)" "a_ID ` set as = enabledIDs s d" "length as = card (enabledIDs s d)"
    "set as = {a \<in> set (st_addresses s). a_DeviceID a = d \<and> a_IsEnabled a}"
proof -
  let ?f = "filter (\<lambda>a. a_DeviceID a = d \<and> a_IsEnabled a) (st_addresses s)"
  have as: "as = byUpdatedDesc ?f" using assms(2) by (simp add: GetEnabledAddressesForDevice_def)
  have "distinct (map a_ID ?f)" using deviceInvD(2)[OF assms(1)] by (rule distinct_map_filter)
  moreover have "mset (map a_ID as) = mset (map a_ID ?f)" by (simp add: as byUpdatedDesc_def)
  ultimately show d: "distinct (map a_ID as)" by (metis mset_eq_imp_distinct_iff)
  show s: "set as = {a \<in> set (st_addresses s). a_DeviceID a = d \<and> a_IsEnabled a}" by (auto simp: as byUpdatedDesc_def)
  show ids: "a_ID ` set as = enabledIDs s d" by (simp add: s enabledIDs_def)
  show "length as = card (enabledIDs s d)" using distinct_card[OF d] ids by simp
qed

lemma victims_card:
  assumes "deviceInv s" "fst (GetEnabledAddressesForDevice d s) = Inr as" "1 \<le> n"
  shows "set (victims n just as) \<subseteq> enabledIDs s d - {just}" "card (enabledIDs s d - set (victims n just as)) \<le> nat n"
    "int (card (enabledIDs s d)) \<le> n \<longleftrightarrow> victims n just as = []"
    "n \<le> int (card (enabledIDs s d)) \<Longrightarrow> card (enabledIDs s d - set (victims n just as)) = nat n"
proof -
  note en = enabled_list[OF assms(1,2)]
  let ?c = "map a_ID (filter (\<lambda>a. a_ID a \<noteq> just) (rev as))"
  have v: "victims n just as = take (length as - nat n) ?c" using assms(3) by (intro victims_eq) simp
  have dist: "distinct ?c" using en(1) by (simp add: distinct_map_filter rev_map[symmetric])
  have set_c: "set ?c = enabledIDs s d - {just}" using en(2) by auto
  show "set (victims n just as) \<subseteq> enabledIDs s d - {just}" unfolding v set_c[symmetric] by (rule set_take_subset)
  then have sub: "set (victims n just as) \<subseteq> enabledIDs s d" by blast
  have "length ?c = card (enabledIDs s d - {just})" using distinct_card[OF dist] set_c by simp
  moreover have "card (enabledIDs s d - {just}) + 1 \<ge> length as" using en(3) by (auto simp: card_Diff_singleton_if)
  ultimately have "length as - nat n \<le> length ?c" using assms(3) by linarith
  then have lv: "length (victims n just as) = length as - nat n" by (simp add: v)
  have "card (set (victims n just as)) = length as - nat n" using distinct_card[of "victims n just as"] dist lv by (simp add: v)
  then have c: "card (enabledIDs s d - set (victims n just as)) = length as - (length as - nat n)"
    using card_Diff_subset[OF finite_subset[OF sub finite_enabledIDs] sub] en(3) by simp
  then show "card (enabledIDs s d - set (victims n just as)) \<le> nat n" by simp
  have "victims n just as = [] \<longleftrightarrow> length as \<le> nat n" using lv by (metis diff_is_0_eq length_0_conv)
  then show "int (card (enabledIDs s d)) \<le> n \<longleftrightarrow> victims n just as = []" using en(3) assms(3) by (simp add: le_nat_iff)
  show "card (enabledIDs s d - set (victims n just as)) = nat n" if "n \<le> int (card (enabledIDs s d))" using c that en(3) by simp
qed

lemma maxInv_plan:
  assumes w: "maxInv codec w" and busy: "mw_busy w = Some (ReadLimit d just n)"
  shows "maxInv codec (planEnforce d just n w)"
proof -
  let ?s = "mw_store w" and ?v = "planEnforce d just n w"
  obtain as where as: "fst (GetEnabledAddressesForDevice d ?s) = Inr as" by (simp add: GetEnabledAddressesForDevice_def)
  have n: "1 \<le> n" using maxInvD(2)[OF w] busy by (simp add: busyOk_def)
  note vic = victims_card[OF maxInvD(1)[OF w] as n, of just]
  have same: "mw_store ?v = ?s" "mw_dropped ?v = mw_dropped w" "triggered ?v d' = triggered w d'" for d'
    by (simp_all add: planEnforce_def as Let_def triggered_def)
  have new: "mw_busy ?v = (if victims n just as = [] then None else Some (Evict d (victims n just as)))" by (simp add: planEnforce_def as Let_def)
  show ?thesis
  proof (rule maxInvI)
    show "deviceInv (mw_store ?v)" using maxInvD(1)[OF w] same by simp
    have "enabledIDs ?s d \<subseteq> a_ID ` set (st_addresses ?s)" by (auto simp: enabledIDs_def)
    then show "busyOk ?v" using vic(1) by (auto simp: busyOk_def new same(1))
    fix d' m assume h: "\<not> mw_dropped ?v" "limitOf codec (mw_store ?v) d' = Some m" "\<not> triggered ?v d'" "\<not> covered ?v d' m"
    show "card (enabledIDs (mw_store ?v) d') \<le> nat m"
    proof (cases "d' = d \<and> m = n")
      case True
      have "victims n just as = []"
        by (rule ccontr) (use h(4) vic(2) True same(1) in \<open>simp add: covered_def new\<close>)
      then show ?thesis using True vic(3) same(1) by simp
    next
      case False
      then have "\<not> covered w d' m" by (auto simp: covered_def busy)
      then show ?thesis using maxInvD(3)[OF w] h(1-3) same by simp
    qed
  qed
qed

lemma DisableAddresses_ok:
  assumes "set vs \<subseteq> a_ID ` set (st_addresses s)"
  shows "\<exists>as ns s'. DisableAddresses now vs source trigger s = (Inr as, ns, s') \<and>
    st_addresses s' = map (withState now (set vs) False source) (st_addresses s)"
proof (cases "vs = []")
  case True
  then show ?thesis by (simp add: DisableAddresses_def notifying_def repoDisableAddresses_def)
next
  case False
  obtain as evs where "mapEach (\<lambda>i. recordAddressEvent True now i False source trigger) vs s =
      (Inr as, s\<lparr>st_addresses := map (withState now (set vs) False source) (st_addresses s), st_addressEvents := st_addressEvents s @ evs\<rparr>)"
    using mapEach_disable[OF assms] by blast
  then show ?thesis using False by (simp add: DisableAddresses_def notifying_def repoDisableAddresses_def withinTx_def)
qed

lemma enabledIDs_iff: "i \<in> enabledIDs s d \<longleftrightarrow> (\<exists>a \<in> set (st_addresses s). a_ID a = i \<and> a_DeviceID a = d \<and> a_IsEnabled a)"
  by (auto simp: enabledIDs_def)

lemma enabledIDs_off:
  "deviceInv s \<Longrightarrow> st_addresses s' = map (withState now V False source) (st_addresses s) \<Longrightarrow> enabledIDs s' d = enabledIDs s d - V"
  by (auto simp: enabledIDs_iff set_eq_iff)

lemma maxInv_evict:
  assumes w: "maxInv codec w" and busy: "mw_busy w = Some (Evict d vs)"
  shows "maxInv codec (evictStep now vs w)"
proof -
  let ?s = "mw_store w"
  have vs: "set vs \<subseteq> a_ID ` set (st_addresses ?s)" using maxInvD(2)[OF w] busy by (simp add: busyOk_def)
  obtain as ns s' where dis: "DisableAddresses now vs EventSourceLimitExceeded EventTriggerSystem ?s = (Inr as, ns, s')"
    "st_addresses s' = map (withState now (set vs) False EventSourceLimitExceeded) (st_addresses ?s)" using DisableAddresses_ok[OF vs] by blast
  have off: "enabledIDs s' d' = enabledIDs ?s d' - set vs" for d' by (rule enabledIDs_off[OF maxInvD(1)[OF w] dis(2)])
  let ?u = "w\<lparr>mw_store := s', mw_unsent := mw_unsent w @ [ns]\<rparr>"
  have u: "maxInv codec ?u" by (rule maxInv_call[OF w deviceCall.disables[OF dis(1)]])
  have eq: "evictStep now vs w = ?u\<lparr>mw_busy := None\<rparr>" by (simp add: evictStep_def dis(1))
  show ?thesis unfolding eq
  proof (rule maxInvI)
    fix d' m assume h: "\<not> mw_dropped (?u\<lparr>mw_busy := None\<rparr>)" "limitOf codec (mw_store (?u\<lparr>mw_busy := None\<rparr>)) d' = Some m"
      "\<not> triggered (?u\<lparr>mw_busy := None\<rparr>) d'"
    show "card (enabledIDs (mw_store (?u\<lparr>mw_busy := None\<rparr>)) d') \<le> nat m"
    proof (cases "covered ?u d' m")
      case True
      then show ?thesis by (simp add: covered_def busy off)
    next
      case False
      then show ?thesis using maxInvD(3)[OF u, of d' m] h by (simp add: triggered_def)
    qed
  qed (use maxInvD(1)[OF u] in \<open>simp_all add: busyOk_def\<close>)
qed

lemma maxFailure_inv: "maxFailure w w' \<Longrightarrow> maxInv codec w \<Longrightarrow> maxInv codec w'"
  by (erule maxFailure.cases) (auto simp: maxInv_def busyOk_def)

lemma maxStep_inv:
  assumes "maxStep codec w w'" "maxInv codec w"
  shows "maxInv codec w'"
  using assms(1)
proof (cases rule: maxStep.cases)
  case (take e es)
  then show ?thesis using assms(2) by (simp, intro maxInv_start[of codec w]) (auto simp: triggered_def)
next
  case (takeRule e es)
  then show ?thesis using assms(2) by (simp, intro maxInv_start[of codec w]) (auto simp: triggered_def)
next
  case failure
  then show ?thesis by (rule maxFailure_inv[OF _ assms(2)])
qed (use assms(2) in \<open>simp_all add: maxInv_call maxInv_rule maxInv_deliver maxInv_plan maxInv_evict\<close>)

lemma maxSteps_inv: "(maxStep codec)\<^sup>*\<^sup>* w w' \<Longrightarrow> maxInv codec w \<Longrightarrow> maxInv codec w'"
  by (induction rule: rtranclp_induct) (auto intro: maxStep_inv)

section \<open>Properties\<close>

definition maxStart :: "jsonCodec \<Rightarrow> maxWorld \<Rightarrow> bool" where
  "maxStart codec w \<longleftrightarrow> mw_unsent w = [] \<and> mw_events w = [] \<and> mw_ruleEvents w = [] \<and> mw_busy w = None \<and> \<not> mw_dropped w \<and>
     deviceInv (mw_store w) \<and> withinLimits codec (mw_store w)"

lemma maxStart_inv: "maxStart codec w \<Longrightarrow> maxInv codec w"
  by (auto simp: maxStart_def maxInv_def busyOk_def withinLimits_def)

text \<open>C8 (invariant). The address limit holds again whenever the dust settles: whatever device and rule
  calls ran, in whatever order their notifications arrived and wherever they interrupted the listener
  between its three statements, as long as no event was dropped from a full channel and no statement of
  the listener failed, no device with an enabled limit rule has more enabled addresses than the limit
  once no notification and no event is left and the listener is idle.\<close>

theorem address_limit_restored:
  assumes "maxStart codec w" and "(maxStep codec)\<^sup>*\<^sup>* w w'" and "\<not> mw_dropped w'"
    and "mw_unsent w' = []" and "mw_events w' = []" and "mw_ruleEvents w' = []" and "mw_busy w' = None"
  shows "withinLimits codec (mw_store w') \<and> deviceInv (mw_store w')"
proof -
  have inv: "maxInv codec w'" by (rule maxSteps_inv[OF assms(2) maxStart_inv[OF assms(1)]])
  have "\<not> triggered w' d" "\<not> covered w' d n" for d n using assms(4-7) by (simp_all add: triggered_def covered_def)
  then show ?thesis using maxInvD(1,3)[OF inv] assms(3) by (simp add: withinLimits_def)
qed

lemma sorted_take_drop: "sorted_wrt P xs \<Longrightarrow> x \<in> set (take k xs) \<Longrightarrow> y \<in> set (drop k xs) \<Longrightarrow> P x y"
  by (metis append_take_drop_id sorted_wrt_append)

lemma enabled_sorted: "GetEnabledAddressesForDevice d s = (Inr as, s) \<Longrightarrow> sorted_wrt (\<lambda>a b. a_UpdatedAt a \<le> a_UpdatedAt b) (rev as)"
proof -
  assume "GetEnabledAddressesForDevice d s = (Inr as, s)"
  then have "sorted (map (\<lambda>a. - a_UpdatedAt a) as)" by (auto simp: GetEnabledAddressesForDevice_def byUpdatedDesc_def)
  then show ?thesis by (simp add: sorted_map sorted_wrt_rev)
qed

lemma unique_address:
  "deviceInv s \<Longrightarrow> a \<in> set (st_addresses s) \<Longrightarrow> b \<in> set (st_addresses s) \<Longrightarrow> a_ID a = a_ID b \<Longrightarrow> a = b"
  using deviceInvD(2) by (meson distinct_map inj_onD)

lemma victims_oldest:
  assumes inv: "deviceInv s" and as: "GetEnabledAddressesForDevice d s = (Inr as, s)" and n: "0 \<le> n"
    and a: "a \<in> set (st_addresses s)" "b \<in> set (st_addresses s)" "a_ID a \<in> set (victims n just as)"
    and b: "a_ID b \<in> enabledIDs s d" "a_ID b \<notin> set (victims n just as)" "a_ID b \<noteq> just"
  shows "a_UpdatedAt a \<le> a_UpdatedAt b"
proof -
  let ?c = "filter (\<lambda>a. a_ID a \<noteq> just) (rev as)" and ?k = "length as - nat n"
  have v: "victims n just as = map a_ID (take ?k ?c)" using victims_eq[OF n] by (simp add: take_map)
  have set_as: "set as \<subseteq> set (st_addresses s)" "a_ID ` set as = enabledIDs s d" using enabled_list[OF inv, of d as] as by auto
  obtain a' where "a' \<in> set (take ?k ?c)" "a_ID a' = a_ID a" using a(3) by (auto simp: v)
  moreover from this have "a' \<in> set as" by (auto dest: in_set_takeD)
  ultimately have at: "a \<in> set (take ?k ?c)" using unique_address[OF inv _ a(1)] set_as(1) by blast
  obtain b' where "b' \<in> set as" "a_ID b' = a_ID b" using b(1) set_as(2) by (metis imageE)
  then have "b \<in> set as" using unique_address[OF inv _ a(2)] set_as(1) by blast
  then have "b \<in> set ?c" using b(3) by simp
  moreover have "b \<notin> set (take ?k ?c)" using b(2) by (auto simp: v)
  ultimately have "b \<in> set (drop ?k ?c)" by (metis Un_iff append_take_drop_id set_append)
  moreover have "sorted_wrt (\<lambda>a b. a_UpdatedAt a \<le> a_UpdatedAt b) ?c" using enabled_sorted[OF as] by (rule sorted_wrt_filter)
  ultimately show ?thesis using sorted_take_drop at by fast
qed

lemma disabled_events: "DisableAddresses now vs source trigger s = (Inr bs, ns, t) \<Longrightarrow> ev_AddressID ` set (addressEvents ns) = set vs"
proof -
  assume h: "DisableAddresses now vs source trigger s = (Inr bs, ns, t)"
  then have ns: "ns = disabledNotices now bs" and r: "repoDisableAddresses False now vs source trigger s = (Inr bs, t)"
    by (simp_all add: DisableAddresses_def notifying_Inr)
  have "map a_ID bs = vs"
  proof (cases "vs = []")
    case False
    then have m: "mapEach (\<lambda>i. recordAddressEvent True now i False source trigger) vs s = (Inr bs, t)"
      using r by (simp add: repoDisableAddresses_def withinTx_Inr)
    from mapEach_disable[OF mapEach_record_ids[OF m], of now source trigger] m show ?thesis by auto
  qed (use r in \<open>simp add: repoDisableAddresses_def\<close>)
  then show ?thesis by (auto simp: ns NewAddressEvent_def image_image)
qed

text \<open>What one run of \<open>enforce\<close> does to a device with limit \<open>n\<close>, in a store that
  satisfies the device invariant. The device is left with exactly \<open>n\<close> enabled addresses if it had more,
  and nothing changes if it had not. The address that was just registered is never disabled. Those that
  are disabled were updated no later than any other that stays, and no other device loses an address.
  Each of them is announced.\<close>

lemma enforce_evicts_oldest:
  assumes "deviceInv s" and "limitOf codec s d = Some n" and "enforce codec now d just s = (ns, s')"
  shows "let out = enabledIDs s d - enabledIDs s' d in
    card (enabledIDs s' d) = min (card (enabledIDs s d)) (nat n) \<and> enabledIDs s' d \<subseteq> enabledIDs s d \<and> just \<notin> out \<and>
    (\<forall>a \<in> set (st_addresses s). \<forall>b \<in> set (st_addresses s). a_ID a \<in> out \<longrightarrow> a_ID b \<in> enabledIDs s' d \<longrightarrow> a_ID b \<noteq> just \<longrightarrow> a_UpdatedAt a \<le> a_UpdatedAt b) \<and>
    (\<forall>d'. d' \<noteq> d \<longrightarrow> enabledIDs s' d' = enabledIDs s d') \<and>
    (card (enabledIDs s d) \<le> nat n \<longrightarrow> s' = s \<and> ns = []) \<and>
    ev_AddressID ` set (addressEvents ns) = out"
proof -
  obtain as where as: "GetEnabledAddressesForDevice d s = (Inr as, s)" by (simp add: GetEnabledAddressesForDevice_def)
  have n: "1 \<le> n" by (rule limitOf_pos[OF assms(2)])
  have run: "enforce codec now d just s = (let vs = victims n just as in if vs = [] then ([], s)
      else snd (DisableAddresses now vs EventSourceLimitExceeded EventTriggerSystem s))"
    using assms(2) as unfolding limitOf_GetMax by (simp add: enforce_def)
  note vic = victims_card[OF assms(1) _ n, of d as just]
  have vic': "set (victims n just as) \<subseteq> enabledIDs s d - {just}"
    "int (card (enabledIDs s d)) \<le> n \<longleftrightarrow> victims n just as = []"
    "n \<le> int (card (enabledIDs s d)) \<Longrightarrow> card (enabledIDs s d - set (victims n just as)) = nat n" using vic as by simp_all
  let ?vs = "victims n just as"
  have sub: "set ?vs \<subseteq> a_ID ` set (st_addresses s)" using vic'(1) by (auto simp: enabledIDs_def)
  obtain bs ns' t where dis: "DisableAddresses now ?vs EventSourceLimitExceeded EventTriggerSystem s = (Inr bs, ns', t)"
    "st_addresses t = map (withState now (set ?vs) False EventSourceLimitExceeded) (st_addresses s)" using DisableAddresses_ok[OF sub] by blast
  have off: "enabledIDs t d' = enabledIDs s d' - set ?vs" for d' by (rule enabledIDs_off[OF assms(1) dis(2)])
  show ?thesis
  proof (cases "?vs = []")
    case True
    then have "ns = []" "s' = s" using assms(3) run by simp_all
    then show ?thesis using vic'(2) True by (simp add: Let_def nat_le_iff min_absorb1 le_nat_iff)
  next
    case False
    then have eq: "ns = ns'" "s' = t" using assms(3) run dis(1) by (simp_all add: Let_def)
    have many: "\<not> int (card (enabledIDs s d)) \<le> n" using vic'(2) False by simp
    have out: "enabledIDs s d - enabledIDs t d = set ?vs" using vic'(1) off by blast
    have others: "enabledIDs t d' = enabledIDs s d'" if "d' \<noteq> d" for d'
    proof -
      have "i \<notin> enabledIDs s d'" if "i \<in> enabledIDs s d" for i
        using that \<open>d' \<noteq> d\<close> deviceInvD(2)[OF assms(1)] by (auto simp: enabledIDs_def distinct_map dest: inj_onD)
      then show ?thesis using off vic'(1) by blast
    qed
    have ev: "ev_AddressID ` set (addressEvents ns') = set ?vs" by (rule disabled_events[OF dis(1)])
    have old: "a_UpdatedAt a \<le> a_UpdatedAt b" if h: "a \<in> set (st_addresses s)" "b \<in> set (st_addresses s)" "a_ID a \<in> set ?vs"
        "a_ID b \<in> enabledIDs t d" "a_ID b \<noteq> just" for a b
      by (rule victims_oldest[OF assms(1) as _ h(1-3)]) (use n h off in auto)
    have "card (enabledIDs t d) = nat n" using vic'(3) many off by simp
    then have cnt: "card (enabledIDs t d) = min (card (enabledIDs s d)) (nat n)" "\<not> card (enabledIDs s d) \<le> nat n" using many n by auto
    show ?thesis unfolding Let_def eq out
    proof (intro conjI ballI allI impI)
      show "enabledIDs t d \<subseteq> enabledIDs s d" using off by blast
      show "just \<notin> set ?vs" using vic'(1) by blast
    qed (use cnt others ev old in blast)+
  qed
qed

definition limitStore :: store where
  "limitStore = deviceStore\<lparr>st_addresses := map (\<lambda>i. \<lparr>a_ID = i, a_DeviceID = 1, a_IP = ''10.0.0.'' @ showInt i, a_IsEnabled = True,
       a_Source = EventSourceHeartbeat, a_CreatedAt = 3, a_UpdatedAt = i\<rparr>) [1, 2, 3],
     st_rules := [\<lparr>r_ID = 1, r_DeviceID = 1, r_RuleType = RuleTypeMaxActiveAddresses, r_Enabled = True,
       r_Config = jc_marshal goCodec maxField 2, r_CreatedAt = 0, r_UpdatedAt = 0\<rparr>]\<rparr>"

lemma limitStore_ok: "deviceInv limitStore" "limitOf goCodec limitStore 1 = Some 2"
  by code_simp+

lemma enforce_evicts_oldest_witness:
  "enabledIDs (snd (enforce goCodec 9 1 1 limitStore)) 1 \<subseteq> enabledIDs limitStore 1 \<and>
   card (enabledIDs (snd (enforce goCodec 9 1 1 limitStore)) 1) = 2 \<and>
   enabledIDs (snd (enforce goCodec 9 1 1 limitStore)) 1 = {1, 3}"
proof -
  have "card (enabledIDs limitStore 1) = 3" "enabledIDs (snd (enforce goCodec 9 1 1 limitStore)) 1 = {1, 3}" by code_simp+
  then show ?thesis using enforce_evicts_oldest[OF limitStore_ok prod.collapse[symmetric], of 9 1] by (simp add: Let_def)
qed

text \<open>A run: a device with three enabled addresses is given a limit of two; the listener evicts the oldest.\<close>

definition limitStart :: maxWorld where
  "limitStart = \<lparr>mw_store = limitStore\<lparr>st_rules := []\<rparr>, mw_unsent = [], mw_events = [], mw_ruleEvents = [], mw_busy = None, mw_dropped = False\<rparr>"

definition limitCalled :: maxWorld where
  "limitCalled = (case EnableMaxActiveAddressesRule goCodec 9 1 2 (mw_store limitStart) of (_, ns, s') \<Rightarrow>
     limitStart\<lparr>mw_store := s', mw_unsent := mw_unsent limitStart @ [ns]\<rparr>)"

definition toldFirst :: "maxWorld \<Rightarrow> maxWorld" where
  "toldFirst w = fold maxaddr_observe (mw_unsent w ! 0) (w\<lparr>mw_unsent := take 0 (mw_unsent w) @ drop (Suc 0) (mw_unsent w)\<rparr>)"

definition limitTaken :: maxWorld where
  "limitTaken = (case mw_ruleEvents (toldFirst limitCalled) of e # es \<Rightarrow>
     startEnforce goCodec (rev_DeviceID e) 0 ((toldFirst limitCalled)\<lparr>mw_ruleEvents := es\<rparr>) | [] \<Rightarrow> limitCalled)"

definition limitEvicted :: maxWorld where
  "limitEvicted = evictStep 9 [1] (planEnforce 1 0 2 limitTaken)"

lemma limitStart_ok: "maxStart goCodec limitStart"
proof -
  have "limitOf goCodec (mw_store limitStart) d = None" for d by (simp add: limitStart_def limitOf_eq ruleOf_def)
  moreover have "deviceInv (mw_store limitStart)" using limitStore_ok(1)
    by (simp add: limitStart_def deviceInv_def liveDevice_def presentDevice_def)
  ultimately show ?thesis by (simp add: maxStart_def withinLimits_def) (simp add: limitStart_def)
qed

lemma limitTaken_state: "mw_unsent limitCalled \<noteq> [] \<and> mw_busy (toldFirst limitCalled) = None \<and> mw_ruleEvents (toldFirst limitCalled) \<noteq> [] \<and>
    mw_busy limitTaken = Some (ReadLimit 1 0 2)"
  by code_simp

lemma limitPlanned_state: "mw_busy (planEnforce 1 0 2 limitTaken) = Some (Evict 1 [1])"
  by code_simp

lemma limitEvicted_state: "mw_unsent limitEvicted \<noteq> [] \<and> \<not> mw_dropped (toldFirst limitEvicted) \<and> mw_unsent (toldFirst limitEvicted) = [] \<and>
    mw_events (toldFirst limitEvicted) = [] \<and> mw_ruleEvents (toldFirst limitEvicted) = [] \<and> mw_busy (toldFirst limitEvicted) = None"
  by code_simp

lemma limitEvicted_reached: "(maxStep goCodec)\<^sup>*\<^sup>* limitStart (toldFirst limitEvicted)"
proof -
  let ?t = "toldFirst limitCalled" and ?p = "planEnforce 1 0 2 limitTaken"
  note taken = limitTaken_state and told = limitEvicted_state
  have "maxStep goCodec limitStart limitCalled"
    using maxStep.rule[OF ruleCall.intros(3), of goCodec 9 1 2 limitStart] unfolding limitCalled_def by (auto split: prod.split)
  then have "(maxStep goCodec)\<^sup>*\<^sup>* limitStart limitCalled" ..
  also have "maxStep goCodec limitCalled ?t" unfolding toldFirst_def by (rule maxStep.deliver) (use taken in simp)
  also have "maxStep goCodec ?t limitTaken"
    using taken maxStep.takeRule[of ?t] by (cases "mw_ruleEvents ?t") (auto simp: limitTaken_def)
  also have "maxStep goCodec limitTaken ?p" by (rule maxStep.plan) (use taken in blast)
  also have "maxStep goCodec ?p limitEvicted" unfolding limitEvicted_def by (rule maxStep.evict[OF limitPlanned_state])
  also have "maxStep goCodec limitEvicted (toldFirst limitEvicted)" unfolding toldFirst_def by (rule maxStep.deliver) (use told in simp)
  finally show ?thesis .
qed

theorem address_limit_restored_witness:
  "card (enabledIDs (mw_store limitCalled) 1) = 3 \<and> limitOf goCodec (mw_store (toldFirst limitEvicted)) 1 = Some 2 \<and>
   card (enabledIDs (mw_store (toldFirst limitEvicted)) 1) \<le> 2"
proof -
  let ?w = "toldFirst limitEvicted"
  have lim: "card (enabledIDs (mw_store limitCalled) 1) = 3" "limitOf goCodec (mw_store ?w) 1 = Some 2" by code_simp+
  have "withinLimits goCodec (mw_store ?w)"
    using address_limit_restored[OF limitStart_ok limitEvicted_reached] limitEvicted_state by simp
  then have "card (enabledIDs (mw_store ?w) 1) \<le> nat 2" using lim(2) unfolding withinLimits_def by blast
  then show ?thesis using lim by simp
qed

end
