(* ===== verification/Base64.thy ===== *)
theory Base64
  imports Go_Strings
begin

text \<open>
  \<open>base64.RawURLEncoding\<close> of Go's standard library, which pairing codes and page cursors are written in: groups of
  three bytes as four digits of the alphabet for URLs, without padding.
\<close>

section \<open>Encoding and decoding\<close>

definition b64digit :: "nat \<Rightarrow> char" where
  "b64digit n = char_of (if n < 26 then 65 + n else if n < 52 then 71 + n else if n < 62 then n - 4 else if n = 62 then 45 else (95::nat))"

fun b64encode :: "string \<Rightarrow> string" where
  "b64encode [] = []"
| "b64encode [a] = [b64digit (byte a div 4), b64digit (byte a mod 4 * 16)]"
| "b64encode [a, b] = [b64digit (byte a div 4), b64digit (byte a mod 4 * 16 + byte b div 16), b64digit (byte b mod 16 * 4)]"
| "b64encode (a # b # c # rest) = b64digit (byte a div 4) # b64digit (byte a mod 4 * 16 + byte b div 16) #
     b64digit (byte b mod 16 * 4 + byte c div 64) # b64digit (byte c mod 64) # b64encode rest"

definition b64value :: "char \<Rightarrow> nat" where
  "b64value c = (if isUpper c then byte c - 65 else if isLower c then byte c - 71 else if isDigit c then byte c + 4
     else if byte c = 45 then 62 else 63)"

fun b64decode :: "string \<Rightarrow> string" where
  "b64decode (p # q # r # t # rest) = char_of (b64value p * 4 + b64value q div 16) # char_of (b64value q mod 16 * 16 + b64value r div 4) #
     char_of (b64value r mod 4 * 64 + b64value t) # b64decode rest"
| "b64decode [p, q, r] = [char_of (b64value p * 4 + b64value q div 16), char_of (b64value q mod 16 * 16 + b64value r div 4)]"
| "b64decode [p, q] = [char_of (b64value p * 4 + b64value q div 16)]"
| "b64decode _ = []"

text \<open>\<open>DecodeString\<close> skips line breaks and refuses other bytes and incomplete groups.\<close>

definition isB64 :: "char \<Rightarrow> bool" where
  "isB64 c \<longleftrightarrow> isUpper c \<or> isLower c \<or> isDigit c \<or> byte c = 45 \<or> byte c = 95"

definition DecodeString :: "string \<Rightarrow> string option" where
  "DecodeString s = (let t = filter (\<lambda>c. byte c \<noteq> 10 \<and> byte c \<noteq> 13) s in
     if list_all isB64 t \<and> length t mod 4 \<noteq> 1 then Some (b64decode t) else None)"

section \<open>The round trip\<close>

lemma b64value_digit [simp]: "n < 64 \<Longrightarrow> b64value (b64digit n) = n"
proof -
  assume n: "n < 64"
  have "\<forall>n \<in> {0..<64}. b64value (b64digit n) = n" by code_simp
  then show ?thesis using n by simp
qed

lemma mul_add_div [simp]: "b < (k::nat) \<Longrightarrow> (a * k + b) div k = a" "b < (k::nat) \<Longrightarrow> (a * k + b) mod k = b"
  by (simp_all add: add.commute)

lemma byte_div: "byte a div 4 < 64" "byte b div 16 < 16" "byte c div 64 < 4"
  using byte_lt[of a] byte_lt[of b] byte_lt[of c] by auto

lemma char_of_byte [simp]: "char_of (byte a) = a"
  by (simp add: byte_def)

lemma b64_roundtrip: "b64decode (b64encode bs) = bs"
proof (induction bs rule: b64encode.induct)
  case (3 a b)
  have "byte a mod 4 * 16 + byte b div 16 < 64" using byte_div(2)[of b] by linarith
  then show ?case using byte_div(1)[of a] byte_div(2)[of b] by (simp add: div_mult_mod_eq)
next
  case (4 a b c rest)
  have "byte a mod 4 * 16 + byte b div 16 < 64" "byte b mod 16 * 4 + byte c div 64 < 64" using byte_div(2)[of b] byte_div(3)[of c] by linarith+
  then show ?case using 4 byte_div(1)[of a] byte_div(2)[of b] byte_div(3)[of c] by (simp add: div_mult_mod_eq)
qed (use byte_div in \<open>auto simp: div_mult_mod_eq\<close>)

lemma byte_b64digit:
  "n < 64 \<Longrightarrow> byte (b64digit n) = (if n < 26 then 65 + n else if n < 52 then 71 + n else if n < 62 then n - 4 else if n = 62 then 45 else 95)"
  by (simp add: b64digit_def byte_char_of)

lemma isB64_digit: "n < 64 \<Longrightarrow> isB64 (b64digit n) \<and> byte (b64digit n) \<noteq> 10 \<and> byte (b64digit n) \<noteq> 13"
  by (simp add: isB64_def isUpper_def isLower_def isDigit_def byte_b64digit) arith

lemma encode_digits: "list_all (\<lambda>c. isB64 c \<and> byte c \<noteq> 10 \<and> byte c \<noteq> 13) (b64encode bs) \<and> length (b64encode bs) mod 4 \<noteq> 1"
proof (induction bs rule: b64encode.induct)
  case (3 a b)
  have "byte a mod 4 * 16 + byte b div 16 < 64" "byte b mod 16 * 4 < 64" using byte_div(2)[of b] by linarith+
  then show ?case using byte_div(1)[of a] by (simp add: isB64_digit)
next
  case (4 a b c rest)
  have "byte a mod 4 * 16 + byte b div 16 < 64" "byte b mod 16 * 4 + byte c div 64 < 64" using byte_div(2)[of b] byte_div(3)[of c] by linarith+
  then have "isB64 (b64digit (byte a mod 4 * 16 + byte b div 16)) \<and> byte (b64digit (byte a mod 4 * 16 + byte b div 16)) \<notin> {10, 13}"
    "isB64 (b64digit (byte b mod 16 * 4 + byte c div 64)) \<and> byte (b64digit (byte b mod 16 * 4 + byte c div 64)) \<notin> {10, 13}"
    using isB64_digit by simp_all
  moreover have "isB64 (b64digit (byte a div 4)) \<and> byte (b64digit (byte a div 4)) \<notin> {10, 13}" using isB64_digit byte_div(1)[of a] by simp
  moreover have "isB64 (b64digit (byte c mod 64)) \<and> byte (b64digit (byte c mod 64)) \<notin> {10, 13}" using isB64_digit[of "byte c mod 64"] by simp
  moreover have "length (b64encode (a # b # c # rest)) mod 4 = length (b64encode rest) mod 4" by simp
  ultimately show ?case using 4 by (simp del: length_Cons list.size)
qed (use byte_div(1) in \<open>auto simp: isB64_digit\<close>)

lemma DecodeString_encode: "DecodeString (b64encode bs) = Some bs"
proof -
  have "filter (\<lambda>c. byte c \<noteq> 10 \<and> byte c \<noteq> 13) (b64encode bs) = b64encode bs"
    using encode_digits[of bs] by (intro filter_True) (auto simp: list_all_iff)
  then show ?thesis using encode_digits[of bs] by (simp add: DecodeString_def list_all_iff b64_roundtrip)
qed

end
