(* ===== verification/Pairing.thy ===== *)
theory Pairing
  imports Device_Access Base64
begin

text \<open>
  Pairing of devices with the phone app (\<open>src/internal/devicepairing\<close>): an administrator creates a code for a
  device, the app redeems it once for its settings and a new API key.

  The code is the base64 text of 32 random bytes and the server's address; the random bytes are an argument; theory
  \<open>Base64\<close> has the encoding. A row stays \<open>pending\<close> in the database when it expires; \<open>EvalStatus\<close> reads it as
  expired. Claiming regenerates the API key inside the same transaction, so a nested rollback is also one of the whole.
\<close>

section \<open>Pairing codes\<close>

definition generatePairingCode :: "string option \<Rightarrow> string \<Rightarrow> (err, string \<times> string) result" where
  "generatePairingCode random serverURL = (case random of None \<Rightarrow> Inl DBError
     | Some rawToken \<Rightarrow> Inr (b64encode (rawToken @ serverURL), rawToken))"

section \<open>Pairings\<close>

datatype PairingStatus = StatusPending | StatusUsed | StatusExpired | StatusInvalidated | StatusReplaced

fun storedStatus :: "storedPairingStatus \<Rightarrow> PairingStatus" where
  "storedStatus storedPending = StatusPending"
| "storedStatus storedUsed = StatusUsed"
| "storedStatus storedInvalidated = StatusInvalidated"
| "storedStatus storedReplaced = StatusReplaced"

definition EvalStatus :: "time \<Rightarrow> storedPairingStatus \<Rightarrow> time \<Rightarrow> PairingStatus" where
  "EvalStatus now stored expiresAt = (if stored = storedPending \<and> now > expiresAt then StatusExpired else storedStatus stored)"

record DevicePairing =
  dp_ID :: id
  dp_DeviceID :: id
  dp_PairingCode :: string
  dp_HeartbeatServerURL :: string
  dp_HeartbeatIntervalSeconds :: int
  dp_AppBiometricEnabled :: bool
  dp_AppSettingsLocked :: bool
  dp_ExpiresAt :: time
  dp_CreatedAt :: time
  dp_UpdatedAt :: time
  dp_Status :: PairingStatus

definition fromRow :: "time \<Rightarrow> pairingRow \<Rightarrow> DevicePairing" where
  "fromRow now r = \<lparr>dp_ID = pr_ID r, dp_DeviceID = pr_DeviceID r, dp_PairingCode = pr_PairingCode r,
     dp_HeartbeatServerURL = pr_HeartbeatServerURL r, dp_HeartbeatIntervalSeconds = pr_HeartbeatIntervalSeconds r,
     dp_AppBiometricEnabled = pr_AppBiometricEnabled r, dp_AppSettingsLocked = pr_AppSettingsLocked r,
     dp_ExpiresAt = pr_ExpiresAt r, dp_CreatedAt = pr_CreatedAt r, dp_UpdatedAt = pr_UpdatedAt r,
     dp_Status = EvalStatus now (pr_Status r) (pr_ExpiresAt r)\<rparr>"

record ClaimResult =
  cl_ServerURL :: string
  cl_IntervalSeconds :: int
  cl_AppBiometricEnabled :: bool
  cl_AppSettingsLocked :: bool
  cl_RawAPIKey :: string

definition ToClaimResult :: "DevicePairing \<Rightarrow> string \<Rightarrow> ClaimResult" where
  "ToClaimResult p rawAPIKey = \<lparr>cl_ServerURL = dp_HeartbeatServerURL p, cl_IntervalSeconds = dp_HeartbeatIntervalSeconds p,
     cl_AppBiometricEnabled = dp_AppBiometricEnabled p, cl_AppSettingsLocked = dp_AppSettingsLocked p, cl_RawAPIKey = rawAPIKey\<rparr>"

record CreatePairingRequest =
  cr_DeviceID :: id
  cr_HeartbeatServerURL :: string
  cr_IntervalSeconds :: int
  cr_AppBiometricEnabled :: bool
  cr_AppSettingsLocked :: bool
  cr_ExpiresInHours :: int
  cr_ExpiresAt :: time
  cr_PairingCode :: string

definition addPairingCode :: "string option \<Rightarrow> time \<Rightarrow> CreatePairingRequest \<Rightarrow> (err, CreatePairingRequest) result" where
  "addPairingCode random now c = (case generatePairingCode random (cr_HeartbeatServerURL c) of Inl e \<Rightarrow> Inl e
     | Inr (code, _) \<Rightarrow> Inr (c\<lparr>cr_PairingCode := code, cr_ExpiresAt := now + wrap64 (cr_ExpiresInHours c * 3600000000000)\<rparr>))"

record PairingFilter =
  pf_DeviceID :: id
  pf_IncludeAll :: bool

section \<open>Queries\<close>

definition repoCreatePairing :: "time \<Rightarrow> CreatePairingRequest \<Rightarrow> DevicePairing op" where
  "repoCreatePairing now req s =
    (if cr_PairingCode req \<in> pr_PairingCode ` set (st_pairings s) then throw DBError s
     else if cr_DeviceID req \<notin> d_ID ` set (st_devices s) then throw DBError s
     else let row = \<lparr>pr_ID = nextID (map pr_ID (st_pairings s)), pr_DeviceID = cr_DeviceID req, pr_PairingCode = cr_PairingCode req,
                pr_HeartbeatServerURL = cr_HeartbeatServerURL req, pr_HeartbeatIntervalSeconds = cr_IntervalSeconds req,
                pr_AppBiometricEnabled = cr_AppBiometricEnabled req, pr_AppSettingsLocked = cr_AppSettingsLocked req,
                pr_ExpiresAt = cr_ExpiresAt req, pr_CreatedAt = sqlNow now, pr_UpdatedAt = sqlNow now, pr_Status = storedPending\<rparr>
          in ret (fromRow now row) (s\<lparr>st_pairings := st_pairings s @ [row]\<rparr>))"

definition GetPairingByCode :: "time \<Rightarrow> string \<Rightarrow> DevicePairing op" where
  "GetPairingByCode now code s = (case List.find (\<lambda>r. pr_PairingCode r = code) (st_pairings s) of
     None \<Rightarrow> throw (PairingErr ErrPairingNotFound) s | Some r \<Rightarrow> ret (fromRow now r) s)"

definition repoListPairings :: "time \<Rightarrow> PairingFilter \<Rightarrow> DevicePairing list op" where
  "repoListPairings now f = get (\<lambda>s. map (fromRow now) (sort_key (\<lambda>r. - pr_CreatedAt r)
     (filter (\<lambda>r. pr_DeviceID r = pf_DeviceID f \<and>
        (pf_IncludeAll f \<or> pr_Status r = storedPending \<and> sqlNow now \<le> pr_ExpiresAt r)) (st_pairings s))))"

definition setStatus :: "time \<Rightarrow> storedPairingStatus \<Rightarrow> (pairingRow \<Rightarrow> bool) \<Rightarrow> store \<Rightarrow> store" where
  "setStatus now status P s = s\<lparr>st_pairings := map (\<lambda>r. if P r then r\<lparr>pr_Status := status, pr_UpdatedAt := sqlNow now\<rparr> else r) (st_pairings s)\<rparr>"

definition ReplacePendingPairings :: "time \<Rightarrow> id \<Rightarrow> unit op" where
  "ReplacePendingPairings now deviceID = modify (setStatus now storedReplaced (\<lambda>r. pr_DeviceID r = deviceID \<and> pr_Status r = storedPending))"

definition repoInvalidatePairing :: "time \<Rightarrow> id \<Rightarrow> id \<Rightarrow> unit op" where
  "repoInvalidatePairing now deviceID i s =
    (let P = (\<lambda>r. pr_ID r = i \<and> pr_DeviceID r = deviceID \<and> pr_Status r = storedPending) in
     if \<not> list_ex P (st_pairings s) then throw (PairingErr ErrPairingNotFound) s
     else ret () (setStatus now storedInvalidated P s))"

definition repoClaimPairing :: "time \<Rightarrow> id \<Rightarrow> DevicePairing op" where
  "repoClaimPairing now i s = (case List.find (\<lambda>r. pr_ID r = i) (st_pairings s) of None \<Rightarrow> throw DBError s
     | Some r \<Rightarrow> ret (fromRow now (r\<lparr>pr_Status := storedUsed, pr_UpdatedAt := sqlNow now\<rparr>)) (setStatus now storedUsed (\<lambda>r. pr_ID r = i) s))"

section \<open>The service\<close>

definition CreatePairing :: "string option \<Rightarrow> time \<Rightarrow> CreatePairingRequest \<Rightarrow> DevicePairing op" where
  "CreatePairing random now req = andThen (liftE (\<lambda>e. e) (addPairingCode random now req)) (\<lambda>req.
     withinTx False (andThen (ReplacePendingPairings now (cr_DeviceID req)) (\<lambda>_. repoCreatePairing now req)))"

definition ListPairings :: "time \<Rightarrow> PairingFilter \<Rightarrow> DevicePairing list op" where
  "ListPairings now f = repoListPairings now f"

definition ClaimPairing :: "(string \<Rightarrow> string) \<Rightarrow> string option \<Rightarrow> time \<Rightarrow> string \<Rightarrow> ClaimResult op" where
  "ClaimPairing hash random now code = withinTx False
    (andThen (GetPairingByCode now code) (\<lambda>pairing.
      if dp_Status pairing \<noteq> StatusPending then throw (PairingErr ErrPairingNotClaimable)
      else if \<not> dp_ExpiresAt pairing > now then throw (PairingErr ErrPairingExpired)
      else andThen (RegenerateAPIKey hash random now (dp_DeviceID pairing)) (\<lambda>(_, rawAPIKey).
        andThen (repoClaimPairing now (dp_ID pairing)) (\<lambda>claimedPairing. ret (ToClaimResult claimedPairing rawAPIKey)))))"

definition InvalidatePairing :: "time \<Rightarrow> id \<Rightarrow> id \<Rightarrow> unit op" where
  "InvalidatePairing now deviceID i = repoInvalidatePairing now deviceID i"

section \<open>The latest pairing of each device\<close>

definition laterPairing :: "pairingRow \<Rightarrow> pairingRow \<Rightarrow> bool" where
  "laterPairing a b \<longleftrightarrow> pr_CreatedAt b < pr_CreatedAt a \<or> pr_CreatedAt b = pr_CreatedAt a \<and> pr_ID b < pr_ID a"

definition PairingsForDevices :: "time \<Rightarrow> id list \<Rightarrow> (id \<times> PairingStatus \<times> time) list op" where
  "PairingsForDevices now deviceIDs = get (\<lambda>s. map (\<lambda>r. (pr_DeviceID r, EvalStatus now (pr_Status r) (pr_ExpiresAt r), pr_ExpiresAt r))
     (filter (\<lambda>r. pr_DeviceID r \<in> set deviceIDs \<and> \<not> list_ex (\<lambda>b. pr_DeviceID b = pr_DeviceID r \<and> laterPairing b r) (st_pairings s)) (st_pairings s)))"

section \<open>One open pairing per device\<close>

definition pairingInv :: "store \<Rightarrow> bool" where
  "pairingInv s \<longleftrightarrow> distinct (map pr_ID (st_pairings s)) \<and> distinct (map pr_PairingCode (st_pairings s)) \<and>
     distinct (map pr_DeviceID (filter (\<lambda>r. pr_Status r = storedPending) (st_pairings s)))"

text \<open>The abstract state: what is open for each device.\<close>

type_synonym slots = "id \<Rightarrow> pairingRow option"

definition openPairing :: "store \<Rightarrow> slots" where
  "openPairing s d = List.find (\<lambda>r. pr_DeviceID r = d \<and> pr_Status r = storedPending) (st_pairings s)"

definition specCreate :: "CreatePairingRequest \<Rightarrow> pairingRow \<Rightarrow> slots \<Rightarrow> slots" where
  "specCreate req r m = m(cr_DeviceID req \<mapsto> r)"

definition specInvalidate :: "id \<Rightarrow> id \<Rightarrow> slots \<Rightarrow> (err, unit) result \<times> slots" where
  "specInvalidate d i m = (case m d of None \<Rightarrow> (Inl (PairingErr ErrPairingNotFound), m)
     | Some r \<Rightarrow> if pr_ID r = i then (Inr (), m(d := None)) else (Inl (PairingErr ErrPairingNotFound), m))"

definition claimable :: "time \<Rightarrow> string \<Rightarrow> slots \<Rightarrow> id \<Rightarrow> pairingRow \<Rightarrow> bool" where
  "claimable now code m d r \<longleftrightarrow> m d = Some r \<and> pr_PairingCode r = code \<and> now < pr_ExpiresAt r"

lemma openPairing_iff:
  assumes "pairingInv s"
  shows "openPairing s d = Some r \<longleftrightarrow> r \<in> set (st_pairings s) \<and> pr_DeviceID r = d \<and> pr_Status r = storedPending"
proof
  assume r: "r \<in> set (st_pairings s) \<and> pr_DeviceID r = d \<and> pr_Status r = storedPending"
  have "inj_on pr_DeviceID (set (filter (\<lambda>r. pr_Status r = storedPending) (st_pairings s)))"
    using assms unfolding pairingInv_def distinct_map by blast
  then show "openPairing s d = Some r" using r unfolding openPairing_def
    by (intro find_unique) (auto dest: inj_onD)
qed (auto simp: openPairing_def dest: find_SomeD)

lemma slots_eqI: "(\<And>d r. m d = Some r \<longleftrightarrow> m' d = Some r) \<Longrightarrow> m = m'"
  by (rule ext) (metis not_None_eq)

lemma setStatus_sel [simp]:
  "map pr_ID (st_pairings (setStatus now status P s)) = map pr_ID (st_pairings s)"
  "map pr_PairingCode (st_pairings (setStatus now status P s)) = map pr_PairingCode (st_pairings s)"
  "st_devices (setStatus now status P s) = st_devices s" "st_apiKeys (setStatus now status P s) = st_apiKeys s"
  by (auto simp: setStatus_def)

lemma setStatus_pending:
  assumes "status \<noteq> storedPending"
  shows "filter (\<lambda>r. pr_Status r = storedPending) (st_pairings (setStatus now status P s)) =
    filter (\<lambda>r. \<not> P r) (filter (\<lambda>r. pr_Status r = storedPending) (st_pairings s))"
proof -
  have "filter (\<lambda>r. pr_Status r = storedPending) (map (\<lambda>r. if P r then r\<lparr>pr_Status := status, pr_UpdatedAt := sqlNow now\<rparr> else r) rs) =
    filter (\<lambda>r. \<not> P r) (filter (\<lambda>r. pr_Status r = storedPending) rs)" for rs :: "pairingRow list"
    using assms by (induction rs) simp_all
  then show ?thesis by (simp add: setStatus_def)
qed

lemma setStatus_inv:
  assumes "pairingInv s" "status \<noteq> storedPending"
  shows "pairingInv (setStatus now status P s)"
  using assms(1) distinct_map_filter[of pr_DeviceID "filter (\<lambda>r. pr_Status r = storedPending) (st_pairings s)" "\<lambda>r. \<not> P r"]
  unfolding pairingInv_def setStatus_pending[OF assms(2)] setStatus_sel by blast

lemma setStatus_open:
  assumes "pairingInv s" "status \<noteq> storedPending"
  shows "openPairing (setStatus now status P s) d = Some r \<longleftrightarrow> openPairing s d = Some r \<and> \<not> P r"
proof -
  have "r \<in> set (st_pairings (setStatus now status P s)) \<and> pr_Status r = storedPending \<longleftrightarrow>
      r \<in> set (st_pairings s) \<and> pr_Status r = storedPending \<and> \<not> P r"
    using arg_cong[OF setStatus_pending[OF assms(2), of now P s], of set] by auto
  then show ?thesis unfolding openPairing_iff[OF assms(1)] openPairing_iff[OF setStatus_inv[OF assms]] by auto
qed

lemma CreatePairing_Inr:
  assumes "CreatePairing (Some raw) now req s = (Inr p, t)" "pairingInv s"
  shows "\<exists>r. p = fromRow now r \<and> pr_DeviceID r = cr_DeviceID req \<and> pr_PairingCode r = b64encode (raw @ cr_HeartbeatServerURL req) \<and>
    pr_Status r = storedPending \<and> pr_ExpiresAt r = now + wrap64 (cr_ExpiresInHours req * 3600000000000) \<and>
    pr_HeartbeatServerURL r = cr_HeartbeatServerURL req \<and> pr_HeartbeatIntervalSeconds r = cr_IntervalSeconds req \<and>
    pr_AppBiometricEnabled r = cr_AppBiometricEnabled req \<and> pr_AppSettingsLocked r = cr_AppSettingsLocked req \<and>
    pr_ID r \<notin> pr_ID ` set (st_pairings s) \<and> pr_PairingCode r \<notin> pr_PairingCode ` set (st_pairings s) \<and>
    t = (let u = setStatus now storedReplaced (\<lambda>r. pr_DeviceID r = cr_DeviceID req \<and> pr_Status r = storedPending) s
      in u\<lparr>st_pairings := st_pairings u @ [r]\<rparr>)"
proof -
  let ?u = "setStatus now storedReplaced (\<lambda>r. pr_DeviceID r = cr_DeviceID req \<and> pr_Status r = storedPending) s"
  have codes: "pr_PairingCode ` set (st_pairings ?u) = pr_PairingCode ` set (st_pairings s)" "pr_ID ` set (st_pairings ?u) = pr_ID ` set (st_pairings s)"
    unfolding set_map[symmetric] by simp_all
  show ?thesis using assms(1) nextID_fresh[of "map pr_ID (st_pairings s)"]
    unfolding CreatePairing_def addPairingCode_def generatePairingCode_def andThen_def[of "liftE _ _"] liftE_def
    by (auto simp: withinTx_Inr ReplacePendingPairings_def repoCreatePairing_def Let_def codes split: if_splits)
qed

lemma create_open:
  assumes "pairingInv s" "pr_ID r \<notin> pr_ID ` set (st_pairings s)" "pr_PairingCode r \<notin> pr_PairingCode ` set (st_pairings s)"
    "pr_Status r = storedPending"
    and t: "t = (let u = setStatus now storedReplaced (\<lambda>x. pr_DeviceID x = pr_DeviceID r \<and> pr_Status x = storedPending) s in u\<lparr>st_pairings := st_pairings u @ [r]\<rparr>)"
  shows "pairingInv t" "openPairing t = (openPairing s)(pr_DeviceID r \<mapsto> r)"
proof -
  let ?P = "\<lambda>x. pr_DeviceID x = pr_DeviceID r \<and> pr_Status x = storedPending"
  let ?u = "setStatus now storedReplaced ?P s"
  have sel: "pr_PairingCode ` set (st_pairings ?u) = pr_PairingCode ` set (st_pairings s)" "pr_ID ` set (st_pairings ?u) = pr_ID ` set (st_pairings s)"
    unfolding set_map[symmetric] by simp_all
  have rows: "st_pairings t = st_pairings ?u @ [r]" using t by (simp add: Let_def)
  have u: "pairingInv ?u" using setStatus_inv[OF assms(1)] by simp
  have "pr_DeviceID r \<notin> pr_DeviceID ` set (filter (\<lambda>r. pr_Status r = storedPending) (st_pairings ?u))"
    by (subst setStatus_pending) auto
  then show inv: "pairingInv t" using u assms(2-4) sel unfolding pairingInv_def rows by simp
  show "openPairing t = (openPairing s)(pr_DeviceID r \<mapsto> r)"
  proof (rule slots_eqI)
    fix d x
    have "openPairing t d = Some x \<longleftrightarrow> openPairing ?u d = Some x \<or> x = r \<and> pr_DeviceID r = d"
      unfolding openPairing_iff[OF inv] openPairing_iff[OF u] rows using assms(4) by auto
    also have "openPairing ?u d = Some x \<longleftrightarrow> openPairing s d = Some x \<and> \<not> ?P x" by (rule setStatus_open[OF assms(1)]) simp
    finally show "openPairing t d = Some x \<longleftrightarrow> ((openPairing s)(pr_DeviceID r \<mapsto> r)) d = Some x"
      using openPairing_iff[OF assms(1), of d x] by auto
  qed
qed

lemma close_open:
  assumes "pairingInv s" "openPairing s d = Some r" "status \<noteq> storedPending" "\<And>x. openPairing s (pr_DeviceID x) = Some x \<Longrightarrow> P x \<longleftrightarrow> x = r"
  shows "openPairing (setStatus now status P s) = (openPairing s)(d := None)"
proof (rule slots_eqI)
  fix d' x
  have "openPairing s d' = Some x \<Longrightarrow> pr_DeviceID x = d'" using openPairing_iff[OF assms(1)] by simp
  then show "openPairing (setStatus now status P s) d' = Some x \<longleftrightarrow> ((openPairing s)(d := None)) d' = Some x"
    unfolding setStatus_open[OF assms(1,3)] using assms(2,4) openPairing_iff[OF assms(1), of d r] by auto
qed

lemma unique_pairing:
  "pairingInv s \<Longrightarrow> r \<in> set (st_pairings s) \<Longrightarrow> x \<in> set (st_pairings s) \<Longrightarrow> pr_ID x = pr_ID r \<or> pr_PairingCode x = pr_PairingCode r \<Longrightarrow> x = r"
  unfolding pairingInv_def distinct_map by (auto dest: inj_onD)

lemma Invalidate_refines:
  assumes "pairingInv s" "InvalidatePairing now d i s = (res, t)"
  shows "pairingInv t" "(res, openPairing t) = specInvalidate d i (openPairing s)"
proof -
  let ?P = "\<lambda>r. pr_ID r = i \<and> pr_DeviceID r = d \<and> pr_Status r = storedPending"
  have ex: "list_ex ?P (st_pairings s) \<longleftrightarrow> (\<exists>r. openPairing s d = Some r \<and> pr_ID r = i)"
    using openPairing_iff[OF assms(1)] by (auto simp: list_ex_iff)
  show "pairingInv t" using assms setStatus_inv[OF assms(1)] by (auto simp: InvalidatePairing_def repoInvalidatePairing_def Let_def split: if_splits)
  show "(res, openPairing t) = specInvalidate d i (openPairing s)"
  proof (cases "list_ex ?P (st_pairings s)")
    case True
    then obtain r where r: "openPairing s d = Some r" "pr_ID r = i" using ex by blast
    note row = r(1)[unfolded openPairing_iff[OF assms(1)]]
    have "openPairing (setStatus now storedInvalidated ?P s) = (openPairing s)(d := None)"
    proof (rule close_open[OF assms(1) r(1)])
      fix x assume "openPairing s (pr_DeviceID x) = Some x"
      then show "?P x \<longleftrightarrow> x = r" using unique_pairing[OF assms(1), of r x] row r(2) unfolding openPairing_iff[OF assms(1)] by auto
    qed simp
    then show ?thesis using True assms(2) r by (simp add: InvalidatePairing_def repoInvalidatePairing_def Let_def specInvalidate_def)
  next
    case False
    then show ?thesis using ex assms(2) by (auto simp: InvalidatePairing_def repoInvalidatePairing_def Let_def specInvalidate_def split: option.splits)
  qed
qed

lemma Regenerate_pairings:
  assumes "RegenerateAPIKey hash random now i s = (r, t)"
  shows "st_pairings t = st_pairings s"
proof -
  let ?I = "\<lambda>t. st_pairings t = st_pairings s"
  have get: "keeps ?I (repoGetDevice i)" by (rule keeps_readonly) (simp add: repoGetDevice_def split: option.splits)
  have up: "keeps ?I (UpsertAPIKey now i h p)" for h p by (rule keepsI) (simp add: UpsertAPIKey_def Let_def)
  have lift: "keeps ?I (liftE e x)" for e :: "err \<Rightarrow> err" and x :: "(err, string \<times> string \<times> string) result"
    by (rule keeps_readonly) (simp add: liftE_def split: sum.splits)
  have "keeps ?I (RegenerateAPIKey hash random now i)" unfolding RegenerateAPIKey_def
    by (intro keeps_andThen lift) (auto intro!: inv_intros get up split: prod.split)
  from keepsD[OF this _ assms] show ?thesis by simp
qed

lemma Claim_Inr:
  assumes "ClaimPairing hash random now code s = (Inr c, t)" "pairingInv s"
  shows "\<exists>d r dev key u. claimable now code (openPairing s) d r \<and> RegenerateAPIKey hash random now d s = (Inr (dev, key), u) \<and>
    c = ToClaimResult (fromRow now r) key \<and> t = setStatus now storedUsed (\<lambda>x. pr_ID x = pr_ID r) u"
proof -
  from assms(1) obtain p where p: "GetPairingByCode now code s = (Inr p, s)" "dp_Status p = StatusPending" "now < dp_ExpiresAt p"
    "andThen (RegenerateAPIKey hash random now (dp_DeviceID p)) (\<lambda>(_, rawAPIKey).
        andThen (repoClaimPairing now (dp_ID p)) (\<lambda>claimedPairing. ret (ToClaimResult claimedPairing rawAPIKey))) s = (Inr c, t)"
    unfolding ClaimPairing_def withinTx_Inr
    by (cases "GetPairingByCode now code s"; cases "fst (GetPairingByCode now code s)")
      (auto simp: andThen_def[of "GetPairingByCode _ _"] GetPairingByCode_def split: if_splits option.splits)
  obtain r where r: "List.find (\<lambda>r. pr_PairingCode r = code) (st_pairings s) = Some r" "p = fromRow now r"
    using p(1) by (auto simp: GetPairingByCode_def split: option.splits)
  note row = find_SomeD[OF r(1)]
  have pending: "pr_Status r = storedPending" using p(2) r(2) by (cases "pr_Status r") (auto simp: fromRow_def EvalStatus_def split: if_splits)
  obtain dev key u where u: "RegenerateAPIKey hash random now (pr_DeviceID r) s = (Inr (dev, key), u)"
    and rest: "andThen (repoClaimPairing now (pr_ID r)) (\<lambda>claimedPairing. ret (ToClaimResult claimedPairing key)) u = (Inr c, t)"
    using p(4) r(2) by (elim andThen_InrD) (auto simp: fromRow_def)
  have "List.find (\<lambda>x. pr_ID x = pr_ID r) (st_pairings u) = Some r"
    unfolding Regenerate_pairings[OF u] using unique_pairing[OF assms(2) row(1)] row(1) by (intro find_unique) auto
  then have "c = ToClaimResult (fromRow now r) key" "t = setStatus now storedUsed (\<lambda>x. pr_ID x = pr_ID r) u"
    using rest by (auto simp: andThen_def repoClaimPairing_def ToClaimResult_def fromRow_def)
  moreover have "claimable now code (openPairing s) (pr_DeviceID r) r"
    using row pending p(3) r(2) openPairing_iff[OF assms(2)] by (simp add: claimable_def fromRow_def)
  ultimately show ?thesis using u by blast
qed

lemma Claim_refines:
  assumes "pairingInv s" "ClaimPairing hash random now code s = (Inr c, t)"
  shows "pairingInv t" "\<exists>d r key. claimable now code (openPairing s) d r \<and> c = ToClaimResult (fromRow now r) key \<and> openPairing t = (openPairing s)(d := None)"
proof -
  obtain d r dev key u where r: "claimable now code (openPairing s) d r" "RegenerateAPIKey hash random now d s = (Inr (dev, key), u)"
    "c = ToClaimResult (fromRow now r) key" "t = setStatus now storedUsed (\<lambda>x. pr_ID x = pr_ID r) u" using Claim_Inr[OF assms(2,1)] by blast
  have rows: "st_pairings u = st_pairings s" using Regenerate_pairings[OF r(2)] .
  then have u: "pairingInv u" "openPairing u = openPairing s" using assms(1) by (simp_all add: pairingInv_def openPairing_def[abs_def])
  then show "pairingInv t" unfolding r(4) by (simp add: setStatus_inv)
  have slot: "openPairing u d = Some r" using r(1) u(2) by (simp add: claimable_def)
  have "openPairing t = (openPairing u)(d := None)" unfolding r(4)
  proof (rule close_open[OF u(1) slot])
    fix x assume "openPairing u (pr_DeviceID x) = Some x"
    then show "pr_ID x = pr_ID r \<longleftrightarrow> x = r" using slot unique_pairing[OF u(1), of r x] unfolding openPairing_iff[OF u(1)] by auto
  qed simp
  then show "\<exists>d r key. claimable now code (openPairing s) d r \<and> c = ToClaimResult (fromRow now r) key \<and> openPairing t = (openPairing s)(d := None)"
    using r(1,3) u(2) by auto
qed

text \<open>What is not open is refused with an error of its own.\<close>

lemma Claim_refused:
  assumes "pairingInv s" "\<nexists>d r. claimable now code (openPairing s) d r"
  shows "\<exists>e. ClaimPairing hash random now code s = (Inl (PairingErr e), s)"
proof (cases "List.find (\<lambda>r. pr_PairingCode r = code) (st_pairings s)")
  case None
  then show ?thesis by (simp add: ClaimPairing_def withinTx_def andThen_def GetPairingByCode_def)
next
  case (Some r)
  note row = find_SomeD[OF Some]
  have "pr_Status r \<noteq> storedPending \<or> pr_ExpiresAt r \<le> now"
    using assms(2) row openPairing_iff[OF assms(1), of "pr_DeviceID r" r] unfolding claimable_def by force
  then have "EvalStatus now (pr_Status r) (pr_ExpiresAt r) \<noteq> StatusPending \<or> pr_ExpiresAt r \<le> now"
    by (cases "pr_Status r") (auto simp: EvalStatus_def)
  then show ?thesis using Some by (auto simp: ClaimPairing_def withinTx_def andThen_def[of "GetPairingByCode _ _"] GetPairingByCode_def fromRow_def)
qed

text \<open>C15 (refinement). To its clients the pairing service is a slot per device: creating fills the slot of the
  device and drops what was in it, invalidating empties it when the key matches and is refused otherwise, and
  claiming a code answers from the slot that holds it unexpired and empties that slot; when no slot does, it is refused and
  nothing changes. Every call keeps the keys and codes unique and at most one open pairing per device.\<close>

theorem pairing_refines_slots:
  assumes "pairingInv s"
  shows "(CreatePairing random now req s = (Inr p, t) \<longrightarrow>
      pairingInv t \<and> (\<exists>r. p = fromRow now r \<and> pr_DeviceID r = cr_DeviceID req \<and> openPairing t = specCreate req r (openPairing s))) \<and>
    (InvalidatePairing now d i s = (res, t) \<longrightarrow> pairingInv t \<and> (res, openPairing t) = specInvalidate d i (openPairing s)) \<and>
    (ClaimPairing hash random now code s = (Inr c, t) \<longrightarrow> pairingInv t \<and>
      (\<exists>d r key. claimable now code (openPairing s) d r \<and> c = ToClaimResult (fromRow now r) key \<and> openPairing t = (openPairing s)(d := None))) \<and>
    ((\<nexists>d r. claimable now code (openPairing s) d r) \<longrightarrow> (\<exists>e. ClaimPairing hash random now code s = (Inl (PairingErr e), s)))"
proof (intro conjI[OF _ conjI[OF _ conjI]] impI)
  assume c: "CreatePairing random now req s = (Inr p, t)"
  then obtain raw where "random = Some raw"
    by (cases random) (auto simp: CreatePairing_def addPairingCode_def generatePairingCode_def andThen_def liftE_def)
  from CreatePairing_Inr[OF c[unfolded this] assms] obtain r where r: "p = fromRow now r" "pr_DeviceID r = cr_DeviceID req"
    "pr_Status r = storedPending" "pr_ID r \<notin> pr_ID ` set (st_pairings s)" "pr_PairingCode r \<notin> pr_PairingCode ` set (st_pairings s)"
    "t = (let u = setStatus now storedReplaced (\<lambda>x. pr_DeviceID x = cr_DeviceID req \<and> pr_Status x = storedPending) s in u\<lparr>st_pairings := st_pairings u @ [r]\<rparr>)"
    by (elim exE conjE) (rule that)
  show "pairingInv t \<and> (\<exists>r. p = fromRow now r \<and> pr_DeviceID r = cr_DeviceID req \<and> openPairing t = specCreate req r (openPairing s))"
    using create_open[OF assms r(4,5,3) r(6)[folded r(2)]] r(1,2) unfolding specCreate_def by (intro conjI exI[of _ r]) simp_all
qed (use Invalidate_refines[OF assms] Claim_refines[OF assms] Claim_refused[OF assms] in \<open>simp_all\<close>)

definition sampleRequest :: CreatePairingRequest where
  "sampleRequest = \<lparr>cr_DeviceID = 1, cr_HeartbeatServerURL = ''https://h'', cr_IntervalSeconds = 900, cr_AppBiometricEnabled = True,
     cr_AppSettingsLocked = False, cr_ExpiresInHours = 24, cr_ExpiresAt = 0, cr_PairingCode = []\<rparr>"

definition sampleToken :: string where
  "sampleToken = replicate 32 (CHR ''x'')"

definition pairedStore :: store where
  "pairedStore = snd (CreatePairing (Some sampleToken) 7 sampleRequest deviceStore)"

theorem pairing_refines_slots_witness:
  "openPairing (snd (InvalidatePairing 8 1 1 pairedStore)) 1 = None \<and>
   (\<exists>e. ClaimPairing id (Some ''k'') 9 (pr_PairingCode (hd (st_pairings pairedStore))) (snd (InvalidatePairing 8 1 1 pairedStore)) =
     (Inl (PairingErr e), snd (InvalidatePairing 8 1 1 pairedStore)))"
proof -
  have inv: "pairingInv pairedStore" by code_simp
  have i: "InvalidatePairing 8 1 1 pairedStore = (Inr (), snd (InvalidatePairing 8 1 1 pairedStore))" by code_simp
  have slot: "map_option pr_ID (openPairing pairedStore 1) = Some 1" by code_simp
  have t: "pairingInv (snd (InvalidatePairing 8 1 1 pairedStore))" "openPairing (snd (InvalidatePairing 8 1 1 pairedStore)) 1 = None"
    using pairing_refines_slots[OF inv, where d = 1 and i = 1 and now = 8 and t = "snd (InvalidatePairing 8 1 1 pairedStore)" and res = "Inr ()"] i slot
    by (auto simp: specInvalidate_def)
  have "\<nexists>d r. claimable 9 (pr_PairingCode (hd (st_pairings pairedStore))) (openPairing (snd (InvalidatePairing 8 1 1 pairedStore))) d r"
  proof -
    have "list_all (\<lambda>r. pr_Status r \<noteq> storedPending) (st_pairings (snd (InvalidatePairing 8 1 1 pairedStore)))" by code_simp
    then show ?thesis unfolding claimable_def openPairing_iff[OF t(1)] list_all_iff by blast
  qed
  then show ?thesis using pairing_refines_slots[OF t(1), where now = 9 and hash = id and random = "Some ''k''"] t(2) by blast
qed

section \<open>From code to key\<close>

lemma Regenerate_ok:
  assumes "presentDevice s i" "\<And>k. k \<in> set (st_apiKeys s) \<Longrightarrow> k_Hash k = hash (APIKeyPrefix @ raw) \<Longrightarrow> k_DeviceID k = i"
  shows "\<exists>d t. RegenerateAPIKey hash (Some raw) now i s = (Inr (d, APIKeyPrefix @ raw), t)"
proof -
  obtain d where d: "activeDevice s i = Some d" using assms(1) activeDevice_None by (cases "activeDevice s i") auto
  let ?pre = "take (length APIKeyPrefix + 8) (APIKeyPrefix @ raw)"
  have "i \<in> d_ID ` set (st_devices s)" using activeDevice_Some[OF d] by auto
  then obtain t where t: "UpsertAPIKey now i (hash (APIKeyPrefix @ raw)) ?pre s = (Inr (), t)" "st_devices t = st_devices s"
    using assms(2) by (cases "i \<in> k_DeviceID ` set (st_apiKeys s)") (auto simp: UpsertAPIKey_def Let_def)
  have "activeDevice t i = Some d" using d t(2) by (simp add: activeDevice_def)
  then show ?thesis using d t(1)
    by (simp add: RegenerateAPIKey_def andThen_def liftE_def GenerateAPIKey_def HashAPIKey_def Let_def withinTx_def repoGetDevice_def)
qed

lemma Claim_ok:
  assumes "pairingInv s" "claimable now code (openPairing s) d r" "RegenerateAPIKey hash random now d s = (Inr (dev, key), u)"
  shows "ClaimPairing hash random now code s = (Inr (ToClaimResult (fromRow now r) key), setStatus now storedUsed (\<lambda>x. pr_ID x = pr_ID r) u)"
proof -
  have r: "r \<in> set (st_pairings s)" "pr_DeviceID r = d" "pr_Status r = storedPending" "pr_PairingCode r = code" "now < pr_ExpiresAt r"
    using assms(2) openPairing_iff[OF assms(1)] by (auto simp: claimable_def)
  have "List.find (\<lambda>x. pr_PairingCode x = code) (st_pairings s) = Some r" "List.find (\<lambda>x. pr_ID x = pr_ID r) (st_pairings s) = Some r"
    using r unique_pairing[OF assms(1) r(1)] by (auto intro!: find_unique)
  then show ?thesis using r(2-5) assms(3) Regenerate_pairings[OF assms(3)]
    by (simp add: ClaimPairing_def withinTx_def andThen_def GetPairingByCode_def repoClaimPairing_def fromRow_def EvalStatus_def ToClaimResult_def)
qed

lemma deviceInv_pairings: "deviceInv (s\<lparr>st_pairings := x\<rparr>) = deviceInv s"
  by (simp add: deviceInv_def liveDevice_def presentDevice_def)

lemma used_refused:
  assumes "pairingInv s" "r \<in> set (st_pairings s)" "pr_Status r \<noteq> storedPending"
  shows "fst (ClaimPairing hash random now (pr_PairingCode r) s) = Inl (PairingErr ErrPairingNotClaimable)"
proof -
  have "List.find (\<lambda>x. pr_PairingCode x = pr_PairingCode r) (st_pairings s) = Some r"
    using assms(2) unique_pairing[OF assms(1,2)] by (auto intro!: find_unique)
  moreover have "EvalStatus now (pr_Status r) (pr_ExpiresAt r) \<noteq> StatusPending" using assms(3) by (cases "pr_Status r") (simp_all add: EvalStatus_def)
  ultimately show ?thesis by (simp add: ClaimPairing_def withinTx_def andThen_def[of "GetPairingByCode _ _"] GetPairingByCode_def fromRow_def)
qed

text \<open>C16 (roundtrip). A new code carries the 32 random bytes and the address of the server, as its comment says, and
  claiming it before it ends gives the app the settings it was created with and a new API key that authenticates the device, as long as
  the device is not deleted and the key's hash is that of no other device. It can be claimed only once.\<close>

theorem pairing_code_claims:
  assumes "pairingInv s" "deviceInv s" "CreatePairing (Some raw) now req s = (Inr p, t)" "length raw = 32"
    "presentDevice s (cr_DeviceID req)" "hash (APIKeyPrefix @ key) \<notin> k_Hash ` set (st_apiKeys s)" "now' < dp_ExpiresAt p"
  shows "take 32 (b64decode (dp_PairingCode p)) = raw \<and> drop 32 (b64decode (dp_PairingCode p)) = cr_HeartbeatServerURL req \<and>
    dp_ExpiresAt p = now + wrap64 (cr_ExpiresInHours req * 3600000000000) \<and>
    (\<exists>u. ClaimPairing hash (Some key) now' (dp_PairingCode p) t = (Inr \<lparr>cl_ServerURL = cr_HeartbeatServerURL req,
        cl_IntervalSeconds = cr_IntervalSeconds req, cl_AppBiometricEnabled = cr_AppBiometricEnabled req,
        cl_AppSettingsLocked = cr_AppSettingsLocked req, cl_RawAPIKey = APIKeyPrefix @ key\<rparr>, u) \<and>
      fst (Authenticate hash (APIKeyPrefix @ key) u) = Inr (cr_DeviceID req) \<and>
      (\<forall>random now''. fst (ClaimPairing hash random now'' (dp_PairingCode p) u) = Inl (PairingErr ErrPairingNotClaimable)))"
proof -
  obtain r where r: "p = fromRow now r" "pr_DeviceID r = cr_DeviceID req" "pr_PairingCode r = b64encode (raw @ cr_HeartbeatServerURL req)"
    "pr_Status r = storedPending" "pr_ExpiresAt r = now + wrap64 (cr_ExpiresInHours req * 3600000000000)"
    "pr_HeartbeatServerURL r = cr_HeartbeatServerURL req" "pr_HeartbeatIntervalSeconds r = cr_IntervalSeconds req"
    "pr_AppBiometricEnabled r = cr_AppBiometricEnabled req" "pr_AppSettingsLocked r = cr_AppSettingsLocked req"
    "pr_ID r \<notin> pr_ID ` set (st_pairings s)" "pr_PairingCode r \<notin> pr_PairingCode ` set (st_pairings s)"
    "t = (let u = setStatus now storedReplaced (\<lambda>x. pr_DeviceID x = cr_DeviceID req \<and> pr_Status x = storedPending) s in u\<lparr>st_pairings := st_pairings u @ [r]\<rparr>)"
    using CreatePairing_Inr[OF assms(3,1)] by (elim exE conjE) (rule that)
  note t = create_open[OF assms(1) r(10,11,4) r(12)[folded r(2)]]
  have p: "dp_PairingCode p = pr_PairingCode r" "dp_ExpiresAt p = pr_ExpiresAt r" using r(1) by (simp_all add: fromRow_def)
  obtain x where frame: "t = s\<lparr>st_pairings := x\<rparr>" using r(12) by (simp add: Let_def setStatus_def)
  have inv: "deviceInv t" using assms(2) frame by (simp add: deviceInv_pairings)
  obtain dev u where u: "RegenerateAPIKey hash (Some key) now' (cr_DeviceID req) t = (Inr (dev, APIKeyPrefix @ key), u)"
  proof -
    have "presentDevice t (cr_DeviceID req)" using assms(5) frame by (simp add: presentDevice_def)
    moreover have "k_Hash k \<noteq> hash (APIKeyPrefix @ key)" if "k \<in> set (st_apiKeys t)" for k
      using imageI[OF that, of k_Hash] assms(6) frame by auto
    ultimately show thesis using that Regenerate_ok[of t "cr_DeviceID req" hash key now'] by blast
  qed
  let ?v = "setStatus now' storedUsed (\<lambda>x. pr_ID x = pr_ID r) u"
  have claim: "ClaimPairing hash (Some key) now' (dp_PairingCode p) t = (Inr (ToClaimResult (fromRow now' r) (APIKeyPrefix @ key)), ?v)"
    using t(2) assms(7) p r(2) by (intro Claim_ok[OF t(1) _ u]) (simp add: claimable_def)
  have row: "r \<in> set (st_pairings u)" using Regenerate_pairings[OF u] r(12) by (simp add: Let_def)
  have "deviceInv u" using keepsD[OF RegenerateAPIKey_keeps inv u] .
  then have v: "deviceInv ?v" by (simp add: setStatus_def deviceInv_pairings)
  obtain k where k: "k \<in> set (st_apiKeys ?v)" "k_DeviceID k = cr_DeviceID req" "k_Hash k = hash (APIKeyPrefix @ key)"
    using RegenerateAPIKey_Inr(2)[OF u] by auto
  have "fst (Authenticate hash (APIKeyPrefix @ key) ?v) = Inr (cr_DeviceID req)" using Authenticate_key[OF v k(1), of hash] k(2,3) by simp
  moreover have "fst (ClaimPairing hash random now'' (dp_PairingCode p) ?v) = Inl (PairingErr ErrPairingNotClaimable)" for random now''
  proof -
    have "r\<lparr>pr_Status := storedUsed, pr_UpdatedAt := sqlNow now'\<rparr> \<in> set (st_pairings ?v)"
      using row by (auto simp: setStatus_def intro!: image_eqI[of _ _ r])
    then show ?thesis using used_refused[OF Claim_refines(1)[OF t(1) claim]] p(1) by fastforce
  qed
  moreover have "ToClaimResult (fromRow now' r) (APIKeyPrefix @ key) = \<lparr>cl_ServerURL = cr_HeartbeatServerURL req,
        cl_IntervalSeconds = cr_IntervalSeconds req, cl_AppBiometricEnabled = cr_AppBiometricEnabled req,
        cl_AppSettingsLocked = cr_AppSettingsLocked req, cl_RawAPIKey = APIKeyPrefix @ key\<rparr>" using r(6-9) by (simp add: ToClaimResult_def fromRow_def)
  ultimately show ?thesis using claim p r(3,5) assms(4) by (simp add: b64_roundtrip)
qed

theorem pairing_code_claims_witness:
  "\<exists>p u. CreatePairing (Some sampleToken) 7 sampleRequest deviceStore = (Inr p, pairedStore) \<and>
    ClaimPairing id (Some ''k'') 9 (dp_PairingCode p) pairedStore = (Inr \<lparr>cl_ServerURL = ''https://h'', cl_IntervalSeconds = 900,
      cl_AppBiometricEnabled = True, cl_AppSettingsLocked = False, cl_RawAPIKey = APIKeyPrefix @ ''k''\<rparr>, u) \<and>
    fst (Authenticate id (APIKeyPrefix @ ''k'') u) = Inr 1"
proof -
  have inv: "pairingInv deviceStore" by code_simp
  obtain p where p: "CreatePairing (Some sampleToken) 7 sampleRequest deviceStore = (Inr p, pairedStore)" and exp: "dp_ExpiresAt p = 86400000000007"
  proof -
    have "case CreatePairing (Some sampleToken) 7 sampleRequest deviceStore of (Inr p, _) \<Rightarrow> dp_ExpiresAt p = 86400000000007 | _ \<Rightarrow> False" by code_simp
    then show thesis using that by (auto simp: pairedStore_def split: prod.splits sum.splits)
  qed
  have dev: "presentDevice deviceStore (cr_DeviceID sampleRequest)" and len: "length sampleToken = 32"
    and new: "id (APIKeyPrefix @ ''k'') \<notin> k_Hash ` set (st_apiKeys deviceStore)" by code_simp+
  have "(9::int) < dp_ExpiresAt p" using exp by simp
  from pairing_code_claims[where hash = id and key = "''k''", OF inv deviceStore_ok p len dev new this] p show ?thesis by (auto simp: sampleRequest_def)
qed

end
