(* ===== verification/Access_Log.thy ===== *)
theory Access_Log
  imports Policy_Access
begin

text \<open>
  The write path of the access log (\<open>src/internal/accesslog/\<close> \<open>repository.go\<close>, \<open>sink.go\<close>). A decision event of the policy
  engine goes through the sink's channel and buffer into \<open>access_log\<close> and its child tables, a batch in one transaction.

  \<open>json.Marshal\<close> of the headers is an argument. The child tables refer to devices, addresses, users and network policies; an
  insert that refers to a missing row fails as SQLite's foreign keys make it. \<open>sinkAct\<close> lists what the goroutine's \<open>select\<close> can do
  next, so every interleaving of decisions, receives and ticks is a list of actions.
\<close>

section \<open>Inserting events\<close>

fun denyReasonText :: "DenyReason \<Rightarrow> string" where
  "denyReasonText DenyReasonNoDeviceMatch = ''no_device_match''"
| "denyReasonText DenyReasonIPNotRegistered = ''ip_not_registered''"
| "denyReasonText DenyReasonInvalidToken = ''invalid_token''"
| "denyReasonText DenyReasonHostNotAllowed = ''host_not_allowed''"

definition logRow :: "id \<Rightarrow> string \<Rightarrow> DecisionEvent \<Rightarrow> AccessLogRow" where
  "logRow i headersJSON e = \<lparr>al_ID = i, al_ClientIP = de_ClientIP e, al_Outcome = de_Outcome e,
     al_DenyReason = map_option denyReasonText (de_DenyReason e), al_ContributorCount = int (length (de_IPContributors e)),
     al_CreatedAt = de_CreatedAt e, al_XFFChain = de_XFFChain e, al_TargetHost = de_TargetHost e, al_TargetURI = de_TargetURI e,
     al_HTTPMethod = de_HTTPMethod e, al_HeadersJSON = headersJSON, al_DurationUs = de_DurationUs e\<rparr>"

definition insertAccessLogSQL :: "string \<Rightarrow> DecisionEvent \<Rightarrow> id op" where
  "insertAccessLogSQL headersJSON e s =
    (let i = nextID (map al_ID (st_accessLog s)) in (Inr i, s\<lparr>st_accessLog := st_accessLog s @ [logRow i headersJSON e]\<rparr>))"

definition insertLogPolicy :: "id \<Rightarrow> id \<Rightarrow> string option \<Rightarrow> unit op" where
  "insertLogPolicy i policyID policyName s = (case policyName of None \<Rightarrow> (Inl DBError, s)
     | Some name \<Rightarrow>
        if i \<in> lp_AccessLogID ` set (st_logPolicies s) \<or> policyID \<notin> np_ID ` set (st_policies s) then (Inl DBError, s)
        else (Inr (), s\<lparr>st_logPolicies := st_logPolicies s @ [\<lparr>lp_AccessLogID = i, lp_PolicyID = Some policyID, lp_PolicyName = name\<rparr>]\<rparr>))"

definition contributorRow :: "id \<Rightarrow> IPContributor \<Rightarrow> LogContributor" where
  "contributorRow i c = \<lparr>lc_AccessLogID = i, lc_DeviceID = ic_DeviceID c, lc_AddressID = ic_AddressID c, lc_UserID = ic_UserID c\<rparr>"

definition knownContributor :: "store \<Rightarrow> IPContributor \<Rightarrow> bool" where
  "knownContributor s c \<longleftrightarrow> ic_DeviceID c \<in> d_ID ` set (st_devices s) \<and> ic_AddressID c \<in> a_ID ` set (st_addresses s) \<and>
     ic_UserID c \<in> u_ID ` set (st_users s)"

definition insertContributor :: "id \<Rightarrow> IPContributor \<Rightarrow> unit op" where
  "insertContributor i c s = (if knownContributor s c
     then (Inr (), s\<lparr>st_logContributors := st_logContributors s @ [contributorRow i c]\<rparr>) else (Inl DBError, s))"

definition GeoIsEmpty :: "GeoResult \<Rightarrow> bool" where
  "GeoIsEmpty r \<longleftrightarrow> geo_CountryCode r = [] \<and> geo_CountryName r = [] \<and> geo_ContinentCode r = [] \<and> geo_ASN r = 0 \<and> geo_ASNOrg r = []"

definition geoRow :: "id \<Rightarrow> GeoResult \<Rightarrow> LogGeoip" where
  "geoRow i g = \<lparr>lg_AccessLogID = i, lg_CountryCode = geo_CountryCode g, lg_CountryName = geo_CountryName g,
     lg_ContinentCode = geo_ContinentCode g, lg_ASN = int (geo_ASN g), lg_ASNOrg = geo_ASNOrg g\<rparr>"

definition insertGeoip :: "id \<Rightarrow> GeoResult \<Rightarrow> unit op" where
  "insertGeoip i g s = (if i \<in> lg_AccessLogID ` set (st_logGeoip s) then (Inl DBError, s)
     else (Inr (), s\<lparr>st_logGeoip := st_logGeoip s @ [geoRow i g]\<rparr>))"

definition insertMatch :: "id \<Rightarrow> DecisionEvent \<Rightarrow> unit op" where
  "insertMatch i e = (case de_MatchSource e of
     MatchSourceNetworkPolicy \<Rightarrow> (case de_NetworkPolicyID e of None \<Rightarrow> ret () | Some p \<Rightarrow> insertLogPolicy i p (de_NetworkPolicyName e))
   | _ \<Rightarrow> forEach (insertContributor i) (de_IPContributors e))"

definition insertEvent :: "(header \<Rightarrow> string option) \<Rightarrow> DecisionEvent \<Rightarrow> unit op" where
  "insertEvent marshal e = (case marshal (de_Headers e) of None \<Rightarrow> throw DBError
     | Some headersJSON \<Rightarrow> andThen (insertAccessLogSQL headersJSON e) (\<lambda>i. andThen (insertMatch i e) (\<lambda>_.
         if GeoIsEmpty (de_GeoIP e) then ret () else insertGeoip i (de_GeoIP e))))"

definition BatchInsert :: "(header \<Rightarrow> string option) \<Rightarrow> DecisionEvent list \<Rightarrow> unit op" where
  "BatchInsert marshal events = (if events = [] then ret () else withinTx False (forEach (insertEvent marshal) events))"

section \<open>Retention and the list of reasons\<close>

definition DeleteOlderThan :: "time \<Rightarrow> int op" where
  "DeleteOlderThan before s =
    (let gone = filter (\<lambda>r. al_CreatedAt r < before) (st_accessLog s);
         kept = (\<lambda>i. i \<notin> al_ID ` set gone)
     in (Inr (int (length gone)),
         s\<lparr>st_accessLog := filter (\<lambda>r. \<not> al_CreatedAt r < before) (st_accessLog s),
           st_logContributors := filter (\<lambda>c. kept (lc_AccessLogID c)) (st_logContributors s),
           st_logPolicies := filter (\<lambda>p. kept (lp_AccessLogID p)) (st_logPolicies s),
           st_logGeoip := filter (\<lambda>g. kept (lg_AccessLogID g)) (st_logGeoip s)\<rparr>))"

definition ListDenyReasons :: "store \<Rightarrow> string list" where
  "ListDenyReasons s = sort (remdups (concat (map (\<lambda>r. case al_DenyReason r of None \<Rightarrow> [] | Some d \<Rightarrow> [d]) (st_accessLog s))))"

section \<open>The sink\<close>

record Sink =
  sk_ch :: "DecisionEvent list"
  sk_buffer :: "DecisionEvent list"

definition chCapacity :: nat where
  "chCapacity = 500"

definition batchSize :: nat where
  "batchSize = 50"

definition NewSink :: Sink where
  "NewSink = \<lparr>sk_ch = [], sk_buffer = []\<rparr>"

definition OnDecision :: "DecisionEvent \<Rightarrow> Sink \<Rightarrow> Sink" where
  "OnDecision e k = (if length (sk_ch k) < chCapacity then k\<lparr>sk_ch := sk_ch k @ [e]\<rparr> else k)"

definition flush :: "(header \<Rightarrow> string option) \<Rightarrow> Sink \<times> store \<Rightarrow> Sink \<times> store" where
  "flush marshal w = (case w of (k, s) \<Rightarrow>
     if sk_buffer k = [] then (k, s) else (k\<lparr>sk_buffer := []\<rparr>, snd (BatchInsert marshal (sk_buffer k) s)))"

definition buffered :: "(header \<Rightarrow> string option) \<Rightarrow> DecisionEvent \<Rightarrow> Sink \<times> store \<Rightarrow> Sink \<times> store" where
  "buffered marshal e w = (case w of (k, s) \<Rightarrow>
     let k' = k\<lparr>sk_buffer := sk_buffer k @ [e]\<rparr> in if length (sk_buffer k') \<ge> batchSize then flush marshal (k', s) else (k', s))"

text \<open>The loop after cancellation: receive until the channel is empty, then flush what is left.\<close>

fun drain :: "(header \<Rightarrow> string option) \<Rightarrow> DecisionEvent list \<Rightarrow> Sink \<times> store \<Rightarrow> Sink \<times> store" where
  "drain marshal [] w = flush marshal w"
| "drain marshal (e # es) (k, s) = drain marshal es (buffered marshal e (k\<lparr>sk_ch := es\<rparr>, s))"

datatype sinkAct = Decided DecisionEvent | Receive | Tick | Done

fun sinkStep :: "(header \<Rightarrow> string option) \<Rightarrow> sinkAct \<Rightarrow> Sink \<times> store \<Rightarrow> Sink \<times> store" where
  "sinkStep marshal (Decided e) (k, s) = (OnDecision e k, s)"
| "sinkStep marshal Receive (k, s) = (case sk_ch k of [] \<Rightarrow> (k, s) | e # es \<Rightarrow> buffered marshal e (k\<lparr>sk_ch := es\<rparr>, s))"
| "sinkStep marshal Tick (k, s) = flush marshal (k, s)"
| "sinkStep marshal Done (k, s) = drain marshal (sk_ch k) (k, s)"

section \<open>What a batch leaves behind\<close>

definition logInv :: "store \<Rightarrow> bool" where
  "logInv s \<longleftrightarrow> distinct (map al_ID (st_accessLog s)) \<and> lc_AccessLogID ` set (st_logContributors s) \<subseteq> al_ID ` set (st_accessLog s) \<and>
     distinct (map lp_AccessLogID (st_logPolicies s)) \<and> lp_AccessLogID ` set (st_logPolicies s) \<subseteq> al_ID ` set (st_accessLog s) \<and>
     distinct (map lg_AccessLogID (st_logGeoip s)) \<and> lg_AccessLogID ` set (st_logGeoip s) \<subseteq> al_ID ` set (st_accessLog s)"

text \<open>An event can be stored when its headers can be written and everything it names is still there.\<close>

definition insertable :: "(header \<Rightarrow> string option) \<Rightarrow> store \<Rightarrow> DecisionEvent \<Rightarrow> bool" where
  "insertable marshal s e \<longleftrightarrow> marshal (de_Headers e) \<noteq> None \<and>
     (if de_MatchSource e = MatchSourceNetworkPolicy
      then de_NetworkPolicyID e = None \<or> the (de_NetworkPolicyID e) \<in> np_ID ` set (st_policies s) \<and> de_NetworkPolicyName e \<noteq> None
      else list_all (knownContributor s) (de_IPContributors e))"

definition contributorsOf :: "id \<Rightarrow> DecisionEvent \<Rightarrow> LogContributor list" where
  "contributorsOf i e = (if de_MatchSource e = MatchSourceNetworkPolicy then [] else map (contributorRow i) (de_IPContributors e))"

definition policiesOf :: "id \<Rightarrow> DecisionEvent \<Rightarrow> LogPolicy list" where
  "policiesOf i e = (if de_MatchSource e = MatchSourceNetworkPolicy \<and> de_NetworkPolicyID e \<noteq> None
     then [\<lparr>lp_AccessLogID = i, lp_PolicyID = de_NetworkPolicyID e, lp_PolicyName = the (de_NetworkPolicyName e)\<rparr>] else [])"

definition geoipOf :: "id \<Rightarrow> DecisionEvent \<Rightarrow> LogGeoip list" where
  "geoipOf i e = (if GeoIsEmpty (de_GeoIP e) then [] else [geoRow i (de_GeoIP e)])"

fun numbered :: "id \<Rightarrow> 'a list \<Rightarrow> (id \<times> 'a) list" where
  "numbered i [] = []"
| "numbered i (x # xs) = (i, x) # numbered (i + 1) xs"

definition appendRows :: "(header \<Rightarrow> string option) \<Rightarrow> (id \<times> DecisionEvent) list \<Rightarrow> store \<Rightarrow> store" where
  "appendRows marshal ies s = s\<lparr>
     st_accessLog := st_accessLog s @ map (\<lambda>(i, e). logRow i (the (marshal (de_Headers e))) e) ies,
     st_logContributors := st_logContributors s @ concat (map (\<lambda>(i, e). contributorsOf i e) ies),
     st_logPolicies := st_logPolicies s @ concat (map (\<lambda>(i, e). policiesOf i e) ies),
     st_logGeoip := st_logGeoip s @ concat (map (\<lambda>(i, e). geoipOf i e) ies)\<rparr>"

definition nextLogID :: "store \<Rightarrow> id" where
  "nextLogID s = nextID (map al_ID (st_accessLog s))"

definition loggedBatch :: "(header \<Rightarrow> string option) \<Rightarrow> DecisionEvent list \<Rightarrow> store \<Rightarrow> store" where
  "loggedBatch marshal events s = appendRows marshal (numbered (nextLogID s) events) s"

lemma nextID_snoc: "nextID (is @ [nextID is]) = nextID is + 1"
  by (simp add: nextID_def)

lemma appendRows_sel [simp]:
  "st_policies (appendRows m ies s) = st_policies s" "st_devices (appendRows m ies s) = st_devices s"
  "st_addresses (appendRows m ies s) = st_addresses s" "st_users (appendRows m ies s) = st_users s"
  by (simp_all add: appendRows_def)

lemma appendRows_Nil [simp]: "appendRows m [] s = s"
  by (simp add: appendRows_def)

lemma appendRows_append: "appendRows m (xs @ ys) s = appendRows m ys (appendRows m xs s)"
  by (simp add: appendRows_def)

lemma nextLogID_append: "nextLogID (appendRows m [(nextLogID s, e)] s) = nextLogID s + 1"
  by (simp add: nextLogID_def appendRows_def nextID_snoc logRow_def)

lemma loggedBatch_Cons:
  "loggedBatch m (e # es) s = loggedBatch m es (appendRows m [(nextLogID s, e)] s)"
  using appendRows_append[of m "[(nextLogID s, e)]" "numbered (nextLogID s + 1) es" s] by (simp add: loggedBatch_def nextLogID_append)

lemma fresh_log_id:
  assumes "logInv s"
  shows "nextLogID s \<notin> al_ID ` set (st_accessLog s)" "nextLogID s \<notin> lp_AccessLogID ` set (st_logPolicies s)"
    "nextLogID s \<notin> lg_AccessLogID ` set (st_logGeoip s)"
proof -
  show "nextLogID s \<notin> al_ID ` set (st_accessLog s)" using nextID_fresh[of "map al_ID (st_accessLog s)"] by (simp add: nextLogID_def)
  then show "nextLogID s \<notin> lp_AccessLogID ` set (st_logPolicies s)" "nextLogID s \<notin> lg_AccessLogID ` set (st_logGeoip s)"
    using assms by (auto simp: logInv_def)
qed

lemma logInv_append:
  assumes "logInv s"
  shows "logInv (appendRows m [(nextLogID s, e)] s)"
  using assms fresh_log_id[OF assms]
  by (auto simp: logInv_def appendRows_def logRow_def contributorsOf_def contributorRow_def policiesOf_def geoipOf_def geoRow_def)

lemma insertable_append [simp]: "insertable m (appendRows m' ies s) e = insertable m s e"
proof -
  have "knownContributor (appendRows m' ies s) = knownContributor s" by (simp add: knownContributor_def fun_eq_iff)
  then show ?thesis by (simp add: insertable_def)
qed

lemma knownContributor_upd [simp]:
  "knownContributor (s\<lparr>st_logContributors := x\<rparr>) = knownContributor s" "knownContributor (s\<lparr>st_accessLog := y\<rparr>) = knownContributor s"
  by (simp_all add: knownContributor_def fun_eq_iff)

lemma insertContributor_known:
  "knownContributor s c \<Longrightarrow> insertContributor i c s = (Inr (), s\<lparr>st_logContributors := st_logContributors s @ [contributorRow i c]\<rparr>)"
  "\<not> knownContributor s c \<Longrightarrow> insertContributor i c s = (Inl DBError, s)"
  by (simp_all add: insertContributor_def)

lemma insertContributors_ok:
  "list_all (knownContributor s) cs \<Longrightarrow>
    forEach (insertContributor i) cs s = (Inr (), s\<lparr>st_logContributors := st_logContributors s @ map (contributorRow i) cs\<rparr>)"
  by (induction cs arbitrary: s) (simp_all add: ret_def andThen_def insertContributor_known(1))

lemma insertContributors_fail:
  "\<not> list_all (knownContributor s) cs \<Longrightarrow> fst (forEach (insertContributor i) cs s) = Inl DBError"
proof (induction cs arbitrary: s)
  case (Cons c cs)
  then show ?case by (cases "knownContributor s c") (simp_all add: andThen_def insertContributor_known)
qed simp

lemma insertMatch_ok:
  assumes "insertable m s e" "i \<notin> lp_AccessLogID ` set (st_logPolicies s)"
  shows "insertMatch i e (s\<lparr>st_accessLog := x\<rparr>) = (Inr (), s\<lparr>st_accessLog := x,
     st_logContributors := st_logContributors s @ contributorsOf i e, st_logPolicies := st_logPolicies s @ policiesOf i e\<rparr>)"
  using assms
  by (cases "de_MatchSource e"; cases "de_NetworkPolicyID e"; cases "de_NetworkPolicyName e")
    (simp_all add: insertable_def insertMatch_def insertLogPolicy_def ret_def contributorsOf_def policiesOf_def insertContributors_ok)

lemma insertMatch_fails:
  assumes "\<not> insertable m s e" "m (de_Headers e) \<noteq> None"
  shows "fst (insertMatch i e (s\<lparr>st_accessLog := x\<rparr>)) = Inl DBError"
  using assms
  by (cases "de_MatchSource e"; cases "de_NetworkPolicyID e"; cases "de_NetworkPolicyName e")
    (simp_all add: insertable_def insertMatch_def insertLogPolicy_def insertContributors_fail)

lemma insertEvent_ok:
  assumes "logInv s" "insertable m s e"
  shows "insertEvent m e s = (Inr (), appendRows m [(nextLogID s, e)] s)"
proof -
  obtain h where h: "m (de_Headers e) = Some h" using assms(2) by (auto simp: insertable_def)
  note fresh = fresh_log_id[OF assms(1)]
  show ?thesis using fresh(3)
    by (simp add: insertEvent_def h andThen_def insertAccessLogSQL_def Let_def nextLogID_def[symmetric] insertMatch_ok[OF assms(2) fresh(2)]
        insertGeoip_def ret_def appendRows_def geoipOf_def)
qed

lemma insertEvent_fails:
  assumes "\<not> insertable m s e"
  shows "fst (insertEvent m e s) = Inl DBError"
proof (cases "m (de_Headers e)")
  case (Some h)
  then show ?thesis
    using insertMatch_fails[OF assms, of "nextLogID s" "st_accessLog s @ [logRow (nextLogID s) h e]"]
    by (auto simp: insertEvent_def andThen_def insertAccessLogSQL_def Let_def nextLogID_def[symmetric] split: prod.splits)
qed (simp add: insertEvent_def throw_def)

lemma forEach_insertEvent:
  "logInv s \<Longrightarrow> (if list_all (insertable m s) es then forEach (insertEvent m) es s = (Inr (), loggedBatch m es s)
     else fst (forEach (insertEvent m) es s) = Inl DBError)"
proof (induction es arbitrary: s)
  case (Cons e es)
  show ?case
  proof (cases "insertable m s e")
    case True
    note ok = insertEvent_ok[OF Cons.prems True] and IH = Cons.IH[OF logInv_append[OF Cons.prems], of m e]
    have "insertable m (appendRows m [(nextLogID s, e)] s) = insertable m s" by (simp add: fun_eq_iff)
    then show ?thesis using IH True by (simp add: andThen_def ok loggedBatch_Cons split: if_splits)
  next
    case False
    then show ?thesis using insertEvent_fails[OF False] by (auto simp: andThen_def split: prod.splits)
  qed
qed (simp add: ret_def loggedBatch_def)

lemma BatchInsert_cases:
  assumes "logInv s"
  shows "BatchInsert marshal events s =
    (if list_all (insertable marshal s) events then (Inr (), loggedBatch marshal events s) else (Inl DBError, s))"
proof (cases "events = []")
  case True
  then show ?thesis by (simp add: BatchInsert_def ret_def loggedBatch_def)
next
  case False
  show ?thesis
  proof (cases "list_all (insertable marshal s) events")
    case True
    then show ?thesis using forEach_insertEvent[OF assms, of marshal events] False by (simp add: BatchInsert_def withinTx_def)
  next
    case bad: False
    obtain t where "forEach (insertEvent marshal) events s = (Inl DBError, t)"
      using forEach_insertEvent[OF assms, of marshal events] bad by (metis prod.collapse)
    then show ?thesis using False bad by (simp add: BatchInsert_def withinTx_def)
  qed
qed

lemma logInv_loggedBatch: "logInv s \<Longrightarrow> logInv (loggedBatch m es s)"
proof (induction es arbitrary: s)
  case (Cons e es)
  then show ?case using logInv_append by (simp add: loggedBatch_Cons)
qed (simp add: loggedBatch_def)

lemma logInv_BatchInsert: "keeps logInv (BatchInsert marshal events)"
  by (simp add: keeps_def BatchInsert_cases logInv_loggedBatch)

text \<open>C32 (functional). A batch is stored whole or not at all. If every event's headers can be written and every device, address,
  user or network policy it names still exists, one row per event is appended with fresh increasing ids, in the order of the
  events, each with its contributors, its policy and its GeoIP row and with nothing else changed; otherwise the insert fails and
  the store is as before. So one event that names a network policy deleted since its decision loses the other events of its
  batch. Either way every child row belongs to one row of the log.\<close>

theorem BatchInsert_outcome:
  assumes "logInv s"
  shows "BatchInsert marshal events s =
      (if list_all (insertable marshal s) events then (Inr (), loggedBatch marshal events s) else (Inl DBError, s)) \<and>
    logInv (snd (BatchInsert marshal events s))"
  using BatchInsert_cases[OF assms, of marshal events] logInv_BatchInsert[of marshal events] assms unfolding keeps_def by blast

definition plainHeaders :: "header \<Rightarrow> string option" where
  "plainHeaders h = Some (concat (map fst h))"

definition sampleEvent :: DecisionEvent where
  "sampleEvent = \<lparr>de_ClientIP = ''203.0.113.7'', de_Outcome = False, de_DenyReason = Some DenyReasonIPNotRegistered, de_IPContributors = [],
     de_MatchSource = MatchSourceUnset, de_NetworkPolicyID = None, de_NetworkPolicyName = None, de_CreatedAt = 3, de_DurationUs = 12,
     de_TargetHost = Some ''app.lan'', de_TargetURI = None, de_HTTPMethod = Some ''GET'', de_XFFChain = None, de_Headers = [], de_GeoIP = emptyGeo\<rparr>"

definition policyEvent :: DecisionEvent where
  "policyEvent = sampleEvent\<lparr>de_Outcome := True, de_DenyReason := None, de_MatchSource := MatchSourceNetworkPolicy,
     de_NetworkPolicyID := Some 4, de_NetworkPolicyName := Some ''lan''\<rparr>"

lemma logInv_empty [simp]: "logInv emptyStore"
  by (simp add: logInv_def emptyStore_def)

theorem BatchInsert_outcome_witness:
  "BatchInsert plainHeaders [sampleEvent, sampleEvent] emptyStore = (Inr (), loggedBatch plainHeaders [sampleEvent, sampleEvent] emptyStore) \<and>
   map al_ID (st_accessLog (loggedBatch plainHeaders [sampleEvent, sampleEvent] emptyStore)) = [1, 2] \<and>
   BatchInsert plainHeaders [sampleEvent, policyEvent] emptyStore = (Inl DBError, emptyStore)"
proof (intro conjI)
  have ok: "insertable plainHeaders emptyStore sampleEvent" by (simp add: insertable_def plainHeaders_def sampleEvent_def)
  have no: "\<not> insertable plainHeaders emptyStore policyEvent" by (simp add: insertable_def policyEvent_def emptyStore_def)
  show "BatchInsert plainHeaders [sampleEvent, sampleEvent] emptyStore = (Inr (), loggedBatch plainHeaders [sampleEvent, sampleEvent] emptyStore)"
    using BatchInsert_outcome[OF logInv_empty, of plainHeaders "[sampleEvent, sampleEvent]"] ok by simp
  show "BatchInsert plainHeaders [sampleEvent, policyEvent] emptyStore = (Inl DBError, emptyStore)"
    using BatchInsert_outcome[OF logInv_empty, of plainHeaders "[sampleEvent, policyEvent]"] no by simp
qed code_simp

lemma logInv_DeleteOlderThan: "keeps logInv (DeleteOlderThan before)"
proof (rule keepsI)
  fix s assume inv: "logInv s"
  have kept: "al_ID r \<in> al_ID ` {r \<in> set (st_accessLog s). \<not> al_CreatedAt r < before}"
    if "r \<in> set (st_accessLog s)" "al_ID r \<notin> al_ID ` {r \<in> set (st_accessLog s). al_CreatedAt r < before}" for r using that by blast
  show "logInv (snd (DeleteOlderThan before s))" using inv kept unfolding logInv_def DeleteOlderThan_def Let_def
    by (auto simp: distinct_map_filter subset_iff image_iff)
qed

lemma logInv_DeletePolicy: "keeps logInv (repoDeletePolicy i)"
proof (rule keepsI)
  fix s assume inv: "logInv s"
  have ids: "lp_AccessLogID \<circ> (\<lambda>r. if lp_PolicyID r = Some i then r\<lparr>lp_PolicyID := None\<rparr> else r) = lp_AccessLogID"
    by (simp add: fun_eq_iff)
  have pols: "map lp_AccessLogID (map (\<lambda>r. if lp_PolicyID r = Some i then r\<lparr>lp_PolicyID := None\<rparr> else r) ps) = map lp_AccessLogID ps" for ps
    by (simp add: ids del: o_apply)
  have inv': "logInv (s\<lparr>st_policies := x, st_policyGroups := y, st_logPolicies := ps\<rparr>)"
    if "map lp_AccessLogID ps = map lp_AccessLogID (st_logPolicies s)" for x y ps
  proof -
    have "lp_AccessLogID ` set ps = lp_AccessLogID ` set (st_logPolicies s)" using arg_cong[OF that, of set] by simp
    then show ?thesis using inv that by (simp add: logInv_def)
  qed
  show "logInv (snd (repoDeletePolicy i s))" using inv inv'[OF pols] by (simp add: repoDeletePolicy_def)
qed

section \<open>Delivery\<close>

fun acceptedEvents :: "(header \<Rightarrow> string option) \<Rightarrow> sinkAct list \<Rightarrow> Sink \<times> store \<Rightarrow> DecisionEvent list" where
  "acceptedEvents marshal [] w = []"
| "acceptedEvents marshal (a # as) w =
    (case a of Decided e \<Rightarrow> if length (sk_ch (fst w)) < chCapacity then [e] else [] | _ \<Rightarrow> []) @ acceptedEvents marshal as (sinkStep marshal a w)"

fun decisions :: "sinkAct list \<Rightarrow> DecisionEvent list" where
  "decisions [] = []"
| "decisions (Decided e # as) = e # decisions as"
| "decisions (_ # as) = decisions as"

lemma loggedBatch_append: "loggedBatch m (xs @ ys) s = loggedBatch m ys (loggedBatch m xs s)"
  by (induction xs arbitrary: s) (simp_all add: loggedBatch_Cons, simp add: loggedBatch_def)

lemma insertable_logged [simp]: "insertable m (loggedBatch m' xs s) e = insertable m s e"
  by (simp add: loggedBatch_def)

text \<open>The state after some actions: the accepted events were flushed, in batches, or are in the buffer or in the channel, in this
  order; the batches without an event that cannot be stored are in the log, the others were dropped.\<close>

definition storedOf :: "(header \<Rightarrow> string option) \<Rightarrow> store \<Rightarrow> DecisionEvent list list \<Rightarrow> store" where
  "storedOf m s batches = loggedBatch m (concat (filter (list_all (insertable m s)) batches)) s"

definition delivered :: "(header \<Rightarrow> string option) \<Rightarrow> store \<Rightarrow> DecisionEvent list \<Rightarrow> Sink \<times> store \<Rightarrow> bool" where
  "delivered m s evs w \<longleftrightarrow> (\<exists>batches. evs = concat batches @ sk_buffer (fst w) @ sk_ch (fst w) \<and> snd w = storedOf m s batches \<and>
       (\<forall>b \<in> set batches. b \<noteq> [] \<and> length b \<le> batchSize)) \<and>
     logInv s \<and> length (sk_buffer (fst w)) < batchSize \<and> length (sk_ch (fst w)) \<le> chCapacity"

lemma deliveredI:
  assumes "evs = concat batches @ buf @ ch" "\<forall>b \<in> set batches. b \<noteq> [] \<and> length b \<le> batchSize"
    "logInv s" "length buf < batchSize" "length ch \<le> chCapacity"
  shows "delivered m s evs (\<lparr>sk_ch = ch, sk_buffer = buf\<rparr>, storedOf m s batches)"
  unfolding delivered_def using assms by (intro conjI exI[of _ batches]) simp_all

lemma deliveredE:
  assumes "delivered m s evs w"
  obtains batches ch buf where "w = (\<lparr>sk_ch = ch, sk_buffer = buf\<rparr>, storedOf m s batches)" "evs = concat batches @ buf @ ch"
    "\<forall>b \<in> set batches. b \<noteq> [] \<and> length b \<le> batchSize" "logInv s" "length buf < batchSize" "length ch \<le> chCapacity"
proof -
  obtain k t where w: "w = (k, t)" by fastforce
  have k: "k = \<lparr>sk_ch = sk_ch k, sk_buffer = sk_buffer k\<rparr>" by simp
  show thesis using assms that[of "sk_ch k" "sk_buffer k"] k unfolding delivered_def w by auto
qed

lemma BatchInsert_stored:
  assumes "logInv s"
  shows "snd (BatchInsert m b (storedOf m s batches)) = storedOf m s (batches @ [b])"
  unfolding storedOf_def BatchInsert_cases[OF logInv_loggedBatch[OF assms]] by (auto simp: loggedBatch_append list_all_iff) (simp add: loggedBatch_def)

lemma delivered_flush:
  assumes "evs = concat batches @ buf @ ch" "\<forall>b \<in> set batches. b \<noteq> [] \<and> length b \<le> batchSize" "logInv s"
    "length buf \<le> batchSize" "length ch \<le> chCapacity"
  shows "delivered m s evs (flush m (\<lparr>sk_ch = ch, sk_buffer = buf\<rparr>, storedOf m s batches)) \<and>
    fst (flush m (\<lparr>sk_ch = ch, sk_buffer = buf\<rparr>, storedOf m s batches)) = \<lparr>sk_ch = ch, sk_buffer = []\<rparr>"
proof (cases "buf = []")
  case True
  then show ?thesis using deliveredI[of evs batches "[]" ch s m] assms by (simp add: flush_def batchSize_def)
next
  case False
  then show ?thesis using deliveredI[of evs "batches @ [buf]" "[]" ch s m] assms by (auto simp: flush_def batchSize_def BatchInsert_stored)
qed

lemma delivered_buffered:
  assumes "delivered m s evs (k, t)" "sk_ch k = e # es"
  shows "delivered m s evs (buffered m e (k\<lparr>sk_ch := es\<rparr>, t)) \<and> sk_ch (fst (buffered m e (k\<lparr>sk_ch := es\<rparr>, t))) = es"
proof (rule deliveredE[OF assms(1)])
  fix batches ch buf
  assume d: "(k, t) = (\<lparr>sk_ch = ch, sk_buffer = buf\<rparr>, storedOf m s batches)" "evs = concat batches @ buf @ ch"
    "\<forall>b \<in> set batches. b \<noteq> [] \<and> length b \<le> batchSize" "logInv s" "length buf < batchSize" "length ch \<le> chCapacity"
  then have ch: "ch = e # es" "evs = concat batches @ (buf @ [e]) @ es" "length es \<le> chCapacity" using assms(2) by auto
  show ?thesis
  proof (cases "length (buf @ [e]) \<ge> batchSize")
    case True
    then show ?thesis using delivered_flush[OF ch(2) d(3,4) _ ch(3), of m] d(1,5) by (simp add: buffered_def Let_def)
  next
    case False
    then show ?thesis using deliveredI[OF ch(2) d(3,4) _ ch(3), of m] d(1) by (simp add: buffered_def Let_def)
  qed
qed

lemma delivered_drain:
  "delivered m s evs (k, t) \<Longrightarrow> sk_ch k = es \<Longrightarrow>
    delivered m s evs (drain m es (k, t)) \<and> fst (drain m es (k, t)) = \<lparr>sk_ch = [], sk_buffer = []\<rparr>"
proof (induction es arbitrary: k t)
  case Nil
  from Nil(1) show ?case
  proof (rule deliveredE)
    fix batches ch buf
    assume "(k, t) = (\<lparr>sk_ch = ch, sk_buffer = buf\<rparr>, storedOf m s batches)" "evs = concat batches @ buf @ ch"
      "\<forall>b \<in> set batches. b \<noteq> [] \<and> length b \<le> batchSize" "logInv s" "length buf < batchSize"
    then show ?thesis using delivered_flush[of evs batches buf "[]" s m] Nil(2) by simp
  qed
next
  case (Cons e es)
  obtain k' t' where b: "buffered m e (k\<lparr>sk_ch := es\<rparr>, t) = (k', t')" by fastforce
  show ?case using delivered_buffered[OF Cons.prems] Cons.IH[of k' t'] by (simp add: b)
qed

lemma sink_step_delivered:
  assumes "delivered m s evs (k, t)"
  shows "delivered m s (evs @ (case a of Decided e \<Rightarrow> if length (sk_ch k) < chCapacity then [e] else [] | _ \<Rightarrow> [])) (sinkStep m a (k, t))"
proof (cases a)
  case (Decided e)
  then show ?thesis using assms by (auto simp: delivered_def OnDecision_def)
next
  case Receive
  then show ?thesis using assms delivered_buffered[OF assms] by (cases "sk_ch k") simp_all
next
  case Tick
  from assms show ?thesis
  proof (rule deliveredE)
    fix batches ch buf
    assume "(k, t) = (\<lparr>sk_ch = ch, sk_buffer = buf\<rparr>, storedOf m s batches)" "evs = concat batches @ buf @ ch"
      "\<forall>b \<in> set batches. b \<noteq> [] \<and> length b \<le> batchSize" "logInv s" "length buf < batchSize" "length ch \<le> chCapacity"
    then show ?thesis using Tick delivered_flush[of evs batches buf ch s m] by simp
  qed
next
  case Done
  then show ?thesis using delivered_drain[OF assms] by simp
qed

lemma delivered_run: "delivered m s evs w \<Longrightarrow> delivered m s (evs @ acceptedEvents m acts w) (fold (sinkStep m) acts w)"
proof (induction acts arbitrary: evs w)
  case (Cons a acts)
  obtain k t where w: "w = (k, t)" by fastforce
  have "delivered m s (evs @ (case a of Decided e \<Rightarrow> if length (sk_ch k) < chCapacity then [e] else [] | _ \<Rightarrow> [])) (sinkStep m a (k, t))"
    using sink_step_delivered Cons.prems w by simp
  from Cons.IH[OF this] show ?case unfolding w by (cases a) auto
qed simp

lemma sinkStep_channel: "length (sk_ch (fst (sinkStep m a (k, t)))) \<le> length (sk_ch k) + length (decisions [a])"
proof -
  have ch: "sk_ch (fst (flush m (j, u))) = sk_ch j" "sk_ch (fst (buffered m e (j, u))) = sk_ch j" for j u e
    by (auto simp: flush_def buffered_def Let_def)
  have dr: "length (sk_ch (fst (drain m es (j, u)))) \<le> length (sk_ch j)" if "es = sk_ch j" for es j u using that
  proof (induction es arbitrary: j u)
    case (Cons e es)
    obtain j' u' where b: "buffered m e (j\<lparr>sk_ch := es\<rparr>, u) = (j', u')" by fastforce
    then have "sk_ch j' = es" using ch(2)[of e "j\<lparr>sk_ch := es\<rparr>" u] by simp
    then show ?case using Cons.IH[of j' u'] Cons.prems by (simp add: b flip: Cons.prems)
  qed (simp add: ch)
  show ?thesis by (cases a) (auto simp: OnDecision_def ch dr split: list.splits)
qed

lemma accepted_all:
  "length (sk_ch k) + length (decisions acts) \<le> chCapacity \<Longrightarrow> acceptedEvents m acts (k, t) = decisions acts"
proof (induction acts arbitrary: k t)
  case (Cons a acts)
  obtain k' t' where st: "sinkStep m a (k, t) = (k', t')" by fastforce
  have "length (sk_ch k') + length (decisions acts) \<le> chCapacity"
    using sinkStep_channel[of m a k t, unfolded st] Cons.prems by (cases a) auto
  from Cons.IH[OF this] show ?case using Cons.prems st by (cases a) auto
qed simp

lemma delivered_stop:
  assumes "logInv s" "acts \<noteq> []" "last acts = Done"
  shows "fst (fold (sinkStep m) acts (NewSink, s)) = \<lparr>sk_ch = [], sk_buffer = []\<rparr>"
proof -
  obtain pre where acts: "acts = pre @ [Done]" using append_butlast_last_id[OF assms(2), symmetric] unfolding assms(3) ..
  obtain k t where pre: "fold (sinkStep m) pre (NewSink, s) = (k, t)" by fastforce
  have "delivered m s [] (NewSink, s)" using deliveredI[of "[]" "[]" "[]" "[]" s m] assms(1)
    by (simp add: NewSink_def storedOf_def loggedBatch_def batchSize_def)
  from delivered_run[OF this, of pre] have "delivered m s (acceptedEvents m pre (NewSink, s)) (k, t)" by (simp add: pre)
  from delivered_drain[OF this refl] show ?thesis by (simp add: acts pre)
qed

text \<open>C33 (liveness). Whatever the interleaving of decisions, receives, ticks and a stop, and whether or not the inserts succeed: the
  events that found room in the channel are, in the order of the decisions and each exactly once, in the batches that were flushed,
  in the buffer or in the channel. A batch has one to fifty events. The log holds the events of exactly the batches in which every
  event can be stored, in order; a batch with an event that cannot be stored is dropped whole, and none of its events is tried again.
  The buffer stays below 50 and the channel within 500. After the drain of a stop every accepted event is in a batch. Nothing finds
  the channel full unless more than 500 decisions were made.\<close>

theorem sink_delivers:
  assumes "logInv s" "fold (sinkStep m) acts (NewSink, s) = (k, t)"
  shows "\<exists>batches. acceptedEvents m acts (NewSink, s) = concat batches @ sk_buffer k @ sk_ch k \<and>
    (\<forall>b \<in> set batches. b \<noteq> [] \<and> length b \<le> batchSize) \<and>
    t = loggedBatch m (concat (filter (list_all (insertable m s)) batches)) s \<and>
    length (sk_buffer k) < batchSize \<and> length (sk_ch k) \<le> chCapacity \<and>
    (acts \<noteq> [] \<and> last acts = Done \<longrightarrow> acceptedEvents m acts (NewSink, s) = concat batches) \<and>
    (length (decisions acts) \<le> chCapacity \<longrightarrow> acceptedEvents m acts (NewSink, s) = decisions acts)"
proof -
  have init: "delivered m s [] (NewSink, s)" using deliveredI[of "[]" "[]" "[]" "[]" s m] assms(1)
    by (simp add: NewSink_def storedOf_def loggedBatch_def batchSize_def)
  note run = delivered_run[OF init, of acts, unfolded assms(2)]
  have "k = \<lparr>sk_ch = [], sk_buffer = []\<rparr>" if "acts \<noteq> []" "last acts = Done"
    using delivered_stop[OF assms(1) that, of m] assms(2) by simp
  moreover have "acceptedEvents m acts (NewSink, s) = decisions acts" if "length (decisions acts) \<le> chCapacity"
    using accepted_all[of NewSink acts m s] that by (simp add: NewSink_def)
  ultimately show ?thesis using run by (auto simp: delivered_def storedOf_def)
qed

theorem sink_delivers_witness:
  "\<exists>batches. concat batches = [sampleEvent, policyEvent, sampleEvent] \<and>
     snd (fold (sinkStep plainHeaders) [Decided sampleEvent, Receive, Tick, Decided policyEvent, Decided sampleEvent, Done] (NewSink, emptyStore)) =
       loggedBatch plainHeaders (concat (filter (list_all (insertable plainHeaders emptyStore)) batches)) emptyStore"
proof -
  let ?acts = "[Decided sampleEvent, Receive, Tick, Decided policyEvent, Decided sampleEvent, Done]"
  obtain k t where run: "fold (sinkStep plainHeaders) ?acts (NewSink, emptyStore) = (k, t)" by fastforce
  have "decisions ?acts = [sampleEvent, policyEvent, sampleEvent]" "length (decisions ?acts) \<le> chCapacity" by (simp_all add: chCapacity_def)
  with sink_delivers[OF logInv_empty run] show ?thesis unfolding run by fastforce
qed

end
