(* ===== verification/Timebucket.thy ===== *)
theory Timebucket
  imports Prelude
begin

text \<open>
  Buckets of the charts (\<open>src/internal/timebucket\<close>). An instant counts nanoseconds; \<open>Truncate\<close> rounds down to a
  multiple of the bucket's width since Go's zero time, which lies a whole number of days before 1970, and a UTC day
  always has 24 hours, so every granularity is a multiple of its width. The \<open>for\<close> loop of \<open>Sequence\<close> is the
  function \<open>bucketsUpTo\<close> with its termination proof.
\<close>

section \<open>Granularities\<close>

datatype Granularity = GranularityMinute | Granularity5Min | GranularityHour | GranularityDay

definition ParseGranularity :: "string \<Rightarrow> Granularity option" where
  "ParseGranularity s = (if s = ''hour'' \<or> s = [] then Some GranularityHour
     else if s = ''day'' then Some GranularityDay
     else if s = ''minute'' then Some GranularityMinute
     else if s = ''5min'' then Some Granularity5Min else None)"

definition minutes :: "int \<Rightarrow> time" where
  "minutes n = n * 60000000000"

text \<open>Go's zero time, the first instant of the year 1.\<close>

definition zeroTime :: time where
  "zeroTime = - 62135596800000000000"

definition GranularityForWindow :: "time \<Rightarrow> Granularity" where
  "GranularityForWindow d = (if d \<le> minutes 5 then GranularityMinute
     else if d \<le> minutes 60 then Granularity5Min
     else if d \<le> 7 * 24 * minutes 60 then GranularityHour else GranularityDay)"

fun width :: "Granularity \<Rightarrow> time" where
  "width GranularityMinute = minutes 1"
| "width Granularity5Min = minutes 5"
| "width GranularityHour = minutes 60"
| "width GranularityDay = 24 * minutes 60"

definition TruncateToBucket :: "Granularity \<Rightarrow> time \<Rightarrow> time" where
  "TruncateToBucket g t = t div width g * width g"

definition Next :: "Granularity \<Rightarrow> time \<Rightarrow> time" where
  "Next g t = t + width g"

text \<open>\<open>BucketExpr\<close> is the same truncation in SQL, built from the parts of the date that \<open>strftime\<close> gives.\<close>

definition BucketExpr :: "Granularity \<Rightarrow> time \<Rightarrow> time" where
  "BucketExpr g t =
    (let day = t div (24 * minutes 60) * (24 * minutes 60); H = t mod (24 * minutes 60) div minutes 60; M = t mod minutes 60 div minutes 1
     in case g of GranularityDay \<Rightarrow> day
        | GranularityMinute \<Rightarrow> day + H * minutes 60 + M * minutes 1
        | Granularity5Min \<Rightarrow> day + H * minutes 60 + (M div 5 * 5) * minutes 1
        | GranularityHour \<Rightarrow> day + H * minutes 60)"

lemma width_pos [simp]: "0 < width g" "width g \<noteq> 0"
  by (cases g; simp add: minutes_def)+

function bucketsUpTo :: "Granularity \<Rightarrow> time \<Rightarrow> time \<Rightarrow> time list" where
  "bucketsUpTo g b end = (if b \<le> end then b # bucketsUpTo g (Next g b) end else [])"
  by auto
termination by (relation "measure (\<lambda>(g, b, end). nat (end + 1 - b))") (auto simp: Next_def)

declare bucketsUpTo.simps [simp del]

definition Sequence :: "Granularity \<Rightarrow> time \<Rightarrow> time \<Rightarrow> time list" where
  "Sequence g from to = bucketsUpTo g (TruncateToBucket g from) (TruncateToBucket g to)"

section \<open>What a sequence contains\<close>

lemma mod_parts:
  assumes "0 < (b::int)" "0 < c"
  shows "t div (b * c) * (b * c) + t mod (b * c) div c * c = t div c * c"
proof -
  have A: "t div (b * c) = t div c div b" using zdiv_zmult2_eq[of b t c] assms by (simp add: mult.commute)
  have "t mod (b * c) = c * (t div c mod b) + t mod c" using zmod_zmult2_eq[of b t c] assms by (simp add: mult.commute)
  then have B: "t mod (b * c) div c = t div c mod b" using assms by simp
  have "t div (b * c) * (b * c) + t mod (b * c) div c * c = (t div c div b * b + t div c mod b) * c"
    unfolding A B by (simp only: distrib_right mult.assoc)
  also have "\<dots> = t div c * c" by (simp only: div_mult_mod_eq)
  finally show ?thesis .
qed

lemma BucketExpr_truncates: "BucketExpr g t = TruncateToBucket g t"
proof -
  have H: "t div (24 * minutes 60) * (24 * minutes 60) + t mod (24 * minutes 60) div minutes 60 * minutes 60 = t div minutes 60 * minutes 60"
    by (rule mod_parts) (simp_all add: minutes_def)
  have M: "t div minutes 60 * minutes 60 + t mod minutes 60 div minutes 1 * minutes 1 = t div minutes 1 * minutes 1"
    using mod_parts[of 60 "minutes 1" t] by (simp add: minutes_def)
  have five: "t mod minutes 60 div minutes 1 div 5 * 5 * minutes 1 = t mod minutes 60 div minutes 5 * minutes 5"
    using zdiv_zmult2_eq[of 5 "t mod minutes 60" "minutes 1"] by (simp add: minutes_def)
  have F: "t div minutes 60 * minutes 60 + t mod minutes 60 div minutes 5 * minutes 5 = t div minutes 5 * minutes 5"
    using mod_parts[of 12 "minutes 5" t] by (simp add: minutes_def)
  show ?thesis using H M F by (cases g) (simp_all add: BucketExpr_def TruncateToBucket_def Let_def five)
qed

definition bucketCount :: "Granularity \<Rightarrow> time \<Rightarrow> time \<Rightarrow> nat" where
  "bucketCount g b end = nat ((end - b) div width g + 1)"

lemma bucketsUpTo_map: "bucketsUpTo g b end = map (\<lambda>k. b + int k * width g) [0..<bucketCount g b end]"
proof (induction g b "end" rule: bucketsUpTo.induct)
  case (1 g b "end")
  show ?case
  proof (cases "b \<le> end")
    case True
    have "(end - b) div width g = (end - Next g b) div width g + 1"
      using div_add_self2[of "width g" "end - Next g b"] by (simp add: Next_def)
    moreover have "0 \<le> (end - b) div width g" using True by (simp add: pos_imp_zdiv_nonneg_iff)
    ultimately have "bucketCount g b end = Suc (bucketCount g (Next g b) end)" by (simp add: bucketCount_def nat_add_distrib)
    then have "map (\<lambda>k. b + int k * width g) [0..<bucketCount g b end] = b # map (\<lambda>k. Next g b + int k * width g) [0..<bucketCount g (Next g b) end]"
      by (simp add: upt_conv_Cons map_Suc_upt[symmetric] Next_def algebra_simps del: upt_Suc)
    then show ?thesis using True 1 by (subst bucketsUpTo.simps) simp
  next
    case False
    then have "(end - b) div width g < 0" by (intro div_neg_pos_less0) simp_all
    then show ?thesis using False by (subst bucketsUpTo.simps) (simp add: bucketCount_def)
  qed
qed

lemma Sequence_map:
  "Sequence g from to = map (\<lambda>k. (from div width g + int k) * width g) [0..<nat (to div width g - from div width g + 1)]"
  by (simp add: Sequence_def bucketsUpTo_map bucketCount_def TruncateToBucket_def left_diff_distrib[symmetric] distrib_right)

lemma Sequence_sorted: "sorted_wrt (<) (Sequence g from to)"
  by (auto simp: Sequence_map sorted_wrt_map sorted_wrt_iff_nth_less)

lemma Sequence_set:
  assumes "from \<le> to"
  shows "set (Sequence g from to) = TruncateToBucket g ` {from..to}"
proof
  show "TruncateToBucket g ` {from..to} \<subseteq> set (Sequence g from to)"
  proof
    fix b assume "b \<in> TruncateToBucket g ` {from..to}"
    then obtain t where t: "b = t div width g * width g" "from \<le> t" "t \<le> to" by (auto simp: TruncateToBucket_def)
    then have "from div width g \<le> t div width g" "t div width g \<le> to div width g" by (simp_all add: zdiv_mono1)
    then show "b \<in> set (Sequence g from to)"
      unfolding Sequence_map t(1) by (auto intro!: image_eqI[of _ _ "nat (t div width g - from div width g)"])
  qed
  show "set (Sequence g from to) \<subseteq> TruncateToBucket g ` {from..to}"
  proof
    fix b assume "b \<in> set (Sequence g from to)"
    then obtain k where k: "b = (from div width g + int k) * width g" "k < nat (to div width g - from div width g + 1)"
      unfolding Sequence_map by auto
    define q where "q = from div width g + int k"
    have q: "b = q * width g" "from div width g \<le> q" "q \<le> to div width g" using k by (auto simp: q_def)
    define t where "t = max from b"
    have "b \<le> to" using q(1) mult_right_mono[OF q(3), of "width g"] div_mult_mod_eq[of to "width g"] pos_mod_sign[of "width g" to] width_pos(1)[of g]
      by linarith
    moreover have "t div width g = q"
    proof (cases "b \<le> from")
      case True
      then have "q \<le> from div width g" using zdiv_mono1[OF True width_pos(1), of g] q(1) by simp
      then show ?thesis using True q(2) by (simp add: t_def)
    qed (simp add: t_def q(1))
    ultimately show "b \<in> TruncateToBucket g ` {from..to}" using assms q(1)
      by (intro image_eqI[of _ _ t]) (auto simp: TruncateToBucket_def t_def)
  qed
qed

lemma Sequence_length: "length (Sequence g from to) = nat (to div width g - from div width g + 1)"
  by (simp add: Sequence_map)

lemma div_diff_le:
  assumes "0 < (w::int)" "to - from \<le> n * w"
  shows "to div w - from div w \<le> n"
proof -
  have "to div w \<le> (from + n * w) div w" using assms by (intro zdiv_mono1) simp_all
  also have "\<dots> = from div w + n" using assms(1) by simp
  finally show ?thesis by simp
qed

lemma Sequence_length_le:
  assumes "to - from \<le> n * width g"
  shows "length (Sequence g from to) \<le> nat (n + 1)"
  using div_diff_le[OF width_pos(1) assms] by (simp add: Sequence_length)

lemma Sequence_successive: "successively (\<lambda>a b. b = Next g a) (Sequence g from to)"
  by (auto simp: Sequence_map successively_conv_nth Next_def algebra_simps)

lemma Sequence_ends:
  assumes "from \<le> to"
  shows "Sequence g from to \<noteq> []" "hd (Sequence g from to) = TruncateToBucket g from"
    "List.last (Sequence g from to) = TruncateToBucket g to"
proof -
  have le: "from div width g \<le> to div width g" using assms by (simp add: zdiv_mono1)
  then show "Sequence g from to \<noteq> []" "hd (Sequence g from to) = TruncateToBucket g from"
    by (auto simp: Sequence_map TruncateToBucket_def hd_map)
  show "List.last (Sequence g from to) = TruncateToBucket g to"
    using le by (auto simp: Sequence_map TruncateToBucket_def last_map nat_add_distrib)
qed

text \<open>C25 (functional). The loop of \<open>Sequence\<close> returns, oldest first and each once, exactly the buckets in which the
  database groups the rows of the window: the truncations by the SQL expression of the granularity of the instants from
  \<open>from\<close> to \<open>to\<close>. They follow each other without a gap, each the \<open>Next\<close> of the one before, from the bucket of \<open>from\<close> to
  the bucket of \<open>to\<close>, so a series filled in from them has a place for every row.\<close>

theorem Sequence_covers_window:
  assumes "from \<le> to"
  shows "set (Sequence g from to) = BucketExpr g ` {from..to} \<and> sorted_wrt (<) (Sequence g from to) \<and>
    successively (\<lambda>a b. b = Next g a) (Sequence g from to) \<and>
    Sequence g from to \<noteq> [] \<and> hd (Sequence g from to) = TruncateToBucket g from \<and> List.last (Sequence g from to) = TruncateToBucket g to"
proof (intro conjI)
  show "set (Sequence g from to) = BucketExpr g ` {from..to}" by (simp add: Sequence_set[OF assms] BucketExpr_truncates)
qed (rule Sequence_sorted Sequence_successive Sequence_ends[OF assms])+

text \<open>For windows of up to five minutes, an hour and seven days the granularity that \<open>GranularityForWindow\<close> picks gives at
  most 6, 13 and 169 buckets.\<close>

lemma Sequence_bound:
  assumes "to - from \<le> 7 * 24 * minutes 60"
  shows "length (Sequence (GranularityForWindow (to - from)) from to) \<le>
    (case GranularityForWindow (to - from) of GranularityMinute \<Rightarrow> 6 | Granularity5Min \<Rightarrow> 13 | _ \<Rightarrow> 169)"
proof -
  consider "to - from \<le> minutes 5" | "minutes 5 < to - from" "to - from \<le> minutes 60" | "minutes 5 < to - from" "minutes 60 < to - from" by linarith
  then show ?thesis
  proof cases
    case 1
    then show ?thesis using Sequence_length_le[of to "from" 5 GranularityMinute] by (simp add: GranularityForWindow_def minutes_def)
  next
    case 2
    then show ?thesis using Sequence_length_le[of to "from" 12 Granularity5Min] by (simp add: GranularityForWindow_def minutes_def)
  next
    case 3
    then show ?thesis using assms Sequence_length_le[of to "from" 168 GranularityHour] by (simp add: GranularityForWindow_def minutes_def)
  qed
qed

text \<open>The bound is reached: a window of exactly seven days has 169 hourly buckets, the last one for its end.\<close>

lemma week_has_169_buckets: "length (Sequence (GranularityForWindow (7 * 24 * minutes 60)) 0 (7 * 24 * minutes 60)) = 169"
  by (simp add: Sequence_length GranularityForWindow_def minutes_def)

theorem Sequence_covers_window_witness:
  "set (Sequence Granularity5Min (minutes 7) (minutes 16)) = BucketExpr Granularity5Min ` {minutes 7..minutes 16} \<and>
   Sequence Granularity5Min (minutes 7) (minutes 16) = [minutes 5, minutes 10, minutes 15]"
proof
  show "set (Sequence Granularity5Min (minutes 7) (minutes 16)) = BucketExpr Granularity5Min ` {minutes 7..minutes 16}"
    using Sequence_covers_window[of "minutes 7" "minutes 16" Granularity5Min] by (simp add: minutes_def)
  show "Sequence Granularity5Min (minutes 7) (minutes 16) = [minutes 5, minutes 10, minutes 15]" by code_simp
qed

end
