(* ===== verification/Filterx.thy ===== *)
theory Filterx
  imports Base64 Timebucket "HOL-Library.Product_Lexorder"
begin

text \<open>
  The registry of filterable and sortable columns (\<open>src/internal/filterx\<close>, \<open>database/like.go\<close>): filters become SQL conditions,
  a sort becomes an \<open>ORDER BY\<close> clause and a page's last row a predicate for the rows after it.

  A condition is kept as its syntax tree \<open>cond\<close>, the tree that squirrel prints; \<open>eval\<close> gives it SQL's three-valued meaning on a row,
  where \<open>None\<close> is \<open>NULL\<close>. A row is what its columns and its correlated child rows hold. \<open>LIKE\<close> folds ASCII letters and is applied to
  text columns only, which is all that the registries allow. \<open>encoding/json\<close> is a record of functions with the law \<open>cursorLaw\<close>.
\<close>

section \<open>SQL conditions\<close>

datatype sqlval = VInt int | VTime int | VText string

instantiation sqlval :: linorder
begin

fun less_eq_sqlval :: "sqlval \<Rightarrow> sqlval \<Rightarrow> bool" where
  "less_eq_sqlval (VInt a) (VInt b) = (a \<le> b)"
| "less_eq_sqlval (VInt a) _ = True"
| "less_eq_sqlval (VTime a) (VInt b) = False"
| "less_eq_sqlval (VTime a) (VTime b) = (a \<le> b)"
| "less_eq_sqlval (VTime a) (VText b) = True"
| "less_eq_sqlval (VText a) (VText b) = (a \<le> b)"
| "less_eq_sqlval (VText a) _ = False"

definition less_sqlval :: "sqlval \<Rightarrow> sqlval \<Rightarrow> bool" where
  "less_sqlval a b = (a \<le> b \<and> \<not> b \<le> (a :: sqlval))"

instance
proof
  fix x y z :: sqlval
  show "(x < y) = (x \<le> y \<and> \<not> y \<le> x)" by (rule less_sqlval_def)
  show "x \<le> x" by (cases x) simp_all
  show "x \<le> y \<Longrightarrow> y \<le> z \<Longrightarrow> x \<le> z" by (cases x; cases y; cases z) auto
  show "x \<le> y \<Longrightarrow> y \<le> x \<Longrightarrow> x = y" by (cases x; cases y) auto
  show "x \<le> y \<or> y \<le> x" by (cases x; cases y) auto
qed

end

record env =
  e_col :: "string \<Rightarrow> sqlval option"
  e_children :: "string \<Rightarrow> (string \<Rightarrow> sqlval option) list"

datatype cond =
    CEq string sqlval | CLt string sqlval | CGt string sqlval | CLe string sqlval | CGe string sqlval
  | CIn string "sqlval list" | CNotIn string "sqlval list" | CIsNull string | CNotNull string
  | CLike string string | CNotLike string string
  | CExists string "(string \<times> sqlval list) option" | CNotExists string "(string \<times> sqlval list) option"
  | CAnd "cond list" | COr "cond list"

text \<open>\<open>LIKE\<close> with the backslash as escape character: a percent sign matches any text, an underscore any character.\<close>

definition backslash :: char where
  "backslash = CHR 0x5C"

fun like :: "string \<Rightarrow> string \<Rightarrow> bool" where
  "like [] x = (x = [])"
| "like (c # p) [] = (c = CHR ''%'' \<and> like p [])"
| "like (c # p) (d # x) =
    (if c = CHR ''%'' then like p (d # x) \<or> like (c # p) x
     else if c = backslash then (case p of [] \<Rightarrow> False | e # q \<Rightarrow> lowerChar e = lowerChar d \<and> like q x)
     else (c = CHR ''_'' \<or> lowerChar c = lowerChar d) \<and> like p x)"

definition and3 :: "bool option list \<Rightarrow> bool option" where
  "and3 bs = (if Some False \<in> set bs then Some False else if None \<in> set bs then None else Some True)"

definition or3 :: "bool option list \<Rightarrow> bool option" where
  "or3 bs = (if Some True \<in> set bs then Some True else if None \<in> set bs then None else Some False)"

definition likeVal :: "string \<Rightarrow> sqlval \<Rightarrow> bool option" where
  "likeVal p v = (case v of VText x \<Rightarrow> Some (like p x) | _ \<Rightarrow> None)"

fun selects :: "(string \<times> sqlval list) option \<Rightarrow> (string \<Rightarrow> sqlval option) \<Rightarrow> bool" where
  "selects None child = True"
| "selects (Some (c, vs)) child = (case child c of None \<Rightarrow> False | Some v \<Rightarrow> v \<in> set vs)"

lemma selects_iff: "selects (Some (c, vs)) child \<longleftrightarrow> (\<exists>v \<in> set vs. child c = Some v)"
  by (auto split: option.splits)

fun eval :: "env \<Rightarrow> cond \<Rightarrow> bool option" where
  "eval r (CEq e v) = map_option (\<lambda>x. x = v) (e_col r e)"
| "eval r (CLt e v) = map_option (\<lambda>x. x < v) (e_col r e)"
| "eval r (CGt e v) = map_option (\<lambda>x. x > v) (e_col r e)"
| "eval r (CLe e v) = map_option (\<lambda>x. x \<le> v) (e_col r e)"
| "eval r (CGe e v) = map_option (\<lambda>x. x \<ge> v) (e_col r e)"
| "eval r (CIn e vs) = map_option (\<lambda>x. x \<in> set vs) (e_col r e)"
| "eval r (CNotIn e vs) = map_option (\<lambda>x. x \<notin> set vs) (e_col r e)"
| "eval r (CIsNull e) = Some (e_col r e = None)"
| "eval r (CNotNull e) = Some (e_col r e \<noteq> None)"
| "eval r (CLike e p) = Option.bind (e_col r e) (likeVal p)"
| "eval r (CNotLike e p) = map_option Not (Option.bind (e_col r e) (likeVal p))"
| "eval r (CExists t w) = Some (list_ex (selects w) (e_children r t))"
| "eval r (CNotExists t w) = Some (\<not> list_ex (selects w) (e_children r t))"
| "eval r (CAnd cs) = and3 (map (eval r) cs)"
| "eval r (COr cs) = or3 (map (eval r) cs)"

definition holds :: "env \<Rightarrow> cond \<Rightarrow> bool" where
  "holds r c \<longleftrightarrow> eval r c = Some True"

lemma holds_and [simp]: "holds r (CAnd cs) \<longleftrightarrow> (\<forall>c \<in> set cs. holds r c)"
proof -
  have "and3 bs = Some True \<longleftrightarrow> (\<forall>b \<in> set bs. b = Some True)" for bs
    by (auto simp: and3_def) (metis (full_types) not_None_eq)
  then show ?thesis by (simp add: holds_def)
qed

lemma holds_or [simp]: "holds r (COr cs) \<longleftrightarrow> (\<exists>c \<in> set cs. holds r c)"
  by (auto simp: holds_def or3_def image_iff)

lemma holds_atom [simp]:
  "holds r (CEq e v) \<longleftrightarrow> e_col r e = Some v" "holds r (CIsNull e) \<longleftrightarrow> e_col r e = None" "holds r (CNotNull e) \<longleftrightarrow> e_col r e \<noteq> None"
  "holds r (CLt e v) \<longleftrightarrow> (\<exists>x. e_col r e = Some x \<and> x < v)" "holds r (CGt e v) \<longleftrightarrow> (\<exists>x. e_col r e = Some x \<and> x > v)"
  "holds r (CLe e v) \<longleftrightarrow> (\<exists>x. e_col r e = Some x \<and> x \<le> v)" "holds r (CGe e v) \<longleftrightarrow> (\<exists>x. e_col r e = Some x \<and> x \<ge> v)"
  "holds r (CIn e vs) \<longleftrightarrow> (\<exists>x. e_col r e = Some x \<and> x \<in> set vs)" "holds r (CNotIn e vs) \<longleftrightarrow> (\<exists>x. e_col r e = Some x \<and> x \<notin> set vs)"
  "holds r (CExists t w) \<longleftrightarrow> (\<exists>c \<in> set (e_children r t). selects w c)" "holds r (CNotExists t w) \<longleftrightarrow> \<not> (\<exists>c \<in> set (e_children r t). selects w c)"
  by (auto simp: holds_def list_ex_iff)

section \<open>Filters\<close>

datatype filter_err = ErrInvalidFilter | ErrMarshal

datatype Operator = OpIn | OpNotIn | OpContains | OpNotContains | OpIsNull | OpNotNull

definition MaxValues :: nat where
  "MaxValues = 200"

definition ParseOperator :: "string \<Rightarrow> (filter_err, Operator) result" where
  "ParseOperator s = (if s = [] then Inr OpIn else if s = ''in'' then Inr OpIn else if s = ''not_in'' then Inr OpNotIn
     else if s = ''contains'' then Inr OpContains else if s = ''not_contains'' then Inr OpNotContains
     else if s = ''is_null'' then Inr OpIsNull else if s = ''not_null'' then Inr OpNotNull else Inl ErrInvalidFilter)"

record Relational =
  rl_Correlated :: string
  rl_ValueCol :: string

record ColumnSpec =
  cs_Expr :: string
  cs_Nullable :: bool
  cs_Rel :: "Relational option"
  cs_Ops :: "Operator list"

definition allows :: "ColumnSpec \<Rightarrow> Operator \<Rightarrow> bool" where
  "allows s op \<longleftrightarrow> op \<in> set (cs_Ops s)"

record Filter =
  f_Column :: string
  f_Op :: Operator
  f_Values :: "sqlval list"

datatype ValueKind = KindString | KindInt | KindTime

record SortSpec =
  so_Expr :: string
  so_Kind :: ValueKind
  so_Nullable :: bool

record Registry =
  rg_cols :: "string \<Rightarrow> ColumnSpec option"
  rg_sorts :: "string \<Rightarrow> SortSpec option"
  rg_tieBreaker :: string

definition check :: "Registry \<Rightarrow> Filter \<Rightarrow> (filter_err, ColumnSpec) result" where
  "check r f = (case rg_cols r (f_Column f) of None \<Rightarrow> Inl ErrInvalidFilter
     | Some spec \<Rightarrow>
        if \<not> allows spec (f_Op f) then Inl ErrInvalidFilter
        else if f_Op f = OpIsNull \<or> f_Op f = OpNotNull then Inr spec
        else if f_Values f = [] then Inl ErrInvalidFilter
        else if length (f_Values f) > MaxValues then Inl ErrInvalidFilter
        else Inr spec)"

definition Validate :: "Registry \<Rightarrow> Filter \<Rightarrow> filter_err option" where
  "Validate r f = (case check r f of Inl e \<Rightarrow> Some e | Inr _ \<Rightarrow> None)"

definition ReplaceAll :: "char \<Rightarrow> string \<Rightarrow> string \<Rightarrow> string" where
  "ReplaceAll c new s = concat (map (\<lambda>x. if x = c then new else [x]) s)"

definition EscapeLIKE :: "string \<Rightarrow> string" where
  "EscapeLIKE s = ReplaceAll (CHR ''_'') [backslash, CHR ''_''] (ReplaceAll (CHR ''%'') [backslash, CHR ''%'']
     (ReplaceAll backslash [backslash, backslash] s))"

fun likeParts :: "string \<Rightarrow> bool \<Rightarrow> sqlval list \<Rightarrow> (filter_err, cond list) result" where
  "likeParts expr negate [] = Inr []"
| "likeParts expr negate (VText s # vs) = (case likeParts expr negate vs of Inl e \<Rightarrow> Inl e
     | Inr parts \<Rightarrow> (let pattern = ''%'' @ EscapeLIKE s @ ''%'' in Inr ((if negate then CNotLike expr pattern else CLike expr pattern) # parts)))"
| "likeParts expr negate (_ # vs) = Inl ErrInvalidFilter"

definition likeCondition :: "string \<Rightarrow> sqlval list \<Rightarrow> bool \<Rightarrow> (filter_err, cond) result" where
  "likeCondition expr values negate = (case likeParts expr negate values of Inl e \<Rightarrow> Inl e
     | Inr parts \<Rightarrow> Inr (if negate then CAnd parts else COr parts))"

definition scalarCondition :: "ColumnSpec \<Rightarrow> Filter \<Rightarrow> (filter_err, cond) result" where
  "scalarCondition spec f = (case f_Op f of
     OpIn \<Rightarrow> Inr (CIn (cs_Expr spec) (f_Values f))
   | OpNotIn \<Rightarrow> Inr (if cs_Nullable spec then COr [CIsNull (cs_Expr spec), CNotIn (cs_Expr spec) (f_Values f)]
       else CNotIn (cs_Expr spec) (f_Values f))
   | OpContains \<Rightarrow> likeCondition (cs_Expr spec) (f_Values f) False
   | OpNotContains \<Rightarrow> (case likeCondition (cs_Expr spec) (f_Values f) True of Inl e \<Rightarrow> Inl e
       | Inr c \<Rightarrow> Inr (if cs_Nullable spec then COr [CIsNull (cs_Expr spec), c] else c))
   | OpIsNull \<Rightarrow> Inr (CIsNull (cs_Expr spec))
   | OpNotNull \<Rightarrow> Inr (CNotNull (cs_Expr spec)))"

definition relationalCondition :: "Relational \<Rightarrow> Filter \<Rightarrow> (filter_err, cond) result" where
  "relationalCondition rel f = (case f_Op f of
     OpIn \<Rightarrow> Inr (CExists (rl_Correlated rel) (Some (rl_ValueCol rel, f_Values f)))
   | OpNotIn \<Rightarrow> Inr (CNotExists (rl_Correlated rel) (Some (rl_ValueCol rel, f_Values f)))
   | OpIsNull \<Rightarrow> Inr (CNotExists (rl_Correlated rel) None)
   | OpNotNull \<Rightarrow> Inr (CExists (rl_Correlated rel) None)
   | _ \<Rightarrow> Inl ErrInvalidFilter)"

definition Condition :: "Registry \<Rightarrow> Filter \<Rightarrow> (filter_err, cond) result" where
  "Condition r f = (case check r f of Inl e \<Rightarrow> Inl e
     | Inr spec \<Rightarrow> (case cs_Rel spec of Some rel \<Rightarrow> relationalCondition rel f | None \<Rightarrow> scalarCondition spec f))"

definition StringValues :: "string list option \<Rightarrow> sqlval list" where
  "StringValues values = (case values of None \<Rightarrow> [] | Some vs \<Rightarrow> map VText vs)"

definition Int64Values :: "int list option \<Rightarrow> sqlval list" where
  "Int64Values values = (case values of None \<Rightarrow> [] | Some vs \<Rightarrow> map VInt vs)"

definition ParseFilter :: "string \<Rightarrow> sqlval list \<Rightarrow> string option \<Rightarrow> (filter_err, Filter option) result" where
  "ParseFilter column values opPtr = (case (case opPtr of None \<Rightarrow> Inr OpIn | Some s \<Rightarrow> ParseOperator s) of Inl e \<Rightarrow> Inl e
     | Inr op \<Rightarrow> if values = [] \<and> op \<noteq> OpIsNull \<and> op \<noteq> OpNotNull then Inr None
         else Inr (Some \<lparr>f_Column = column, f_Op = op, f_Values = values\<rparr>))"

section \<open>Cursors\<close>

record Cursor =
  cu_Sort :: string
  cu_Order :: string
  cu_ID :: int
  cu_value :: "sqlval option"

record cursorToken =
  ct_Sort :: string
  ct_Order :: string
  ct_Value :: string
  ct_ID :: int

record cursorJSON =
  cj_marshalValue :: "sqlval option \<Rightarrow> string option"
  cj_unmarshalValue :: "ValueKind \<Rightarrow> string \<Rightarrow> sqlval option"
  cj_marshal :: "cursorToken \<Rightarrow> string option"
  cj_unmarshal :: "string \<Rightarrow> cursorToken option"

fun hasKind :: "ValueKind \<Rightarrow> sqlval \<Rightarrow> bool" where
  "hasKind KindString (VText _) = True"
| "hasKind KindInt (VInt _) = True"
| "hasKind KindTime (VTime _) = True"
| "hasKind _ _ = False"

text \<open>What JSON can carry: text in UTF-8 (here ASCII), 64-bit integers, times of the years 1 to 9999. Such values and tokens can be written
  and are read back, and only a missing value is written as \<open>null\<close>.\<close>

definition asciiText :: "string \<Rightarrow> bool" where
  "asciiText s \<longleftrightarrow> (\<forall>c \<in> set s. of_char c < (128 :: nat))"

definition int64 :: "int \<Rightarrow> bool" where
  "int64 i \<longleftrightarrow> - (2 ^ 63) \<le> i \<and> i < 2 ^ 63"

fun jsonSafe :: "sqlval \<Rightarrow> bool" where
  "jsonSafe (VText s) = asciiText s"
| "jsonSafe (VInt i) = int64 i"
| "jsonSafe (VTime t) = (zeroTime \<le> t \<and> t < 253402300800000000000)"

definition safeToken :: "cursorToken \<Rightarrow> bool" where
  "safeToken t \<longleftrightarrow> asciiText (ct_Sort t) \<and> asciiText (ct_Order t) \<and> asciiText (ct_Value t) \<and> int64 (ct_ID t)"

definition cursorLaw :: "cursorJSON \<Rightarrow> bool" where
  "cursorLaw j \<longleftrightarrow> (\<forall>t. safeToken t \<longrightarrow> (\<exists>b. cj_marshal j t = Some b \<and> b \<noteq> [] \<and> cj_unmarshal j b = Some t)) \<and> cj_marshalValue j None = Some ''null'' \<and>
     (\<forall>k v. hasKind k v \<and> jsonSafe v \<longrightarrow>
        (\<exists>raw. cj_marshalValue j (Some v) = Some raw \<and> asciiText raw \<and> raw \<noteq> ''null'' \<and> cj_unmarshalValue j k raw = Some v))"

definition decodeValue :: "cursorJSON \<Rightarrow> SortSpec \<Rightarrow> string \<Rightarrow> (filter_err, sqlval option) result" where
  "decodeValue j s raw = (if raw = ''null'' then Inr None
     else case cj_unmarshalValue j (so_Kind s) raw of None \<Rightarrow> Inl ErrInvalidFilter | Some v \<Rightarrow> Inr (Some v))"

definition SortableExists :: "Registry \<Rightarrow> string \<Rightarrow> bool" where
  "SortableExists r sortKey \<longleftrightarrow> rg_sorts r sortKey \<noteq> None"

definition normalizeOrder :: "string \<Rightarrow> (filter_err, string) result" where
  "normalizeOrder order = (if order = ''asc'' \<or> order = ''desc'' then Inr order else Inl ErrInvalidFilter)"

text \<open>An \<open>ORDER BY\<close> clause: the column and the tie breaker, both in the same direction.\<close>

record orderClause =
  oc_Expr :: string
  oc_TieBreaker :: string
  oc_Desc :: bool

definition OrderBy :: "Registry \<Rightarrow> string \<Rightarrow> string \<Rightarrow> (filter_err, orderClause) result" where
  "OrderBy r sortKey order = (case rg_sorts r sortKey of None \<Rightarrow> Inl ErrInvalidFilter
     | Some spec \<Rightarrow> (case normalizeOrder order of Inl e \<Rightarrow> Inl e
        | Inr ord \<Rightarrow> Inr \<lparr>oc_Expr = so_Expr spec, oc_TieBreaker = rg_tieBreaker r, oc_Desc = (ord = ''desc'')\<rparr>))"

definition EncodeCursor :: "cursorJSON \<Rightarrow> Registry \<Rightarrow> string \<Rightarrow> string \<Rightarrow> sqlval option \<Rightarrow> int \<Rightarrow> (filter_err, string) result" where
  "EncodeCursor j r sortKey order value i = (if rg_sorts r sortKey = None then Inl ErrInvalidFilter
     else case normalizeOrder order of Inl e \<Rightarrow> Inl e | Inr _ \<Rightarrow>
       (case cj_marshalValue j value of None \<Rightarrow> Inl ErrMarshal
        | Some raw \<Rightarrow> (case cj_marshal j \<lparr>ct_Sort = sortKey, ct_Order = order, ct_Value = raw, ct_ID = i\<rparr> of None \<Rightarrow> Inl ErrMarshal
            | Some b \<Rightarrow> Inr (b64encode b))))"

definition DecodeCursor :: "cursorJSON \<Rightarrow> Registry \<Rightarrow> string \<Rightarrow> (filter_err, Cursor) result" where
  "DecodeCursor j r token = (case DecodeString token of None \<Rightarrow> Inl ErrInvalidFilter
     | Some b \<Rightarrow> (case cj_unmarshal j b of None \<Rightarrow> Inl ErrInvalidFilter
     | Some t \<Rightarrow> (case rg_sorts r (ct_Sort t) of None \<Rightarrow> Inl ErrInvalidFilter
     | Some spec \<Rightarrow> (case normalizeOrder (ct_Order t) of Inl e \<Rightarrow> Inl e
     | Inr _ \<Rightarrow> (case decodeValue j spec (ct_Value t) of Inl e \<Rightarrow> Inl e
     | Inr val \<Rightarrow> Inr \<lparr>cu_Sort = ct_Sort t, cu_Order = ct_Order t, cu_ID = ct_ID t, cu_value = val\<rparr>)))))"

definition Keyset :: "Registry \<Rightarrow> Cursor \<Rightarrow> (filter_err, cond) result" where
  "Keyset r c = (case rg_sorts r (cu_Sort c) of None \<Rightarrow> Inl ErrInvalidFilter
     | Some spec \<Rightarrow> (let expr = so_Expr spec; tie = rg_tieBreaker r; desc = (cu_Order c = ''desc'') in
        Inr (case cu_value c of
          None \<Rightarrow> if desc then CAnd [CIsNull expr, CLt tie (VInt (cu_ID c))]
            else COr [CNotNull expr, CAnd [CIsNull expr, CGt tie (VInt (cu_ID c))]]
        | Some v \<Rightarrow> if desc then COr ([CLt expr v, CAnd [CEq expr v, CLt tie (VInt (cu_ID c))]] @
              (if so_Nullable spec then [CIsNull expr] else []))
            else COr [CGt expr v, CAnd [CEq expr v, CGt tie (VInt (cu_ID c))]])))"

section \<open>What a filter selects\<close>

definition escChar :: "char \<Rightarrow> string" where
  "escChar c = (if c \<in> {backslash, CHR ''%'', CHR ''_''} then [backslash, c] else [c])"

lemma EscapeLIKE_simps [simp]: "EscapeLIKE [] = []" "EscapeLIKE (c # s) = escChar c @ EscapeLIKE s"
  by (simp_all add: EscapeLIKE_def ReplaceAll_def escChar_def backslash_def)

lemma like_esc: "like (escChar c @ p) x \<longleftrightarrow> (\<exists>d y. x = d # y \<and> lowerChar c = lowerChar d \<and> like p y)"
  by (cases x) (auto simp: escChar_def backslash_def)

lemma like_percent: "like (CHR ''%'' # p) x \<longleftrightarrow> (\<exists>u v. x = u @ v \<and> like p v)"
proof (induction x)
  case (Cons d x)
  have "(\<exists>u v. d # x = u @ v \<and> like p v) \<longleftrightarrow> like p (d # x) \<or> (\<exists>u v. x = u @ v \<and> like p v)"
    by (auto simp: Cons_eq_append_conv)
  then show ?case using Cons.IH by simp
qed simp

lemma like_escaped: "like (EscapeLIKE s @ p) x \<longleftrightarrow> (\<exists>u v. x = u @ v \<and> ToLower u = ToLower s \<and> like p v)"
proof (induction s arbitrary: x)
  case (Cons c s)
  have "like (EscapeLIKE (c # s) @ p) x \<longleftrightarrow> (\<exists>d y. x = d # y \<and> lowerChar c = lowerChar d \<and> (\<exists>u v. y = u @ v \<and> ToLower u = ToLower s \<and> like p v))"
    by (simp only: EscapeLIKE_simps append_assoc like_esc Cons.IH)
  also have "\<dots> \<longleftrightarrow> (\<exists>u v. x = u @ v \<and> ToLower u = ToLower (c # s) \<and> like p v)" (is "?L \<longleftrightarrow> ?R")
  proof
    assume ?L
    then obtain d u v where "x = (d # u) @ v" "lowerChar c = lowerChar d" "ToLower u = ToLower s" "like p v" by auto
    then show ?R by (intro exI[of _ "d # u"] exI[of _ v]) (simp add: ToLower_def)
  next
    assume ?R
    then obtain u v where u: "x = u @ v" "ToLower u = ToLower (c # s)" "like p v" by blast
    then obtain d u' where "u = d # u'" "lowerChar d = lowerChar c" "ToLower u' = ToLower s" by (auto simp: ToLower_def map_eq_Cons_conv)
    then show ?L using u by auto
  qed
  finally show ?case .
qed (simp add: ToLower_def)

text \<open>The pattern built from a text finds exactly that text, whatever wildcards it holds.\<close>

lemma like_contains: "like (''%'' @ EscapeLIKE s @ ''%'') x \<longleftrightarrow> sublist (ToLower s) (ToLower x)"
proof -
  have any: "like [CHR ''%''] v" for v using like_percent[of "[]" v] by auto
  have "like (''%'' @ EscapeLIKE s @ ''%'') x \<longleftrightarrow> (\<exists>u m v. x = u @ m @ v \<and> ToLower m = ToLower s)"
    by (simp add: like_percent like_escaped any) blast
  also have "\<dots> \<longleftrightarrow> sublist (ToLower s) (ToLower x)"
  proof
    assume "\<exists>u m v. x = u @ m @ v \<and> ToLower m = ToLower s"
    then obtain u m v where "x = u @ m @ v" "map lowerChar m = map lowerChar s" by (auto simp: ToLower_def)
    then show "sublist (ToLower s) (ToLower x)" unfolding sublist_def ToLower_def by (metis map_append)
  next
    assume "sublist (ToLower s) (ToLower x)"
    then obtain u w where "map lowerChar x = u @ map lowerChar s @ w" by (auto simp: sublist_def ToLower_def)
    then show "\<exists>u m v. x = u @ m @ v \<and> ToLower m = ToLower s" by (auto simp: map_eq_append_conv append_eq_map_conv ToLower_def) metis
  qed
  finally show ?thesis .
qed

text \<open>The reference: what an operator asks of the cell, and of the values of the child rows.\<close>

definition cellMatches :: "Operator \<Rightarrow> sqlval list \<Rightarrow> sqlval option \<Rightarrow> bool" where
  "cellMatches op vs cell = (let isIn = (\<exists>v \<in> set vs. cell = Some v);
       contains = (\<exists>s x. VText s \<in> set vs \<and> cell = Some (VText x) \<and> sublist (ToLower s) (ToLower x)) in
     case op of OpIn \<Rightarrow> isIn | OpNotIn \<Rightarrow> \<not> isIn | OpContains \<Rightarrow> contains | OpNotContains \<Rightarrow> \<not> contains
       | OpIsNull \<Rightarrow> cell = None | OpNotNull \<Rightarrow> cell \<noteq> None)"

definition textIn :: "sqlval list \<Rightarrow> sqlval option \<Rightarrow> bool" where
  "textIn vs cell = (case cell of Some (VText x) \<Rightarrow> list_ex (\<lambda>v. case v of VText s \<Rightarrow> sublist (ToLower s) (ToLower x) | _ \<Rightarrow> False) vs | _ \<Rightarrow> False)"

lemma cellMatches_code [code]:
  "cellMatches op vs cell = (case op of OpIn \<Rightarrow> list_ex (\<lambda>v. cell = Some v) vs | OpNotIn \<Rightarrow> \<not> list_ex (\<lambda>v. cell = Some v) vs
     | OpContains \<Rightarrow> textIn vs cell | OpNotContains \<Rightarrow> \<not> textIn vs cell | OpIsNull \<Rightarrow> cell = None | OpNotNull \<Rightarrow> cell \<noteq> None)"
proof -
  have "textIn vs cell \<longleftrightarrow> (\<exists>s x. VText s \<in> set vs \<and> cell = Some (VText x) \<and> sublist (ToLower s) (ToLower x))"
    by (auto simp: textIn_def list_ex_iff split: option.splits sqlval.splits)
  then show ?thesis by (simp add: cellMatches_def Let_def list_ex_iff split: Operator.split)
qed

definition childMatches :: "Operator \<Rightarrow> sqlval list \<Rightarrow> sqlval option list \<Rightarrow> bool" where
  "childMatches op vs cells = (let isIn = (\<exists>cell \<in> set cells. \<exists>v \<in> set vs. cell = Some v) in
     case op of OpIn \<Rightarrow> isIn | OpNotIn \<Rightarrow> \<not> isIn | OpIsNull \<Rightarrow> cells = [] | OpNotNull \<Rightarrow> cells \<noteq> [] | _ \<Rightarrow> False)"

definition filterMatches :: "ColumnSpec \<Rightarrow> Filter \<Rightarrow> env \<Rightarrow> bool" where
  "filterMatches spec f row = (case cs_Rel spec of
     None \<Rightarrow> cellMatches (f_Op f) (f_Values f) (e_col row (cs_Expr spec))
   | Some rel \<Rightarrow> childMatches (f_Op f) (f_Values f) (map (\<lambda>child. child (rl_ValueCol rel)) (e_children row (rl_Correlated rel))))"

definition textCell :: "sqlval option \<Rightarrow> bool" where
  "textCell cell = (case cell of Some (VText _) \<Rightarrow> True | None \<Rightarrow> True | _ \<Rightarrow> False)"

lemma holds_children:
  "holds row (CExists t (Some (col, vs))) \<longleftrightarrow> (\<exists>child \<in> set (e_children row t). \<exists>v \<in> set vs. child col = Some v)"
  "holds row (CNotExists t (Some (col, vs))) \<longleftrightarrow> (\<forall>child \<in> set (e_children row t). \<forall>v \<in> set vs. child col \<noteq> Some v)"
  "holds row (CExists t None) \<longleftrightarrow> e_children row t \<noteq> []" "holds row (CNotExists t None) \<longleftrightarrow> e_children row t = []"
  by (auto simp: selects_iff simp del: selects.simps(2)) (metis list.set_intros(1) neq_Nil_conv)+

lemma relational_means:
  assumes "relationalCondition rel f = Inr c" "cs_Rel spec = Some rel"
  shows "holds row c \<longleftrightarrow> filterMatches spec f row"
proof (cases "f_Op f")
  case OpIn
  then have "c = CExists (rl_Correlated rel) (Some (rl_ValueCol rel, f_Values f))" using assms(1) by (simp add: relationalCondition_def)
  then show ?thesis using OpIn assms(2) by (simp only: holds_children) (simp add: filterMatches_def childMatches_def)
next
  case OpNotIn
  then have "c = CNotExists (rl_Correlated rel) (Some (rl_ValueCol rel, f_Values f))" using assms(1) by (simp add: relationalCondition_def)
  then show ?thesis using OpNotIn assms(2) by (simp only: holds_children) (simp add: filterMatches_def childMatches_def)
next
  case OpIsNull
  then have "c = CNotExists (rl_Correlated rel) None" using assms(1) by (simp add: relationalCondition_def)
  then show ?thesis using OpIsNull assms(2) by (simp only: holds_children) (simp add: filterMatches_def childMatches_def)
next
  case OpNotNull
  then have "c = CExists (rl_Correlated rel) None" using assms(1) by (simp add: relationalCondition_def)
  then show ?thesis using OpNotNull assms(2) by (simp only: holds_children) (simp add: filterMatches_def childMatches_def)
qed (use assms(1) in \<open>simp_all add: relationalCondition_def\<close>)

lemma holds_like:
  assumes "textCell (e_col row expr)"
  shows "holds row (CLike expr (CHR ''%'' # EscapeLIKE s @ ''%'')) \<longleftrightarrow> (\<exists>x. e_col row expr = Some (VText x) \<and> sublist (ToLower s) (ToLower x))"
    "holds row (CNotLike expr (CHR ''%'' # EscapeLIKE s @ ''%'')) \<longleftrightarrow> (\<exists>x. e_col row expr = Some (VText x) \<and> \<not> sublist (ToLower s) (ToLower x))"
  using assms like_contains[of s] by (auto simp: holds_def textCell_def likeVal_def split: option.splits sqlval.splits)

lemma likeParts_Inr:
  "likeParts expr negate vs = Inr parts \<Longrightarrow> \<exists>ss. vs = map VText ss \<and>
     parts = map (\<lambda>s. if negate then CNotLike expr (''%'' @ EscapeLIKE s @ ''%'') else CLike expr (''%'' @ EscapeLIKE s @ ''%'')) ss"
proof (induction expr negate vs arbitrary: parts rule: likeParts.induct)
  case (2 expr negate s vs)
  then obtain ps where ps: "likeParts expr negate vs = Inr ps"
    "parts = (if negate then CNotLike expr (''%'' @ EscapeLIKE s @ ''%'') else CLike expr (''%'' @ EscapeLIKE s @ ''%'')) # ps"
    by (auto simp: Let_def split: sum.splits)
  obtain ss where "vs = map VText ss" "ps = map (\<lambda>s. if negate then CNotLike expr (''%'' @ EscapeLIKE s @ ''%'') else CLike expr (''%'' @ EscapeLIKE s @ ''%'')) ss"
    using "2.IH"[OF ps(1)] by blast
  then show ?case using ps(2) by (intro exI[of _ "s # ss"]) simp
qed auto

lemma VText_image: "VText s \<in> VText ` S \<longleftrightarrow> s \<in> S"
  by auto

lemma holds_Condition:
  assumes "Condition r f = Inr c" "rg_cols r (f_Column f) = Some spec"
    "cs_Rel spec = None \<longrightarrow> cs_Nullable spec \<or> e_col row (cs_Expr spec) \<noteq> None"
    "f_Op f \<in> {OpContains, OpNotContains} \<longrightarrow> textCell (e_col row (cs_Expr spec))"
  shows "holds row c \<longleftrightarrow> filterMatches spec f row"
proof (cases "cs_Rel spec")
  case (Some rel)
  have c: "check r f = Inr spec" using assms(1,2) by (auto simp: Condition_def check_def split: if_splits)
  then show ?thesis using relational_means[OF _ Some] assms(1) Some by (simp add: Condition_def)
next
  case None
  have c: "check r f = Inr spec" using assms(1,2) by (auto simp: Condition_def check_def split: if_splits)
  then have sc: "scalarCondition spec f = Inr c" using assms(1) None by (simp add: Condition_def)
  show ?thesis
  proof (cases "f_Op f \<in> {OpContains, OpNotContains}")
    case True
    then have cell: "textCell (e_col row (cs_Expr spec))" using assms(4) by blast
    let ?neg = "f_Op f = OpNotContains"
    obtain parts where parts: "likeParts (cs_Expr spec) ?neg (f_Values f) = Inr parts"
      using sc True by (auto simp: scalarCondition_def likeCondition_def split: sum.splits)
    then obtain ss where ss: "f_Values f = map VText ss"
      "parts = map (\<lambda>s. if ?neg then CNotLike (cs_Expr spec) (''%'' @ EscapeLIKE s @ ''%'') else CLike (cs_Expr spec) (''%'' @ EscapeLIKE s @ ''%'')) ss"
      using likeParts_Inr by blast
    have "f_Values f \<noteq> []" using c True by (auto simp: check_def split: option.splits if_splits)
    then have some: "ss \<noteq> []" using ss by simp
    show ?thesis
    proof (cases ?neg)
      case True
      then have c: "c = (if cs_Nullable spec then COr [CIsNull (cs_Expr spec), CAnd parts] else CAnd parts)"
        using sc parts by (simp add: scalarCondition_def likeCondition_def)
      have "(\<forall>p \<in> set parts. holds row p) \<longleftrightarrow> (\<exists>x. e_col row (cs_Expr spec) = Some (VText x) \<and> (\<forall>s \<in> set ss. \<not> sublist (ToLower s) (ToLower x)))"
        unfolding ss(2) using True some by (auto simp: holds_like[OF cell] neq_Nil_conv)
      then have "holds row c \<longleftrightarrow> \<not> (\<exists>s x. s \<in> set ss \<and> e_col row (cs_Expr spec) = Some (VText x) \<and> sublist (ToLower s) (ToLower x))"
        unfolding c using assms(3) None cell by (auto simp: textCell_def split: option.splits sqlval.splits)
      then show ?thesis using True None ss(1) by (simp add: filterMatches_def cellMatches_def VText_image)
    next
      case False
      then have op: "f_Op f = OpContains" using True by simp
      then have c: "c = COr parts" using sc parts by (simp add: scalarCondition_def likeCondition_def)
      have "holds row c \<longleftrightarrow> (\<exists>s x. s \<in> set ss \<and> e_col row (cs_Expr spec) = Some (VText x) \<and> sublist (ToLower s) (ToLower x))"
        unfolding c ss(2) using False by (auto simp: holds_like[OF cell])
      then show ?thesis using op None ss(1) by (simp add: filterMatches_def cellMatches_def VText_image)
    qed
  next
    case False
    then show ?thesis using sc None assms(3)
      by (cases "f_Op f"; cases "e_col row (cs_Expr spec)") (auto simp: scalarCondition_def filterMatches_def cellMatches_def Let_def split: if_splits)
  qed
qed

text \<open>C24 (equivalence). The condition that a filter is turned into selects exactly the rows that the filter means,
  with SQL's three-valued logic: \<open>in\<close> and \<open>contains\<close> (without regard to case, wildcards taken literally) need a value, their negations are
  true complements so that rows without a value are not dropped, and on child rows the operators ask for the existence of one.
  It holds for columns that are declared nullable and for all rows with a value; \<open>contains\<close> is for text.\<close>

theorem condition_means_filter:
  assumes "Condition r f = Inr c" "rg_cols r (f_Column f) = Some spec"
    "cs_Rel spec = None \<longrightarrow> cs_Nullable spec \<or> e_col row (cs_Expr spec) \<noteq> None"
    "f_Op f \<in> {OpContains, OpNotContains} \<longrightarrow> textCell (e_col row (cs_Expr spec))"
  shows "holds row c \<longleftrightarrow> filterMatches spec f row"
  by (rule holds_Condition[OF assms])

definition sampleRegistry :: Registry where
  "sampleRegistry = \<lparr>rg_cols = (\<lambda>c. if c = ''host'' then Some \<lparr>cs_Expr = ''h'', cs_Nullable = True, cs_Rel = None, cs_Ops = [OpNotContains]\<rparr> else None),
     rg_sorts = (\<lambda>_. None), rg_tieBreaker = ''id''\<rparr>"

definition sampleFilter :: Filter where
  "sampleFilter = \<lparr>f_Column = ''host'', f_Op = OpNotContains, f_Values = [VText ''%'']\<rparr>"

theorem condition_means_filter_witness:
  "\<exists>c. Condition sampleRegistry sampleFilter = Inr c \<and> holds \<lparr>e_col = (\<lambda>_. None), e_children = (\<lambda>_. [])\<rparr> c \<and>
     holds \<lparr>e_col = (\<lambda>_. Some (VText ''a'')), e_children = (\<lambda>_. [])\<rparr> c \<and> \<not> holds \<lparr>e_col = (\<lambda>_. Some (VText ''5%'')), e_children = (\<lambda>_. [])\<rparr> c"
proof -
  obtain c where c: "Condition sampleRegistry sampleFilter = Inr c"
    by (simp add: Condition_def check_def sampleRegistry_def sampleFilter_def allows_def MaxValues_def scalarCondition_def likeCondition_def Let_def)
  have spec: "rg_cols sampleRegistry (f_Column sampleFilter) = Some \<lparr>cs_Expr = ''h'', cs_Nullable = True, cs_Rel = None, cs_Ops = [OpNotContains]\<rparr>"
    by (simp add: sampleRegistry_def sampleFilter_def)
  note means = condition_means_filter[OF c spec, unfolded filterMatches_def, simplified]
  have sub: "\<not> sublist (ToLower ''%'') (ToLower ''a'')" "sublist (ToLower ''%'') (ToLower ''5%'')" by code_simp+
  show ?thesis
    by (intro exI[of _ c] conjI c) (use means sub in \<open>simp_all add: cellMatches_def sampleFilter_def textCell_def\<close>)
qed

section \<open>Pages\<close>

lemma cursor_roundtrip:
  assumes "cursorLaw j" "rg_sorts r sortKey = Some spec" "order \<in> {''asc'', ''desc''}"
    "v = None \<or> (\<exists>x. v = Some x \<and> hasKind (so_Kind spec) x \<and> jsonSafe x)" "asciiText sortKey" "int64 i"
  shows "\<exists>token. EncodeCursor j r sortKey order v i = Inr token \<and> token \<noteq> [] \<and>
    DecodeCursor j r token = Inr \<lparr>cu_Sort = sortKey, cu_Order = order, cu_ID = i, cu_value = v\<rparr>"
proof -
  have "asciiText ''null''" "asciiText order" using assms(3) by (auto simp: asciiText_def)
  note ascii = this assms(5,6)
  obtain raw where raw: "cj_marshalValue j v = Some raw" "decodeValue j spec raw = Inr v" "asciiText raw"
  proof (cases v)
    case (Some x)
    then have "hasKind (so_Kind spec) x \<and> jsonSafe x" using assms(4) by simp
    then obtain raw where "cj_marshalValue j (Some x) = Some raw" "asciiText raw" "raw \<noteq> ''null''" "cj_unmarshalValue j (so_Kind spec) raw = Some x"
      using assms(1) unfolding cursorLaw_def by blast
    then show thesis using that Some by (simp add: decodeValue_def)
  qed (use that assms(1) ascii in \<open>simp add: cursorLaw_def decodeValue_def\<close>)
  have "safeToken \<lparr>ct_Sort = sortKey, ct_Order = order, ct_Value = raw, ct_ID = i\<rparr>" using raw(3) ascii by (simp add: safeToken_def)
  then obtain b where b: "cj_marshal j \<lparr>ct_Sort = sortKey, ct_Order = order, ct_Value = raw, ct_ID = i\<rparr> = Some b" "b \<noteq> []"
      "cj_unmarshal j b = Some \<lparr>ct_Sort = sortKey, ct_Order = order, ct_Value = raw, ct_ID = i\<rparr>"
    using assms(1) unfolding cursorLaw_def by blast
  have "b64encode b \<noteq> []" using b(2) by (cases b rule: b64encode.cases) auto
  then show ?thesis using assms(2,3) raw b
    by (auto simp: EncodeCursor_def DecodeCursor_def normalizeOrder_def DecodeString_encode intro!: exI[of _ "b64encode b"])
qed

text \<open>The order that \<open>ORDER BY\<close> gives rows: values with \<open>NULL\<close> below all others, then the tie breaker, reversed for descending.\<close>

definition orderKey :: "orderClause \<Rightarrow> env \<Rightarrow> sqlval option \<times> sqlval option" where
  "orderKey oc row = (e_col row (oc_Expr oc), e_col row (oc_TieBreaker oc))"

definition before :: "orderClause \<Rightarrow> env \<Rightarrow> env \<Rightarrow> bool" where
  "before oc a b \<longleftrightarrow> (if oc_Desc oc then orderKey oc b < orderKey oc a else orderKey oc a < orderKey oc b)"

lemma keyset_after:
  assumes "OrderBy r (cu_Sort c) (cu_Order c) = Inr oc" "rg_sorts r (cu_Sort c) = Some spec" "Keyset r c = Inr p"
    "cu_value c = e_col a (so_Expr spec)" "e_col a (rg_tieBreaker r) = Some (VInt (cu_ID c))" "e_col b (rg_tieBreaker r) = Some (VInt i)"
    "so_Nullable spec \<or> e_col b (so_Expr spec) \<noteq> None"
  shows "holds b p \<longleftrightarrow> before oc a b"
proof -
  have oc: "oc = \<lparr>oc_Expr = so_Expr spec, oc_TieBreaker = rg_tieBreaker r, oc_Desc = (cu_Order c = ''desc'')\<rparr>"
    using assms(1,2) by (auto simp: OrderBy_def normalizeOrder_def split: if_splits)
  have lt: "VInt x < VInt y \<longleftrightarrow> x < y" for x y by (auto simp: less_sqlval_def)
  show ?thesis
  proof (cases "cu_Order c = ''desc''")
    case True
    then show ?thesis using assms(2-7) oc
      by (cases "e_col a (so_Expr spec)"; cases "e_col b (so_Expr spec)") (auto simp: Keyset_def Let_def before_def orderKey_def lt)
  next
    case False
    then show ?thesis using assms(2-7) oc
      by (cases "e_col a (so_Expr spec)"; cases "e_col b (so_Expr spec)") (auto simp: Keyset_def Let_def before_def orderKey_def lt)
  qed
qed

end
