(* ===== verification/Grouping.thy ===== *)
theory Grouping
  imports Prelude
begin

text \<open>
  \<open>GROUP BY\<close>: the groups of a list of rows under a key, in the order of the keys. What an aggregate over all rows has to do
  with the aggregates of the groups is shown here once, for the access log, its histogram and the hourly rollups.
\<close>

definition groupBy :: "('a \<Rightarrow> 'k::linorder) \<Rightarrow> 'a list \<Rightarrow> ('k \<times> 'a list) list" where
  "groupBy f xs = map (\<lambda>k. (k, filter (\<lambda>x. f x = k) xs)) (sort (remdups (map f xs)))"

lemma sum_one:
  "distinct ks \<Longrightarrow> k \<in> set ks \<Longrightarrow> (\<Sum>j \<leftarrow> ks. if k = j then c else 0) = (c :: 'c::comm_monoid_add)"
proof (induction ks)
  case (Cons j ks)
  have "(\<Sum>i \<leftarrow> ks. if j = i then c else 0) = 0" if "j \<notin> set ks" using that by (induction ks) auto
  then show ?case using Cons by auto
qed simp

lemma sum_partition:
  fixes h :: "'a \<Rightarrow> 'c::comm_monoid_add"
  assumes "distinct ks" "\<forall>x \<in> set xs. f x \<in> set ks"
  shows "(\<Sum>k \<leftarrow> ks. \<Sum>x \<leftarrow> filter (\<lambda>x. f x = k) xs. h x) = (\<Sum>x \<leftarrow> xs. h x)"
  using assms(2)
proof (induction xs)
  case (Cons x xs)
  have "(\<Sum>k \<leftarrow> ks. \<Sum>y \<leftarrow> filter (\<lambda>y. f y = k) (x # xs). h y) =
      (\<Sum>k \<leftarrow> ks. (if f x = k then h x else 0) + (\<Sum>y \<leftarrow> filter (\<lambda>y. f y = k) xs. h y))"
    by (rule arg_cong[where f = sum_list], rule map_cong) auto
  also have "\<dots> = h x + (\<Sum>x \<leftarrow> xs. h x)" using Cons assms(1) by (simp add: sum_list_addf sum_one)
  finally show ?case by simp
qed simp

lemma length_partition:
  assumes "distinct ks" "\<forall>x \<in> set xs. f x \<in> set ks"
  shows "(\<Sum>k \<leftarrow> ks. length (filter (\<lambda>x. f x = k) xs)) = length xs"
  using sum_partition[OF assms, where h = "\<lambda>_. 1 :: nat"] by (simp add: sum_list_triv)

lemma groupBy_keys [simp]: "map fst (groupBy f xs) = sort (remdups (map f xs))"
  by (simp add: groupBy_def comp_def)

lemma groupBy_distinct: "distinct (map fst (groupBy f xs))"
  by simp

lemma groupBy_set: "set (groupBy f xs) = (\<lambda>k. (k, filter (\<lambda>x. f x = k) xs)) ` f ` set xs"
  by (simp add: groupBy_def)

lemma groupBy_mem: "(k, ys) \<in> set (groupBy f xs) \<longleftrightarrow> k \<in> f ` set xs \<and> ys = filter (\<lambda>x. f x = k) xs"
  by (auto simp: groupBy_set)

lemma groupBy_nonempty: "(k, ys) \<in> set (groupBy f xs) \<Longrightarrow> ys \<noteq> []"
  by (auto simp: groupBy_mem filter_empty_conv)

lemma sum_groupBy:
  fixes h :: "'a \<Rightarrow> 'c::comm_monoid_add"
  shows "(\<Sum>g \<leftarrow> groupBy f xs. \<Sum>x \<leftarrow> snd g. h x) = (\<Sum>x \<leftarrow> xs. h x)"
  using sum_partition[of "sort (remdups (map f xs))" xs f h] by (simp add: groupBy_def comp_def)

lemma group_keys_filter:
  "filter (\<lambda>k. \<exists>x \<in> set xs. f x = k \<and> Q x) (sort (remdups (map f xs))) = sort (remdups (map f (filter Q xs)))"
proof (rule sorted_distinct_set_unique)
  have "k \<in> f ` set xs \<and> (\<exists>x \<in> set xs. f x = k \<and> Q x) \<longleftrightarrow> k \<in> f ` {x \<in> set xs. Q x}" for k
    unfolding image_iff by (metis (mono_tags, lifting) mem_Collect_eq)
  then show "set (filter (\<lambda>k. \<exists>x \<in> set xs. f x = k \<and> Q x) (sort (remdups (map f xs)))) = set (sort (remdups (map f (filter Q xs))))"
    unfolding set_filter set_sort set_remdups set_map by blast
qed (simp_all add: sorted_wrt_filter)

lemma group_keys_cong: "f ` set xs = g ` set ys \<Longrightarrow> sort (remdups (map f xs)) = sort (remdups (map g ys))"
  by (metis set_map sorted_list_of_set_sort_remdups)

lemma groupBy_map: "groupBy f (map h xs) = map (\<lambda>(k, ys). (k, map h ys)) (groupBy (\<lambda>x. f (h x)) xs)"
  by (simp add: groupBy_def comp_def filter_map)

lemma groupBy_cong: "(\<And>x. x \<in> set xs \<Longrightarrow> f x = g x) \<Longrightarrow> groupBy f xs = groupBy g xs"
  by (auto simp: groupBy_def intro!: filter_cong cong: map_cong)

lemma groupBy_filter: "filter (\<lambda>g. Q (fst g)) (groupBy f xs) = groupBy f (filter (\<lambda>x. Q (f x)) xs)"
proof -
  have keys: "sort (remdups (map f (filter (\<lambda>x. Q (f x)) xs))) = filter Q (sort (remdups (map f xs)))"
    unfolding group_keys_filter[symmetric] by (rule filter_cong[OF refl]) auto
  have "filter (\<lambda>x. f x = k) (filter (\<lambda>x. Q (f x)) xs) = filter (\<lambda>x. f x = k) xs" if "Q k" for k
    using that by (auto simp: filter_filter intro!: filter_cong)
  then show ?thesis unfolding groupBy_def keys filter_map comp_def fst_conv by (auto intro!: map_cong)
qed

lemma distinct_groupBy:
  assumes "\<And>x y. x \<in> set xs \<Longrightarrow> y \<in> set xs \<Longrightarrow> h x = h y \<Longrightarrow> f x = f y"
  shows "(\<Sum>g \<leftarrow> groupBy f xs. length (remdups (map h (snd g)))) = length (remdups (map h xs))"
proof -
  let ?part = "\<lambda>k. h ` {x \<in> set xs. f x = k}"
  have "(\<Sum>g \<leftarrow> groupBy f xs. length (remdups (map h (snd g)))) = (\<Sum>k \<leftarrow> sort (remdups (map f xs)). card (?part k))"
    by (simp add: groupBy_def comp_def length_remdups_card_conv)
  also have "\<dots> = (\<Sum>k \<in> f ` set xs. card (?part k))" by (simp add: sum_list_distinct_conv_sum_set)
  also have "\<dots> = card (\<Union>k \<in> f ` set xs. ?part k)"
  proof (rule card_UN_disjoint[symmetric])
    show "\<forall>k \<in> f ` set xs. \<forall>l \<in> f ` set xs. k \<noteq> l \<longrightarrow> ?part k \<inter> ?part l = {}"
    proof (intro ballI impI equals0I)
      fix k l z assume ne: "k \<noteq> l" and z: "z \<in> ?part k \<inter> ?part l"
      obtain x where x: "x \<in> set xs" "f x = k" "h x = z" using z by auto
      obtain y where y: "y \<in> set xs" "f y = l" "h y = z" using z by auto
      show False using assms[OF x(1) y(1)] x y ne by simp
    qed
  qed simp_all
  also have "(\<Union>k \<in> f ` set xs. ?part k) = h ` set xs" by auto
  finally show ?thesis by (simp add: length_remdups_card_conv)
qed

end
