(* ===== verification/Access_Log_View.thy ===== *)
theory Access_Log_View
  imports Access_Log Filterx Timebucket Grouping "HOL-Library.Countable"
begin

text \<open>
  The read side of the access log (\<open>src/internal/accesslog/\<close> \<open>access_log_view.go\<close>, \<open>access_log_histogram_view.go\<close>,
  \<open>handler_access_log.go\<close>): parameters become a query, a query a page of rows or a histogram, a page a response with the cursor of
  the next one.

  A row of \<open>access_log\<close> with its joins is the environment \<open>logEnv\<close> in which the conditions of \<open>Filterx\<close> are evaluated; the two flags
  say which child tables the statement joins, and a column of a table that is not joined has no value. \<open>encoding/json\<close> is an
  argument. Times are instants: the driver writes all of them in UTC, in a text format that sorts like the instants.
\<close>

section \<open>The registry\<close>

definition defaultWindow :: time where
  "defaultWindow = 24 * minutes 60"



definition contributorCorrelated :: string where
  "contributorCorrelated = ''SELECT 1 FROM access_log_contributors c WHERE c.access_log_id = ral.id''"

definition accessLogColumns :: "(string \<times> ColumnSpec) list" where
  "accessLogColumns =
    [(''client_ip'', \<lparr>cs_Expr = ''ral.client_ip'', cs_Nullable = False, cs_Rel = None, cs_Ops = [OpIn, OpNotIn, OpContains, OpNotContains]\<rparr>),
     (''target_host'', \<lparr>cs_Expr = ''ral.target_host'', cs_Nullable = True, cs_Rel = None,
        cs_Ops = [OpIn, OpNotIn, OpContains, OpNotContains, OpIsNull, OpNotNull]\<rparr>),
     (''target_uri'', \<lparr>cs_Expr = ''ral.target_uri'', cs_Nullable = True, cs_Rel = None,
        cs_Ops = [OpIn, OpNotIn, OpContains, OpNotContains, OpIsNull, OpNotNull]\<rparr>),
     (''http_method'', \<lparr>cs_Expr = ''ral.http_method'', cs_Nullable = True, cs_Rel = None, cs_Ops = [OpIn, OpNotIn]\<rparr>),
     (''deny_reason'', \<lparr>cs_Expr = ''ral.deny_reason'', cs_Nullable = True, cs_Rel = None, cs_Ops = [OpIn, OpNotIn, OpIsNull, OpNotNull]\<rparr>),
     (''country_code'', \<lparr>cs_Expr = ''g.country_code'', cs_Nullable = True, cs_Rel = None, cs_Ops = [OpIn, OpNotIn, OpIsNull, OpNotNull]\<rparr>),
     (''network_policy'', \<lparr>cs_Expr = ''anpc.policy_id'', cs_Nullable = True, cs_Rel = None, cs_Ops = [OpIn, OpNotIn, OpIsNull, OpNotNull]\<rparr>),
     (''device'', \<lparr>cs_Expr = [], cs_Nullable = False, cs_Rel = Some \<lparr>rl_Correlated = contributorCorrelated, rl_ValueCol = ''c.device_id''\<rparr>,
        cs_Ops = [OpIn, OpNotIn, OpIsNull, OpNotNull]\<rparr>),
     (''user'', \<lparr>cs_Expr = [], cs_Nullable = False, cs_Rel = Some \<lparr>rl_Correlated = contributorCorrelated, rl_ValueCol = ''c.user_id''\<rparr>,
        cs_Ops = [OpIn, OpNotIn]\<rparr>)]"

definition accessLogSorts :: "(string \<times> SortSpec) list" where
  "accessLogSorts =
    [(''created_at'', \<lparr>so_Expr = ''ral.created_at'', so_Kind = KindTime, so_Nullable = False\<rparr>),
     (''client_ip'', \<lparr>so_Expr = ''ral.client_ip'', so_Kind = KindString, so_Nullable = False\<rparr>),
     (''target_host'', \<lparr>so_Expr = ''ral.target_host'', so_Kind = KindString, so_Nullable = True\<rparr>),
     (''http_method'', \<lparr>so_Expr = ''ral.http_method'', so_Kind = KindString, so_Nullable = True\<rparr>),
     (''deny_reason'', \<lparr>so_Expr = ''ral.deny_reason'', so_Kind = KindString, so_Nullable = True\<rparr>),
     (''duration_us'', \<lparr>so_Expr = ''ral.duration_us'', so_Kind = KindInt, so_Nullable = False\<rparr>),
     (''outcome'', \<lparr>so_Expr = ''ral.outcome'', so_Kind = KindInt, so_Nullable = False\<rparr>)]"

definition accessLogRegistry :: Registry where
  "accessLogRegistry = \<lparr>rg_cols = map_of accessLogColumns, rg_sorts = map_of accessLogSorts, rg_tieBreaker = ''ral.id''\<rparr>"

section \<open>Queries\<close>

record accessLogFilterParams =
  fp_From :: "time option"
  fp_To :: "time option"
  fp_Outcome :: "bool option"
  fp_ClientIP :: "string list option"
  fp_ClientIPOp :: "string option"
  fp_TargetHost :: "string list option"
  fp_TargetHostOp :: "string option"
  fp_TargetURI :: "string list option"
  fp_TargetURIOp :: "string option"
  fp_HTTPMethod :: "string list option"
  fp_HTTPMethodOp :: "string option"
  fp_DenyReason :: "string list option"
  fp_DenyReasonOp :: "string option"
  fp_CountryCode :: "string list option"
  fp_CountryCodeOp :: "string option"
  fp_DeviceID :: "id list option"
  fp_DeviceIDOp :: "string option"
  fp_UserID :: "id list option"
  fp_UserIDOp :: "string option"
  fp_NetworkPolicyID :: "id list option"
  fp_NetworkPolicyIDOp :: "string option"

record GetAccessLogParams =
  gp_Filter :: accessLogFilterParams
  gp_Sort :: "string option"
  gp_Order :: "string option"
  gp_Cursor :: "string option"
  gp_Limit :: "int option"

record AccessLogQuery =
  q_From :: time
  q_To :: time
  q_Outcome :: "bool option"
  q_Filters :: "Filter list"
  q_Sort :: string
  q_Order :: string
  q_Cursor :: "Cursor option"
  q_Limit :: int

definition valueFilters :: "accessLogFilterParams \<Rightarrow> (string \<times> sqlval list \<times> string option) list" where
  "valueFilters p =
    [(''client_ip'', StringValues (fp_ClientIP p), fp_ClientIPOp p),
     (''target_host'', StringValues (fp_TargetHost p), fp_TargetHostOp p),
     (''target_uri'', StringValues (fp_TargetURI p), fp_TargetURIOp p),
     (''http_method'', StringValues (fp_HTTPMethod p), fp_HTTPMethodOp p),
     (''deny_reason'', StringValues (fp_DenyReason p), fp_DenyReasonOp p),
     (''country_code'', StringValues (fp_CountryCode p), fp_CountryCodeOp p),
     (''device'', Int64Values (fp_DeviceID p), fp_DeviceIDOp p),
     (''user'', Int64Values (fp_UserID p), fp_UserIDOp p),
     (''network_policy'', Int64Values (fp_NetworkPolicyID p), fp_NetworkPolicyIDOp p)]"

fun collectFilters :: "(string \<times> sqlval list \<times> string option) list \<Rightarrow> (filter_err, Filter list) result" where
  "collectFilters [] = Inr []"
| "collectFilters ((column, vals, op) # vfs) = (case ParseFilter column vals op of Inl e \<Rightarrow> Inl e
     | Inr None \<Rightarrow> collectFilters vfs
     | Inr (Some f) \<Rightarrow> (case Validate accessLogRegistry f of Some e \<Rightarrow> Inl e
         | None \<Rightarrow> (case collectFilters vfs of Inl e \<Rightarrow> Inl e | Inr fs \<Rightarrow> Inr (f # fs))))"

definition newAccessLogQuery :: "time \<Rightarrow> accessLogFilterParams \<Rightarrow> (filter_err, AccessLogQuery) result" where
  "newAccessLogQuery now p =
    (let from = (case fp_From p of Some t \<Rightarrow> t | None \<Rightarrow> now - defaultWindow);
         to = (case fp_To p of Some t \<Rightarrow> t | None \<Rightarrow> now)
     in case collectFilters (valueFilters p) of Inl e \<Rightarrow> Inl e
        | Inr fs \<Rightarrow> Inr \<lparr>q_From = from, q_To = to, q_Outcome = fp_Outcome p, q_Filters = fs, q_Sort = [], q_Order = [], q_Cursor = None, q_Limit = 0\<rparr>)"



definition NewAccessLogHistogramQuery :: "time \<Rightarrow> accessLogFilterParams \<Rightarrow> (filter_err, AccessLogQuery) result" where
  "NewAccessLogHistogramQuery now p = newAccessLogQuery now p"


definition outcomeVal :: "bool \<Rightarrow> sqlval" where
  "outcomeVal b = VInt (if b then 1 else 0)"

fun filterConditions :: "Filter list \<Rightarrow> (filter_err, cond list) result" where
  "filterConditions [] = Inr []"
| "filterConditions (f # fs) = (case Condition accessLogRegistry f of Inl e \<Rightarrow> Inl e
     | Inr c \<Rightarrow> (case filterConditions fs of Inl e \<Rightarrow> Inl e | Inr cs \<Rightarrow> Inr (c # cs)))"

definition accessLogFilterConditions :: "AccessLogQuery \<Rightarrow> (filter_err, cond list) result" where
  "accessLogFilterConditions q = (case filterConditions (q_Filters q) of Inl e \<Rightarrow> Inl e
     | Inr cs \<Rightarrow> Inr ((case q_Outcome q of None \<Rightarrow> [] | Some b \<Rightarrow> [CEq ''ral.outcome'' (outcomeVal b)]) @ cs))"


definition accessLogFilterJoins :: "AccessLogQuery \<Rightarrow> bool \<times> bool" where
  "accessLogFilterJoins q = (list_ex (\<lambda>f. f_Column f = ''country_code'') (q_Filters q), list_ex (\<lambda>f. f_Column f = ''network_policy'') (q_Filters q))"

section \<open>Rows\<close>

definition geoipFor :: "store \<Rightarrow> AccessLogRow \<Rightarrow> LogGeoip option" where
  "geoipFor s r = List.find (\<lambda>g. lg_AccessLogID g = al_ID r) (st_logGeoip s)"

definition policyFor :: "store \<Rightarrow> AccessLogRow \<Rightarrow> LogPolicy option" where
  "policyFor s r = List.find (\<lambda>p. lp_AccessLogID p = al_ID r) (st_logPolicies s)"

definition logColumns :: "bool \<Rightarrow> bool \<Rightarrow> store \<Rightarrow> AccessLogRow \<Rightarrow> (string \<times> sqlval option) list" where
  "logColumns geoip policy s r =
    [(''ral.id'', Some (VInt (al_ID r))), (''ral.created_at'', Some (VTime (al_CreatedAt r))), (''ral.outcome'', Some (outcomeVal (al_Outcome r))),
     (''ral.deny_reason'', map_option VText (al_DenyReason r)), (''ral.client_ip'', Some (VText (al_ClientIP r))),
     (''ral.target_host'', map_option VText (al_TargetHost r)), (''ral.target_uri'', map_option VText (al_TargetURI r)),
     (''ral.http_method'', map_option VText (al_HTTPMethod r)), (''ral.duration_us'', Some (VInt (al_DurationUs r))),
     (''g.country_code'', if geoip then map_option (\<lambda>g. VText (lg_CountryCode g)) (geoipFor s r) else None),
     (''anpc.policy_id'', if policy then map_option VInt (Option.bind (policyFor s r) lp_PolicyID) else None)]"

definition contributorEnv :: "LogContributor \<Rightarrow> string \<Rightarrow> sqlval option" where
  "contributorEnv c col = (if col = ''c.device_id'' then Some (VInt (lc_DeviceID c)) else if col = ''c.user_id'' then Some (VInt (lc_UserID c)) else None)"

definition logEnv :: "bool \<Rightarrow> bool \<Rightarrow> store \<Rightarrow> AccessLogRow \<Rightarrow> env" where
  "logEnv geoip policy s r = \<lparr>e_col = (\<lambda>c. case map_of (logColumns geoip policy s r) c of None \<Rightarrow> None | Some v \<Rightarrow> v),
     e_children = (\<lambda>t. if t = contributorCorrelated then map contributorEnv (filter (\<lambda>c. lc_AccessLogID c = al_ID r) (st_logContributors s)) else [])\<rparr>"

record AccessLogContributor =
  cv_DeviceID :: "id option"
  cv_DeviceName :: "string option"
  cv_UserID :: "id option"
  cv_UserName :: "string option"
  cv_AddressID :: "id option"

record AccessLogView =
  v_ID :: id
  v_ClientIP :: string
  v_Outcome :: bool
  v_DenyReason :: "string option"
  v_Contributors :: "AccessLogContributor list"
  v_ContributorCount :: int
  v_CreatedAt :: time
  v_DurationUs :: int
  v_TargetHost :: "string option"
  v_TargetURI :: "string option"
  v_HTTPMethod :: "string option"
  v_CountryCode :: "string option"
  v_NetworkPolicyID :: "id option"
  v_NetworkPolicyName :: "string option"

definition toView :: "store \<Rightarrow> AccessLogRow \<Rightarrow> AccessLogView" where
  "toView s r = \<lparr>v_ID = al_ID r, v_ClientIP = al_ClientIP r, v_Outcome = al_Outcome r, v_DenyReason = al_DenyReason r, v_Contributors = [],
     v_ContributorCount = al_ContributorCount r, v_CreatedAt = al_CreatedAt r, v_DurationUs = al_DurationUs r, v_TargetHost = al_TargetHost r,
     v_TargetURI = al_TargetURI r, v_HTTPMethod = al_HTTPMethod r, v_CountryCode = map_option lg_CountryCode (geoipFor s r),
     v_NetworkPolicyID = Option.bind (policyFor s r) lp_PolicyID, v_NetworkPolicyName = map_option lp_PolicyName (policyFor s r)\<rparr>"

text \<open>The contributors of a page: the join with devices and users, sorted by entry and device name, collected by entry.\<close>

definition joinedContributors :: "store \<Rightarrow> (LogContributor \<times> DeviceRow \<times> User) list" where
  "joinedContributors s = concat (map (\<lambda>c. case (List.find (\<lambda>d. d_ID d = lc_DeviceID c) (st_devices s), List.find (\<lambda>u. u_ID u = lc_UserID c) (st_users s)) of
     (Some d, Some u) \<Rightarrow> [(c, d, u)] | _ \<Rightarrow> []) (st_logContributors s))"

definition toContributor :: "LogContributor \<times> DeviceRow \<times> User \<Rightarrow> AccessLogContributor" where
  "toContributor x = (case x of (c, d, u) \<Rightarrow> \<lparr>cv_DeviceID = Some (lc_DeviceID c), cv_DeviceName = Some (d_Name d), cv_UserID = Some (lc_UserID c),
     cv_UserName = Some (u_DisplayName u), cv_AddressID = Some (lc_AddressID c)\<rparr>)"

definition fetchAccessLogContributors :: "store \<Rightarrow> id list \<Rightarrow> id \<Rightarrow> AccessLogContributor list" where
  "fetchAccessLogContributors s logIDs i =
    (if logIDs = [] then [] else
       map toContributor (filter (\<lambda>x. lc_AccessLogID (fst x) = i)
         (sort_key (\<lambda>x. (lc_AccessLogID (fst x), d_Name (fst (snd x)))) (filter (\<lambda>x. lc_AccessLogID (fst x) \<in> set logIDs) (joinedContributors s)))))"

definition withContributors :: "store \<Rightarrow> id list \<Rightarrow> AccessLogView \<Rightarrow> AccessLogView" where
  "withContributors s logIDs v = (case fetchAccessLogContributors s logIDs (v_ID v) of [] \<Rightarrow> v | cs \<Rightarrow> v\<lparr>v_Contributors := cs\<rparr>)"



record AccessLogDetailView =
  dv_Row :: AccessLogView
  dv_XFFChain :: "string option"
  dv_Headers :: header
  dv_CountryName :: "string option"
  dv_ContinentCode :: "string option"
  dv_ASN :: "int option"
  dv_ASNOrg :: "string option"

definition GetAccessLogEntry :: "(string \<Rightarrow> header option) \<Rightarrow> id \<Rightarrow> store \<Rightarrow> AccessLogDetailView option" where
  "GetAccessLogEntry unmarshal i s = (case List.find (\<lambda>r. al_ID r = i) (st_accessLog s) of None \<Rightarrow> None
     | Some r \<Rightarrow> Some \<lparr>dv_Row = withContributors s [al_ID r] (toView s r), dv_XFFChain = al_XFFChain r,
         dv_Headers = (case unmarshal (al_HeadersJSON r) of None \<Rightarrow> [] | Some h \<Rightarrow> h),
         dv_CountryName = map_option lg_CountryName (geoipFor s r), dv_ContinentCode = map_option lg_ContinentCode (geoipFor s r),
         dv_ASN = map_option lg_ASN (geoipFor s r), dv_ASNOrg = map_option lg_ASNOrg (geoipFor s r)\<rparr>)"


section \<open>Handlers\<close>

record ApiContributor =
  xc_DeviceId :: "id option"
  xc_DeviceName :: "string option"
  xc_UserId :: "id option"
  xc_UserName :: "string option"
  xc_AddressId :: "id option"

record ApiAccessLogRow =
  x_Id :: id
  x_CreatedAt :: time
  x_Outcome :: bool
  x_ClientIp :: string
  x_DenyReason :: "string option"
  x_Contributors :: "ApiContributor list"
  x_ContributorCount :: int
  x_TargetHost :: "string option"
  x_TargetUri :: "string option"
  x_HttpMethod :: "string option"
  x_CountryCode :: "string option"
  x_DurationUs :: "int option"
  x_NetworkPolicyId :: "id option"
  x_NetworkPolicyName :: "string option"

record ApiAccessLogDetail = ApiAccessLogRow +
  x_XffChain :: "string option"
  x_Headers :: header
  x_CountryName :: "string option"
  x_ContinentCode :: "string option"
  x_Asn :: "int option"
  x_AsnOrg :: "string option"

definition toAccessLogContributor :: "AccessLogContributor \<Rightarrow> ApiContributor" where
  "toAccessLogContributor c = \<lparr>xc_DeviceId = cv_DeviceID c, xc_DeviceName = cv_DeviceName c, xc_UserId = cv_UserID c,
     xc_UserName = cv_UserName c, xc_AddressId = cv_AddressID c\<rparr>"

definition toAccessLogRow :: "AccessLogView \<Rightarrow> ApiAccessLogRow" where
  "toAccessLogRow r = \<lparr>x_Id = v_ID r, x_CreatedAt = v_CreatedAt r, x_Outcome = v_Outcome r, x_ClientIp = v_ClientIP r, x_DenyReason = v_DenyReason r,
     x_Contributors = map toAccessLogContributor (v_Contributors r), x_ContributorCount = v_ContributorCount r, x_TargetHost = v_TargetHost r,
     x_TargetUri = v_TargetURI r, x_HttpMethod = v_HTTPMethod r, x_CountryCode = v_CountryCode r, x_DurationUs = Some (v_DurationUs r),
     x_NetworkPolicyId = v_NetworkPolicyID r, x_NetworkPolicyName = v_NetworkPolicyName r\<rparr>"

definition toAccessLogDetail :: "AccessLogDetailView \<Rightarrow> ApiAccessLogDetail" where
  "toAccessLogDetail d = (let row = toAccessLogRow (dv_Row d) in
     \<lparr>x_Id = x_Id row, x_CreatedAt = x_CreatedAt row, x_Outcome = x_Outcome row, x_ClientIp = x_ClientIp row, x_DenyReason = x_DenyReason row,
      x_Contributors = x_Contributors row, x_ContributorCount = x_ContributorCount row, x_TargetHost = x_TargetHost row,
      x_TargetUri = x_TargetUri row, x_HttpMethod = x_HttpMethod row, x_CountryCode = x_CountryCode row, x_DurationUs = x_DurationUs row,
      x_NetworkPolicyId = x_NetworkPolicyId row, x_NetworkPolicyName = x_NetworkPolicyName row, x_XffChain = dv_XFFChain d,
      x_Headers = dv_Headers d, x_CountryName = dv_CountryName d, x_ContinentCode = dv_ContinentCode d, x_Asn = dv_ASN d, x_AsnOrg = dv_ASNOrg d\<rparr>)"



datatype GetAccessLogEntryResponse = GetAccessLogEntry200 ApiAccessLogDetail | GetAccessLogEntry404

definition HandleGetAccessLogEntry :: "(string \<Rightarrow> header option) \<Rightarrow> id \<Rightarrow> store \<Rightarrow> GetAccessLogEntryResponse" where
  "HandleGetAccessLogEntry unmarshal i s = (case GetAccessLogEntry unmarshal i s of None \<Rightarrow> GetAccessLogEntry404
     | Some entry \<Rightarrow> GetAccessLogEntry200 (toAccessLogDetail entry))"

section \<open>Histogram\<close>

record HistogramBucket =
  hb_Timestamp :: time
  hb_AllowCount :: nat
  hb_DenyCount :: nat

definition bucketConditions :: "AccessLogQuery \<Rightarrow> Granularity \<Rightarrow> time \<Rightarrow> cond list" where
  "bucketConditions q g start =
    (let lower = (if q_From q \<noteq> zeroTime \<and> q_From q > start then q_From q else start);
         next = Next g start;
         upper = (if q_To q \<noteq> zeroTime \<and> q_To q < next then CLe ''ral.created_at'' (VTime (q_To q)) else CLt ''ral.created_at'' (VTime next))
     in [CGe ''ral.created_at'' (VTime lower), upper])"

definition trafficBuckets :: "AccessLogQuery \<Rightarrow> Granularity \<Rightarrow> store \<Rightarrow> (filter_err, HistogramBucket list) result" where
  "trafficBuckets q g s = (case accessLogFilterConditions q of Inl e \<Rightarrow> Inl e
     | Inr cs \<Rightarrow> (let (geoip, policy) = accessLogFilterJoins q in
        Inr (map (\<lambda>start. let rows = filter (\<lambda>r. holds (logEnv geoip policy s r) (CAnd (bucketConditions q g start @ cs))) (st_accessLog s)
          in \<lparr>hb_Timestamp = start, hb_AllowCount = length (filter al_Outcome rows), hb_DenyCount = length (filter (\<lambda>r. \<not> al_Outcome r) rows)\<rparr>)
          (Sequence g (q_From q) (q_To q)))))"

definition GetAccessLogHistogram :: "AccessLogQuery \<Rightarrow> store \<Rightarrow> (filter_err, HistogramBucket list) result" where
  "GetAccessLogHistogram q s = trafficBuckets q (GranularityForWindow (q_To q - q_From q)) s"

datatype GetHistogramResponse = GetHistogram200 "HistogramBucket list" | GetHistogram400 | GetHistogram500

definition HandleGetAccessLogHistogram :: "time \<Rightarrow> accessLogFilterParams \<Rightarrow> store \<Rightarrow> GetHistogramResponse" where
  "HandleGetAccessLogHistogram now params s = (case NewAccessLogHistogramQuery now params of
     Inl e \<Rightarrow> if e = ErrInvalidFilter then GetHistogram400 else GetHistogram500
   | Inr query \<Rightarrow> (case GetAccessLogHistogram query s of Inl e \<Rightarrow> GetHistogram500 | Inr buckets \<Rightarrow> GetHistogram200 buckets))"

section \<open>What a query selects\<close>

definition matchesFilter :: "store \<Rightarrow> AccessLogRow \<Rightarrow> Filter \<Rightarrow> bool" where
  "matchesFilter s r f \<longleftrightarrow> (case map_of accessLogColumns (f_Column f) of None \<Rightarrow> False | Some spec \<Rightarrow> filterMatches spec f (logEnv True True s r))"

definition matchesFilters :: "store \<Rightarrow> AccessLogQuery \<Rightarrow> AccessLogRow \<Rightarrow> bool" where
  "matchesFilters s q r \<longleftrightarrow> (q_Outcome q = None \<or> q_Outcome q = Some (al_Outcome r)) \<and> list_all (matchesFilter s r) (q_Filters q)"

definition inWindow :: "AccessLogQuery \<Rightarrow> AccessLogRow \<Rightarrow> bool" where
  "inWindow q r \<longleftrightarrow> (q_From q = zeroTime \<or> q_From q \<le> al_CreatedAt r) \<and> (q_To q = zeroTime \<or> al_CreatedAt r \<le> q_To q)"

text \<open>What validation lets through: known columns, permitted operators, text for the text columns.\<close>

definition validFilter :: "Filter \<Rightarrow> bool" where
  "validFilter f \<longleftrightarrow> is_ok (check accessLogRegistry f) \<and>
     (f_Column f \<in> {''client_ip'', ''target_host'', ''target_uri''} \<longrightarrow> f_Values f \<in> range (map VText))"

lemma logEnv_col:
  "e_col (logEnv g p s r) ''ral.id'' = Some (VInt (al_ID r))" "e_col (logEnv g p s r) ''ral.created_at'' = Some (VTime (al_CreatedAt r))"
  "e_col (logEnv g p s r) ''ral.outcome'' = Some (outcomeVal (al_Outcome r))" "e_col (logEnv g p s r) ''ral.client_ip'' = Some (VText (al_ClientIP r))"
  "e_col (logEnv g p s r) ''ral.deny_reason'' = map_option VText (al_DenyReason r)" "e_col (logEnv g p s r) ''ral.target_host'' = map_option VText (al_TargetHost r)"
  "e_col (logEnv g p s r) ''ral.target_uri'' = map_option VText (al_TargetURI r)" "e_col (logEnv g p s r) ''ral.http_method'' = map_option VText (al_HTTPMethod r)"
  "e_col (logEnv g p s r) ''ral.duration_us'' = Some (VInt (al_DurationUs r))"
  "e_col (logEnv g p s r) ''g.country_code'' = (if g then map_option (\<lambda>g. VText (lg_CountryCode g)) (geoipFor s r) else None)"
  "e_col (logEnv g p s r) ''anpc.policy_id'' = (if p then map_option VInt (Option.bind (policyFor s r) lp_PolicyID) else None)"
  by (simp_all add: logEnv_def logColumns_def)

lemma collected_valid:
  "collectFilters vfs = Inr fs \<Longrightarrow> f \<in> set fs \<Longrightarrow> is_ok (check accessLogRegistry f) \<and> (\<exists>op. (f_Column f, f_Values f, op) \<in> set vfs)"
proof (induction vfs arbitrary: fs)
  case (Cons vf vfs)
  obtain column vals op where vf: "vf = (column, vals, op)" by (cases vf) auto
  consider (skip) "collectFilters vfs = Inr fs"
    | (add) a rest where "ParseFilter column vals op = Inr (Some a)" "Validate accessLogRegistry a = None" "collectFilters vfs = Inr rest" "fs = a # rest"
    using Cons.prems(1) by (auto simp: vf split: sum.splits option.splits)
  then show ?case
  proof cases
    case skip
    then show ?thesis using Cons by (metis list.set_intros(2))
  next
    case add
    show ?thesis
    proof (cases "f = a")
      case True
      then show ?thesis using add(1,2) by (auto simp: vf ParseFilter_def Validate_def is_ok_iff split: sum.splits option.splits if_splits)
    next
      case False
      then show ?thesis using Cons.IH[OF add(3)] Cons.prems(2) add(4) by auto
    qed
  qed
qed simp

lemma newAccessLogQuery_valid:
  assumes "newAccessLogQuery now p = Inr q"
  shows "\<forall>f \<in> set (q_Filters q). validFilter f"
proof
  fix f assume f: "f \<in> set (q_Filters q)"
  obtain fs where fs: "collectFilters (valueFilters p) = Inr fs" "q_Filters q = fs"
    using assms by (auto simp: newAccessLogQuery_def Let_def split: sum.splits)
  obtain op where ok: "is_ok (check accessLogRegistry f)" and vf: "(f_Column f, f_Values f, op) \<in> set (valueFilters p)"
    using collected_valid[OF fs(1)] f fs(2) by blast
  have "StringValues vs \<in> range (map VText)" for vs by (cases vs) (auto simp: StringValues_def intro: image_eqI[of _ _ "[]"])
  then show "validFilter f" using ok vf by (auto simp: validFilter_def valueFilters_def)
qed

lemma likeParts_text: "\<exists>parts. likeParts expr negate (map VText ss) = Inr parts"
  by (induction ss) (auto simp: Let_def split: sum.splits)

lemma column_cases:
  assumes "map_of accessLogColumns c = Some spec"
  shows "(c, spec) \<in> set accessLogColumns"
  using assms by (rule map_of_SomeD)

lemma valid_condition:
  assumes "validFilter f"
  obtains spec c where "map_of accessLogColumns (f_Column f) = Some spec" "f_Op f \<in> set (cs_Ops spec)" "Condition accessLogRegistry f = Inr c"
proof -
  obtain spec where chk: "check accessLogRegistry f = Inr spec" using assms by (auto simp: validFilter_def is_ok_iff)
  then have spec: "map_of accessLogColumns (f_Column f) = Some spec" "f_Op f \<in> set (cs_Ops spec)"
    by (auto simp: check_def accessLogRegistry_def allows_def split: option.splits if_splits)
  note col = column_cases[OF spec(1)]
  have "\<exists>c. Condition accessLogRegistry f = Inr c"
  proof (cases "cs_Rel spec")
    case None
    have textual: "f_Op f \<in> {OpContains, OpNotContains} \<Longrightarrow> f_Column f \<in> {''client_ip'', ''target_host'', ''target_uri''}"
      using col spec(2) by (auto simp: accessLogColumns_def)
    show ?thesis
    proof (cases "f_Op f \<in> {OpContains, OpNotContains}")
      case True
      then obtain ss where ss: "f_Values f = map VText ss" using textual assms by (auto simp: validFilter_def)
      then show ?thesis using True None chk likeParts_text[of "cs_Expr spec" True ss] likeParts_text[of "cs_Expr spec" False ss]
        by (auto simp: Condition_def scalarCondition_def likeCondition_def)
    next
      case False
      then show ?thesis using None chk by (cases "f_Op f") (auto simp: Condition_def scalarCondition_def)
    qed
  next
    case (Some rel)
    then have "f_Op f \<notin> {OpContains, OpNotContains}" using col spec(2) by (auto simp: accessLogColumns_def)
    then show ?thesis using Some chk by (cases "f_Op f") (auto simp: Condition_def relationalCondition_def)
  qed
  then show thesis using that spec by blast
qed

lemma holds_valid:
  assumes "validFilter f" "Condition accessLogRegistry f = Inr c" "f_Column f = ''country_code'' \<Longrightarrow> geoip" "f_Column f = ''network_policy'' \<Longrightarrow> policy"
  shows "holds (logEnv geoip policy s r) c \<longleftrightarrow> matchesFilter s r f"
proof -
  obtain spec where spec: "map_of accessLogColumns (f_Column f) = Some spec" "f_Op f \<in> set (cs_Ops spec)" by (rule valid_condition[OF assms(1)])
  note col = column_cases[OF spec(1)]
  have cells: "cs_Rel spec = None \<longrightarrow> cs_Nullable spec \<or> e_col (logEnv geoip policy s r) (cs_Expr spec) \<noteq> None"
    "f_Op f \<in> {OpContains, OpNotContains} \<longrightarrow> textCell (e_col (logEnv geoip policy s r) (cs_Expr spec))"
    using col spec(2) by (auto simp: accessLogColumns_def logEnv_col textCell_def split: option.splits)
  have "cs_Rel spec = None \<Longrightarrow> e_col (logEnv geoip policy s r) (cs_Expr spec) = e_col (logEnv True True s r) (cs_Expr spec)"
    using col assms(3,4) by (auto simp: accessLogColumns_def logEnv_col)
  then have same: "filterMatches spec f (logEnv geoip policy s r) = filterMatches spec f (logEnv True True s r)"
    by (cases "cs_Rel spec") (simp_all add: filterMatches_def logEnv_def)
  have "rg_cols accessLogRegistry (f_Column f) = Some spec" using spec(1) by (simp add: accessLogRegistry_def)
  from holds_Condition[OF assms(2) this cells] show ?thesis using spec(1) same by (simp add: matchesFilter_def)
qed

lemma filterConditions_valid:
  "\<forall>f \<in> set fs. validFilter f \<Longrightarrow> \<exists>cs. filterConditions fs = Inr cs \<and>
    (\<forall>geoip policy s r. (list_ex (\<lambda>f. f_Column f = ''country_code'') fs \<longrightarrow> geoip) \<longrightarrow> (list_ex (\<lambda>f. f_Column f = ''network_policy'') fs \<longrightarrow> policy) \<longrightarrow>
      ((\<forall>c \<in> set cs. holds (logEnv geoip policy s r) c) \<longleftrightarrow> list_all (matchesFilter s r) fs))"
proof (induction fs)
  case (Cons f fs)
  then obtain cs where cs: "filterConditions fs = Inr cs"
    "\<forall>geoip policy s r. (list_ex (\<lambda>f. f_Column f = ''country_code'') fs \<longrightarrow> geoip) \<longrightarrow> (list_ex (\<lambda>f. f_Column f = ''network_policy'') fs \<longrightarrow> policy) \<longrightarrow>
      ((\<forall>c \<in> set cs. holds (logEnv geoip policy s r) c) \<longleftrightarrow> list_all (matchesFilter s r) fs)" by auto
  have valid: "validFilter f" using Cons.prems by simp
  obtain c where c: "Condition accessLogRegistry f = Inr c" by (rule valid_condition[OF valid])
  have "holds (logEnv geoip policy s r) c \<longleftrightarrow> matchesFilter s r f"
    if "list_ex (\<lambda>f. f_Column f = ''country_code'') (f # fs) \<longrightarrow> geoip" "list_ex (\<lambda>f. f_Column f = ''network_policy'') (f # fs) \<longrightarrow> policy" for geoip policy s r
    using that by (intro holds_valid[OF valid c]) auto
  then show ?case using cs c by (intro exI[of _ "c # cs"]) auto
qed simp

lemma accessLogFilterConditions_valid:
  assumes "\<forall>f \<in> set (q_Filters q). validFilter f"
  obtains cs where "accessLogFilterConditions q = Inr cs"
    "\<And>s r. (\<forall>c \<in> set cs. holds (logEnv True True s r) c) \<longleftrightarrow> matchesFilters s q r"
    "\<And>s r. (\<forall>c \<in> set cs. holds (logEnv (fst (accessLogFilterJoins q)) (snd (accessLogFilterJoins q)) s r) c) \<longleftrightarrow> matchesFilters s q r"
proof -
  obtain cs where cs: "filterConditions (q_Filters q) = Inr cs"
    "\<forall>geoip policy s r. (list_ex (\<lambda>f. f_Column f = ''country_code'') (q_Filters q) \<longrightarrow> geoip) \<longrightarrow> (list_ex (\<lambda>f. f_Column f = ''network_policy'') (q_Filters q) \<longrightarrow> policy) \<longrightarrow>
      ((\<forall>c \<in> set cs. holds (logEnv geoip policy s r) c) \<longleftrightarrow> list_all (matchesFilter s r) (q_Filters q))"
    using filterConditions_valid[OF assms] by blast
  define all where "all = (case q_Outcome q of None \<Rightarrow> [] | Some b \<Rightarrow> [CEq ''ral.outcome'' (outcomeVal b)]) @ cs"
  have outcome: "holds (logEnv g p s r) (CEq ''ral.outcome'' (outcomeVal b)) \<longleftrightarrow> al_Outcome r = b" for g p s r b
    by (simp add: logEnv_col outcomeVal_def)
  have "accessLogFilterConditions q = Inr all" using cs(1) by (simp add: accessLogFilterConditions_def all_def)
  moreover have "(\<forall>c \<in> set all. holds (logEnv g p s r) c) \<longleftrightarrow> matchesFilters s q r"
    if "list_ex (\<lambda>f. f_Column f = ''country_code'') (q_Filters q) \<longrightarrow> g" "list_ex (\<lambda>f. f_Column f = ''network_policy'') (q_Filters q) \<longrightarrow> p" for g p s r
  proof -
    have "(\<forall>c \<in> set cs. holds (logEnv g p s r) c) \<longleftrightarrow> list_all (matchesFilter s r) (q_Filters q)" using cs(2) that by blast
    then show ?thesis by (cases "q_Outcome q") (auto simp: all_def matchesFilters_def outcome simp del: holds_atom)
  qed
  ultimately show thesis using that by (simp add: accessLogFilterJoins_def)
qed


section \<open>Paging\<close>

definition selected :: "AccessLogQuery \<Rightarrow> store \<Rightarrow> AccessLogRow list" where
  "selected q s = filter (\<lambda>r. inWindow q r \<and> matchesFilters s q r) (st_accessLog s)"

























section \<open>The histogram counts the listed rows\<close>

lemma TruncateToBucket_iff:
  assumes "start \<in> set (Sequence g from to)"
  shows "TruncateToBucket g t = start \<longleftrightarrow> start \<le> t \<and> t < Next g start"
proof -
  obtain k where k: "start = k * width g" using assms by (auto simp: Sequence_map)
  have w: "0 < width g" by simp
  have "t div width g = k \<longleftrightarrow> k * width g \<le> t \<and> t < k * width g + width g"
  proof
    assume "k * width g \<le> t \<and> t < k * width g + width g"
    then show "t div width g = k" using w by (intro int_div_pos_eq[of t _ k "t - k * width g"]) auto
  next
    assume "t div width g = k"
    then have "k * width g + t mod width g = t" using div_mult_mod_eq[of t "width g"] by simp
    then show "k * width g \<le> t \<and> t < k * width g + width g" using pos_mod_sign[OF w, of t] pos_mod_bound[OF w, of t] by linarith
  qed
  then show ?thesis by (simp add: k TruncateToBucket_def Next_def)
qed

lemma bucket_holds:
  assumes "start \<in> set (Sequence g (q_From q) (q_To q))" "q_From q \<noteq> zeroTime" "q_To q \<noteq> zeroTime"
  shows "(\<forall>c \<in> set (bucketConditions q g start). holds (logEnv gi po s r) c) \<longleftrightarrow> inWindow q r \<and> TruncateToBucket g (al_CreatedAt r) = start"
  using assms(2,3) by (auto simp: TruncateToBucket_iff[OF assms(1)] bucketConditions_def Let_def inWindow_def logEnv_col less_sqlval_def)

text \<open>The histogram and the list cannot disagree: for a valid request over a window, the buckets are those of the
  window, in order and without gaps; each counts the allowed and the denied among the rows that the list selects for the same
  filters and whose time falls into the bucket, so the counts add up to the total of the list.\<close>

lemma histogram_counts_selected:
  assumes "newAccessLogQuery now p = Inr q" "q_From q \<le> q_To q" "q_From q \<noteq> zeroTime" "q_To q \<noteq> zeroTime"
    "g = GranularityForWindow (q_To q - q_From q)"
  shows "\<exists>bs. GetAccessLogHistogram q s = Inr bs \<and> map hb_Timestamp bs = Sequence g (q_From q) (q_To q) \<and>
    (\<forall>b \<in> set bs. hb_AllowCount b = length (filter (\<lambda>r. TruncateToBucket g (al_CreatedAt r) = hb_Timestamp b \<and> al_Outcome r) (selected q s)) \<and>
       hb_DenyCount b = length (filter (\<lambda>r. TruncateToBucket g (al_CreatedAt r) = hb_Timestamp b \<and> \<not> al_Outcome r) (selected q s))) \<and>
    (\<Sum>b \<leftarrow> bs. hb_AllowCount b + hb_DenyCount b) = length (selected q s)"
proof -
  let ?t = "\<lambda>r. TruncateToBucket g (al_CreatedAt r)" and ?seq = "Sequence g (q_From q) (q_To q)"
  obtain cs where cs: "accessLogFilterConditions q = Inr cs"
    "\<And>s r. (\<forall>c \<in> set cs. holds (logEnv (fst (accessLogFilterJoins q)) (snd (accessLogFilterJoins q)) s r) c) \<longleftrightarrow> matchesFilters s q r"
    by (rule accessLogFilterConditions_valid[OF newAccessLogQuery_valid[OF assms(1)]]) (rule that)
  define R where "R start = filter (\<lambda>r. holds (logEnv (fst (accessLogFilterJoins q)) (snd (accessLogFilterJoins q)) s r) (CAnd (bucketConditions q g start @ cs))) (st_accessLog s)" for start
  define bs where "bs = map (\<lambda>start. \<lparr>hb_Timestamp = start, hb_AllowCount = length (filter al_Outcome (R start)),
     hb_DenyCount = length (filter (\<lambda>r. \<not> al_Outcome r) (R start))\<rparr>) ?seq"
  have rows: "R start = filter (\<lambda>r. ?t r = start) (selected q s)" if "start \<in> set ?seq" for start
  proof -
    have "holds (logEnv (fst (accessLogFilterJoins q)) (snd (accessLogFilterJoins q)) s r) (CAnd (bucketConditions q g start @ cs)) \<longleftrightarrow>
        (inWindow q r \<and> matchesFilters s q r) \<and> ?t r = start" for r
      using cs(2)[of s r] bucket_holds[OF that assms(3,4), of "fst (accessLogFilterJoins q)" "snd (accessLogFilterJoins q)" s r]
      unfolding holds_and set_append by blast
    then show ?thesis unfolding R_def selected_def filter_filter by simp
  qed
  have hist: "GetAccessLogHistogram q s = Inr bs"
    by (simp add: GetAccessLogHistogram_def trafficBuckets_def cs(1) case_prod_beta Let_def bs_def R_def flip: assms(5) del: holds_and)
  have count: "length (filter al_Outcome xs) + length (filter (\<lambda>r. \<not> al_Outcome r) xs) = length xs" for xs
    by (rule sum_length_filter_compl)
  have dist: "distinct ?seq" using Sequence_sorted[of g "q_From q" "q_To q"] by (simp add: strict_sorted_iff)
  have "\<forall>r \<in> set (selected q s). ?t r \<in> set ?seq"
    unfolding Sequence_set[OF assms(2)] using assms(3,4) by (auto simp: selected_def inWindow_def)
  from length_partition[OF dist this] have "(\<Sum>start \<leftarrow> ?seq. length (R start)) = length (selected q s)"
    using rows by (simp cong: map_cong)
  then have "(\<Sum>b \<leftarrow> bs. hb_AllowCount b + hb_DenyCount b) = length (selected q s)"
    by (simp only: bs_def map_map comp_def HistogramBucket.select_convs count)
  moreover have "\<forall>b \<in> set bs. hb_AllowCount b = length (filter (\<lambda>r. ?t r = hb_Timestamp b \<and> al_Outcome r) (selected q s)) \<and>
       hb_DenyCount b = length (filter (\<lambda>r. ?t r = hb_Timestamp b \<and> \<not> al_Outcome r) (selected q s))"
    using rows by (auto simp: bs_def)
  moreover have "map hb_Timestamp bs = ?seq" by (simp add: bs_def comp_def)
  ultimately show ?thesis using hist by blast
qed

section \<open>An event and its entry\<close>

lemma find_key: "distinct (map f xs) \<Longrightarrow> x \<in> set xs \<Longrightarrow> List.find (\<lambda>y. f y = f x) xs = Some x"
  by (induction xs) (auto simp: image_iff)

lemma numbered_nth: "k < length xs \<Longrightarrow> (i + int k, xs ! k) \<in> set (numbered i xs)"
proof (induction xs arbitrary: i k)
  case (Cons x xs)
  then show ?case using Cons.IH[of "k - 1" "i + 1"] by (cases k) (auto simp: algebra_simps)
qed simp

lemma numbered_ge: "(j, x) \<in> set (numbered i xs) \<Longrightarrow> i \<le> j"
  by (induction xs arbitrary: i) fastforce+

lemma numbered_inj: "(j, x) \<in> set (numbered i xs) \<Longrightarrow> (j, y) \<in> set (numbered i xs) \<Longrightarrow> x = y"
  by (induction xs arbitrary: i) (auto dest: numbered_ge)

lemma appended_children:
  assumes "i \<notin> key ` set old" "\<And>j x c. c \<in> set (K j x) \<Longrightarrow> key c = j" "(i, e) \<in> set ies" "\<And>x. (i, x) \<in> set ies \<Longrightarrow> x = e"
  shows "{c \<in> set (old @ concat (map (\<lambda>(j, x). K j x) ies)). key c = i} = set (K i e)" (is "?L = ?R")
proof
  show "?L \<subseteq> ?R"
  proof
    fix c assume c: "c \<in> ?L"
    then have "c \<notin> set old" using assms(1) by auto
    then obtain j x where "(j, x) \<in> set ies" "c \<in> set (K j x)" using c by auto
    moreover have "j = i" using assms(2) c \<open>c \<in> set (K j x)\<close> by auto
    ultimately show "c \<in> ?R" using assms(4) by blast
  qed
  show "?R \<subseteq> ?L" using assms(2,3) by force
qed

lemma loggedBatch_entry:
  assumes "logInv s" "k < length events" "i = nextLogID s + int k" "e = events ! k" "t = loggedBatch m events s"
  shows "logRow i (the (m (de_Headers e))) e \<in> set (st_accessLog t)"
    "{c \<in> set (st_logContributors t). lc_AccessLogID c = i} = set (contributorsOf i e)"
    "{p \<in> set (st_logPolicies t). lp_AccessLogID p = i} = set (policiesOf i e)"
    "{g \<in> set (st_logGeoip t). lg_AccessLogID g = i} = set (geoipOf i e)"
proof -
  have mem: "(i, e) \<in> set (numbered (nextLogID s) events)" using numbered_nth[OF assms(2)] assms(3,4) by simp
  have only: "x = e" if "(i, x) \<in> set (numbered (nextLogID s) events)" for x using numbered_inj[OF that mem] .
  have "i \<notin> al_ID ` set (st_accessLog s)"
    using fold_max_mem[of _ "map al_ID (st_accessLog s)" 0] assms(3) by (force simp: nextLogID_def nextID_def)
  then have old: "i \<notin> lc_AccessLogID ` set (st_logContributors s)" "i \<notin> lp_AccessLogID ` set (st_logPolicies s)" "i \<notin> lg_AccessLogID ` set (st_logGeoip s)"
    using assms(1) by (auto simp: logInv_def)
  show "logRow i (the (m (de_Headers e))) e \<in> set (st_accessLog t)" using mem by (force simp: assms(5) loggedBatch_def appendRows_def)
  have kids: "c \<in> set (contributorsOf j x) \<Longrightarrow> lc_AccessLogID c = j" "p \<in> set (policiesOf j x) \<Longrightarrow> lp_AccessLogID p = j"
    "g \<in> set (geoipOf j x) \<Longrightarrow> lg_AccessLogID g = j" for c p g j x
    by (auto simp: contributorsOf_def contributorRow_def policiesOf_def geoipOf_def geoRow_def split: if_splits)
  show "{c \<in> set (st_logContributors t). lc_AccessLogID c = i} = set (contributorsOf i e)"
    using appended_children[OF old(1) kids(1) mem only] by (simp add: assms(5) loggedBatch_def appendRows_def)
  show "{p \<in> set (st_logPolicies t). lp_AccessLogID p = i} = set (policiesOf i e)"
    using appended_children[OF old(2) kids(2) mem only] by (simp add: assms(5) loggedBatch_def appendRows_def)
  show "{g \<in> set (st_logGeoip t). lg_AccessLogID g = i} = set (geoipOf i e)"
    using appended_children[OF old(3) kids(3) mem only] by (simp add: assms(5) loggedBatch_def appendRows_def)
qed

lemma find_only:
  assumes "distinct (map f xs)" "{x \<in> set xs. f x = i} = set ys" "length ys \<le> 1"
  shows "List.find (\<lambda>x. f x = i) xs = (case ys of [] \<Rightarrow> None | y # _ \<Rightarrow> Some y)"
proof (cases ys)
  case Nil
  then show ?thesis using assms(2) by (auto simp: find_None_iff)
next
  case (Cons y rest)
  then have "y \<in> set xs" "f y = i" using assms(2) by auto
  then show ?thesis using find_key[OF assms(1)] Cons by auto
qed

lemma joined_known:
  assumes "\<forall>c \<in> C. lc_DeviceID c \<in> d_ID ` set (st_devices t) \<and> lc_UserID c \<in> u_ID ` set (st_users t)" "C = {c \<in> set (st_logContributors t). lc_AccessLogID c = i}"
  shows "set (map (\<lambda>c. (cv_DeviceID c, cv_UserID c, cv_AddressID c)) (fetchAccessLogContributors t [i] i)) =
    (\<lambda>c. (Some (lc_DeviceID c), Some (lc_UserID c), Some (lc_AddressID c))) ` C"
proof -
  have found: "\<exists>x. List.find P xs = Some x" if "\<exists>x \<in> set xs. P x" for P :: "'a \<Rightarrow> bool" and xs using that by (metis find_None_iff_ex not_None_eq)
  have sub: "fst x \<in> set (st_logContributors t)" if "x \<in> set (joinedContributors t)" for x
    using that by (auto simp: joinedContributors_def split: option.splits)
  have ex: "\<exists>d u. (c, d, u) \<in> set (joinedContributors t)" if c: "c \<in> C" for c
  proof -
    obtain d u where "List.find (\<lambda>d. d_ID d = lc_DeviceID c) (st_devices t) = Some d" "List.find (\<lambda>u. u_ID u = lc_UserID c) (st_users t) = Some u"
      using assms(1) c found[of "st_devices t" "\<lambda>d. d_ID d = lc_DeviceID c"] found[of "st_users t" "\<lambda>u. u_ID u = lc_UserID c"] by fastforce
    then show ?thesis using c assms(2) by (force simp: joinedContributors_def)
  qed
  have "(\<lambda>c. (cv_DeviceID c, cv_UserID c, cv_AddressID c)) (toContributor x) = (Some (lc_DeviceID (fst x)), Some (lc_UserID (fst x)), Some (lc_AddressID (fst x)))" for x
    by (simp add: toContributor_def split: prod.splits)
  then have "set (map (\<lambda>c. (cv_DeviceID c, cv_UserID c, cv_AddressID c)) (fetchAccessLogContributors t [i] i)) =
      (\<lambda>c. (Some (lc_DeviceID c), Some (lc_UserID c), Some (lc_AddressID c))) ` fst ` {x \<in> set (joinedContributors t). lc_AccessLogID (fst x) = i}"
    by (simp add: fetchAccessLogContributors_def filter_sort image_image)
  also have "fst ` {x \<in> set (joinedContributors t). lc_AccessLogID (fst x) = i} = C" using sub ex assms(2) by force
  finally show ?thesis .
qed

text \<open>What the policy engine decided can be read back: after a batch is stored, the entry of each of its events has the
  event's client, outcome, reason, time, duration, target, forwarding chain and headers, the policy and its name when a network
  policy let it in, exactly the devices, users and addresses that contributed otherwise, and the GeoIP data unless it was empty.
  The headers need to be ones that JSON carries, which are those with valid UTF-8.\<close>

lemma entry_roundtrip:
  assumes "logInv s" "list_all (insertable marshal s) events" "\<And>b. marshal (de_Headers e) = Some b \<Longrightarrow> unmarshal b = Some (de_Headers e)" "k < length events"
    "e = events ! k" "BatchInsert marshal events s = (r, t)"
  shows "\<exists>d v. GetAccessLogEntry unmarshal (nextLogID s + int k) t = Some d \<and> v = dv_Row d \<and>
    v_ClientIP v = de_ClientIP e \<and> v_Outcome v = de_Outcome e \<and> v_DenyReason v = map_option denyReasonText (de_DenyReason e) \<and>
    v_CreatedAt v = de_CreatedAt e \<and> v_DurationUs v = de_DurationUs e \<and> v_TargetHost v = de_TargetHost e \<and> v_TargetURI v = de_TargetURI e \<and>
    v_HTTPMethod v = de_HTTPMethod e \<and> dv_XFFChain d = de_XFFChain e \<and> dv_Headers d = de_Headers e \<and>
    v_NetworkPolicyID v = (if de_MatchSource e = MatchSourceNetworkPolicy then de_NetworkPolicyID e else None) \<and>
    (v_NetworkPolicyID v \<noteq> None \<longrightarrow> v_NetworkPolicyName v = de_NetworkPolicyName e) \<and>
    v_ContributorCount v = int (length (de_IPContributors e)) \<and>
    set (map (\<lambda>c. (cv_DeviceID c, cv_UserID c, cv_AddressID c)) (v_Contributors v)) = (if de_MatchSource e = MatchSourceNetworkPolicy then {}
      else (\<lambda>c. (Some (ic_DeviceID c), Some (ic_UserID c), Some (ic_AddressID c))) ` set (de_IPContributors e)) \<and>
    v_CountryCode v = (if GeoIsEmpty (de_GeoIP e) then None else Some (geo_CountryCode (de_GeoIP e))) \<and>
    dv_ASN d = (if GeoIsEmpty (de_GeoIP e) then None else Some (int (geo_ASN (de_GeoIP e))))"
proof -
  let ?i = "nextLogID s + int k"
  have t: "t = loggedBatch marshal events s" using BatchInsert_cases[OF assms(1), of marshal events] assms(2,6) by simp
  have inv: "logInv t" unfolding t by (rule logInv_loggedBatch[OF assms(1)])
  note entry = loggedBatch_entry[OF assms(1,4) refl assms(5) t]
  have ins: "insertable marshal s e" using assms(2,4,5) by (simp add: list_all_length)
  then obtain b where b: "marshal (de_Headers e) = Some b" "unmarshal b = Some (de_Headers e)" using assms(3) by (auto simp: insertable_def)
  define r where "r = logRow ?i b e"
  have id: "al_ID r = ?i" by (simp add: r_def logRow_def)
  have row: "List.find (\<lambda>r. al_ID r = ?i) (st_accessLog t) = Some r"
    using find_key[of al_ID "st_accessLog t" r] entry(1) inv unfolding id by (simp add: logInv_def r_def b)
  have geo: "geoipFor t r = (if GeoIsEmpty (de_GeoIP e) then None else Some (geoRow ?i (de_GeoIP e)))"
    using find_only[OF _ entry(4)] inv by (auto simp: geoipFor_def id geoipOf_def logInv_def)
  have pol: "policyFor t r = (case policiesOf ?i e of [] \<Rightarrow> None | p # _ \<Rightarrow> Some p)"
    using find_only[OF _ entry(3)] inv by (auto simp: policyFor_def id policiesOf_def logInv_def)
  have same: "st_devices t = st_devices s" "st_users t = st_users s" by (simp_all add: t loggedBatch_def)
  have "\<forall>c \<in> set (contributorsOf ?i e). lc_DeviceID c \<in> d_ID ` set (st_devices t) \<and> lc_UserID c \<in> u_ID ` set (st_users t)"
    using ins by (auto simp: contributorsOf_def contributorRow_def insertable_def list_all_iff knownContributor_def same)
  from joined_known[OF this entry(2)[symmetric]]
  have cons: "set (map (\<lambda>c. (cv_DeviceID c, cv_UserID c, cv_AddressID c)) (fetchAccessLogContributors t [?i] ?i)) =
      (if de_MatchSource e = MatchSourceNetworkPolicy then {} else (\<lambda>c. (Some (ic_DeviceID c), Some (ic_UserID c), Some (ic_AddressID c))) ` set (de_IPContributors e))"
    by (simp add: contributorsOf_def contributorRow_def image_image)
  have view: "withContributors t [?i] (toView t r) = toView t r\<lparr>v_Contributors := fetchAccessLogContributors t [?i] ?i\<rparr>"
    by (simp add: withContributors_def toView_def id split: list.splits)
  have name: "de_NetworkPolicyName e \<noteq> None" if "de_MatchSource e = MatchSourceNetworkPolicy" "de_NetworkPolicyID e \<noteq> None"
    using ins that by (auto simp: insertable_def)
  have sel: "al_ClientIP r = de_ClientIP e" "al_Outcome r = de_Outcome e" "al_DenyReason r = map_option denyReasonText (de_DenyReason e)"
    "al_CreatedAt r = de_CreatedAt e" "al_DurationUs r = de_DurationUs e" "al_TargetHost r = de_TargetHost e" "al_TargetURI r = de_TargetURI e"
    "al_HTTPMethod r = de_HTTPMethod e" "al_XFFChain r = de_XFFChain e" "al_HeadersJSON r = b" "al_ContributorCount r = int (length (de_IPContributors e))"
    by (simp_all add: r_def logRow_def)
  have np: "Option.bind (policyFor t r) lp_PolicyID = (if de_MatchSource e = MatchSourceNetworkPolicy then de_NetworkPolicyID e else None)"
    "Option.bind (policyFor t r) lp_PolicyID \<noteq> None \<longrightarrow> map_option lp_PolicyName (policyFor t r) = de_NetworkPolicyName e"
    using name by (auto simp: pol policiesOf_def)
  show ?thesis unfolding GetAccessLogEntry_def row option.case id view
    by (intro exI conjI, (rule refl)+) (use np cons in \<open>simp_all add: toView_def sel b(2) geo geoRow_def\<close>)
qed

section \<open>Examples\<close>

text \<open>A codec that satisfies \<open>cursorLaw\<close>: a value is written as a number in unary.\<close>

definition unary :: "'a::countable \<Rightarrow> string" where
  "unary x = replicate (Suc (to_nat x)) (CHR ''1'')"

definition ofUnary :: "string \<Rightarrow> 'a::countable" where
  "ofUnary s = from_nat (length s - 1)"

lemma ofUnary_unary [simp]: "ofUnary (unary x) = x"
  by (simp add: ofUnary_def unary_def)


fun sqlvalCode :: "sqlval \<Rightarrow> nat \<times> int \<times> string" where
  "sqlvalCode (VInt i) = (0, i, [])"
| "sqlvalCode (VTime t) = (1, t, [])"
| "sqlvalCode (VText s) = (2, 0, s)"

fun sqlvalDecode :: "nat \<times> int \<times> string \<Rightarrow> sqlval" where
  "sqlvalDecode (n, i, s) = (if n = 0 then VInt i else if n = 1 then VTime i else VText s)"

lemma sqlvalDecode_code [simp]: "sqlvalDecode (sqlvalCode v) = v"
  by (cases v) simp_all



definition sampleParams :: GetAccessLogParams where
  "sampleParams = \<lparr>gp_Filter = \<lparr>fp_From = Some 0, fp_To = Some (minutes 1), fp_Outcome = Some False, fp_ClientIP = None, fp_ClientIPOp = None,
     fp_TargetHost = Some [''APP''], fp_TargetHostOp = Some ''contains'', fp_TargetURI = None, fp_TargetURIOp = None, fp_HTTPMethod = None,
     fp_HTTPMethodOp = None, fp_DenyReason = None, fp_DenyReasonOp = None, fp_CountryCode = None, fp_CountryCodeOp = Some ''is_null'',
     fp_DeviceID = None, fp_DeviceIDOp = None, fp_UserID = None, fp_UserIDOp = None, fp_NetworkPolicyID = None, fp_NetworkPolicyIDOp = None\<rparr>,
     gp_Sort = Some ''target_host'', gp_Order = Some ''asc'', gp_Cursor = None, gp_Limit = Some 1\<rparr>"

definition sampleLog :: store where
  "sampleLog = loggedBatch plainHeaders
     [sampleEvent, sampleEvent\<lparr>de_TargetHost := None\<rparr>, sampleEvent, sampleEvent\<lparr>de_TargetHost := Some ''an.app'', de_CreatedAt := 9\<rparr>] emptyStore"

definition sampleQuery :: AccessLogQuery where
  "sampleQuery = \<lparr>q_From = 0, q_To = minutes 1, q_Outcome = Some False,
     q_Filters = [\<lparr>f_Column = ''target_host'', f_Op = OpContains, f_Values = [VText ''APP'']\<rparr>, \<lparr>f_Column = ''country_code'', f_Op = OpIsNull, f_Values = []\<rparr>],
     q_Sort = ''target_host'', q_Order = ''asc'', q_Cursor = None, q_Limit = 1\<rparr>"



lemma histogram_counts_selected_witness:
  "\<exists>bs. GetAccessLogHistogram (sampleQuery\<lparr>q_Sort := [], q_Order := [], q_Limit := 0\<rparr>) sampleLog = Inr bs \<and>
    (\<Sum>b \<leftarrow> bs. hb_AllowCount b + hb_DenyCount b) = 3"
proof -
  let ?q = "sampleQuery\<lparr>q_Sort := [], q_Order := [], q_Limit := 0\<rparr>"
  have q: "newAccessLogQuery 7 (gp_Filter sampleParams) = Inr ?q" by code_simp
  have three: "length (selected ?q sampleLog) = 3" by code_simp
  have window: "q_From ?q \<le> q_To ?q" "q_From ?q \<noteq> zeroTime" "q_To ?q \<noteq> zeroTime"
    by (simp_all add: sampleQuery_def zeroTime_def minutes_def)
  show ?thesis using histogram_counts_selected[OF q window refl, of sampleLog] unfolding three by blast
qed

lemma entry_roundtrip_witness:
  "\<exists>d. GetAccessLogEntry (\<lambda>c. Some (ofUnary c)) 2 (snd (BatchInsert (\<lambda>h. Some (unary h)) [sampleEvent, sampleEvent\<lparr>de_Headers := [(''User-Agent'', [''curl''])]\<rparr>] emptyStore)) = Some d \<and>
     v_TargetHost (dv_Row d) = Some ''app.lan'' \<and> dv_Headers d = [(''User-Agent'', [''curl''])]"
proof -
  let ?m = "\<lambda>h. Some (unary h)" and ?es = "[sampleEvent, sampleEvent\<lparr>de_Headers := [(''User-Agent'', [''curl''])]\<rparr>]"
  obtain r t where b: "BatchInsert ?m ?es emptyStore = (r, t)" by fastforce
  have ok: "list_all (insertable ?m emptyStore) ?es" by (simp add: insertable_def sampleEvent_def)
  have law: "Some (ofUnary c) = Some h" if "?m h = Some c" for h :: header and c using that by auto
  have first: "nextLogID emptyStore + int 1 = 2" by code_simp
  show ?thesis
    using entry_roundtrip[where unmarshal = "\<lambda>c. Some (ofUnary c)", OF logInv_empty ok law _ refl b, of 1] unfolding first b
    by (auto simp: sampleEvent_def)
qed

end
