(* ===== verification/Rollup.thy ===== *)
theory Rollup
  imports Access_Log Timebucket Grouping "HOL-Library.Product_Lexorder" "HOL-Library.Option_ord"
begin

text \<open>
  The hourly rollups (\<open>src/internal/rollup/\<close> \<open>traffic_rollup.go\<close>, \<open>attribution_rollup.go\<close>, \<open>job.go\<close>): complete hours of the access log are
  aggregated into two tables that answer for wide windows after the log itself has been pruned.

  \<open>strftime\<close> truncates an instant to its hour, \<open>TruncateToBucket GranularityHour\<close>. A \<open>GROUP BY\<close> on a column name means the column of
  the table, so rows without a host and rows with an empty one are different groups. \<open>INSERT OR REPLACE\<close> removes the row with the same
  unique key. Whether a statement of the catch-up loop fails is an argument, a function of the start of the chunk.
\<close>

section \<open>Traffic\<close>

definition hour :: time where
  "hour = minutes 60"

definition hourOf :: "time \<Rightarrow> time" where
  "hourOf t = TruncateToBucket GranularityHour t"

definition rowsBetween :: "time \<Rightarrow> time \<Rightarrow> store \<Rightarrow> AccessLogRow list" where
  "rowsBetween from to s = filter (\<lambda>r. from \<le> al_CreatedAt r \<and> al_CreatedAt r < to) (st_accessLog s)"

definition geoipOfRow :: "store \<Rightarrow> AccessLogRow \<Rightarrow> LogGeoip option" where
  "geoipOfRow s r = List.find (\<lambda>g. lg_AccessLogID g = al_ID r) (st_logGeoip s)"

definition coalesce :: "string option \<Rightarrow> string" where
  "coalesce x = (case x of None \<Rightarrow> [] | Some t \<Rightarrow> t)"

definition maxText :: "string list \<Rightarrow> string" where
  "maxText xs = fold max xs []"

definition maxInt :: "int list \<Rightarrow> int" where
  "maxInt xs = (case xs of [] \<Rightarrow> 0 | y # ys \<Rightarrow> fold max ys y)"

type_synonym trafficKey = "time \<times> string \<times> string option \<times> bool \<times> string option"

definition trafficKeyOf :: "AccessLogRow \<Rightarrow> trafficKey" where
  "trafficKeyOf r = (hourOf (al_CreatedAt r), al_ClientIP r, al_TargetHost r, al_Outcome r, al_DenyReason r)"

definition trafficAggregate :: "store \<Rightarrow> trafficKey \<times> AccessLogRow list \<Rightarrow> TrafficAggregate" where
  "trafficAggregate s g = (case g of ((bucket, ip, host, outcome, reason), rows) \<Rightarrow>
     \<lparr>ta_BucketAt = bucket, ta_ClientIP = ip, ta_TargetHost = coalesce host, ta_Outcome = outcome, ta_DenyReason = coalesce reason,
      ta_RequestCount = int (length rows), ta_SumDurationUs = sum_list (map al_DurationUs rows), ta_MaxDurationUs = maxInt (map al_DurationUs rows),
      ta_CountryCode = maxText (map (\<lambda>r. coalesce (map_option lg_CountryCode (geoipOfRow s r))) rows),
      ta_CountryName = maxText (map (\<lambda>r. coalesce (map_option lg_CountryName (geoipOfRow s r))) rows),
      ta_ContinentCode = maxText (map (\<lambda>r. coalesce (map_option lg_ContinentCode (geoipOfRow s r))) rows)\<rparr>)"

definition aggregateKey :: "TrafficAggregate \<Rightarrow> time \<times> string \<times> string \<times> bool \<times> string" where
  "aggregateKey a = (ta_BucketAt a, ta_ClientIP a, ta_TargetHost a, ta_Outcome a, ta_DenyReason a)"

definition insertOrReplace :: "('a \<Rightarrow> 'k) \<Rightarrow> 'a \<Rightarrow> 'a list \<Rightarrow> 'a list" where
  "insertOrReplace key a as = filter (\<lambda>b. key b \<noteq> key a) as @ [a]"

definition trafficGroups :: "store \<Rightarrow> AccessLogRow list \<Rightarrow> TrafficAggregate list" where
  "trafficGroups s rows = map (trafficAggregate s) (groupBy trafficKeyOf rows)"

definition RunRollup :: "time \<Rightarrow> time \<Rightarrow> store \<Rightarrow> store" where
  "RunRollup from to s = s\<lparr>st_trafficAggregates :=
     fold (insertOrReplace aggregateKey) (trafficGroups s (rowsBetween from to s)) (st_trafficAggregates s)\<rparr>"

text \<open>\<open>MAX\<close> and \<open>MIN\<close> of an empty table are \<open>NULL\<close>, which is scanned as the zero time.\<close>

definition LastRollupAt :: "store \<Rightarrow> time" where
  "LastRollupAt s = (case map ta_BucketAt (st_trafficAggregates s) of [] \<Rightarrow> zeroTime | t # ts \<Rightarrow> fold max ts t)"

definition EarliestAccessLogAt :: "store \<Rightarrow> time" where
  "EarliestAccessLogAt s = (case map al_CreatedAt (st_accessLog s) of [] \<Rightarrow> zeroTime | t # ts \<Rightarrow> fold min ts t)"

definition DeleteAggregatesOlderThan :: "time \<Rightarrow> store \<Rightarrow> int \<times> store" where
  "DeleteAggregatesOlderThan before s = (int (length (filter (\<lambda>a. ta_BucketAt a < before) (st_trafficAggregates s))),
     s\<lparr>st_trafficAggregates := filter (\<lambda>a. \<not> ta_BucketAt a < before) (st_trafficAggregates s)\<rparr>)"

section \<open>Attribution\<close>

definition AttributionKindPolicy :: string where "AttributionKindPolicy = ''policy''"
definition AttributionKindUser :: string where "AttributionKindUser = ''user''"
definition AttributionKindDevice :: string where "AttributionKindDevice = ''device''"

text \<open>The \<open>FROM\<close> clause of a kind: the entry, the id and the name of the entity, for every link.\<close>

type_synonym link = "AccessLogRow \<times> id option \<times> string"

definition policyLinks :: "store \<Rightarrow> link list" where
  "policyLinks s = concat (map (\<lambda>r. map (\<lambda>p. (r, lp_PolicyID p, lp_PolicyName p))
     (filter (\<lambda>p. lp_AccessLogID p = al_ID r) (st_logPolicies s))) (st_accessLog s))"

definition userLinks :: "store \<Rightarrow> link list" where
  "userLinks s = concat (map (\<lambda>r. concat (map (\<lambda>c. map (\<lambda>u. (r, Some (lc_UserID c), u_DisplayName u)) (filter (\<lambda>u. u_ID u = lc_UserID c) (st_users s)))
     (filter (\<lambda>c. lc_AccessLogID c = al_ID r) (st_logContributors s)))) (st_accessLog s))"

definition deviceLinks :: "store \<Rightarrow> link list" where
  "deviceLinks s = concat (map (\<lambda>r. concat (map (\<lambda>c. map (\<lambda>d. (r, Some (lc_DeviceID c), d_Name d)) (filter (\<lambda>d. d_ID d = lc_DeviceID c) (st_devices s)))
     (filter (\<lambda>c. lc_AccessLogID c = al_ID r) (st_logContributors s)))) (st_accessLog s))"

record attributionSpec =
  as_source :: "store \<Rightarrow> link list"
  as_rollupCount :: "link list \<Rightarrow> int"

definition countAll :: "link list \<Rightarrow> int" where
  "countAll ls = int (length ls)"

definition countDistinct :: "link list \<Rightarrow> int" where
  "countDistinct ls = int (length (remdups (map (\<lambda>l. al_ID (fst l)) ls)))"

definition attributionSpecs :: "(string \<times> attributionSpec) list" where
  "attributionSpecs =
    [(AttributionKindPolicy, \<lparr>as_source = policyLinks, as_rollupCount = countAll\<rparr>),
     (AttributionKindUser, \<lparr>as_source = userLinks, as_rollupCount = countDistinct\<rparr>),
     (AttributionKindDevice, \<lparr>as_source = deviceLinks, as_rollupCount = countDistinct\<rparr>)]"

definition linksBetween :: "time \<Rightarrow> time \<Rightarrow> link list \<Rightarrow> link list" where
  "linksBetween from to ls = filter (\<lambda>l. from \<le> al_CreatedAt (fst l) \<and> al_CreatedAt (fst l) < to) ls"

definition maxId :: "id option list \<Rightarrow> id option" where
  "maxId is = (case concat (map (\<lambda>x. case x of None \<Rightarrow> [] | Some i \<Rightarrow> [i]) is) of [] \<Rightarrow> None | i # js \<Rightarrow> Some (fold max js i))"

definition attributionKeyOf :: "link \<Rightarrow> time \<times> string \<times> bool" where
  "attributionKeyOf l = (hourOf (al_CreatedAt (fst l)), snd (snd l), al_Outcome (fst l))"

definition attributionAggregate :: "string \<Rightarrow> attributionSpec \<Rightarrow> (time \<times> string \<times> bool) \<times> link list \<Rightarrow> AttributionAggregate" where
  "attributionAggregate kind spec g = (case g of ((bucket, name, outcome), ls) \<Rightarrow>
     \<lparr>aa_BucketAt = bucket, aa_EntityKind = kind, aa_EntityID = maxId (map (\<lambda>l. fst (snd l)) ls), aa_EntityName = name, aa_Outcome = outcome,
      aa_RequestCount = as_rollupCount spec ls\<rparr>)"

definition attributionKey :: "AttributionAggregate \<Rightarrow> time \<times> string \<times> string \<times> bool" where
  "attributionKey a = (aa_BucketAt a, aa_EntityKind a, aa_EntityName a, aa_Outcome a)"

definition attributionGroups :: "time \<Rightarrow> time \<Rightarrow> string \<Rightarrow> attributionSpec \<Rightarrow> store \<Rightarrow> AttributionAggregate list" where
  "attributionGroups from to kind spec s =
    map (attributionAggregate kind spec) (groupBy attributionKeyOf (linksBetween from to (as_source spec s)))"

definition RunAttributionRollup :: "time \<Rightarrow> time \<Rightarrow> store \<Rightarrow> store" where
  "RunAttributionRollup from to s = fold (\<lambda>(kind, spec) s.
     s\<lparr>st_attributionAggregates := fold (insertOrReplace attributionKey) (attributionGroups from to kind spec s) (st_attributionAggregates s)\<rparr>)
     attributionSpecs s"

definition DeleteAttributionAggregatesOlderThan :: "time \<Rightarrow> store \<Rightarrow> int \<times> store" where
  "DeleteAttributionAggregatesOlderThan before s = (int (length (filter (\<lambda>a. aa_BucketAt a < before) (st_attributionAggregates s))),
     s\<lparr>st_attributionAggregates := filter (\<lambda>a. \<not> aa_BucketAt a < before) (st_attributionAggregates s)\<rparr>)"

section \<open>The job\<close>

record RollupJob =
  rj_lastRollupAt :: time
  rj_initialized :: bool

definition NewRollupJob :: RollupJob where
  "NewRollupJob = \<lparr>rj_lastRollupAt = zeroTime, rj_initialized = False\<rparr>"

definition catchUpChunk :: time where
  "catchUpChunk = 24 * hour"

function catchUp :: "(time \<Rightarrow> bool) \<Rightarrow> (time \<Rightarrow> bool) \<Rightarrow> time \<Rightarrow> time \<Rightarrow> RollupJob \<times> store \<Rightarrow> (err, unit) result \<times> RollupJob \<times> store" where
  "catchUp trafficOk attributionOk currentHour chunkFrom (j, s) =
    (if chunkFrom < currentHour then
       let chunkTo = (if chunkFrom + catchUpChunk > currentHour then currentHour else chunkFrom + catchUpChunk)
       in if \<not> trafficOk chunkFrom then (Inl DBError, j, s)
          else let s1 = RunRollup chunkFrom chunkTo s
            in if \<not> attributionOk chunkFrom then (Inl DBError, j, s1)
               else catchUp trafficOk attributionOk currentHour chunkTo (j\<lparr>rj_lastRollupAt := chunkTo\<rparr>, RunAttributionRollup chunkFrom chunkTo s1)
     else (Inr (), j, s))"
  by pat_completeness auto
termination
  by (relation "measure (\<lambda>(tOk, aOk, currentHour, chunkFrom, js). nat (currentHour - chunkFrom))")
    (auto simp: catchUpChunk_def hour_def minutes_def)

declare catchUp.simps [simp del]

definition initJob :: "RollupJob \<Rightarrow> store \<Rightarrow> RollupJob" where
  "initJob j s = (if rj_initialized j then j
     else let last = LastRollupAt s
       in (if last \<noteq> zeroTime then j\<lparr>rj_lastRollupAt := last + hour\<rparr> else j)\<lparr>rj_initialized := True\<rparr>)"

definition RunJob :: "(time \<Rightarrow> bool) \<Rightarrow> (time \<Rightarrow> bool) \<Rightarrow> time \<Rightarrow> RollupJob \<times> store \<Rightarrow> (err, unit) result \<times> RollupJob \<times> store" where
  "RunJob trafficOk attributionOk now w = (case w of (j0, s) \<Rightarrow>
     let currentHour = hourOf now; j = initJob j0 s
     in if rj_lastRollupAt j \<noteq> zeroTime \<and> \<not> rj_lastRollupAt j < currentHour then (Inr (), j, s)
        else let earliest = EarliestAccessLogAt s
          in if earliest = zeroTime then (Inr (), j\<lparr>rj_lastRollupAt := currentHour\<rparr>, s)
             else let from = (if rj_lastRollupAt j < hourOf earliest then hourOf earliest else rj_lastRollupAt j)
               in if \<not> from < currentHour then (Inr (), j\<lparr>rj_lastRollupAt := currentHour\<rparr>, s)
                  else catchUp trafficOk attributionOk currentHour from (j, s))"

section \<open>What the aggregates hold\<close>

definition aligned :: "time \<Rightarrow> bool" where
  "aligned t \<longleftrightarrow> hourOf t = t"

lemma hour_pos [simp]: "0 < hour" "hour \<noteq> 0"
  by (simp_all add: hour_def minutes_def)

lemma hourOf_div: "hourOf t = t div hour * hour"
  by (simp add: hourOf_def TruncateToBucket_def hour_def)

lemma hourOf_le: "hourOf t \<le> t" "t < hourOf t + hour"
  using div_mult_mod_eq[of t hour] pos_mod_sign[OF hour_pos(1), of t] pos_mod_bound[OF hour_pos(1), of t] unfolding hourOf_div by linarith+

lemma aligned_hourOf [simp]: "aligned (hourOf t)"
  by (simp add: aligned_def hourOf_div)

lemma hourOf_mono: "t \<le> u \<Longrightarrow> hourOf t \<le> hourOf u"
  by (simp add: hourOf_div zdiv_mono1)

lemma aligned_le:
  assumes "aligned b"
  shows "b \<le> hourOf t \<longleftrightarrow> b \<le> t" "hourOf t < b \<longleftrightarrow> t < b"
proof -
  show le: "b \<le> hourOf t \<longleftrightarrow> b \<le> t" using hourOf_mono[of b t] hourOf_le(1)[of t] assms by (auto simp: aligned_def)
  then show "hourOf t < b \<longleftrightarrow> t < b" by auto
qed

lemma aligned_add: "aligned a \<Longrightarrow> aligned (a + hour)"
  by (simp add: aligned_def hourOf_div div_add_self2 distrib_right)

lemma aligned_step:
  assumes "aligned a" "aligned b" "a < b"
  shows "a + hour \<le> b"
proof -
  have ab: "a = a div hour * hour" "b = b div hour * hour" using assms(1,2) by (simp_all add: aligned_def hourOf_div)
  then have "a div hour * hour < b div hour * hour" using assms(3) by simp
  then have "a div hour + 1 \<le> b div hour" using mult_less_cancel_right_pos[OF hour_pos(1)] by simp
  then have "(a div hour + 1) * hour \<le> b div hour * hour" using less_imp_le[OF hour_pos(1)] by (intro mult_right_mono) simp_all
  then show ?thesis using ab by (simp add: distrib_right)
qed

lemma aligned_zero [simp]: "aligned zeroTime"
  by code_simp

lemma insertOrReplace_fold:
  "distinct (map key bs) \<Longrightarrow> fold (insertOrReplace key) bs as = filter (\<lambda>a. key a \<notin> key ` set bs) as @ bs"
proof (induction bs arbitrary: as)
  case (Cons b bs)
  then have "filter (\<lambda>a. key a \<notin> key ` set bs) (insertOrReplace key b as) @ bs = filter (\<lambda>a. key a \<notin> key ` set (b # bs)) as @ b # bs"
    by (auto simp: insertOrReplace_def filter_filter conj_commute)
  then show ?case using Cons by simp
qed simp

lemma replaced_distinct:
  "distinct (map key as) \<Longrightarrow> distinct (map key bs) \<Longrightarrow> distinct (map key (filter (\<lambda>a. key a \<notin> key ` set bs) as @ bs))"
  by (auto simp: distinct_map_filter)

text \<open>Rows as the engine writes them: no empty host or reason, and a time after the first hour of year 1, which stands for no time.\<close>

definition normalRow :: "AccessLogRow \<Rightarrow> bool" where
  "normalRow r \<longleftrightarrow> al_TargetHost r \<noteq> Some [] \<and> al_DenyReason r \<noteq> Some [] \<and> zeroTime + hour \<le> al_CreatedAt r"

definition bucketAggregate :: "store \<Rightarrow> AccessLogRow \<Rightarrow> TrafficAggregate" where
  "bucketAggregate s r = trafficAggregate s (trafficKeyOf r, filter (\<lambda>x. trafficKeyOf x = trafficKeyOf r) (st_accessLog s))"

lemma bucketAggregate_key:
  "aggregateKey (bucketAggregate s r) = (hourOf (al_CreatedAt r), al_ClientIP r, coalesce (al_TargetHost r), al_Outcome r, coalesce (al_DenyReason r))"
  by (simp add: bucketAggregate_def trafficAggregate_def aggregateKey_def trafficKeyOf_def)

lemma bucketAggregate_bucket [simp]: "ta_BucketAt (bucketAggregate s r) = hourOf (al_CreatedAt r)"
  by (simp add: bucketAggregate_def trafficAggregate_def trafficKeyOf_def)

lemma coalesce_inj: "x \<noteq> Some [] \<Longrightarrow> y \<noteq> Some [] \<Longrightarrow> coalesce x = coalesce y \<longleftrightarrow> x = y"
  by (auto simp: coalesce_def split: option.splits)

lemma bucketAggregate_inj:
  assumes "normalRow r" "normalRow q" "aggregateKey (bucketAggregate s r) = aggregateKey (bucketAggregate s q)"
  shows "trafficKeyOf r = trafficKeyOf q"
  using assms by (auto simp: bucketAggregate_key trafficKeyOf_def normalRow_def coalesce_inj)

lemma between_hour:
  assumes "aligned lo" "aligned hi" "trafficKeyOf r = trafficKeyOf q"
  shows "lo \<le> al_CreatedAt r \<and> al_CreatedAt r < hi \<longleftrightarrow> lo \<le> al_CreatedAt q \<and> al_CreatedAt q < hi"
  using assms(3) aligned_le[OF assms(1)] aligned_le[OF assms(2)] unfolding trafficKeyOf_def by (metis prod.inject)

lemma trafficGroups_between:
  assumes "aligned lo" "aligned hi"
  shows "trafficGroups s (rowsBetween lo hi s) = map (\<lambda>k. trafficAggregate s (k, filter (\<lambda>x. trafficKeyOf x = k) (st_accessLog s)))
    (sort (remdups (map trafficKeyOf (rowsBetween lo hi s))))"
proof -
  have "filter (\<lambda>x. trafficKeyOf x = k) (rowsBetween lo hi s) = filter (\<lambda>x. trafficKeyOf x = k) (st_accessLog s)"
    if k: "k \<in> trafficKeyOf ` set (rowsBetween lo hi s)" for k
  proof -
    obtain r where r: "k = trafficKeyOf r" "lo \<le> al_CreatedAt r \<and> al_CreatedAt r < hi" using k by (auto simp: rowsBetween_def)
    have "(lo \<le> al_CreatedAt x \<and> al_CreatedAt x < hi) \<and> trafficKeyOf x = k \<longleftrightarrow> trafficKeyOf x = k" for x
      using between_hour[OF assms, of x r] r by blast
    then show ?thesis unfolding rowsBetween_def filter_filter by simp
  qed
  then show ?thesis by (simp add: trafficGroups_def groupBy_def)
qed

lemma trafficGroups_set:
  assumes "aligned lo" "aligned hi"
  shows "set (trafficGroups s (rowsBetween lo hi s)) = bucketAggregate s ` set (rowsBetween lo hi s)"
  unfolding trafficGroups_between[OF assms] by (simp add: bucketAggregate_def image_image)

lemma trafficGroups_distinct:
  assumes "aligned lo" "aligned hi" "list_all normalRow (st_accessLog s)"
  shows "distinct (map aggregateKey (trafficGroups s (rowsBetween lo hi s)))"
proof -
  let ?agg = "\<lambda>k. aggregateKey (trafficAggregate s (k, filter (\<lambda>x. trafficKeyOf x = k) (st_accessLog s)))"
  have "inj_on ?agg (trafficKeyOf ` set (rowsBetween lo hi s))"
  proof (rule inj_onI)
    fix k l assume kl: "k \<in> trafficKeyOf ` set (rowsBetween lo hi s)" "l \<in> trafficKeyOf ` set (rowsBetween lo hi s)" "?agg k = ?agg l"
    then obtain r q where rq: "r \<in> set (rowsBetween lo hi s)" "q \<in> set (rowsBetween lo hi s)" "k = trafficKeyOf r" "l = trafficKeyOf q" by blast
    then have "normalRow r" "normalRow q" using assms(3) by (auto simp: rowsBetween_def list_all_iff)
    then show "k = l" using bucketAggregate_inj[of r q s] kl(3) rq(3,4) by (simp add: bucketAggregate_def)
  qed
  then show ?thesis unfolding trafficGroups_between[OF assms(1,2)] by (simp add: distinct_map comp_def)
qed

lemma bucketAggregate_cong:
  assumes "st_accessLog t = st_accessLog s" "st_logGeoip t = st_logGeoip s"
  shows "bucketAggregate t = bucketAggregate s" "rowsBetween lo hi t = rowsBetween lo hi s"
  using assms by (auto simp: bucketAggregate_def rowsBetween_def trafficAggregate_def geoipOfRow_def fun_eq_iff)

definition rollupInv :: "time \<Rightarrow> time \<Rightarrow> store \<Rightarrow> bool" where
  "rollupInv floor hi s \<longleftrightarrow> logInv s \<and> list_all normalRow (st_accessLog s) \<and> aligned floor \<and> aligned hi \<and> zeroTime \<le> hi \<and>
     distinct (map aggregateKey (st_trafficAggregates s)) \<and>
     (\<forall>a \<in> set (st_trafficAggregates s). aligned (ta_BucketAt a) \<and> ta_BucketAt a < hi) \<and>
     {a \<in> set (st_trafficAggregates s). floor \<le> ta_BucketAt a} = bucketAggregate s ` set (rowsBetween floor hi s)"

lemma RunRollup_aggregates:
  assumes "rollupInv floor hi s" "aligned from" "aligned to"
  shows "st_trafficAggregates (RunRollup from to s) =
    filter (\<lambda>a. aggregateKey a \<notin> aggregateKey ` bucketAggregate s ` set (rowsBetween from to s)) (st_trafficAggregates s) @ trafficGroups s (rowsBetween from to s)"
  using insertOrReplace_fold[OF trafficGroups_distinct[OF assms(2,3), of s], of "st_trafficAggregates s"] assms(1)
  by (simp add: RunRollup_def trafficGroups_set[OF assms(2,3)] rollupInv_def)

lemma rollupInv_RunRollup:
  assumes inv: "rollupInv floor hi s" and al: "aligned from" "aligned to" and le: "from \<le> hi"
  shows "rollupInv floor (max hi to) (RunRollup from to s)"
proof -
  let ?t = "RunRollup from to s" and ?G = "bucketAggregate s ` set (rowsBetween from to s)"
  have same: "st_accessLog ?t = st_accessLog s" "st_logGeoip ?t = st_logGeoip s" by (simp_all add: RunRollup_def)
  note cong = bucketAggregate_cong[OF same]
  note aggs = RunRollup_aggregates[OF inv al]
  have sets: "set (st_trafficAggregates ?t) = {a \<in> set (st_trafficAggregates s). aggregateKey a \<notin> aggregateKey ` ?G} \<union> ?G"
    unfolding aggs by (simp add: trafficGroups_set[OF al])
  have hi: "aligned (max hi to)" "aligned floor" using inv al by (auto simp: rollupInv_def max_def)
  have logged: "logInv ?t" using inv by (simp add: rollupInv_def logInv_def RunRollup_def)
  have dist: "distinct (map aggregateKey (st_trafficAggregates ?t))"
  proof -
    have "distinct (map aggregateKey (st_trafficAggregates s))" "distinct (map aggregateKey (trafficGroups s (rowsBetween from to s)))"
      using inv trafficGroups_distinct[OF al, of s] by (simp_all add: rollupInv_def)
    from replaced_distinct[OF this] show ?thesis unfolding aggs trafficGroups_set[OF al] .
  qed
  have old: "{a \<in> set (st_trafficAggregates s). floor \<le> ta_BucketAt a} = bucketAggregate s ` set (rowsBetween floor hi s)"
    using inv by (simp add: rollupInv_def)
  have bound: "\<forall>a \<in> set (st_trafficAggregates ?t). aligned (ta_BucketAt a) \<and> ta_BucketAt a < max hi to"
    unfolding sets using inv aligned_le(2)[OF al(2)] by (auto simp: rollupInv_def rowsBetween_def less_max_iff_disj)
  have "{a \<in> set (st_trafficAggregates ?t). floor \<le> ta_BucketAt a} = bucketAggregate s ` set (rowsBetween floor (max hi to) s)" (is "?L = ?R")
  proof
    show "?L \<subseteq> ?R"
    proof
      fix a assume a: "a \<in> ?L"
      then consider "a \<in> {a \<in> set (st_trafficAggregates s). floor \<le> ta_BucketAt a}" | r where "r \<in> set (rowsBetween from to s)" "a = bucketAggregate s r"
        using sets by auto
      then show "a \<in> ?R"
      proof cases
        case 1
        then show ?thesis unfolding old by (auto simp: rowsBetween_def)
      next
        case 2
        then have "floor \<le> al_CreatedAt r" using a aligned_le(1)[OF hi(2)] by simp
        then show ?thesis using 2 by (auto simp: rowsBetween_def)
      qed
    qed
    show "?R \<subseteq> ?L"
    proof
      fix a assume "a \<in> ?R"
      then obtain r where r: "r \<in> set (st_accessLog s)" "floor \<le> al_CreatedAt r" "al_CreatedAt r < max hi to" "a = bucketAggregate s r"
        by (auto simp: rowsBetween_def)
      have floor: "floor \<le> ta_BucketAt a" using r(2,4) aligned_le(1)[OF hi(2)] by simp
      show "a \<in> ?L"
      proof (cases "from \<le> al_CreatedAt r \<and> al_CreatedAt r < to")
        case True
        then show ?thesis using r floor sets by (auto simp: rowsBetween_def)
      next
        case False
        then have "al_CreatedAt r < hi" using r(3) le by auto
        then have "a \<in> {a \<in> set (st_trafficAggregates s). floor \<le> ta_BucketAt a}" unfolding old using r by (auto simp: rowsBetween_def)
        moreover have "aggregateKey a \<notin> aggregateKey ` ?G"
        proof
          assume "aggregateKey a \<in> aggregateKey ` ?G"
          then obtain q where "q \<in> set (rowsBetween from to s)" "hourOf (al_CreatedAt r) = hourOf (al_CreatedAt q)"
            using r(4) by (auto simp: bucketAggregate_key)
          then show False using False aligned_le[OF al(1)] aligned_le[OF al(2)] unfolding rowsBetween_def by (metis (mono_tags, lifting) filter_is_subset mem_Collect_eq set_filter)
        qed
        ultimately show ?thesis using sets by auto
      qed
    qed
  qed
  then show ?thesis using inv hi logged dist bound same by (simp add: rollupInv_def cong max.coboundedI1)
qed

lemma rollupInv_tables:
  assumes "rollupInv floor hi s" "logInv t" "st_accessLog t = st_accessLog s" "st_logGeoip t = st_logGeoip s" "st_trafficAggregates t = st_trafficAggregates s"
  shows "rollupInv floor hi t"
  using assms bucketAggregate_cong[OF assms(3,4)] by (simp add: rollupInv_def)

lemma rollupInv_cong:
  assumes "st_accessLog t = st_accessLog s" "st_logGeoip t = st_logGeoip s" "st_trafficAggregates t = st_trafficAggregates s"
    "st_logContributors t = st_logContributors s" "st_logPolicies t = st_logPolicies s"
  shows "rollupInv floor hi t = rollupInv floor hi s"
  using assms bucketAggregate_cong[OF assms(1,2)] by (simp add: rollupInv_def logInv_def)

lemma RunAttributionRollup_same [simp]:
  "st_accessLog (RunAttributionRollup from to s) = st_accessLog s" "st_logGeoip (RunAttributionRollup from to s) = st_logGeoip s"
  "st_trafficAggregates (RunAttributionRollup from to s) = st_trafficAggregates s"
  "st_logContributors (RunAttributionRollup from to s) = st_logContributors s" "st_logPolicies (RunAttributionRollup from to s) = st_logPolicies s"
  by (simp_all add: RunAttributionRollup_def attributionSpecs_def)

lemma rollupInv_RunAttribution: "rollupInv floor hi (RunAttributionRollup from to s) = rollupInv floor hi s"
  by (rule rollupInv_cong) simp_all

text \<open>The end of the covered hours may be moved over hours without rows, in both directions.\<close>

lemma rollupInv_extend:
  assumes "rollupInv floor hi s" "hi \<le> hi'" "aligned hi'" "\<forall>r \<in> set (st_accessLog s). floor \<le> al_CreatedAt r \<longrightarrow> \<not> (hi \<le> al_CreatedAt r \<and> al_CreatedAt r < hi')"
  shows "rollupInv floor hi' s"
proof -
  have "rowsBetween floor hi' s = rowsBetween floor hi s"
    unfolding rowsBetween_def by (rule filter_cong[OF refl]) (use assms(2,4) in force)
  then show ?thesis using assms(1-3) by (auto simp: rollupInv_def)
qed

lemma rollupInv_shrink:
  assumes "rollupInv floor hi s" "hi' \<le> hi" "aligned hi'" "zeroTime \<le> hi'" "\<forall>a \<in> set (st_trafficAggregates s). ta_BucketAt a < hi'"
  shows "rollupInv floor hi' s"
proof -
  have "bucketAggregate s ` set (rowsBetween floor hi s) \<subseteq> bucketAggregate s ` set (rowsBetween floor hi' s)"
  proof
    fix a assume a: "a \<in> bucketAggregate s ` set (rowsBetween floor hi s)"
    then have "ta_BucketAt a < hi'" using assms(1,5) unfolding rollupInv_def by blast
    then show "a \<in> bucketAggregate s ` set (rowsBetween floor hi' s)" using a aligned_le(2)[OF assms(3)] by (auto simp: rowsBetween_def)
  qed
  moreover have "bucketAggregate s ` set (rowsBetween floor hi' s) \<subseteq> bucketAggregate s ` set (rowsBetween floor hi s)"
    using assms(2) by (auto simp: rowsBetween_def)
  ultimately show ?thesis using assms by (auto simp: rollupInv_def)
qed

lemma rollupInv_floor:
  assumes "rollupInv floor hi s" "floor \<le> floor'" "aligned floor'"
  shows "rollupInv floor' hi s"
proof -
  have "{a \<in> set (st_trafficAggregates s). floor' \<le> ta_BucketAt a} = {a \<in> bucketAggregate s ` set (rowsBetween floor hi s). floor' \<le> ta_BucketAt a}"
  proof -
    have "{a \<in> set (st_trafficAggregates s). floor \<le> ta_BucketAt a} = bucketAggregate s ` set (rowsBetween floor hi s)" using assms(1) by (simp add: rollupInv_def)
    then show ?thesis using assms(2) by (metis (no_types, lifting) Collect_cong mem_Collect_eq order_trans)
  qed
  also have "\<dots> = bucketAggregate s ` {r \<in> set (rowsBetween floor hi s). floor' \<le> ta_BucketAt (bucketAggregate s r)}" by blast
  also have "{r \<in> set (rowsBetween floor hi s). floor' \<le> ta_BucketAt (bucketAggregate s r)} = set (rowsBetween floor' hi s)"
    using assms(2) by (auto simp: rowsBetween_def aligned_le(1)[OF assms(3)])
  finally show ?thesis using assms by (simp add: rollupInv_def)
qed

section \<open>A run of the job\<close>

definition jobOK :: "RollupJob \<Rightarrow> bool" where
  "jobOK j \<longleftrightarrow> (if rj_initialized j then aligned (rj_lastRollupAt j) else j = NewRollupJob)"

definition aggregatesEnd :: "store \<Rightarrow> time" where
  "aggregatesEnd s = (if st_trafficAggregates s = [] then zeroTime else LastRollupAt s + hour)"

text \<open>The hours before this instant are done: for the running job, and for one that starts now.\<close>

definition coveredTo :: "RollupJob \<Rightarrow> store \<Rightarrow> time" where
  "coveredTo j s = max (if rj_initialized j then rj_lastRollupAt j else zeroTime) (aggregatesEnd s)"

lemma LastRollupAt_Max: "st_trafficAggregates s \<noteq> [] \<Longrightarrow> LastRollupAt s = Max (ta_BucketAt ` set (st_trafficAggregates s))"
  using Max.set_eq_fold[of "hd (map ta_BucketAt (st_trafficAggregates s))" "tl (map ta_BucketAt (st_trafficAggregates s))"]
  by (cases "st_trafficAggregates s") (simp_all add: LastRollupAt_def)

lemma EarliestAccessLogAt_Min: "st_accessLog s \<noteq> [] \<Longrightarrow> EarliestAccessLogAt s = Min (al_CreatedAt ` set (st_accessLog s))"
  using Min.set_eq_fold[of "hd (map al_CreatedAt (st_accessLog s))" "tl (map al_CreatedAt (st_accessLog s))"]
  by (cases "st_accessLog s") (simp_all add: EarliestAccessLogAt_def)

text \<open>What a run of the job needs of an invariant \<open>I hi s\<close> (the hours before \<open>hi\<close> are in the aggregates): both rollup statements keep it,
  and hours without rows may be skipped. \<open>U from\<close> says that the rows from \<open>from\<close> on may be rolled up again.\<close>

locale rollup_cover =
  fixes I :: "time \<Rightarrow> store \<Rightarrow> bool" and U :: "time \<Rightarrow> bool"
  assumes I_end: "I hi s \<Longrightarrow> aligned hi \<and> zeroTime \<le> hi"
    and I_rows: "I hi s \<Longrightarrow> r \<in> set (st_accessLog s) \<Longrightarrow> zeroTime < al_CreatedAt r"
    and I_buckets: "I hi s \<Longrightarrow> a \<in> set (st_trafficAggregates s) \<Longrightarrow> aligned (ta_BucketAt a) \<and> ta_BucketAt a < hi"
    and I_rollup: "I hi s \<Longrightarrow> aligned from \<Longrightarrow> aligned to \<Longrightarrow> from \<le> hi \<Longrightarrow> U from \<Longrightarrow> I (max hi to) (RunRollup from to s)"
    and I_attribution: "I hi s \<Longrightarrow> I hi (RunAttributionRollup from to s)"
    and I_quiet: "I hi s \<Longrightarrow> aligned u \<Longrightarrow> \<forall>r \<in> set (st_accessLog s). u \<le> al_CreatedAt r \<Longrightarrow> I (max hi u) s"
    and U_mono: "U from \<Longrightarrow> from \<le> later \<Longrightarrow> U later"
begin

lemma aggregatesEnd_bounds:
  assumes "I hi s"
  shows "aggregatesEnd s \<le> hi" "aligned (aggregatesEnd s)" "\<forall>a \<in> set (st_trafficAggregates s). ta_BucketAt a < aggregatesEnd s"
proof -
  have "aggregatesEnd s \<le> hi \<and> aligned (aggregatesEnd s) \<and> (\<forall>a \<in> set (st_trafficAggregates s). ta_BucketAt a < aggregatesEnd s)"
  proof (cases "st_trafficAggregates s = []")
    case False
    have "LastRollupAt s \<in> ta_BucketAt ` set (st_trafficAggregates s)"
      using Max_in[of "ta_BucketAt ` set (st_trafficAggregates s)"] False by (simp add: LastRollupAt_Max)
    then obtain a where a: "a \<in> set (st_trafficAggregates s)" "LastRollupAt s = ta_BucketAt a" by auto
    then have last: "aligned (LastRollupAt s)" "LastRollupAt s < hi" "aligned hi" using I_buckets[OF assms] I_end[OF assms] by auto
    have "ta_BucketAt b < LastRollupAt s + hour" if "b \<in> set (st_trafficAggregates s)" for b
    proof -
      have "ta_BucketAt b \<le> LastRollupAt s" using that LastRollupAt_Max[OF False] by simp
      then show ?thesis using hour_pos(1) by linarith
    qed
    then show ?thesis using False aligned_step[OF last(1,3,2)] aligned_add[OF last(1)] by (simp add: aggregatesEnd_def)
  qed (use I_end[OF assms] in \<open>simp add: aggregatesEnd_def\<close>)
  then show "aggregatesEnd s \<le> hi" "aligned (aggregatesEnd s)" "\<forall>a \<in> set (st_trafficAggregates s). ta_BucketAt a < aggregatesEnd s" by auto
qed

lemma initJob_ok:
  assumes "I hi s" "jobOK j" "rj_initialized j \<Longrightarrow> rj_lastRollupAt j \<le> hi"
  shows "rj_initialized (initJob j s)" "aligned (rj_lastRollupAt (initJob j s))" "rj_lastRollupAt (initJob j s) \<le> hi"
proof -
  note b = aggregatesEnd_bounds[OF assms(1)]
  have z: "zeroTime \<le> hi" using I_end[OF assms(1)] ..
  have "LastRollupAt s \<noteq> zeroTime \<Longrightarrow> aggregatesEnd s = LastRollupAt s + hour" by (auto simp: aggregatesEnd_def LastRollupAt_def)
  then show "rj_initialized (initJob j s)" "aligned (rj_lastRollupAt (initJob j s))" "rj_lastRollupAt (initJob j s) \<le> hi"
    using assms(2,3) b(1,2) z by (auto simp: initJob_def Let_def jobOK_def NewRollupJob_def)
qed

lemma catchUp_covers:
  "catchUp tOk aOk cur from (j, s) = (r, j', t) \<Longrightarrow> I hi s \<Longrightarrow> U from \<Longrightarrow> aligned cur \<Longrightarrow> aligned from \<Longrightarrow> from \<le> hi \<Longrightarrow>
    rj_initialized j \<Longrightarrow> rj_lastRollupAt j \<le> hi \<Longrightarrow> aligned (rj_lastRollupAt j) \<Longrightarrow>
    \<exists>hi'. hi \<le> hi' \<and> hi' \<le> max hi cur \<and> I hi' t \<and> rj_initialized j' \<and> rj_lastRollupAt j' \<le> hi' \<and> aligned (rj_lastRollupAt j') \<and>
      (r = Inr () \<longrightarrow> (from < cur \<longrightarrow> rj_lastRollupAt j' = cur) \<and> cur \<le> max hi' from)"
proof (induction tOk aOk cur "from" "(j, s)" arbitrary: j s hi r j' t rule: catchUp.induct)
  case (1 tOk aOk cur "from" j s)
  define to where "to = (if from + catchUpChunk > cur then cur else from + catchUpChunk)"
  show ?case
  proof (cases "from < cur")
    case True
    have chunk: "aligned (from + catchUpChunk)" "from < to" "to \<le> cur"
    proof -
      show "aligned (from + catchUpChunk)" using "1.prems"(5) by (simp add: aligned_def hourOf_div catchUpChunk_def distrib_right)
      show "from < to" "to \<le> cur" using True by (auto simp: to_def catchUpChunk_def)
    qed
    then have to: "aligned to" using "1.prems"(4) by (simp add: to_def)
    have inv1: "I (max hi to) (RunRollup from to s)" by (rule I_rollup[OF "1.prems"(2,5) to "1.prems"(6,3)])
    have step: "catchUp tOk aOk cur from (j, s) = (if \<not> tOk from then (Inl DBError, j, s) else if \<not> aOk from then (Inl DBError, j, RunRollup from to s)
        else catchUp tOk aOk cur to (j\<lparr>rj_lastRollupAt := to\<rparr>, RunAttributionRollup from to (RunRollup from to s)))"
      using True by (subst catchUp.simps) (simp add: Let_def to_def)
    consider (traffic) "\<not> tOk from" | (attribution) "tOk from" "\<not> aOk from" | (both) "tOk from" "aOk from" by blast
    then show ?thesis
    proof cases
      case traffic
      then show ?thesis using "1.prems" step by (intro exI[of _ hi]) auto
    next
      case attribution
      then show ?thesis using "1.prems" step inv1 chunk by (intro exI[of _ "max hi to"]) auto
    next
      case both
      have "\<exists>hi'. max hi to \<le> hi' \<and> hi' \<le> max (max hi to) cur \<and> I hi' t \<and> rj_initialized j' \<and> rj_lastRollupAt j' \<le> hi' \<and>
          aligned (rj_lastRollupAt j') \<and> (r = Inr () \<longrightarrow> (to < cur \<longrightarrow> rj_lastRollupAt j' = cur) \<and> cur \<le> max hi' to)"
        by (rule "1.hyps"[OF True to_def _ refl]) (use both step inv1 chunk to "1.prems" I_attribution U_mono[OF "1.prems"(3), of to] in auto)
      then obtain hi' where hi': "max hi to \<le> hi'" "hi' \<le> max (max hi to) cur" "I hi' t" "rj_initialized j'" "rj_lastRollupAt j' \<le> hi'"
          "aligned (rj_lastRollupAt j')" "r = Inr () \<longrightarrow> (to < cur \<longrightarrow> rj_lastRollupAt j' = cur) \<and> cur \<le> max hi' to" by blast
      have "rj_lastRollupAt j' = cur" if "r = Inr ()" "\<not> to < cur"
      proof -
        have "catchUp tOk aOk cur to (j\<lparr>rj_lastRollupAt := to\<rparr>, RunAttributionRollup from to (RunRollup from to s)) = (r, j', t)" using both step "1.prems"(1) by simp
        then show ?thesis using that(2) chunk(3) by (subst (asm) catchUp.simps) auto
      qed
      then show ?thesis using hi' chunk by (intro exI[of _ hi']) auto
    qed
  next
    case False
    then show ?thesis using "1.prems" by (intro exI[of _ hi]) (auto simp: catchUp.simps)
  qed
qed

lemma RunJob_covers:
  assumes run: "RunJob tOk aOk now (j, s) = (r, j', t)" and inv: "I hi s" "jobOK j" "rj_initialized j \<Longrightarrow> rj_lastRollupAt j \<le> hi"
    and again: "U (rj_lastRollupAt (initJob j s))"
  shows "\<exists>hi'. hi \<le> hi' \<and> I hi' t \<and> rj_initialized j' \<and> aligned (rj_lastRollupAt j') \<and> rj_lastRollupAt j' \<le> hi' \<and>
    (r = Inr () \<longrightarrow> hourOf now \<le> rj_lastRollupAt j')"
proof -
  let ?j = "initJob j s" and ?cur = "hourOf now"
  note init = initJob_ok[OF inv]
  note ext = I_quiet[OF inv(1)]
  consider (skip) "rj_lastRollupAt ?j \<ge> ?cur" "r = Inr ()" "j' = ?j" "t = s"
    | (quiet) "\<forall>r \<in> set (st_accessLog s). ?cur \<le> al_CreatedAt r \<or> ?cur \<le> hi" "r = Inr ()" "j' = ?j\<lparr>rj_lastRollupAt := ?cur\<rparr>" "t = s"
    | (loop) "from" where "\<forall>r \<in> set (st_accessLog s). from \<le> al_CreatedAt r \<or> from \<le> hi" "aligned from" "U from" "from < ?cur" "catchUp tOk aOk ?cur from (?j, s) = (r, j', t)"
  proof (cases "rj_lastRollupAt ?j \<noteq> zeroTime \<and> \<not> rj_lastRollupAt ?j < ?cur")
    case True
    then have "RunJob tOk aOk now (j, s) = (Inr (), ?j, s)" by (simp add: RunJob_def Let_def)
    then show thesis using run True by (intro skip) auto
  next
    case False
    show thesis
    proof (cases "EarliestAccessLogAt s = zeroTime")
      case True
      have "st_accessLog s = []"
      proof (rule ccontr)
        assume ne: "st_accessLog s \<noteq> []"
        then have "EarliestAccessLogAt s \<in> al_CreatedAt ` set (st_accessLog s)" using Min_in[of "al_CreatedAt ` set (st_accessLog s)"] by (simp add: EarliestAccessLogAt_Min)
        then show False using True I_rows[OF inv(1)] by fastforce
      qed
      moreover have "RunJob tOk aOk now (j, s) = (Inr (), ?j\<lparr>rj_lastRollupAt := ?cur\<rparr>, s)" using False True by (auto simp: RunJob_def Let_def)
      ultimately show thesis using run by (intro quiet) auto
    next
      case e: False
      then have ne: "st_accessLog s \<noteq> []" by (auto simp: EarliestAccessLogAt_def)
      define f0 where "f0 = (if rj_lastRollupAt ?j < hourOf (EarliestAccessLogAt s) then hourOf (EarliestAccessLogAt s) else rj_lastRollupAt ?j)"
      have low: "EarliestAccessLogAt s \<le> al_CreatedAt r" if "r \<in> set (st_accessLog s)" for r using that by (simp add: EarliestAccessLogAt_Min[OF ne])
      have start: "f0 \<le> al_CreatedAt r \<or> f0 \<le> hi" if "r \<in> set (st_accessLog s)" for r
        using init(3) order_trans[OF hourOf_le(1) low[OF that]] by (auto simp: f0_def)
      have al: "aligned f0" using init(2) by (simp add: f0_def)
      have step: "RunJob tOk aOk now (j, s) = (if \<not> f0 < ?cur then (Inr (), ?j\<lparr>rj_lastRollupAt := ?cur\<rparr>, s) else catchUp tOk aOk ?cur f0 (?j, s))"
        using False e by (auto simp: RunJob_def Let_def f0_def)
      show thesis
      proof (cases "f0 < ?cur")
        case True
        then show thesis using run step al start U_mono[OF again, of f0] by (intro loop[of f0]) (auto simp: f0_def)
      next
        case False
        then show thesis using run step start by (intro quiet) force+
      qed
    qed
  qed
  then show ?thesis
  proof cases
    case skip
    then show ?thesis using inv(1) init by (intro exI[of _ hi]) simp
  next
    case quiet
    have "I (max hi ?cur) s"
    proof (cases "?cur \<le> hi")
      case True
      then show ?thesis using inv(1) by (simp add: max_def)
    next
      case False
      then show ?thesis using quiet(1) by (intro ext) auto
    qed
    then show ?thesis using quiet init by (intro exI[of _ "max hi ?cur"]) simp
  next
    case loop
    have inv': "I (max hi from) s"
    proof (cases "from \<le> hi")
      case True
      then show ?thesis using inv(1) by (simp add: max_def)
    next
      case False
      then show ?thesis using loop(1,2) by (intro ext) auto
    qed
    show ?thesis using catchUp_covers[OF loop(5) inv' loop(3) aligned_hourOf loop(2) _ init(1) _ init(2)] init(3) loop(4) by force
  qed
qed

end

lemma rollupInv_parts:
  assumes "rollupInv floor hi s"
  shows "aligned hi \<and> zeroTime \<le> hi" "r \<in> set (st_accessLog s) \<Longrightarrow> zeroTime < al_CreatedAt r"
    "a \<in> set (st_trafficAggregates s) \<Longrightarrow> aligned (ta_BucketAt a) \<and> ta_BucketAt a < hi"
  using assms hour_pos(1) by (auto simp: rollupInv_def list_all_iff normalRow_def intro: less_le_trans[of zeroTime "zeroTime + hour"])

interpretation log_cover: rollup_cover "rollupInv floor" "\<lambda>_. True" for floor
proof (unfold_locales, goal_cases)
  case (6 hi s u)
  show ?case
  proof (rule rollupInv_extend[OF 6(1)])
    show "aligned (max hi u)" using rollupInv_parts(1)[OF 6(1)] 6(2) by (simp add: max_def)
    show "\<forall>r \<in> set (st_accessLog s). floor \<le> al_CreatedAt r \<longrightarrow> \<not> (hi \<le> al_CreatedAt r \<and> al_CreatedAt r < max hi u)" using 6(3) by force
  qed simp
qed (simp_all add: rollupInv_parts rollupInv_RunRollup rollupInv_RunAttribution)

lemma rollupInv_covered:
  assumes "rollupInv floor hi s" "jobOK j" "rj_initialized j \<Longrightarrow> rj_lastRollupAt j \<le> hi"
  shows "rollupInv floor (max zeroTime (coveredTo j s)) s" "coveredTo j s \<le> hi"
proof -
  note b = log_cover.aggregatesEnd_bounds[OF assms(1)]
  have z: "zeroTime \<le> hi" using assms(1) by (simp add: rollupInv_def)
  show le: "coveredTo j s \<le> hi" using b(1) assms(3) z by (simp add: coveredTo_def)
  have "aligned (max zeroTime (coveredTo j s))" using b(2) assms(2) by (auto simp: coveredTo_def jobOK_def max_def)
  moreover have "\<forall>a \<in> set (st_trafficAggregates s). ta_BucketAt a < max zeroTime (coveredTo j s)" using b(3) by (auto simp: coveredTo_def less_max_iff_disj)
  ultimately show "rollupInv floor (max zeroTime (coveredTo j s)) s" using le z by (intro rollupInv_shrink[OF assms(1)]) auto
qed

section \<open>Runs of the system\<close>

definition ceilHour :: "time \<Rightarrow> time" where
  "ceilHour t = hourOf (t + hour - 1)"

text \<open>An event that arrives on time: it belongs to an hour that is not rolled up yet.\<close>

definition onTime :: "time \<Rightarrow> DecisionEvent \<Rightarrow> bool" where
  "onTime hi e \<longleftrightarrow> hi \<le> de_CreatedAt e \<and> zeroTime + hour \<le> de_CreatedAt e \<and> de_TargetHost e \<noteq> Some []"

text \<open>The system from its first start: batches, runs of the job with statements that may fail, restarts, both kinds of pruning, and
  whatever other calls do to the other tables, foreign keys of the log included. The first argument is the first hour that pruning has not touched.\<close>

inductive rollupReach :: "time \<Rightarrow> RollupJob \<Rightarrow> store \<Rightarrow> bool" where
  start: "rollupReach zeroTime NewRollupJob emptyStore"
| logged: "rollupReach floor j s \<Longrightarrow> list_all (onTime (coveredTo j s)) events \<Longrightarrow> rollupReach floor j (snd (BatchInsert marshal events s))"
| ran: "rollupReach floor j s \<Longrightarrow> RunJob tOk aOk now (j, s) = (r, j', t) \<Longrightarrow> rollupReach floor j' t"
| restarted: "rollupReach floor j s \<Longrightarrow> rollupReach floor NewRollupJob s"
| pruned: "rollupReach floor j s \<Longrightarrow> rollupReach (max floor (ceilHour before)) j (snd (DeleteOlderThan before s))"
| changed: "rollupReach floor j s \<Longrightarrow> logInv t \<Longrightarrow> st_accessLog t = st_accessLog s \<Longrightarrow> st_logGeoip t = st_logGeoip s \<Longrightarrow>
    st_trafficAggregates t = st_trafficAggregates s \<Longrightarrow> rollupReach floor j t"
| aggregatesPruned: "rollupReach floor j s \<Longrightarrow> rollupReach (max floor (ceilHour before)) j (snd (DeleteAggregatesOlderThan before s))"

lemma ceilHour_ge: "t \<le> ceilHour t"
  using hourOf_le(2)[of "t + hour - 1"] by (simp add: ceilHour_def)

lemma nextLogID_greater: "r \<in> set (st_accessLog s) \<Longrightarrow> al_ID r < nextLogID s"
  using fold_max_mem[of "al_ID r" "map al_ID (st_accessLog s)" 0] by (simp add: nextLogID_def nextID_def)

lemma numbered_from: "(i, e) \<in> set (numbered n es) \<Longrightarrow> n \<le> i \<and> e \<in> set es"
  by (induction es arbitrary: n) fastforce+

lemma geoip_stable:
  assumes "logInv s" "r \<in> set (st_accessLog s)"
  shows "geoipOfRow (loggedBatch m events s) r = geoipOfRow s r"
proof -
  have "lg_AccessLogID g \<noteq> al_ID r" if "g \<in> set (concat (map (\<lambda>(i, e). geoipOf i e) (numbered (nextLogID s) events)))" for g
    using that nextLogID_greater[OF assms(2)] by (force simp: geoipOf_def geoRow_def split: if_splits dest: numbered_from)
  then have "List.find (\<lambda>g. lg_AccessLogID g = al_ID r) (concat (map (\<lambda>(i, e). geoipOf i e) (numbered (nextLogID s) events))) = None"
    by (auto simp: find_None_iff)
  then show ?thesis by (simp add: geoipOfRow_def loggedBatch_def appendRows_def find_append split: option.splits)
qed

lemma trafficAggregate_cong:
  assumes "\<And>r. r \<in> set rows \<Longrightarrow> geoipOfRow t r = geoipOfRow s r"
  shows "trafficAggregate t (k, rows) = trafficAggregate s (k, rows)"
  using assms by (simp add: trafficAggregate_def split: prod.splits cong: map_cong)

lemma rollupInv_logged:
  assumes inv: "rollupInv floor hi s" and on: "list_all (onTime hi) events"
  shows "rollupInv floor hi (snd (BatchInsert marshal events s))"
proof (cases "list_all (insertable marshal s) events")
  case False
  then show ?thesis using BatchInsert_cases[of s marshal events] inv by (simp add: rollupInv_def)
next
  case True
  define new where "new = map (\<lambda>(i, e). logRow i (the (marshal (de_Headers e))) e) (numbered (nextLogID s) events)"
  let ?t = "loggedBatch marshal events s"
  have log: "logInv s" using inv by (simp add: rollupInv_def)
  have t: "snd (BatchInsert marshal events s) = ?t" using BatchInsert_cases[OF log, of marshal events] True by simp
  have rows: "st_accessLog ?t = st_accessLog s @ new" "st_trafficAggregates ?t = st_trafficAggregates s"
    by (simp_all add: loggedBatch_def appendRows_def new_def)
  have fresh: "normalRow r \<and> hi \<le> al_CreatedAt r" if r: "r \<in> set new" for r
  proof -
    obtain i e where e: "e \<in> set events" "r = logRow i (the (marshal (de_Headers e))) e" using r by (auto simp: new_def dest: numbered_from)
    have "map_option denyReasonText d \<noteq> Some []" for d by (cases d) (auto elim: denyReasonText.elims)
    then show ?thesis using e on by (auto simp: list_all_iff onTime_def normalRow_def logRow_def)
  qed
  have al: "aligned floor" "aligned hi" using inv by (simp_all add: rollupInv_def)
  have win: "rowsBetween floor hi ?t = rowsBetween floor hi s" using fresh by (force simp: rowsBetween_def rows filter_empty_conv)
  have agg: "bucketAggregate ?t r = bucketAggregate s r" if "r \<in> set (rowsBetween floor hi s)" for r
  proof -
    have "trafficKeyOf x \<noteq> trafficKeyOf r" if "x \<in> set new" for x
      using between_hour[OF al, of x r] fresh[OF that] \<open>r \<in> set (rowsBetween floor hi s)\<close> by (auto simp: rowsBetween_def)
    then have "filter (\<lambda>x. trafficKeyOf x = trafficKeyOf r) (st_accessLog ?t) = filter (\<lambda>x. trafficKeyOf x = trafficKeyOf r) (st_accessLog s)"
      by (simp add: rows filter_empty_conv)
    then show ?thesis unfolding bucketAggregate_def by (simp only:) (rule trafficAggregate_cong, rule geoip_stable[OF log], simp)
  qed
  have "logInv ?t" by (rule logInv_loggedBatch[OF log])
  moreover have "list_all normalRow (st_accessLog ?t)" using inv fresh by (auto simp: rows rollupInv_def list_all_iff)
  moreover have "bucketAggregate ?t ` set (rowsBetween floor hi s) = bucketAggregate s ` set (rowsBetween floor hi s)" using agg by (rule image_cong[OF refl])
  ultimately show ?thesis using inv unfolding t by (simp add: rollupInv_def rows(2) win)
qed

lemma geoip_kept:
  assumes "logInv s" "r \<in> set (st_accessLog (snd (DeleteOlderThan before s)))"
  shows "geoipOfRow (snd (DeleteOlderThan before s)) r = geoipOfRow s r"
proof -
  have r: "r \<in> set (st_accessLog s)" "\<not> al_CreatedAt r < before" using assms(2) by (simp_all add: DeleteOlderThan_def Let_def)
  then have "\<forall>q \<in> set (st_accessLog s). al_CreatedAt q < before \<longrightarrow> al_ID q \<noteq> al_ID r"
    using assms(1) by (auto simp: logInv_def distinct_map inj_on_def)
  then have "filter (\<lambda>g. lg_AccessLogID g = al_ID r) (st_logGeoip (snd (DeleteOlderThan before s))) = filter (\<lambda>g. lg_AccessLogID g = al_ID r) (st_logGeoip s)"
    unfolding DeleteOlderThan_def Let_def by (simp add: filter_filter) (intro filter_cong refl, auto)
  then show ?thesis by (simp add: geoipOfRow_def find_filter)
qed

lemma rollupInv_pruned:
  assumes inv: "rollupInv floor hi s"
  shows "rollupInv (max floor (ceilHour before)) hi (snd (DeleteOlderThan before s))"
proof -
  let ?t = "snd (DeleteOlderThan before s)" and ?f = "max floor (ceilHour before)"
  have log: "logInv s" using inv by (simp add: rollupInv_def)
  have al: "aligned ?f" "aligned hi" using inv by (auto simp: rollupInv_def max_def ceilHour_def)
  have inv': "rollupInv ?f hi s" by (rule rollupInv_floor[OF inv _ al(1)]) simp
  have ge: "before \<le> ?f" using ceilHour_ge[of before] by (simp add: max.coboundedI2)
  have rows: "st_accessLog ?t = filter (\<lambda>r. \<not> al_CreatedAt r < before) (st_accessLog s)" "st_trafficAggregates ?t = st_trafficAggregates s"
    by (simp_all add: DeleteOlderThan_def Let_def)
  have win: "rowsBetween ?f hi ?t = rowsBetween ?f hi s" unfolding rowsBetween_def rows filter_filter using ge by (intro filter_cong refl) auto
  have agg: "bucketAggregate ?t r = bucketAggregate s r" if r: "r \<in> set (rowsBetween ?f hi s)" for r
  proof -
    have same: "filter (\<lambda>x. trafficKeyOf x = trafficKeyOf r) (st_accessLog ?t) = filter (\<lambda>x. trafficKeyOf x = trafficKeyOf r) (st_accessLog s)"
    proof -
      have "\<not> al_CreatedAt x < before" if "trafficKeyOf x = trafficKeyOf r" for x
        using between_hour[OF al that] r ge by (simp add: rowsBetween_def) linarith
      then show ?thesis unfolding rows filter_filter by (intro filter_cong refl) auto
    qed
    have "geoipOfRow ?t x = geoipOfRow s x" if "x \<in> set (st_accessLog ?t)" for x by (rule geoip_kept[OF log that])
    then have "trafficAggregate ?t (k, filter P (st_accessLog ?t)) = trafficAggregate s (k, filter P (st_accessLog ?t))" for k P
      by (intro trafficAggregate_cong) simp
    then show ?thesis unfolding bucketAggregate_def same[symmetric] .
  qed
  have "logInv ?t" using logInv_DeleteOlderThan log by (simp add: keeps_def)
  moreover have "list_all normalRow (st_accessLog ?t)" using inv by (auto simp: rows rollupInv_def list_all_iff)
  moreover have "bucketAggregate ?t ` set (rowsBetween ?f hi s) = bucketAggregate s ` set (rowsBetween ?f hi s)" using agg by (rule image_cong[OF refl])
  ultimately show ?thesis using inv' by (simp add: rollupInv_def rows(2) win)
qed

lemma rollupInv_aggregatesPruned:
  assumes inv: "rollupInv floor hi s"
  shows "rollupInv (max floor (ceilHour before)) hi (snd (DeleteAggregatesOlderThan before s))"
proof -
  let ?f = "max floor (ceilHour before)" and ?t = "snd (DeleteAggregatesOlderThan before s)"
  have "aligned ?f" using inv by (auto simp: rollupInv_def max_def ceilHour_def)
  then have inv': "rollupInv ?f hi s" by (intro rollupInv_floor[OF inv]) auto
  have same: "st_accessLog ?t = st_accessLog s" "st_logGeoip ?t = st_logGeoip s" "st_logPolicies ?t = st_logPolicies s" "st_logContributors ?t = st_logContributors s"
    by (simp_all add: DeleteAggregatesOlderThan_def)
  have "before \<le> ?f" using ceilHour_ge[of before] by (simp add: max.coboundedI2)
  then have "{a \<in> set (st_trafficAggregates ?t). ?f \<le> ta_BucketAt a} = {a \<in> set (st_trafficAggregates s). ?f \<le> ta_BucketAt a}"
    by (auto simp: DeleteAggregatesOlderThan_def)
  moreover have "distinct (map aggregateKey (st_trafficAggregates ?t)) \<and> set (st_trafficAggregates ?t) \<subseteq> set (st_trafficAggregates s)"
    using inv by (auto simp: DeleteAggregatesOlderThan_def rollupInv_def distinct_map_filter)
  moreover have "logInv ?t" using inv same by (simp add: rollupInv_def logInv_def)
  ultimately show ?thesis using inv' same(1) bucketAggregate_cong[OF same(1,2)] unfolding rollupInv_def by (simp add: subset_iff)
qed

lemma reach_covered:
  "rollupReach floor j s \<Longrightarrow> jobOK j \<and> (\<exists>hi. rollupInv floor hi s \<and> (rj_initialized j \<longrightarrow> rj_lastRollupAt j \<le> hi))"
proof (induction rule: rollupReach.induct)
  case start
  have "rollupInv zeroTime zeroTime emptyStore" by (simp add: rollupInv_def) (simp add: emptyStore_def rowsBetween_def)
  then show ?case by (auto simp: jobOK_def NewRollupJob_def)
next
  case (logged floor j s events marshal)
  then obtain hi where hi: "jobOK j" "rollupInv floor hi s" "rj_initialized j \<longrightarrow> rj_lastRollupAt j \<le> hi" by blast
  let ?hi = "max zeroTime (coveredTo j s)"
  have cov: "rollupInv floor ?hi s" using rollupInv_covered(1)[OF hi(2,1)] hi(3) by blast
  have "list_all (onTime ?hi) events" using logged(2) less_imp_le[OF hour_pos(1)] by (fastforce simp: list_all_iff onTime_def)
  from rollupInv_logged[OF cov this] show ?case using hi(1) by (auto simp: coveredTo_def intro!: exI[of _ ?hi])
next
  case (ran floor j s tOk aOk now r j' t)
  then obtain hi where hi: "jobOK j" "rollupInv floor hi s" "rj_initialized j \<longrightarrow> rj_lastRollupAt j \<le> hi" by blast
  then show ?case using log_cover.RunJob_covers[OF ran(2) hi(2,1)] by (auto simp: jobOK_def)
next
  case (restarted floor j s)
  then show ?case by (auto simp: jobOK_def NewRollupJob_def)
next
  case (pruned floor j s before)
  then show ?case using rollupInv_pruned by blast
next
  case (changed floor j s t)
  then obtain hi where "jobOK j" "rollupInv floor hi s" "rj_initialized j \<longrightarrow> rj_lastRollupAt j \<le> hi" by blast
  moreover have "rollupInv floor hi t" if "rollupInv floor hi s" for hi by (rule rollupInv_tables[OF that changed(2-5)])
  ultimately show ?case by blast
next
  case (aggregatesPruned floor j s before)
  then show ?case using rollupInv_aggregatesPruned by blast
qed

end
