(* ===== verification/Rollup_Reads.thy ===== *)
theory Rollup_Reads
  imports Rollup
begin

text \<open>
  What the dashboard reads (\<open>src/internal/rollup/\<close> \<open>traffic_reads.go\<close>, \<open>attribution_reads.go\<close>, \<open>handler.go\<close>, \<open>enum_map.go\<close> and
  \<open>src/internal/accesslog/country_stats_view.go\<close>): every figure is computed from the log for windows of up to a day and from the hourly
  aggregates for wider ones. The two computations are proved equal on the hours that the job has covered.

  \<open>ORDER BY\<close> a count leaves the order of equal counts open; here it is the order of the groups.
\<close>

section \<open>Figures\<close>

record SummaryStats =
  ss_TotalRequests :: int
  ss_AllowedCount :: int
  ss_DeniedCount :: int
  ss_DenyIPNotRegistered :: int
  ss_DenyHostNotAllowed :: int
  ss_DenyOther :: int
  ss_UniqueIPs :: int
  ss_AvgDurationUs :: int

record TrafficBucket =
  tb_Timestamp :: time
  tb_AllowCount :: int
  tb_DenyCount :: int

record IPCount =
  ip_IP :: string
  ip_Count :: int
  ip_Geo :: GeoResult

record ServiceCount =
  sv_Host :: string
  sv_AllowCount :: int
  sv_DenyCount :: int

record AttributionCount =
  at_EntityID :: "id option"
  at_EntityName :: string
  at_AllowCount :: int
  at_DenyCount :: int

record AccessLogCountryStat =
  co_CountryCode :: string
  co_CountryName :: string
  co_Total :: int
  co_Allowed :: int
  co_Denied :: int

definition RawWindowThreshold :: time where
  "RawWindowThreshold = 24 * hour"

definition countRows :: "('a \<Rightarrow> bool) \<Rightarrow> 'a list \<Rightarrow> int" where
  "countRows P rows = int (length (filter P rows))"

definition sumRequests :: "(TrafficAggregate \<Rightarrow> bool) \<Rightarrow> TrafficAggregate list \<Rightarrow> int" where
  "sumRequests P as = (\<Sum>a \<leftarrow> as. if P a then ta_RequestCount a else 0)"

definition sqlDiv :: "int \<Rightarrow> int \<Rightarrow> int" where
  "sqlDiv a b = sgn a * sgn b * (\<bar>a\<bar> div \<bar>b\<bar>)"

definition aggregatesBetween :: "time \<Rightarrow> time \<Rightarrow> store \<Rightarrow> TrafficAggregate list" where
  "aggregatesBetween from to s = filter (\<lambda>a. from \<le> ta_BucketAt a \<and> ta_BucketAt a < to) (st_trafficAggregates s)"

definition limitRows :: "int \<Rightarrow> 'a list \<Rightarrow> 'a list" where
  "limitRows n xs = (if n < 0 then xs else take (nat n) xs)"

section \<open>From the log\<close>

definition getRawSummaryStats :: "time \<Rightarrow> time \<Rightarrow> store \<Rightarrow> SummaryStats" where
  "getRawSummaryStats from to s = (let rows = rowsBetween from to s in
     \<lparr>ss_TotalRequests = int (length rows), ss_AllowedCount = countRows al_Outcome rows, ss_DeniedCount = countRows (\<lambda>r. \<not> al_Outcome r) rows,
      ss_DenyIPNotRegistered = countRows (\<lambda>r. \<not> al_Outcome r \<and> al_DenyReason r = Some ''ip_not_registered'') rows,
      ss_DenyHostNotAllowed = countRows (\<lambda>r. \<not> al_Outcome r \<and> al_DenyReason r = Some ''host_not_allowed'') rows,
      ss_DenyOther = countRows (\<lambda>r. \<not> al_Outcome r \<and> (case al_DenyReason r of None \<Rightarrow> True | Some d \<Rightarrow> d \<notin> {''ip_not_registered'', ''host_not_allowed''})) rows,
      ss_UniqueIPs = int (length (remdups (map al_ClientIP rows))),
      ss_AvgDurationUs = (if length rows > 0 then sqlDiv (sum_list (map al_DurationUs rows)) (int (length rows)) else 0)\<rparr>)"

definition getRawTrafficSeries :: "time \<Rightarrow> time \<Rightarrow> Granularity \<Rightarrow> store \<Rightarrow> TrafficBucket list" where
  "getRawTrafficSeries from to g s = map (\<lambda>(t, rows). \<lparr>tb_Timestamp = t, tb_AllowCount = countRows al_Outcome rows, tb_DenyCount = countRows (\<lambda>r. \<not> al_Outcome r) rows\<rparr>)
     (groupBy (\<lambda>r. BucketExpr g (al_CreatedAt r)) (rowsBetween from to s))"

definition getRawTopDeniedIPs :: "time \<Rightarrow> time \<Rightarrow> int \<Rightarrow> store \<Rightarrow> IPCount list" where
  "getRawTopDeniedIPs from to limit s = limitRows limit (sort_key (\<lambda>c. - ip_Count c)
     (map (\<lambda>(ip, rows). \<lparr>ip_IP = ip, ip_Count = int (length rows), ip_Geo = emptyGeo\<rparr>)
       (groupBy al_ClientIP (filter (\<lambda>r. \<not> al_Outcome r) (rowsBetween from to s)))))"

definition getRawServiceSplit :: "time \<Rightarrow> time \<Rightarrow> store \<Rightarrow> ServiceCount list" where
  "getRawServiceSplit from to s = sort_key (\<lambda>c. - (sv_AllowCount c + sv_DenyCount c))
     (map (\<lambda>(host, rows). \<lparr>sv_Host = host, sv_AllowCount = countRows al_Outcome rows, sv_DenyCount = countRows (\<lambda>r. \<not> al_Outcome r) rows\<rparr>)
       (groupBy (\<lambda>r. coalesce (al_TargetHost r)) (rowsBetween from to s)))"

definition countDistinctIDs :: "bool \<Rightarrow> link list \<Rightarrow> int" where
  "countDistinctIDs outcome ls = int (length (remdups (map (\<lambda>l. al_ID (fst l)) (filter (\<lambda>l. al_Outcome (fst l) = outcome) ls))))"

definition getRawAttributionSplit :: "attributionSpec \<Rightarrow> time \<Rightarrow> time \<Rightarrow> store \<Rightarrow> AttributionCount list" where
  "getRawAttributionSplit spec from to s = sort_key (\<lambda>c. - (at_AllowCount c + at_DenyCount c))
     (map (\<lambda>(name, ls). \<lparr>at_EntityID = maxId (map (\<lambda>l. fst (snd l)) ls), at_EntityName = name,
         at_AllowCount = countDistinctIDs True ls, at_DenyCount = countDistinctIDs False ls\<rparr>)
       (groupBy (\<lambda>l. snd (snd l)) (linksBetween from to (as_source spec s))))"

text \<open>The rows of the log that have GeoIP data, with it; this window includes its end.\<close>

definition geoRows :: "time \<Rightarrow> time \<Rightarrow> store \<Rightarrow> (LogGeoip \<times> AccessLogRow) list" where
  "geoRows from to s = concat (map (\<lambda>r. case geoipOfRow s r of None \<Rightarrow> [] | Some g \<Rightarrow> [(g, r)])
     (filter (\<lambda>r. from \<le> al_CreatedAt r \<and> al_CreatedAt r \<le> to) (st_accessLog s)))"

definition listRawAccessLogStatsByCountry :: "time \<Rightarrow> time \<Rightarrow> store \<Rightarrow> AccessLogCountryStat list" where
  "listRawAccessLogStatsByCountry from to s = sort_key (\<lambda>c. - co_Total c)
     (map (\<lambda>((code, name), xs). \<lparr>co_CountryCode = code, co_CountryName = name, co_Total = int (length xs),
         co_Allowed = countRows (\<lambda>x. al_Outcome (snd x)) xs, co_Denied = countRows (\<lambda>x. \<not> al_Outcome (snd x)) xs\<rparr>)
       (groupBy (\<lambda>x. (lg_CountryCode (fst x), lg_CountryName (fst x))) (geoRows from to s)))"

section \<open>From the aggregates\<close>

definition getAggregateSummaryStats :: "time \<Rightarrow> time \<Rightarrow> store \<Rightarrow> SummaryStats" where
  "getAggregateSummaryStats from to s = (let as = aggregatesBetween from to s; total = sum_list (map ta_RequestCount as) in
     \<lparr>ss_TotalRequests = total, ss_AllowedCount = sumRequests ta_Outcome as, ss_DeniedCount = sumRequests (\<lambda>a. \<not> ta_Outcome a) as,
      ss_DenyIPNotRegistered = sumRequests (\<lambda>a. \<not> ta_Outcome a \<and> ta_DenyReason a = ''ip_not_registered'') as,
      ss_DenyHostNotAllowed = sumRequests (\<lambda>a. \<not> ta_Outcome a \<and> ta_DenyReason a = ''host_not_allowed'') as,
      ss_DenyOther = sumRequests (\<lambda>a. \<not> ta_Outcome a \<and> ta_DenyReason a \<notin> {''ip_not_registered'', ''host_not_allowed''}) as,
      ss_UniqueIPs = int (length (remdups (map ta_ClientIP as))),
      ss_AvgDurationUs = (if total > 0 then sqlDiv (sum_list (map ta_SumDurationUs as)) total else 0)\<rparr>)"

definition getAggregateTrafficSeries :: "time \<Rightarrow> time \<Rightarrow> Granularity \<Rightarrow> store \<Rightarrow> TrafficBucket list" where
  "getAggregateTrafficSeries from to g s = map (\<lambda>(t, as). \<lparr>tb_Timestamp = t, tb_AllowCount = sumRequests ta_Outcome as, tb_DenyCount = sumRequests (\<lambda>a. \<not> ta_Outcome a) as\<rparr>)
     (groupBy (\<lambda>a. if g = GranularityDay then BucketExpr GranularityDay (ta_BucketAt a) else ta_BucketAt a) (aggregatesBetween from to s))"

definition getAggregateTopDeniedIPs :: "time \<Rightarrow> time \<Rightarrow> int \<Rightarrow> store \<Rightarrow> IPCount list" where
  "getAggregateTopDeniedIPs from to limit s = limitRows limit (sort_key (\<lambda>c. - ip_Count c)
     (map (\<lambda>(ip, as). \<lparr>ip_IP = ip, ip_Count = sum_list (map ta_RequestCount as), ip_Geo = emptyGeo\<rparr>)
       (groupBy ta_ClientIP (filter (\<lambda>a. \<not> ta_Outcome a) (aggregatesBetween from to s)))))"

definition getAggregateServiceSplit :: "time \<Rightarrow> time \<Rightarrow> store \<Rightarrow> ServiceCount list" where
  "getAggregateServiceSplit from to s = sort_key (\<lambda>c. - (sv_AllowCount c + sv_DenyCount c))
     (map (\<lambda>(host, as). \<lparr>sv_Host = host, sv_AllowCount = sumRequests ta_Outcome as, sv_DenyCount = sumRequests (\<lambda>a. \<not> ta_Outcome a) as\<rparr>)
       (groupBy ta_TargetHost (aggregatesBetween from to s)))"

definition getAggregateAttributionSplit :: "string \<Rightarrow> time \<Rightarrow> time \<Rightarrow> store \<Rightarrow> AttributionCount list" where
  "getAggregateAttributionSplit kind from to s = sort_key (\<lambda>c. - (at_AllowCount c + at_DenyCount c))
     (map (\<lambda>(name, as). \<lparr>at_EntityID = maxId (map aa_EntityID as), at_EntityName = name,
         at_AllowCount = (\<Sum>a \<leftarrow> as. if aa_Outcome a then aa_RequestCount a else 0), at_DenyCount = (\<Sum>a \<leftarrow> as. if \<not> aa_Outcome a then aa_RequestCount a else 0)\<rparr>)
       (groupBy aa_EntityName (filter (\<lambda>a. aa_EntityKind a = kind \<and> from \<le> aa_BucketAt a \<and> aa_BucketAt a < to) (st_attributionAggregates s))))"

definition listAggregateAccessLogStatsByCountry :: "time \<Rightarrow> time \<Rightarrow> store \<Rightarrow> AccessLogCountryStat list" where
  "listAggregateAccessLogStatsByCountry from to s = sort_key (\<lambda>c. - co_Total c)
     (map (\<lambda>((code, name), as). \<lparr>co_CountryCode = code, co_CountryName = name, co_Total = sum_list (map ta_RequestCount as),
         co_Allowed = sumRequests ta_Outcome as, co_Denied = sumRequests (\<lambda>a. \<not> ta_Outcome a) as\<rparr>)
       (groupBy (\<lambda>a. (ta_CountryCode a, ta_CountryName a)) (filter (\<lambda>a. ta_CountryCode a \<noteq> []) (aggregatesBetween from to s))))"

section \<open>Dispatch\<close>

definition GetSummaryStats :: "time \<Rightarrow> time \<Rightarrow> store \<Rightarrow> SummaryStats" where
  "GetSummaryStats from to s = (if to - from \<le> RawWindowThreshold then getRawSummaryStats from to s else getAggregateSummaryStats from to s)"

definition GetTrafficSeries :: "time \<Rightarrow> time \<Rightarrow> store \<Rightarrow> TrafficBucket list" where
  "GetTrafficSeries from to s = (let window = to - from; g = GranularityForWindow window in
     if window \<le> RawWindowThreshold then getRawTrafficSeries from to g s else getAggregateTrafficSeries from to g s)"

definition GetTopDeniedIPs :: "(string \<Rightarrow> GeoResult) option \<Rightarrow> time \<Rightarrow> time \<Rightarrow> int \<Rightarrow> store \<Rightarrow> IPCount list" where
  "GetTopDeniedIPs geo from to limit s =
    (let ips = (if to - from \<le> RawWindowThreshold then getRawTopDeniedIPs from to limit s else getAggregateTopDeniedIPs from to limit s)
     in case geo of None \<Rightarrow> ips | Some resolve \<Rightarrow> map (\<lambda>c. c\<lparr>ip_Geo := resolve (ip_IP c)\<rparr>) ips)"

definition GetServiceSplit :: "time \<Rightarrow> time \<Rightarrow> store \<Rightarrow> ServiceCount list" where
  "GetServiceSplit from to s = (if to - from \<le> RawWindowThreshold then getRawServiceSplit from to s else getAggregateServiceSplit from to s)"

definition GetAttributionSplit :: "string \<Rightarrow> time \<Rightarrow> time \<Rightarrow> store \<Rightarrow> AttributionCount list option" where
  "GetAttributionSplit kind from to s = (case map_of attributionSpecs kind of None \<Rightarrow> None
     | Some spec \<Rightarrow> Some (if to - from \<le> RawWindowThreshold then getRawAttributionSplit spec from to s else getAggregateAttributionSplit kind from to s))"

definition ListAccessLogStatsByCountry :: "time \<Rightarrow> time \<Rightarrow> store \<Rightarrow> AccessLogCountryStat list" where
  "ListAccessLogStatsByCountry from to s =
    (if to - from \<le> RawWindowThreshold then listRawAccessLogStatsByCountry from to s else listAggregateAccessLogStatsByCountry from to s)"

section \<open>Handlers\<close>

definition parseTimeRange :: "time \<Rightarrow> time option \<Rightarrow> time option \<Rightarrow> time \<times> time" where
  "parseTimeRange now from to = (case from of None \<Rightarrow> now - 24 * hour | Some f \<Rightarrow> f, case to of None \<Rightarrow> now | Some t \<Rightarrow> t)"

definition attributionKindFromAPI :: "string \<Rightarrow> string" where
  "attributionKindFromAPI k = (if k = ''policy'' then AttributionKindPolicy else if k = ''user'' then AttributionKindUser
     else if k = ''device'' then AttributionKindDevice else k)"

definition GetDashboardStats :: "time \<Rightarrow> time option \<Rightarrow> time option \<Rightarrow> store \<Rightarrow> SummaryStats" where
  "GetDashboardStats now from to s = (case parseTimeRange now from to of (f, t) \<Rightarrow> GetSummaryStats f t s)"

definition GetDashboardTraffic :: "time \<Rightarrow> time option \<Rightarrow> time option \<Rightarrow> store \<Rightarrow> TrafficBucket list" where
  "GetDashboardTraffic now from to s = (case parseTimeRange now from to of (f, t) \<Rightarrow> GetTrafficSeries f t s)"

definition GetDashboardServices :: "time \<Rightarrow> time option \<Rightarrow> time option \<Rightarrow> store \<Rightarrow> ServiceCount list" where
  "GetDashboardServices now from to s = (case parseTimeRange now from to of (f, t) \<Rightarrow> GetServiceSplit f t s)"

definition GetDashboardTopDeniedIps :: "(string \<Rightarrow> GeoResult) option \<Rightarrow> time \<Rightarrow> time option \<Rightarrow> time option \<Rightarrow> int option \<Rightarrow> store \<Rightarrow> IPCount list" where
  "GetDashboardTopDeniedIps geo now from to limit s = (case parseTimeRange now from to of (f, t) \<Rightarrow>
     GetTopDeniedIPs geo f t (case limit of None \<Rightarrow> 10 | Some n \<Rightarrow> n) s)"

definition GetDashboardAttributionSplit :: "time \<Rightarrow> time option \<Rightarrow> time option \<Rightarrow> string \<Rightarrow> store \<Rightarrow> AttributionCount list option" where
  "GetDashboardAttributionSplit now from to kind s = (case parseTimeRange now from to of (f, t) \<Rightarrow>
     GetAttributionSplit (attributionKindFromAPI kind) f t s)"

definition GetAccessLogByCountry :: "time \<Rightarrow> time option \<Rightarrow> time option \<Rightarrow> store \<Rightarrow> AccessLogCountryStat list" where
  "GetAccessLogByCountry now from to s = (case parseTimeRange now from to of (f, t) \<Rightarrow> ListAccessLogStatsByCountry f t s)"

section \<open>Sums over groups\<close>

lemma sum_list_mset: "mset xs = mset ys \<Longrightarrow> (\<Sum>x \<leftarrow> xs. h x) = (\<Sum>y \<leftarrow> ys. h y)" for h :: "'a \<Rightarrow> int"
  by (metis mset_map sum_mset_sum_list)

lemma countRows_sum: "countRows P rows = (\<Sum>r \<leftarrow> rows. if P r then 1 else 0)"
  by (induction rows) (simp_all add: countRows_def)

definition rowKey :: "AccessLogRow \<Rightarrow> time \<times> string \<times> string \<times> bool \<times> string" where
  "rowKey r = (hourOf (al_CreatedAt r), al_ClientIP r, coalesce (al_TargetHost r), al_Outcome r, coalesce (al_DenyReason r))"

lemma trafficAggregate_sel:
  "aggregateKey (trafficAggregate s (trafficKeyOf r, rs)) = rowKey r" "ta_RequestCount (trafficAggregate s (k, rs)) = int (length rs)"
  "ta_SumDurationUs (trafficAggregate s (k, rs)) = (\<Sum>r \<leftarrow> rs. al_DurationUs r)"
  by (simp_all add: trafficAggregate_def aggregateKey_def rowKey_def trafficKeyOf_def split: prod.splits)

text \<open>A list of aggregates that stands for a list of rows.\<close>

definition standsFor :: "store \<Rightarrow> TrafficAggregate list \<Rightarrow> AccessLogRow list \<Rightarrow> bool" where
  "standsFor s as rows \<longleftrightarrow> mset as = mset (trafficGroups s rows)"

text \<open>What an aggregate shows of its rows: \<open>K\<close> of the aggregate is \<open>rowK\<close> of every row of its group, for groups of rows in \<open>U\<close>.
  Then sums over the aggregates are counts of rows, and both can be grouped by what is shown.\<close>

locale group_view =
  fixes s :: store and K :: "TrafficAggregate \<Rightarrow> 'x" and rowK :: "AccessLogRow \<Rightarrow> 'x" and U :: "AccessLogRow set"
  assumes shows_row: "set rows \<subseteq> U \<Longrightarrow> (k, rs) \<in> set (groupBy trafficKeyOf rows) \<Longrightarrow> r \<in> set rs \<Longrightarrow> K (trafficAggregate s (k, rs)) = rowK r"
begin

lemma rowK_cong:
  assumes "r \<in> U" "q \<in> U" "trafficKeyOf r = trafficKeyOf q"
  shows "rowK r = rowK q"
proof -
  have "(trafficKeyOf q, [r, q]) \<in> set (groupBy trafficKeyOf [r, q])" using assms(3) by (simp add: groupBy_mem)
  then show ?thesis using shows_row[of "[r, q]" "trafficKeyOf q" "[r, q]"] assms(1,2) by (metis empty_set empty_subsetI insert_subset list.set(2) list.set_intros(1) list.set_intros(2))
qed

lemma groups_weighted:
  fixes h :: "AccessLogRow \<Rightarrow> int"
  assumes "set rows \<subseteq> U" "\<And>k rs. w (trafficAggregate s (k, rs)) = (\<Sum>r \<leftarrow> rs. h r)"
  shows "(\<Sum>a \<leftarrow> trafficGroups s rows. if P (K a) then w a else 0) = (\<Sum>r \<leftarrow> rows. if P (rowK r) then h r else 0)"
proof -
  have "(if P (K (trafficAggregate s g)) then w (trafficAggregate s g) else 0) = (\<Sum>r \<leftarrow> snd g. if P (rowK r) then h r else 0)"
    if g: "g \<in> set (groupBy trafficKeyOf rows)" for g
  proof -
    obtain k rs where kr: "g = (k, rs)" by fastforce
    have "(\<Sum>r \<leftarrow> rs. if P (rowK r) then h r else 0) = (\<Sum>r \<leftarrow> rs. if P (K (trafficAggregate s (k, rs))) then h r else 0)"
      using shows_row[OF assms(1), of k rs] g kr by (intro arg_cong[where f = sum_list] map_cong) auto
    then show ?thesis by (simp add: kr assms(2))
  qed
  then have "(\<Sum>a \<leftarrow> trafficGroups s rows. if P (K a) then w a else 0) = (\<Sum>g \<leftarrow> groupBy trafficKeyOf rows. \<Sum>r \<leftarrow> snd g. if P (rowK r) then h r else 0)"
    by (simp add: trafficGroups_def comp_def cong: map_cong)
  then show ?thesis by (simp only: sum_groupBy)
qed

lemma standsFor_count:
  assumes "standsFor s as rows" "set rows \<subseteq> U" "\<And>a. Q a = P (K a)" "\<And>r. Q' r = P (rowK r)"
  shows "sumRequests Q as = countRows Q' rows"
  using sum_list_mset[OF assms(1)[unfolded standsFor_def], of "\<lambda>a. if P (K a) then ta_RequestCount a else 0"]
    groups_weighted[OF assms(2), of ta_RequestCount "\<lambda>_. 1" P]
  by (simp add: sumRequests_def countRows_sum assms(3,4) trafficAggregate_sel(2) sum_list_triv)

lemma standsFor_keys:
  assumes "standsFor s as rows" "set rows \<subseteq> U"
  shows "K ` set as = rowK ` set rows"
proof -
  have "K (trafficAggregate s (trafficKeyOf r, filter (\<lambda>x. trafficKeyOf x = trafficKeyOf r) rows)) = rowK r" if "r \<in> set rows" for r
    using shows_row[OF assms(2), of "trafficKeyOf r" "filter (\<lambda>x. trafficKeyOf x = trafficKeyOf r) rows" r] that by (simp add: groupBy_mem)
  moreover have "set as = trafficAggregate s ` set (groupBy trafficKeyOf rows)" using mset_eq_setD[OF assms(1)[unfolded standsFor_def]] by (simp add: trafficGroups_def)
  ultimately show ?thesis by (simp add: groupBy_set image_image)
qed

lemma standsFor_filter:
  assumes "standsFor s as rows" "set rows \<subseteq> U"
  shows "standsFor s (filter (\<lambda>a. P (K a)) as) (filter (\<lambda>r. P (rowK r)) rows)"
proof -
  let ?ks = "sort (remdups (map trafficKeyOf rows))" and ?Q = "\<lambda>k. \<exists>r \<in> set rows. trafficKeyOf r = k \<and> P (rowK r)"
  have same: "P (rowK r)" if "r \<in> set rows" "q \<in> set rows" "trafficKeyOf r = trafficKeyOf q" "P (rowK q)" for r q
  proof -
    have "r \<in> U" "q \<in> U" using assms(2) that(1,2) by auto
    then show ?thesis using rowK_cong[OF _ _ that(3)] that(4) by simp
  qed
  have "filter (\<lambda>a. P (K a)) (trafficGroups s rows) = map (\<lambda>k. trafficAggregate s (k, filter (\<lambda>r. trafficKeyOf r = k) rows)) (filter ?Q ?ks)"
  proof -
    have "P (K (trafficAggregate s (k, filter (\<lambda>r. trafficKeyOf r = k) rows))) \<longleftrightarrow> ?Q k" if k: "k \<in> trafficKeyOf ` set rows" for k
    proof -
      obtain x where x: "x \<in> set rows" "k = trafficKeyOf x" using k by blast
      have "K (trafficAggregate s (k, filter (\<lambda>r. trafficKeyOf r = k) rows)) = rowK x"
        using shows_row[OF assms(2), of k "filter (\<lambda>r. trafficKeyOf r = k) rows" x] x by (simp add: groupBy_mem)
      then show ?thesis using same[OF x(1)] x by metis
    qed
    then show ?thesis unfolding trafficGroups_def groupBy_def map_map filter_map comp_def by (intro arg_cong[where f = "map _"] filter_cong refl) simp
  qed
  moreover have "filter (\<lambda>r. trafficKeyOf r = k) (filter (\<lambda>r. P (rowK r)) rows) = filter (\<lambda>r. trafficKeyOf r = k) rows" if "?Q k" for k
    using that same by (auto simp: filter_filter intro!: filter_cong)
  ultimately have "filter (\<lambda>a. P (K a)) (trafficGroups s rows) = trafficGroups s (filter (\<lambda>r. P (rowK r)) rows)"
    unfolding trafficGroups_def groupBy_def map_map comp_def group_keys_filter[symmetric] by (auto intro!: map_cong)
  then show ?thesis using assms(1) by (metis standsFor_def mset_filter)
qed

lemma groups_agree:
  assumes "standsFor s as rows" "set rows \<subseteq> U" "\<And>a. f a = F (K a)" "\<And>r. f' r = F (rowK r)"
    "\<And>k as' rows'. standsFor s as' rows' \<Longrightarrow> H k as' = H' k rows'"
  shows "map (\<lambda>(k, as'). H k as') (groupBy f as) = map (\<lambda>(k, rows'). H' k rows') (groupBy f' rows)"
proof -
  have "f ` set as = F ` K ` set as" "f' ` set rows = F ` rowK ` set rows" by (simp_all add: assms(3,4) image_image)
  then have "sort (remdups (map f as)) = sort (remdups (map f' rows))" using standsFor_keys[OF assms(1,2)] by (intro group_keys_cong) simp
  moreover have "H k (filter (\<lambda>a. f a = k) as) = H' k (filter (\<lambda>r. f' r = k) rows)" for k
    using assms(5)[OF standsFor_filter[OF assms(1,2), of "\<lambda>x. F x = k"]] by (simp add: assms(3,4))
  ultimately show ?thesis by (simp add: groupBy_def)
qed

end

interpretation plain: group_view s aggregateKey rowKey UNIV for s
proof
  fix rows k rs r assume "(k, rs) \<in> set (groupBy trafficKeyOf rows)" "r \<in> set rs"
  then show "aggregateKey (trafficAggregate s (k, rs)) = rowKey r" using trafficAggregate_sel(1)[of s r rs] by (auto simp: groupBy_mem)
qed

lemma standsFor_total:
  assumes "standsFor s as rows"
  shows "sum_list (map ta_RequestCount as) = int (length rows)" "sum_list (map ta_SumDurationUs as) = sum_list (map al_DurationUs rows)"
  using plain.standsFor_count[OF assms, of "\<lambda>_. True" "\<lambda>_. True" "\<lambda>_. True"] sum_list_mset[OF assms[unfolded standsFor_def], of ta_SumDurationUs]
    plain.groups_weighted[of rows ta_SumDurationUs s al_DurationUs "\<lambda>_. True"]
  by (simp_all add: sumRequests_def countRows_def trafficAggregate_sel(3))

section \<open>Both computations agree\<close>

lemma covered_standsFor:
  assumes "rollupInv floor hi s" "aligned from" "aligned to" "floor \<le> from" "to \<le> hi"
  shows "standsFor s (aggregatesBetween from to s) (rowsBetween from to s)"
proof -
  have sets: "{a \<in> set (st_trafficAggregates s). floor \<le> ta_BucketAt a} = bucketAggregate s ` set (rowsBetween floor hi s)" and
    dist: "distinct (map aggregateKey (st_trafficAggregates s))" and normal: "list_all normalRow (st_accessLog s)"
    using assms(1) by (simp_all add: rollupInv_def)
  have "set (aggregatesBetween from to s) = {a \<in> bucketAggregate s ` set (rowsBetween floor hi s). from \<le> ta_BucketAt a \<and> ta_BucketAt a < to}"
    unfolding sets[symmetric] aggregatesBetween_def using assms(4) by auto
  also have "\<dots> = bucketAggregate s ` {r \<in> set (rowsBetween floor hi s). from \<le> hourOf (al_CreatedAt r) \<and> hourOf (al_CreatedAt r) < to}"
    unfolding bucketAggregate_bucket[symmetric, of _ s] by blast
  also have "{r \<in> set (rowsBetween floor hi s). from \<le> hourOf (al_CreatedAt r) \<and> hourOf (al_CreatedAt r) < to} = set (rowsBetween from to s)"
    using assms(4,5) by (auto simp: rowsBetween_def aligned_le[OF assms(2)] aligned_le[OF assms(3)])
  finally have "set (aggregatesBetween from to s) = set (trafficGroups s (rowsBetween from to s))" by (simp add: trafficGroups_set[OF assms(2,3)])
  moreover have "distinct (aggregatesBetween from to s)" using dist by (simp add: aggregatesBetween_def distinct_map)
  moreover have "distinct (trafficGroups s (rowsBetween from to s))" using trafficGroups_distinct[OF assms(2,3) normal] by (simp add: distinct_map)
  ultimately show ?thesis unfolding standsFor_def using set_eq_iff_mset_eq_distinct by blast
qed

lemma reason_iff:
  "d \<noteq> [] \<Longrightarrow> x = Some d \<longleftrightarrow> coalesce x = d"
  "(case x of None \<Rightarrow> True | Some d \<Rightarrow> d \<notin> {''ip_not_registered'', ''host_not_allowed''}) \<longleftrightarrow> coalesce x \<notin> {''ip_not_registered'', ''host_not_allowed''}"
  by (auto simp: coalesce_def split: option.splits)

lemma standsFor_outcome:
  assumes "standsFor s as rows"
  shows "sumRequests ta_Outcome as = countRows al_Outcome rows" "sumRequests (\<lambda>a. \<not> ta_Outcome a) as = countRows (\<lambda>r. \<not> al_Outcome r) rows"
  using plain.standsFor_count[OF assms, of ta_Outcome "\<lambda>(b, ip, h, o', d). o'" al_Outcome] plain.standsFor_count[OF assms, of "\<lambda>a. \<not> ta_Outcome a" "\<lambda>(b, ip, h, o', d). \<not> o'" "\<lambda>r. \<not> al_Outcome r"]
  by (simp_all add: aggregateKey_def rowKey_def)

lemma summary_agrees:
  assumes "standsFor s (aggregatesBetween from to s) (rowsBetween from to s)"
  shows "getAggregateSummaryStats from to s = getRawSummaryStats from to s"
proof -
  let ?as = "aggregatesBetween from to s" and ?rows = "rowsBetween from to s"
  have reasons: "sumRequests (\<lambda>a. \<not> ta_Outcome a \<and> R (ta_DenyReason a)) ?as = countRows (\<lambda>r. \<not> al_Outcome r \<and> R (coalesce (al_DenyReason r))) ?rows" for R
    by (rule plain.standsFor_count[OF assms, where P = "\<lambda>(b, ip, h, o', d). \<not> o' \<and> R d"]) (simp_all add: aggregateKey_def rowKey_def)
  have "ta_ClientIP ` set ?as = (\<lambda>(b, ip, h, o', d). ip) ` aggregateKey ` set ?as" "al_ClientIP ` set ?rows = (\<lambda>(b, ip, h, o', d). ip) ` rowKey ` set ?rows"
    by (simp_all add: image_image aggregateKey_def rowKey_def)
  then have "ta_ClientIP ` set ?as = al_ClientIP ` set ?rows" using plain.standsFor_keys[OF assms] by simp
  then have ips: "length (remdups (map ta_ClientIP ?as)) = length (remdups (map al_ClientIP ?rows))" by (simp add: length_remdups_card_conv)
  show ?thesis
    unfolding getAggregateSummaryStats_def getRawSummaryStats_def Let_def
    by (simp add: standsFor_total[OF assms] standsFor_outcome[OF assms] ips reason_iff(1) reason_iff(2)[simplified]
        reasons[of "\<lambda>d. d = ''ip_not_registered''"] reasons[of "\<lambda>d. d = ''host_not_allowed''"]
        reasons[of "\<lambda>d. d \<noteq> ''ip_not_registered'' \<and> d \<noteq> ''host_not_allowed''"])
qed

lemma services_agree:
  assumes "standsFor s (aggregatesBetween from to s) (rowsBetween from to s)"
  shows "getAggregateServiceSplit from to s = getRawServiceSplit from to s"
proof -
  have "map (\<lambda>(host, as). \<lparr>sv_Host = host, sv_AllowCount = sumRequests ta_Outcome as, sv_DenyCount = sumRequests (\<lambda>a. \<not> ta_Outcome a) as\<rparr>)
      (groupBy ta_TargetHost (aggregatesBetween from to s)) =
    map (\<lambda>(host, rows). \<lparr>sv_Host = host, sv_AllowCount = countRows al_Outcome rows, sv_DenyCount = countRows (\<lambda>r. \<not> al_Outcome r) rows\<rparr>)
      (groupBy (\<lambda>r. coalesce (al_TargetHost r)) (rowsBetween from to s))"
    by (rule plain.groups_agree[OF assms, where F = "\<lambda>(b, ip, h, o', d). h"]) (simp_all add: aggregateKey_def rowKey_def standsFor_outcome)
  then show ?thesis by (simp add: getAggregateServiceSplit_def getRawServiceSplit_def)
qed

lemma topDenied_agrees:
  assumes "standsFor s (aggregatesBetween from to s) (rowsBetween from to s)"
  shows "getAggregateTopDeniedIPs from to limit s = getRawTopDeniedIPs from to limit s"
proof -
  have "standsFor s (filter (\<lambda>a. \<not> ta_Outcome a) (aggregatesBetween from to s)) (filter (\<lambda>r. \<not> al_Outcome r) (rowsBetween from to s))"
    using plain.standsFor_filter[OF assms, of "\<lambda>(b, ip, h, o', d). \<not> o'"] by (simp add: aggregateKey_def rowKey_def)
  then have "map (\<lambda>(ip, as). \<lparr>ip_IP = ip, ip_Count = sum_list (map ta_RequestCount as), ip_Geo = emptyGeo\<rparr>)
      (groupBy ta_ClientIP (filter (\<lambda>a. \<not> ta_Outcome a) (aggregatesBetween from to s))) =
    map (\<lambda>(ip, rows). \<lparr>ip_IP = ip, ip_Count = int (length rows), ip_Geo = emptyGeo\<rparr>)
      (groupBy al_ClientIP (filter (\<lambda>r. \<not> al_Outcome r) (rowsBetween from to s)))"
    by (rule plain.groups_agree[where F = "\<lambda>(b, ip, h, o', d). ip"]) (simp_all add: aggregateKey_def rowKey_def standsFor_total)
  then show ?thesis by (simp add: getAggregateTopDeniedIPs_def getRawTopDeniedIPs_def)
qed

lemma day_of_hour: "BucketExpr GranularityDay (hourOf t) = BucketExpr GranularityDay t"
proof -
  have "hourOf t div (hour * 24) = t div (hour * 24)" by (simp add: hourOf_div zdiv_zmult2_eq)
  then show ?thesis by (simp add: BucketExpr_truncates TruncateToBucket_def hour_def mult.commute)
qed

lemma series_agrees:
  assumes "standsFor s (aggregatesBetween from to s) (rowsBetween from to s)" "g = GranularityHour \<or> g = GranularityDay"
  shows "getAggregateTrafficSeries from to g s = getRawTrafficSeries from to g s"
proof -
  have "BucketExpr GranularityHour t = hourOf t" for t by (simp add: BucketExpr_truncates hourOf_def)
  then show ?thesis unfolding getAggregateTrafficSeries_def getRawTrafficSeries_def using assms(2)
    by (intro plain.groups_agree[OF assms(1), where F = "\<lambda>(b, ip, h, o', d). if g = GranularityDay then BucketExpr GranularityDay b else b"])
      (auto simp: aggregateKey_def rowKey_def standsFor_outcome day_of_hour)
qed

text \<open>C26 (equivalence). On the hours that the job has covered, the hourly aggregates give the figures of the log: in every state that the
  system reaches through batches that arrive on time, runs with failing statements, restarts and pruning, the summary, the services, the
  most denied addresses and the series by hour and by day are the same from both sources, for windows on the hour that pruning has not
  touched. A run that ends without an error has covered every hour before the current one.\<close>

theorem aggregates_equal_log:
  assumes "rollupReach floor j s" "aligned from" "aligned to" "floor \<le> from" "to \<le> coveredTo j s" "g = GranularityHour \<or> g = GranularityDay"
  shows "getAggregateSummaryStats from to s = getRawSummaryStats from to s \<and> getAggregateServiceSplit from to s = getRawServiceSplit from to s \<and>
    getAggregateTopDeniedIPs from to limit s = getRawTopDeniedIPs from to limit s \<and>
    getAggregateTrafficSeries from to g s = getRawTrafficSeries from to g s \<and>
    (RunJob tOk aOk now (j, s) = (Inr (), j', t) \<longrightarrow> hourOf now \<le> coveredTo j' t)"
proof -
  obtain hi where hi: "jobOK j" "rollupInv floor hi s" "rj_initialized j \<longrightarrow> rj_lastRollupAt j \<le> hi" using reach_covered[OF assms(1)] by blast
  have "coveredTo j s \<le> hi" using rollupInv_covered(2)[OF hi(2,1)] hi(3) by blast
  then have st: "standsFor s (aggregatesBetween from to s) (rowsBetween from to s)" using covered_standsFor[OF hi(2) assms(2-4)] assms(5) by simp
  have "hourOf now \<le> coveredTo j' t" if "RunJob tOk aOk now (j, s) = (Inr (), j', t)"
    using log_cover.RunJob_covers[OF that hi(2,1)] hi(3) by (auto simp: coveredTo_def)
  then show ?thesis using summary_agrees[OF st] services_agree[OF st] topDenied_agrees[OF st] series_agrees[OF st assms(6)] by blast
qed

definition always :: "time \<Rightarrow> bool" where
  "always t = True"

definition oneRequest :: store where
  "oneRequest = snd (BatchInsert plainHeaders [sampleEvent] emptyStore)"

definition rolledJob :: RollupJob where
  "rolledJob = \<lparr>rj_lastRollupAt = 2 * hour, rj_initialized = True\<rparr>"

definition rolledStore :: store where
  "rolledStore = RunAttributionRollup 0 (2 * hour) (RunRollup 0 (2 * hour) oneRequest)"

lemma rolled: "RunJob always always (2 * hour) (NewRollupJob, oneRequest) = (Inr (), rolledJob, rolledStore)"
  by code_simp

lemma rolled_reach: "rollupReach zeroTime rolledJob rolledStore"
proof -
  have "list_all (onTime (coveredTo NewRollupJob emptyStore)) [sampleEvent]" by code_simp
  then have "rollupReach zeroTime NewRollupJob oneRequest" unfolding oneRequest_def by (rule rollupReach.logged[OF rollupReach.start])
  then show ?thesis by (rule rollupReach.ran[OF _ rolled])
qed

theorem aggregates_equal_log_witness:
  "getAggregateSummaryStats 0 hour rolledStore = getRawSummaryStats 0 hour rolledStore \<and> ss_DenyIPNotRegistered (getAggregateSummaryStats 0 hour rolledStore) = 1"
proof -
  have al: "aligned 0" "aligned hour" "zeroTime \<le> 0" "hour \<le> coveredTo rolledJob rolledStore" by code_simp+
  have "getAggregateSummaryStats 0 hour rolledStore = getRawSummaryStats 0 hour rolledStore"
    using aggregates_equal_log[OF rolled_reach al, of GranularityHour] by simp
  moreover have "ss_DenyIPNotRegistered (getRawSummaryStats 0 hour rolledStore) = 1" by code_simp
  ultimately show ?thesis by simp
qed

text \<open>An event that the sink flushes after its hour was rolled up is never counted: the next runs begin with later hours, also after a restart when the hour had other traffic.\<close>

lemma late_event_uncounted:
  defines "late \<equiv> snd (BatchInsert plainHeaders [sampleEvent\<lparr>de_CreatedAt := hour - 1\<rparr>] rolledStore)"
  shows "ss_TotalRequests (getRawSummaryStats 0 (3 * hour) late) = 2 \<and>
    ss_TotalRequests (getAggregateSummaryStats 0 (3 * hour) (snd (snd (RunJob always always (3 * hour) (rolledJob, late))))) = 1 \<and>
    ss_TotalRequests (getAggregateSummaryStats 0 (3 * hour) (snd (snd (RunJob always always (3 * hour) (NewRollupJob, late))))) = 1"
  unfolding late_def by code_simp

text \<open>When the attribution of a chunk fails after its traffic was rolled up, the running job repeats the chunk, but a restarted one starts
  after the newest traffic bucket: the attribution of those hours stays missing.\<close>

definition policyRequest :: store where
  "policyRequest = snd (BatchInsert plainHeaders [policyEvent] (emptyStore\<lparr>st_policies :=
     [\<lparr>np_ID = 4, np_Name = ''lan'', np_CIDR = ''10.0.0.0/8'', np_Description = None, np_Enabled = True, np_BypassHostCheck = True, np_CreatedAt = 0, np_UpdatedAt = 0\<rparr>]\<rparr>))"

lemma attribution_gap:
  "(case RunJob always (\<lambda>_. False) hour (NewRollupJob, policyRequest) of (r, j, s) \<Rightarrow>
     r = Inl DBError \<and>
     map at_AllowCount (getAggregateAttributionSplit AttributionKindPolicy 0 (2 * hour) (snd (snd (RunJob always always (2 * hour) (j, s))))) = [1] \<and>
     getAggregateAttributionSplit AttributionKindPolicy 0 (2 * hour) (snd (snd (RunJob always always (2 * hour) (NewRollupJob, s)))) = [] \<and>
     map at_AllowCount (getRawAttributionSplit \<lparr>as_source = policyLinks, as_rollupCount = countAll\<rparr> 0 (2 * hour) s) = [1])"
  by code_simp

section \<open>Countries\<close>

definition countryOf :: "store \<Rightarrow> AccessLogRow \<Rightarrow> string \<times> string" where
  "countryOf s r = (coalesce (map_option lg_CountryCode (geoipOfRow s r)), coalesce (map_option lg_CountryName (geoipOfRow s r)))"

text \<open>The country is a function of the group: what the comment of \<open>RunRollup\<close> says of the client's address.\<close>

definition sameCountry :: "store \<Rightarrow> AccessLogRow list \<Rightarrow> bool" where
  "sameCountry s rows \<longleftrightarrow> (\<forall>r \<in> set rows. \<forall>q \<in> set rows. trafficKeyOf r = trafficKeyOf q \<longrightarrow> countryOf s r = countryOf s q)"

lemma maxText_const: "xs \<noteq> [] \<Longrightarrow> \<forall>x \<in> set xs. x = c \<Longrightarrow> maxText xs = c"
proof -
  have "fold max xs c = c" if "\<forall>x \<in> set xs. x = c" for xs using that by (induction xs) simp_all
  then show "xs \<noteq> [] \<Longrightarrow> \<forall>x \<in> set xs. x = c \<Longrightarrow> maxText xs = c" by (cases xs) (simp_all add: maxText_def max_def)
qed

lemma country_view:
  assumes "sameCountry s rows0"
  shows "group_view s (\<lambda>a. (ta_CountryCode a, ta_CountryName a)) (countryOf s) (set rows0)"
proof
  fix rows k rs r assume sub: "set rows \<subseteq> set rows0" and g: "(k, rs) \<in> set (groupBy trafficKeyOf rows)" "r \<in> set rs"
  have rs: "x \<in> set rows0 \<and> trafficKeyOf x = k" if "x \<in> set rs" for x using that g(1) sub by (auto simp: groupBy_mem)
  have eq: "countryOf s x = countryOf s r" if "x \<in> set rs" for x
    using assms[unfolded sameCountry_def, rule_format, of x r] rs[OF that] rs[OF g(2)] by simp
  have "maxText (map (\<lambda>x. f (countryOf s x)) rs) = f (countryOf s r)" for f
  proof (rule maxText_const)
    show "map (\<lambda>x. f (countryOf s x)) rs \<noteq> []" using g(2) by (cases rs) simp_all
    show "\<forall>c \<in> set (map (\<lambda>x. f (countryOf s x)) rs). c = f (countryOf s r)" by (simp add: eq)
  qed
  from this[of fst] this[of snd] show "(ta_CountryCode (trafficAggregate s (k, rs)), ta_CountryName (trafficAggregate s (k, rs))) = countryOf s r"
    by (simp add: trafficAggregate_def countryOf_def split: prod.splits)
qed

lemma geoRows_between:
  "geoRows from (to - 1) s = map (\<lambda>r. (the (geoipOfRow s r), r)) (filter (\<lambda>r. geoipOfRow s r \<noteq> None) (rowsBetween from to s))"
proof -
  have "(\<lambda>r. from \<le> al_CreatedAt r \<and> al_CreatedAt r \<le> to - 1) = (\<lambda>r. from \<le> al_CreatedAt r \<and> al_CreatedAt r < to)" by auto
  moreover have "concat (map (\<lambda>r. case geoipOfRow s r of None \<Rightarrow> [] | Some g \<Rightarrow> [(g, r)]) rs) =
      map (\<lambda>r. (the (geoipOfRow s r), r)) (filter (\<lambda>r. geoipOfRow s r \<noteq> None) rs)" for rs
    by (induction rs) (auto split: option.splits)
  ultimately show ?thesis by (simp add: geoRows_def rowsBetween_def)
qed

definition countryStat :: "(string \<times> string) \<times> AccessLogRow list \<Rightarrow> AccessLogCountryStat" where
  "countryStat g = \<lparr>co_CountryCode = fst (fst g), co_CountryName = snd (fst g), co_Total = int (length (snd g)),
     co_Allowed = countRows al_Outcome (snd g), co_Denied = countRows (\<lambda>r. \<not> al_Outcome r) (snd g)\<rparr>"

lemma raw_countries:
  "filter (\<lambda>c. co_CountryCode c \<noteq> []) (listRawAccessLogStatsByCountry from (to - 1) s) =
    sort_key (\<lambda>c. - co_Total c) (map countryStat (groupBy (countryOf s) (filter (\<lambda>r. fst (countryOf s r) \<noteq> []) (rowsBetween from to s))))"
proof -
  let ?rows = "filter (\<lambda>r. geoipOfRow s r \<noteq> None) (rowsBetween from to s)"
  have "groupBy (\<lambda>x. (lg_CountryCode (fst x), lg_CountryName (fst x))) (geoRows from (to - 1) s) =
      map (\<lambda>(k, rs). (k, map (\<lambda>r. (the (geoipOfRow s r), r)) rs)) (groupBy (countryOf s) ?rows)"
    unfolding geoRows_between groupBy_map
    by (rule arg_cong[where f = "map _"], rule groupBy_cong) (auto simp: countryOf_def coalesce_def)
  then have "listRawAccessLogStatsByCountry from (to - 1) s = sort_key (\<lambda>c. - co_Total c) (map countryStat (groupBy (countryOf s) ?rows))"
    unfolding listRawAccessLogStatsByCountry_def
    by (simp add: comp_def case_prod_beta countryStat_def[abs_def] countRows_def filter_map)
  moreover have "filter (\<lambda>c. co_CountryCode c \<noteq> []) (map countryStat (groupBy (countryOf s) ?rows)) =
      map countryStat (groupBy (countryOf s) (filter (\<lambda>r. fst (countryOf s r) \<noteq> []) ?rows))"
    using groupBy_filter[of "\<lambda>k. fst k \<noteq> []" "countryOf s" ?rows] by (simp add: filter_map comp_def countryStat_def)
  moreover have "filter (\<lambda>r. fst (countryOf s r) \<noteq> []) ?rows = filter (\<lambda>r. fst (countryOf s r) \<noteq> []) (rowsBetween from to s)"
    unfolding filter_filter by (rule filter_cong[OF refl]) (auto simp: countryOf_def coalesce_def split: option.splits)
  ultimately show ?thesis by (simp add: filter_sort)
qed

text \<open>The table of countries is the same from both sources on the covered hours, as long as all requests of an hour's group
  have the same country, but for the requests with GeoIP data and no country code: the log reports them under an empty code, the
  aggregates leave them out.\<close>

lemma countries_equal_log:
  assumes "rollupReach floor j s" "aligned from" "aligned to" "floor \<le> from" "to \<le> coveredTo j s" "sameCountry s (rowsBetween from to s)"
  shows "listAggregateAccessLogStatsByCountry from to s = filter (\<lambda>c. co_CountryCode c \<noteq> []) (listRawAccessLogStatsByCountry from (to - 1) s)"
proof -
  obtain hi where hi: "jobOK j" "rollupInv floor hi s" "rj_initialized j \<longrightarrow> rj_lastRollupAt j \<le> hi" using reach_covered[OF assms(1)] by blast
  have "coveredTo j s \<le> hi" using rollupInv_covered(2)[OF hi(2,1)] hi(3) by blast
  then have st: "standsFor s (aggregatesBetween from to s) (rowsBetween from to s)" using covered_standsFor[OF hi(2) assms(2-4)] assms(5) by simp
  note view = country_view[OF assms(6)]
  let ?as = "filter (\<lambda>a. ta_CountryCode a \<noteq> []) (aggregatesBetween from to s)" and ?rows = "filter (\<lambda>r. fst (countryOf s r) \<noteq> []) (rowsBetween from to s)"
  have st': "standsFor s ?as ?rows" using group_view.standsFor_filter[OF view st, of "\<lambda>c. fst c \<noteq> []"] by simp
  have "map (\<lambda>(k, as). \<lparr>co_CountryCode = fst k, co_CountryName = snd k, co_Total = sum_list (map ta_RequestCount as),
        co_Allowed = sumRequests ta_Outcome as, co_Denied = sumRequests (\<lambda>a. \<not> ta_Outcome a) as\<rparr>) (groupBy (\<lambda>a. (ta_CountryCode a, ta_CountryName a)) ?as) =
      map (\<lambda>(k, rows). countryStat (k, rows)) (groupBy (countryOf s) ?rows)"
    by (rule group_view.groups_agree[OF view st', where F = "\<lambda>c. c"]) (auto simp: countryStat_def standsFor_total standsFor_outcome)
  then show ?thesis unfolding raw_countries listAggregateAccessLogStatsByCountry_def by (simp add: case_prod_beta')
qed

text \<open>A request whose address has an autonomous system and no country.\<close>

definition asnOnly :: store where
  "asnOnly = snd (BatchInsert plainHeaders [sampleEvent\<lparr>de_GeoIP := emptyGeo\<lparr>geo_ASN := 64500\<rparr>\<rparr>,
     sampleEvent\<lparr>de_ClientIP := ''198.51.100.9'', de_GeoIP := emptyGeo\<lparr>geo_CountryCode := ''ES'', geo_CountryName := ''Spain''\<rparr>\<rparr>] emptyStore)"

lemma countries_equal_log_witness:
  "\<exists>j t. RunJob always always hour (NewRollupJob, asnOnly) = (Inr (), j, t) \<and>
    map co_CountryCode (listAggregateAccessLogStatsByCountry 0 hour t) = [''ES''] \<and>
    map co_CountryCode (listRawAccessLogStatsByCountry 0 (hour - 1) t) = [[], ''ES'']"
proof -
  let ?t = "snd (snd (RunJob always always hour (NewRollupJob, asnOnly)))" and ?j = "fst (snd (RunJob always always hour (NewRollupJob, asnOnly)))"
  have "fst (RunJob always always hour (NewRollupJob, asnOnly)) = Inr ()" by code_simp
  then have run: "RunJob always always hour (NewRollupJob, asnOnly) = (Inr (), ?j, ?t)" by (metis prod.collapse)
  have "list_all (onTime (coveredTo NewRollupJob emptyStore)) [sampleEvent\<lparr>de_GeoIP := emptyGeo\<lparr>geo_ASN := 64500\<rparr>\<rparr>,
     sampleEvent\<lparr>de_ClientIP := ''198.51.100.9'', de_GeoIP := emptyGeo\<lparr>geo_CountryCode := ''ES'', geo_CountryName := ''Spain''\<rparr>\<rparr>]" by code_simp
  then have "rollupReach zeroTime NewRollupJob asnOnly" unfolding asnOnly_def by (rule rollupReach.logged[OF rollupReach.start])
  then have reach: "rollupReach zeroTime ?j ?t" by (rule rollupReach.ran[OF _ run])
  have al: "aligned 0" "aligned hour" "zeroTime \<le> 0" "hour \<le> coveredTo ?j ?t" "sameCountry ?t (rowsBetween 0 hour ?t)" by code_simp+
  have raw: "map co_CountryCode (listRawAccessLogStatsByCountry 0 (hour - 1) ?t) = [[], ''ES'']" by code_simp
  have "map co_CountryCode (filter (\<lambda>c. co_CountryCode c \<noteq> []) (listRawAccessLogStatsByCountry 0 (hour - 1) ?t)) = [''ES'']" by code_simp
  then have "map co_CountryCode (listAggregateAccessLogStatsByCountry 0 hour ?t) = [''ES'']"
    unfolding countries_equal_log[OF reach al] .
  then show ?thesis by (intro exI conjI) (rule run, assumption, rule raw)
qed

end
