(* ===== verification/Attribution.thy ===== *)
theory Attribution
  imports Rollup_Reads
begin

text \<open>
  The attribution of requests to policies, users and devices: rolling up hours and reading the aggregates gives the split that the log gives.
  A request that names several devices of a user counts once for the user.
\<close>

definition idsOf :: "id option list \<Rightarrow> id set" where
  "idsOf xs = {i. Some i \<in> set xs}"

lemma idsOf_finite [simp]: "finite (idsOf xs)"
proof -
  have "idsOf xs \<subseteq> the ` set xs" by (force simp: idsOf_def)
  then show ?thesis by (rule finite_subset) simp
qed

lemma maxId_Max: "maxId xs = (if idsOf xs = {} then None else Some (Max (idsOf xs)))"
proof -
  let ?is = "concat (map (\<lambda>x. case x of None \<Rightarrow> [] | Some i \<Rightarrow> [i]) xs)"
  have members: "set ?is = idsOf xs" by (auto simp: idsOf_def split: option.splits)
  show ?thesis
  proof (cases ?is)
    case Nil
    then show ?thesis using members unfolding maxId_def Nil by simp
  next
    case (Cons i js)
    then have "maxId xs = Some (fold max js i)" "set (i # js) = idsOf xs" using members unfolding maxId_def Cons by simp_all
    then show ?thesis using Max.set_eq_fold[of i js] by auto
  qed
qed

lemma maxId_nested:
  assumes "\<Union> (idsOf ` set yss) = idsOf xs"
  shows "maxId (map maxId yss) = maxId xs"
proof -
  have S: "idsOf (map maxId yss) = {Max (idsOf ys) |ys. ys \<in> set yss \<and> idsOf ys \<noteq> {}}" (is "_ = ?S")
    by (auto simp: idsOf_def[of "map _ _"] maxId_Max image_iff split: if_splits)
  show ?thesis
  proof (cases "idsOf xs = {}")
    case True
    then have "?S = {}" using assms by auto
    then show ?thesis using True by (simp add: maxId_Max S)
  next
    case False
    define m where "m = Max (idsOf xs)"
    have m: "m \<in> idsOf xs" "\<And>i. i \<in> idsOf xs \<Longrightarrow> i \<le> m" using False Max_in[OF idsOf_finite False] by (auto simp: m_def)
    have mem: "i \<in> idsOf xs" if "ys \<in> set yss" "i \<in> idsOf ys" for i ys using that assms by blast
    obtain ys where ys: "ys \<in> set yss" "m \<in> idsOf ys" using m(1) assms by blast
    then have "Max (idsOf ys) = m" using m(2) mem[OF ys(1)] by (intro Max_eqI) auto
    then have "m \<in> ?S" using ys by blast
    moreover have "i \<le> m" if "i \<in> ?S" for i using that m(2) mem Max_in[OF idsOf_finite] by blast
    moreover have "finite ?S" using idsOf_finite[of "map maxId yss"] unfolding S .
    ultimately have "Max ?S = m" "?S \<noteq> {}" using Max_eqI[of ?S m] by blast+
    then show ?thesis using False by (simp add: maxId_Max S m_def)
  qed
qed

lemma idsOf_groups: "\<Union> (idsOf ` set (map (\<lambda>g. map h (snd g)) (groupBy f M))) = idsOf (map h M)" (is "?A = ?B")
proof (rule set_eqI)
  fix i
  have group_ids: "set (map (\<lambda>g. map h (snd g)) (groupBy f M)) = (\<lambda>m. map h (filter (\<lambda>x. f x = f m) M)) ` set M"
    by (simp add: groupBy_set image_image)
  have "i \<in> ?A \<longleftrightarrow> (\<exists>m \<in> set M. Some i \<in> h ` {x \<in> set M. f x = f m})" unfolding group_ids idsOf_def by simp
  also have "\<dots> \<longleftrightarrow> Some i \<in> h ` set M" by blast
  finally show "i \<in> ?A \<longleftrightarrow> i \<in> ?B" by (simp add: idsOf_def)
qed

lemma sum_list_int: "(\<Sum>x \<leftarrow> xs. int (h x)) = int (\<Sum>x \<leftarrow> xs. h x)"
  by (induction xs) simp_all

section \<open>Links\<close>

lemma links_rows:
  assumes "(kind, spec) \<in> set attributionSpecs" "l \<in> set (as_source spec s)"
  shows "fst l \<in> set (st_accessLog s)"
  using assms by (auto simp: attributionSpecs_def policyLinks_def userLinks_def deviceLinks_def)

lemma same_row:
  assumes "logInv s" "r \<in> set (st_accessLog s)" "q \<in> set (st_accessLog s)" "al_ID r = al_ID q"
  shows "r = q"
  using assms by (auto simp: logInv_def distinct_map inj_on_def)

lemma policyLinks_distinct:
  assumes "logInv s"
  shows "distinct (map (\<lambda>l. al_ID (fst l)) (policyLinks s))"
proof -
  have one: "length (filter (\<lambda>p. lp_AccessLogID p = i) ps) \<le> 1" if "distinct (map lp_AccessLogID ps)" for ps i
    using that
  proof (induction ps)
    case (Cons p ps)
    have "filter (\<lambda>q. lp_AccessLogID q = lp_AccessLogID p) ps = []" using Cons.prems by (simp add: filter_empty_conv) (metis image_eqI)
    then show ?case using Cons by auto
  qed simp
  have ids: "map (\<lambda>l. al_ID (fst l)) (policyLinks s) = concat (map (\<lambda>r. replicate (length (filter (\<lambda>p. lp_AccessLogID p = al_ID r) (st_logPolicies s))) (al_ID r)) (st_accessLog s))"
    by (simp add: policyLinks_def map_concat comp_def map_replicate_const)
  have dist: "distinct (concat (map (\<lambda>r. replicate (n r) (al_ID r)) rs))" if "distinct (map al_ID rs)" "\<And>r. n r \<le> 1" for rs and n :: "AccessLogRow \<Rightarrow> nat"
    using that(1)
  proof (induction rs)
    case (Cons r rs)
    have "n r = 0 \<or> n r = 1" using that(2)[of r] by linarith
    then show ?case using Cons by auto
  qed simp
  show ?thesis unfolding ids
  proof (rule dist)
    show "distinct (map al_ID (st_accessLog s))" using assms by (simp add: logInv_def)
    show "length (filter (\<lambda>p. lp_AccessLogID p = al_ID r) (st_logPolicies s)) \<le> 1" for r
      by (rule one) (use assms in \<open>simp add: logInv_def\<close>)
  qed
qed

lemma rollupCount_distinct:
  assumes "logInv s" "(kind, spec) \<in> set attributionSpecs" "ls = filter P (linksBetween from to (as_source spec s))"
  shows "as_rollupCount spec ls = countDistinct ls"
proof (cases "as_rollupCount spec = countAll")
  case True
  then have "as_source spec = policyLinks \<or> as_rollupCount spec = countDistinct" using assms(2) by (auto simp: attributionSpecs_def)
  moreover have "countAll ls = countDistinct ls" if "as_source spec = policyLinks"
    using policyLinks_distinct[OF assms(1)] that
    by (simp add: assms(3) linksBetween_def countAll_def countDistinct_def distinct_map_filter distinct_remdups_id)
  ultimately show ?thesis using True by metis
next
  case False
  then show ?thesis using assms(2) by (auto simp: attributionSpecs_def)
qed

section \<open>A rollup and its reading\<close>

lemma attribution_buckets:
  assumes "aligned from" "aligned to" "a \<in> set (attributionGroups from to kind spec s)"
  shows "aa_EntityKind a = kind" "from \<le> aa_BucketAt a" "aa_BucketAt a < to"
proof -
  obtain k ls where g: "(k, ls) \<in> set (groupBy attributionKeyOf (linksBetween from to (as_source spec s)))" "a = attributionAggregate kind spec (k, ls)"
    using assms(3) by (auto simp: attributionGroups_def)
  then obtain l where l: "l \<in> set (linksBetween from to (as_source spec s))" "k = attributionKeyOf l" by (auto simp: groupBy_mem)
  show "aa_EntityKind a = kind" using g(2) by (simp add: attributionAggregate_def split: prod.splits)
  have "aa_BucketAt a = hourOf (al_CreatedAt (fst l))" using g(2) l(2) by (simp add: attributionAggregate_def attributionKeyOf_def)
  then show "from \<le> aa_BucketAt a" "aa_BucketAt a < to" using l(1) aligned_le(1)[OF assms(1)] aligned_le(2)[OF assms(2)] by (auto simp: linksBetween_def)
qed

lemma attribution_keys_distinct: "distinct (map attributionKey (attributionGroups from to kind spec s))"
proof -
  have "attributionKey (attributionAggregate kind spec g) = (\<lambda>(b, n, o'). (b, kind, n, o')) (fst g)" for g
    by (simp add: attributionAggregate_def attributionKey_def split: prod.splits)
  then have "map attributionKey (attributionGroups from to kind spec s) = map (\<lambda>(b, n, o'). (b, kind, n, o')) (map fst (groupBy attributionKeyOf (linksBetween from to (as_source spec s))))"
    unfolding attributionGroups_def map_map comp_def by (rule map_cong[OF refl])
  moreover have "distinct (map (\<lambda>(b, n, o'). (b, kind, n, o')) ks)" if "distinct ks" for ks :: "(time \<times> string \<times> bool) list"
    using that by (auto simp: distinct_map inj_on_def)
  ultimately show ?thesis by simp
qed

lemma insertGroups_new:
  assumes "\<forall>a \<in> set old. aa_EntityKind a \<noteq> kind \<or> aa_BucketAt a < from" "aligned from" "aligned to"
  shows "fold (insertOrReplace attributionKey) (attributionGroups from to kind spec s) old = old @ attributionGroups from to kind spec s"
proof -
  have "attributionKey a \<notin> attributionKey ` set (attributionGroups from to kind spec s)" if "a \<in> set old" for a
  proof
    assume "attributionKey a \<in> attributionKey ` set (attributionGroups from to kind spec s)"
    then obtain b where "b \<in> set (attributionGroups from to kind spec s)" "attributionKey a = attributionKey b" by auto
    then show False using attribution_buckets[OF assms(2,3)] assms(1) that by (fastforce simp: attributionKey_def)
  qed
  then show ?thesis by (simp add: insertOrReplace_fold[OF attribution_keys_distinct] filter_id_conv)
qed

lemma attributionGroups_upd [simp]:
  assumes "(kind, spec) \<in> set attributionSpecs"
  shows "attributionGroups from to kind' spec (s\<lparr>st_attributionAggregates := x\<rparr>) = attributionGroups from to kind' spec s"
  using assms by (auto simp: attributionGroups_def attributionSpecs_def policyLinks_def userLinks_def deviceLinks_def)

lemma RunAttributionRollup_kind:
  assumes "aligned from" "aligned to" "\<forall>a \<in> set (st_attributionAggregates s). aa_BucketAt a < from" "(kind, spec) \<in> set attributionSpecs"
  shows "filter (\<lambda>a. aa_EntityKind a = kind \<and> from \<le> aa_BucketAt a \<and> aa_BucketAt a < to) (st_attributionAggregates (RunAttributionRollup from to s)) =
    attributionGroups from to kind spec s"
proof -
  let ?P = "\<lparr>as_source = policyLinks, as_rollupCount = countAll\<rparr>" and ?U = "\<lparr>as_source = userLinks, as_rollupCount = countDistinct\<rparr>" and
    ?D = "\<lparr>as_source = deviceLinks, as_rollupCount = countDistinct\<rparr>"
  let ?G = "\<lambda>k sp. attributionGroups from to k sp s"
  note kinds = AttributionKindPolicy_def AttributionKindUser_def AttributionKindDevice_def
  have specs: "(AttributionKindPolicy, ?P) \<in> set attributionSpecs" "(AttributionKindUser, ?U) \<in> set attributionSpecs" "(AttributionKindDevice, ?D) \<in> set attributionSpecs"
    by (simp_all add: attributionSpecs_def)
  note b = attribution_buckets[OF assms(1,2)]
  have add: "fold (insertOrReplace attributionKey) (?G k sp) old = old @ ?G k sp" if "\<forall>a \<in> set old. aa_EntityKind a \<noteq> k \<or> aa_BucketAt a < from" for k sp old
    by (rule insertGroups_new[OF that assms(1,2)])
  have "st_attributionAggregates (RunAttributionRollup from to s) =
      ((st_attributionAggregates s @ ?G AttributionKindPolicy ?P) @ ?G AttributionKindUser ?U) @ ?G AttributionKindDevice ?D"
  proof -
    let ?A0 = "st_attributionAggregates s"
    have early: "\<forall>a \<in> set ?A0. aa_EntityKind a \<noteq> k \<or> aa_BucketAt a < from" for k using assms(3) by blast
    have user: "\<forall>a \<in> set (?A0 @ ?G AttributionKindPolicy ?P). aa_EntityKind a \<noteq> AttributionKindUser \<or> aa_BucketAt a < from"
      using early b(1)[of _ AttributionKindPolicy ?P s] by (auto simp: kinds)
    have device: "\<forall>a \<in> set ((?A0 @ ?G AttributionKindPolicy ?P) @ ?G AttributionKindUser ?U). aa_EntityKind a \<noteq> AttributionKindDevice \<or> aa_BucketAt a < from"
      using early b(1)[of _ AttributionKindPolicy ?P s] b(1)[of _ AttributionKindUser ?U s] by (auto simp: kinds)
    show ?thesis
      unfolding RunAttributionRollup_def attributionSpecs_def
      by (simp add: attributionGroups_upd[OF specs(1)] attributionGroups_upd[OF specs(2)] attributionGroups_upd[OF specs(3)]
          add[OF early] add[OF user, simplified] add[OF device, simplified] del: append_assoc)
  qed
  moreover have "filter (\<lambda>a. aa_EntityKind a = kind \<and> from \<le> aa_BucketAt a \<and> aa_BucketAt a < to) (?G k sp) = (if k = kind then ?G k sp else [])" for k sp
    using b[of _ k sp s] by (auto simp: filter_id_conv filter_empty_conv)
  moreover have "filter (\<lambda>a. aa_EntityKind a = kind \<and> from \<le> aa_BucketAt a \<and> aa_BucketAt a < to) (st_attributionAggregates s) = []"
    using assms(3) by (fastforce simp: filter_empty_conv)
  ultimately show ?thesis using assms(4) by (auto simp: attributionSpecs_def kinds)
qed

lemma linked_count:
  assumes "logInv s" "(kind, spec) \<in> set attributionSpecs" and L_def: "L = filter (\<lambda>l. snd (snd l) = n) (linksBetween from to (as_source spec s))"
  shows "(\<Sum>a \<leftarrow> map (attributionAggregate kind spec) (groupBy attributionKeyOf L). if aa_Outcome a = b then aa_RequestCount a else 0) = countDistinctIDs b L"
proof -
  let ?Lb = "filter (\<lambda>l. al_Outcome (fst l) = b) L"
  have groups: "filter (\<lambda>g. snd (snd (fst g)) = b) (groupBy attributionKeyOf L) = groupBy attributionKeyOf ?Lb"
    using groupBy_filter[of "\<lambda>k. snd (snd k) = b" attributionKeyOf L] by (simp add: attributionKeyOf_def)
  have count: "as_rollupCount spec (snd g) = int (length (remdups (map (\<lambda>l. al_ID (fst l)) (snd g))))" if g: "g \<in> set (groupBy attributionKeyOf ?Lb)" for g
  proof -
    have "snd g = filter (\<lambda>l. (snd (snd l) = n \<and> al_Outcome (fst l) = b) \<and> attributionKeyOf l = fst g) (linksBetween from to (as_source spec s))"
      using g by (auto simp: groupBy_set L_def filter_filter conj_ac)
    from rollupCount_distinct[OF assms(1,2) this] show ?thesis by (simp add: countDistinct_def)
  qed
  have "(\<Sum>a \<leftarrow> map (attributionAggregate kind spec) gs. if aa_Outcome a = b then aa_RequestCount a else 0) =
      (\<Sum>g \<leftarrow> filter (\<lambda>g. snd (snd (fst g)) = b) gs. as_rollupCount spec (snd g))" for gs
    by (induction gs) (auto simp: attributionAggregate_def split: prod.splits)
  then have "(\<Sum>a \<leftarrow> map (attributionAggregate kind spec) (groupBy attributionKeyOf L). if aa_Outcome a = b then aa_RequestCount a else 0) =
      (\<Sum>g \<leftarrow> groupBy attributionKeyOf ?Lb. int (length (remdups (map (\<lambda>l. al_ID (fst l)) (snd g)))))"
    using count by (simp add: groups cong: map_cong)
  also have "\<dots> = int (\<Sum>g \<leftarrow> groupBy attributionKeyOf ?Lb. length (remdups (map (\<lambda>l. al_ID (fst l)) (snd g))))"
    by (rule sum_list_int)
  also have "\<dots> = int (length (remdups (map (\<lambda>l. al_ID (fst l)) ?Lb)))"
  proof (rule arg_cong[where f = int], rule distinct_groupBy)
    fix x y assume xy: "x \<in> set ?Lb" "y \<in> set ?Lb" "al_ID (fst x) = al_ID (fst y)"
    then have "fst x = fst y" using links_rows[OF assms(2)] same_row[OF assms(1)] by (auto simp: L_def linksBetween_def)
    then show "attributionKeyOf x = attributionKeyOf y" using xy(1,2) by (simp add: attributionKeyOf_def L_def)
  qed
  finally show ?thesis by (simp add: countDistinctIDs_def)
qed

text \<open>C34 (equivalence). For every kind of entity, the split read from freshly rolled up hours is the split computed from the log: the same names,
  each with its newest id and with the number of distinct requests allowed and denied, so a request is counted once per name however many
  links lead to it.\<close>

theorem attribution_equals_log:
  assumes "logInv s" "aligned from" "aligned to" "\<forall>a \<in> set (st_attributionAggregates s). aa_BucketAt a < from" "(kind, spec) \<in> set attributionSpecs"
  shows "getAggregateAttributionSplit kind from to (RunAttributionRollup from to s) = getRawAttributionSplit spec from to s"
proof -
  let ?L = "linksBetween from to (as_source spec s)"
  let ?agg = "attributionAggregate kind spec"
  have name: "aa_EntityName (?agg g) = fst (snd (fst g))" for g by (simp add: attributionAggregate_def split: prod.splits)
  have key: "fst (snd (attributionKeyOf l)) = snd (snd l)" for l by (simp add: attributionKeyOf_def)
  have "aa_EntityName ` set (attributionGroups from to kind spec s) = (\<lambda>l. snd (snd l)) ` set ?L"
    by (simp add: attributionGroups_def image_image name groupBy_set key)
  then have keys: "sort (remdups (map aa_EntityName (attributionGroups from to kind spec s))) = sort (remdups (map (\<lambda>l. snd (snd l)) ?L))"
    by (rule group_keys_cong)
  have part: "filter (\<lambda>a. aa_EntityName a = n) (attributionGroups from to kind spec s) = map ?agg (groupBy attributionKeyOf (filter (\<lambda>l. snd (snd l) = n) ?L))" for n
    using groupBy_filter[of "\<lambda>k. fst (snd k) = n" attributionKeyOf ?L] by (simp add: attributionGroups_def filter_map comp_def name key)
  have ids: "maxId (map aa_EntityID (map ?agg (groupBy attributionKeyOf M))) = maxId (map (\<lambda>l. fst (snd l)) M)" for M
  proof -
    have "map aa_EntityID (map ?agg (groupBy attributionKeyOf M)) = map maxId (map (\<lambda>g. map (\<lambda>l. fst (snd l)) (snd g)) (groupBy attributionKeyOf M))"
      by (simp add: attributionAggregate_def split: prod.splits)
    moreover have "\<Union> (idsOf ` set (map (\<lambda>g. map (\<lambda>l. fst (snd l)) (snd g)) (groupBy attributionKeyOf M))) = idsOf (map (\<lambda>l. fst (snd l)) M)"
      by (rule idsOf_groups)
    ultimately show ?thesis using maxId_nested by metis
  qed
  have counts: "(\<Sum>g \<leftarrow> groupBy attributionKeyOf (filter (\<lambda>l. snd (snd l) = n) ?L). if aa_Outcome (?agg g) then aa_RequestCount (?agg g) else 0) =
      countDistinctIDs True (filter (\<lambda>l. snd (snd l) = n) ?L)"
    "(\<Sum>g \<leftarrow> groupBy attributionKeyOf (filter (\<lambda>l. snd (snd l) = n) ?L). if \<not> aa_Outcome (?agg g) then aa_RequestCount (?agg g) else 0) =
      countDistinctIDs False (filter (\<lambda>l. snd (snd l) = n) ?L)" for n
    using linked_count[OF assms(1,5) refl, of True n "from" to] linked_count[OF assms(1,5) refl, of False n "from" to] by (simp_all add: comp_def)
  show ?thesis
    unfolding getAggregateAttributionSplit_def getRawAttributionSplit_def RunAttributionRollup_kind[OF assms(2-5)] groupBy_def[of aa_EntityName]
      groupBy_def[of "\<lambda>l. snd (snd l)"] keys part map_map
    by (simp add: comp_def counts ids[unfolded map_map comp_def])
qed

theorem attribution_equals_log_witness:
  "aligned 0 \<and> aligned hour \<and> getAggregateAttributionSplit AttributionKindPolicy 0 hour (RunAttributionRollup 0 hour policyRequest) =
     getRawAttributionSplit (snd (attributionSpecs ! 0)) 0 hour policyRequest \<and> getRawAttributionSplit (snd (attributionSpecs ! 0)) 0 hour policyRequest \<noteq> []"
proof -
  have al: "logInv policyRequest" "aligned 0" "aligned hour" "\<forall>a \<in> set (st_attributionAggregates policyRequest). aa_BucketAt a < 0"
    "getRawAttributionSplit (snd (attributionSpecs ! 0)) 0 hour policyRequest \<noteq> []" by code_simp+
  have spec: "(AttributionKindPolicy, snd (attributionSpecs ! 0)) \<in> set attributionSpecs" by (simp add: attributionSpecs_def)
  show ?thesis using attribution_equals_log[OF al(1-4) spec] al(2,3,5) by simp
qed

end
