(* ===== verification/Retention.thy ===== *)
theory Retention
  imports Leases Rollup_Reads
begin

text \<open>
  The scheduler (\<open>src/internal/scheduler/\<close> \<open>service.go\<close>, \<open>retention_runner.go\<close>) with the jobs that \<open>app.go\<close> registers, in their order: leases,
  rollup, retention. A pass stops at the first job that fails. So retention prunes only in passes whose rollup has succeeded, and what it
  prunes from the log has been counted: the hourly figures are those of the whole history, pruned or not.

  Which statements fail is an argument. \<open>AddDate\<close> counts days of 24 hours, as it does in UTC.
\<close>

section \<open>Retention\<close>

record RetentionJob =
  rt_retentionDays :: int
  rt_aggregateRetentionDays :: int
  rt_lastRanAt :: time

definition NewRetentionJob :: "int \<Rightarrow> int \<Rightarrow> RetentionJob" where
  "NewRetentionJob days aggregateDays = \<lparr>rt_retentionDays = days, rt_aggregateRetentionDays = aggregateDays, rt_lastRanAt = zeroTime\<rparr>"

datatype pruneStmt = PruneAccessLog | PruneAddressEvents | PruneAggregates | PruneAttributionAggregates

definition daysBefore :: "int \<Rightarrow> time \<Rightarrow> time" where
  "daysBefore days now = now - days * (24 * hour)"

fun runPrunes :: "(pruneStmt \<Rightarrow> bool) \<Rightarrow> (pruneStmt \<times> (store \<Rightarrow> store)) list \<Rightarrow> store \<Rightarrow> (err, unit) result \<times> store" where
  "runPrunes ok [] s = (Inr (), s)"
| "runPrunes ok ((stmt, f) # fs) s = (if ok stmt then runPrunes ok fs (f s) else (Inl DBError, s))"

definition pruneStatements :: "RetentionJob \<Rightarrow> time \<Rightarrow> (pruneStmt \<times> (store \<Rightarrow> store)) list" where
  "pruneStatements j now =
    (if rt_retentionDays j > 0
     then [(PruneAccessLog, \<lambda>s. snd (DeleteOlderThan (daysBefore (rt_retentionDays j) now) s)),
           (PruneAddressEvents, \<lambda>s. snd (DeleteAddressEventsOlderThan (daysBefore (rt_retentionDays j) now) s))]
     else []) @
    (if rt_aggregateRetentionDays j > 0
     then [(PruneAggregates, \<lambda>s. snd (DeleteAggregatesOlderThan (daysBefore (rt_aggregateRetentionDays j) now) s)),
           (PruneAttributionAggregates, \<lambda>s. snd (DeleteAttributionAggregatesOlderThan (daysBefore (rt_aggregateRetentionDays j) now) s))]
     else [])"

definition RunRetention :: "(pruneStmt \<Rightarrow> bool) \<Rightarrow> time \<Rightarrow> RetentionJob \<times> store \<Rightarrow> (err, unit) result \<times> RetentionJob \<times> store" where
  "RunRetention ok now w = (case w of (j, s) \<Rightarrow>
     if rt_retentionDays j = 0 \<and> rt_aggregateRetentionDays j = 0 then (Inr (), j, s)
     else let today = TruncateToBucket GranularityDay now
       in if rt_lastRanAt j = today then (Inr (), j, s)
          else case runPrunes ok (pruneStatements j now) s of (Inl e, s') \<Rightarrow> (Inl e, j, s')
            | (Inr _, s') \<Rightarrow> (Inr (), j\<lparr>rt_lastRanAt := today\<rparr>, s'))"

section \<open>The scheduler\<close>

record schedWorld =
  sw_store :: store
  sw_rollup :: RollupJob
  sw_retention :: RetentionJob
  sw_notices :: "notice list"

type_synonym job = "schedWorld \<Rightarrow> (err, unit) result \<times> schedWorld"

record failures =
  fl_expiry :: bool
  fl_trafficOk :: "time \<Rightarrow> bool"
  fl_attributionOk :: "time \<Rightarrow> bool"
  fl_pruneOk :: "pruneStmt \<Rightarrow> bool"

definition expiryJob :: "failures \<Rightarrow> time \<Rightarrow> job" where
  "expiryJob fl now w = (if fl_expiry fl then (Inl DBError, w)
     else case ExpiryJob_Run now (sw_store w) of (r, ns, s) \<Rightarrow> (r, w\<lparr>sw_store := s, sw_notices := sw_notices w @ ns\<rparr>))"

definition rollupJob :: "failures \<Rightarrow> time \<Rightarrow> job" where
  "rollupJob fl now w = (case RunJob (fl_trafficOk fl) (fl_attributionOk fl) now (sw_rollup w, sw_store w) of (r, j, s) \<Rightarrow>
     (r, w\<lparr>sw_store := s, sw_rollup := j\<rparr>))"

definition retentionJob :: "failures \<Rightarrow> time \<Rightarrow> job" where
  "retentionJob fl now w = (case RunRetention (fl_pruneOk fl) now (sw_retention w, sw_store w) of (r, j, s) \<Rightarrow>
     (r, w\<lparr>sw_store := s, sw_retention := j\<rparr>))"

fun ExecuteScheduledRules :: "job list \<Rightarrow> job" where
  "ExecuteScheduledRules [] w = (Inr (), w)"
| "ExecuteScheduledRules (job # jobs) w = (case job w of (Inl e, w') \<Rightarrow> (Inl e, w') | (Inr _, w') \<Rightarrow> ExecuteScheduledRules jobs w')"

definition appJobs :: "failures \<Rightarrow> time \<Rightarrow> job list" where
  "appJobs fl now = [expiryJob fl now, rollupJob fl now, retentionJob fl now]"

text \<open>The loop of \<open>RunSchedule\<close> over its ticks: what a pass returns is dropped.\<close>

definition RunSchedule :: "(failures \<times> time) list \<Rightarrow> schedWorld \<Rightarrow> schedWorld" where
  "RunSchedule ticks w = fold (\<lambda>(fl, now) w. snd (ExecuteScheduledRules (appJobs fl now) w)) ticks w"

section \<open>The history of the log\<close>

text \<open>The log as it would be without pruning: its rows and their GeoIP rows, and the store that has them in place of the pruned ones.\<close>

type_synonym history = "AccessLogRow list \<times> LogGeoip list"

definition unpruned :: "history \<Rightarrow> store \<Rightarrow> store" where
  "unpruned h s = s\<lparr>st_accessLog := fst h, st_logGeoip := snd h, st_logContributors := [], st_logPolicies := []\<rparr>"

definition recorded :: "(header \<Rightarrow> string option) \<Rightarrow> DecisionEvent list \<Rightarrow> store \<Rightarrow> history \<Rightarrow> history" where
  "recorded marshal events s h = (let t = snd (BatchInsert marshal events (unpruned h s)) in (st_accessLog t, st_logGeoip t))"

definition aggregateFloor :: "RetentionJob \<Rightarrow> time \<Rightarrow> time \<Rightarrow> time" where
  "aggregateFloor j now floor = (if rt_aggregateRetentionDays j > 0 then max floor (ceilHour (daysBefore (rt_aggregateRetentionDays j) now)) else floor)"

text \<open>The system from its first start: batches, passes of the scheduler with any failures, restarts with any settings, and whatever other
  calls do to the other tables. The second argument is the first hour whose aggregates have not been pruned.\<close>

inductive schedReach :: "history \<Rightarrow> time \<Rightarrow> schedWorld \<Rightarrow> bool" where
  start: "schedReach ([], []) zeroTime \<lparr>sw_store = emptyStore, sw_rollup = NewRollupJob, sw_retention = NewRetentionJob days aggregateDays, sw_notices = []\<rparr>"
| logged: "schedReach h floor w \<Longrightarrow> list_all (onTime (coveredTo (sw_rollup w) (sw_store w))) events \<Longrightarrow>
    schedReach (recorded marshal events (sw_store w) h) floor (w\<lparr>sw_store := snd (BatchInsert marshal events (sw_store w))\<rparr>)"
| pass: "schedReach h floor w \<Longrightarrow> zeroTime \<le> now \<Longrightarrow> ExecuteScheduledRules (appJobs fl now) w = (r, w') \<Longrightarrow> schedReach h (aggregateFloor (sw_retention w) now floor) w'"
| restarted: "schedReach h floor w \<Longrightarrow> schedReach h floor (w\<lparr>sw_rollup := NewRollupJob, sw_retention := NewRetentionJob days aggregateDays\<rparr>)"
| changed: "schedReach h floor w \<Longrightarrow> logInv t \<Longrightarrow> st_accessLog t = st_accessLog (sw_store w) \<Longrightarrow> st_logGeoip t = st_logGeoip (sw_store w) \<Longrightarrow>
    st_trafficAggregates t = st_trafficAggregates (sw_store w) \<Longrightarrow> schedReach h floor (w\<lparr>sw_store := t\<rparr>)"

text \<open>A row of the history and its row in the store: the same but for the id.\<close>

definition sameVisit :: "store \<Rightarrow> store \<Rightarrow> AccessLogRow \<Rightarrow> AccessLogRow \<Rightarrow> bool" where
  "sameVisit f s r q \<longleftrightarrow> r\<lparr>al_ID := 0\<rparr> = q\<lparr>al_ID := 0\<rparr> \<and>
     map_option (\<lambda>g. g\<lparr>lg_AccessLogID := 0\<rparr>) (geoipOfRow f r) = map_option (\<lambda>g. g\<lparr>lg_AccessLogID := 0\<rparr>) (geoipOfRow s q)"

definition keptRows :: "id set \<Rightarrow> store \<Rightarrow> store \<Rightarrow> bool" where
  "keptRows kept f s \<longleftrightarrow> list_all2 (sameVisit f s) (filter (\<lambda>r. al_ID r \<in> kept) (st_accessLog f)) (st_accessLog s)"

text \<open>The rows from an instant on are still there, as far as their aggregates are.\<close>

definition repeatable :: "history \<Rightarrow> time \<Rightarrow> id set \<Rightarrow> time \<Rightarrow> bool" where
  "repeatable h floor kept from \<longleftrightarrow> (\<forall>r \<in> set (fst h). floor \<le> al_CreatedAt r \<longrightarrow> from \<le> al_CreatedAt r \<longrightarrow> al_ID r \<in> kept)"

definition histInv :: "history \<Rightarrow> time \<Rightarrow> id set \<Rightarrow> time \<Rightarrow> store \<Rightarrow> bool" where
  "histInv h floor kept hi s \<longleftrightarrow> rollupInv floor hi (unpruned h s) \<and> logInv s \<and> repeatable h floor kept hi \<and> keptRows kept (unpruned h s) s"

section \<open>Rows of the history and of the store\<close>

lemma unpruned_sel [simp]:
  "st_accessLog (unpruned h s) = fst h" "st_logGeoip (unpruned h s) = snd h" "st_trafficAggregates (unpruned h s) = st_trafficAggregates s"
  "st_logContributors (unpruned h s) = []" "st_logPolicies (unpruned h s) = []"
  by (simp_all add: unpruned_def)

lemma list_all2_filter:
  "list_all2 R xs ys \<Longrightarrow> (\<And>x y. R x y \<Longrightarrow> P x = Q y) \<Longrightarrow> list_all2 R (filter P xs) (filter Q ys)"
  by (induction rule: list_all2_induct) auto

lemma sameVisit_sel:
  assumes "sameVisit f s r q"
  shows "al_CreatedAt r = al_CreatedAt q" "trafficKeyOf r = trafficKeyOf q" "al_DurationUs r = al_DurationUs q" "normalRow r = normalRow q"
    "map_option lg_CountryCode (geoipOfRow f r) = map_option lg_CountryCode (geoipOfRow s q)"
    "map_option lg_CountryName (geoipOfRow f r) = map_option lg_CountryName (geoipOfRow s q)"
    "map_option lg_ContinentCode (geoipOfRow f r) = map_option lg_ContinentCode (geoipOfRow s q)"
proof -
  have row: "r\<lparr>al_ID := 0\<rparr> = q\<lparr>al_ID := 0\<rparr>" using assms by (simp add: sameVisit_def)
  have sel: "al_CreatedAt r = al_CreatedAt q" "al_DurationUs r = al_DurationUs q" "al_ClientIP r = al_ClientIP q" "al_TargetHost r = al_TargetHost q"
    "al_Outcome r = al_Outcome q" "al_DenyReason r = al_DenyReason q"
    using arg_cong[OF row, of al_CreatedAt] arg_cong[OF row, of al_DurationUs] arg_cong[OF row, of al_ClientIP] arg_cong[OF row, of al_TargetHost]
      arg_cong[OF row, of al_Outcome] arg_cong[OF row, of al_DenyReason] by simp_all
  then show "al_CreatedAt r = al_CreatedAt q" "trafficKeyOf r = trafficKeyOf q" "al_DurationUs r = al_DurationUs q" "normalRow r = normalRow q"
    by (simp_all add: trafficKeyOf_def normalRow_def)
  have geo: "map_option F (map_option (\<lambda>g. g\<lparr>lg_AccessLogID := 0\<rparr>) (geoipOfRow f r)) = map_option F (map_option (\<lambda>g. g\<lparr>lg_AccessLogID := 0\<rparr>) (geoipOfRow s q))" for F :: "LogGeoip \<Rightarrow> string"
    using assms by (simp add: sameVisit_def)
  show "map_option lg_CountryCode (geoipOfRow f r) = map_option lg_CountryCode (geoipOfRow s q)"
    "map_option lg_CountryName (geoipOfRow f r) = map_option lg_CountryName (geoipOfRow s q)"
    "map_option lg_ContinentCode (geoipOfRow f r) = map_option lg_ContinentCode (geoipOfRow s q)"
    using geo[of lg_CountryCode] geo[of lg_CountryName] geo[of lg_ContinentCode] by (simp_all add: option.map_comp comp_def)
qed

lemma list_all2_map_eq: "list_all2 R xs ys \<Longrightarrow> (\<And>x y. R x y \<Longrightarrow> f x = g y) \<Longrightarrow> map f xs = map g ys"
  by (induction rule: list_all2_induct) auto

lemma trafficGroups_same:
  assumes "list_all2 (sameVisit f s) xs ys"
  shows "trafficGroups f xs = trafficGroups s ys"
proof -
  have keys: "map trafficKeyOf xs = map trafficKeyOf ys" by (rule list_all2_map_eq[OF assms]) (rule sameVisit_sel)
  have "trafficAggregate f (k, filter (\<lambda>x. trafficKeyOf x = k) xs) = trafficAggregate s (k, filter (\<lambda>x. trafficKeyOf x = k) ys)" for k
  proof -
    have part: "list_all2 (sameVisit f s) (filter (\<lambda>x. trafficKeyOf x = k) xs) (filter (\<lambda>x. trafficKeyOf x = k) ys)"
      by (rule list_all2_filter[OF assms]) (simp add: sameVisit_sel)
    show ?thesis unfolding trafficAggregate_def prod.case
      using list_all2_lengthD[OF part] list_all2_map_eq[OF part, of al_DurationUs al_DurationUs]
        list_all2_map_eq[OF part, of "\<lambda>r. coalesce (map_option lg_CountryCode (geoipOfRow f r))" "\<lambda>r. coalesce (map_option lg_CountryCode (geoipOfRow s r))"]
        list_all2_map_eq[OF part, of "\<lambda>r. coalesce (map_option lg_CountryName (geoipOfRow f r))" "\<lambda>r. coalesce (map_option lg_CountryName (geoipOfRow s r))"]
        list_all2_map_eq[OF part, of "\<lambda>r. coalesce (map_option lg_ContinentCode (geoipOfRow f r))" "\<lambda>r. coalesce (map_option lg_ContinentCode (geoipOfRow s r))"]
      by (simp add: sameVisit_sel split: prod.splits)
  qed
  then show ?thesis by (simp add: trafficGroups_def groupBy_def keys)
qed

lemma keptRows_normal:
  assumes "keptRows kept f s" "list_all normalRow (st_accessLog f)"
  shows "list_all normalRow (st_accessLog s)"
proof -
  have "list_all normalRow (filter (\<lambda>r. al_ID r \<in> kept) (st_accessLog f))" using assms(2) by (auto simp: list_all_iff)
  moreover have "list_all normalRow xs \<longleftrightarrow> list_all normalRow ys" if "list_all2 (sameVisit f s) xs ys" for xs ys
    using that by (induction rule: list_all2_induct) (simp_all add: sameVisit_sel)
  ultimately show ?thesis using assms(1) by (simp add: keptRows_def)
qed

lemma keptRows_cong:
  assumes "st_accessLog t = st_accessLog s" "st_logGeoip t = st_logGeoip s" "st_accessLog g = st_accessLog f" "st_logGeoip g = st_logGeoip f"
  shows "keptRows kept g t = keptRows kept f s"
proof -
  have "sameVisit g t = sameVisit f s" using assms by (simp add: fun_eq_iff sameVisit_def geoipOfRow_def)
  then show ?thesis using assms by (simp add: keptRows_def)
qed

section \<open>A rollup of the store is one of the history\<close>

lemma groups_from:
  assumes "aligned floor"
  shows "filter (\<lambda>a. floor \<le> ta_BucketAt a) (trafficGroups s (rowsBetween from to s)) = trafficGroups s (rowsBetween (max floor from) to s)"
proof -
  have bucket: "ta_BucketAt (trafficAggregate s g) = fst (fst g)" for g by (simp add: trafficAggregate_def split: prod.splits)
  have "filter (\<lambda>r. floor \<le> hourOf (al_CreatedAt r)) (rowsBetween from to s) = rowsBetween (max floor from) to s"
    unfolding rowsBetween_def filter_filter aligned_le(1)[OF assms] by (rule filter_cong[OF refl]) auto
  then show ?thesis using groupBy_filter[of "\<lambda>k. floor \<le> fst k" trafficKeyOf "rowsBetween from to s"]
    by (simp add: trafficGroups_def filter_map comp_def bucket trafficKeyOf_def)
qed

lemma repeated_groups:
  assumes "keptRows kept f s" "repeatable (st_accessLog f, g) floor kept from" "aligned floor"
  shows "filter (\<lambda>a. floor \<le> ta_BucketAt a) (trafficGroups s (rowsBetween from to s)) = filter (\<lambda>a. floor \<le> ta_BucketAt a) (trafficGroups f (rowsBetween from to f))"
proof -
  let ?w = "\<lambda>r. max floor from \<le> al_CreatedAt r \<and> al_CreatedAt r < to"
  have "list_all2 (sameVisit f s) (filter ?w (filter (\<lambda>r. al_ID r \<in> kept) (st_accessLog f))) (filter ?w (st_accessLog s))"
    by (rule list_all2_filter) (use assms(1) in \<open>simp_all add: keptRows_def sameVisit_sel\<close>)
  moreover have "filter ?w (filter (\<lambda>r. al_ID r \<in> kept) (st_accessLog f)) = rowsBetween (max floor from) to f"
    unfolding rowsBetween_def filter_filter using assms(2) by (intro filter_cong refl) (auto simp: repeatable_def)
  ultimately show ?thesis unfolding groups_from[OF assms(3)] using trafficGroups_same[of f s] by (simp add: rowsBetween_def)
qed

lemma RunRollup_set:
  assumes "list_all normalRow (st_accessLog s)" "aligned from" "aligned to" "G = set (trafficGroups s (rowsBetween from to s))"
  shows "set (st_trafficAggregates (RunRollup from to s)) = {a \<in> set (st_trafficAggregates s). aggregateKey a \<notin> aggregateKey ` G} \<union> G"
    "distinct (map aggregateKey (st_trafficAggregates s)) \<Longrightarrow> distinct (map aggregateKey (st_trafficAggregates (RunRollup from to s)))"
  using insertOrReplace_fold[OF trafficGroups_distinct[OF assms(2,3,1)], of "st_trafficAggregates s"]
    replaced_distinct[OF _ trafficGroups_distinct[OF assms(2,3,1)], of "st_trafficAggregates s"]
  by (simp_all add: RunRollup_def assms(4))

lemma replaced_from:
  assumes "{a \<in> G. lo \<le> ta_BucketAt a} = {a \<in> H. lo \<le> ta_BucketAt a}"
  shows "{a \<in> {a \<in> A. aggregateKey a \<notin> aggregateKey ` G} \<union> G. lo \<le> ta_BucketAt a} = {a \<in> {a \<in> A. aggregateKey a \<notin> aggregateKey ` H} \<union> H. lo \<le> ta_BucketAt a}"
proof -
  have "aggregateKey a \<in> aggregateKey ` X \<longleftrightarrow> aggregateKey a \<in> aggregateKey ` {b \<in> X. lo \<le> ta_BucketAt b}" if "lo \<le> ta_BucketAt a" for a X
    using that by (auto simp: aggregateKey_def)
  then show ?thesis using assms by blast
qed

lemma histInv_RunRollup:
  assumes inv: "histInv h floor kept hi s" and al: "aligned from" "aligned to" and le: "from \<le> hi" and rep: "repeatable h floor kept from"
  shows "histInv h floor kept (max hi to) (RunRollup from to s)"
proof -
  let ?f = "unpruned h s" and ?t = "RunRollup from to s"
  have f: "rollupInv floor hi ?f" and rows: "keptRows kept ?f s" using inv by (simp_all add: histInv_def)
  have ft: "rollupInv floor (max hi to) (RunRollup from to ?f)" by (rule rollupInv_RunRollup[OF f al le])
  have normal: "list_all normalRow (fst h)" and floor: "aligned floor" and dist: "distinct (map aggregateKey (st_trafficAggregates s))"
    and old: "\<forall>a \<in> set (st_trafficAggregates s). aligned (ta_BucketAt a) \<and> ta_BucketAt a < hi"
    using f by (simp_all add: rollupInv_def)
  have normal': "list_all normalRow (st_accessLog s)" by (rule keptRows_normal[OF rows]) (simp add: normal)
  note set_s = RunRollup_set[OF normal' al refl]
  have set_f: "set (st_trafficAggregates (RunRollup from to ?f)) = {a \<in> set (st_trafficAggregates s). aggregateKey a \<notin> aggregateKey ` set (trafficGroups ?f (rowsBetween from to ?f))} \<union>
      set (trafficGroups ?f (rowsBetween from to ?f))"
    using RunRollup_set(1)[of ?f "from" to, OF _ al refl] normal by simp
  have "{a \<in> set (trafficGroups s (rowsBetween from to s)). floor \<le> ta_BucketAt a} = {a \<in> set (trafficGroups ?f (rowsBetween from to ?f)). floor \<le> ta_BucketAt a}"
    using arg_cong[OF repeated_groups[OF rows _ floor, of "snd h" "from" to], of set] rep by simp
  from replaced_from[OF this, of "set (st_trafficAggregates s)"]
  have same: "{a \<in> set (st_trafficAggregates ?t). floor \<le> ta_BucketAt a} = {a \<in> set (st_trafficAggregates (RunRollup from to ?f)). floor \<le> ta_BucketAt a}"
    unfolding set_s set_f .
  have bound: "\<forall>a \<in> set (st_trafficAggregates ?t). aligned (ta_BucketAt a) \<and> ta_BucketAt a < max hi to"
    unfolding set_s trafficGroups_set[OF al] using old aligned_le(2)[OF al(2)] by (auto simp: rowsBetween_def less_max_iff_disj)
  have cong: "bucketAggregate (unpruned h ?t) = bucketAggregate (RunRollup from to ?f)" "rowsBetween lo up (unpruned h ?t) = rowsBetween lo up (RunRollup from to ?f)" for lo up
    by (rule bucketAggregate_cong; simp add: RunRollup_def)+
  have "rollupInv floor (max hi to) (unpruned h ?t)"
    using ft normal bound set_s(2)[OF dist] unfolding rollupInv_def same[symmetric] cong[symmetric] by (simp add: logInv_def RunRollup_def)
  moreover have "logInv ?t" using inv by (simp add: histInv_def logInv_def RunRollup_def)
  moreover have "repeatable h floor kept (max hi to)" using inv by (auto simp: histInv_def repeatable_def)
  moreover have "keptRows kept (unpruned h ?t) ?t" using rows keptRows_cong[of ?t s "unpruned h ?t" ?f] by (simp add: RunRollup_def)
  ultimately show ?thesis by (simp add: histInv_def)
qed

lemma histInv_tables:
  assumes "histInv h floor kept hi s" "logInv t" "st_accessLog t = st_accessLog s" "st_logGeoip t = st_logGeoip s" "st_trafficAggregates t = st_trafficAggregates s"
  shows "histInv h floor kept hi t"
proof -
  have "logInv (unpruned h s) \<Longrightarrow> logInv (unpruned h t)" by (simp add: logInv_def)
  then show ?thesis using assms rollupInv_tables[of floor hi "unpruned h s" "unpruned h t"] keptRows_cong[of t s "unpruned h t" "unpruned h s"]
    by (auto simp: histInv_def rollupInv_def)
qed

interpretation history_cover: rollup_cover "histInv h floor kept" "repeatable h floor kept" for h floor kept
proof (unfold_locales, goal_cases)
  case (1 hi s)
  then show ?case by (auto simp: histInv_def rollupInv_def)
next
  case (2 hi s r)
  then have "normalRow r" using keptRows_normal[of kept "unpruned h s" s] by (simp add: histInv_def rollupInv_def list_all_iff)
  then show ?case using hour_pos(1) unfolding normalRow_def by linarith
next
  case (3 hi s a)
  then show ?case by (auto simp: histInv_def rollupInv_def)
next
  case (4 hi s "from" to)
  then show ?case by (rule histInv_RunRollup)
next
  case (5 hi s "from" to)
  then show ?case by (rule histInv_tables) (use 5 in \<open>simp_all add: histInv_def logInv_def\<close>)
next
  case (6 hi s u)
  have rows: "keptRows kept (unpruned h s) s" and rep: "repeatable h floor kept hi" and inv: "rollupInv floor hi (unpruned h s)" using 6(1) by (simp_all add: histInv_def)
  have late: "u \<le> al_CreatedAt r" if r: "r \<in> set (fst h)" "al_ID r \<in> kept" for r
  proof -
    have "list_all2 (sameVisit (unpruned h s) s) (filter (\<lambda>r. al_ID r \<in> kept) (fst h)) (st_accessLog s)" using rows by (simp add: keptRows_def)
    from list_all2_ex1[OF this, of r] obtain q where "q \<in> set (st_accessLog s)" "sameVisit (unpruned h s) s r q" using r by auto
    then show ?thesis using 6(3) by (simp add: sameVisit_sel)
  qed
  have "rollupInv floor (max hi u) (unpruned h s)"
  proof (rule rollupInv_extend[OF inv])
    show "aligned (max hi u)" using rollupInv_parts(1)[OF inv] 6(2) by (simp add: max_def)
    show "\<forall>r \<in> set (st_accessLog (unpruned h s)). floor \<le> al_CreatedAt r \<longrightarrow> \<not> (hi \<le> al_CreatedAt r \<and> al_CreatedAt r < max hi u)"
      using late rep by (force simp: repeatable_def)
  qed simp
  then show ?case using 6(1) by (auto simp: histInv_def repeatable_def)
next
  case (7 "from" later)
  then show ?case by (auto simp: repeatable_def)
qed

section \<open>The jobs\<close>

definition logTables :: "store \<Rightarrow> AccessLogRow list \<times> LogGeoip list \<times> LogContributor list \<times> LogPolicy list \<times> TrafficAggregate list" where
  "logTables s = (st_accessLog s, st_logGeoip s, st_logContributors s, st_logPolicies s, st_trafficAggregates s)"

lemma keeps_tables: "(\<And>s. logTables (snd (f s)) = logTables s) \<Longrightarrow> keeps (\<lambda>s. logTables s = x) f"
  by (simp add: keeps_def)

lemma recordAddressEvent_tables: "keeps (\<lambda>s. logTables s = x) (recordAddressEvent b now i enabled source trigger)"
  unfolding recordAddressEvent_def insertAddressEvent_def GetAddress_def setAddressState_def modify_def
  by (intro inv_intros keeps_tables) (auto simp: logTables_def ret_def throw_def split: option.splits)

lemma ExpiryJob_tables:
  assumes "ExpiryJob_Run now s = (r, ns, t)"
  shows "logTables t = logTables s"
proof -
  have "keeps (\<lambda>s. logTables s = x) (repoDisableAddresses False now is source trigger)" for x "is" source trigger
    unfolding repoDisableAddresses_def by (cases "is = []") (auto intro!: inv_intros recordAddressEvent_tables)
  note off = keepsD[OF this refl]
  show ?thesis
  proof (cases "GetExpiredAddressIDs now s")
    case (Pair r0 s0)
    then have s0: "s0 = s" by (auto simp: GetExpiredAddressIDs_def get_def)
    show ?thesis
    proof (cases r0)
      case (Inr ids)
      show ?thesis
      proof (cases "ids = []")
        case False
        obtain r1 s1 where d: "repoDisableAddresses False now ids EventSourceExpiry EventTriggerSystem s = (r1, s1)" by fastforce
        then have "t = s1" using assms Pair Inr False s0 by (cases r1) (simp_all add: ExpiryJob_Run_def DisableAddresses_def notifying_def)
        then show ?thesis using off[OF d] by simp
      qed (use assms Pair Inr s0 in \<open>simp add: ExpiryJob_Run_def\<close>)
    qed (use assms Pair s0 in \<open>simp add: ExpiryJob_Run_def\<close>)
  qed
qed

lemma histInv_logTables:
  assumes "histInv h floor kept hi s" "logTables t = logTables s"
  shows "histInv h floor kept hi t"
  using assms by (intro histInv_tables[OF assms(1)]) (auto simp: logTables_def histInv_def logInv_def)

lemma repeatable_floor: "repeatable h floor kept from \<Longrightarrow> floor \<le> floor' \<Longrightarrow> repeatable h floor' kept from"
  by (auto simp: repeatable_def)

lemma histInv_floor: "histInv h floor kept hi s \<Longrightarrow> floor \<le> floor' \<Longrightarrow> aligned floor' \<Longrightarrow> histInv h floor' kept hi s"
  using rollupInv_floor repeatable_floor[of h] by (auto simp: histInv_def)

lemma histInv_pruned:
  assumes inv: "histInv h floor kept hi s" and rep: "repeatable h floor kept from" and le: "before \<le> from" "from \<le> hi"
    and kept': "kept' = kept \<inter> {al_ID r |r. r \<in> set (fst h) \<and> before \<le> al_CreatedAt r}"
  shows "histInv h floor kept' hi (snd (DeleteOlderThan before s))" "repeatable h floor kept' from"
proof -
  let ?t = "snd (DeleteOlderThan before s)" and ?f = "unpruned h s"
  have f: "rollupInv floor hi ?f" and log: "logInv s" and rows: "keptRows kept ?f s" using inv by (simp_all add: histInv_def)
  show rep': "repeatable h floor kept' from" using rep le(1) by (force simp: repeatable_def kept')
  have "logInv ?f" using f by (simp add: rollupInv_def)
  then have ids: "al_ID r \<in> kept' \<longleftrightarrow> al_ID r \<in> kept \<and> before \<le> al_CreatedAt r" if "r \<in> set (fst h)" for r
    using that by (auto simp: kept' logInv_def distinct_map inj_on_def)
  have tables: "st_accessLog ?t = filter (\<lambda>r. before \<le> al_CreatedAt r) (st_accessLog s)" "st_trafficAggregates ?t = st_trafficAggregates s"
    by (simp_all add: DeleteOlderThan_def Let_def not_less)
  have "list_all2 (sameVisit ?f s) (filter (\<lambda>r. before \<le> al_CreatedAt r) (filter (\<lambda>r. al_ID r \<in> kept) (fst h))) (st_accessLog ?t)"
    unfolding tables by (rule list_all2_filter) (use rows in \<open>simp_all add: keptRows_def sameVisit_sel\<close>)
  moreover have "filter (\<lambda>r. before \<le> al_CreatedAt r) (filter (\<lambda>r. al_ID r \<in> kept) (fst h)) = filter (\<lambda>r. al_ID r \<in> kept') (fst h)"
    unfolding filter_filter by (rule filter_cong[OF refl]) (auto simp: ids)
  moreover have "sameVisit (unpruned h ?t) ?t r q" if "sameVisit ?f s r q" "q \<in> set (st_accessLog ?t)" for r q
    using that geoip_kept[OF log that(2)] by (simp add: sameVisit_def geoipOfRow_def[of "unpruned h _"])
  ultimately have "keptRows kept' (unpruned h ?t) ?t" by (auto simp: keptRows_def elim!: list.rel_mono_strong)
  moreover have "rollupInv floor hi (unpruned h ?t)" by (rule rollupInv_tables[OF f]) (use \<open>logInv ?f\<close> in \<open>simp_all add: tables logInv_def\<close>)
  moreover have "logInv ?t" using logInv_DeleteOlderThan log by (simp add: keeps_def)
  moreover have "repeatable h floor kept' hi" using rep' le(2) by (auto simp: repeatable_def)
  ultimately show "histInv h floor kept' hi ?t" by (simp add: histInv_def)
qed

lemma histInv_aggregatesPruned:
  assumes "histInv h floor kept hi s"
  shows "histInv h (max floor (ceilHour before)) kept hi (snd (DeleteAggregatesOlderThan before s))"
proof -
  let ?t = "snd (DeleteAggregatesOlderThan before s)" and ?u = "snd (DeleteAggregatesOlderThan before (unpruned h s))"
  have u: "rollupInv (max floor (ceilHour before)) hi ?u" using assms by (intro rollupInv_aggregatesPruned) (simp add: histInv_def)
  have "logInv (unpruned h s)" using assms by (simp add: histInv_def rollupInv_def)
  then have log: "logInv (unpruned h ?t)" by (simp add: logInv_def)
  have same: "st_accessLog (unpruned h ?t) = st_accessLog ?u" "st_logGeoip (unpruned h ?t) = st_logGeoip ?u" "st_trafficAggregates (unpruned h ?t) = st_trafficAggregates ?u"
    by (simp_all add: DeleteAggregatesOlderThan_def)
  have "rollupInv (max floor (ceilHour before)) hi (unpruned h ?t)" by (rule rollupInv_tables[OF u log same])
  moreover have "keptRows kept (unpruned h ?t) ?t = keptRows kept (unpruned h s) s" by (rule keptRows_cong) (simp_all add: DeleteAggregatesOlderThan_def)
  moreover have "logInv ?t" using assms by (simp add: histInv_def logInv_def DeleteAggregatesOlderThan_def)
  moreover have "repeatable h (max floor (ceilHour before)) kept hi" by (rule repeatable_floor[of h floor]) (use assms in \<open>simp_all add: histInv_def\<close>)
  ultimately show ?thesis using assms unfolding histInv_def by blast
qed

section \<open>New rows\<close>

lemma numbered_nth_eq: "k < length es \<Longrightarrow> numbered n es ! k = (n + int k, es ! k)" "length (numbered n es) = length es"
proof -
  show "length (numbered n es) = length es" by (induction es arbitrary: n) simp_all
  show "k < length es \<Longrightarrow> numbered n es ! k = (n + int k, es ! k)"
    by (induction es arbitrary: n k) (auto simp: nth_Cons split: nat.splits)
qed

lemma find_geoipOf:
  "(i, e) \<in> set (numbered n es) \<Longrightarrow> List.find (\<lambda>g. lg_AccessLogID g = i) (concat (map (\<lambda>(i, e). geoipOf i e) (numbered n es))) =
    (if GeoIsEmpty (de_GeoIP e) then None else Some (geoRow i (de_GeoIP e)))"
proof (induction es arbitrary: n)
  case (Cons x es)
  have late: "List.find (\<lambda>g. lg_AccessLogID g = n) (concat (map (\<lambda>(i, e). geoipOf i e) (numbered (n + 1) es))) = None"
    by (auto simp: find_None_iff geoipOf_def geoRow_def dest!: numbered_from)
  have ids: "lg_AccessLogID g = k" if "g \<in> set (geoipOf k x)" for g k using that by (auto simp: geoipOf_def geoRow_def split: if_splits)
  show ?case
  proof (cases "i = n")
    case True
    then have "e = x" using Cons.prems numbered_from[of i e "n + 1" es] by auto
    then show ?thesis using True late by (simp add: find_append geoipOf_def geoRow_def)
  next
    case False
    then have "List.find (\<lambda>g. lg_AccessLogID g = i) (geoipOf n x) = None" using ids[of _ n] by (auto simp: find_None_iff)
    then show ?thesis using Cons False by (simp add: find_append)
  qed
qed simp

lemma geoip_new:
  assumes "logInv s" "(i, e) \<in> set (numbered (nextLogID s) events)"
  shows "geoipOfRow (loggedBatch m events s) (logRow i b e) = (if GeoIsEmpty (de_GeoIP e) then None else Some (geoRow i (de_GeoIP e)))"
proof -
  have "lg_AccessLogID g < nextLogID s" if "g \<in> set (st_logGeoip s)" for g
    using that assms(1) nextLogID_greater[of _ s] by (auto simp: logInv_def)
  then have "List.find (\<lambda>g. lg_AccessLogID g = i) (st_logGeoip s) = None" using numbered_from[OF assms(2)] by (force simp: find_None_iff)
  then show ?thesis using find_geoipOf[OF assms(2)] by (simp add: geoipOfRow_def logRow_def loggedBatch_def appendRows_def find_append)
qed

lemma sameVisit_new:
  assumes "logInv f" "logInv s" "k < length es"
  shows "sameVisit (loggedBatch m es f) (loggedBatch m es s) (logRow (nextLogID f + int k) b (es ! k)) (logRow (nextLogID s + int k) b (es ! k))"
proof -
  have mem: "(n + int k, es ! k) \<in> set (numbered n es)" for n using nth_mem[of k "numbered n es"] assms(3) by (simp add: numbered_nth_eq)
  show ?thesis unfolding sameVisit_def geoip_new[OF assms(1) mem] geoip_new[OF assms(2) mem] by (simp add: logRow_def geoRow_def)
qed

lemma keptRows_logged:
  assumes "keptRows kept f s" "logInv f" "logInv s" "kept' = kept \<union> {i. nextLogID f \<le> i}"
  shows "keptRows kept' (loggedBatch m es f) (loggedBatch m es s)"
proof -
  let ?f = "loggedBatch m es f" and ?s = "loggedBatch m es s"
  define rows where "rows n = map (\<lambda>(i, e). logRow i (the (m (de_Headers e))) e) (numbered n es)" for n
  have log: "st_accessLog ?f = st_accessLog f @ rows (nextLogID f)" "st_accessLog ?s = st_accessLog s @ rows (nextLogID s)"
    by (simp_all add: loggedBatch_def appendRows_def rows_def)
  have "filter (\<lambda>r. al_ID r \<in> kept') (st_accessLog f) = filter (\<lambda>r. al_ID r \<in> kept) (st_accessLog f)"
    using nextLogID_greater[of _ f] by (intro filter_cong refl) (force simp: assms(4))
  moreover have "\<forall>r \<in> set (rows (nextLogID f)). al_ID r \<in> kept'" by (auto simp: rows_def assms(4) logRow_def dest: numbered_from)
  ultimately have keptf: "filter (\<lambda>r. al_ID r \<in> kept') (st_accessLog ?f) = filter (\<lambda>r. al_ID r \<in> kept) (st_accessLog f) @ rows (nextLogID f)"
    by (simp add: log filter_id_conv)
  have old: "sameVisit ?f ?s r q" if "sameVisit f s r q" "r \<in> set (st_accessLog f)" "q \<in> set (st_accessLog s)" for r q
    using that geoip_stable[OF assms(2) that(2)] geoip_stable[OF assms(3) that(3)] by (simp add: sameVisit_def)
  have "list_all2 (sameVisit ?f ?s) (filter (\<lambda>r. al_ID r \<in> kept) (st_accessLog f)) (st_accessLog s)"
    using assms(1) unfolding keptRows_def by (rule list.rel_mono_strong) (auto intro: old)
  moreover have "list_all2 (sameVisit ?f ?s) (rows (nextLogID f)) (rows (nextLogID s))"
    by (rule list_all2_all_nthI) (simp_all add: rows_def numbered_nth_eq sameVisit_new[OF assms(2,3)])
  ultimately show ?thesis unfolding keptRows_def keptf log(2) by (rule list_all2_appendI)
qed

section \<open>Every step\<close>

definition schedInv :: "history \<Rightarrow> time \<Rightarrow> RollupJob \<Rightarrow> store \<Rightarrow> bool" where
  "schedInv h floor j s \<longleftrightarrow> jobOK j \<and> (\<exists>kept hi. histInv h floor kept hi s \<and> (rj_initialized j \<longrightarrow> rj_lastRollupAt j \<le> hi) \<and>
     repeatable h floor kept (rj_lastRollupAt (initJob j s)))"

lemma counted_before_end:
  assumes "histInv h floor kept hi s" "r \<in> set (fst h)" "floor \<le> al_CreatedAt r" "al_CreatedAt r < hi"
  shows "al_CreatedAt r < aggregatesEnd s" "st_trafficAggregates s \<noteq> []"
proof -
  have "bucketAggregate (unpruned h s) r \<in> {a \<in> set (st_trafficAggregates s). floor \<le> ta_BucketAt a}"
    using assms by (simp add: histInv_def rollupInv_def) (simp add: rowsBetween_def)
  then have a: "bucketAggregate (unpruned h s) r \<in> set (st_trafficAggregates s)" by simp
  note b = history_cover.aggregatesEnd_bounds[OF assms(1)]
  show "al_CreatedAt r < aggregatesEnd s" using b(3) a aligned_le(2)[OF b(2)] by force
  show "st_trafficAggregates s \<noteq> []" using a by auto
qed

lemma initJob_cong: "st_trafficAggregates t = st_trafficAggregates s \<Longrightarrow> initJob j t = initJob j s"
  by (simp add: initJob_def LastRollupAt_def)

lemma coveredTo_cong: "st_trafficAggregates t = st_trafficAggregates s \<Longrightarrow> coveredTo j t = coveredTo j s"
  by (simp add: coveredTo_def aggregatesEnd_def LastRollupAt_def)

lemma repeatable_restart:
  assumes "histInv h floor kept hi s"
  shows "repeatable h floor kept (rj_lastRollupAt (initJob NewRollupJob s))"
  unfolding repeatable_def
proof (intro ballI impI)
  fix r assume r: "r \<in> set (fst h)" "floor \<le> al_CreatedAt r" "rj_lastRollupAt (initJob NewRollupJob s) \<le> al_CreatedAt r"
  show "al_ID r \<in> kept"
  proof (cases "al_CreatedAt r < hi")
    case True
    note counted = counted_before_end[OF assms r(1,2) True]
    have "normalRow r" using assms r(1) by (auto simp: histInv_def rollupInv_def list_all_iff)
    then have "zeroTime + hour \<le> al_CreatedAt r" by (simp add: normalRow_def)
    moreover have "aggregatesEnd s = LastRollupAt s + hour" using counted(2) by (simp add: aggregatesEnd_def)
    ultimately have "LastRollupAt s \<noteq> zeroTime" using counted(1) by linarith
    then have "rj_lastRollupAt (initJob NewRollupJob s) = aggregatesEnd s" using counted(2) by (simp add: initJob_def NewRollupJob_def aggregatesEnd_def)
    then show ?thesis using counted(1) r(3) by simp
  next
    case False
    then show ?thesis using assms r(1,2) by (simp add: histInv_def repeatable_def)
  qed
qed

lemma histInv_covered:
  assumes "histInv h floor kept hi s" "jobOK j" "rj_initialized j \<longrightarrow> rj_lastRollupAt j \<le> hi"
  shows "histInv h floor kept (max zeroTime (coveredTo j s)) s" "coveredTo j s \<le> hi"
proof -
  have f: "rollupInv floor hi (unpruned h s)" using assms(1) by (simp add: histInv_def)
  have cov: "coveredTo j (unpruned h s) = coveredTo j s" by (rule coveredTo_cong) simp
  show "coveredTo j s \<le> hi" using rollupInv_covered(2)[OF f assms(2)] assms(3) cov by simp
  have "repeatable h floor kept (max zeroTime (coveredTo j s))"
    unfolding repeatable_def
  proof (intro ballI impI)
    fix r assume r: "r \<in> set (fst h)" "floor \<le> al_CreatedAt r" "max zeroTime (coveredTo j s) \<le> al_CreatedAt r"
    have "\<not> al_CreatedAt r < hi" using counted_before_end(1)[OF assms(1) r(1,2)] r(3) by (auto simp: coveredTo_def)
    then show "al_ID r \<in> kept" using assms(1) r(1,2) by (simp add: histInv_def repeatable_def)
  qed
  then show "histInv h floor kept (max zeroTime (coveredTo j s)) s"
    using rollupInv_covered(1)[OF f assms(2)] assms(1,3) cov by (simp add: histInv_def)
qed

lemma schedInv_logged:
  assumes "schedInv h floor j s" "list_all (onTime (coveredTo j s)) events"
  shows "schedInv (recorded m events s h) floor j (snd (BatchInsert m events s))"
proof -
  obtain kept hi where inv: "jobOK j" "histInv h floor kept hi s" "rj_initialized j \<longrightarrow> rj_lastRollupAt j \<le> hi"
    "repeatable h floor kept (rj_lastRollupAt (initJob j s))" using assms(1) unfolding schedInv_def by blast
  let ?f = "unpruned h s" and ?hi = "max zeroTime (coveredTo j s)"
  have log: "logInv s" "logInv ?f" using inv(2) by (simp_all add: histInv_def rollupInv_def)
  have "knownContributor ?f = knownContributor s" "st_policies ?f = st_policies s" by (simp_all add: fun_eq_iff knownContributor_def unpruned_def)
  then have ins: "insertable m ?f = insertable m s" by (intro ext) (simp add: insertable_def)
  show ?thesis
  proof (cases "list_all (insertable m s) events")
    case False
    then have "BatchInsert m events s = (Inl DBError, s)" "BatchInsert m events ?f = (Inl DBError, ?f)"
      using BatchInsert_cases[OF log(1), of m events] BatchInsert_cases[OF log(2), of m events] by (simp_all add: ins)
    then show ?thesis using assms(1) by (simp add: recorded_def)
  next
    case True
    let ?t = "loggedBatch m events s" and ?u = "loggedBatch m events ?f"
    have tu: "snd (BatchInsert m events s) = ?t" "snd (BatchInsert m events ?f) = ?u"
      using BatchInsert_cases[OF log(1), of m events] BatchInsert_cases[OF log(2), of m events] True by (simp_all add: ins)
    have h': "recorded m events s h = (st_accessLog ?u, st_logGeoip ?u)" by (simp add: recorded_def tu Let_def)
    define h' where "h' = (st_accessLog ?u, st_logGeoip ?u)"
    define kept' where "kept' = kept \<union> {i. nextLogID ?f \<le> i}"
    have agg: "st_trafficAggregates ?t = st_trafficAggregates s" "st_trafficAggregates ?u = st_trafficAggregates s" by (simp_all add: loggedBatch_def appendRows_def)
    have hist: "set (fst h') = set (fst h) \<union> {logRow i (the (m (de_Headers e))) e |i e. (i, e) \<in> set (numbered (nextLogID ?f) events)}"
      by (auto simp: h'_def loggedBatch_def appendRows_def)
    have rep: "repeatable h' floor kept' from" if "repeatable h floor kept from" for "from"
      using that unfolding repeatable_def hist kept'_def by (auto simp: logRow_def dest: numbered_from)
    have hiInv: "histInv h floor kept ?hi s" by (rule histInv_covered(1)[OF inv(2,1,3)])
    have "list_all (onTime ?hi) events" using assms(2) less_imp_le[OF hour_pos(1)] by (fastforce simp: list_all_iff onTime_def)
    then have "rollupInv floor ?hi ?u" using rollupInv_logged[of floor ?hi ?f events m] hiInv by (simp add: histInv_def tu)
    moreover have "logInv ?t" "logInv ?u" using logInv_loggedBatch log by blast+
    moreover have "logInv (unpruned h' ?t)" using \<open>logInv ?u\<close> by (simp add: h'_def logInv_def)
    ultimately have "rollupInv floor ?hi (unpruned h' ?t)" "logInv ?t" by (auto intro: rollupInv_tables simp: h'_def agg)
    moreover have "keptRows kept' (unpruned h' ?t) ?t"
    proof -
      have "keptRows kept' ?u ?t" using hiInv by (intro keptRows_logged[OF _ log(2,1) kept'_def]) (simp add: histInv_def)
      moreover have "keptRows kept' (unpruned h' ?t) ?t = keptRows kept' ?u ?t" by (rule keptRows_cong) (simp_all add: h'_def)
      ultimately show ?thesis by simp
    qed
    moreover have "repeatable h' floor kept' ?hi" using hiInv by (intro rep) (simp add: histInv_def)
    ultimately have "histInv h' floor kept' ?hi ?t" unfolding histInv_def by blast
    moreover have "rj_initialized j \<longrightarrow> rj_lastRollupAt j \<le> ?hi" by (auto simp: coveredTo_def)
    ultimately show ?thesis using inv(1) rep[OF inv(4)] initJob_cong[OF agg(1), of j] unfolding h' tu h'_def[symmetric] schedInv_def by metis
  qed
qed

lemma schedInv_tables:
  assumes "schedInv h floor j s" "logInv t" "st_accessLog t = st_accessLog s" "st_logGeoip t = st_logGeoip s" "st_trafficAggregates t = st_trafficAggregates s"
  shows "schedInv h floor j t"
  using assms histInv_tables[OF _ assms(2-5)] initJob_cong[OF assms(5)] unfolding schedInv_def by metis

lemma schedInv_restarted: "schedInv h floor j s \<Longrightarrow> schedInv h floor NewRollupJob s"
  using repeatable_restart unfolding schedInv_def by (fastforce simp: jobOK_def NewRollupJob_def)

lemma catchUp_last:
  "catchUp tOk aOk cur from (j, s) = (r, j', t) \<Longrightarrow> rj_lastRollupAt j \<le> from \<Longrightarrow> rj_lastRollupAt j \<le> rj_lastRollupAt j'"
proof (induction tOk aOk cur "from" "(j, s)" arbitrary: j s rule: catchUp.induct)
  case (1 tOk aOk cur "from" j s)
  define to where "to = (if from + catchUpChunk > cur then cur else from + catchUpChunk)"
  show ?case
  proof (cases "from < cur \<and> tOk from \<and> aOk from")
    case True
    then have "from < to" by (auto simp: to_def catchUpChunk_def)
    moreover have "catchUp tOk aOk cur to (j\<lparr>rj_lastRollupAt := to\<rparr>, RunAttributionRollup from to (RunRollup from to s)) = (r, j', t)"
      using True "1.prems"(1) by (subst (asm) catchUp.simps) (simp add: Let_def to_def)
    moreover have "\<not> \<not> tOk from" "\<not> \<not> aOk from" using True by simp_all
    ultimately have "rj_lastRollupAt (j\<lparr>rj_lastRollupAt := to\<rparr>) \<le> rj_lastRollupAt j'" using "1.hyps"[OF conjunct1[OF True] to_def _ refl] by simp
    then show ?thesis using \<open>from < to\<close> "1.prems"(2) by simp
  next
    case False
    then have "j' = j" using "1.prems"(1) by (subst (asm) catchUp.simps) (auto simp: Let_def split: if_splits)
    then show ?thesis by simp
  qed
qed

lemma RunJob_last:
  assumes "RunJob tOk aOk now (j, s) = (r, j', t)" "zeroTime \<le> now"
  shows "rj_lastRollupAt (initJob j s) \<le> rj_lastRollupAt j'"
proof -
  let ?j = "initJob j s" and ?e = "hourOf (EarliestAccessLogAt s)"
  define f0 where "f0 = (if rj_lastRollupAt ?j < ?e then ?e else rj_lastRollupAt ?j)"
  have cur: "zeroTime \<le> hourOf now" using assms(2) aligned_le(1)[OF aligned_zero] by simp
  consider "j' = ?j" | "rj_lastRollupAt ?j \<le> hourOf now" "j' = ?j\<lparr>rj_lastRollupAt := hourOf now\<rparr>" | "catchUp tOk aOk (hourOf now) f0 (?j, s) = (r, j', t)"
    using assms(1) cur unfolding RunJob_def prod.case Let_def f0_def by (force split: if_splits)
  then show ?thesis by cases (auto simp: f0_def dest!: catchUp_last)
qed

lemma runPrunes_keeps:
  "(\<And>stmt f s. (stmt, f) \<in> set fs \<Longrightarrow> P s \<Longrightarrow> P (f s)) \<Longrightarrow> P s \<Longrightarrow> P (snd (runPrunes ok fs s))"
  by (induction ok fs s rule: runPrunes.induct) (simp_all, blast)

lemma daysBefore_le: "0 < d \<Longrightarrow> daysBefore d now \<le> hourOf now"
proof -
  assume "0 < d"
  then have "24 * hour \<le> d * (24 * hour)" by simp
  then show ?thesis using hourOf_le(2)[of now] hour_pos(1) unfolding daysBefore_def by linarith
qed

lemma RunRetention_keeps:
  assumes inv: "histInv h floor kept hi s" and edge: "hourOf now \<le> done_to" "done_to \<le> hi" "repeatable h floor kept done_to"
    and run: "RunRetention ok now (j, s) = (r, j', t)"
  shows "\<exists>kept'. histInv h (aggregateFloor j now floor) kept' hi t \<and> repeatable h (aggregateFloor j now floor) kept' done_to"
proof -
  let ?F = "aggregateFloor j now floor"
  let ?P = "\<lambda>s. \<exists>kept'. histInv h ?F kept' hi s \<and> repeatable h ?F kept' done_to"
  have F: "floor \<le> ?F" "aligned ?F" using inv by (auto simp: aggregateFloor_def histInv_def rollupInv_def ceilHour_def max_def)
  have start: "?P s" using histInv_floor[OF inv F] repeatable_floor[OF edge(3) F(1)] by blast
  have tables: "?P u" if "?P v" "logTables u = logTables v" for u v using that histInv_logTables by blast
  have step: "?P (f v)" if f: "(stmt, f) \<in> set (pruneStatements j now)" and v: "?P v" for stmt f v
  proof -
    obtain kept' where k: "histInv h ?F kept' hi v" "repeatable h ?F kept' done_to" using v by blast
    consider (log) "0 < rt_retentionDays j" "f = (\<lambda>s. snd (DeleteOlderThan (daysBefore (rt_retentionDays j) now) s))"
      | (events) "f = (\<lambda>s. snd (DeleteAddressEventsOlderThan (daysBefore (rt_retentionDays j) now) s))"
      | (aggregates) "0 < rt_aggregateRetentionDays j" "f = (\<lambda>s. snd (DeleteAggregatesOlderThan (daysBefore (rt_aggregateRetentionDays j) now) s))"
      | (attribution) "f = (\<lambda>s. snd (DeleteAttributionAggregatesOlderThan (daysBefore (rt_aggregateRetentionDays j) now) s))"
      using f by (auto simp: pruneStatements_def split: if_splits)
    then show ?thesis
    proof cases
      case log
      have "daysBefore (rt_retentionDays j) now \<le> done_to" using daysBefore_le[OF log(1), of now] edge(1) by linarith
      from histInv_pruned[OF k this edge(2) refl] show ?thesis unfolding log(2) by blast
    next
      case events
      show ?thesis unfolding events by (rule tables[OF v]) (simp add: DeleteAddressEventsOlderThan_def logTables_def)
    next
      case aggregates
      have "max ?F (ceilHour (daysBefore (rt_aggregateRetentionDays j) now)) = ?F" using aggregates(1) by (simp add: aggregateFloor_def)
      then show ?thesis using histInv_aggregatesPruned[OF k(1), of "daysBefore (rt_aggregateRetentionDays j) now"] k(2) unfolding aggregates(2) by auto
    next
      case attribution
      show ?thesis unfolding attribution by (rule tables[OF v]) (simp add: DeleteAttributionAggregatesOlderThan_def logTables_def)
    qed
  qed
  have "?P (snd (runPrunes ok (pruneStatements j now) s))" by (rule runPrunes_keeps[where P = ?P]) (use step start in blast)+
  then show ?thesis using run start by (auto simp: RunRetention_def Let_def split: if_splits prod.splits sum.splits)
qed

lemma schedInv_pass:
  assumes inv: "schedInv h floor (sw_rollup w) (sw_store w)" and now: "zeroTime \<le> now" and run: "ExecuteScheduledRules (appJobs fl now) w = (r, w')"
  shows "schedInv h (aggregateFloor (sw_retention w) now floor) (sw_rollup w') (sw_store w')" "r = Inr () \<Longrightarrow> hourOf now \<le> coveredTo (sw_rollup w') (sw_store w')"
proof -
  let ?F = "aggregateFloor (sw_retention w) now floor"
  have F: "floor \<le> ?F" "aligned floor \<Longrightarrow> aligned ?F" by (auto simp: aggregateFloor_def ceilHour_def max_def)
  have raise: "schedInv h ?F j s" if up: "schedInv h floor j s" for j s
  proof -
    obtain kept hi where k: "jobOK j" "histInv h floor kept hi s" "rj_initialized j \<longrightarrow> rj_lastRollupAt j \<le> hi" "repeatable h floor kept (rj_lastRollupAt (initJob j s))"
      using up unfolding schedInv_def by blast
    then have "aligned floor" by (simp add: histInv_def rollupInv_def)
    then show ?thesis using k histInv_floor[OF k(2) F(1)] repeatable_floor[OF k(4) F(1)] F(2) unfolding schedInv_def by blast
  qed
  obtain r1 w1 where e: "expiryJob fl now w = (r1, w1)" by fastforce
  have same1: "sw_rollup w1 = sw_rollup w" "sw_retention w1 = sw_retention w" "logTables (sw_store w1) = logTables (sw_store w)"
    using e ExpiryJob_tables[of now "sw_store w"] by (auto simp: expiryJob_def split: if_splits prod.splits)
  have log: "logInv (sw_store w)" using inv by (auto simp: schedInv_def histInv_def)
  have inv1: "schedInv h floor (sw_rollup w1) (sw_store w1)" unfolding same1(1)
    by (rule schedInv_tables[OF inv]) (use log same1(3) in \<open>simp_all add: logTables_def logInv_def\<close>)
  then obtain kept hi where k: "jobOK (sw_rollup w1)" "histInv h floor kept hi (sw_store w1)" "rj_initialized (sw_rollup w1) \<Longrightarrow> rj_lastRollupAt (sw_rollup w1) \<le> hi"
    "repeatable h floor kept (rj_lastRollupAt (initJob (sw_rollup w1) (sw_store w1)))" unfolding schedInv_def by blast
  obtain r2 j2 s2 where ru: "RunJob (fl_trafficOk fl) (fl_attributionOk fl) now (sw_rollup w1, sw_store w1) = (r2, j2, s2)" by (metis prod.exhaust)
  from history_cover.RunJob_covers[OF ru k(2,1,3,4)] obtain hi' where hi': "hi \<le> hi'" "histInv h floor kept hi' s2" "rj_initialized j2"
    "aligned (rj_lastRollupAt j2)" "rj_lastRollupAt j2 \<le> hi'" "r2 = Inr () \<longrightarrow> hourOf now \<le> rj_lastRollupAt j2" by blast
  have rep2: "repeatable h floor kept (rj_lastRollupAt j2)" using history_cover.U_mono[OF k(4) RunJob_last[OF ru now]] .
  have j2: "jobOK j2" "initJob j2 s = j2" for s using hi'(3,4) by (simp_all add: jobOK_def initJob_def)
  have inv2: "schedInv h floor j2 s2" using hi' rep2 j2 unfolding schedInv_def by auto
  obtain r3 j3 s3 where rt: "RunRetention (fl_pruneOk fl) now (sw_retention w1, s2) = (r3, j3, s3)" by (metis prod.exhaust)
  have all: "(r, w') = (case r1 of Inl x \<Rightarrow> (Inl x, w1) | Inr _ \<Rightarrow> (case r2 of Inl x \<Rightarrow> (Inl x, w1\<lparr>sw_store := s2, sw_rollup := j2\<rparr>)
      | Inr _ \<Rightarrow> (case r3 of Inl x \<Rightarrow> Inl x | Inr _ \<Rightarrow> Inr (), w1\<lparr>sw_store := s3, sw_rollup := j2, sw_retention := j3\<rparr>)))"
    unfolding run[symmetric] appJobs_def using e ru rt by (simp add: rollupJob_def retentionJob_def split: sum.splits)
  show "schedInv h ?F (sw_rollup w') (sw_store w')"
  proof (cases r1)
    case (Inl x)
    then show ?thesis using all raise[OF inv1] by simp
  next
    case (Inr u1)
    show ?thesis
    proof (cases r2)
      case (Inl x)
      then show ?thesis using all Inr raise[OF inv2] by simp
    next
      case u2: (Inr u2)
      then have "hourOf now \<le> rj_lastRollupAt j2" using hi'(6) by simp
      from RunRetention_keeps[OF hi'(2) this hi'(5) rep2 rt] obtain kept' where "histInv h ?F kept' hi' s3" "repeatable h ?F kept' (rj_lastRollupAt j2)"
        unfolding same1(2) by blast
      then have "schedInv h ?F j2 s3" using j2 hi'(5) unfolding schedInv_def by auto
      then show ?thesis using all Inr u2 by simp
    qed
  qed
  show "hourOf now \<le> coveredTo (sw_rollup w') (sw_store w')" if "r = Inr ()"
  proof -
    have "r2 = Inr ()" "sw_rollup w' = j2" using all that by (auto split: sum.splits)
    then show ?thesis using hi'(3,6) by (simp add: coveredTo_def)
  qed
qed

lemma schedReach_inv: "schedReach h floor w \<Longrightarrow> schedInv h floor (sw_rollup w) (sw_store w)"
proof (induction rule: schedReach.induct)
  case (start days aggregateDays)
  have "rollupInv zeroTime zeroTime emptyStore" by (simp add: rollupInv_def) (simp add: emptyStore_def rowsBetween_def)
  moreover have "unpruned ([], []) emptyStore = emptyStore" by (simp add: unpruned_def emptyStore_def)
  ultimately have "histInv ([], []) zeroTime {} zeroTime emptyStore" by (simp add: histInv_def repeatable_def keptRows_def rollupInv_def) (simp add: emptyStore_def)
  then show ?case by (auto simp: schedInv_def jobOK_def NewRollupJob_def repeatable_def)
next
  case (logged h floor w events marshal)
  then show ?case by (simp add: schedInv_logged)
next
  case (pass h floor w now fl r w')
  then show ?case by (blast intro: schedInv_pass)
next
  case (restarted h floor w days aggregateDays)
  then show ?case by (simp add: schedInv_restarted)
next
  case (changed h floor w t)
  then show ?case by (simp add: schedInv_tables)
qed

section \<open>The figures of the whole history\<close>

lemma aggregate_figures_unpruned:
  "getAggregateSummaryStats from to (unpruned h s) = getAggregateSummaryStats from to s"
  "getAggregateServiceSplit from to (unpruned h s) = getAggregateServiceSplit from to s"
  "getAggregateTopDeniedIPs from to limit (unpruned h s) = getAggregateTopDeniedIPs from to limit s"
  "getAggregateTrafficSeries from to g (unpruned h s) = getAggregateTrafficSeries from to g s"
  by (simp_all add: getAggregateSummaryStats_def getAggregateServiceSplit_def getAggregateTopDeniedIPs_def getAggregateTrafficSeries_def aggregatesBetween_def)

text \<open>C27 (safety). Retention never loses a count: in every state that the system reaches through batches that arrive on time, passes of the
  scheduler in which any statement may fail, restarts with any settings and any other change of the other tables, the figures of the
  hourly aggregates are those of the whole history of the log, with all that retention has pruned, over every window on the hour that is
  covered and whose aggregates are kept. A pass stops at a failing rollup, so the log is pruned only after it was counted, and a pass
  that ends without an error has covered every hour before the current one.\<close>

theorem retention_keeps_figures:
  assumes "schedReach h floor w" "aligned from" "aligned to" "floor \<le> from" "to \<le> coveredTo (sw_rollup w) (sw_store w)" "g = GranularityHour \<or> g = GranularityDay"
  shows "getAggregateSummaryStats from to (sw_store w) = getRawSummaryStats from to (unpruned h (sw_store w)) \<and>
    getAggregateServiceSplit from to (sw_store w) = getRawServiceSplit from to (unpruned h (sw_store w)) \<and>
    getAggregateTopDeniedIPs from to limit (sw_store w) = getRawTopDeniedIPs from to limit (unpruned h (sw_store w)) \<and>
    getAggregateTrafficSeries from to g (sw_store w) = getRawTrafficSeries from to g (unpruned h (sw_store w)) \<and>
    (zeroTime \<le> now \<and> ExecuteScheduledRules (appJobs fl now) w = (Inr (), w') \<longrightarrow> hourOf now \<le> coveredTo (sw_rollup w') (sw_store w'))"
proof -
  let ?f = "unpruned h (sw_store w)"
  have inv: "schedInv h floor (sw_rollup w) (sw_store w)" by (rule schedReach_inv[OF assms(1)])
  then obtain kept hi where k: "jobOK (sw_rollup w)" "histInv h floor kept hi (sw_store w)" "rj_initialized (sw_rollup w) \<longrightarrow> rj_lastRollupAt (sw_rollup w) \<le> hi"
    unfolding schedInv_def by blast
  have "to \<le> hi" using histInv_covered(2)[OF k(2,1,3)] assms(5) by simp
  then have st: "standsFor ?f (aggregatesBetween from to ?f) (rowsBetween from to ?f)" using k(2) by (intro covered_standsFor[OF _ assms(2-4)]) (simp_all add: histInv_def)
  have "hourOf now \<le> coveredTo (sw_rollup w') (sw_store w')" if "zeroTime \<le> now" "ExecuteScheduledRules (appJobs fl now) w = (Inr (), w')"
    by (rule schedInv_pass(2)[OF inv that refl])
  then show ?thesis
    using summary_agrees[OF st] services_agree[OF st] topDenied_agrees[OF st] series_agrees[OF st assms(6)] unfolding aggregate_figures_unpruned by blast
qed

text \<open>A request of the first hour, counted and pruned 40 days later with a retention of 30 days.\<close>

definition noFailures :: failures where
  "noFailures = \<lparr>fl_expiry = False, fl_trafficOk = (\<lambda>_. True), fl_attributionOk = (\<lambda>_. True), fl_pruneOk = (\<lambda>_. True)\<rparr>"

definition freshWorld :: schedWorld where
  "freshWorld = \<lparr>sw_store = emptyStore, sw_rollup = NewRollupJob, sw_retention = NewRetentionJob 30 0, sw_notices = []\<rparr>"

definition prunedWorld :: schedWorld where
  "prunedWorld = snd (ExecuteScheduledRules (appJobs noFailures (960 * hour)) (freshWorld\<lparr>sw_store := snd (BatchInsert plainHeaders [sampleEvent] emptyStore)\<rparr>))"

theorem retention_keeps_figures_witness:
  "st_accessLog (sw_store prunedWorld) = [] \<and> ss_TotalRequests (getAggregateSummaryStats 0 hour (sw_store prunedWorld)) = 1"
proof -
  let ?h = "recorded plainHeaders [sampleEvent] emptyStore ([], [])"
  have "schedReach ([], []) zeroTime freshWorld" unfolding freshWorld_def by (rule schedReach.start)
  moreover have "list_all (onTime (coveredTo (sw_rollup freshWorld) (sw_store freshWorld))) [sampleEvent]" by code_simp
  ultimately have "schedReach ?h zeroTime (freshWorld\<lparr>sw_store := snd (BatchInsert plainHeaders [sampleEvent] emptyStore)\<rparr>)"
    using schedReach.logged[of "([], [])" zeroTime freshWorld "[sampleEvent]" plainHeaders] by (simp add: freshWorld_def)
  moreover have "zeroTime \<le> 960 * hour" by code_simp
  ultimately have "schedReach ?h (aggregateFloor (sw_retention freshWorld) (960 * hour) zeroTime) prunedWorld"
    unfolding prunedWorld_def by (auto dest: schedReach.pass[where fl = noFailures and now = "960 * hour"] simp: prod_eq_iff)
  then have reach: "schedReach ?h zeroTime prunedWorld" by (simp add: aggregateFloor_def freshWorld_def NewRetentionJob_def)
  have al: "aligned 0" "aligned hour" "zeroTime \<le> 0" "hour \<le> coveredTo (sw_rollup prunedWorld) (sw_store prunedWorld)" by code_simp+
  have "ss_TotalRequests (getRawSummaryStats 0 hour (unpruned ?h (sw_store prunedWorld))) = 1" by code_simp
  then have "ss_TotalRequests (getAggregateSummaryStats 0 hour (sw_store prunedWorld)) = 1"
    using retention_keeps_figures[OF reach al, of GranularityHour] by simp
  moreover have "st_accessLog (sw_store prunedWorld) = []" by code_simp
  ultimately show ?thesis by simp
qed

end
