(* ===== verification/Policy_User_View.thy ===== *)
theory Policy_User_View
  imports Policy_Access Device_Access Access_Log Timebucket "HOL-Library.Product_Lexorder"
begin

text \<open>
  The policy audit by user (\<open>src/internal/policy/policy_user_view.go\<close>, \<open>src/internal/httpapi/geo.go\<close>): the
  snapshot of the cache, the metadata of the addresses and the list of users are folded into one entry
  per user with the addresses, the hosts that the user reaches from each and the users who share it.

  Go's maps are association lists in the order of insertion; where the code iterates over a map, the
  result does not depend on the order (it sorts, counts or takes a maximum), except for the host list
  of a user, which is read from any cell of the user and is the same in all cells of a cache that
  \<open>buildIPSet\<close> has built. The response types are those of \<open>openapi.yaml\<close>.
\<close>

section \<open>Types\<close>

record policyAuditUserRow =
  au_UserID :: id
  au_UserName :: string
  au_Username :: string
  au_IsAdmin :: bool
  au_BypassAllowlist :: bool

record policyEnrichmentRow =
  en_AddressID :: id
  en_AddressUpdatedAt :: time
  en_DeviceName :: string

type_synonym enrichment = "id \<rightharpoonup> policyEnrichmentRow"

record PolicyUserAddress =
  pa_AddressId :: id
  pa_DeviceId :: id
  pa_DeviceName :: string
  pa_UpdatedAt :: time

record ipBucket =
  entryBypass :: bool
  entryAllowedHosts :: "string list"
  userBypass :: bool
  userAllowedHosts :: "string list"
  addresses :: "PolicyUserAddress list"

type_synonym ipMap = "(string \<times> ipBucket) list"
type_synonym userIPIndex = "(id \<times> ipMap) list"
type_synonym ipUsersIndex = "(string \<times> id set) list"

datatype PolicyUserStatus = Bypass | LiveWithAccess | LiveNoHostAccess | NoLiveIps | NoAccess

record GeoInfo =
  gi_CountryCode :: "string option"
  gi_CountryName :: "string option"
  gi_ContinentCode :: "string option"
  gi_Asn :: "int option"
  gi_AsnOrg :: "string option"

type_synonym PolicyIPDevice = "id \<times> string"

record PolicyUserIPSharedUser =
  sh_UserId :: id
  sh_Username :: string
  sh_UserName :: string
  sh_Devices :: "PolicyIPDevice list"

record PolicyUserIP =
  pi_Ip :: string
  pi_SharedWithUsers :: "PolicyUserIPSharedUser list"
  pi_BypassAtIp :: bool
  pi_EffectiveHosts :: "string list"
  pi_TrimmedHosts :: "string list"
  pi_Addresses :: "PolicyUserAddress list"
  pi_Geo :: "GeoInfo option"

record PolicyUserEntry =
  pu_UserId :: id
  pu_DisplayName :: string
  pu_IsAdmin :: bool
  pu_BypassAllowlist :: bool
  pu_Status :: PolicyUserStatus
  pu_OnSharedIp :: bool
  pu_DeviceCount :: nat
  pu_IpCount :: nat
  pu_AllowedHostCount :: nat
  pu_LastSeenAt :: "time option"
  pu_UserAllowedHosts :: "string list"
  pu_Ips :: "PolicyUserIP list"

record PolicyNetworkPolicyEntry =
  pn_PolicyId :: id
  pn_PolicyName :: string
  pn_Cidr :: string
  pn_Enabled :: bool
  pn_BypassHostCheck :: bool
  pn_EffectiveHostCount :: nat

record PolicyUserMapAudit =
  ad_RefreshedAt :: time
  ad_RefreshDurationMs :: int
  ad_TotalIpCount :: nat
  ad_TotalDeviceCount :: nat
  ad_TotalHostCount :: nat
  ad_SharedIpCount :: nat
  ad_Users :: "PolicyUserEntry list"
  ad_NetworkPolicies :: "PolicyNetworkPolicyEntry list"
  ad_TotalNetworkPolicyCount :: nat

section \<open>The two indexes\<close>

text \<open>Reading a missing key of a map gives the zero value.\<close>

definition valueOr :: "'a \<Rightarrow> 'a option \<Rightarrow> 'a" where
  "valueOr zero x = (case x of None \<Rightarrow> zero | Some v \<Rightarrow> v)"

definition contributorStep ::
  "enrichment \<Rightarrow> PolicyMapEntry \<Rightarrow> ContributorAccess \<Rightarrow> userIPIndex \<times> ipUsersIndex \<Rightarrow> userIPIndex \<times> ipUsersIndex" where
  "contributorStep addressEnrichment entry c idx =
    (case idx of (byUser, usersAtIP) \<Rightarrow>
     case addressEnrichment (ca_AddressID c) of None \<Rightarrow> (byUser, usersAtIP)
     | Some meta \<Rightarrow>
       let ip = pm_IP entry;
           userID = ca_UserID c;
           usersAtIP' = AList.update ip (insert userID (valueOr {} (map_of usersAtIP ip))) usersAtIP;
           cells = valueOr [] (map_of byUser userID);
           bucket = valueOr \<lparr>entryBypass = pm_BypassAllowlist entry, entryAllowedHosts = pm_AllowedHosts entry,
             userBypass = ca_UserBypass c, userAllowedHosts = ca_UserAllowedHosts c, addresses = []\<rparr> (map_of cells ip);
           addr = \<lparr>pa_AddressId = ca_AddressID c, pa_DeviceId = ca_DeviceID c, pa_DeviceName = en_DeviceName meta,
             pa_UpdatedAt = en_AddressUpdatedAt meta\<rparr>;
           bucket' = bucket\<lparr>addresses := addresses bucket @ [addr]\<rparr>
       in (AList.update userID (AList.update ip bucket' cells) byUser, usersAtIP'))"

definition entryStep :: "enrichment \<Rightarrow> PolicyMapEntry \<Rightarrow> userIPIndex \<times> ipUsersIndex \<Rightarrow> userIPIndex \<times> ipUsersIndex" where
  "entryStep addressEnrichment entry idx =
    (case idx of (byUser, usersAtIP) \<Rightarrow>
     let ip = pm_IP entry;
         usersAtIP' = (if map_of usersAtIP ip = None then AList.update ip {} usersAtIP else usersAtIP)
     in fold (contributorStep addressEnrichment entry) (pm_Contributors entry) (byUser, usersAtIP'))"

definition buildIPIndex :: "PolicyMapSnapshot \<Rightarrow> enrichment \<Rightarrow> userIPIndex \<times> ipUsersIndex" where
  "buildIPIndex snap addressEnrichment = fold (entryStep addressEnrichment) (sn_Entries snap) ([], [])"

section \<open>Assembling the view\<close>

definition DeriveUserStatus :: "bool \<Rightarrow> nat \<Rightarrow> nat \<Rightarrow> PolicyUserStatus" where
  "DeriveUserStatus bypass ipCount allowedHostCount =
    (if bypass then Bypass
     else let hasLiveIPs = ipCount > 0; hasHostGrants = allowedHostCount > 0 in
       if hasLiveIPs \<and> hasHostGrants then LiveWithAccess
       else if hasLiveIPs \<and> \<not> hasHostGrants then LiveNoHostAccess
       else if \<not> hasLiveIPs \<and> hasHostGrants then NoLiveIps
       else NoAccess)"

definition countDistinctDevices :: "ipMap \<Rightarrow> nat" where
  "countDistinctDevices cells = card (\<Union>(ip, b) \<in> set cells. pa_DeviceId ` set (addresses b))"

definition anySharedIP :: "PolicyUserIP list \<Rightarrow> bool" where
  "anySharedIP ips = list_ex (\<lambda>ip. length (pi_SharedWithUsers ip) > 0) ips"

definition maxLastSeenAt :: "ipMap \<Rightarrow> time option" where
  "maxLastSeenAt cells =
    (let m = fold (\<lambda>(ip, b). fold (\<lambda>addr m. if pa_UpdatedAt addr > m then pa_UpdatedAt addr else m) (addresses b)) cells zeroTime
     in if m = zeroTime then None else Some m)"

text \<open>The devices of another user at an address: one entry per device, sorted by id.\<close>

definition deviceStep :: "PolicyUserAddress \<Rightarrow> id set \<times> PolicyIPDevice list \<Rightarrow> id set \<times> PolicyIPDevice list" where
  "deviceStep addr st = (case st of (seen, devices) \<Rightarrow>
     if pa_DeviceId addr \<in> seen then (seen, devices)
     else (insert (pa_DeviceId addr) seen, devices @ [(pa_DeviceId addr, pa_DeviceName addr)]))"

definition sharedDevices :: "ipBucket option \<Rightarrow> PolicyIPDevice list" where
  "sharedDevices otherBucket = (case otherBucket of None \<Rightarrow> []
     | Some b \<Rightarrow> sort_key fst (snd (fold deviceStep (addresses b) ({}, []))))"

definition zeroUserRow :: policyAuditUserRow where
  "zeroUserRow = \<lparr>au_UserID = 0, au_UserName = [], au_Username = [], au_IsAdmin = False, au_BypassAllowlist = False\<rparr>"

definition cellOf :: "userIPIndex \<Rightarrow> id \<Rightarrow> string \<Rightarrow> ipBucket option" where
  "cellOf byUser uid ip = map_of (valueOr [] (map_of byUser uid)) ip"

definition sharedUser :: "userIPIndex \<Rightarrow> (id \<rightharpoonup> policyAuditUserRow) \<Rightarrow> string \<Rightarrow> id \<Rightarrow> PolicyUserIPSharedUser" where
  "sharedUser byUser userInfoByID ip uid =
    (let info = valueOr zeroUserRow (userInfoByID uid) in
     \<lparr>sh_UserId = uid, sh_Username = au_Username info, sh_UserName = au_UserName info,
      sh_Devices = sharedDevices (cellOf byUser uid ip)\<rparr>)"

definition buildUserIP ::
  "id \<Rightarrow> ipUsersIndex \<Rightarrow> userIPIndex \<Rightarrow> (id \<rightharpoonup> policyAuditUserRow) \<Rightarrow> string \<times> ipBucket \<Rightarrow> PolicyUserIP" where
  "buildUserIP userID usersAtIP byUser userInfoByID cell = (case cell of (ip, bucket) \<Rightarrow>
     let sharedUserIDs = sorted_list_of_set {uid \<in> valueOr {} (map_of usersAtIP ip). uid \<noteq> userID};
         unrestricted = userBypass bucket \<or> entryBypass bucket
     in \<lparr>pi_Ip = ip, pi_SharedWithUsers = map (sharedUser byUser userInfoByID ip) sharedUserIDs,
         pi_BypassAtIp = entryBypass bucket,
         pi_EffectiveHosts = (if unrestricted then [] else Intersect (userAllowedHosts bucket) (entryAllowedHosts bucket)),
         pi_TrimmedHosts = (if unrestricted then [] else Diff (userAllowedHosts bucket) (entryAllowedHosts bucket)),
         pi_Addresses = sort_key pa_AddressId (addresses bucket), pi_Geo = None\<rparr>)"

definition buildUserIPs ::
  "id \<Rightarrow> ipMap \<Rightarrow> ipUsersIndex \<Rightarrow> userIPIndex \<Rightarrow> (id \<rightharpoonup> policyAuditUserRow) \<Rightarrow> PolicyUserIP list" where
  "buildUserIPs userID cells usersAtIP byUser userInfoByID =
    map (\<lambda>ip. buildUserIP userID usersAtIP byUser userInfoByID (ip, the (map_of cells ip))) (sort (map fst cells))"

text \<open>The entry of one user, with the hosts that it adds to the union of all users.\<close>

definition userEntry ::
  "userIPIndex \<Rightarrow> ipUsersIndex \<Rightarrow> (id \<rightharpoonup> policyAuditUserRow) \<Rightarrow> (id \<Rightarrow> string list) \<Rightarrow> policyAuditUserRow
   \<Rightarrow> string list \<times> PolicyUserEntry" where
  "userEntry byUser usersAtIP userInfoByID allowedHostsByUser ur =
    (let userID = au_UserID ur;
         present = map_of byUser userID;
         hosts0 = (case present of Some cells \<Rightarrow> (case cells of [] \<Rightarrow> [] | (ip, b) # _ \<Rightarrow> userAllowedHosts b)
                   | None \<Rightarrow> allowedHostsByUser userID);
         allowedHostCount = (if au_BypassAllowlist ur then 0 else length hosts0);
         userHosts = (if au_BypassAllowlist ur then [] else hosts0)
     in (hosts0, case present of
       None \<Rightarrow> \<lparr>pu_UserId = userID, pu_DisplayName = au_UserName ur, pu_IsAdmin = au_IsAdmin ur,
         pu_BypassAllowlist = au_BypassAllowlist ur,
         pu_Status = DeriveUserStatus (au_BypassAllowlist ur) 0 allowedHostCount, pu_OnSharedIp = False,
         pu_DeviceCount = 0, pu_IpCount = 0, pu_AllowedHostCount = allowedHostCount, pu_LastSeenAt = None,
         pu_UserAllowedHosts = userHosts, pu_Ips = []\<rparr>
     | Some cells \<Rightarrow>
         let ips = buildUserIPs userID cells usersAtIP byUser userInfoByID in
         \<lparr>pu_UserId = userID, pu_DisplayName = au_UserName ur, pu_IsAdmin = au_IsAdmin ur,
         pu_BypassAllowlist = au_BypassAllowlist ur,
         pu_Status = DeriveUserStatus (au_BypassAllowlist ur) (length ips) allowedHostCount,
         pu_OnSharedIp = anySharedIP ips, pu_DeviceCount = countDistinctDevices cells, pu_IpCount = length ips,
         pu_AllowedHostCount = allowedHostCount, pu_LastSeenAt = maxLastSeenAt cells,
         pu_UserAllowedHosts = userHosts, pu_Ips = ips\<rparr>))"

definition assemblePolicyUserMap ::
  "PolicyMapSnapshot \<Rightarrow> enrichment \<Rightarrow> policyAuditUserRow list \<Rightarrow> (id \<Rightarrow> string list) \<Rightarrow> PolicyUserMapAudit" where
  "assemblePolicyUserMap snap addressEnrichment allUsers allowedHostsByUser =
    (let idx = buildIPIndex snap addressEnrichment;
         byUser = fst idx;
         usersAtIP = snd idx;
         userInfoByID = foldl (\<lambda>m ur. m(au_UserID ur \<mapsto> ur)) Map.empty allUsers;
         entries = map (userEntry byUser usersAtIP userInfoByID allowedHostsByUser) allUsers
     in \<lparr>ad_RefreshedAt = sn_LastRefreshedAt snap, ad_RefreshDurationMs = sn_LastRefreshDurationMs snap,
         ad_TotalIpCount = length usersAtIP, ad_TotalDeviceCount = sum_list (map (pu_DeviceCount \<circ> snd) entries),
         ad_TotalHostCount = card (set (concat (map fst entries))),
         ad_SharedIpCount = length (filter (\<lambda>(ip, uids). card uids \<ge> 2) usersAtIP),
         ad_Users = map snd entries, ad_NetworkPolicies = [], ad_TotalNetworkPolicyCount = 0\<rparr>)"

section \<open>Geo data\<close>

definition GeoInfoFromResult :: "GeoResult \<Rightarrow> GeoInfo option" where
  "GeoInfoFromResult r = (if GeoIsEmpty r then None
     else Some \<lparr>gi_CountryCode = nilIfEmpty (geo_CountryCode r), gi_CountryName = nilIfEmpty (geo_CountryName r),
       gi_ContinentCode = nilIfEmpty (geo_ContinentCode r),
       gi_Asn = (if geo_ASN r \<noteq> 0 then Some (int (geo_ASN r)) else None), gi_AsnOrg = nilIfEmpty (geo_ASNOrg r)\<rparr>)"

definition enrichGeo :: "(string \<Rightarrow> GeoResult) option \<Rightarrow> PolicyUserIP list \<Rightarrow> PolicyUserIP list" where
  "enrichGeo geo ips = (case geo of None \<Rightarrow> ips
     | Some resolve \<Rightarrow> map (\<lambda>p. p\<lparr>pi_Geo := GeoInfoFromResult (resolve (pi_Ip p))\<rparr>) ips)"

section \<open>Queries\<close>

definition getPolicyAddressEnrichment :: "id list \<Rightarrow> enrichment op" where
  "getPolicyAddressEnrichment addressIDs =
    (if addressIDs = [] then ret Map.empty
     else get (\<lambda>s. foldl (\<lambda>m row. m(en_AddressID row \<mapsto> row)) Map.empty
       (concat (map (\<lambda>a. map (\<lambda>d. \<lparr>en_AddressID = a_ID a, en_AddressUpdatedAt = a_UpdatedAt a, en_DeviceName = d_Name d\<rparr>)
          (filter (\<lambda>d. d_ID d = a_DeviceID a) (st_devices s))) (filter (\<lambda>a. a_ID a \<in> set addressIDs) (st_addresses s))))))"

definition auditUserRow :: "store \<Rightarrow> User \<Rightarrow> policyAuditUserRow" where
  "auditUserRow s u = \<lparr>au_UserID = u_ID u, au_UserName = u_DisplayName u, au_Username = u_Username u,
     au_IsAdmin = (u_Role u = AdminRole \<or> u_Role u = SuperAdminRole),
     au_BypassAllowlist = (case List.find (\<lambda>r. us_UserID r = u_ID u) (st_userSettings s) of
       None \<Rightarrow> False | Some r \<Rightarrow> us_BypassHostCheck r)\<rparr>"

definition getAllUsersForPolicyAudit :: "(policyAuditUserRow list \<times> (id \<Rightarrow> string list)) op" where
  "getAllUsersForPolicyAudit = get (\<lambda>s.
    (map (auditUserRow s) (sort_key (\<lambda>u. (u_DisplayName u, u_ID u)) (filter (\<lambda>u. u_DeletedAt u = None) (st_users s))),
     \<lambda>uid. map ug_FQDN (filter (\<lambda>g. ug_UserID g = uid) (sort_key (\<lambda>g. (ug_UserID g, ug_FQDN g)) (userGrants s)))))"

definition collectAddressIDs :: "PolicyMapSnapshot \<Rightarrow> id list" where
  "collectAddressIDs snap = Dedup (concat (map (\<lambda>e. map ca_AddressID (pm_Contributors e)) (sn_Entries snap)))"

definition policyEntryOf :: "nat \<Rightarrow> CacheEntry \<Rightarrow> PolicyNetworkPolicyEntry" where
  "policyEntryOf totalHostCount e = \<lparr>pn_PolicyId = ce_PolicyID e, pn_PolicyName = ce_PolicyName e, pn_Cidr = ce_CIDR e,
     pn_Enabled = True, pn_BypassHostCheck = ce_BypassHostCheck e,
     pn_EffectiveHostCount = (if ce_BypassHostCheck e then totalHostCount else length (ce_AllowedHostFQDNs e))\<rparr>"

definition BuildPolicyUserMap ::
  "policyService \<Rightarrow> CacheEntry list op option \<Rightarrow> (string \<Rightarrow> GeoResult) option \<Rightarrow> PolicyUserMapAudit op" where
  "BuildPolicyUserMap svc npProvider geo =
    (let snap = GetPolicyMap svc in
     andThen (getPolicyAddressEnrichment (collectAddressIDs snap)) (\<lambda>addrEnrichment.
     andThen getAllUsersForPolicyAudit (\<lambda>(allUsers, allowedHostsByUser).
     andThen (case npProvider of None \<Rightarrow> ret [] | Some provider \<Rightarrow> provider) (\<lambda>npEntries.
     let audit = assemblePolicyUserMap snap addrEnrichment allUsers allowedHostsByUser;
         audit = audit\<lparr>ad_Users := map (\<lambda>u. u\<lparr>pu_Ips := enrichGeo geo (pu_Ips u)\<rparr>) (ad_Users audit)\<rparr>
     in andThen (get (\<lambda>s. length (st_hosts s))) (\<lambda>totalHostCount.
        let npAPIEntries = map (policyEntryOf totalHostCount) npEntries in
        ret (audit\<lparr>ad_NetworkPolicies := npAPIEntries, ad_TotalNetworkPolicyCount := length npAPIEntries\<rparr>))))))"

section \<open>What the indexes contain\<close>

definition known :: "enrichment \<Rightarrow> ContributorAccess \<Rightarrow> bool" where
  "known enr c \<longleftrightarrow> enr (ca_AddressID c) \<noteq> None"

definition addressOf :: "enrichment \<Rightarrow> ContributorAccess \<Rightarrow> PolicyUserAddress" where
  "addressOf enr c = \<lparr>pa_AddressId = ca_AddressID c, pa_DeviceId = ca_DeviceID c,
     pa_DeviceName = en_DeviceName (the (enr (ca_AddressID c))),
     pa_UpdatedAt = en_AddressUpdatedAt (the (enr (ca_AddressID c)))\<rparr>"

definition own :: "enrichment \<Rightarrow> id \<Rightarrow> ContributorAccess list \<Rightarrow> ContributorAccess list" where
  "own enr u cs = filter (\<lambda>c. ca_UserID c = u \<and> known enr c) cs"

definition emptyCell :: "PolicyMapEntry \<Rightarrow> ContributorAccess \<Rightarrow> ipBucket" where
  "emptyCell e c = \<lparr>entryBypass = pm_BypassAllowlist e, entryAllowedHosts = pm_AllowedHosts e,
     userBypass = ca_UserBypass c, userAllowedHosts = ca_UserAllowedHosts c, addresses = []\<rparr>"

definition withAddresses :: "PolicyUserAddress list \<Rightarrow> ipBucket \<Rightarrow> ipBucket" where
  "withAddresses as b = b\<lparr>addresses := addresses b @ as\<rparr>"

definition cellFor :: "enrichment \<Rightarrow> id \<Rightarrow> PolicyMapEntry \<Rightarrow> ipBucket" where
  "cellFor enr u e = (let cs = own enr u (pm_Contributors e) in withAddresses (map (addressOf enr) cs) (emptyCell e (hd cs)))"

definition cellsOf :: "enrichment \<Rightarrow> PolicyMapEntry list \<Rightarrow> id \<Rightarrow> ipMap" where
  "cellsOf enr es u = map (\<lambda>e. (pm_IP e, cellFor enr u e)) (filter (\<lambda>e. own enr u (pm_Contributors e) \<noteq> []) es)"

definition usersOf :: "enrichment \<Rightarrow> PolicyMapEntry \<Rightarrow> id set" where
  "usersOf enr e = ca_UserID ` {c \<in> set (pm_Contributors e). known enr c}"

lemma valueOr_simps [simp]: "valueOr d None = d" "valueOr d (Some v) = v"
  by (simp_all add: valueOr_def)

lemma own_Nil_Cons [simp]:
  "own enr u [] = []"
  "own enr u (c # cs) = (if ca_UserID c = u \<and> known enr c then c # own enr u cs else own enr u cs)"
  by (simp_all add: own_def)

lemma withAddresses_simps [simp]:
  "withAddresses [] b = b" "withAddresses bs (withAddresses as b) = withAddresses (as @ bs) b"
  "addresses (withAddresses as b) = addresses b @ as" "entryBypass (withAddresses as b) = entryBypass b"
  "entryAllowedHosts (withAddresses as b) = entryAllowedHosts b" "userBypass (withAddresses as b) = userBypass b"
  "userAllowedHosts (withAddresses as b) = userAllowedHosts b"
  by (simp_all add: withAddresses_def)

lemma contributorStep_unknown: "\<not> known enr c \<Longrightarrow> contributorStep enr e c idx = idx"
  by (cases idx) (simp add: contributorStep_def known_def)

lemma contributorStep_known:
  assumes "known enr c"
  shows "contributorStep enr e c (B, U) =
    (let cells = valueOr [] (map_of B (ca_UserID c)) in
     (AList.update (ca_UserID c) (AList.update (pm_IP e)
        (withAddresses [addressOf enr c] (valueOr (emptyCell e c) (map_of cells (pm_IP e)))) cells) B,
      AList.update (pm_IP e) (insert (ca_UserID c) (valueOr {} (map_of U (pm_IP e)))) U))"
  using assms by (auto simp: contributorStep_def known_def Let_def withAddresses_def addressOf_def emptyCell_def)

lemma contributors_cells:
  "map_of (fst (fold (contributorStep enr e) cs (B, U))) u =
    (if own enr u cs = [] then map_of B u
     else let cells = valueOr [] (map_of B u) in
       Some (AList.update (pm_IP e) (withAddresses (map (addressOf enr) (own enr u cs))
         (valueOr (emptyCell e (hd (own enr u cs))) (map_of cells (pm_IP e)))) cells))"
proof (induction cs arbitrary: B U)
  case (Cons c cs)
  show ?case
  proof (cases "known enr c")
    case True
    show ?thesis unfolding fold_simps comp_def contributorStep_known[OF True] Let_def Cons
      using True by (cases "ca_UserID c = u") (auto simp: Let_def update_last)
  qed (use Cons in \<open>simp add: contributorStep_unknown\<close>)
qed simp

lemma contributors_users:
  assumes "map_of U (pm_IP e) \<noteq> None"
  shows "snd (fold (contributorStep enr e) cs (B, U)) =
    AList.update (pm_IP e) (valueOr {} (map_of U (pm_IP e)) \<union> ca_UserID ` {c \<in> set cs. known enr c}) U"
  using assms
proof (induction cs arbitrary: B U)
  case Nil
  then show ?case by (auto simp: update_triv)
next
  case (Cons c cs)
  show ?case
  proof (cases "known enr c")
    case True
    then have "{x \<in> set (c # cs). known enr x} = insert c {x \<in> set cs. known enr x}" by auto
    then show ?thesis unfolding fold_simps comp_def contributorStep_known[OF True] Let_def using Cons by (auto simp: update_last)
  next
    case False
    then have "{x \<in> set (c # cs). known enr x} = {x \<in> set cs. known enr x}" by auto
    then show ?thesis using False Cons by (simp add: contributorStep_unknown)
  qed
qed

lemma update_fresh: "k \<notin> fst ` set al \<Longrightarrow> AList.update k v al = al @ [(k, v)]"
  by (induction al) auto

lemma cellsOf_append: "cellsOf enr (es @ [e]) u = cellsOf enr es u @
    (if own enr u (pm_Contributors e) = [] then [] else [(pm_IP e, cellFor enr u e)])"
  by (simp add: cellsOf_def)

lemma cellsOf_fresh: "pm_IP e \<notin> pm_IP ` set es \<Longrightarrow> pm_IP e \<notin> fst ` set (cellsOf enr es u)"
  by (auto simp: cellsOf_def)

lemma entryStep_fresh:
  assumes "pm_IP e \<notin> fst ` set U"
  shows "snd (entryStep enr e (B, U)) = U @ [(pm_IP e, usersOf enr e)]"
    and "map_of (fst (entryStep enr e (B, U))) u = (if own enr u (pm_Contributors e) = [] then map_of B u
      else let cells = valueOr [] (map_of B u) in Some (AList.update (pm_IP e) (withAddresses (map (addressOf enr) (own enr u (pm_Contributors e)))
         (valueOr (emptyCell e (hd (own enr u (pm_Contributors e)))) (map_of cells (pm_IP e)))) cells))"
proof -
  have "map_of U (pm_IP e) = None" using assms by (simp add: map_of_eq_None_iff)
  then have step: "entryStep enr e (B, U) = fold (contributorStep enr e) (pm_Contributors e) (B, U @ [(pm_IP e, {})])"
    using update_fresh[OF assms] by (simp add: entryStep_def Let_def)
  have "AList.update (pm_IP e) v (U @ [(pm_IP e, {})]) = U @ [(pm_IP e, v)]" for v
    using assms by (induction U) auto
  then show "snd (entryStep enr e (B, U)) = U @ [(pm_IP e, usersOf enr e)]"
    using contributors_users[of "U @ [(pm_IP e, {})]" e enr "pm_Contributors e" B] \<open>map_of U (pm_IP e) = None\<close>
    by (simp add: step usersOf_def map_add_def)
qed (use assms in \<open>simp add: entryStep_def contributors_cells Let_def\<close>)

lemma index_parts:
  assumes "distinct (map pm_IP es)"
  shows "snd (fold (entryStep enr) es ([], [])) = map (\<lambda>e. (pm_IP e, usersOf enr e)) es"
    and "map_of (fst (fold (entryStep enr) es ([], []))) u = (if cellsOf enr es u = [] then None else Some (cellsOf enr es u))"
proof -
  have "snd (fold (entryStep enr) es ([], [])) = map (\<lambda>e. (pm_IP e, usersOf enr e)) es \<and>
    map_of (fst (fold (entryStep enr) es ([], []))) u = (if cellsOf enr es u = [] then None else Some (cellsOf enr es u))"
    using assms
  proof (induction es rule: rev_induct)
    case (snoc e es)
    obtain B U where idx: "fold (entryStep enr) es ([], []) = (B, U)" by fastforce
    have U: "U = map (\<lambda>e. (pm_IP e, usersOf enr e)) es"
      and B: "map_of B u = (if cellsOf enr es u = [] then None else Some (cellsOf enr es u))" using snoc idx by simp_all
    have fresh: "pm_IP e \<notin> fst ` set U" "pm_IP e \<notin> fst ` set (cellsOf enr es u)"
      using snoc.prems cellsOf_fresh[of e es] by (auto simp: U image_iff)
    then have "map_of (cellsOf enr es u) (pm_IP e) = None" by (simp add: map_of_eq_None_iff)
    then show ?case using entryStep_fresh[OF fresh(1), of enr B] update_fresh[OF fresh(2)]
      by (simp add: idx U B cellsOf_append Let_def) (simp add: cellFor_def Let_def)
  qed (simp add: cellsOf_def)
  then show "snd (fold (entryStep enr) es ([], [])) = map (\<lambda>e. (pm_IP e, usersOf enr e)) es"
    "map_of (fst (fold (entryStep enr) es ([], []))) u = (if cellsOf enr es u = [] then None else Some (cellsOf enr es u))"
    by auto
qed

lemma buildIPIndex_parts:
  assumes "distinct (map pm_IP (sn_Entries snap))"
  shows "snd (buildIPIndex snap enr) = map (\<lambda>e. (pm_IP e, usersOf enr e)) (sn_Entries snap)"
    and "map_of (fst (buildIPIndex snap enr)) u =
      (if cellsOf enr (sn_Entries snap) u = [] then None else Some (cellsOf enr (sn_Entries snap) u))"
  using index_parts[OF assms] by (simp_all add: buildIPIndex_def)

section \<open>The snapshot of a cache\<close>

lemma map_updates:
  "foldl (\<lambda>m x. m(k x \<mapsto> v x)) m0 xs u = (case List.find (\<lambda>x. k x = u) (rev xs) of None \<Rightarrow> m0 u | Some x \<Rightarrow> Some (v x))"
  by (induction xs arbitrary: m0) (auto simp: find_append split: option.splits)

lemma find_rev_distinct:
  assumes "distinct (map k xs)"
  shows "List.find (\<lambda>x. k x = u) (rev xs) = List.find (\<lambda>x. k x = u) xs"
  using assms
proof (induction xs)
  case (Cons x xs)
  have "List.find (\<lambda>y. k y = u) xs = None" if "k x = u"
    using Cons.prems that by (auto simp: find_None_iff image_iff)
  then show ?case using Cons by (auto simp: find_append split: option.splits)
qed simp

lemma accessMaps:
  assumes "distinct (map ua_UserID ha)"
  shows "bypassByUser ha u = fst (accessOf ha u)" "hostSetByUser ha u = snd (accessOf ha u)"
  by (auto simp: bypassByUser_def hostSetByUser_def accessOf_def map_updates find_rev_distinct[OF assms] split: option.splits)

lemma mergeUserHostAccess_distinct: "distinct (map ua_UserID (mergeUserHostAccess settings grants))"
proof -
  let ?m = "foldl grantStep (foldl settingsStep [] settings) grants"
  have "distinct (map fst ?m)" by (simp add: foldl_grantStep_keys distinct_settings)
  then have "distinct (map fst (filter P ?m))" for P by (simp add: distinct_map_filter)
  moreover have "map ua_UserID (mergeUserHostAccess settings grants) =
      map fst (filter (\<lambda>(u, b, hs). \<not> (\<not> b \<and> length hs = 0)) ?m)"
    by (auto simp: mergeUserHostAccess_def Let_def)
  ultimately show ?thesis by simp
qed

lemma finite_hostSetByUser [simp]: "finite (hostSetByUser ha u)"
  by (auto simp: hostSetByUser_def map_updates split: option.splits)

lemma finite_specHosts: "finite (is_AllowedHosts (specEntry ha es))"
proof (cases "restrictedHosts ha es")
  case (Cons h hs)
  then have "finite h" by (metis (no_types, lifting) finite_hostSetByUser imageE list.set_intros(1) restrictedHosts_set)
  then show ?thesis using Cons by (auto simp: specEntry_def)
qed (simp add: specEntry_def)

lemma sortedKeys_props [simp]:
  "finite A \<Longrightarrow> set (sortedKeys A) = A" "sorted (sortedKeys A)" "distinct (sortedKeys A)"
  by (simp_all add: sortedKeys_def)

lemma buildIPSet_distinct: "distinct (map fst (buildIPSet es ha))"
proof -
  have "distinct (map fst (foldl (ipSetStep ha) m es))" if "distinct (map fst m)" for m
    using that by (induction es arbitrary: m) (auto simp: ipSetStep_def Let_def distinct_update split: option.splits)
  moreover have "map fst (buildIPSet es ha) = map fst (foldl (ipSetStep ha) [] es)"
    by (simp add: buildIPSet_def case_prod_unfold comp_def)
  ultimately show ?thesis by simp
qed

lemma buildIPSet_mem: "(ip, e) \<in> set (buildIPSet es ha) \<longleftrightarrow> entriesAt es ip \<noteq> [] \<and> e = specEntry ha (entriesAt es ip)"
  using map_of_eq_Some_iff[OF buildIPSet_distinct, of es ha ip e]
  by (cases "entriesAt es ip = []") (auto simp: buildIPSet_spec)

lemma entriesAt_valid: "entriesAt es ip \<noteq> [] \<Longrightarrow> IsValid ip \<and> Unmap ip = ip"
  by (auto simp: entriesAt_def canonIP_def filter_empty_conv Unmap_Unmap dest: ParseAddr_valid)

lemma AddrString_inj: "IsValid a \<Longrightarrow> IsValid b \<Longrightarrow> AddrString a = AddrString b \<Longrightarrow> a = b"
  by (metis ParseAddr_print option.inject)

lemma snapshot_entries:
  assumes "ps_ipSet svc = buildIPSet es ha"
  shows "distinct (map pm_IP (sn_Entries (GetPolicyMap svc)))"
    and "e \<in> set (sn_Entries (GetPolicyMap svc)) \<longleftrightarrow>
      (\<exists>ip. entriesAt es ip \<noteq> [] \<and> e = toPolicyMapEntry ip (specEntry ha (entriesAt es ip)))"
proof -
  have m: "map pm_IP (sn_Entries (GetPolicyMap svc)) = map AddrString (map fst (buildIPSet es ha))"
    by (simp add: GetPolicyMap_def assms case_prod_unfold comp_def toPolicyMapEntry_def)
  have "inj_on AddrString (fst ` set (buildIPSet es ha))"
  proof (rule inj_onI)
    fix a b assume h: "a \<in> fst ` set (buildIPSet es ha)" "b \<in> fst ` set (buildIPSet es ha)" "AddrString a = AddrString b"
    then have "IsValid a" "IsValid b" using entriesAt_valid by (auto simp: buildIPSet_mem)
    then show "a = b" using AddrString_inj h(3) by blast
  qed
  then show "distinct (map pm_IP (sn_Entries (GetPolicyMap svc)))"
    unfolding m using buildIPSet_distinct[of es ha] by (subst distinct_map) simp
  show "e \<in> set (sn_Entries (GetPolicyMap svc)) \<longleftrightarrow>
      (\<exists>ip. entriesAt es ip \<noteq> [] \<and> e = toPolicyMapEntry ip (specEntry ha (entriesAt es ip)))"
    unfolding GetPolicyMap_def assms using buildIPSet_mem[of _ _ es ha] by force
qed

section \<open>The audit of a refreshed cache\<close>

text \<open>The answers of the three providers when they are the services themselves, over one store.\<close>

definition storeProviders :: "store \<Rightarrow> providers" where
  "storeProviders s = \<lparr>pr_ipEntries = fst (GetEnabledIPEntries s), pr_hostAccess = Some (fst (GetAllUserHostAccess False s)),
     pr_networkPolicies = Some (fst (GetEnabledCacheEntries s))\<rparr>"

definition hostAccessOf :: "store \<Rightarrow> UserHostAccess list" where
  "hostAccessOf s = mergeUserHostAccess (st_userSettings s) (userGrants s)"

lemma refreshed_ipSet:
  assumes "refreshCache start now (storeProviders s) svc0 = (None, svc)"
  shows "ps_ipSet svc = buildIPSet (ipEntries s) (hostAccessOf s)"
  using refreshCache_ok[OF assms]
  by (auto simp: storeProviders_def GetEnabledIPEntries_eq GetAllUserHostAccess_eq answer_def hostAccessOf_def)

text \<open>Every contributor of the snapshot has a row in the store it was built from.\<close>

definition allKnown :: "enrichment \<Rightarrow> PolicyMapSnapshot \<Rightarrow> bool" where
  "allKnown enr snap \<longleftrightarrow> (\<forall>e \<in> set (sn_Entries snap). \<forall>c \<in> set (pm_Contributors e). known enr c)"

lemma enrichment_known:
  assumes "deviceInv s" and "ps_ipSet svc = buildIPSet (ipEntries s) ha"
    and "getPolicyAddressEnrichment (collectAddressIDs (GetPolicyMap svc)) s = (Inr enr, s')"
  shows "allKnown enr (GetPolicyMap svc)"
  unfolding allKnown_def
proof (intro ballI)
  fix e c assume assms': "e \<in> set (sn_Entries (GetPolicyMap svc))" "c \<in> set (pm_Contributors e)"
  let ?ids = "collectAddressIDs (GetPolicyMap svc)"
  have mem: "ca_AddressID c \<in> set ?ids" using assms' by (auto simp: collectAddressIDs_def)
  obtain ip where ip: "e = toPolicyMapEntry ip (specEntry ha (entriesAt (ipEntries s) ip))"
    using assms'(1) snapshot_entries(2)[OF assms(2)] by auto
  then obtain x where x: "x \<in> set (ipEntries s)" "c = contributorOf ha x"
    using assms'(2) by (auto simp: toPolicyMapEntry_def specEntry_def entriesAt_def)
  then obtain a d where a: "a \<in> set (st_addresses s)" "a_ID a = ca_AddressID c" "d \<in> set (st_devices s)" "d_ID d = a_DeviceID a"
    by (auto simp: ipEntries_iff contributorOf_def)
  let ?rows = "concat (map (\<lambda>a. map (\<lambda>d. \<lparr>en_AddressID = a_ID a, en_AddressUpdatedAt = a_UpdatedAt a, en_DeviceName = d_Name d\<rparr>)
          (filter (\<lambda>d. d_ID d = a_DeviceID a) (st_devices s))) (filter (\<lambda>a. a_ID a \<in> set ?ids) (st_addresses s)))"
  have enr: "enr = foldl (\<lambda>m row. m(en_AddressID row \<mapsto> row)) Map.empty ?rows"
    using assms(3) mem by (cases "?ids = []") (auto simp: getPolicyAddressEnrichment_def)
  define row where "row = \<lparr>en_AddressID = a_ID a, en_AddressUpdatedAt = a_UpdatedAt a, en_DeviceName = d_Name d\<rparr>"
  have "row \<in> set ?rows" using a mem by (auto simp: row_def intro!: bexI[of _ a])
  moreover have "en_AddressID row = ca_AddressID c" using a(2) by (simp add: row_def)
  ultimately have "List.find (\<lambda>row. en_AddressID row = ca_AddressID c) (rev ?rows) \<noteq> None"
    unfolding find_None_iff set_rev by blast
  then show "known enr c" unfolding known_def enr map_updates by (auto split: option.splits)
qed

text \<open>The cell of a user at an address, in terms of the rows of the cache's input.\<close>

definition rowsOf :: "id \<Rightarrow> IPEntry list \<Rightarrow> IPEntry list" where
  "rowsOf u es = filter (\<lambda>e. ie_UserID e = u) es"

definition cellSpec :: "enrichment \<Rightarrow> UserHostAccess list \<Rightarrow> IPEntry list \<Rightarrow> id \<Rightarrow> addr \<Rightarrow> ipBucket" where
  "cellSpec enr ha es u ip = \<lparr>entryBypass = is_BypassAllowlist (specEntry ha (entriesAt es ip)),
     entryAllowedHosts = sortedKeys (is_AllowedHosts (specEntry ha (entriesAt es ip))),
     userBypass = bypassByUser ha u, userAllowedHosts = sortedKeys (hostSetByUser ha u),
     addresses = map (addressOf enr \<circ> contributorOf ha) (rowsOf u (entriesAt es ip))\<rparr>"

lemma own_snapshot:
  assumes "\<forall>c \<in> set (pm_Contributors (toPolicyMapEntry ip (specEntry ha rows))). known enr c"
  shows "own enr u (pm_Contributors (toPolicyMapEntry ip (specEntry ha rows))) = map (contributorOf ha) (rowsOf u rows)"
  using assms by (induction rows) (auto simp: toPolicyMapEntry_def specEntry_def rowsOf_def contributorOf_def)

lemma cellFor_snapshot:
  assumes "\<forall>c \<in> set (pm_Contributors (toPolicyMapEntry ip (specEntry ha (entriesAt es ip)))). known enr c"
    and "rowsOf u (entriesAt es ip) \<noteq> []"
  shows "cellFor enr u (toPolicyMapEntry ip (specEntry ha (entriesAt es ip))) = cellSpec enr ha es u ip"
proof -
  obtain x xs where x: "rowsOf u (entriesAt es ip) = x # xs" using assms(2) by (meson neq_Nil_conv)
  then have "ie_UserID x = u" by (auto simp: rowsOf_def filter_eq_Cons_iff)
  then show ?thesis unfolding cellFor_def own_snapshot[OF assms(1)] Let_def
    by (simp add: x cellSpec_def withAddresses_def emptyCell_def toPolicyMapEntry_def) (simp add: contributorOf_def)
qed

lemma cells_snapshot:
  assumes cache: "ps_ipSet svc = buildIPSet es ha"
    and all: "allKnown enr (GetPolicyMap svc)"
  shows "(x, b) \<in> set (cellsOf enr (sn_Entries (GetPolicyMap svc)) u) \<longleftrightarrow>
    (\<exists>ip. x = AddrString ip \<and> rowsOf u (entriesAt es ip) \<noteq> [] \<and> b = cellSpec enr ha es u ip)"
proof -
  have k: "\<forall>c \<in> set (pm_Contributors (toPolicyMapEntry ip (specEntry ha (entriesAt es ip)))). known enr c"
    if "entriesAt es ip \<noteq> []" for ip
    using all snapshot_entries(2)[OF cache] that unfolding allKnown_def by blast
  have r: "entriesAt es ip \<noteq> []" if "rowsOf u (entriesAt es ip) \<noteq> []" for ip using that by (auto simp: rowsOf_def)
  have own: "own enr u (pm_Contributors (toPolicyMapEntry ip (specEntry ha (entriesAt es ip)))) \<noteq> [] \<longleftrightarrow> rowsOf u (entriesAt es ip) \<noteq> []"
    if "entriesAt es ip \<noteq> []" for ip using own_snapshot[OF k[OF that]] by simp
  have ip: "pm_IP (toPolicyMapEntry ip e) = AddrString ip" for ip e by (simp add: toPolicyMapEntry_def)
  show ?thesis
  proof
    assume "(x, b) \<in> set (cellsOf enr (sn_Entries (GetPolicyMap svc)) u)"
    then obtain e where e: "e \<in> set (sn_Entries (GetPolicyMap svc))" "own enr u (pm_Contributors e) \<noteq> []"
      "x = pm_IP e" "b = cellFor enr u e" by (auto simp: cellsOf_def)
    then obtain ip where "entriesAt es ip \<noteq> []" "e = toPolicyMapEntry ip (specEntry ha (entriesAt es ip))"
      using snapshot_entries(2)[OF cache] by blast
    then show "\<exists>ip. x = AddrString ip \<and> rowsOf u (entriesAt es ip) \<noteq> [] \<and> b = cellSpec enr ha es u ip"
      using e own[of ip] cellFor_snapshot[OF k, of ip u] ip by auto
  next
    assume "\<exists>ip. x = AddrString ip \<and> rowsOf u (entriesAt es ip) \<noteq> [] \<and> b = cellSpec enr ha es u ip"
    then obtain a where a: "x = AddrString a" "rowsOf u (entriesAt es a) \<noteq> []" "b = cellSpec enr ha es u a" by blast
    let ?e = "toPolicyMapEntry a (specEntry ha (entriesAt es a))"
    have "?e \<in> set (sn_Entries (GetPolicyMap svc))" using snapshot_entries(2)[OF cache] r[OF a(2)] by blast
    moreover have "own enr u (pm_Contributors ?e) \<noteq> []" using own[OF r[OF a(2)]] a(2) by blast
    moreover have "(x, b) = (pm_IP ?e, cellFor enr u ?e)"
      using a ip cellFor_snapshot[OF k[OF r[OF a(2)]] a(2)] by simp
    ultimately show "(x, b) \<in> set (cellsOf enr (sn_Entries (GetPolicyMap svc)) u)" unfolding cellsOf_def by fastforce
  qed
qed

definition auditRows :: "store \<Rightarrow> policyAuditUserRow list" where
  "auditRows s = map (auditUserRow s) (sort_key (\<lambda>u. (u_DisplayName u, u_ID u)) (filter (\<lambda>u. u_DeletedAt u = None) (st_users s)))"

definition grantedHosts :: "store \<Rightarrow> id \<Rightarrow> string list" where
  "grantedHosts s uid = map ug_FQDN (filter (\<lambda>g. ug_UserID g = uid) (sort_key (\<lambda>g. (ug_UserID g, ug_FQDN g)) (userGrants s)))"

lemma getAllUsersForPolicyAudit_eq: "getAllUsersForPolicyAudit s = (Inr (auditRows s, grantedHosts s), s)"
  by (simp add: getAllUsersForPolicyAudit_def auditRows_def grantedHosts_def[abs_def])

definition geoEntry :: "(string \<Rightarrow> GeoResult) option \<Rightarrow> PolicyUserEntry \<Rightarrow> PolicyUserEntry" where
  "geoEntry geo u = u\<lparr>pu_Ips := enrichGeo geo (pu_Ips u)\<rparr>"

lemma BuildPolicyUserMap_parts:
  assumes "BuildPolicyUserMap svc np geo s = (Inr audit, s')"
  obtains enr where "getPolicyAddressEnrichment (collectAddressIDs (GetPolicyMap svc)) s = (Inr enr, s)"
    and "ad_Users audit = map (geoEntry geo) (ad_Users (assemblePolicyUserMap (GetPolicyMap svc) enr (auditRows s) (grantedHosts s)))"
    and "ad_SharedIpCount audit = ad_SharedIpCount (assemblePolicyUserMap (GetPolicyMap svc) enr (auditRows s) (grantedHosts s))"
    and "ad_TotalHostCount audit = ad_TotalHostCount (assemblePolicyUserMap (GetPolicyMap svc) enr (auditRows s) (grantedHosts s))"
    and "ad_TotalDeviceCount audit = ad_TotalDeviceCount (assemblePolicyUserMap (GetPolicyMap svc) enr (auditRows s) (grantedHosts s))"
    and "\<exists>es. (case np of None \<Rightarrow> ret [] | Some provider \<Rightarrow> provider) s = (Inr es, s') \<and>
      ad_NetworkPolicies audit = map (policyEntryOf (length (st_hosts s'))) es \<and> ad_TotalNetworkPolicyCount audit = length es"
proof -
  have "\<exists>enr. getPolicyAddressEnrichment ids s = (Inr enr, s)" for ids by (simp add: getPolicyAddressEnrichment_def)
  then obtain enr where enr: "getPolicyAddressEnrichment (collectAddressIDs (GetPolicyMap svc)) s = (Inr enr, s)" by blast
  define P where "P = (case np of None \<Rightarrow> ret [] | Some provider \<Rightarrow> provider)"
  let ?a = "assemblePolicyUserMap (GetPolicyMap svc) enr (auditRows s) (grantedHosts s)"
  have "BuildPolicyUserMap svc np geo s = (case P s of (Inl e, t) \<Rightarrow> (Inl e, t)
    | (Inr es, t) \<Rightarrow> (Inr (?a\<lparr>ad_Users := map (geoEntry geo) (ad_Users ?a),
        ad_NetworkPolicies := map (policyEntryOf (length (st_hosts t))) es, ad_TotalNetworkPolicyCount := length es\<rparr>), t))"
    unfolding BuildPolicyUserMap_def P_def[symmetric] Let_def andThen_def enr getAllUsersForPolicyAudit_eq geoEntry_def[abs_def]
    by (simp split: sum.splits prod.splits)
  then obtain es where "P s = (Inr es, s')" "audit = ?a\<lparr>ad_Users := map (geoEntry geo) (ad_Users ?a),
        ad_NetworkPolicies := map (policyEntryOf (length (st_hosts s'))) es, ad_TotalNetworkPolicyCount := length es\<rparr>"
    using assms by (auto split: sum.splits prod.splits)
  then show thesis using that[OF enr] unfolding P_def by simp
qed

lemma buildUserIPs_set:
  assumes "distinct (map fst cells)"
  shows "set (buildUserIPs u cells U B info) = buildUserIP u U B info ` set cells"
proof -
  have "buildUserIP u U B info (ip, the (map_of cells ip)) = buildUserIP u U B info (ip, b)" if "(ip, b) \<in> set cells" for ip b
    using map_of_is_SomeI[OF assms that] by simp
  then show ?thesis unfolding buildUserIPs_def by (force simp: image_iff)
qed

lemma cellsOf_distinct: "distinct (map pm_IP es) \<Longrightarrow> distinct (map fst (cellsOf enr es u))"
  by (simp add: cellsOf_def comp_def distinct_map_filter)

lemma assemble_users:
  assumes "distinct (map pm_IP (sn_Entries snap))" and "u \<in> set (ad_Users (assemblePolicyUserMap snap enr users allowed))"
  obtains ur U B info where "ur \<in> set users" and "pu_UserId u = au_UserID ur" and "pu_BypassAllowlist u = au_BypassAllowlist ur"
    and "set (pu_Ips u) = buildUserIP (au_UserID ur) U B info ` set (cellsOf enr (sn_Entries snap) (au_UserID ur))"
proof -
  let ?B = "fst (buildIPIndex snap enr)" and ?U = "snd (buildIPIndex snap enr)"
  let ?info = "foldl (\<lambda>m ur. m(au_UserID ur \<mapsto> ur)) Map.empty users"
  obtain ur where ur: "ur \<in> set users" "u = snd (userEntry ?B ?U ?info allowed ur)"
    using assms(2) by (auto simp: assemblePolicyUserMap_def Let_def)
  let ?cells = "cellsOf enr (sn_Entries snap) (au_UserID ur)"
  have "set (pu_Ips u) = buildUserIP (au_UserID ur) ?U ?B ?info ` set ?cells"
  proof (cases "?cells = []")
    case True
    then have "map_of ?B (au_UserID ur) = None" using buildIPIndex_parts(2)[OF assms(1), of enr] by simp
    then show ?thesis using True by (simp add: ur userEntry_def Let_def)
  next
    case False
    then have "map_of ?B (au_UserID ur) = Some ?cells" using buildIPIndex_parts(2)[OF assms(1), of enr] by simp
    then show ?thesis using buildUserIPs_set[OF cellsOf_distinct[OF assms(1)]] by (simp add: ur userEntry_def Let_def)
  qed
  moreover have "pu_UserId u = au_UserID ur" "pu_BypassAllowlist u = au_BypassAllowlist ur"
    unfolding ur by (auto simp: userEntry_def Let_def split: option.splits)
  ultimately show thesis using that ur(1) by blast
qed

text \<open>What the audit shows of one address of a user.\<close>

definition shown :: "enrichment \<Rightarrow> UserHostAccess list \<Rightarrow> IPEntry list \<Rightarrow> id \<Rightarrow> addr \<Rightarrow> PolicyUserIP \<Rightarrow> bool" where
  "shown enr ha es u ip p \<longleftrightarrow> pi_Ip p = AddrString ip \<and>
    (let b = cellSpec enr ha es u ip; unrestricted = userBypass b \<or> entryBypass b in
     pi_BypassAtIp p = entryBypass b \<and> pi_Addresses p = sort_key pa_AddressId (addresses b) \<and>
     pi_EffectiveHosts p = (if unrestricted then [] else Intersect (userAllowedHosts b) (entryAllowedHosts b)) \<and>
     pi_TrimmedHosts p = (if unrestricted then [] else Diff (userAllowedHosts b) (entryAllowedHosts b)))"

lemma shown_buildUserIP: "shown enr ha es u ip (buildUserIP u U B info (AddrString ip, cellSpec enr ha es u ip))"
  by (simp add: shown_def buildUserIP_def Let_def)

lemma shown_geo: "shown enr ha es u ip (p\<lparr>pi_Geo := g\<rparr>) = shown enr ha es u ip p"
  by (simp add: shown_def)

lemma enrichGeo_shown:
  "(\<exists>p \<in> set (enrichGeo geo ps). shown enr ha es u ip p) \<longleftrightarrow> (\<exists>p \<in> set ps. shown enr ha es u ip p)"
  "(\<forall>p \<in> set (enrichGeo geo ps). \<exists>ip. P ip \<and> shown enr ha es u ip p) \<longleftrightarrow> (\<forall>p \<in> set ps. \<exists>ip. P ip \<and> shown enr ha es u ip p)"
  by (auto simp: enrichGeo_def shown_geo split: option.splits)

lemma audit_ips:
  assumes inv: "deviceInv s" and cache: "ps_ipSet svc = buildIPSet (ipEntries s) ha"
    and audit: "BuildPolicyUserMap svc np geo s = (Inr audit, s')" and u: "u \<in> set (ad_Users audit)"
  obtains ur enr where "ur \<in> set (auditRows s)" and "pu_UserId u = au_UserID ur" and "pu_BypassAllowlist u = au_BypassAllowlist ur"
    and "\<forall>p \<in> set (pu_Ips u). \<exists>ip. rowsOf (pu_UserId u) (entriesAt (ipEntries s) ip) \<noteq> [] \<and> shown enr ha (ipEntries s) (pu_UserId u) ip p"
    and "\<forall>ip. rowsOf (pu_UserId u) (entriesAt (ipEntries s) ip) \<noteq> [] \<longrightarrow> (\<exists>p \<in> set (pu_Ips u). shown enr ha (ipEntries s) (pu_UserId u) ip p)"
proof -
  obtain enr where enr: "getPolicyAddressEnrichment (collectAddressIDs (GetPolicyMap svc)) s = (Inr enr, s)"
    and users: "ad_Users audit = map (geoEntry geo) (ad_Users (assemblePolicyUserMap (GetPolicyMap svc) enr (auditRows s) (grantedHosts s)))"
    by (rule BuildPolicyUserMap_parts[OF audit])
  obtain v where v: "v \<in> set (ad_Users (assemblePolicyUserMap (GetPolicyMap svc) enr (auditRows s) (grantedHosts s)))" "u = geoEntry geo v"
    using u users by auto
  obtain ur U B info where ur: "ur \<in> set (auditRows s)" "pu_UserId v = au_UserID ur" "pu_BypassAllowlist v = au_BypassAllowlist ur"
    and ips: "set (pu_Ips v) = buildUserIP (au_UserID ur) U B info ` set (cellsOf enr (sn_Entries (GetPolicyMap svc)) (au_UserID ur))"
    by (rule assemble_users[OF snapshot_entries(1)[OF cache] v(1)])
  have cells: "(x, b) \<in> set (cellsOf enr (sn_Entries (GetPolicyMap svc)) (au_UserID ur)) \<longleftrightarrow>
    (\<exists>ip. x = AddrString ip \<and> rowsOf (au_UserID ur) (entriesAt (ipEntries s) ip) \<noteq> [] \<and>
       b = cellSpec enr ha (ipEntries s) (au_UserID ur) ip)" for x b
    by (rule cells_snapshot[OF cache enrichment_known[OF inv cache enr]])
  have "\<forall>p \<in> set (pu_Ips v). \<exists>ip. rowsOf (au_UserID ur) (entriesAt (ipEntries s) ip) \<noteq> [] \<and> shown enr ha (ipEntries s) (au_UserID ur) ip p"
    unfolding ips using cells shown_buildUserIP by fastforce
  moreover have "\<exists>p \<in> set (pu_Ips v). shown enr ha (ipEntries s) (au_UserID ur) ip p"
    if "rowsOf (au_UserID ur) (entriesAt (ipEntries s) ip) \<noteq> []" for ip
  proof -
    have "(AddrString ip, cellSpec enr ha (ipEntries s) (au_UserID ur) ip) \<in> set (cellsOf enr (sn_Entries (GetPolicyMap svc)) (au_UserID ur))"
      using cells that by blast
    then show ?thesis unfolding ips using shown_buildUserIP by blast
  qed
  ultimately show thesis using that[of ur enr] ur unfolding v(2) geoEntry_def by (simp add: enrichGeo_shown)
qed

text \<open>What a decision is at an address with rows, and what the effective hosts of a user there are.\<close>

lemma Decide_at_rows:
  assumes "ps_ipSet svc = buildIPSet es ha" and "entriesAt es ip \<noteq> []" and "\<not> isTrustedProxy svc ip"
  shows "dr_Allowed (Decide svc ip host) \<longleftrightarrow> is_BypassAllowlist (specEntry ha (entriesAt es ip)) \<or>
    NormaliseHost host \<in> is_AllowedHosts (specEntry ha (entriesAt es ip))"
  using entriesAt_valid[OF assms(2)] assms by (simp add: Decide_allowed buildIPSet_spec)

lemma spec_at_user:
  assumes "rowsOf u rows \<noteq> []" and "\<not> bypassByUser ha u"
  shows "\<not> is_BypassAllowlist (specEntry ha rows)" and "is_AllowedHosts (specEntry ha rows) \<subseteq> hostSetByUser ha u"
proof -
  obtain e where e: "e \<in> set rows" "ie_UserID e = u" using assms(1) by (auto simp: rowsOf_def filter_empty_conv)
  then show "\<not> is_BypassAllowlist (specEntry ha rows)" using assms(2) by (auto simp: specEntry_def)
  have "hostSetByUser ha u \<in> set (restrictedHosts ha rows)" using e assms(2) by (auto simp: restrictedHosts_set)
  then show "is_AllowedHosts (specEntry ha rows) \<subseteq> hostSetByUser ha u" by (auto simp: specEntry_def)
qed

lemma shown_hosts:
  assumes "shown enr ha es u ip p" and "rowsOf u (entriesAt es ip) \<noteq> []" and "\<not> bypassByUser ha u"
  shows "set (pi_EffectiveHosts p) = is_AllowedHosts (specEntry ha (entriesAt es ip))"
    and "set (pi_TrimmedHosts p) = hostSetByUser ha u - set (pi_EffectiveHosts p)"
proof -
  note spec = spec_at_user[OF assms(2,3)]
  let ?u = "sortedKeys (hostSetByUser ha u)" and ?e = "sortedKeys (is_AllowedHosts (specEntry ha (entriesAt es ip)))"
  have "pi_EffectiveHosts p = Intersect ?u ?e" "pi_TrimmedHosts p = Diff ?u ?e"
    using assms(1,3) spec(1) by (auto simp: shown_def cellSpec_def Let_def)
  then show "set (pi_EffectiveHosts p) = is_AllowedHosts (specEntry ha (entriesAt es ip))"
    "set (pi_TrimmedHosts p) = hostSetByUser ha u - set (pi_EffectiveHosts p)"
    using spec(2) by (auto simp: Intersect_filter Diff_filter finite_specHosts)
qed

lemma settings_bypass:
  assumes "distinct (map us_UserID (st_userSettings s))" and "ur \<in> set (auditRows s)"
  shows "au_BypassAllowlist ur = bypassByUser (hostAccessOf s) (au_UserID ur)"
proof -
  obtain x where "ur = auditUserRow s x" using assms(2) by (auto simp: auditRows_def)
  then show ?thesis
    by (auto simp: auditUserRow_def hostAccessOf_def accessMaps[OF mergeUserHostAccess_distinct] accessOf_merge
        find_rev_distinct[OF assms(1)] split: option.splits)
qed

lemma entry_text:
  assumes "deviceInv s" and "e \<in> set (ipEntries s)"
  shows "canonIP (ie_IP e) = Some ip \<longleftrightarrow> IsValid ip \<and> Unmap ip = ip \<and> ie_IP e = AddrString ip"
proof -
  obtain a where "a \<in> set (st_addresses s)" "ie_IP e = a_IP a" using assms(2) by (auto simp: ipEntries_iff)
  then obtain x where x: "ParseAddr (ie_IP e) = Some x" "AddrString x = ie_IP e" "IsValid x" "Unmap x = x"
    using deviceInvD(3)[OF assms(1)] by (auto simp: storedIP_def registrable_def)
  then show ?thesis using AddrString_inj[of x ip] by (auto simp: canonIP_def)
qed

lemma shown_addresses:
  "shown enr ha es u ip p \<Longrightarrow> pa_AddressId ` set (pi_Addresses p) = ie_AddressID ` set (rowsOf u (entriesAt es ip))"
  by (auto simp: shown_def cellSpec_def Let_def addressOf_def contributorOf_def image_image)

text \<open>The addresses and the hosts of one user in the audit.\<close>

lemma shown_all:
  assumes inv: "deviceInv s"
    and sound: "\<forall>p \<in> set ps. \<exists>ip. rowsOf u (entriesAt (ipEntries s) ip) \<noteq> [] \<and> shown enr ha (ipEntries s) u ip p"
    and complete: "\<forall>ip. rowsOf u (entriesAt (ipEntries s) ip) \<noteq> [] \<longrightarrow> (\<exists>p \<in> set ps. shown enr ha (ipEntries s) u ip p)"
  shows "{(pi_Ip p, i) | p i. p \<in> set ps \<and> i \<in> pa_AddressId ` set (pi_Addresses p)} =
      {(ie_IP e, ie_AddressID e) | e. e \<in> set (ipEntries s) \<and> ie_UserID e = u}" (is "?L = ?R")
proof (rule subset_antisym; rule subrelI)
  let ?es = "ipEntries s"
  have rows: "e \<in> set (rowsOf u (entriesAt ?es ip)) \<longleftrightarrow>
      e \<in> set ?es \<and> ie_UserID e = u \<and> IsValid ip \<and> Unmap ip = ip \<and> ie_IP e = AddrString ip" for e ip
    using entry_text[OF inv, of e ip] by (auto simp: rowsOf_def entriesAt_def)
  fix x i
  {
    assume "(x, i) \<in> ?L"
    then obtain p where p: "p \<in> set ps" "x = pi_Ip p" "i \<in> pa_AddressId ` set (pi_Addresses p)" by blast
    then obtain ip where ip: "shown enr ha ?es u ip p" using sound by blast
    then obtain e where e: "e \<in> set (rowsOf u (entriesAt ?es ip))" "i = ie_AddressID e" using p(3) shown_addresses by blast
    moreover have "x = AddrString ip" using p(2) ip by (simp add: shown_def)
    ultimately have "x = ie_IP e" "e \<in> set ?es" "ie_UserID e = u" using rows[of e ip] by auto
    then show "(x, i) \<in> ?R" using e(2) by blast
  next
    assume "(x, i) \<in> ?R"
    then obtain e where e: "e \<in> set ?es" "ie_UserID e = u" "x = ie_IP e" "i = ie_AddressID e" by blast
    obtain ip where "canonIP (ie_IP e) = Some ip"
      using enabled_entries_sound[OF inv e(1)] by (auto simp: canonIP_def)
    then have ip: "e \<in> set (rowsOf u (entriesAt ?es ip))" using e by (simp add: rowsOf_def entriesAt_def)
    then have "rowsOf u (entriesAt ?es ip) \<noteq> []" by auto
    then obtain p where p: "p \<in> set ps" "shown enr ha ?es u ip p" using complete by blast
    then have "i \<in> pa_AddressId ` set (pi_Addresses p)" "pi_Ip p = x"
      using shown_addresses[OF p(2)] ip e rows[of e ip] by (auto simp: shown_def)
    then show "(x, i) \<in> ?L" using p(1) by blast
  }
qed

lemma shown_decides:
  assumes cache: "ps_ipSet svc = buildIPSet es ha" and proxy: "\<not> isTrustedProxy svc ip"
    and rows: "rowsOf u (entriesAt es ip) \<noteq> []" and p: "shown enr ha es u ip p"
  shows "pi_BypassAtIp p \<Longrightarrow> dr_Allowed (Decide svc ip host)"
    and "\<not> bypassByUser ha u \<Longrightarrow> dr_Allowed (Decide svc ip host) \<longleftrightarrow> NormaliseHost host \<in> set (pi_EffectiveHosts p)"
proof -
  have "entriesAt es ip \<noteq> []" using rows by (auto simp: rowsOf_def)
  note decide = Decide_at_rows[OF cache this proxy]
  show "pi_BypassAtIp p \<Longrightarrow> dr_Allowed (Decide svc ip host)" using p by (simp add: decide shown_def cellSpec_def Let_def)
  show "dr_Allowed (Decide svc ip host) \<longleftrightarrow> NormaliseHost host \<in> set (pi_EffectiveHosts p)" if "\<not> bypassByUser ha u"
    using shown_hosts(1)[OF p rows that] spec_at_user(1)[OF rows that] by (simp add: decide)
qed

text \<open>C28 (equivalence). The audit view agrees with the engine. For a cache refreshed from the current
  store, the audit lists for every user exactly the user's enabled addresses; at each of them (the
  trusted proxy's apart) the hosts that it shows as effective for a user without bypass are exactly
  those for which \<open>Decide\<close> allows a request from there, the hosts it shows as trimmed are the user's
  other hosts, and at an address that it marks as bypassing every request is allowed.\<close>

theorem audit_shows_decisions:
  assumes "deviceInv s" and "distinct (map us_UserID (st_userSettings s))"
    and "refreshCache start now (storeProviders s) svc0 = (None, svc)"
    and "BuildPolicyUserMap svc np geo s = (Inr audit, s')" and "u \<in> set (ad_Users audit)"
  shows "{(pi_Ip p, i) | p i. p \<in> set (pu_Ips u) \<and> i \<in> pa_AddressId ` set (pi_Addresses p)} =
      {(ie_IP e, ie_AddressID e) | e. e \<in> set (ipEntries s) \<and> ie_UserID e = pu_UserId u} \<and>
    (\<forall>p \<in> set (pu_Ips u). \<exists>ip. ParseAddr (pi_Ip p) = Some ip \<and> (isTrustedProxy svc ip \<or>
      (pi_BypassAtIp p \<longrightarrow> (\<forall>host. dr_Allowed (Decide svc ip host))) \<and>
      (\<not> pu_BypassAllowlist u \<longrightarrow>
        (\<forall>host. dr_Allowed (Decide svc ip host) \<longleftrightarrow> NormaliseHost host \<in> set (pi_EffectiveHosts p)) \<and>
        set (pi_TrimmedHosts p) = hostSetByUser (hostAccessOf s) (pu_UserId u) - set (pi_EffectiveHosts p))))"
proof
  let ?es = "ipEntries s" and ?ha = "hostAccessOf s" and ?u = "pu_UserId u"
  note cache = refreshed_ipSet[OF assms(3)]
  obtain ur enr where ur: "ur \<in> set (auditRows s)" "?u = au_UserID ur" "pu_BypassAllowlist u = au_BypassAllowlist ur"
    and sound: "\<forall>p \<in> set (pu_Ips u). \<exists>ip. rowsOf ?u (entriesAt ?es ip) \<noteq> [] \<and> shown enr ?ha ?es ?u ip p"
    and complete: "\<forall>ip. rowsOf ?u (entriesAt ?es ip) \<noteq> [] \<longrightarrow> (\<exists>p \<in> set (pu_Ips u). shown enr ?ha ?es ?u ip p)"
    by (rule audit_ips[OF assms(1) cache assms(4,5)])
  show "{(pi_Ip p, i) | p i. p \<in> set (pu_Ips u) \<and> i \<in> pa_AddressId ` set (pi_Addresses p)} =
      {(ie_IP e, ie_AddressID e) | e. e \<in> set ?es \<and> ie_UserID e = ?u}"
    by (rule shown_all[OF assms(1) sound complete])
  have bypass: "pu_BypassAllowlist u = bypassByUser ?ha ?u" using settings_bypass[OF assms(2) ur(1)] ur by simp
  show "\<forall>p \<in> set (pu_Ips u). \<exists>ip. ParseAddr (pi_Ip p) = Some ip \<and> (isTrustedProxy svc ip \<or>
      (pi_BypassAtIp p \<longrightarrow> (\<forall>host. dr_Allowed (Decide svc ip host))) \<and>
      (\<not> pu_BypassAllowlist u \<longrightarrow>
        (\<forall>host. dr_Allowed (Decide svc ip host) \<longleftrightarrow> NormaliseHost host \<in> set (pi_EffectiveHosts p)) \<and>
        set (pi_TrimmedHosts p) = hostSetByUser ?ha ?u - set (pi_EffectiveHosts p)))"
  proof
    fix p assume "p \<in> set (pu_Ips u)"
    then obtain ip where ip: "rowsOf ?u (entriesAt ?es ip) \<noteq> []" "shown enr ?ha ?es ?u ip p" using sound by blast
    have "entriesAt ?es ip \<noteq> []" using ip(1) by (auto simp: rowsOf_def)
    then have "ParseAddr (pi_Ip p) = Some ip" using entriesAt_valid ip(2) ParseAddr_print by (simp add: shown_def)
    then show "\<exists>ip. ParseAddr (pi_Ip p) = Some ip \<and> (isTrustedProxy svc ip \<or>
      (pi_BypassAtIp p \<longrightarrow> (\<forall>host. dr_Allowed (Decide svc ip host))) \<and>
      (\<not> pu_BypassAllowlist u \<longrightarrow>
        (\<forall>host. dr_Allowed (Decide svc ip host) \<longleftrightarrow> NormaliseHost host \<in> set (pi_EffectiveHosts p)) \<and>
        set (pi_TrimmedHosts p) = hostSetByUser ?ha ?u - set (pi_EffectiveHosts p)))"
      using shown_decides[OF cache _ ip] shown_hosts(2)[OF ip(2,1)] bypass by blast
  qed
qed

definition auditStore :: store where
  "auditStore = deviceStore\<lparr>
     st_users := [sampleUser, sampleUser\<lparr>u_ID := 2, u_Username := ''eve''\<rparr>, sampleUser\<lparr>u_ID := 3, u_Username := ''tom''\<rparr>],
     st_devices := [sampleRow 1 ''phone'' None, (sampleRow 2 ''tablet'' None)\<lparr>d_OwnerID := 2\<rparr>],
     st_addresses := [\<lparr>a_ID = 1, a_DeviceID = 1, a_IP = ''10.0.0.9'', a_IsEnabled = True, a_Source = EventSourceHeartbeat, a_CreatedAt = 3, a_UpdatedAt = 3\<rparr>,
       \<lparr>a_ID = 2, a_DeviceID = 2, a_IP = ''10.0.0.9'', a_IsEnabled = True, a_Source = EventSourceWebUI, a_CreatedAt = 3, a_UpdatedAt = 4\<rparr>],
     st_hosts := [\<lparr>h_ID = 1, h_FQDN = ''a.io'', h_UpdatedAt = 0, h_CreatedAt = 0\<rparr>],
     st_groupMembers := [(1, 1), (2, 1)], st_userGroups := [(1, 1), (3, 1), (3, 2)],
     st_userSettings := [\<lparr>us_UserID = 1, us_BypassHostCheck = False\<rparr>, \<lparr>us_UserID = 2, us_BypassHostCheck = True\<rparr>,
       \<lparr>us_UserID = 3, us_BypassHostCheck = False\<rparr>]\<rparr>"

definition auditService :: policyService where
  "auditService = snd (refreshCache 0 0 (storeProviders auditStore) sampleService)"

definition auditView :: PolicyUserMapAudit where
  "auditView = projr (fst (BuildPolicyUserMap auditService None None auditStore))"

lemma auditView_ok:
  "BuildPolicyUserMap auditService None None auditStore = (Inr auditView, auditStore)"
  "refreshCache 0 0 (storeProviders auditStore) sampleService = (None, auditService)"
proof -
  show "refreshCache 0 0 (storeProviders auditStore) sampleService = (None, auditService)"
    by (simp add: auditService_def refreshCache_def storeProviders_def GetEnabledIPEntries_eq GetAllUserHostAccess_eq
        GetEnabledCacheEntries_def)
  show "BuildPolicyUserMap auditService None None auditStore = (Inr auditView, auditStore)"
    by (simp add: auditView_def BuildPolicyUserMap_def getPolicyAddressEnrichment_def getAllUsersForPolicyAudit_def andThen_def Let_def)
qed

lemma auditStore_ok: "deviceInv auditStore" "distinct (map us_UserID (st_userSettings auditStore))"
  by code_simp+

definition userShown :: "PolicyUserEntry \<Rightarrow> bool \<times> string list \<times> nat \<times> (string \<times> bool \<times> string list \<times> string list) list" where
  "userShown u = (pu_BypassAllowlist u, pu_UserAllowedHosts u, pu_AllowedHostCount u,
     map (\<lambda>p. (pi_Ip p, pi_BypassAtIp p, pi_EffectiveHosts p, pi_TrimmedHosts p)) (pu_Ips u))"

lemma auditView_users: "map userShown (ad_Users auditView) =
    [(False, [''a.io''], 1, [(''10.0.0.9'', False, [''a.io''], [])]), (True, [], 0, [(''10.0.0.9'', False, [], [])]),
     (False, [''a.io'', ''a.io''], 2, [])]"
  by code_simp

lemma map_memE: "y \<in> set (map f xs) \<Longrightarrow> (\<And>x. x \<in> set xs \<Longrightarrow> f x = y \<Longrightarrow> P) \<Longrightarrow> P"
  by auto

theorem audit_shows_decisions_witness:
  "\<exists>u \<in> set (ad_Users auditView). \<exists>p \<in> set (pu_Ips u). pi_EffectiveHosts p = [''a.io''] \<and>
     dr_Allowed (Decide auditService (V4 0x0A000009) ''A.io:443'') \<and> \<not> dr_Allowed (Decide auditService (V4 0x0A000009) ''b.io'')"
proof -
  have "(False, [''a.io''], 1, [(''10.0.0.9'', False, [''a.io''], [])]) \<in> set (map userShown (ad_Users auditView))"
    unfolding auditView_users by simp
  then obtain u where u: "u \<in> set (ad_Users auditView)"
    "userShown u = (False, [''a.io''], 1, [(''10.0.0.9'', False, [''a.io''], [])])"
    by (rule map_memE)
  then obtain p where p: "p \<in> set (pu_Ips u)" "pi_Ip p = ''10.0.0.9''" "pi_EffectiveHosts p = [''a.io'']" "\<not> pu_BypassAllowlist u"
    by (auto simp: userShown_def map_eq_Cons_conv)
  have vals: "ParseAddr ''10.0.0.9'' = Some (V4 0x0A000009)" "\<not> isTrustedProxy auditService (V4 0x0A000009)"
    "NormaliseHost ''A.io:443'' = ''a.io''" "NormaliseHost ''b.io'' = ''b.io''"
    by code_simp+
  note shown = audit_shows_decisions[OF auditStore_ok auditView_ok(2,1) u(1), THEN conjunct2, rule_format, OF p(1)]
  have "dr_Allowed (Decide auditService (V4 0x0A000009) host) \<longleftrightarrow> NormaliseHost host \<in> {''a.io''}" for host
    using shown vals(1,2) p by auto
  then show ?thesis using u(1) p vals by (intro bexI[of _ u] bexI[of _ p]) simp_all
qed

section \<open>The form of the audit\<close>

text \<open>Every cell map of the index has its addresses once and is not empty, whatever the snapshot is.\<close>

definition indexOK :: "userIPIndex \<Rightarrow> bool" where
  "indexOK B \<longleftrightarrow> (\<forall>u cells. map_of B u = Some cells \<longrightarrow> distinct (map fst cells) \<and> cells \<noteq> [])"

lemma contributorStep_ok: "indexOK B \<Longrightarrow> indexOK (fst (contributorStep enr e c (B, U)))"
proof (cases "known enr c")
  case True
  assume ok: "indexOK B"
  then have "distinct (map fst (valueOr [] (map_of B (ca_UserID c))))"
    by (cases "map_of B (ca_UserID c)") (auto simp: indexOK_def)
  then show ?thesis unfolding contributorStep_known[OF True] Let_def using ok
    by (auto simp: indexOK_def distinct_update update_nonempty)
qed (simp add: contributorStep_unknown)

lemma entryStep_ok: "indexOK B \<Longrightarrow> indexOK (fst (entryStep enr e (B, U)))"
proof -
  have "indexOK (fst (fold (contributorStep enr e) cs (B', U')))" if "indexOK B'" for cs B' U'
    using that
  proof (induction cs arbitrary: B' U')
    case (Cons c cs)
    then show ?case using contributorStep_ok[OF Cons.prems, of enr e c U'] by (cases "contributorStep enr e c (B', U')") simp
  qed simp
  then show "indexOK B \<Longrightarrow> ?thesis" by (simp add: entryStep_def Let_def)
qed

lemma buildIPIndex_ok: "indexOK (fst (buildIPIndex snap enr))"
proof -
  have "indexOK (fst (fold (entryStep enr) es (B, U)))" if "indexOK B" for es B U
    using that
  proof (induction es arbitrary: B U)
    case (Cons e es)
    then show ?case using entryStep_ok[OF Cons.prems, of enr e U] by (cases "entryStep enr e (B, U)") simp
  qed simp
  moreover have "indexOK []" by (simp add: indexOK_def)
  ultimately show ?thesis unfolding buildIPIndex_def by blast
qed

definition wellFormedIP :: "id \<Rightarrow> PolicyUserIP \<Rightarrow> bool" where
  "wellFormedIP u p \<longleftrightarrow> sorted (map pa_AddressId (pi_Addresses p)) \<and>
     sorted_wrt (<) (map sh_UserId (pi_SharedWithUsers p)) \<and> u \<notin> sh_UserId ` set (pi_SharedWithUsers p) \<and>
     (pi_BypassAtIp p \<longrightarrow> pi_EffectiveHosts p = [] \<and> pi_TrimmedHosts p = [])"

definition wellFormedUser :: "PolicyUserEntry \<Rightarrow> bool" where
  "wellFormedUser u \<longleftrightarrow> pu_IpCount u = length (pu_Ips u) \<and> pu_AllowedHostCount u = length (pu_UserAllowedHosts u) \<and>
     (pu_BypassAllowlist u \<longrightarrow> pu_UserAllowedHosts u = []) \<and>
     pu_Status u = DeriveUserStatus (pu_BypassAllowlist u) (pu_IpCount u) (pu_AllowedHostCount u) \<and>
     sorted_wrt (<) (map pi_Ip (pu_Ips u)) \<and> (pu_OnSharedIp u \<longleftrightarrow> (\<exists>p \<in> set (pu_Ips u). pi_SharedWithUsers p \<noteq> [])) \<and>
     (\<forall>p \<in> set (pu_Ips u). wellFormedIP (pu_UserId u) p)"

lemma buildUserIP_wf: "wellFormedIP u (buildUserIP u U B info cell)"
proof (cases "finite (valueOr {} (map_of U (fst cell)))")
  case True
  then have "finite {uid \<in> valueOr {} (map_of U (fst cell)). uid \<noteq> u}" by simp
  then show ?thesis
    by (auto simp: wellFormedIP_def buildUserIP_def Let_def sharedUser_def comp_def strict_sorted_list_of_set split: prod.splits)
next
  case False
  then have "infinite {uid \<in> valueOr {} (map_of U (fst cell)). uid \<noteq> u}"
    using finite_subset[of "valueOr {} (map_of U (fst cell))" "insert u {uid \<in> valueOr {} (map_of U (fst cell)). uid \<noteq> u}"] by auto
  then show ?thesis by (auto simp: wellFormedIP_def buildUserIP_def Let_def split: prod.splits)
qed

lemma buildUserIPs_ips: "map pi_Ip (buildUserIPs u cells U B info) = sort (map fst cells)"
  by (simp add: buildUserIPs_def buildUserIP_def Let_def comp_def)

lemma userEntry_wf:
  assumes "indexOK B"
  shows "wellFormedUser (snd (userEntry B U info allowed ur))"
proof (cases "map_of B (au_UserID ur)")
  case None
  then show ?thesis by (auto simp: userEntry_def Let_def wellFormedUser_def)
next
  case (Some cells)
  then have d: "distinct (map fst cells)" using assms by (simp add: indexOK_def)
  let ?ips = "buildUserIPs (au_UserID ur) cells U B info"
  have "sorted_wrt (<) (map pi_Ip ?ips)" using d by (simp add: buildUserIPs_ips strict_sorted_iff)
  moreover have "\<forall>p \<in> set ?ips. wellFormedIP (au_UserID ur) p" using buildUserIP_wf by (auto simp: buildUserIPs_def)
  ultimately show ?thesis using Some by (auto simp: userEntry_def Let_def wellFormedUser_def anySharedIP_def list_ex_iff)
qed

lemma geoEntry_wf: "wellFormedUser (geoEntry geo u) = wellFormedUser u"
proof -
  have "wellFormedIP i (p\<lparr>pi_Geo := g\<rparr>) = wellFormedIP i p" for i p g by (simp add: wellFormedIP_def)
  then show ?thesis by (simp add: wellFormedUser_def geoEntry_def enrichGeo_def comp_def split: option.splits)
qed

lemma audit_no_trimming:
  assumes "deviceInv s" and "distinct (map us_UserID (st_userSettings s))"
    and "refreshCache start now (storeProviders s) svc0 = (None, svc)" and "BuildPolicyUserMap svc np geo s = (Inr audit, s')"
  shows "\<forall>u \<in> set (ad_Users audit). pu_BypassAllowlist u \<longrightarrow> (\<forall>p \<in> set (pu_Ips u). pi_TrimmedHosts p = [])"
proof (intro ballI impI)
  fix u p assume u: "u \<in> set (ad_Users audit)" "pu_BypassAllowlist u" "p \<in> set (pu_Ips u)"
  let ?es = "ipEntries s" and ?ha = "hostAccessOf s"
  obtain ur enr where ur: "ur \<in> set (auditRows s)" "pu_UserId u = au_UserID ur" "pu_BypassAllowlist u = au_BypassAllowlist ur"
    and sound: "\<forall>p \<in> set (pu_Ips u). \<exists>ip. rowsOf (pu_UserId u) (entriesAt ?es ip) \<noteq> [] \<and> shown enr ?ha ?es (pu_UserId u) ip p"
    by (rule audit_ips[OF assms(1) refreshed_ipSet[OF assms(3)] assms(4) u(1)])
  have "bypassByUser ?ha (pu_UserId u)" using settings_bypass[OF assms(2) ur(1)] ur u(2) by simp
  moreover obtain ip where "shown enr ?ha ?es (pu_UserId u) ip p" using sound u(3) by blast
  ultimately show "pi_TrimmedHosts p = []" by (simp add: shown_def cellSpec_def Let_def)
qed

text \<open>C40 (type). In an audit built from a cache that was refreshed from the same store, every entry is consistent: the counts are
  the lengths of the lists, the status is the one derived from the flags and counts shown, addresses are
  listed once and in order, each with the user's own addresses in order and the other users there in
  order and without the user, an address that bypasses the host check shows no host lists, and a user with
  bypass has no allowed hosts listed and no trimmed hosts at any address. The users are the live
  ones, by name, and the totals are those of the entries. (The device invariant holds and a user has one row of settings.)\<close>

theorem audit_well_formed:
  assumes "deviceInv s" and "distinct (map us_UserID (st_userSettings s))"
    and "refreshCache start now (storeProviders s) svc0 = (None, svc)" and "BuildPolicyUserMap svc np geo s = (Inr audit, s')"
  shows "list_all wellFormedUser (ad_Users audit) \<and>
    (\<forall>u \<in> set (ad_Users audit). pu_BypassAllowlist u \<longrightarrow> (\<forall>p \<in> set (pu_Ips u). pi_TrimmedHosts p = [])) \<and>
    map pu_UserId (ad_Users audit) =
      map u_ID (sort_key (\<lambda>u. (u_DisplayName u, u_ID u)) (filter (\<lambda>u. u_DeletedAt u = None) (st_users s))) \<and>
    ad_TotalNetworkPolicyCount audit = length (ad_NetworkPolicies audit) \<and>
    ad_TotalDeviceCount audit = sum_list (map pu_DeviceCount (ad_Users audit))"
proof -
  obtain enr where audit: "ad_Users audit = map (geoEntry geo) (ad_Users (assemblePolicyUserMap (GetPolicyMap svc) enr (auditRows s) (grantedHosts s)))"
      "ad_TotalDeviceCount audit = ad_TotalDeviceCount (assemblePolicyUserMap (GetPolicyMap svc) enr (auditRows s) (grantedHosts s))"
    and np: "\<exists>es. (case np of None \<Rightarrow> ret [] | Some provider \<Rightarrow> provider) s = (Inr es, s') \<and>
      ad_NetworkPolicies audit = map (policyEntryOf (length (st_hosts s'))) es \<and> ad_TotalNetworkPolicyCount audit = length es"
    by (rule BuildPolicyUserMap_parts[OF assms(4)])
  let ?B = "fst (buildIPIndex (GetPolicyMap svc) enr)" and ?U = "snd (buildIPIndex (GetPolicyMap svc) enr)"
  let ?info = "foldl (\<lambda>m ur. m(au_UserID ur \<mapsto> ur)) Map.empty (auditRows s)"
  let ?entry = "userEntry ?B ?U ?info (grantedHosts s)"
  have users: "ad_Users audit = map (geoEntry geo \<circ> (snd \<circ> ?entry)) (auditRows s)"
    unfolding audit by (simp add: assemblePolicyUserMap_def Let_def comp_def)
  have ids: "pu_UserId (geoEntry geo (snd (?entry ur))) = au_UserID ur" for ur
    by (auto simp: geoEntry_def userEntry_def Let_def split: option.splits)
  have "list_all wellFormedUser (ad_Users audit)"
    unfolding users by (simp add: list_all_iff geoEntry_wf userEntry_wf[OF buildIPIndex_ok])
  moreover have "map pu_UserId (ad_Users audit) =
      map u_ID (sort_key (\<lambda>u. (u_DisplayName u, u_ID u)) (filter (\<lambda>u. u_DeletedAt u = None) (st_users s)))"
    unfolding users by (simp add: comp_def ids) (simp add: auditRows_def auditUserRow_def comp_def)
  moreover have "ad_TotalDeviceCount audit = sum_list (map pu_DeviceCount (ad_Users audit))"
    unfolding users audit(2) by (simp add: assemblePolicyUserMap_def Let_def comp_def geoEntry_def)
  ultimately show ?thesis using np audit_no_trimming[OF assms] by auto
qed

theorem audit_well_formed_witness:
  "length (ad_Users auditView) = 3 \<and> list_all wellFormedUser (ad_Users auditView) \<and>
   (\<exists>u \<in> set (ad_Users auditView). pu_BypassAllowlist u \<and> pu_Ips u \<noteq> [] \<and> (\<forall>p \<in> set (pu_Ips u). pi_TrimmedHosts p = []))"
proof -
  note wf = audit_well_formed[OF auditStore_ok auditView_ok(2,1)]
  have "length (map userShown (ad_Users auditView)) = 3" unfolding auditView_users by simp
  moreover have "(True, [], 0, [(''10.0.0.9'', False, [], [])]) \<in> set (map userShown (ad_Users auditView))"
    unfolding auditView_users by simp
  then obtain u where u: "u \<in> set (ad_Users auditView)" "userShown u = (True, [], 0, [(''10.0.0.9'', False, [], [])])"
    by (rule map_memE)
  then have "pu_BypassAllowlist u" "pu_Ips u \<noteq> []" by (auto simp: userShown_def)
  ultimately show ?thesis using wf u(1) by auto
qed

text \<open>A cache that is older than the flag of a user still trims: the user with bypass is shown with a trimmed host.\<close>

definition staleStore :: store where
  "staleStore = auditStore\<lparr>st_userGroups := [(1, 1)],
     st_userSettings := [\<lparr>us_UserID = 1, us_BypassHostCheck = True\<rparr>, \<lparr>us_UserID = 2, us_BypassHostCheck = False\<rparr>]\<rparr>"

definition staleService :: policyService where
  "staleService = snd (refreshCache 0 0 (storeProviders (staleStore\<lparr>st_userSettings := [\<lparr>us_UserID = 1, us_BypassHostCheck = False\<rparr>,
     \<lparr>us_UserID = 2, us_BypassHostCheck = False\<rparr>]\<rparr>)) sampleService)"

lemma stale_cache_trims:
  "map (\<lambda>(bypass, hosts, n, ips). (bypass, ips)) (map userShown (ad_Users (projr (fst (BuildPolicyUserMap staleService None None staleStore))))) =
     [(True, [(''10.0.0.9'', False, [], [''a.io''])]), (False, [(''10.0.0.9'', False, [], [])]), (False, [])]"
  by code_simp

text \<open>What the audit shows of users who bypass the host check does not say what they reach: at an
  address that they share with a restricted user the decisions are those of the restricted user, while
  neither effective nor trimmed hosts are shown. And the fallback list of a user without live
  addresses counts a host once for every group that grants it.\<close>

lemma bypass_user_looks_free:
  "map (\<lambda>(bypass, hosts, n, ips). (bypass, ips)) (map userShown (ad_Users auditView)) =
     [(False, [(''10.0.0.9'', False, [''a.io''], [])]), (True, [(''10.0.0.9'', False, [], [])]), (False, [])]"
  "\<not> dr_Allowed (Decide auditService (V4 0x0A000009) ''b.io'')"
  unfolding auditView_users by (simp, code_simp)

lemma offline_hosts_counted_twice:
  "map (\<lambda>(bypass, hosts, n, ips). (hosts, n)) (map userShown (ad_Users auditView)) =
     [([''a.io''], 1), ([], 0), ([''a.io'', ''a.io''], 2)]"
  unfolding auditView_users by simp

end
