(* ===== verification/Suggestions.thy ===== *)
theory Suggestions
  imports Hosts Rollup_Reads
begin

text \<open>
  Hosts that receive requests and are neither registered nor ignored (\<open>src/internal/queries/host_suggestions.go\<close>): counted from the hourly
  aggregates for the complete hours of the last week and from the log for the current hour, under the name by which the policy engine
  would look them up. The page and the dashboard's counter share one computation.

  The order of a Go map does not matter: the page is sorted by a total order on distinct names. \<open>LOWER\<close> of SQLite is \<open>ToLower\<close> on bytes. The
  creation times of ignored hosts are not kept in the store.
\<close>

section \<open>The queries\<close>

definition hostSuggestionsWindow :: time where
  "hostSuggestionsWindow = 7 * 24 * hour"

definition ignoredHostSuggestions :: "store \<Rightarrow> (id \<times> string) list" where
  "ignoredHostSuggestions s = sort_key snd (st_ignored s)"

definition knownHostSet :: "store \<Rightarrow> string \<Rightarrow> bool" where
  "knownHostSet s fqdn \<longleftrightarrow> fqdn \<in> set (map (\<lambda>h. NormaliseHost (h_FQDN h)) (st_hosts s))"

definition ignoredSet :: "store \<Rightarrow> string \<Rightarrow> bool" where
  "ignoredSet s fqdn \<longleftrightarrow> fqdn \<in> set (map (\<lambda>g. NormaliseHost (snd g)) (ignoredHostSuggestions s))"

record hostSuggestionRow =
  sr_FQDN :: string
  sr_FirstSeen :: time
  sr_AllowedHits :: int
  sr_DeniedHits :: int

record hostSuggestionAggregate =
  sa_firstSeen :: time
  sa_allowedHits :: int
  sa_deniedHits :: int

definition minOf :: "time list \<Rightarrow> time" where
  "minOf ts = fold min (tl ts) (hd ts)"

definition rawHostSuggestionRows :: "time \<Rightarrow> time \<Rightarrow> store \<Rightarrow> hostSuggestionRow list" where
  "rawHostSuggestionRows from to s = map (\<lambda>(fqdn, rows). \<lparr>sr_FQDN = fqdn, sr_FirstSeen = minOf (map al_CreatedAt rows),
       sr_AllowedHits = countRows al_Outcome rows, sr_DeniedHits = countRows (\<lambda>r. \<not> al_Outcome r) rows\<rparr>)
     (groupBy (\<lambda>r. ToLower (the (al_TargetHost r))) (filter (\<lambda>r. al_TargetHost r \<noteq> None) (rowsBetween from to s)))"

definition aggregateHostSuggestionRows :: "time \<Rightarrow> time \<Rightarrow> store \<Rightarrow> hostSuggestionRow list" where
  "aggregateHostSuggestionRows from to s = map (\<lambda>(fqdn, as). \<lparr>sr_FQDN = fqdn, sr_FirstSeen = minOf (map ta_BucketAt as),
       sr_AllowedHits = sumRequests ta_Outcome as, sr_DeniedHits = sumRequests (\<lambda>a. \<not> ta_Outcome a) as\<rparr>)
     (groupBy ta_TargetHost (filter (\<lambda>a. ta_TargetHost a \<noteq> []) (aggregatesBetween from to s)))"

definition mergeRow :: "(string \<Rightarrow> bool) \<Rightarrow> hostSuggestionRow \<Rightarrow> (string \<times> hostSuggestionAggregate) list \<Rightarrow> (string \<times> hostSuggestionAggregate) list" where
  "mergeRow skip row m = (let fqdn = NormaliseHost (sr_FQDN row) in
     if skip fqdn then m
     else let a = (case map_of m fqdn of None \<Rightarrow> \<lparr>sa_firstSeen = sr_FirstSeen row, sa_allowedHits = 0, sa_deniedHits = 0\<rparr>
           | Some a \<Rightarrow> if sr_FirstSeen row < sa_firstSeen a then a\<lparr>sa_firstSeen := sr_FirstSeen row\<rparr> else a)
       in AList.update fqdn (a\<lparr>sa_allowedHits := sa_allowedHits a + sr_AllowedHits row, sa_deniedHits := sa_deniedHits a + sr_DeniedHits row\<rparr>) m)"

definition pendingHostSuggestions :: "time \<Rightarrow> time \<Rightarrow> (string \<Rightarrow> bool) \<Rightarrow> (string \<Rightarrow> bool) \<Rightarrow> store \<Rightarrow> (string \<times> hostSuggestionAggregate) list" where
  "pendingHostSuggestions now since known ignored s =
    (let rows = (if now - since \<le> RawWindowThreshold then rawHostSuggestionRows since now s
         else aggregateHostSuggestionRows since (hourOf now) s @ rawHostSuggestionRows (hourOf now) now s)
     in fold (mergeRow (\<lambda>fqdn. ValidateFQDN fqdn \<noteq> None \<or> known fqdn \<or> ignored fqdn)) rows [])"

record HostSuggestion =
  hs_Fqdn :: string
  hs_FirstSeen :: time
  hs_AllowedHits :: int
  hs_DeniedHits :: int

record HostSuggestionsPage =
  hp_Suggestions :: "HostSuggestion list"
  hp_Ignored :: "(id \<times> string) list"

definition GetHostSuggestionsPage :: "time \<Rightarrow> store \<Rightarrow> HostSuggestionsPage" where
  "GetHostSuggestionsPage now s =
    (let merged = pendingHostSuggestions now (now - hostSuggestionsWindow) (knownHostSet s) (ignoredSet s) s
     in \<lparr>hp_Suggestions = sort_key (\<lambda>x. (- hs_DeniedHits x, - hs_AllowedHits x, hs_Fqdn x))
           (map (\<lambda>(fqdn, a). \<lparr>hs_Fqdn = fqdn, hs_FirstSeen = sa_firstSeen a, hs_AllowedHits = sa_allowedHits a, hs_DeniedHits = sa_deniedHits a\<rparr>) merged),
         hp_Ignored = ignoredHostSuggestions s\<rparr>)"

definition countPendingHostSuggestions :: "time \<Rightarrow> store \<Rightarrow> int" where
  "countPendingHostSuggestions now s =
    int (length (pendingHostSuggestions now (now - hostSuggestionsWindow) (knownHostSet s) (ignoredSet s) s))"

section \<open>Normal forms do not depend on case\<close>

lemma lowerChar_fixed: "lowerChar x = c \<longleftrightarrow> x = c" if "\<not> isUpper c" "\<not> isLower c"
  using that lowerChar_eq_iff by metis

lemma indexByte_ToLower: "\<not> isUpper c \<Longrightarrow> \<not> isLower c \<Longrightarrow> indexByte c (ToLower s) = indexByte c s"
  by (induction s) (simp_all add: ToLower_def lowerChar_fixed)

lemma lastIndexByte_ToLower: "\<not> isUpper c \<Longrightarrow> \<not> isLower c \<Longrightarrow> lastIndexByte c (ToLower s) = lastIndexByte c s"
  by (induction s) (simp_all add: ToLower_def lowerChar_fixed)

lemma TrimSpace_ToLower: "TrimSpace (ToLower s) = ToLower (TrimSpace s)"
proof -
  have drop: "dropWhile isSpace (map lowerChar xs) = map lowerChar (dropWhile isSpace xs)" for xs
    by (induction xs) (simp_all add: isSpace_lowerChar)
  show ?thesis by (simp add: TrimSpace_def ToLower_def drop rev_map)
qed

lemma marks_fixed: "\<not> isUpper CHR '':''" "\<not> isLower CHR '':''" "\<not> isUpper CHR ''[''" "\<not> isLower CHR ''[''" "\<not> isUpper CHR '']''" "\<not> isLower CHR '']''"
  by (simp_all add: isUpper_def isLower_def byte_literals)

lemma mark_in_ToLower: "\<not> isUpper c \<Longrightarrow> \<not> isLower c \<Longrightarrow> c \<in> lowerChar ` set s \<longleftrightarrow> c \<in> set s"
proof (induction s)
  case (Cons x xs)
  then show ?case using lowerChar_fixed[of c x] by (auto simp del: lowerChar_eq_iff)
qed simp

lemma SplitHostPort_ToLower: "SplitHostPort (ToLower s) = map_option (\<lambda>(h, p). (ToLower h, ToLower p)) (SplitHostPort s)"
proof (cases s)
  case (Cons x xs)
  have "hd (ToLower s) = CHR ''['' \<longleftrightarrow> hd s = CHR ''[''" by (simp add: Cons ToLower_def lowerChar_fixed marks_fixed)
  then show ?thesis
    by (simp add: SplitHostPort_def Let_def lastIndexByte_ToLower indexByte_ToLower marks_fixed length_ToLower split: option.split)
      (simp add: ToLower_def drop_map take_map mark_in_ToLower[OF marks_fixed(1,2)] mark_in_ToLower[OF marks_fixed(3,4)] mark_in_ToLower[OF marks_fixed(5,6)])
qed (simp add: ToLower_def SplitHostPort_def)

lemma NormaliseHost_ToLower: "NormaliseHost (ToLower h) = NormaliseHost h"
proof -
  have digit: "isDigit (lowerChar c) = isDigit c" for c using byte_lowerChar[of c] by (auto simp: isDigit_def isUpper_def)
  have port: "isNumericPort (ToLower p) = isNumericPort p" for p by (simp add: isNumericPort_def ToLower_def list_all_iff digit)
  have fqdn: "NormaliseFQDN (ToLower x) = NormaliseFQDN x" for x by (simp add: NormaliseFQDN_def TrimSpace_ToLower ToLower_ToLower)
  show ?thesis by (simp add: NormaliseHost_def TrimSpace_ToLower SplitHostPort_ToLower port fqdn split: option.split)
qed

section \<open>What the merge computes\<close>

lemma minOf_Min: "ts \<noteq> [] \<Longrightarrow> minOf ts = Min (set ts)"
  using Min.set_eq_fold[of "hd ts" "tl ts"] by (simp add: minOf_def)

definition named :: "string \<Rightarrow> hostSuggestionRow list \<Rightarrow> hostSuggestionRow list" where
  "named fqdn rows = filter (\<lambda>r. NormaliseHost (sr_FQDN r) = fqdn) rows"

definition mergedOf :: "hostSuggestionRow list \<Rightarrow> hostSuggestionAggregate" where
  "mergedOf rs = \<lparr>sa_firstSeen = Min (sr_FirstSeen ` set rs), sa_allowedHits = sum_list (map sr_AllowedHits rs), sa_deniedHits = sum_list (map sr_DeniedHits rs)\<rparr>"

lemma mergeRow_distinct: "distinct (map fst m) \<Longrightarrow> distinct (map fst (mergeRow skip r m))"
  by (simp add: mergeRow_def Let_def distinct_update)

lemma mergeRow_other: "NormaliseHost (sr_FQDN r) \<noteq> k \<or> skip k \<Longrightarrow> map_of (mergeRow skip r m) k = map_of m k"
  by (cases "skip (NormaliseHost (sr_FQDN r))") (auto simp: mergeRow_def Let_def update_conv simp del: map_of_eq_None_iff)

lemma merge_spec:
  "distinct (map fst (fold (mergeRow skip) rows [])) \<and>
   map_of (fold (mergeRow skip) rows []) k = (if skip k \<or> named k rows = [] then None else Some (mergedOf (named k rows)))"
proof (induction rows rule: rev_induct)
  case Nil
  then show ?case by (simp add: named_def)
next
  case (snoc r rows)
  let ?m = "fold (mergeRow skip) rows []" and ?n = "NormaliseHost (sr_FQDN r)"
  have dist: "distinct (map fst (mergeRow skip r ?m))" using snoc mergeRow_distinct by blast
  have named: "named k (rows @ [r]) = (if ?n = k then named k rows @ [r] else named k rows)" by (simp add: named_def)
  have "map_of (mergeRow skip r ?m) k = (if skip k \<or> named k (rows @ [r]) = [] then None else Some (mergedOf (named k (rows @ [r]))))"
  proof (cases "?n = k \<and> \<not> skip k")
    case True
    have "min x m = (if x < m then x else m)" for x m :: time by (simp add: min_def)
    then have "Min (insert x A) = (if x < Min A then x else Min A)" if "finite A" "A \<noteq> {}" for x :: time and A by (simp only: Min_insert[OF that])
    note min = this
    show ?thesis
    proof (cases "named k rows = []")
      case none: True
      then have "map_of ?m k = None" using snoc by simp
      then show ?thesis using True none unfolding named by (simp add: mergeRow_def[of skip r ?m] Let_def update_conv mergedOf_def)
    next
      case False
      then have "map_of ?m k = Some (mergedOf (named k rows))" using snoc True by simp
      then show ?thesis using True min[of "sr_FirstSeen ` set (named k rows)" "sr_FirstSeen r"] False unfolding named
        by (simp add: mergeRow_def[of skip r ?m] Let_def update_conv mergedOf_def del: Min_less_iff Min_gr_iff)
    qed
  next
    case False
    then have "map_of (mergeRow skip r ?m) k = map_of ?m k" by (intro mergeRow_other) blast
    then show ?thesis using False conjunct2[OF snoc] unfolding named by (simp del: map_of_eq_None_iff split: if_splits)
  qed
  then show ?case using dist by simp
qed

section \<open>Rows of groups\<close>

lemma Min_groups:
  assumes "\<And>k ys. (k, ys) \<in> set (groupBy f xs) \<Longrightarrow> m (k, ys) = Min (v ` set ys)" "xs \<noteq> []"
  shows "Min (m ` set (groupBy f xs)) = Min (v ` set xs)"
proof -
  have "m ` set (groupBy f xs) = (\<lambda>k. Min (v ` {x \<in> set xs. f x = k})) ` f ` set xs" (is "_ = ?M")
    using assms(1) unfolding groupBy_set image_image by (intro image_cong refl) (auto simp: groupBy_mem)
  moreover have "Min ?M = Min (v ` set xs)"
  proof (rule Min_eqI)
    show "finite ?M" by simp
    show "Min (v ` set xs) \<le> y" if "y \<in> ?M" for y using that by (auto intro!: Min_antimono)
    have "Min (v ` set xs) \<in> v ` set xs" using assms(2) by (intro Min_in) simp_all
    then obtain x where x: "x \<in> set xs" "v x = Min (v ` set xs)" by force
    have "Min (v ` {y \<in> set xs. f y = f x}) = v x" by (rule Min_eqI) (use x(1) in \<open>auto simp: x(2)\<close>, force simp: x(2)[symmetric])
    then show "Min (v ` set xs) \<in> ?M" using x by force
  qed
  ultimately show ?thesis by simp
qed

text \<open>The rows of a query with a given normal form, as sums and minima over what was grouped.\<close>

lemma named_groups:
  assumes rows: "rows = map (\<lambda>(k, ys). \<lparr>sr_FQDN = k, sr_FirstSeen = minOf (map v ys), sr_AllowedHits = al ys, sr_DeniedHits = dn ys\<rparr>) (groupBy f xs)"
    and sums: "\<And>ys. al ys = (\<Sum>y \<leftarrow> ys. a y)" "\<And>ys. dn ys = (\<Sum>y \<leftarrow> ys. d y)"
    and part: "ps = filter (\<lambda>x. NormaliseHost (f x) = k) xs"
  shows "named k rows = [] \<longleftrightarrow> ps = []" "sr_FirstSeen ` set (named k rows) = {} \<or> Min (sr_FirstSeen ` set (named k rows)) = Min (v ` set ps)"
    "sum_list (map sr_AllowedHits (named k rows)) = (\<Sum>x \<leftarrow> ps. a x)" "sum_list (map sr_DeniedHits (named k rows)) = (\<Sum>x \<leftarrow> ps. d x)"
proof -
  have eq: "named k rows = map (\<lambda>(k, ys). \<lparr>sr_FQDN = k, sr_FirstSeen = minOf (map v ys), sr_AllowedHits = al ys, sr_DeniedHits = dn ys\<rparr>) (groupBy f ps)"
    using groupBy_filter[of "\<lambda>h. NormaliseHost h = k" f xs] by (simp add: named_def rows part filter_map comp_def case_prod_beta)
  have empty: "groupBy f ps = [] \<longleftrightarrow> ps = []" by (simp add: groupBy_def) (metis map_is_Nil_conv set_empty set_map set_remdups set_sort)
  show "named k rows = [] \<longleftrightarrow> ps = []" by (simp add: eq empty)
  show "sum_list (map sr_AllowedHits (named k rows)) = (\<Sum>x \<leftarrow> ps. a x)" "sum_list (map sr_DeniedHits (named k rows)) = (\<Sum>x \<leftarrow> ps. d x)"
    using sum_groupBy[where f = f and xs = ps and h = a] sum_groupBy[where f = f and xs = ps and h = d] by (simp_all add: eq comp_def case_prod_beta sums)
  have "(sr_FirstSeen \<circ> (\<lambda>(k, ys). \<lparr>sr_FQDN = k, sr_FirstSeen = minOf (map v ys), sr_AllowedHits = al ys, sr_DeniedHits = dn ys\<rparr>)) (j, ys) = Min (v ` set ys)"
    if "(j, ys) \<in> set (groupBy f ps)" for j ys using groupBy_nonempty[OF that] by (simp add: minOf_Min)
  note first = Min_groups[OF this]
  show "sr_FirstSeen ` set (named k rows) = {} \<or> Min (sr_FirstSeen ` set (named k rows)) = Min (v ` set ps)"
  proof (cases "ps = []")
    case True
    then show ?thesis using empty by (simp add: eq)
  next
    case False
    then show ?thesis using first by (simp add: eq image_image comp_def)
  qed
qed

section \<open>Suggestions and requests\<close>

definition requestsSince :: "time \<Rightarrow> store \<Rightarrow> AccessLogRow list" where
  "requestsSince now s = filter (\<lambda>r. al_TargetHost r \<noteq> None \<and> ceilHour (now - hostSuggestionsWindow) \<le> al_CreatedAt r \<and> al_CreatedAt r < now) (st_accessLog s)"

definition forHost :: "string \<Rightarrow> AccessLogRow list \<Rightarrow> AccessLogRow list" where
  "forHost fqdn rows = filter (\<lambda>r. NormaliseHost (the (al_TargetHost r)) = fqdn) rows"

text \<open>Requests of complete hours are dated to the hour.\<close>

definition seenAt :: "time \<Rightarrow> AccessLogRow \<Rightarrow> time" where
  "seenAt now r = (if al_CreatedAt r < hourOf now then hourOf (al_CreatedAt r) else al_CreatedAt r)"

lemma ceilHour_le:
  assumes "aligned b"
  shows "t \<le> b \<longleftrightarrow> ceilHour t \<le> b"
proof
  assume "t \<le> b"
  then have "ceilHour t < b + hour" unfolding ceilHour_def using aligned_le(2)[OF aligned_add[OF assms]] by simp
  then show "ceilHour t \<le> b" using aligned_step[of "ceilHour t" "b + hour"] assms by (simp add: aligned_add ceilHour_def)
qed (use ceilHour_ge[of t] in linarith)

lemma countRows_split:
  assumes "\<And>r. r \<in> set rows \<Longrightarrow> P r \<longleftrightarrow> A r \<or> B r" "\<And>r. \<not> (A r \<and> B r)"
  shows "countRows Q (filter P rows) = countRows Q (filter A rows) + countRows Q (filter B rows)"
  using assms(1) by (induction rows) (use assms(2) in \<open>auto simp: countRows_sum\<close>)

lemma countRows_list: "countRows P rows = (\<Sum>r \<leftarrow> rows. if P r then 1 else 0)"
  by (rule countRows_sum)

lemma raw_part:
  assumes "H = forHost k (filter (\<lambda>r. al_TargetHost r \<noteq> None) (rowsBetween from to s))" "rs = named k (rawHostSuggestionRows from to s)"
  shows "rs = [] \<longleftrightarrow> H = []" "rs \<noteq> [] \<Longrightarrow> Min (sr_FirstSeen ` set rs) = Min (al_CreatedAt ` set H)"
    "sum_list (map sr_AllowedHits rs) = countRows al_Outcome H" "sum_list (map sr_DeniedHits rs) = countRows (\<lambda>r. \<not> al_Outcome r) H"
proof -
  have H: "H = filter (\<lambda>r. NormaliseHost (ToLower (the (al_TargetHost r))) = k) (filter (\<lambda>r. al_TargetHost r \<noteq> None) (rowsBetween from to s))"
    by (simp add: assms(1) forHost_def NormaliseHost_ToLower)
  note parts = named_groups[OF rawHostSuggestionRows_def countRows_list countRows_list H, unfolded assms(2)[symmetric]]
  show "rs = [] \<longleftrightarrow> H = []" "rs \<noteq> [] \<Longrightarrow> Min (sr_FirstSeen ` set rs) = Min (al_CreatedAt ` set H)"
    "sum_list (map sr_AllowedHits rs) = countRows al_Outcome H" "sum_list (map sr_DeniedHits rs) = countRows (\<lambda>r. \<not> al_Outcome r) H"
    using parts by (auto simp: countRows_list)
qed

lemma aggregate_part:
  assumes st: "standsFor s (aggregatesBetween from to s) (rowsBetween from to s)" and normal: "list_all normalRow (st_accessLog s)"
    and H: "H = forHost k (filter (\<lambda>r. al_TargetHost r \<noteq> None) (rowsBetween from to s))" and rs: "rs = named k (aggregateHostSuggestionRows from to s)"
  shows "rs = [] \<longleftrightarrow> H = []" "rs \<noteq> [] \<Longrightarrow> Min (sr_FirstSeen ` set rs) = Min ((\<lambda>r. hourOf (al_CreatedAt r)) ` set H)"
    "sum_list (map sr_AllowedHits rs) = countRows al_Outcome H" "sum_list (map sr_DeniedHits rs) = countRows (\<lambda>r. \<not> al_Outcome r) H"
proof -
  let ?Q = "\<lambda>(b :: time, ip :: string, h, oc :: bool, d :: string). NormaliseHost h = k \<and> h \<noteq> []"
  define ps where "ps = filter (\<lambda>a. NormaliseHost (ta_TargetHost a) = k) (filter (\<lambda>a. ta_TargetHost a \<noteq> []) (aggregatesBetween from to s))"
  have ps: "ps = filter (\<lambda>a. ?Q (aggregateKey a)) (aggregatesBetween from to s)" by (simp add: ps_def filter_filter aggregateKey_def conj_commute)
  have "H = filter (\<lambda>r. ?Q (rowKey r)) (rowsBetween from to s)"
    unfolding H forHost_def filter_filter rowKey_def prod.case
  proof (rule filter_cong[OF refl])
    fix r assume "r \<in> set (rowsBetween from to s)"
    then have "al_TargetHost r \<noteq> Some []" using normal by (auto simp: rowsBetween_def list_all_iff normalRow_def)
    then show "(al_TargetHost r \<noteq> None \<and> NormaliseHost (the (al_TargetHost r)) = k) = (NormaliseHost (coalesce (al_TargetHost r)) = k \<and> coalesce (al_TargetHost r) \<noteq> [])"
      by (auto simp: coalesce_def split: option.splits)
  qed
  then have sub: "standsFor s ps H" using plain.standsFor_filter[OF st, of ?Q] by (simp add: ps)
  note parts = named_groups[OF aggregateHostSuggestionRows_def sumRequests_def sumRequests_def ps_def, unfolded rs[symmetric]]
  have keys: "ta_BucketAt ` set ps = (\<lambda>r. hourOf (al_CreatedAt r)) ` set H"
    using arg_cong[OF plain.standsFor_keys[OF sub subset_UNIV], of "(`) fst"] by (simp add: image_image aggregateKey_def rowKey_def)
  then have "ps = [] \<longleftrightarrow> H = []" by (metis empty_set image_is_empty set_empty)
  then show "rs = [] \<longleftrightarrow> H = []" "rs \<noteq> [] \<Longrightarrow> Min (sr_FirstSeen ` set rs) = Min ((\<lambda>r. hourOf (al_CreatedAt r)) ` set H)"
    using parts(1,2) by (auto simp: keys)
  show "sum_list (map sr_AllowedHits rs) = countRows al_Outcome H" "sum_list (map sr_DeniedHits rs) = countRows (\<lambda>r. \<not> al_Outcome r) H"
    using parts(3,4) standsFor_outcome[OF sub] by (simp_all add: sumRequests_def)
qed

lemma pending_rows:
  assumes reach: "rollupReach floor j s" and covered: "hourOf now \<le> coveredTo j s" and old: "floor \<le> ceilHour (now - hostSuggestionsWindow)"
    and H: "H = forHost k (requestsSince now s)"
    and rs: "rs = named k (aggregateHostSuggestionRows (now - hostSuggestionsWindow) (hourOf now) s @ rawHostSuggestionRows (hourOf now) now s)"
  shows "rs = [] \<longleftrightarrow> H = []" "rs \<noteq> [] \<Longrightarrow> mergedOf rs = \<lparr>sa_firstSeen = Min (seenAt now ` set H), sa_allowedHits = countRows al_Outcome H, sa_deniedHits = countRows (\<lambda>r. \<not> al_Outcome r) H\<rparr>"
proof -
  let ?since = "ceilHour (now - hostSuggestionsWindow)" and ?cur = "hourOf now"
  obtain hi where hi: "jobOK j" "rollupInv floor hi s" "rj_initialized j \<longrightarrow> rj_lastRollupAt j \<le> hi" using reach_covered[OF reach] by blast
  have "coveredTo j s \<le> hi" using rollupInv_covered(2)[OF hi(2,1)] hi(3) by blast
  then have st: "standsFor s (aggregatesBetween ?since ?cur s) (rowsBetween ?since ?cur s)"
    using covered_standsFor[OF hi(2) _ aligned_hourOf old] covered by (simp add: ceilHour_def)
  have normal: "list_all normalRow (st_accessLog s)" using hi(2) by (simp add: rollupInv_def)
  have "aggregatesBetween (now - hostSuggestionsWindow) ?cur s = aggregatesBetween ?since ?cur s"
    unfolding aggregatesBetween_def using rollupInv_parts(3)[OF hi(2)] ceilHour_le by (intro filter_cong refl) metis
  then have agg: "aggregateHostSuggestionRows (now - hostSuggestionsWindow) ?cur s = aggregateHostSuggestionRows ?since ?cur s" by (simp add: aggregateHostSuggestionRows_def)
  define H1 where "H1 = forHost k (filter (\<lambda>r. al_TargetHost r \<noteq> None) (rowsBetween ?since ?cur s))"
  define H2 where "H2 = forHost k (filter (\<lambda>r. al_TargetHost r \<noteq> None) (rowsBetween ?cur now s))"
  define r1 where "r1 = named k (aggregateHostSuggestionRows ?since ?cur s)"
  define r2 where "r2 = named k (rawHostSuggestionRows ?cur now s)"
  note p1 = aggregate_part[OF st normal H1_def r1_def] and p2 = raw_part[OF H2_def r2_def]
  have rs12: "rs = r1 @ r2" by (simp add: rs agg r1_def r2_def named_def)
  have since: "?since \<le> ?cur"
  proof -
    have "now - hostSuggestionsWindow \<le> ?cur" using hourOf_le(2)[of now] hour_pos(1) unfolding hostSuggestionsWindow_def by linarith
    then show ?thesis using ceilHour_le[OF aligned_hourOf] by blast
  qed
  let ?A = "\<lambda>r. (?since \<le> al_CreatedAt r \<and> al_CreatedAt r < ?cur) \<and> al_TargetHost r \<noteq> None \<and> NormaliseHost (the (al_TargetHost r)) = k"
  let ?B = "\<lambda>r. (?cur \<le> al_CreatedAt r \<and> al_CreatedAt r < now) \<and> al_TargetHost r \<noteq> None \<and> NormaliseHost (the (al_TargetHost r)) = k"
  let ?P = "\<lambda>r. (al_TargetHost r \<noteq> None \<and> ?since \<le> al_CreatedAt r \<and> al_CreatedAt r < now) \<and> NormaliseHost (the (al_TargetHost r)) = k"
  have filters: "H = filter ?P (st_accessLog s)" "H1 = filter ?A (st_accessLog s)" "H2 = filter ?B (st_accessLog s)"
    by (simp_all add: H H1_def H2_def requestsSince_def forHost_def rowsBetween_def conj_ac)
  have "?P r \<longleftrightarrow> ?A r \<or> ?B r" for r using since hourOf_le(1)[of now] by linarith
  then have split: "countRows Q H = countRows Q H1 + countRows Q H2" and sets: "set H = set H1 \<union> set H2" for Q
    unfolding filters using countRows_split[of "st_accessLog s" ?P ?A ?B Q] by auto
  show empty: "rs = [] \<longleftrightarrow> H = []" using p1(1) p2(1) sets rs12 by (metis Un_empty append_is_Nil_conv set_empty)
  have seen: "seenAt now ` set H1 = (\<lambda>r. hourOf (al_CreatedAt r)) ` set H1" "seenAt now ` set H2 = al_CreatedAt ` set H2"
    unfolding filters by (auto simp: seenAt_def intro!: image_cong)
  have first: "Min (sr_FirstSeen ` set rs) = Min (seenAt now ` set H)" if "rs \<noteq> []"
  proof -
    have "sr_FirstSeen ` set rs = sr_FirstSeen ` set r1 \<union> sr_FirstSeen ` set r2" "seenAt now ` set H = seenAt now ` set H1 \<union> seenAt now ` set H2"
      by (simp_all add: rs12 sets image_Un)
    then show ?thesis using that p1(1,2) p2(1,2) unfolding seen by (cases "r1 = []"; cases "r2 = []") (simp_all add: rs12 Min_Un)
  qed
  show "mergedOf rs = \<lparr>sa_firstSeen = Min (seenAt now ` set H), sa_allowedHits = countRows al_Outcome H, sa_deniedHits = countRows (\<lambda>r. \<not> al_Outcome r) H\<rparr>"
    if "rs \<noteq> []" using first[OF that] by (simp add: mergedOf_def rs12 p1(3,4) p2(3,4) split[of al_Outcome] split[of "\<lambda>r. \<not> al_Outcome r"])
qed

text \<open>C30 (functional). The page of suggestions is exact once the job has covered the complete hours: it lists, each once and most denied
  first, precisely the valid names under which the policy engine would look up a requested host of the last week (counted in whole hours)
  and that are neither registered nor ignored, with the number of allowed and of denied requests under all their spellings and the time
  of the first. The dashboard's counter is their number.\<close>

theorem suggestions_exact:
  assumes "rollupReach floor j s" "hourOf now \<le> coveredTo j s" "floor \<le> ceilHour (now - hostSuggestionsWindow)" "xs = hp_Suggestions (GetHostSuggestionsPage now s)"
  shows "distinct (map hs_Fqdn xs) \<and> sorted (map (\<lambda>x. (- hs_DeniedHits x, - hs_AllowedHits x, hs_Fqdn x)) xs) \<and>
    (\<forall>fqdn. fqdn \<in> hs_Fqdn ` set xs \<longleftrightarrow> forHost fqdn (requestsSince now s) \<noteq> [] \<and> ValidateFQDN fqdn = None \<and>
       fqdn \<notin> (\<lambda>h. NormaliseHost (h_FQDN h)) ` set (st_hosts s) \<and> fqdn \<notin> (\<lambda>g. NormaliseHost (snd g)) ` set (st_ignored s)) \<and>
    (\<forall>x \<in> set xs. hs_AllowedHits x = countRows al_Outcome (forHost (hs_Fqdn x) (requestsSince now s)) \<and>
       hs_DeniedHits x = countRows (\<lambda>r. \<not> al_Outcome r) (forHost (hs_Fqdn x) (requestsSince now s)) \<and>
       hs_FirstSeen x = Min (seenAt now ` set (forHost (hs_Fqdn x) (requestsSince now s)))) \<and>
    countPendingHostSuggestions now s = int (length xs)"
proof -
  let ?skip = "\<lambda>fqdn. ValidateFQDN fqdn \<noteq> None \<or> knownHostSet s fqdn \<or> ignoredSet s fqdn"
  let ?rows = "aggregateHostSuggestionRows (now - hostSuggestionsWindow) (hourOf now) s @ rawHostSuggestionRows (hourOf now) now s"
  define m where "m = pendingHostSuggestions now (now - hostSuggestionsWindow) (knownHostSet s) (ignoredSet s) s"
  define conv :: "string \<times> hostSuggestionAggregate \<Rightarrow> HostSuggestion" where
    "conv = (\<lambda>(fqdn, a). \<lparr>hs_Fqdn = fqdn, hs_FirstSeen = sa_firstSeen a, hs_AllowedHits = sa_allowedHits a, hs_DeniedHits = sa_deniedHits a\<rparr>)"
  have wide: "\<not> now - (now - hostSuggestionsWindow) \<le> RawWindowThreshold" by (simp add: hostSuggestionsWindow_def RawWindowThreshold_def)
  then have m: "m = fold (mergeRow ?skip) ?rows []" by (simp add: m_def pendingHostSuggestions_def)
  have xs: "xs = sort_key (\<lambda>x. (- hs_DeniedHits x, - hs_AllowedHits x, hs_Fqdn x)) (map conv m)" by (simp add: assms(4) GetHostSuggestionsPage_def m_def conv_def)
  have dist: "distinct (map fst m)" using merge_spec[of ?skip ?rows] by (simp add: m)
  have fq: "hs_Fqdn (conv p) = fst p" for p by (simp add: conv_def split: prod.splits)
  have entry: "map_of m k = (if ?skip k \<or> forHost k (requestsSince now s) = [] then None else Some \<lparr>sa_firstSeen = Min (seenAt now ` set (forHost k (requestsSince now s))),
      sa_allowedHits = countRows al_Outcome (forHost k (requestsSince now s)), sa_deniedHits = countRows (\<lambda>r. \<not> al_Outcome r) (forHost k (requestsSince now s))\<rparr>)" for k
    using merge_spec[of ?skip ?rows k] pending_rows[OF assms(1-3) refl refl, of k] unfolding m by (auto simp del: map_of_eq_None_iff)
  have "distinct (map hs_Fqdn (map conv m))" using dist by (simp add: fq comp_def)
  moreover have "mset (map hs_Fqdn xs) = mset (map hs_Fqdn (map conv m))" by (simp only: xs mset_map mset_sort)
  ultimately have d: "distinct (map hs_Fqdn xs)" using mset_eq_imp_distinct_iff by blast
  have "fqdn \<in> hs_Fqdn ` set xs \<longleftrightarrow> map_of m fqdn \<noteq> None" for fqdn
    by (simp add: xs image_image fq map_of_eq_None_iff)
  then have members: "fqdn \<in> hs_Fqdn ` set xs \<longleftrightarrow> forHost fqdn (requestsSince now s) \<noteq> [] \<and> \<not> ?skip fqdn" for fqdn unfolding entry by auto
  have counts: "hs_AllowedHits x = countRows al_Outcome (forHost (hs_Fqdn x) (requestsSince now s)) \<and>
       hs_DeniedHits x = countRows (\<lambda>r. \<not> al_Outcome r) (forHost (hs_Fqdn x) (requestsSince now s)) \<and>
       hs_FirstSeen x = Min (seenAt now ` set (forHost (hs_Fqdn x) (requestsSince now s)))" if x: "x \<in> set xs" for x
  proof -
    obtain k a where ka: "(k, a) \<in> set m" "x = conv (k, a)" using x by (auto simp: xs)
    then have "map_of m k = Some a" using dist by simp
    then show ?thesis using ka(2) entry[of k] by (auto simp: conv_def split: if_splits)
  qed
  have skips: "knownHostSet s f = (f \<in> (\<lambda>h. NormaliseHost (h_FQDN h)) ` set (st_hosts s))" "ignoredSet s f = (f \<in> (\<lambda>g. NormaliseHost (snd g)) ` set (st_ignored s))" for f
    by (simp_all add: knownHostSet_def ignoredSet_def ignoredHostSuggestions_def)
  have count: "countPendingHostSuggestions now s = int (length xs)" by (simp add: countPendingHostSuggestions_def m_def[symmetric] xs)
  have order: "sorted (map (\<lambda>x. (- hs_DeniedHits x, - hs_AllowedHits x, hs_Fqdn x)) xs)" by (simp add: xs)
  have exact: "\<forall>fqdn. fqdn \<in> hs_Fqdn ` set xs \<longleftrightarrow> forHost fqdn (requestsSince now s) \<noteq> [] \<and> ValidateFQDN fqdn = None \<and>
       fqdn \<notin> (\<lambda>h. NormaliseHost (h_FQDN h)) ` set (st_hosts s) \<and> fqdn \<notin> (\<lambda>g. NormaliseHost (snd g)) ` set (st_ignored s)"
    unfolding members skips by simp
  show ?thesis by (intro conjI, rule d, rule order, rule exact, intro ballI, erule counts, rule count)
qed

theorem suggestions_exact_witness:
  "map (\<lambda>x. (hs_Fqdn x, hs_AllowedHits x, hs_DeniedHits x)) (hp_Suggestions (GetHostSuggestionsPage (2 * hour + 5) rolledStore)) = [(''app.lan'', 0, 1)] \<and>
   ''app.lan'' \<notin> (\<lambda>h. NormaliseHost (h_FQDN h)) ` set (st_hosts rolledStore)"
proof -
  let ?xs = "hp_Suggestions (GetHostSuggestionsPage (2 * hour + 5) rolledStore)"
  have cov: "hourOf (2 * hour + 5) \<le> coveredTo rolledJob rolledStore" "zeroTime \<le> ceilHour (2 * hour + 5 - hostSuggestionsWindow)" by code_simp+
  have xs: "map (\<lambda>x. (hs_Fqdn x, hs_AllowedHits x, hs_DeniedHits x)) ?xs = [(''app.lan'', 0, 1)]" by code_simp
  then have "''app.lan'' \<in> hs_Fqdn ` set ?xs" by (force simp: map_eq_Cons_conv)
  then show ?thesis using suggestions_exact[OF rolled_reach cov refl] xs by blast
qed

text \<open>Between the end of an hour and the run of the job that covers it, a host that was only requested in that hour is not suggested.\<close>

lemma ended_hour_hidden:
  "map hs_Fqdn (hp_Suggestions (GetHostSuggestionsPage (hour - 1) oneRequest)) = [''app.lan''] \<and> hp_Suggestions (GetHostSuggestionsPage (hour + 1) oneRequest) = []"
  by code_simp

end
