(* ===== verification/Posture.thy ===== *)
theory Posture
  imports Policy_User_View Suggestions
begin

text \<open>
  The posture of the dashboard (\<open>src/internal/queries/dashboard_posture_view.go\<close>): the users by status,
  the addresses that users share, the granted hosts, the enabled network policies and the pending
  suggestions, counted from the tables without the cache. The maps of \<open>summarizeLiveIPs\<close> are
  association lists in the order of insertion; the clock is an argument.
\<close>

section \<open>Definitions\<close>

record postureUserRow =
  po_UserID :: id
  po_Bypass :: bool
  po_HasGrants :: bool

record DashboardPostureUsers =
  du_Bypass :: nat
  du_LiveWithAccess :: nat
  du_LiveNoHostAccess :: nat
  du_NoLiveIps :: nat
  du_NoAccess :: nat

record DashboardPosture =
  dp_Users :: DashboardPostureUsers
  dp_NPEnabled :: nat
  dp_NPBypassHostCheck :: nat
  dp_SharedIpCount :: nat
  dp_KnownHostCount :: nat
  dp_PendingSuggestionCount :: int

definition liveIPStep :: "IPEntry \<Rightarrow> id set \<times> (addr \<times> id set) list \<Rightarrow> id set \<times> (addr \<times> id set) list" where
  "liveIPStep e st = (case st of (liveUsers, usersByIP) \<Rightarrow>
     case ParseAddr (ie_IP e) of None \<Rightarrow> (liveUsers, usersByIP)
     | Some a \<Rightarrow> let addr = Unmap a in
        (insert (ie_UserID e) liveUsers, AList.update addr (insert (ie_UserID e) (valueOr {} (map_of usersByIP addr))) usersByIP))"

definition summarizeLiveIPs :: "IPEntry list \<Rightarrow> id set \<times> nat" where
  "summarizeLiveIPs entries =
    (let st = fold liveIPStep entries ({}, []) in (fst st, length (filter (\<lambda>(ip, uids). card uids \<ge> 2) (snd st))))"

definition countStatus :: "PolicyUserStatus \<Rightarrow> DashboardPostureUsers \<Rightarrow> DashboardPostureUsers" where
  "countStatus status out = (case status of
     Bypass \<Rightarrow> out\<lparr>du_Bypass := du_Bypass out + 1\<rparr>
   | LiveWithAccess \<Rightarrow> out\<lparr>du_LiveWithAccess := du_LiveWithAccess out + 1\<rparr>
   | LiveNoHostAccess \<Rightarrow> out\<lparr>du_LiveNoHostAccess := du_LiveNoHostAccess out + 1\<rparr>
   | NoLiveIps \<Rightarrow> out\<lparr>du_NoLiveIps := du_NoLiveIps out + 1\<rparr>
   | NoAccess \<Rightarrow> out\<lparr>du_NoAccess := du_NoAccess out + 1\<rparr>)"

definition postureStatus :: "id set \<Rightarrow> postureUserRow \<Rightarrow> PolicyUserStatus" where
  "postureStatus liveIPUsers u =
    DeriveUserStatus (po_Bypass u) (if po_UserID u \<in> liveIPUsers then 1 else 0) (if po_HasGrants u then 1 else 0)"

definition foldUserStatuses :: "postureUserRow list \<Rightarrow> id set \<Rightarrow> DashboardPostureUsers" where
  "foldUserStatuses users liveIPUsers = foldl (\<lambda>out u. countStatus (postureStatus liveIPUsers u) out)
     \<lparr>du_Bypass = 0, du_LiveWithAccess = 0, du_LiveNoHostAccess = 0, du_NoLiveIps = 0, du_NoAccess = 0\<rparr> users"

definition postureUserRows :: "store \<Rightarrow> postureUserRow list" where
  "postureUserRows s = map (\<lambda>u. \<lparr>po_UserID = u_ID u,
       po_Bypass = (case List.find (\<lambda>r. us_UserID r = u_ID u) (st_userSettings s) of None \<Rightarrow> False | Some r \<Rightarrow> us_BypassHostCheck r),
       po_HasGrants = list_ex (\<lambda>g. ug_UserID g = u_ID u) (userGrants s)\<rparr>)
     (filter (\<lambda>u. u_DeletedAt u = None) (st_users s))"

definition distinctGrantedHostCount :: "store \<Rightarrow> nat" where
  "distinctGrantedHostCount s = card (ug_FQDN ` set (filter (\<lambda>g.
     list_ex (\<lambda>u. u_ID u = ug_UserID g \<and> u_DeletedAt u = None) (st_users s)) (userGrants s)))"

definition enabledNetworkPolicyCounts :: "store \<Rightarrow> nat \<times> nat" where
  "enabledNetworkPolicyCounts s = (let enabled = filter np_Enabled (st_policies s)
     in (length enabled, length (filter np_BypassHostCheck enabled)))"

definition BuildDashboardPosture :: "time \<Rightarrow> DashboardPosture op" where
  "BuildDashboardPosture now =
    andThen GetEnabledIPEntries (\<lambda>ipEntries.
    let liveIPs = summarizeLiveIPs ipEntries in
    andThen (get postureUserRows) (\<lambda>userRows.
    andThen (get distinctGrantedHostCount) (\<lambda>knownHostCount.
    andThen (get enabledNetworkPolicyCounts) (\<lambda>nps.
    andThen (get (countPendingHostSuggestions now)) (\<lambda>pending.
    ret \<lparr>dp_Users = foldUserStatuses userRows (fst liveIPs), dp_NPEnabled = fst nps, dp_NPBypassHostCheck = snd nps,
      dp_SharedIpCount = snd liveIPs, dp_KnownHostCount = knownHostCount, dp_PendingSuggestionCount = pending\<rparr>)))))"

section \<open>Shared addresses\<close>

lemma liveIPStep_canon:
  "liveIPStep e (L, M) = (case canonIP (ie_IP e) of None \<Rightarrow> (L, M)
     | Some ip \<Rightarrow> (insert (ie_UserID e) L, AList.update ip (insert (ie_UserID e) (valueOr {} (map_of M ip))) M))"
  by (simp add: liveIPStep_def canonIP_def Let_def split: option.splits)

lemma entriesAt_Cons: "entriesAt (e # es) ip = (if canonIP (ie_IP e) = Some ip then e # entriesAt es ip else entriesAt es ip)"
  by (simp add: entriesAt_def)

lemma liveIPs_map:
  "map_of (snd (fold liveIPStep es (L, M))) ip = (if entriesAt es ip = [] then map_of M ip
     else Some (valueOr {} (map_of M ip) \<union> ie_UserID ` set (entriesAt es ip)))"
proof (induction es arbitrary: L M)
  case (Cons e es)
  then show ?case
    by (cases "canonIP (ie_IP e)"; cases "entriesAt es ip = []") (auto simp: liveIPStep_canon entriesAt_Cons)
qed (simp add: entriesAt_def)

lemma liveIPs_distinct: "distinct (map fst M) \<Longrightarrow> distinct (map fst (snd (fold liveIPStep es (L, M))))"
  by (induction es arbitrary: L M) (auto simp: liveIPStep_canon distinct_update split: option.splits)

lemma liveIPs_users: "fst (fold liveIPStep es (L, M)) = L \<union> ie_UserID ` {e \<in> set es. canonIP (ie_IP e) \<noteq> None}"
proof (induction es arbitrary: L M)
  case (Cons e es)
  have "{x \<in> set (e # es). canonIP (ie_IP x) \<noteq> None} = (if canonIP (ie_IP e) = None then {} else {e}) \<union> {x \<in> set es. canonIP (ie_IP x) \<noteq> None}"
    by auto
  then show ?case using Cons by (cases "canonIP (ie_IP e)") (simp_all add: liveIPStep_canon)
qed simp

text \<open>Counting the values of a map.\<close>

lemma count_values:
  assumes "distinct (map fst m)"
  shows "length (filter (\<lambda>(k, v). P k v) m) = card {k. \<exists>v. map_of m k = Some v \<and> P k v}"
proof -
  have "{k. \<exists>v. map_of m k = Some v \<and> P k v} = set (map fst (filter (\<lambda>(k, v). P k v) m))"
    using assms by (force simp: map_of_eq_Some_iff)
  moreover have "distinct (map fst (filter (\<lambda>(k, v). P k v) m))" using assms by (rule distinct_map_filter)
  ultimately show ?thesis by (metis distinct_card length_map)
qed

definition sharedAddrs :: "IPEntry list \<Rightarrow> addr set" where
  "sharedAddrs es = {ip. entriesAt es ip \<noteq> [] \<and> 2 \<le> card (ie_UserID ` set (entriesAt es ip))}"

lemma posture_shared: "snd (summarizeLiveIPs es) = card (sharedAddrs es)"
  unfolding summarizeLiveIPs_def Let_def snd_conv
  by (subst count_values[OF liveIPs_distinct]) (auto simp: liveIPs_map sharedAddrs_def intro!: arg_cong[where f = card])

lemma usersOf_snapshot:
  assumes "\<forall>c \<in> set (pm_Contributors (toPolicyMapEntry ip (specEntry ha rows))). known enr c"
  shows "usersOf enr (toPolicyMapEntry ip (specEntry ha rows)) = ie_UserID ` set rows"
proof -
  have "{c \<in> set (pm_Contributors (toPolicyMapEntry ip (specEntry ha rows))). known enr c} = contributorOf ha ` set rows"
    using assms by (auto simp: toPolicyMapEntry_def specEntry_def)
  then show ?thesis by (simp add: usersOf_def image_image contributorOf_def)
qed

lemma audit_shared:
  assumes cache: "ps_ipSet svc = buildIPSet es ha"
    and all: "allKnown enr (GetPolicyMap svc)"
  shows "ad_SharedIpCount (assemblePolicyUserMap (GetPolicyMap svc) enr users allowed) = card (sharedAddrs es)"
proof -
  have users: "usersOf enr (toPolicyMapEntry ip (specEntry ha (entriesAt es ip))) = ie_UserID ` set (entriesAt es ip)"
    if "entriesAt es ip \<noteq> []" for ip
    using usersOf_snapshot all snapshot_entries(2)[OF cache] that unfolding allKnown_def by blast
  have "ad_SharedIpCount (assemblePolicyUserMap (GetPolicyMap svc) enr users allowed) =
      length (filter (\<lambda>(ip, uids). card uids \<ge> 2) (snd (buildIPIndex (GetPolicyMap svc) enr)))"
    by (simp add: assemblePolicyUserMap_def Let_def)
  also have "\<dots> = length (filter (\<lambda>(ip, e). card (usersOf enr (toPolicyMapEntry ip e)) \<ge> 2) (buildIPSet es ha))"
    unfolding buildIPIndex_parts(1)[OF snapshot_entries(1)[OF cache]]
    by (simp add: GetPolicyMap_def cache filter_map comp_def case_prod_unfold)
  also have "\<dots> = card (sharedAddrs es)"
    unfolding count_values[OF buildIPSet_distinct] using users
    by (auto simp: buildIPSet_spec sharedAddrs_def intro!: arg_cong[where f = card] split: if_splits)
  finally show ?thesis .
qed

section \<open>Hosts and statuses of the users\<close>

text \<open>Settings and groups of the users: one settings row per user, and one for every user with groups.
  The operations of \<open>useraccess\<close> keep this.\<close>

definition settingsInv :: "store \<Rightarrow> bool" where
  "settingsInv s \<longleftrightarrow> distinct (map us_UserID (st_userSettings s)) \<and> fst ` set (st_userGroups s) \<subseteq> us_UserID ` set (st_userSettings s)"

lemma settingsInv_set:
  assumes "settingsInv s" and "repoSetUserAccess False u bypass gs s = (r, s')"
  shows "settingsInv s'"
proof (cases r)
  case (Inr x)
  then have "s' = s\<lparr>st_userGroups := filter (\<lambda>m. fst m \<noteq> u) (st_userGroups s) @ map (Pair u) gs,
      st_userSettings := filter (\<lambda>r. us_UserID r \<noteq> u) (st_userSettings s) @ [\<lparr>us_UserID = u, us_BypassHostCheck = bypass\<rparr>]\<rparr>"
    using repoSetUserAccess_ok[of False u bypass gs s s'] assms(2) by simp
  then show ?thesis using assms(1) by (auto simp: settingsInv_def distinct_map_filter)
next
  case (Inl e)
  then have "s' = s" using assms(2) withinTx_Inl unfolding repoSetUserAccess_def by blast
  then show ?thesis using assms(1) by simp
qed

lemma settingsInv_kept:
  assumes "settingsInv s"
  shows "settingsInv (snd (EnsureUserSettings u s))" "settingsInv (snd (DeleteUserData b u s))"
    "settingsInv (storeAfter (SetUserAccess False u bypass gs s))"
proof -
  show "settingsInv (snd (EnsureUserSettings u s))" using assms by (auto simp: EnsureUserSettings_def settingsInv_def)
  show "settingsInv (snd (DeleteUserData b u s))"
    using assms by (auto simp: DeleteUserData_def withinTx_def settingsInv_def distinct_map_filter)
  show "settingsInv (storeAfter (SetUserAccess False u bypass gs s))"
    using settingsInv_set[OF assms, of u bypass "Dedup gs"] by (cases "repoSetUserAccess False u bypass (Dedup gs) s")
      (simp add: SetUserAccess_def notifying_store)
qed

definition granted :: "store \<Rightarrow> id \<Rightarrow> string set" where
  "granted s u = ug_FQDN ` {g \<in> set (userGrants s). ug_UserID g = u}"

lemma finite_granted: "finite (granted s u)"
  by (simp add: granted_def)

lemma granted_cached:
  assumes "settingsInv s"
  shows "hostSetByUser (hostAccessOf s) u = granted s u"
proof -
  have set: "{ug_FQDN g | g. g \<in> set (userGrants s) \<and> ug_UserID g = u} = granted s u" by (auto simp: granted_def)
  have "granted s u = {}" if "List.find (\<lambda>r. us_UserID r = u) (st_userSettings s) = None"
    unfolding set[symmetric] userGrants_mem using assms that by (force simp: settingsInv_def find_None_iff)
  moreover have "distinct (map us_UserID (st_userSettings s))" using assms by (simp add: settingsInv_def)
  ultimately show ?thesis
    unfolding accessMaps[OF mergeUserHostAccess_distinct, folded hostAccessOf_def] hostAccessOf_def accessOf_merge
    by (auto simp: find_rev_distinct set split: option.splits)
qed

lemma granted_offline: "set (grantedHosts s u) = granted s u"
  by (auto simp: grantedHosts_def granted_def)

text \<open>The hosts and the status of one user in the audit.\<close>

lemma cells_hosts:
  assumes cache: "ps_ipSet svc = buildIPSet es ha"
    and all: "allKnown enr (GetPolicyMap svc)"
    and "cellsOf enr (sn_Entries (GetPolicyMap svc)) u = (x, b) # cells"
  shows "userAllowedHosts b = sortedKeys (hostSetByUser ha u)"
proof -
  have "(x, b) \<in> set (cellsOf enr (sn_Entries (GetPolicyMap svc)) u)" using assms(3) by simp
  then show ?thesis unfolding cells_snapshot[OF cache all] by (auto simp: cellSpec_def)
qed

lemma cells_live:
  assumes cache: "ps_ipSet svc = buildIPSet es ha"
    and all: "allKnown enr (GetPolicyMap svc)"
  shows "cellsOf enr (sn_Entries (GetPolicyMap svc)) u \<noteq> [] \<longleftrightarrow> u \<in> fst (summarizeLiveIPs es)"
proof -
  let ?cells = "cellsOf enr (sn_Entries (GetPolicyMap svc)) u"
  have "?cells \<noteq> [] \<longleftrightarrow> (\<exists>x b. (x, b) \<in> set ?cells)" by (cases ?cells) auto
  also have "\<dots> \<longleftrightarrow> (\<exists>ip. rowsOf u (entriesAt es ip) \<noteq> [])" unfolding cells_snapshot[OF cache all] by blast
  also have "\<dots> \<longleftrightarrow> u \<in> fst (summarizeLiveIPs es)"
    by (auto simp: summarizeLiveIPs_def Let_def liveIPs_users rowsOf_def entriesAt_def filter_empty_conv)
  finally show ?thesis .
qed

lemma userEntry_status:
  assumes "map_of B (au_UserID ur) = (if cells = [] then None else Some cells)"
  shows "pu_Status (snd (userEntry B U info allowed ur)) = DeriveUserStatus (au_BypassAllowlist ur) (length cells)
      (if au_BypassAllowlist ur then 0 else length (fst (userEntry B U info allowed ur)))"
    and "fst (userEntry B U info allowed ur) = (case cells of [] \<Rightarrow> allowed (au_UserID ur) | (ip, b) # _ \<Rightarrow> userAllowedHosts b)"
  using assms by (auto simp: userEntry_def Let_def buildUserIPs_def split: list.splits if_splits)

lemma DeriveUserStatus_pos:
  assumes "0 < m \<longleftrightarrow> 0 < m'" and "\<not> bypass \<Longrightarrow> 0 < n \<longleftrightarrow> 0 < n'"
  shows "DeriveUserStatus bypass m n = DeriveUserStatus bypass m' n'"
  using assms by (simp add: DeriveUserStatus_def Let_def)

definition postureRow :: "store \<Rightarrow> User \<Rightarrow> postureUserRow" where
  "postureRow s u = \<lparr>po_UserID = u_ID u,
       po_Bypass = (case List.find (\<lambda>r. us_UserID r = u_ID u) (st_userSettings s) of None \<Rightarrow> False | Some r \<Rightarrow> us_BypassHostCheck r),
       po_HasGrants = list_ex (\<lambda>g. ug_UserID g = u_ID u) (userGrants s)\<rparr>"

lemma postureUserRows_eq: "postureUserRows s = map (postureRow s) (filter (\<lambda>u. u_DeletedAt u = None) (st_users s))"
  by (simp add: postureUserRows_def postureRow_def[abs_def])

lemma user_agrees:
  assumes inv: "settingsInv s" and cache: "ps_ipSet svc = buildIPSet es (hostAccessOf s)"
    and all: "allKnown enr (GetPolicyMap svc)"
    and B: "B = fst (buildIPIndex (GetPolicyMap svc) enr)"
  shows "set (fst (userEntry B U info (grantedHosts s) (auditUserRow s x))) = granted s (u_ID x)"
    and "pu_Status (snd (userEntry B U info (grantedHosts s) (auditUserRow s x))) = postureStatus (fst (summarizeLiveIPs es)) (postureRow s x)"
proof -
  let ?ur = "auditUserRow s x"
  let ?cells = "cellsOf enr (sn_Entries (GetPolicyMap svc)) (au_UserID ?ur)"
  have uid: "au_UserID ?ur = u_ID x" by (simp add: auditUserRow_def)
  have "map_of B (au_UserID ?ur) = (if ?cells = [] then None else Some ?cells)"
    unfolding B by (rule buildIPIndex_parts(2)[OF snapshot_entries(1)[OF cache]])
  note e = userEntry_status[OF this, of U info "grantedHosts s"]
  show hosts: "set (fst (userEntry B U info (grantedHosts s) ?ur)) = granted s (u_ID x)"
    using cells_hosts[OF cache all, of "u_ID x"] granted_cached[OF inv, of "u_ID x"] granted_offline[of s "u_ID x"]
    by (cases ?cells) (auto simp: e(2) uid finite_granted)
  have "0 < length (fst (userEntry B U info (grantedHosts s) ?ur)) \<longleftrightarrow> granted s (u_ID x) \<noteq> {}"
    unfolding hosts[symmetric] by simp
  also have "\<dots> \<longleftrightarrow> po_HasGrants (postureRow s x)" by (auto simp: granted_def postureRow_def list_ex_iff)
  finally have grants: "0 < length (fst (userEntry B U info (grantedHosts s) ?ur)) \<longleftrightarrow> po_HasGrants (postureRow s x)" .
  have bypass: "au_BypassAllowlist ?ur = po_Bypass (postureRow s x)" by (simp add: auditUserRow_def postureRow_def)
  have live: "0 < length ?cells \<longleftrightarrow> po_UserID (postureRow s x) \<in> fst (summarizeLiveIPs es)"
    using cells_live[OF cache all, of "u_ID x"] by (simp add: uid) (simp add: postureRow_def)
  show "pu_Status (snd (userEntry B U info (grantedHosts s) ?ur)) = postureStatus (fst (summarizeLiveIPs es)) (postureRow s x)"
    unfolding e(1) postureStatus_def bypass by (rule DeriveUserStatus_pos) (use live grants in auto)
qed

section \<open>The posture and the audit\<close>

definition tally :: "PolicyUserStatus list \<Rightarrow> DashboardPostureUsers" where
  "tally xs = \<lparr>du_Bypass = count_list xs Bypass, du_LiveWithAccess = count_list xs LiveWithAccess,
     du_LiveNoHostAccess = count_list xs LiveNoHostAccess, du_NoLiveIps = count_list xs NoLiveIps, du_NoAccess = count_list xs NoAccess\<rparr>"

lemma count_list_append: "count_list (xs @ ys) y = count_list xs y + count_list ys y"
  by (induction xs) auto

lemma tally_snoc: "tally (xs @ [x]) = countStatus x (tally xs)"
  by (cases x) (simp_all add: tally_def countStatus_def count_list_append)

lemma foldUserStatuses_tally: "foldUserStatuses rows live = tally (map (postureStatus live) rows)"
proof -
  have "foldl (\<lambda>out u. countStatus (postureStatus live u) out) (tally xs) rows = tally (xs @ map (postureStatus live) rows)" for xs
    by (induction rows arbitrary: xs) (simp_all add: tally_snoc[symmetric])
  from this[of "[]"] show ?thesis by (simp add: foldUserStatuses_def tally_def)
qed

lemma count_list_mset: "count_list xs y = count (mset xs) y"
  by (induction xs) auto

lemma tally_mset: "mset xs = mset ys \<Longrightarrow> tally xs = tally ys"
  by (simp add: tally_def count_list_mset)

text \<open>C29 (equivalence). The dashboard and the policy audit cannot disagree. For a cache refreshed from
  the current store, the numbers of users by status on the dashboard, which are counted from the
  tables alone, are the numbers of users that the audit, which is built from the cache, shows with
  that status; and the shared addresses, the granted hosts and the enabled network policies of both
  are the same in number.\<close>

theorem posture_matches_audit:
  assumes "deviceInv s" and "settingsInv s" and "policiesInv s"
    and "refreshCache start now (storeProviders s) svc0 = (None, svc)"
    and "BuildPolicyUserMap svc (Some GetEnabledCacheEntries) geo s = (Inr audit, s')"
    and "BuildDashboardPosture at s = (Inr posture, s'')"
  shows "dp_Users posture = tally (map pu_Status (ad_Users audit)) \<and> dp_SharedIpCount posture = ad_SharedIpCount audit \<and>
    dp_KnownHostCount posture = ad_TotalHostCount audit \<and> dp_NPEnabled posture = ad_TotalNetworkPolicyCount audit"
proof (intro conjI)
  note cache = refreshed_ipSet[OF assms(4)]
  obtain enr where enr: "getPolicyAddressEnrichment (collectAddressIDs (GetPolicyMap svc)) s = (Inr enr, s)"
    and audit: "ad_Users audit = map (geoEntry geo) (ad_Users (assemblePolicyUserMap (GetPolicyMap svc) enr (auditRows s) (grantedHosts s)))"
      "ad_SharedIpCount audit = ad_SharedIpCount (assemblePolicyUserMap (GetPolicyMap svc) enr (auditRows s) (grantedHosts s))"
      "ad_TotalHostCount audit = ad_TotalHostCount (assemblePolicyUserMap (GetPolicyMap svc) enr (auditRows s) (grantedHosts s))"
    and np: "\<exists>es. GetEnabledCacheEntries s = (Inr es, s') \<and> ad_TotalNetworkPolicyCount audit = length es"
    by (rule BuildPolicyUserMap_parts[OF assms(5)]) auto
  note all = enrichment_known[OF assms(1) cache enr]
  have posture: "posture = \<lparr>dp_Users = foldUserStatuses (postureUserRows s) (fst (summarizeLiveIPs (ipEntries s))),
      dp_NPEnabled = fst (enabledNetworkPolicyCounts s), dp_NPBypassHostCheck = snd (enabledNetworkPolicyCounts s),
      dp_SharedIpCount = snd (summarizeLiveIPs (ipEntries s)), dp_KnownHostCount = distinctGrantedHostCount s,
      dp_PendingSuggestionCount = countPendingHostSuggestions at s\<rparr>"
    using assms(6) by (simp add: BuildDashboardPosture_def andThen_Inr[OF GetEnabledIPEntries_eq] Let_def) auto
  show "dp_SharedIpCount posture = ad_SharedIpCount audit"
    using audit_shared[OF cache all] posture_shared by (simp add: posture audit(2))
  show "dp_NPEnabled posture = ad_TotalNetworkPolicyCount audit"
    using np GetEnabledCacheEntries_eq[OF assms(3)] by (auto simp: posture enabledNetworkPolicyCounts_def Let_def)
  let ?B = "fst (buildIPIndex (GetPolicyMap svc) enr)" and ?U = "snd (buildIPIndex (GetPolicyMap svc) enr)"
  let ?info = "foldl (\<lambda>m ur. m(au_UserID ur \<mapsto> ur)) Map.empty (auditRows s)"
  let ?active = "filter (\<lambda>u. u_DeletedAt u = None) (st_users s)"
  note agree = user_agrees[OF assms(2) cache all refl, where U = ?U and info = ?info]
  show "dp_Users posture = tally (map pu_Status (ad_Users audit))"
  proof -
    have "map pu_Status (ad_Users audit) = map (\<lambda>x. postureStatus (fst (summarizeLiveIPs (ipEntries s))) (postureRow s x))
        (sort_key (\<lambda>u. (u_DisplayName u, u_ID u)) ?active)"
      unfolding audit(1) by (simp add: assemblePolicyUserMap_def Let_def auditRows_def geoEntry_def agree[unfolded auditRows_def])
    then have "mset (map pu_Status (ad_Users audit)) = mset (map (postureStatus (fst (summarizeLiveIPs (ipEntries s)))) (postureUserRows s))"
      by (simp add: postureUserRows_eq comp_def)
    then show ?thesis by (simp add: posture foldUserStatuses_tally tally_mset)
  qed
  show "dp_KnownHostCount posture = ad_TotalHostCount audit"
  proof -
    have "ad_TotalHostCount audit = card (\<Union>x \<in> set ?active. granted s (u_ID x))"
      unfolding audit(3) by (simp add: assemblePolicyUserMap_def Let_def auditRows_def agree[unfolded auditRows_def])
    moreover have "(\<Union>x \<in> set ?active. granted s (u_ID x)) = ug_FQDN ` set (filter (\<lambda>g.
        list_ex (\<lambda>u. u_ID u = ug_UserID g \<and> u_DeletedAt u = None) (st_users s)) (userGrants s))"
      by (force simp: granted_def list_ex_iff)
    ultimately show ?thesis by (simp add: posture distinctGrantedHostCount_def)
  qed
qed

definition fullView :: PolicyUserMapAudit where
  "fullView = projr (fst (BuildPolicyUserMap auditService (Some GetEnabledCacheEntries) None auditStore))"

definition auditPosture :: DashboardPosture where
  "auditPosture = projr (fst (BuildDashboardPosture 0 auditStore))"

lemma fullView_ok: "BuildPolicyUserMap auditService (Some GetEnabledCacheEntries) None auditStore = (Inr fullView, auditStore)"
  by (simp add: fullView_def BuildPolicyUserMap_def getPolicyAddressEnrichment_def getAllUsersForPolicyAudit_def
      GetEnabledCacheEntries_def andThen_def Let_def)

lemma auditPosture_ok: "BuildDashboardPosture 0 auditStore = (Inr auditPosture, auditStore)"
  by (simp add: auditPosture_def BuildDashboardPosture_def andThen_Inr[OF GetEnabledIPEntries_eq] Let_def)

theorem posture_matches_audit_witness:
  "ad_SharedIpCount fullView = 1 \<and> ad_TotalHostCount fullView = 1 \<and>
   tally (map pu_Status (ad_Users fullView)) =
     \<lparr>du_Bypass = 1, du_LiveWithAccess = 1, du_LiveNoHostAccess = 0, du_NoLiveIps = 1, du_NoAccess = 0\<rparr>"
proof -
  have ok: "settingsInv auditStore" "policiesInv auditStore"
    by code_simp (simp add: policiesInv_def auditStore_def deviceStore_def emptyStore_def)
  have vals: "dp_SharedIpCount auditPosture = 1" "dp_KnownHostCount auditPosture = 1" "dp_Users auditPosture =
     \<lparr>du_Bypass = 1, du_LiveWithAccess = 1, du_LiveNoHostAccess = 0, du_NoLiveIps = 1, du_NoAccess = 0\<rparr>" by code_simp+
  show ?thesis
    using posture_matches_audit[OF auditStore_ok(1) ok auditView_ok(2) fullView_ok auditPosture_ok, unfolded vals]
    by - (elim conjE, (intro conjI; rule sym; assumption))
qed

end
