(* ===== verification/Address_History.thy ===== *)
theory Address_History
  imports Policy_User_View Filterx Rules Grouping Complex_Main
begin

text \<open>
  The history of the addresses (\<open>src/internal/device/\<close> \<open>address_history_view.go\<close>,
  \<open>address_history_enum_map.go\<close>, \<open>handler_address_history.go\<close>): the events of the addresses, enriched with the kind of change, the time since the device's
  previous renewal and the risk of missing the lease, as pages and as a histogram by risk. The ranking of the devices whose leases are too short is in \<open>Address_Tuning\<close>.

  The table of events has a key that no other operation reads and that the store does not keep; the list \<open>ids\<close> gives the keys of the
  rows in their order. SQLite computes the gap of two instants in seconds through floating point days; the function \<open>gapOf\<close> stands for it.
  The quotient of a gap and a lifetime is compared with constants in double precision, which agrees with the comparison
  of rational numbers here for all lifetimes below \<open>10\<^sup>1\<^sup>5\<close> seconds; the quotient by a lifetime of 0 is \<open>NULL\<close>, which is below every constant.
\<close>

section \<open>Kinds and risks\<close>

datatype AddressEventKind = AddressEventKindCreated | AddressEventKindEnabled | AddressEventKindDisabled | AddressEventKindRefresh

datatype TTLRisk = TTLRiskUnknown | TTLRiskOK | TTLRiskApproaching | TTLRiskCritical | TTLRiskBreached

fun kindText :: "AddressEventKind \<Rightarrow> string" where
  "kindText AddressEventKindCreated = ''created''"
| "kindText AddressEventKindEnabled = ''enabled''"
| "kindText AddressEventKindDisabled = ''disabled''"
| "kindText AddressEventKindRefresh = ''refresh''"

fun riskText :: "TTLRisk \<Rightarrow> string" where
  "riskText TTLRiskUnknown = ''unknown''"
| "riskText TTLRiskOK = ''ok''"
| "riskText TTLRiskApproaching = ''approaching''"
| "riskText TTLRiskCritical = ''critical''"
| "riskText TTLRiskBreached = ''breached''"

fun sourceText :: "EventSource \<Rightarrow> string" where
  "sourceText EventSourceHeartbeat = ''heartbeat''"
| "sourceText EventSourceWebUI = ''web_ui''"
| "sourceText EventSourceExpiry = ''expiry''"
| "sourceText EventSourceLimitExceeded = ''limit_exceeded''"

fun triggerText :: "EventTrigger \<Rightarrow> string" where
  "triggerText EventTriggerUser = ''user''"
| "triggerText EventTriggerSchedule = ''schedule''"
| "triggerText EventTriggerNetworkChange = ''network_change''"
| "triggerText EventTriggerSystem = ''system''"

section \<open>The enriched events\<close>

type_synonym event = "id \<times> AddressEventRow"

definition historyEvents :: "id list \<Rightarrow> store \<Rightarrow> event list" where
  "historyEvents ids s = zip ids (st_addressEvents s)"

definition addressOfEvent :: "store \<Rightarrow> event \<Rightarrow> Address option" where
  "addressOfEvent s x = List.find (\<lambda>a. a_ID a = ae_AddressID (snd x)) (st_addresses s)"

definition deviceOfEvent :: "store \<Rightarrow> event \<Rightarrow> id option" where
  "deviceOfEvent s x = map_option a_DeviceID (addressOfEvent s x)"

definition isRenewal :: "event \<Rightarrow> bool" where
  "isRenewal x \<longleftrightarrow> ae_Source (snd x) \<noteq> EventSourceExpiry \<and> ae_Source (snd x) \<noteq> EventSourceLimitExceeded"

text \<open>\<open>LAG(created_at) OVER (PARTITION BY device ORDER BY created_at, id)\<close> over the renewals.\<close>

definition renewalGapCTE :: "store \<Rightarrow> event list \<Rightarrow> event \<Rightarrow> time option" where
  "renewalGapCTE s evs x =
    (if \<not> isRenewal x \<or> deviceOfEvent s x = None then None
     else case rev (sort_key (\<lambda>y. (ae_CreatedAt (snd y), fst y)) (filter (\<lambda>y. isRenewal y \<and> deviceOfEvent s y = deviceOfEvent s x \<and>
         (ae_CreatedAt (snd y), fst y) < (ae_CreatedAt (snd x), fst x)) evs)) of
       [] \<Rightarrow> None | y # _ \<Rightarrow> Some (ae_CreatedAt (snd y)))"

definition eventKindCase :: "event list \<Rightarrow> event \<Rightarrow> AddressEventKind" where
  "eventKindCase evs x =
    (case rev (sort_key fst (filter (\<lambda>y. ae_AddressID (snd y) = ae_AddressID (snd x) \<and> fst y < fst x) evs)) of
       [] \<Rightarrow> AddressEventKindCreated
     | y # _ \<Rightarrow> if ae_IsEnabled (snd x) \<noteq> ae_IsEnabled (snd y)
         then (if ae_IsEnabled (snd x) then AddressEventKindEnabled else AddressEventKindDisabled)
         else AddressEventKindRefresh)"

definition ttlRiskBreachedRatio :: rat where
  "ttlRiskBreachedRatio = 1"

definition ttlRiskCriticalRatio :: rat where
  "ttlRiskCriticalRatio = 9 / 10"

definition ttlRiskApproachingRatio :: rat where
  "ttlRiskApproachingRatio = 7 / 10"

definition ttlRiskCase :: "int option \<Rightarrow> int option \<Rightarrow> TTLRisk" where
  "ttlRiskCase ttl gap = (case (ttl, gap) of
     (Some t, Some g) \<Rightarrow>
       if t = 0 then TTLRiskOK
       else if ttlRiskBreachedRatio \<le> of_int g / of_int t then TTLRiskBreached
       else if ttlRiskCriticalRatio < of_int g / of_int t then TTLRiskCritical
       else if ttlRiskApproachingRatio < of_int g / of_int t then TTLRiskApproaching
       else TTLRiskOK
   | _ \<Rightarrow> TTLRiskUnknown)"

definition ttlRiskOrder :: "TTLRisk list" where
  "ttlRiskOrder = [TTLRiskUnknown, TTLRiskOK, TTLRiskApproaching, TTLRiskCritical, TTLRiskBreached]"

fun ttlRiskRank :: "TTLRisk \<Rightarrow> nat" where
  "ttlRiskRank TTLRiskUnknown = 0"
| "ttlRiskRank TTLRiskOK = 1"
| "ttlRiskRank TTLRiskApproaching = 2"
| "ttlRiskRank TTLRiskCritical = 3"
| "ttlRiskRank TTLRiskBreached = 4"

definition ttlRiskOKRank :: nat where
  "ttlRiskOKRank = 1"

record historyRow =
  hr_ID :: id
  hr_AddressID :: id
  hr_CreatedAt :: time
  hr_IP :: string
  hr_IsEnabled :: bool
  hr_Source :: EventSource
  hr_TriggerType :: EventTrigger
  hr_DeviceID :: id
  hr_DeviceName :: string
  hr_OwnerID :: id
  hr_TTLSeconds :: "int option"
  hr_RenewalGapSeconds :: "int option"
  hr_EventKind :: AddressEventKind
  hr_TTLRisk :: TTLRisk

text \<open>What the views need of their surroundings: the keys of the events, the JSON of the rules and the gap in seconds.\<close>

record surroundings =
  sr_ids :: "id list"
  sr_codec :: jsonCodec
  sr_gapOf :: "time \<Rightarrow> time \<Rightarrow> int"

definition leaseTTL :: "jsonCodec \<Rightarrow> store \<Rightarrow> id \<Rightarrow> int option" where
  "leaseTTL codec s i = (case List.find (\<lambda>r. r_DeviceID r = i \<and> r_RuleType r = RuleTypeDeviceAddressLease \<and> r_Enabled r) (st_rules s) of
     None \<Rightarrow> None | Some r \<Rightarrow> jc_unmarshal codec ttlField (r_Config r))"

definition enrich :: "surroundings \<Rightarrow> store \<Rightarrow> event list \<Rightarrow> event \<Rightarrow> historyRow list" where
  "enrich w s evs x = (case addressOfEvent s x of None \<Rightarrow> []
     | Some a \<Rightarrow> (case List.find (\<lambda>d. d_ID d = a_DeviceID a) (st_devices s) of None \<Rightarrow> []
       | Some d \<Rightarrow> if d_DeletedAt d \<noteq> None then []
           else let ttl = leaseTTL (sr_codec w) s (a_DeviceID a);
                    gap = map_option (sr_gapOf w (ae_CreatedAt (snd x))) (renewalGapCTE s evs x)
             in [\<lparr>hr_ID = fst x, hr_AddressID = ae_AddressID (snd x), hr_CreatedAt = ae_CreatedAt (snd x), hr_IP = a_IP a,
                  hr_IsEnabled = ae_IsEnabled (snd x), hr_Source = ae_Source (snd x), hr_TriggerType = ae_Trigger (snd x),
                  hr_DeviceID = a_DeviceID a, hr_DeviceName = d_Name d, hr_OwnerID = d_OwnerID d, hr_TTLSeconds = ttl,
                  hr_RenewalGapSeconds = gap, hr_EventKind = eventKindCase evs x, hr_TTLRisk = ttlRiskCase ttl gap\<rparr>]))"

definition addressHistoryEnriched :: "surroundings \<Rightarrow> store \<Rightarrow> historyRow list" where
  "addressHistoryEnriched w s = (let evs = historyEvents (sr_ids w) s in concat (map (enrich w s evs) evs))"

section \<open>Queries\<close>

definition defaultHistoryLimit :: int where
  "defaultHistoryLimit = 50"

definition maxHistoryLimit :: int where
  "maxHistoryLimit = 200"

definition defaultHistoryRange :: time where
  "defaultHistoryRange = 24 * minutes 60"

definition historySpec :: "string \<Rightarrow> Operator list \<Rightarrow> ColumnSpec" where
  "historySpec e ops = \<lparr>cs_Expr = e, cs_Nullable = False, cs_Rel = None, cs_Ops = ops\<rparr>"

definition addressHistoryColumns :: "(string \<times> ColumnSpec) list" where
  "addressHistoryColumns =
    [(''device_id'', historySpec ''e.device_id'' [OpIn, OpNotIn]), (''user_id'', historySpec ''e.owner_id'' [OpIn, OpNotIn]),
     (''ip'', historySpec ''e.ip'' [OpIn, OpNotIn, OpContains, OpNotContains]), (''source'', historySpec ''e.source'' [OpIn, OpNotIn]),
     (''trigger_type'', historySpec ''e.trigger_type'' [OpIn, OpNotIn]), (''event_kind'', historySpec ''e.event_kind'' [OpIn, OpNotIn]),
     (''ttl_risk'', historySpec ''e.ttl_risk'' [OpIn, OpNotIn])]"

definition addressHistoryRegistry :: Registry where
  "addressHistoryRegistry = \<lparr>rg_cols = map_of addressHistoryColumns, rg_sorts = Map.empty, rg_tieBreaker = ''e.id''\<rparr>"

record addressHistoryFilterParams =
  hp_From :: "time option"
  hp_To :: "time option"
  hp_DeviceID :: "id list option"
  hp_DeviceIDOp :: "string option"
  hp_UserID :: "id list option"
  hp_UserIDOp :: "string option"
  hp_IP :: "string list option"
  hp_IPOp :: "string option"
  hp_Source :: "string list option"
  hp_SourceOp :: "string option"
  hp_TriggerType :: "string list option"
  hp_TriggerTypeOp :: "string option"
  hp_EventKind :: "string list option"
  hp_EventKindOp :: "string option"
  hp_TTLRisk :: "string list option"
  hp_TTLRiskOp :: "string option"

record AddressHistoryQuery =
  hq_From :: time
  hq_To :: time
  hq_Filters :: "Filter list"
  hq_BeforeID :: "id option"
  hq_Limit :: int

definition historyValueFilters :: "addressHistoryFilterParams \<Rightarrow> (string \<times> sqlval list \<times> string option) list" where
  "historyValueFilters p =
    [(''device_id'', Int64Values (hp_DeviceID p), hp_DeviceIDOp p), (''user_id'', Int64Values (hp_UserID p), hp_UserIDOp p),
     (''ip'', StringValues (hp_IP p), hp_IPOp p), (''source'', StringValues (hp_Source p), hp_SourceOp p),
     (''trigger_type'', StringValues (hp_TriggerType p), hp_TriggerTypeOp p), (''event_kind'', StringValues (hp_EventKind p), hp_EventKindOp p),
     (''ttl_risk'', StringValues (hp_TTLRisk p), hp_TTLRiskOp p)]"

fun historyFilters :: "(string \<times> sqlval list \<times> string option) list \<Rightarrow> (filter_err, Filter list) result" where
  "historyFilters [] = Inr []"
| "historyFilters ((column, vals, op) # vfs) = (case ParseFilter column vals op of Inl e \<Rightarrow> Inl e
     | Inr None \<Rightarrow> historyFilters vfs
     | Inr (Some f) \<Rightarrow> (case Validate addressHistoryRegistry f of Some e \<Rightarrow> Inl e
         | None \<Rightarrow> (case historyFilters vfs of Inl e \<Rightarrow> Inl e | Inr fs \<Rightarrow> Inr (f # fs))))"

definition newAddressHistoryQuery :: "time \<Rightarrow> addressHistoryFilterParams \<Rightarrow> (filter_err, AddressHistoryQuery) result" where
  "newAddressHistoryQuery now p =
    (let from = (case hp_From p of Some t \<Rightarrow> t | None \<Rightarrow> now - defaultHistoryRange);
         to = (case hp_To p of Some t \<Rightarrow> t | None \<Rightarrow> now)
     in case historyFilters (historyValueFilters p) of Inl e \<Rightarrow> Inl e
        | Inr fs \<Rightarrow> Inr \<lparr>hq_From = from, hq_To = to, hq_Filters = fs, hq_BeforeID = None, hq_Limit = 0\<rparr>)"

record GetAddressHistoryParams =
  ha_Filter :: addressHistoryFilterParams
  ha_BeforeId :: "id option"
  ha_Limit :: "int option"

definition NewAddressHistoryQuery :: "time \<Rightarrow> GetAddressHistoryParams \<Rightarrow> (filter_err, AddressHistoryQuery) result" where
  "NewAddressHistoryQuery now params = (case newAddressHistoryQuery now (ha_Filter params) of Inl e \<Rightarrow> Inl e
     | Inr q \<Rightarrow> (let limit = (case ha_Limit params of None \<Rightarrow> defaultHistoryLimit | Some n \<Rightarrow> n);
           limit = (if limit \<le> 0 then defaultHistoryLimit else limit);
           limit = (if limit > maxHistoryLimit then maxHistoryLimit else limit)
        in Inr (q\<lparr>hq_Limit := limit, hq_BeforeID := ha_BeforeId params\<rparr>)))"

definition NewAddressHistoryHistogramQuery :: "time \<Rightarrow> addressHistoryFilterParams \<Rightarrow> (filter_err, AddressHistoryQuery) result" where
  "NewAddressHistoryHistogramQuery now p = newAddressHistoryQuery now p"

fun historyConditions :: "Filter list \<Rightarrow> (filter_err, cond list) result" where
  "historyConditions [] = Inr []"
| "historyConditions (f # fs) = (case Condition addressHistoryRegistry f of Inl e \<Rightarrow> Inl e
     | Inr c \<Rightarrow> (case historyConditions fs of Inl e \<Rightarrow> Inl e | Inr cs \<Rightarrow> Inr (c # cs)))"

definition addressHistoryConditions :: "AddressHistoryQuery \<Rightarrow> (filter_err, cond list) result" where
  "addressHistoryConditions q = (case historyConditions (hq_Filters q) of Inl e \<Rightarrow> Inl e
     | Inr cs \<Rightarrow> Inr ([CGe ''e.created_at'' (VTime (hq_From q)), CLe ''e.created_at'' (VTime (hq_To q))] @ cs))"

definition historyCells :: "historyRow \<Rightarrow> (string \<times> sqlval) list" where
  "historyCells r = [(''e.id'', VInt (hr_ID r)), (''e.created_at'', VTime (hr_CreatedAt r)), (''e.device_id'', VInt (hr_DeviceID r)),
     (''e.owner_id'', VInt (hr_OwnerID r)), (''e.ip'', VText (hr_IP r)), (''e.source'', VText (sourceText (hr_Source r))),
     (''e.trigger_type'', VText (triggerText (hr_TriggerType r))), (''e.event_kind'', VText (kindText (hr_EventKind r))),
     (''e.ttl_risk'', VText (riskText (hr_TTLRisk r)))]"

definition historyEnv :: "historyRow \<Rightarrow> env" where
  "historyEnv r = \<lparr>e_col = map_of (historyCells r), e_children = (\<lambda>_. [])\<rparr>"

definition addressHistoryBase :: "surroundings \<Rightarrow> AddressHistoryQuery \<Rightarrow> store \<Rightarrow> (filter_err, historyRow list) result" where
  "addressHistoryBase w q s = (case addressHistoryConditions q of Inl e \<Rightarrow> Inl e
     | Inr cs \<Rightarrow> Inr (filter (\<lambda>r. holds (historyEnv r) (CAnd cs)) (addressHistoryEnriched w s)))"

section \<open>Pages\<close>

record AddressHistoryEvents =
  he_Events :: "historyRow list"
  he_Total :: int

definition GetAddressHistoryEvents :: "surroundings \<Rightarrow> AddressHistoryQuery \<Rightarrow> store \<Rightarrow> (filter_err, AddressHistoryEvents) result" where
  "GetAddressHistoryEvents w q s = (case addressHistoryBase w q s of Inl e \<Rightarrow> Inl e
     | Inr rows \<Rightarrow> (let before = (case hq_BeforeID q of None \<Rightarrow> rows | Some i \<Rightarrow> filter (\<lambda>r. hr_ID r < i) rows)
        in Inr \<lparr>he_Events = take (nat (hq_Limit q)) (sort_key (\<lambda>r. - hr_ID r) before), he_Total = int (length rows)\<rparr>))"

record AddressHistoryEvent =
  hv_Id :: id
  hv_Timestamp :: time
  hv_Ip :: string
  hv_IsEnabled :: bool
  hv_Source :: EventSource
  hv_TriggerType :: EventTrigger
  hv_DeviceId :: id
  hv_DeviceName :: string
  hv_RenewalGapSeconds :: "int option"
  hv_EventKind :: AddressEventKind
  hv_TtlRisk :: TTLRisk
  hv_TtlSeconds :: "int option"
  hv_Geo :: "GeoInfo option"

record AddressHistoryResponse =
  hs_Events :: "AddressHistoryEvent list"
  hs_Total :: int
  hs_NextCursor :: "id option"

definition toHistoryEvent :: "(string \<Rightarrow> GeoResult) option \<Rightarrow> historyRow \<Rightarrow> AddressHistoryEvent" where
  "toHistoryEvent geo e = \<lparr>hv_Id = hr_ID e, hv_Timestamp = hr_CreatedAt e, hv_Ip = hr_IP e, hv_IsEnabled = hr_IsEnabled e, hv_Source = hr_Source e,
     hv_TriggerType = hr_TriggerType e, hv_DeviceId = hr_DeviceID e, hv_DeviceName = hr_DeviceName e, hv_RenewalGapSeconds = hr_RenewalGapSeconds e,
     hv_EventKind = hr_EventKind e, hv_TtlRisk = hr_TTLRisk e, hv_TtlSeconds = hr_TTLSeconds e,
     hv_Geo = (case geo of None \<Rightarrow> None | Some resolve \<Rightarrow> GeoInfoFromResult (resolve (hr_IP e)))\<rparr>"

definition toAddressHistoryResponse :: "AddressHistoryEvents \<Rightarrow> int \<Rightarrow> (string \<Rightarrow> GeoResult) option \<Rightarrow> AddressHistoryResponse" where
  "toAddressHistoryResponse result limit geo = \<lparr>hs_Events = map (toHistoryEvent geo) (he_Events result), hs_Total = he_Total result,
     hs_NextCursor = (if int (length (he_Events result)) = limit \<and> limit > 0 then Some (hr_ID (last (he_Events result))) else None)\<rparr>"

datatype GetHistoryResponse = GetHistory200 AddressHistoryResponse | GetHistory400 | GetHistory500

definition GetAddressHistory :: "surroundings \<Rightarrow> (string \<Rightarrow> GeoResult) option \<Rightarrow> time \<Rightarrow> GetAddressHistoryParams \<Rightarrow> store \<Rightarrow> GetHistoryResponse" where
  "GetAddressHistory w geo now params s = (case NewAddressHistoryQuery now params of
     Inl e \<Rightarrow> if e = ErrInvalidFilter then GetHistory400 else GetHistory500
   | Inr q \<Rightarrow> (case GetAddressHistoryEvents w q s of Inl e \<Rightarrow> GetHistory500
     | Inr result \<Rightarrow> GetHistory200 (toAddressHistoryResponse result (hq_Limit q) geo)))"

section \<open>Histogram\<close>

record addressHistoryRiskBucketRow =
  rb_Timestamp :: time
  rb_RiskRank :: nat
  rb_DeviceCount :: nat

definition maxRank :: "nat list \<Rightarrow> nat" where
  "maxRank ns = fold max ns 0"

definition riskDeviceBuckets :: "surroundings \<Rightarrow> AddressHistoryQuery \<Rightarrow> Granularity \<Rightarrow> store \<Rightarrow> (filter_err, addressHistoryRiskBucketRow list) result" where
  "riskDeviceBuckets w q g s = (case addressHistoryBase w q s of Inl e \<Rightarrow> Inl e
     | Inr rows \<Rightarrow>
       let perDevice = map (\<lambda>((bucket, device), rs). (bucket, maxRank (map (\<lambda>r. ttlRiskRank (hr_TTLRisk r)) rs)))
             (groupBy (\<lambda>r. (BucketExpr g (hr_CreatedAt r), hr_DeviceID r)) rows)
       in Inr (map (\<lambda>((bucket, rank), xs). \<lparr>rb_Timestamp = bucket, rb_RiskRank = rank, rb_DeviceCount = length xs\<rparr>)
            (groupBy (\<lambda>x. x) (filter (\<lambda>x. snd x \<ge> ttlRiskOKRank) perDevice))))"

record AddressHistoryBucket =
  ab_Timestamp :: time
  ab_OkDeviceCount :: nat
  ab_ApproachingDeviceCount :: nat
  ab_CriticalDeviceCount :: nat
  ab_BreachedDeviceCount :: nat

definition unixSeconds :: "time \<Rightarrow> int" where
  "unixSeconds t = t div 1000000000"

definition bandStep :: "addressHistoryRiskBucketRow \<Rightarrow> (int \<Rightarrow> TTLRisk \<Rightarrow> nat) \<Rightarrow> (int \<Rightarrow> TTLRisk \<Rightarrow> nat)" where
  "bandStep rb m = (let key = unixSeconds (rb_Timestamp rb) in m(key := (m key)(ttlRiskOrder ! rb_RiskRank rb := rb_DeviceCount rb)))"

definition foldRiskBuckets :: "time list \<Rightarrow> addressHistoryRiskBucketRow list \<Rightarrow> AddressHistoryBucket list" where
  "foldRiskBuckets sequence rows =
    (let byBucket = fold bandStep rows (\<lambda>_ _. 0) in
     map (\<lambda>ts. let bands = byBucket (unixSeconds ts) in
       \<lparr>ab_Timestamp = ts, ab_OkDeviceCount = bands TTLRiskOK, ab_ApproachingDeviceCount = bands TTLRiskApproaching,
        ab_CriticalDeviceCount = bands TTLRiskCritical, ab_BreachedDeviceCount = bands TTLRiskBreached\<rparr>) sequence)"

definition GetAddressHistoryHistogram :: "surroundings \<Rightarrow> AddressHistoryQuery \<Rightarrow> store \<Rightarrow> (filter_err, AddressHistoryBucket list) result" where
  "GetAddressHistoryHistogram w q s =
    (let g = GranularityForWindow (hq_To q - hq_From q) in
     case riskDeviceBuckets w q g s of Inl e \<Rightarrow> Inl e
     | Inr rows \<Rightarrow> Inr (foldRiskBuckets (Sequence g (hq_From q) (hq_To q)) rows))"

datatype GetHistoryHistogramResponse = GetHistoryHistogram200 "AddressHistoryBucket list" | GetHistoryHistogram400 | GetHistoryHistogram500

definition HandleGetAddressHistoryHistogram :: "surroundings \<Rightarrow> time \<Rightarrow> addressHistoryFilterParams \<Rightarrow> store \<Rightarrow> GetHistoryHistogramResponse" where
  "HandleGetAddressHistoryHistogram w now params s = (case NewAddressHistoryHistogramQuery now params of
     Inl e \<Rightarrow> if e = ErrInvalidFilter then GetHistoryHistogram400 else GetHistoryHistogram500
   | Inr q \<Rightarrow> (case GetAddressHistoryHistogram w q s of Inl e \<Rightarrow> GetHistoryHistogram500 | Inr bs \<Rightarrow> GetHistoryHistogram200 bs))"

section \<open>What a query selects\<close>

text \<open>The specification of the filters, over the columns of a row, and what validation lets through.\<close>

definition historyMatches :: "historyRow \<Rightarrow> Filter \<Rightarrow> bool" where
  "historyMatches r f \<longleftrightarrow> (case map_of addressHistoryColumns (f_Column f) of None \<Rightarrow> False | Some spec \<Rightarrow> filterMatches spec f (historyEnv r))"

definition historySelected :: "surroundings \<Rightarrow> AddressHistoryQuery \<Rightarrow> store \<Rightarrow> historyRow list" where
  "historySelected w q s = filter (\<lambda>r. hq_From q \<le> hr_CreatedAt r \<and> hr_CreatedAt r \<le> hq_To q \<and> list_all (historyMatches r) (hq_Filters q))
     (addressHistoryEnriched w s)"

definition validHistoryFilter :: "Filter \<Rightarrow> bool" where
  "validHistoryFilter f \<longleftrightarrow> is_ok (check addressHistoryRegistry f) \<and> (f_Column f = ''ip'' \<longrightarrow> f_Values f \<in> range (map VText))"

lemma historyFilters_valid:
  "historyFilters vfs = Inr fs \<Longrightarrow> (\<And>vals op. (''ip'', vals, op) \<in> set vfs \<Longrightarrow> vals \<in> range (map VText)) \<Longrightarrow> \<forall>f \<in> set fs. validHistoryFilter f"
proof (induction vfs arbitrary: fs)
  case (Cons vf vfs)
  obtain column vals op where vf: "vf = (column, vals, op)" by (cases vf) auto
  have texts: "(''ip'', vals, op) \<in> set vfs \<Longrightarrow> vals \<in> range (map VText)" for vals op using Cons.prems(2) by auto
  consider (skip) "historyFilters vfs = Inr fs"
    | (add) a rest where "ParseFilter column vals op = Inr (Some a)" "Validate addressHistoryRegistry a = None" "historyFilters vfs = Inr rest" "fs = a # rest"
    using Cons.prems(1) by (auto simp: vf split: sum.splits option.splits)
  then show ?case
  proof cases
    case skip
    then show ?thesis using Cons.IH texts by blast
  next
    case add
    have "f_Column a = column" "f_Values a = vals" using add(1) by (auto simp: ParseFilter_def split: sum.splits option.splits if_splits)
    moreover have "is_ok (check addressHistoryRegistry a)" using add(2) by (auto simp: Validate_def is_ok_iff split: sum.splits)
    moreover have "column = ''ip'' \<Longrightarrow> vals \<in> range (map VText)" using Cons.prems(2)[of vals op] vf by simp
    ultimately have "validHistoryFilter a" by (simp add: validHistoryFilter_def)
    then show ?thesis using Cons.IH[OF add(3)] texts add(4) by auto
  qed
qed simp

lemma newAddressHistoryQuery_valid:
  assumes "newAddressHistoryQuery now p = Inr q"
  shows "\<forall>f \<in> set (hq_Filters q). validHistoryFilter f"
proof -
  obtain fs where fs: "historyFilters (historyValueFilters p) = Inr fs" "hq_Filters q = fs"
    using assms by (auto simp: newAddressHistoryQuery_def Let_def split: sum.splits)
  have "StringValues vs \<in> range (map VText)" for vs by (cases vs) (auto simp: StringValues_def intro: image_eqI[of _ _ "[]"])
  then show ?thesis unfolding fs(2) by (intro historyFilters_valid[OF fs(1)]) (auto simp: historyValueFilters_def)
qed

lemma historyLike_text: "\<exists>parts. likeParts expr negate (map VText ss) = Inr parts"
  by (induction ss) (auto simp: Let_def split: sum.splits)

lemma history_condition:
  assumes "validHistoryFilter f"
  shows "\<exists>c. Condition addressHistoryRegistry f = Inr c \<and> (\<forall>r. holds (historyEnv r) c \<longleftrightarrow> historyMatches r f)"
proof -
  obtain spec where chk: "check addressHistoryRegistry f = Inr spec" using assms by (auto simp: validHistoryFilter_def is_ok_iff)
  then have spec: "map_of addressHistoryColumns (f_Column f) = Some spec" "f_Op f \<in> set (cs_Ops spec)"
    by (auto simp: check_def addressHistoryRegistry_def allows_def split: option.splits if_splits)
  have col: "(f_Column f, spec) \<in> set addressHistoryColumns" using spec(1) by (rule map_of_SomeD)
  have scalar: "cs_Rel spec = None" using col by (auto simp: addressHistoryColumns_def historySpec_def)
  have ops: "f_Op f \<in> {OpIn, OpNotIn, OpContains, OpNotContains}" using col spec(2) by (auto simp: addressHistoryColumns_def historySpec_def)
  have like: "f_Column f = ''ip'' \<and> cs_Expr spec = ''e.ip''" if "f_Op f \<in> {OpContains, OpNotContains}"
    using that col spec(2) by (auto simp: addressHistoryColumns_def historySpec_def)
  have "\<exists>c. Condition addressHistoryRegistry f = Inr c"
  proof (cases "f_Op f \<in> {OpContains, OpNotContains}")
    case True
    then obtain ss where "f_Values f = map VText ss" using like assms by (auto simp: validHistoryFilter_def)
    then show ?thesis using True scalar chk historyLike_text[of "cs_Expr spec" True ss] historyLike_text[of "cs_Expr spec" False ss]
      by (auto simp: Condition_def scalarCondition_def likeCondition_def)
  next
    case False
    then show ?thesis using scalar chk ops by (auto simp: Condition_def scalarCondition_def)
  qed
  then obtain c where c: "Condition addressHistoryRegistry f = Inr c" by blast
  have "holds (historyEnv r) c \<longleftrightarrow> historyMatches r f" for r
  proof -
    have "cs_Rel spec = None \<longrightarrow> cs_Nullable spec \<or> e_col (historyEnv r) (cs_Expr spec) \<noteq> None"
      using col by (auto simp: addressHistoryColumns_def historySpec_def historyEnv_def historyCells_def)
    moreover have "f_Op f \<in> {OpContains, OpNotContains} \<longrightarrow> textCell (e_col (historyEnv r) (cs_Expr spec))"
      using like by (auto simp: historyEnv_def historyCells_def textCell_def)
    moreover have "rg_cols addressHistoryRegistry (f_Column f) = Some spec" using spec(1) by (simp add: addressHistoryRegistry_def)
    ultimately show ?thesis using holds_Condition[OF c, of spec "historyEnv r"] spec(1) by (simp add: historyMatches_def)
  qed
  then show ?thesis using c by blast
qed

lemma historyConditions_valid:
  "\<forall>f \<in> set fs. validHistoryFilter f \<Longrightarrow> \<exists>cs. historyConditions fs = Inr cs \<and>
    (\<forall>r. (\<forall>c \<in> set cs. holds (historyEnv r) c) \<longleftrightarrow> list_all (historyMatches r) fs)"
proof (induction fs)
  case (Cons f fs)
  then obtain cs where "historyConditions fs = Inr cs" "\<forall>r. (\<forall>c \<in> set cs. holds (historyEnv r) c) \<longleftrightarrow> list_all (historyMatches r) fs" by auto
  moreover obtain c where "Condition addressHistoryRegistry f = Inr c" "\<forall>r. holds (historyEnv r) c \<longleftrightarrow> historyMatches r f"
    using history_condition Cons.prems by (metis list.set_intros(1))
  ultimately show ?case by (intro exI[of _ "c # cs"]) auto
qed simp

lemma base_selects:
  assumes "\<forall>f \<in> set (hq_Filters q). validHistoryFilter f"
  shows "addressHistoryBase w q s = Inr (historySelected w q s)"
proof -
  obtain cs where cs: "historyConditions (hq_Filters q) = Inr cs" "\<forall>r. (\<forall>c \<in> set cs. holds (historyEnv r) c) \<longleftrightarrow> list_all (historyMatches r) (hq_Filters q)"
    using historyConditions_valid[OF assms] by blast
  have "holds (historyEnv r) (CGe ''e.created_at'' (VTime t)) \<longleftrightarrow> t \<le> hr_CreatedAt r" "holds (historyEnv r) (CLe ''e.created_at'' (VTime t)) \<longleftrightarrow> hr_CreatedAt r \<le> t" for r t
    by (simp_all add: historyEnv_def historyCells_def)
  then show ?thesis using cs by (simp add: addressHistoryBase_def addressHistoryConditions_def historySelected_def del: holds_atom)
qed

section \<open>The histogram counts worst risks\<close>

text \<open>The specification: in a bucket a device belongs to the band of the worst risk it had there.\<close>

definition bucketRows :: "Granularity \<Rightarrow> historyRow list \<Rightarrow> time \<Rightarrow> historyRow set" where
  "bucketRows g rows ts = {r \<in> set rows. TruncateToBucket g (hr_CreatedAt r) = ts}"

definition worstDevices :: "Granularity \<Rightarrow> historyRow list \<Rightarrow> time \<Rightarrow> TTLRisk \<Rightarrow> id set" where
  "worstDevices g rows ts risk = {d. (\<exists>r \<in> bucketRows g rows ts. hr_DeviceID r = d \<and> hr_TTLRisk r = risk) \<and>
     (\<forall>r \<in> bucketRows g rows ts. hr_DeviceID r = d \<longrightarrow> ttlRiskRank (hr_TTLRisk r) \<le> ttlRiskRank risk)}"

definition bandsOf :: "Granularity \<Rightarrow> historyRow list \<Rightarrow> time \<Rightarrow> AddressHistoryBucket" where
  "bandsOf g rows ts = \<lparr>ab_Timestamp = ts, ab_OkDeviceCount = card (worstDevices g rows ts TTLRiskOK),
     ab_ApproachingDeviceCount = card (worstDevices g rows ts TTLRiskApproaching),
     ab_CriticalDeviceCount = card (worstDevices g rows ts TTLRiskCritical),
     ab_BreachedDeviceCount = card (worstDevices g rows ts TTLRiskBreached)\<rparr>"

lemma rank_inj [simp]: "ttlRiskRank a = ttlRiskRank b \<longleftrightarrow> a = b"
  by (cases a; cases b) simp_all

lemma order_rank [simp]: "ttlRiskOrder ! ttlRiskRank a = a"
  by (cases a) (simp_all add: ttlRiskOrder_def numeral_eq_Suc)

lemma fold_max_Max: "fold max ns (m::nat) = Max (insert m (set ns))"
  by (simp flip: Max.set_eq_fold)

lemma maxRank_risks:
  assumes "rs \<noteq> []"
  shows "\<exists>r \<in> set rs. maxRank (map (\<lambda>r. ttlRiskRank (hr_TTLRisk r)) rs) = ttlRiskRank (hr_TTLRisk r)"
    and "maxRank (map (\<lambda>r. ttlRiskRank (hr_TTLRisk r)) rs) = ttlRiskRank risk \<longleftrightarrow>
      (\<exists>r \<in> set rs. hr_TTLRisk r = risk) \<and> (\<forall>r \<in> set rs. ttlRiskRank (hr_TTLRisk r) \<le> ttlRiskRank risk)"
proof -
  let ?m = "maxRank (map (\<lambda>r. ttlRiskRank (hr_TTLRisk r)) rs)" and ?S = "(\<lambda>r. ttlRiskRank (hr_TTLRisk r)) ` set rs"
  have m: "?m = Max ?S" using assms by (simp add: maxRank_def fold_max_Max)
  have max: "Max ?S \<in> ?S" "\<forall>r \<in> set rs. ttlRiskRank (hr_TTLRisk r) \<le> Max ?S" using assms by (auto intro!: Max_in)
  then show "\<exists>r \<in> set rs. ?m = ttlRiskRank (hr_TTLRisk r)" unfolding m by blast
  show "?m = ttlRiskRank risk \<longleftrightarrow> (\<exists>r \<in> set rs. hr_TTLRisk r = risk) \<and> (\<forall>r \<in> set rs. ttlRiskRank (hr_TTLRisk r) \<le> ttlRiskRank risk)"
  proof
    assume "?m = ttlRiskRank risk"
    then show "(\<exists>r \<in> set rs. hr_TTLRisk r = risk) \<and> (\<forall>r \<in> set rs. ttlRiskRank (hr_TTLRisk r) \<le> ttlRiskRank risk)"
      using max unfolding m by auto
  next
    assume worst: "(\<exists>r \<in> set rs. hr_TTLRisk r = risk) \<and> (\<forall>r \<in> set rs. ttlRiskRank (hr_TTLRisk r) \<le> ttlRiskRank risk)"
    have "Max ?S \<le> ttlRiskRank risk" using worst max(1) by auto
    moreover have "ttlRiskRank risk \<le> Max ?S" using worst max(2) by blast
    ultimately show "?m = ttlRiskRank risk" unfolding m by simp
  qed
qed

text \<open>A band is written once: when every row for it has the same count, the table has that count.\<close>

lemma fold_bandStep:
  assumes "\<And>rb. rb \<in> set rbs \<Longrightarrow> unixSeconds (rb_Timestamp rb) = k \<Longrightarrow> ttlRiskOrder ! rb_RiskRank rb = risk \<Longrightarrow> rb_DeviceCount rb = n"
  shows "fold bandStep rbs m k risk =
    (if \<exists>rb \<in> set rbs. unixSeconds (rb_Timestamp rb) = k \<and> ttlRiskOrder ! rb_RiskRank rb = risk then n else m k risk)"
  using assms
proof (induction rbs arbitrary: m)
  case (Cons rb rbs)
  have "fold bandStep (rb # rbs) m k risk = (if \<exists>rb \<in> set rbs. unixSeconds (rb_Timestamp rb) = k \<and> ttlRiskOrder ! rb_RiskRank rb = risk
      then n else bandStep rb m k risk)"
    using Cons.IH[of "bandStep rb m"] Cons.prems by simp
  moreover have "bandStep rb m k risk =
      (if unixSeconds (rb_Timestamp rb) = k \<and> ttlRiskOrder ! rb_RiskRank rb = risk then rb_DeviceCount rb else m k risk)"
    by (simp add: bandStep_def Let_def)
  ultimately show ?case using Cons.prems[of rb] by auto
qed simp

lemma unixSeconds_aligned:
  assumes "unixSeconds (TruncateToBucket g a) = unixSeconds (TruncateToBucket g b)"
  shows "TruncateToBucket g a = TruncateToBucket g b"
proof -
  obtain c where c: "width g = c * 1000000000" by (cases g) (auto simp: minutes_def intro: that[of 60] that[of 300] that[of 3600] that[of 86400])
  have "unixSeconds (TruncateToBucket g t) = t div width g * c" for t
    by (simp add: unixSeconds_def TruncateToBucket_def c flip: mult.assoc)
  then show ?thesis using assms c by (simp add: TruncateToBucket_def)
qed

text \<open>The inner aggregate: one entry for each device in each bucket, with the rank of its worst risk there.\<close>

definition worstRanks :: "Granularity \<Rightarrow> historyRow list \<Rightarrow> (time \<times> nat) list" where
  "worstRanks g rows = map (\<lambda>((bucket, device), rs). (bucket, maxRank (map (\<lambda>r. ttlRiskRank (hr_TTLRisk r)) rs)))
     (groupBy (\<lambda>r. (TruncateToBucket g (hr_CreatedAt r), hr_DeviceID r)) rows)"

lemma riskDeviceBuckets_eq:
  "riskDeviceBuckets w q g s = (case addressHistoryBase w q s of Inl e \<Rightarrow> Inl e
     | Inr rows \<Rightarrow> Inr (map (\<lambda>((bucket, rank), xs). \<lparr>rb_Timestamp = bucket, rb_RiskRank = rank, rb_DeviceCount = length xs\<rparr>)
            (groupBy (\<lambda>x. x) (filter (\<lambda>x. snd x \<ge> ttlRiskOKRank) (worstRanks g rows)))))"
  by (cases "addressHistoryBase w q s") (simp_all add: riskDeviceBuckets_def worstRanks_def BucketExpr_truncates Let_def)

lemma worstRanks_mem:
  assumes "x \<in> set (worstRanks g rows)"
  shows "\<exists>t risk. x = (TruncateToBucket g t, ttlRiskRank risk)"
proof -
  obtain b d rs where x: "x = (b, maxRank (map (\<lambda>r. ttlRiskRank (hr_TTLRisk r)) rs))"
    and mem: "((b, d), rs) \<in> set (groupBy (\<lambda>r. (TruncateToBucket g (hr_CreatedAt r), hr_DeviceID r)) rows)"
    using assms unfolding worstRanks_def by auto
  have "\<exists>t. b = TruncateToBucket g t" using mem by (auto simp: groupBy_mem)
  then show ?thesis using x maxRank_risks(1)[OF groupBy_nonempty[OF mem]] by auto
qed

lemma worstRanks_count:
  "length (filter (\<lambda>x. x = (ts, ttlRiskRank risk)) (worstRanks g rows)) = card (worstDevices g rows ts risk)"
proof -
  let ?key = "\<lambda>r. (TruncateToBucket g (hr_CreatedAt r), hr_DeviceID r)"
  let ?rs = "\<lambda>k. filter (\<lambda>r. ?key r = k) rows"
  let ?rank = "\<lambda>k. maxRank (map (\<lambda>r. ttlRiskRank (hr_TTLRisk r)) (?rs k))"
  let ?K = "{k \<in> ?key ` set rows. fst k = ts \<and> ?rank k = ttlRiskRank risk}"
  have "worstRanks g rows = map (\<lambda>k. (fst k, ?rank k)) (sort (remdups (map ?key rows)))"
    unfolding worstRanks_def groupBy_def by (simp add: comp_def split_beta)
  then have "length (filter (\<lambda>x. x = (ts, ttlRiskRank risk)) (worstRanks g rows)) =
      length (filter (\<lambda>k. fst k = ts \<and> ?rank k = ttlRiskRank risk) (sort (remdups (map ?key rows))))"
    by (simp add: filter_map comp_def)
  also have "\<dots> = card ?K" by (subst distinct_length_filter) (auto intro!: arg_cong[where f = card])
  also have "?K = Pair ts ` worstDevices g rows ts risk"
  proof (rule set_eqI)
    fix k :: "time \<times> id"
    obtain b d where k: "k = (b, d)" by fastforce
    have ne: "k \<in> ?key ` set rows \<longleftrightarrow> ?rs k \<noteq> []" by (auto simp: filter_empty_conv)
    have "k \<in> ?K \<longleftrightarrow> b = ts \<and> (\<exists>r \<in> set (?rs k). hr_TTLRisk r = risk) \<and> (\<forall>r \<in> set (?rs k). ttlRiskRank (hr_TTLRisk r) \<le> ttlRiskRank risk)"
    proof (cases "?rs k = []")
      case True
      then show ?thesis unfolding mem_Collect_eq ne by simp
    next
      case False
      then show ?thesis unfolding mem_Collect_eq ne maxRank_risks(2)[OF False] by (simp add: k)
    qed
    also have "\<dots> \<longleftrightarrow> b = ts \<and> d \<in> worstDevices g rows ts risk" by (auto simp: k worstDevices_def bucketRows_def)
    finally show "k \<in> ?K \<longleftrightarrow> k \<in> Pair ts ` worstDevices g rows ts risk" unfolding k by auto
  qed
  finally show ?thesis by (simp add: card_image inj_on_def)
qed

lemma foldRiskBuckets_bands:
  assumes seq: "\<forall>ts \<in> set seq. \<exists>t. ts = TruncateToBucket g t"
  shows "foldRiskBuckets seq (map (\<lambda>((bucket, rank), xs). \<lparr>rb_Timestamp = bucket, rb_RiskRank = rank, rb_DeviceCount = length xs\<rparr>)
      (groupBy (\<lambda>x. x) (filter (\<lambda>x. snd x \<ge> ttlRiskOKRank) (worstRanks g rows)))) = map (bandsOf g rows) seq"
proof -
  let ?xs = "filter (\<lambda>x. snd x \<ge> ttlRiskOKRank) (worstRanks g rows)"
  let ?row = "\<lambda>((bucket, rank), xs). \<lparr>rb_Timestamp = bucket, rb_RiskRank = rank, rb_DeviceCount = length xs\<rparr>"
  let ?rbs = "map ?row (groupBy (\<lambda>x. x) ?xs)"
  have band: "fold bandStep ?rbs (\<lambda>_ _. 0) (unixSeconds ts) risk = card (worstDevices g rows ts risk)"
    if ts: "ts \<in> set seq" and risk: "ttlRiskOKRank \<le> ttlRiskRank risk" for ts risk
  proof -
    let ?n = "length (filter (\<lambda>x. x = (ts, ttlRiskRank risk)) ?xs)"
    have n: "?n = card (worstDevices g rows ts risk)"
      unfolding worstRanks_count[symmetric] filter_filter using risk by (intro arg_cong[where f = length] filter_cong) auto
    have here: "rb = ?row ((ts, ttlRiskRank risk), filter (\<lambda>x. x = (ts, ttlRiskRank risk)) ?xs) \<and> (ts, ttlRiskRank risk) \<in> set ?xs"
      if rb: "rb \<in> set ?rbs" "unixSeconds (rb_Timestamp rb) = unixSeconds ts" "ttlRiskOrder ! rb_RiskRank rb = risk" for rb
    proof -
      obtain x where x: "x \<in> set ?xs" "rb = ?row (x, filter (\<lambda>y. y = x) ?xs)" using rb(1) by (auto simp: groupBy_set)
      obtain t k where k: "x = (TruncateToBucket g t, ttlRiskRank k)" using worstRanks_mem[of x g rows] x(1) by auto
      obtain t' where "ts = TruncateToBucket g t'" using seq ts by blast
      then have "x = (ts, ttlRiskRank risk)" using unixSeconds_aligned[of g t t'] rb(2,3) x(2) k by simp
      then show ?thesis using x by blast
    qed
    have "fold bandStep ?rbs (\<lambda>_ _. 0) (unixSeconds ts) risk =
        (if \<exists>rb \<in> set ?rbs. unixSeconds (rb_Timestamp rb) = unixSeconds ts \<and> ttlRiskOrder ! rb_RiskRank rb = risk then ?n else 0)"
      by (rule fold_bandStep) (drule (2) here, simp)
    also have "\<dots> = ?n"
    proof (cases "(ts, ttlRiskRank risk) \<in> set ?xs")
      case True
      then have "?row ((ts, ttlRiskRank risk), filter (\<lambda>x. x = (ts, ttlRiskRank risk)) ?xs) \<in> set ?rbs"
        unfolding set_map by (intro imageI) (simp add: groupBy_mem)
      then show ?thesis by force
    next
      case False
      then have "?n = 0" by (auto simp: filter_empty_conv)
      then show ?thesis by simp
    qed
    finally show ?thesis using n by simp
  qed
  have "ttlRiskOKRank \<le> ttlRiskRank TTLRiskOK" "ttlRiskOKRank \<le> ttlRiskRank TTLRiskApproaching"
    "ttlRiskOKRank \<le> ttlRiskRank TTLRiskCritical" "ttlRiskOKRank \<le> ttlRiskRank TTLRiskBreached" by (simp_all add: ttlRiskOKRank_def)
  then show ?thesis unfolding foldRiskBuckets_def bandsOf_def Let_def by (intro map_cong[OF refl]) (simp only: band)
qed

lemma bands_partition:
  "card (worstDevices g rows ts TTLRiskOK) + card (worstDevices g rows ts TTLRiskApproaching) + card (worstDevices g rows ts TTLRiskCritical) +
     card (worstDevices g rows ts TTLRiskBreached) = card {hr_DeviceID r |r. r \<in> bucketRows g rows ts \<and> hr_TTLRisk r \<noteq> TTLRiskUnknown}"
proof -
  let ?W = "worstDevices g rows ts" and ?risks = "{TTLRiskOK, TTLRiskApproaching, TTLRiskCritical, TTLRiskBreached}"
  let ?M = "{hr_DeviceID r |r. r \<in> bucketRows g rows ts \<and> hr_TTLRisk r \<noteq> TTLRiskUnknown}"
  have fin: "finite (bucketRows g rows ts)" by (simp add: bucketRows_def)
  have "\<Union> (?W ` ?risks) = ?M"
  proof (intro equalityI subsetI)
    fix d assume "d \<in> ?M"
    then obtain r0 where r0: "r0 \<in> bucketRows g rows ts" "hr_DeviceID r0 = d" "hr_TTLRisk r0 \<noteq> TTLRiskUnknown" by blast
    let ?R = "{r \<in> bucketRows g rows ts. hr_DeviceID r = d}"
    have "Max ((\<lambda>r. ttlRiskRank (hr_TTLRisk r)) ` ?R) \<in> (\<lambda>r. ttlRiskRank (hr_TTLRisk r)) ` ?R" using fin r0 by (intro Max_in) auto
    then obtain r where r: "r \<in> ?R" "ttlRiskRank (hr_TTLRisk r) = Max ((\<lambda>r. ttlRiskRank (hr_TTLRisk r)) ` ?R)" by (metis (lifting) imageE)
    then have max: "r \<in> ?R" "\<forall>x \<in> ?R. ttlRiskRank (hr_TTLRisk x) \<le> ttlRiskRank (hr_TTLRisk r)" using fin by auto
    then have "ttlRiskRank (hr_TTLRisk r0) \<le> ttlRiskRank (hr_TTLRisk r)" using r0 by blast
    then have "hr_TTLRisk r \<in> ?risks" using r0(3) by (cases "hr_TTLRisk r"; cases "hr_TTLRisk r0") simp_all
    moreover have "d \<in> ?W (hr_TTLRisk r)" using max by (auto simp: worstDevices_def)
    ultimately show "d \<in> \<Union> (?W ` ?risks)" by blast
  qed (auto simp: worstDevices_def)
  moreover have "card (\<Union> (?W ` ?risks)) = (\<Sum>k \<in> ?risks. card (?W k))"
  proof (rule card_UN_disjoint)
    have "?W k \<subseteq> hr_DeviceID ` bucketRows g rows ts" for k by (auto simp: worstDevices_def)
    then show "\<forall>k \<in> ?risks. finite (?W k)" using fin by (meson finite_imageI finite_subset)
    have "k = l" if "d \<in> ?W k" "d \<in> ?W l" for d k l
    proof -
      have "ttlRiskRank k \<le> ttlRiskRank l" "ttlRiskRank l \<le> ttlRiskRank k" using that by (auto simp: worstDevices_def)
      then show ?thesis by (metis order_antisym rank_inj)
    qed
    then show "\<forall>k \<in> ?risks. \<forall>l \<in> ?risks. k \<noteq> l \<longrightarrow> ?W k \<inter> ?W l = {}" by blast
  qed simp
  ultimately show ?thesis by simp
qed

text \<open>C35 (functional). The histogram of a valid request succeeds and has a bucket for every step of the window. In each bucket a device is in the
  band of the worst risk of its selected events of that bucket, the four bands together count every device with a measured renewal
  there exactly once, and every selected event falls into one of the buckets.\<close>

theorem risk_histogram_exact:
  assumes "NewAddressHistoryHistogramQuery now params = Inr q"
  shows "let g = GranularityForWindow (hq_To q - hq_From q); buckets = Sequence g (hq_From q) (hq_To q); rows = historySelected w q s in
    HandleGetAddressHistoryHistogram w now params s = GetHistoryHistogram200 (map (bandsOf g rows) buckets) \<and>
    (\<forall>ts. ab_OkDeviceCount (bandsOf g rows ts) + ab_ApproachingDeviceCount (bandsOf g rows ts) + ab_CriticalDeviceCount (bandsOf g rows ts) +
      ab_BreachedDeviceCount (bandsOf g rows ts) = card {hr_DeviceID r |r. r \<in> bucketRows g rows ts \<and> hr_TTLRisk r \<noteq> TTLRiskUnknown}) \<and>
    (\<forall>r \<in> set rows. \<exists>ts \<in> set buckets. r \<in> bucketRows g rows ts)"
proof -
  define g where "g = GranularityForWindow (hq_To q - hq_From q)"
  define buckets where "buckets = Sequence g (hq_From q) (hq_To q)"
  define rows where "rows = historySelected w q s"
  have base: "addressHistoryBase w q s = Inr rows"
    unfolding rows_def using base_selects newAddressHistoryQuery_valid assms unfolding NewAddressHistoryHistogramQuery_def by blast
  have "\<forall>ts \<in> set buckets. \<exists>t. ts = TruncateToBucket g t"
    unfolding buckets_def Sequence_map TruncateToBucket_def by auto (metis nonzero_mult_div_cancel_right width_pos(2))
  note bands = foldRiskBuckets_bands[OF this]
  have served: "HandleGetAddressHistoryHistogram w now params s = GetHistoryHistogram200 (map (bandsOf g rows) buckets)"
    unfolding HandleGetAddressHistoryHistogram_def assms GetAddressHistoryHistogram_def riskDeviceBuckets_eq base Let_def sum.case
      g_def[symmetric] buckets_def[symmetric] bands ..
  have inside: "\<exists>ts \<in> set buckets. r \<in> bucketRows g rows ts" if r: "r \<in> set rows" for r
  proof -
    have "hq_From q \<le> hr_CreatedAt r" "hr_CreatedAt r \<le> hq_To q" using r by (auto simp: rows_def historySelected_def)
    then have "TruncateToBucket g (hr_CreatedAt r) \<in> set buckets" unfolding buckets_def by (subst Sequence_set) auto
    then show ?thesis using r by (auto simp: bucketRows_def)
  qed
  show ?thesis unfolding Let_def g_def[symmetric] buckets_def[symmetric] rows_def[symmetric]
    using served inside by (simp add: bandsOf_def bands_partition)
qed

definition historyStore :: store where
  "historyStore = ruleStore\<lparr>st_addresses := [\<lparr>a_ID = 1, a_DeviceID = 1, a_IP = ''10.0.0.1'', a_IsEnabled = True, a_Source = EventSourceHeartbeat,
       a_CreatedAt = 0, a_UpdatedAt = 0\<rparr>],
     st_rules := [\<lparr>r_ID = 1, r_DeviceID = 1, r_RuleType = RuleTypeDeviceAddressLease, r_Enabled = True,
       r_Config = jc_marshal goCodec ttlField 60, r_CreatedAt = 0, r_UpdatedAt = 0\<rparr>],
     st_addressEvents := map (\<lambda>n. \<lparr>ae_AddressID = 1, ae_IsEnabled = True, ae_Source = EventSourceHeartbeat, ae_Trigger = EventTriggerSchedule,
       ae_CreatedAt = n * 1000000000\<rparr>) [0, 30, 85]\<rparr>"

definition historyAround :: surroundings where
  "historyAround = \<lparr>sr_ids = [1, 2, 3], sr_codec = goCodec, sr_gapOf = (\<lambda>a b. (a - b) div 1000000000)\<rparr>"

definition historyParams :: addressHistoryFilterParams where
  "historyParams = \<lparr>hp_From = Some 0, hp_To = Some 119000000000, hp_DeviceID = Some [1], hp_DeviceIDOp = None, hp_UserID = None, hp_UserIDOp = None,
     hp_IP = Some [''10.''], hp_IPOp = Some ''contains'', hp_Source = None, hp_SourceOp = None, hp_TriggerType = None, hp_TriggerTypeOp = None,
     hp_EventKind = None, hp_EventKindOp = None, hp_TTLRisk = None, hp_TTLRiskOp = None\<rparr>"

definition historyQuery :: AddressHistoryQuery where
  "historyQuery = \<lparr>hq_From = 0, hq_To = 119000000000, hq_Filters = [\<lparr>f_Column = ''device_id'', f_Op = OpIn, f_Values = [VInt 1]\<rparr>,
     \<lparr>f_Column = ''ip'', f_Op = OpContains, f_Values = [VText ''10.'']\<rparr>], hq_BeforeID = None, hq_Limit = 0\<rparr>"

text \<open>A lifetime of a minute, renewed after 30 and again after 55 seconds: in the first minute the device is fine, in the second its risk is critical.\<close>

theorem risk_histogram_exact_witness:
  "map (bandsOf GranularityMinute (historySelected historyAround historyQuery historyStore)) [0, 60000000000] =
    [\<lparr>ab_Timestamp = 0, ab_OkDeviceCount = 1, ab_ApproachingDeviceCount = 0, ab_CriticalDeviceCount = 0, ab_BreachedDeviceCount = 0\<rparr>,
     \<lparr>ab_Timestamp = 60000000000, ab_OkDeviceCount = 0, ab_ApproachingDeviceCount = 0, ab_CriticalDeviceCount = 1, ab_BreachedDeviceCount = 0\<rparr>]"
proof -
  have q: "NewAddressHistoryHistogramQuery 0 historyParams = Inr historyQuery" by code_simp
  have g: "GranularityForWindow (hq_To historyQuery - hq_From historyQuery) = GranularityMinute" by code_simp
  have buckets: "Sequence GranularityMinute (hq_From historyQuery) (hq_To historyQuery) = [0, 60000000000]" by code_simp
  have "HandleGetAddressHistoryHistogram historyAround 0 historyParams historyStore = GetHistoryHistogram200
    [\<lparr>ab_Timestamp = 0, ab_OkDeviceCount = 1, ab_ApproachingDeviceCount = 0, ab_CriticalDeviceCount = 0, ab_BreachedDeviceCount = 0\<rparr>,
     \<lparr>ab_Timestamp = 60000000000, ab_OkDeviceCount = 0, ab_ApproachingDeviceCount = 0, ab_CriticalDeviceCount = 1, ab_BreachedDeviceCount = 0\<rparr>]" by code_simp
  then show ?thesis using risk_histogram_exact[OF q, of historyAround historyStore] unfolding Let_def g buckets by simp
qed

section \<open>Paging\<close>

text \<open>Following the cursors: every page is asked for at a time of its own, with the cursor of the page before.\<close>

fun followHistory :: "surroundings \<Rightarrow> (string \<Rightarrow> GeoResult) option \<Rightarrow> (nat \<Rightarrow> time) \<Rightarrow> GetAddressHistoryParams \<Rightarrow> store \<Rightarrow> nat \<Rightarrow> AddressHistoryEvent list option" where
  "followHistory w geo clock params s 0 = None"
| "followHistory w geo clock params s (Suc n) = (case GetAddressHistory w geo (clock n) params s of
     GetHistory200 page \<Rightarrow> (case hs_NextCursor page of None \<Rightarrow> Some (hs_Events page)
       | Some c \<Rightarrow> map_option (\<lambda>rest. hs_Events page @ rest) (followHistory w geo clock (params\<lparr>ha_BeforeId := Some c\<rparr>) s n))
   | _ \<Rightarrow> None)"

definition newestFirst :: "historyRow list \<Rightarrow> historyRow list" where
  "newestFirst rows = sort_key (\<lambda>r. - hr_ID r) rows"

definition below :: "id option \<Rightarrow> historyRow list \<Rightarrow> historyRow list" where
  "below b rows = (case b of None \<Rightarrow> rows | Some i \<Rightarrow> filter (\<lambda>r. hr_ID r < i) rows)"

abbreviation descending :: "historyRow list \<Rightarrow> bool" where
  "descending \<equiv> sorted_wrt (\<lambda>a b. hr_ID b < hr_ID a)"

lemma below_last:
  "descending rows \<Longrightarrow> 0 < k \<Longrightarrow> k \<le> length rows \<Longrightarrow> filter (\<lambda>r. hr_ID r < hr_ID (last (take k rows))) rows = drop k rows"
proof (induction rows arbitrary: k)
  case (Cons r rows)
  obtain j where k: "k = Suc j" using Cons.prems(2) by (cases k) auto
  show ?case
  proof (cases "j = 0")
    case True
    then show ?thesis using Cons.prems(1) by (simp add: k)
  next
    case False
    then have ne: "take j rows \<noteq> []" using Cons.prems(3) k by auto
    then have "last (take j rows) \<in> set rows" by (meson in_set_takeD last_in_set)
    then have "hr_ID (last (take j rows)) < hr_ID r" using Cons.prems(1) by simp
    then show ?thesis using Cons.IH[of j] Cons.prems False ne by (simp add: k)
  qed
qed simp

lemma enriched_ids:
  assumes "distinct (sr_ids w)"
  shows "distinct (map hr_ID (addressHistoryEnriched w s))"
proof -
  have one: "enrich w s evs x = [] \<or> (\<exists>r. enrich w s evs x = [r] \<and> hr_ID r = fst x)" for evs x
    by (auto simp: enrich_def Let_def split: option.splits)
  have "distinct (map fst xs) \<Longrightarrow> distinct (map hr_ID (concat (map (enrich w s evs) xs))) \<and> hr_ID ` set (concat (map (enrich w s evs) xs)) \<subseteq> fst ` set xs" for evs xs
  proof (induction xs)
    case (Cons x xs)
    let ?rest = "concat (map (enrich w s evs) xs)"
    have IH: "distinct (map hr_ID ?rest)" "hr_ID ` set ?rest \<subseteq> fst ` set xs" using Cons by simp_all
    show ?case
    proof (cases "enrich w s evs x")
      case Nil
      then show ?thesis using IH by auto
    next
      case r: (Cons r rs)
      then have r: "enrich w s evs x = [r]" "hr_ID r = fst x" using one[of evs x] by auto
      then have "hr_ID r \<notin> hr_ID ` set ?rest" using IH(2) Cons.prems by auto
      then show ?thesis using IH r by auto
    qed
  qed simp
  moreover have "distinct (map fst (historyEvents (sr_ids w) s))" using assms by (simp add: historyEvents_def map_fst_zip_take)
  ultimately show ?thesis by (simp add: addressHistoryEnriched_def Let_def)
qed

lemma newestFirst_descending:
  assumes "distinct (sr_ids w)"
  shows "descending (newestFirst (historySelected w q s))"
proof -
  let ?rows = "newestFirst (historySelected w q s)"
  have "distinct (map hr_ID (historySelected w q s))" using enriched_ids[OF assms] by (simp add: historySelected_def distinct_map_filter)
  moreover have "mset (map hr_ID ?rows) = mset (map hr_ID (historySelected w q s))" by (simp add: newestFirst_def)
  ultimately have "distinct (map hr_ID ?rows)" by (metis mset_eq_imp_distinct_iff)
  then have "distinct (map (\<lambda>r. - hr_ID r) ?rows)" by (simp add: distinct_map inj_on_def)
  moreover have "sorted (map (\<lambda>r. - hr_ID r) ?rows)" by (simp add: newestFirst_def)
  ultimately have "sorted_wrt (<) (map (\<lambda>r. - hr_ID r) ?rows)" by (simp only: strict_sorted_iff)
  then show ?thesis by (simp add: sorted_wrt_map)
qed

lemma below_newest: "sort_key (\<lambda>r. - hr_ID r) (below b rows) = below b (newestFirst rows)"
  by (cases b) (simp_all add: below_def newestFirst_def filter_sort)

lemma NewAddressHistoryQuery_limit: "NewAddressHistoryQuery now p = Inr q \<Longrightarrow> 0 < hq_Limit q \<and> hq_Limit q \<le> 200 \<and> hq_BeforeID q = ha_BeforeId p"
  by (auto simp: NewAddressHistoryQuery_def Let_def defaultHistoryLimit_def maxHistoryLimit_def split: sum.splits option.splits if_splits)

lemma NewAddressHistoryQuery_later:
  assumes "NewAddressHistoryQuery now p = Inr q" and "hp_From (ha_Filter p) \<noteq> None" and "hp_To (ha_Filter p) \<noteq> None"
  shows "NewAddressHistoryQuery later (p\<lparr>ha_BeforeId := b\<rparr>) = Inr (q\<lparr>hq_BeforeID := b\<rparr>)"
proof -
  have "newAddressHistoryQuery later (ha_Filter p) = newAddressHistoryQuery now (ha_Filter p)"
    using assms(2,3) by (auto simp: newAddressHistoryQuery_def split: option.splits sum.splits)
  then show ?thesis using assms(1) by (auto simp: NewAddressHistoryQuery_def Let_def split: sum.splits)
qed

lemma GetAddressHistory_page:
  assumes "NewAddressHistoryQuery now p = Inr q"
  shows "GetAddressHistory w geo now p s = GetHistory200 (toAddressHistoryResponse
    \<lparr>he_Events = take (nat (hq_Limit q)) (below (hq_BeforeID q) (newestFirst (historySelected w q s))), he_Total = int (length (historySelected w q s))\<rparr> (hq_Limit q) geo)"
proof -
  obtain q0 where q0: "newAddressHistoryQuery now (ha_Filter p) = Inr q0" "hq_Filters q = hq_Filters q0"
    using assms by (auto simp: NewAddressHistoryQuery_def Let_def split: sum.splits)
  have base: "addressHistoryBase w q s = Inr (historySelected w q s)"
    using newAddressHistoryQuery_valid[OF q0(1)] q0(2) by (intro base_selects) simp
  show ?thesis unfolding GetAddressHistory_def assms sum.case GetAddressHistoryEvents_def base Let_def below_newest[symmetric]
    by (simp add: below_def)
qed

lemma followHistory_from:
  assumes "NewAddressHistoryQuery now p = Inr q" and "hp_From (ha_Filter p) \<noteq> None" and "hp_To (ha_Filter p) \<noteq> None" and "distinct (sr_ids w)"
  shows "length (below b (newestFirst (historySelected w q s))) < n \<Longrightarrow> followHistory w geo clock (p\<lparr>ha_BeforeId := b\<rparr>) s n =
    Some (map (toHistoryEvent geo) (below b (newestFirst (historySelected w q s))))"
proof (induction n arbitrary: b)
  case (Suc n)
  let ?L = "newestFirst (historySelected w q s)" and ?k = "nat (hq_Limit q)"
  let ?rest = "below b ?L"
  have k: "0 < ?k" "int ?k = hq_Limit q" using NewAddressHistoryQuery_limit[OF assms(1)] by auto
  have same: "historySelected w (q\<lparr>hq_BeforeID := b\<rparr>) s = historySelected w q s" by (simp add: historySelected_def)
  have page: "GetAddressHistory w geo (clock n) (p\<lparr>ha_BeforeId := b\<rparr>) s = GetHistory200 (toAddressHistoryResponse
    \<lparr>he_Events = take ?k ?rest, he_Total = int (length (historySelected w q s))\<rparr> (hq_Limit q) geo)"
    using GetAddressHistory_page[OF NewAddressHistoryQuery_later[OF assms(1-3)], of w geo "clock n" b s] by (simp add: same)
  have desc: "descending ?rest" using newestFirst_descending[OF assms(4)] by (cases b) (simp_all add: below_def sorted_wrt_filter)
  show ?case
  proof (cases "?k \<le> length ?rest")
    case False
    then have "int (length (take ?k ?rest)) \<noteq> hq_Limit q" using k by simp
    then show ?thesis using False by (simp add: page toAddressHistoryResponse_def del: length_take)
  next
    case True
    let ?c = "hr_ID (last (take ?k ?rest))"
    have full: "int (length (take ?k ?rest)) = hq_Limit q" using True k by simp
    have "last (take ?k ?rest) \<in> set ?rest" using True k by (metis in_set_takeD last_in_set length_0_conv length_take min.absorb2 not_gr_zero)
    then have "\<forall>i. b = Some i \<longrightarrow> ?c < i" by (auto simp: below_def)
    then have "below (Some ?c) ?L = filter (\<lambda>r. hr_ID r < ?c) ?rest" by (cases b) (auto simp: below_def filter_filter intro!: filter_cong)
    then have rest: "below (Some ?c) ?L = drop ?k ?rest" using below_last[OF desc k(1) True] by simp
    then have "length (below (Some ?c) ?L) < n" using Suc.prems k(1) True by simp
    from Suc.IH[OF this] show ?thesis
      using full k(1,2) unfolding followHistory.simps page rest
      by (simp add: toAddressHistoryResponse_def del: length_take) (metis append_take_drop_id map_append)
  qed
qed simp

text \<open>C37 (equivalence). A client that starts without a cursor and follows the cursors of the address history until there is none gets every selected
  event exactly once, from the newest to the oldest, whatever the limit it asked for and however long it waits between the pages. As many
  requests as there are events, and one more, are enough.\<close>

theorem history_paging_complete:
  assumes "NewAddressHistoryQuery now p = Inr q" and "hp_From (ha_Filter p) \<noteq> None" and "hp_To (ha_Filter p) \<noteq> None" and "ha_BeforeId p = None"
    and "distinct (sr_ids w)" and "length (historySelected w q s) < n"
  shows "followHistory w geo clock p s n = Some (map (toHistoryEvent geo) (newestFirst (historySelected w q s)))"
proof -
  have "p\<lparr>ha_BeforeId := None\<rparr> = p" using assms(4) by simp
  then show ?thesis using followHistory_from[OF assms(1-3,5), of None s n geo clock] assms(6) by (simp add: below_def newestFirst_def)
qed

text \<open>Two pages of two and one event.\<close>

theorem history_paging_complete_witness:
  "map hr_ID (newestFirst (historySelected historyAround (historyQuery\<lparr>hq_Limit := 2\<rparr>) historyStore)) = [3, 2, 1] \<and>
   followHistory historyAround None int \<lparr>ha_Filter = historyParams, ha_BeforeId = None, ha_Limit = Some 2\<rparr> historyStore 4 =
     Some (map (toHistoryEvent None) (newestFirst (historySelected historyAround (historyQuery\<lparr>hq_Limit := 2\<rparr>) historyStore)))"
proof -
  let ?p = "\<lparr>ha_Filter = historyParams, ha_BeforeId = None, ha_Limit = Some 2\<rparr>" and ?rows = "historySelected historyAround (historyQuery\<lparr>hq_Limit := 2\<rparr>) historyStore"
  have q: "NewAddressHistoryQuery 0 ?p = Inr (historyQuery\<lparr>hq_Limit := 2\<rparr>)" by code_simp
  have ids: "map hr_ID (newestFirst ?rows) = [3, 2, 1]" by code_simp
  then have "length (map hr_ID (newestFirst ?rows)) = 3" by (simp del: length_map)
  then have "length ?rows < 4" by (simp add: newestFirst_def)
  then show ?thesis using history_paging_complete[OF q, of historyAround historyStore 4 None int] ids
    by (simp add: historyParams_def historyAround_def)
qed

end
