(* ===== verification/Address_Tuning.thy ===== *)
theory Address_Tuning
  imports Address_History
begin

text \<open>
  The ranking of devices whose leases are too short (\<open>src/internal/device/address_history_tuning_view.go\<close>): over the enriched events of
  \<open>Address_History\<close>, the renewals of every device in a window, the 95th percentile of the gaps between them, and the devices whose
  percentile is above the lifetime of their leases.
\<close>

section \<open>The query\<close>

definition addressHistoryTuningLimit :: nat where
  "addressHistoryTuningLimit = 5"

definition tuningMinRenewals :: nat where
  "tuningMinRenewals = 10"

record AddressHistoryTuningQuery =
  tq_From :: time
  tq_To :: time
  tq_DeviceID :: "id option"

definition NewAddressHistoryTuningQuery :: "time \<Rightarrow> time option \<Rightarrow> time option \<Rightarrow> id option \<Rightarrow> AddressHistoryTuningQuery" where
  "NewAddressHistoryTuningQuery now from to device =
    \<lparr>tq_From = (case from of Some t \<Rightarrow> t | None \<Rightarrow> now - defaultHistoryRange), tq_To = (case to of Some t \<Rightarrow> t | None \<Rightarrow> now), tq_DeviceID = device\<rparr>"

record tuningCandidateRow =
  tc_DeviceID :: id
  tc_DeviceName :: string
  tc_TTLSeconds :: int
  tc_RenewalCount :: nat
  tc_LateRenewalCount :: nat
  tc_P95GapSeconds :: int

text \<open>The rows of a device's renewals that are measured, and the aggregates over them. In the window a row has both its gap and its lifetime;
  \<open>the\<close> reads them. The rank of a gap is its position in the order of the gaps.\<close>

definition tuningRenewals :: "surroundings \<Rightarrow> AddressHistoryTuningQuery \<Rightarrow> store \<Rightarrow> historyRow list" where
  "tuningRenewals w q s = filter (\<lambda>r. tq_From q \<le> hr_CreatedAt r \<and> hr_CreatedAt r \<le> tq_To q \<and> hr_TTLRisk r \<noteq> TTLRiskUnknown \<and>
     (case tq_DeviceID q of None \<Rightarrow> True | Some i \<Rightarrow> hr_DeviceID r = i)) (addressHistoryEnriched w s)"

definition maxOf :: "int list \<Rightarrow> int" where
  "maxOf ns = (case ns of [] \<Rightarrow> 0 | n # ns \<Rightarrow> fold max ns n)"

definition p95 :: "int list \<Rightarrow> int" where
  "p95 gaps = (let ordered = sort gaps; n = length gaps in
     case map (\<lambda>rn. ordered ! (rn - 1)) (filter (\<lambda>rn. rn * 100 \<ge> n * 95) [1..<n + 1]) of [] \<Rightarrow> 0 | g # gs \<Rightarrow> fold min gs g)"

definition addressHistoryTuningPerDevice :: "surroundings \<Rightarrow> AddressHistoryTuningQuery \<Rightarrow> store \<Rightarrow> tuningCandidateRow list" where
  "addressHistoryTuningPerDevice w q s = map (\<lambda>(i, rs). \<lparr>tc_DeviceID = i, tc_DeviceName = fold max (map hr_DeviceName rs) [],
     tc_TTLSeconds = maxOf (map (\<lambda>r. the (hr_TTLSeconds r)) rs), tc_RenewalCount = length rs,
     tc_LateRenewalCount = length (filter (\<lambda>r. hr_TTLRisk r = TTLRiskBreached) rs),
     tc_P95GapSeconds = p95 (map (\<lambda>r. the (hr_RenewalGapSeconds r)) rs)\<rparr>) (groupBy hr_DeviceID (tuningRenewals w q s))"

record AddressHistoryTuningResponse =
  tr_Devices :: "tuningCandidateRow list"
  tr_Total :: nat
  tr_MinRenewals :: nat

text \<open>The ranking: by the quotient of gap and lifetime, then by the late renewals, then by the id. The quotient of a lifetime of 0 is \<open>NULL\<close>, which
  comes last.\<close>

definition urgency :: "tuningCandidateRow \<Rightarrow> (nat \<times> rat) \<times> int \<times> id" where
  "urgency x = (if tc_TTLSeconds x = 0 then (1, 0) else (0, - (of_int (tc_P95GapSeconds x) / of_int (tc_TTLSeconds x))),
     - int (tc_LateRenewalCount x), tc_DeviceID x)"

definition GetAddressHistoryTuning :: "surroundings \<Rightarrow> AddressHistoryTuningQuery \<Rightarrow> store \<Rightarrow> AddressHistoryTuningResponse" where
  "GetAddressHistoryTuning w q s =
    (let candidates = addressHistoryTuningPerDevice w q s;
         qualified = (if tq_DeviceID q = None
           then filter (\<lambda>x. tc_P95GapSeconds x > tc_TTLSeconds x \<and> tc_RenewalCount x \<ge> tuningMinRenewals) candidates else candidates);
         rows = (if tq_DeviceID q = None then take addressHistoryTuningLimit (sort_key urgency qualified) else qualified)
     in \<lparr>tr_Devices = rows, tr_Total = (if rows = [] then 0 else length qualified), tr_MinRenewals = tuningMinRenewals\<rparr>)"

definition HandleGetAddressHistoryTuning :: "surroundings \<Rightarrow> time \<Rightarrow> time option \<Rightarrow> time option \<Rightarrow> id option \<Rightarrow> store \<Rightarrow> AddressHistoryTuningResponse" where
  "HandleGetAddressHistoryTuning w now start end device s = GetAddressHistoryTuning w (NewAddressHistoryTuningQuery now start end device) s"

section \<open>The percentile\<close>

lemma sorted_above:
  "sorted xs \<Longrightarrow> i < length xs \<Longrightarrow> t < xs ! i \<longleftrightarrow> length (filter (\<lambda>x. x \<le> t) xs) \<le> i" for t :: int
proof (induction xs arbitrary: i)
  case (Cons x xs)
  show ?case
  proof (cases "x \<le> t")
    case True
    then show ?thesis using Cons by (cases i) auto
  next
    case False
    then have above: "\<forall>y \<in> set (x # xs). t < y" using Cons.prems(1) by fastforce
    then have "filter (\<lambda>x. x \<le> t) (x # xs) = []" by (auto simp: filter_empty_conv)
    then show ?thesis using above Cons.prems(2) nth_mem by (metis le0 list.size(3))
  qed
qed simp

lemma fold_min_less: "t < fold min xs x \<longleftrightarrow> t < x \<and> (\<forall>y \<in> set xs. t < (y::int))"
  by (induction xs arbitrary: x) auto

text \<open>The 95th percentile lies above a bound exactly if more than one value in twenty does.\<close>

lemma p95_above:
  assumes "gaps \<noteq> []"
  shows "t < p95 gaps \<longleftrightarrow> length gaps < 20 * length (filter (\<lambda>g. t < g) gaps)"
proof -
  let ?n = "length gaps" and ?o = "sort gaps"
  let ?c = "length (filter (\<lambda>g. g \<le> t) gaps)"
  let ?ranks = "filter (\<lambda>rn. rn * 100 \<ge> ?n * 95) [1..<?n + 1]"
  have "?n \<in> set ?ranks" using assms by (auto simp: Suc_leI)
  then obtain r rs where ranks: "?ranks = r # rs" by (cases ?ranks) auto
  have "t < p95 gaps \<longleftrightarrow> (\<forall>rn \<in> set ?ranks. t < ?o ! (rn - 1))"
    unfolding p95_def Let_def ranks by (simp add: fold_min_less)
  also have "\<dots> \<longleftrightarrow> (\<forall>rn \<in> set ?ranks. ?c < rn)"
  proof (rule ball_cong[OF refl])
    fix rn assume "rn \<in> set ?ranks"
    then have "rn - 1 < length ?o" "1 \<le> rn" by auto
    then show "t < ?o ! (rn - 1) \<longleftrightarrow> ?c < rn" using sorted_above[of ?o "rn - 1" t] by (auto simp: filter_sort)
  qed
  also have "\<dots> \<longleftrightarrow> ?c * 100 < ?n * 95"
  proof
    assume all: "\<forall>rn \<in> set ?ranks. ?c < rn"
    have le: "?c \<le> ?n" by simp
    show "?c * 100 < ?n * 95"
    proof (rule ccontr)
      assume "\<not> ?c * 100 < ?n * 95"
      moreover have "0 < ?n" using assms by simp
      ultimately have "1 \<le> ?c" "?c < ?n + 1" "?n * 95 \<le> ?c * 100" using le by linarith+
      then have "?c \<in> set ?ranks" unfolding set_filter mem_Collect_eq set_upt atLeastLessThan_iff by blast
      then show False using all by blast
    qed
  qed auto
  also have "\<dots> \<longleftrightarrow> ?n < 20 * length (filter (\<lambda>g. t < g) gaps)"
    using sum_length_filter_compl[of "\<lambda>g. g \<le> t" gaps] by (simp add: not_le) linarith
  finally show ?thesis .
qed

section \<open>The ranking\<close>

lemma enriched_fields:
  assumes "r \<in> set (addressHistoryEnriched w s)"
  shows "hr_TTLSeconds r = leaseTTL (sr_codec w) s (hr_DeviceID r)" "hr_TTLRisk r = ttlRiskCase (hr_TTLSeconds r) (hr_RenewalGapSeconds r)"
proof -
  obtain evs x where "r \<in> set (enrich w s evs x)" using assms by (auto simp: addressHistoryEnriched_def Let_def)
  then show "hr_TTLSeconds r = leaseTTL (sr_codec w) s (hr_DeviceID r)" "hr_TTLRisk r = ttlRiskCase (hr_TTLSeconds r) (hr_RenewalGapSeconds r)"
    by (auto simp: enrich_def Let_def split: option.splits if_splits)
qed

lemma measured: "ttlRiskCase ttl gap \<noteq> TTLRiskUnknown \<longleftrightarrow> ttl \<noteq> None \<and> gap \<noteq> None"
  by (auto simp: ttlRiskCase_def split: option.splits)

lemma maxOf_const: "xs \<noteq> [] \<Longrightarrow> (\<forall>x \<in> set xs. x = t) \<Longrightarrow> maxOf xs = t"
proof (cases xs)
  case (Cons x ys)
  have "fold max ys t = t" if "\<forall>y \<in> set ys. y = t" for ys using that by (induction ys) auto
  moreover assume "\<forall>x \<in> set xs. x = t"
  ultimately show ?thesis using Cons by (simp add: maxOf_def)
qed simp

text \<open>The measured renewals of a device in the window, and how many of them came after the end of the lease.\<close>

definition renewalsOf :: "surroundings \<Rightarrow> AddressHistoryTuningQuery \<Rightarrow> store \<Rightarrow> id \<Rightarrow> historyRow list" where
  "renewalsOf w q s i = filter (\<lambda>r. hr_DeviceID r = i) (tuningRenewals w q s)"

definition overdue :: "int \<Rightarrow> historyRow list \<Rightarrow> nat" where
  "overdue t rs = length (filter (\<lambda>r. t < the (hr_RenewalGapSeconds r)) rs)"

definition candidateOf :: "surroundings \<Rightarrow> AddressHistoryTuningQuery \<Rightarrow> store \<Rightarrow> id \<Rightarrow> tuningCandidateRow" where
  "candidateOf w q s i = (let rs = renewalsOf w q s i in \<lparr>tc_DeviceID = i, tc_DeviceName = fold max (map hr_DeviceName rs) [],
     tc_TTLSeconds = maxOf (map (\<lambda>r. the (hr_TTLSeconds r)) rs), tc_RenewalCount = length rs,
     tc_LateRenewalCount = length (filter (\<lambda>r. hr_TTLRisk r = TTLRiskBreached) rs),
     tc_P95GapSeconds = p95 (map (\<lambda>r. the (hr_RenewalGapSeconds r)) rs)\<rparr>)"

lemma perDevice_eq: "addressHistoryTuningPerDevice w q s = map (candidateOf w q s) (sort (remdups (map hr_DeviceID (tuningRenewals w q s))))"
  by (simp add: addressHistoryTuningPerDevice_def groupBy_def candidateOf_def renewalsOf_def Let_def comp_def)

lemma candidate_qualifies:
  assumes "renewalsOf w q s i \<noteq> []" and "leaseTTL (sr_codec w) s i = Some t"
  shows "tc_TTLSeconds (candidateOf w q s i) = t"
    and "tc_P95GapSeconds (candidateOf w q s i) > t \<longleftrightarrow> length (renewalsOf w q s i) < 20 * overdue t (renewalsOf w q s i)"
proof -
  let ?rs = "renewalsOf w q s i"
  have "the (hr_TTLSeconds r) = t" if "r \<in> set ?rs" for r
    using that assms(2) enriched_fields(1)[of r w s] by (auto simp: renewalsOf_def tuningRenewals_def)
  then show "tc_TTLSeconds (candidateOf w q s i) = t"
    using assms(1) by (auto simp: candidateOf_def Let_def intro!: maxOf_const)
  show "tc_P95GapSeconds (candidateOf w q s i) > t \<longleftrightarrow> length ?rs < 20 * overdue t ?rs"
    using p95_above[of "map (\<lambda>r. the (hr_RenewalGapSeconds r)) ?rs" t] assms(1)
    by (simp add: candidateOf_def Let_def overdue_def filter_map comp_def)
qed

text \<open>The devices whose lease is too short: at least ten measured renewals in the window, and more than one in twenty of them after more than the
  lifetime.\<close>

definition shortLeases :: "surroundings \<Rightarrow> AddressHistoryTuningQuery \<Rightarrow> store \<Rightarrow> id set" where
  "shortLeases w q s = {i. \<exists>t. leaseTTL (sr_codec w) s i = Some t \<and> 10 \<le> length (renewalsOf w q s i) \<and>
     length (renewalsOf w q s i) < 20 * overdue t (renewalsOf w q s i)}"

lemma renewalsOf_ttl: "renewalsOf w q s i \<noteq> [] \<Longrightarrow> leaseTTL (sr_codec w) s i \<noteq> None"
proof -
  assume "renewalsOf w q s i \<noteq> []"
  then obtain r where "r \<in> set (renewalsOf w q s i)" by (meson hd_in_set)
  then have "r \<in> set (addressHistoryEnriched w s)" "hr_DeviceID r = i" "hr_TTLRisk r \<noteq> TTLRiskUnknown"
    by (auto simp: renewalsOf_def tuningRenewals_def)
  then show ?thesis using enriched_fields[of r w s] measured by simp
qed

lemma shortLeases_renewals: "i \<in> shortLeases w q s \<Longrightarrow> renewalsOf w q s i \<noteq> []"
  by (auto simp: shortLeases_def)

lemma shortLeases_finite: "finite (shortLeases w q s)"
proof (rule finite_subset)
  show "shortLeases w q s \<subseteq> hr_DeviceID ` set (tuningRenewals w q s)"
    using shortLeases_renewals[of _ w q s] by (fastforce simp: renewalsOf_def filter_empty_conv)
qed simp

lemma qualified_devices:
  "filter (\<lambda>x. tc_P95GapSeconds x > tc_TTLSeconds x \<and> tc_RenewalCount x \<ge> tuningMinRenewals) (addressHistoryTuningPerDevice w q s) =
    map (candidateOf w q s) (sorted_list_of_set (shortLeases w q s))"
proof -
  let ?ids = "sort (remdups (map hr_DeviceID (tuningRenewals w q s)))"
  let ?Q = "\<lambda>i. tc_P95GapSeconds (candidateOf w q s i) > tc_TTLSeconds (candidateOf w q s i) \<and> tc_RenewalCount (candidateOf w q s i) \<ge> tuningMinRenewals"
  have mem: "i \<in> set ?ids \<longleftrightarrow> renewalsOf w q s i \<noteq> []" for i by (auto simp: renewalsOf_def filter_empty_conv)
  have Q: "?Q i \<longleftrightarrow> i \<in> shortLeases w q s" if ne: "renewalsOf w q s i \<noteq> []" for i
  proof -
    obtain t where t: "leaseTTL (sr_codec w) s i = Some t" using renewalsOf_ttl[OF ne] by blast
    then show ?thesis using candidate_qualifies[OF ne t] t
      by (auto simp: shortLeases_def tuningMinRenewals_def candidateOf_def Let_def)
  qed
  have "filter ?Q ?ids = sorted_list_of_set (shortLeases w q s)"
  proof (rule sorted_distinct_set_unique)
    have "i \<in> set (filter ?Q ?ids) \<longleftrightarrow> i \<in> shortLeases w q s" for i
      unfolding set_filter mem_Collect_eq mem using Q[of i] shortLeases_renewals[of i w q s] by blast
    then show "set (filter ?Q ?ids) = set (sorted_list_of_set (shortLeases w q s))"
      unfolding set_sorted_list_of_set[OF shortLeases_finite] by (intro set_eqI)
  qed (simp_all add: sorted_wrt_filter)
  then show ?thesis by (simp add: perDevice_eq filter_map comp_def)
qed

text \<open>The late renewals, as the endpoint counts them, and the devices that have too many of them. The comment of the query takes its test on
  the percentile for this one; the two differ only at a gap of exactly the lifetime, which is late without being above it.\<close>

definition lateRenewals :: "historyRow list \<Rightarrow> nat" where
  "lateRenewals rs = length (filter (\<lambda>r. hr_TTLRisk r = TTLRiskBreached) rs)"

definition lateLeases :: "surroundings \<Rightarrow> AddressHistoryTuningQuery \<Rightarrow> store \<Rightarrow> id set" where
  "lateLeases w q s = {i. 10 \<le> length (renewalsOf w q s i) \<and> length (renewalsOf w q s i) < 20 * lateRenewals (renewalsOf w q s i)}"

definition gapOffTTL :: "historyRow \<Rightarrow> bool" where
  "gapOffTTL r \<longleftrightarrow> 0 < the (hr_TTLSeconds r) \<and> the (hr_RenewalGapSeconds r) \<noteq> the (hr_TTLSeconds r)"

lemma late_overdue:
  assumes "r \<in> set (renewalsOf w q s i)" "gapOffTTL r" "leaseTTL (sr_codec w) s i = Some t"
  shows "hr_TTLRisk r = TTLRiskBreached \<longleftrightarrow> t < the (hr_RenewalGapSeconds r)"
proof -
  have r: "r \<in> set (addressHistoryEnriched w s)" "hr_DeviceID r = i" "hr_TTLRisk r \<noteq> TTLRiskUnknown"
    using assms(1) by (auto simp: renewalsOf_def tuningRenewals_def)
  note f = enriched_fields[OF r(1)]
  then obtain g where g: "hr_TTLSeconds r = Some t" "hr_RenewalGapSeconds r = Some g" using r(2,3) assms(3) measured by fastforce
  then have "0 < t" "g \<noteq> t" using assms(2) by (simp_all add: gapOffTTL_def)
  then show ?thesis using f(2) g by (auto simp: ttlRiskCase_def ttlRiskBreachedRatio_def)
qed

lemma short_late:
  assumes "\<forall>r \<in> set (tuningRenewals w q s). gapOffTTL r"
  shows "shortLeases w q s = lateLeases w q s"
proof -
  have "i \<in> shortLeases w q s \<longleftrightarrow> i \<in> lateLeases w q s" for i
  proof (cases "leaseTTL (sr_codec w) s i")
    case None
    then have "renewalsOf w q s i = []" using renewalsOf_ttl by blast
    then show ?thesis using None by (simp add: shortLeases_def lateLeases_def)
  next
    case (Some t)
    have "gapOffTTL r" if "r \<in> set (renewalsOf w q s i)" for r using that assms by (auto simp: renewalsOf_def)
    then have "filter (\<lambda>r. hr_TTLRisk r = TTLRiskBreached) (renewalsOf w q s i) = filter (\<lambda>r. t < the (hr_RenewalGapSeconds r)) (renewalsOf w q s i)"
      using late_overdue[OF _ _ Some] by (intro filter_cong) auto
    then show ?thesis using Some by (simp add: shortLeases_def lateLeases_def lateRenewals_def overdue_def)
  qed
  then show ?thesis by blast
qed

lemma ranking:
  "HandleGetAddressHistoryTuning w now start end None s = (let q = NewAddressHistoryTuningQuery now start end None in
     \<lparr>tr_Devices = take 5 (sort_key urgency (map (candidateOf w q s) (sorted_list_of_set (shortLeases w q s)))),
      tr_Total = card (shortLeases w q s), tr_MinRenewals = 10\<rparr>)"
proof -
  define q where "q = NewAddressHistoryTuningQuery now start end None"
  let ?xs = "map (candidateOf w q s) (sorted_list_of_set (shortLeases w q s))"
  have n: "length ?xs = card (shortLeases w q s)" using shortLeases_finite by simp
  have "GetAddressHistoryTuning w q s = (let rows = take addressHistoryTuningLimit (sort_key urgency ?xs)
      in \<lparr>tr_Devices = rows, tr_Total = (if rows = [] then 0 else length ?xs), tr_MinRenewals = tuningMinRenewals\<rparr>)"
    unfolding GetAddressHistoryTuning_def Let_def qualified_devices q_def NewAddressHistoryTuningQuery_def by simp
  moreover have "(if take addressHistoryTuningLimit (sort_key urgency ?xs) = [] then 0 else length ?xs) = length ?xs"
    by (auto simp: addressHistoryTuningLimit_def simp flip: length_0_conv)
  ultimately show ?thesis unfolding HandleGetAddressHistoryTuning_def Let_def n q_def[symmetric] by (simp add: addressHistoryTuningLimit_def tuningMinRenewals_def)
qed

lemma one_device:
  "HandleGetAddressHistoryTuning w now start end (Some i) s = (let q = NewAddressHistoryTuningQuery now start end (Some i) in
     \<lparr>tr_Devices = (if renewalsOf w q s i = [] then [] else [candidateOf w q s i]),
      tr_Total = (if renewalsOf w q s i = [] then 0 else 1), tr_MinRenewals = 10\<rparr>)"
proof -
  define q where "q = NewAddressHistoryTuningQuery now start end (Some i)"
  have dev: "hr_DeviceID r = i" if "r \<in> set (tuningRenewals w q s)" for r
    using that by (simp add: tuningRenewals_def q_def NewAddressHistoryTuningQuery_def)
  then have all: "renewalsOf w q s i = tuningRenewals w q s" by (simp add: renewalsOf_def)
  have "sort (remdups (map hr_DeviceID (tuningRenewals w q s))) = (if tuningRenewals w q s = [] then [] else [i])"
  proof (cases "tuningRenewals w q s")
    case (Cons r rs)
    have "set (map hr_DeviceID (tuningRenewals w q s)) = {i}" using dev Cons by auto
    then have "set (remdups (map hr_DeviceID (tuningRenewals w q s))) = {i}" by simp
    then have "remdups (map hr_DeviceID (tuningRenewals w q s)) = [i]"
      by (metis distinct_remdups distinct_card card.empty card_insert_disjoint empty_iff finite.emptyI length_Suc_conv length_0_conv list.set(1) list.set_intros(1) One_nat_def singletonD)
    then show ?thesis using Cons by simp
  qed simp
  then show ?thesis unfolding HandleGetAddressHistoryTuning_def q_def[symmetric]
    by (simp add: GetAddressHistoryTuning_def perDevice_eq all tuningMinRenewals_def Let_def) (simp add: q_def NewAddressHistoryTuningQuery_def)
qed

text \<open>C36 (equivalence). The tuning endpoint without a device ranks exactly the devices whose lease is too short. The test on the 95th percentile,
  which the query computes from ranks, holds for a device if and only if more than five percent of its measured renewals in the window were
  late, provided every lifetime is positive and no gap equals the lifetime to the second. The total is the number of all such devices with at
  least ten measured renewals, and the list has the first five of them by the quotient of percentile and lifetime, then the late renewals,
  then the id. For one device the endpoint gives the readout of that device, threshold or not.\<close>

theorem tuning_finds_short_leases:
  assumes "\<forall>r \<in> set (tuningRenewals w (NewAddressHistoryTuningQuery now start end None) s). gapOffTTL r"
  shows "(let q = NewAddressHistoryTuningQuery now start end None in
     HandleGetAddressHistoryTuning w now start end None s = \<lparr>tr_Devices = take 5 (sort_key urgency (map (candidateOf w q s) (sorted_list_of_set (lateLeases w q s)))),
       tr_Total = card (lateLeases w q s), tr_MinRenewals = 10\<rparr>) \<and>
   (let q = NewAddressHistoryTuningQuery now start end (Some i) in
     HandleGetAddressHistoryTuning w now start end (Some i) s = \<lparr>tr_Devices = (if renewalsOf w q s i = [] then [] else [candidateOf w q s i]),
       tr_Total = (if renewalsOf w q s i = [] then 0 else 1), tr_MinRenewals = 10\<rparr>)"
  using ranking[of w now start "end" s] one_device[of w now start "end" i s] short_late[OF assms] by (simp add: Let_def)

text \<open>Ten renewals, each 70 seconds after the one before, of a lease of a minute.\<close>

definition tuningStore :: store where
  "tuningStore = historyStore\<lparr>st_addressEvents := map (\<lambda>n. \<lparr>ae_AddressID = 1, ae_IsEnabled = True, ae_Source = EventSourceHeartbeat,
     ae_Trigger = EventTriggerSchedule, ae_CreatedAt = int n * 70000000000\<rparr>) [0..<11]\<rparr>"

definition tuningAround :: surroundings where
  "tuningAround = historyAround\<lparr>sr_ids := [1..11]\<rparr>"

lemma tuningStore_renewals:
  "map (\<lambda>r. (hr_DeviceID r, hr_TTLSeconds r, hr_RenewalGapSeconds r, hr_TTLRisk r))
     (tuningRenewals tuningAround (NewAddressHistoryTuningQuery 0 (Some 0) (Some 700000000000) None) tuningStore) =
   replicate 10 (1, Some 60, Some 70, TTLRiskBreached)"
  by code_simp

theorem tuning_finds_short_leases_witness:
  "map tc_DeviceID (tr_Devices (HandleGetAddressHistoryTuning tuningAround 0 (Some 0) (Some 700000000000) None tuningStore)) = [1] \<and>
   tr_Total (HandleGetAddressHistoryTuning tuningAround 0 (Some 0) (Some 700000000000) None tuningStore) = 1"
proof -
  define q where "q = NewAddressHistoryTuningQuery 0 (Some 0) (Some 700000000000) None"
  let ?rs = "tuningRenewals tuningAround q tuningStore"
  note rs = tuningStore_renewals[folded q_def]
  have row: "hr_DeviceID r = 1 \<and> hr_TTLSeconds r = Some 60 \<and> hr_RenewalGapSeconds r = Some 70 \<and> hr_TTLRisk r = TTLRiskBreached" if "r \<in> set ?rs" for r
  proof -
    have "(hr_DeviceID r, hr_TTLSeconds r, hr_RenewalGapSeconds r, hr_TTLRisk r) \<in> set (replicate 10 (1, Some 60, Some 70, TTLRiskBreached))"
      unfolding rs[symmetric] using that by force
    then show ?thesis by auto
  qed
  have ten: "length ?rs = 10" using arg_cong[OF rs, of length] by simp
  have "renewalsOf tuningAround q tuningStore i = (if i = 1 then ?rs else [])" for i
    using row by (auto simp: renewalsOf_def filter_empty_conv)
  moreover have "filter (\<lambda>r. hr_TTLRisk r = TTLRiskBreached) ?rs = ?rs" using row by (simp add: filter_id_conv)
  ultimately have late: "lateLeases tuningAround q tuningStore = {1}" using ten by (auto simp: lateLeases_def lateRenewals_def split: if_splits)
  have "\<forall>r \<in> set ?rs. gapOffTTL r" using row by (simp add: gapOffTTL_def)
  from tuning_finds_short_leases[of tuningAround 0 "Some 0" "Some 700000000000" tuningStore, folded q_def, OF this]
  show ?thesis unfolding late Let_def by (simp add: candidateOf_def Let_def)
qed

end
