(* ===== verification/Fleet.thy ===== *)
theory Fleet
  imports Pairing Rules Useraccess Grouping "HOL-Library.Product_Lexorder" "HOL-Library.Option_ord"
begin

text \<open>
  The device fleet of the dashboard (\<open>src/internal/\<close> \<open>queries/fleet_view.go\<close>, \<open>queries/handler_fleet.go\<close>, and the readers it is composed of:
  \<open>useraccess/subject_view.go\<close>, \<open>device/fleet_view.go\<close>, \<open>rule/device_rules_view.go\<close>; the reader of pairings is in \<open>Pairing\<close>). The composer knows its readers by an
  interface only; the locale \<open>fleet_readers\<close> states what it relies on, and the store's readers are shown to have it.

  The joins are lists of rows in the order of the tables. \<open>GROUP BY\<close> gives its groups in the order of the key, and \<open>ORDER BY\<close> keeps that order
  among equals.
\<close>

section \<open>Subjects\<close>

record GroupSummary =
  gs_Id :: id
  gs_Name :: string
  gs_Color :: string
  gs_Icon :: string

record SubjectRow =
  sj_ID :: id
  sj_DisplayName :: string
  sj_Role :: Role
  sj_BypassHostCheck :: bool
  sj_HostGroups :: "GroupSummary list"

definition leftJoin :: "'a list \<Rightarrow> 'a option list" where
  "leftJoin xs = (if xs = [] then [None] else map Some xs)"

definition groupSummary :: "HostGroupRow \<Rightarrow> GroupSummary" where
  "groupSummary g = \<lparr>gs_Id = g_ID g, gs_Name = g_Name g, gs_Color = g_Color g, gs_Icon = g_Icon g\<rparr>"

type_synonym subjectJoinRow = "User \<times> bool \<times> HostGroupRow option"

definition subjectJoin :: "id option \<Rightarrow> store \<Rightarrow> subjectJoinRow list" where
  "subjectJoin userID s = concat (map (\<lambda>u. concat (map (\<lambda>uhs. concat (map (\<lambda>uahg.
       map (\<lambda>hg. (u, (case uhs of None \<Rightarrow> False | Some r \<Rightarrow> us_BypassHostCheck r), hg))
         (leftJoin (filter (\<lambda>g. Some (g_ID g) = map_option snd uahg) (st_hostGroups s))))
       (leftJoin (filter (\<lambda>m. fst m = u_ID u) (st_userGroups s)))))
       (leftJoin (filter (\<lambda>r. us_UserID r = u_ID u) (st_userSettings s)))))
     (filter (\<lambda>u. u_DeletedAt u = None \<and> (userID = None \<or> userID = Some (u_ID u))) (st_users s)))"

definition subjectOrder :: "subjectJoinRow \<Rightarrow> string \<times> id \<times> string option" where
  "subjectOrder r = (case r of (u, _, g) \<Rightarrow> (u_DisplayName u, u_ID u, map_option g_Name g))"

definition newSubject :: "subjectJoinRow \<Rightarrow> SubjectRow" where
  "newSubject r = (case r of (u, bypass, _) \<Rightarrow>
     \<lparr>sj_ID = u_ID u, sj_DisplayName = u_DisplayName u, sj_Role = u_Role u, sj_BypassHostCheck = bypass, sj_HostGroups = []\<rparr>)"

definition SubjectRows :: "id option \<Rightarrow> SubjectRow list op" where
  "SubjectRows userID = get (\<lambda>s. Collapse (sort_key subjectOrder (subjectJoin userID s)) (\<lambda>r. u_ID (fst r)) newSubject
     (\<lambda>r. map_option groupSummary (snd (snd r))) (\<lambda>x g. x\<lparr>sj_HostGroups := sj_HostGroups x @ [g]\<rparr>))"

section \<open>Devices\<close>

datatype DeviceState = DeviceStateDisabled | DeviceStateHealthy | DeviceStateStale

datatype RuleSummaryType = AutoExpiry | MaxActive

record DeviceRuleSummary =
  rs_Type :: RuleSummaryType
  rs_Enabled :: bool
  rs_TtlSeconds :: "int option"
  rs_Limit :: "int option"

record DevicePairingSummary =
  ps_Status :: PairingStatus
  ps_ExpiresAt :: time

record FleetDevice =
  fd_Id :: id
  fd_Name :: string
  fd_Icon :: "string option"
  fd_Description :: "string option"
  fd_ApiKeyPrefix :: "string option"
  fd_CreatedAt :: time
  fd_LiveAddressCount :: nat
  fd_State :: DeviceState
  fd_LastSeenAt :: "time option"
  fd_Rules :: "DeviceRuleSummary list"
  fd_Pairing :: "DevicePairingSummary option"

record FleetRow =
  fr_OwnerID :: id
  fr_Device :: FleetDevice

definition deviceListState :: "nat \<Rightarrow> bool \<Rightarrow> DeviceState" where
  "deviceListState liveAddressCount disabled =
    (if disabled then DeviceStateDisabled else if liveAddressCount > 0 then DeviceStateHealthy else DeviceStateStale)"

type_synonym fleetJoinRow = "DeviceRow \<times> string option \<times> Address option"

definition fleetJoin :: "id option \<Rightarrow> store \<Rightarrow> fleetJoinRow list" where
  "fleetJoin ownerID s = concat (map (\<lambda>d. concat (map (\<lambda>dk. map (\<lambda>a. (d, map_option k_Prefix dk, a))
       (leftJoin (filter (\<lambda>a. a_DeviceID a = d_ID d) (st_addresses s))))
       (leftJoin (filter (\<lambda>k. k_DeviceID k = d_ID d) (st_apiKeys s)))))
     (filter (\<lambda>d. d_DeletedAt d = None \<and> (ownerID = None \<or> ownerID = Some (d_OwnerID d))) (st_devices s)))"

definition maxTime :: "time list \<Rightarrow> time option" where
  "maxTime ts = (case ts of [] \<Rightarrow> None | t # ts \<Rightarrow> Some (fold max ts t))"

definition fleetRow :: "fleetJoinRow list \<Rightarrow> FleetRow" where
  "fleetRow rs = (case hd rs of (d, keyPrefix, _) \<Rightarrow>
     let addresses = List.map_filter (\<lambda>r. snd (snd r)) rs; live = length (filter a_IsEnabled addresses)
     in \<lparr>fr_OwnerID = d_OwnerID d, fr_Device = \<lparr>fd_Id = d_ID d, fd_Name = d_Name d, fd_Icon = d_Icon d, fd_Description = d_Description d,
        fd_ApiKeyPrefix = keyPrefix, fd_CreatedAt = d_CreatedAt d, fd_LiveAddressCount = live,
        fd_State = deviceListState live (d_DisabledAt d \<noteq> None), fd_LastSeenAt = maxTime (map a_UpdatedAt addresses),
        fd_Rules = [], fd_Pairing = None\<rparr>\<rparr>)"

definition FleetRows :: "id option \<Rightarrow> FleetRow list op" where
  "FleetRows ownerID = get (\<lambda>s. sort_key (\<lambda>r. fd_Name (fr_Device r))
     (map (\<lambda>g. fleetRow (snd g)) (groupBy (\<lambda>r. (d_ID (fst r), fst (snd r))) (fleetJoin ownerID s))))"

section \<open>Rules of devices\<close>

fun ruleTypeText :: "RuleType \<Rightarrow> string" where
  "ruleTypeText RuleTypeDeviceAddressLease = ''device_lease''"
| "ruleTypeText RuleTypeMaxActiveAddresses = ''max_active_addresses''"

definition ruleSummaryFromRow :: "jsonCodec \<Rightarrow> Rule \<Rightarrow> DeviceRuleSummary option" where
  "ruleSummaryFromRow codec raw = (case r_RuleType raw of
     RuleTypeDeviceAddressLease \<Rightarrow> (case ToDeviceAddressLeaseRule codec raw of Inl _ \<Rightarrow> None
       | Inr lease \<Rightarrow> Some \<lparr>rs_Type = AutoExpiry, rs_Enabled = dl_Enabled lease, rs_TtlSeconds = Some (dl_TTLSeconds lease), rs_Limit = None\<rparr>)
   | RuleTypeMaxActiveAddresses \<Rightarrow> (case ToMaxActiveAddressesRule codec raw of Inl _ \<Rightarrow> None
       | Inr maxRule \<Rightarrow> Some \<lparr>rs_Type = MaxActive, rs_Enabled = ma_Enabled maxRule, rs_TtlSeconds = None, rs_Limit = Some (ma_MaxAddresses maxRule)\<rparr>))"

definition addSummary :: "jsonCodec \<Rightarrow> (id \<rightharpoonup> DeviceRuleSummary list) \<Rightarrow> Rule \<Rightarrow> (id \<rightharpoonup> DeviceRuleSummary list)" where
  "addSummary codec byDevice rw = (case ruleSummaryFromRow codec rw of None \<Rightarrow> byDevice
     | Some summary \<Rightarrow> byDevice(r_DeviceID rw \<mapsto> (case byDevice (r_DeviceID rw) of None \<Rightarrow> [] | Some xs \<Rightarrow> xs) @ [summary]))"

definition RulesForDevices :: "jsonCodec \<Rightarrow> id list \<Rightarrow> (id \<rightharpoonup> DeviceRuleSummary list) op" where
  "RulesForDevices codec deviceIDs = get (\<lambda>s. if deviceIDs = [] then Map.empty
     else foldl (addSummary codec) Map.empty (sort_key (\<lambda>r. (r_DeviceID r, ruleTypeText (r_RuleType r)))
       (filter (\<lambda>r. r_DeviceID r \<in> set deviceIDs) (st_rules s))))"

text \<open>The rows of the pairings as the map the reader returns.\<close>

definition addPairing :: "(id \<rightharpoonup> DevicePairingSummary) \<Rightarrow> id \<times> PairingStatus \<times> time \<Rightarrow> (id \<rightharpoonup> DevicePairingSummary)" where
  "addPairing byDevice rw = byDevice(fst rw \<mapsto> \<lparr>ps_Status = fst (snd rw), ps_ExpiresAt = snd (snd rw)\<rparr>)"

definition pairingMap :: "(id \<times> PairingStatus \<times> time) list \<Rightarrow> id \<rightharpoonup> DevicePairingSummary" where
  "pairingMap rows = foldl addPairing Map.empty rows"

section \<open>The composer\<close>

record FleetComposer =
  fc_subjects :: "id option \<Rightarrow> SubjectRow list op"
  fc_devices :: "id option \<Rightarrow> FleetRow list op"
  fc_rules :: "id list \<Rightarrow> (id \<rightharpoonup> DeviceRuleSummary list) op"
  fc_pairings :: "id list \<Rightarrow> (id \<rightharpoonup> DevicePairingSummary) op"

record OwnerSummary =
  os_Id :: id
  os_DisplayName :: string
  os_Role :: Role
  os_BypassHostCheck :: bool
  os_HostGroups :: "GroupSummary list"
  os_DeviceCount :: nat
  os_LiveAddressCount :: nat

record OwnerFleetGroup =
  og_Owner :: OwnerSummary
  og_Devices :: "FleetDevice list"

definition newGroup :: "SubjectRow \<Rightarrow> OwnerFleetGroup" where
  "newGroup subject = \<lparr>og_Owner = \<lparr>os_Id = sj_ID subject, os_DisplayName = sj_DisplayName subject, os_Role = sj_Role subject,
     os_BypassHostCheck = sj_BypassHostCheck subject, os_HostGroups = sj_HostGroups subject, os_DeviceCount = 0, os_LiveAddressCount = 0\<rparr>,
     og_Devices = []\<rparr>"

definition indexByOwner :: "SubjectRow list \<Rightarrow> id \<rightharpoonup> nat" where
  "indexByOwner subjects = foldl (\<lambda>m (i, subject). m(sj_ID subject \<mapsto> i)) Map.empty (enumerate 0 subjects)"

definition withDetails :: "(id \<rightharpoonup> DeviceRuleSummary list) \<Rightarrow> (id \<rightharpoonup> DevicePairingSummary) \<Rightarrow> FleetDevice \<Rightarrow> FleetDevice" where
  "withDetails rules pairings d =
    (let d = (case rules (fd_Id d) of None \<Rightarrow> d | Some deviceRules \<Rightarrow> d\<lparr>fd_Rules := deviceRules\<rparr>)
     in case pairings (fd_Id d) of None \<Rightarrow> d | Some pairing \<Rightarrow> d\<lparr>fd_Pairing := Some pairing\<rparr>)"

definition addDevice :: "OwnerFleetGroup \<Rightarrow> FleetDevice \<Rightarrow> OwnerFleetGroup" where
  "addDevice g d = (let o' = og_Owner g in g\<lparr>og_Devices := og_Devices g @ [d],
     og_Owner := o'\<lparr>os_DeviceCount := os_DeviceCount o' + 1, os_LiveAddressCount := os_LiveAddressCount o' + fd_LiveAddressCount d\<rparr>\<rparr>)"

definition stitchStep ::
  "(id \<rightharpoonup> nat) \<Rightarrow> (id \<rightharpoonup> DeviceRuleSummary list) \<Rightarrow> (id \<rightharpoonup> DevicePairingSummary) \<Rightarrow> OwnerFleetGroup list \<Rightarrow> FleetRow \<Rightarrow> OwnerFleetGroup list" where
  "stitchStep byOwner rules pairings groups row = (case byOwner (fr_OwnerID row) of None \<Rightarrow> groups
     | Some idx \<Rightarrow> groups[idx := addDevice (groups ! idx) (withDetails rules pairings (fr_Device row))])"

definition stitchFleet ::
  "SubjectRow list \<Rightarrow> FleetRow list \<Rightarrow> (id \<rightharpoonup> DeviceRuleSummary list) \<Rightarrow> (id \<rightharpoonup> DevicePairingSummary) \<Rightarrow> OwnerFleetGroup list" where
  "stitchFleet subjects devices rules pairings =
    foldl (stitchStep (indexByOwner subjects) rules pairings) (map newGroup subjects) devices"

definition Fleet :: "FleetComposer \<Rightarrow> id option \<Rightarrow> OwnerFleetGroup list op" where
  "Fleet c ownerID = andThen (fc_subjects c ownerID) (\<lambda>subjects. andThen (fc_devices c ownerID) (\<lambda>devices.
     let deviceIDs = map (\<lambda>row. fd_Id (fr_Device row)) devices in
     andThen (fc_rules c deviceIDs) (\<lambda>rules. andThen (fc_pairings c deviceIDs) (\<lambda>pairings.
     ret (stitchFleet subjects devices rules pairings)))))"

text \<open>The composer over the repositories, and the endpoint.\<close>

definition NewFleetComposer :: "jsonCodec \<Rightarrow> time \<Rightarrow> FleetComposer" where
  "NewFleetComposer codec now = \<lparr>fc_subjects = SubjectRows, fc_devices = FleetRows, fc_rules = RulesForDevices codec,
     fc_pairings = (\<lambda>deviceIDs. if deviceIDs = [] then ret Map.empty
       else andThen (PairingsForDevices now deviceIDs) (\<lambda>rows. ret (pairingMap rows)))\<rparr>"

datatype GetDeviceFleetResponse = GetDeviceFleet200 "OwnerFleetGroup list" | GetDeviceFleet500

definition GetDeviceFleet :: "FleetComposer \<Rightarrow> id option \<Rightarrow> store \<Rightarrow> GetDeviceFleetResponse" where
  "GetDeviceFleet c ownerID s = (case fst (Fleet c ownerID s) of Inl _ \<Rightarrow> GetDeviceFleet500 | Inr groups \<Rightarrow> GetDeviceFleet200 groups)"

section \<open>Stitching\<close>

lemma indexByOwner_posMap:
  "distinct (map sj_ID subjects) \<Longrightarrow> indexByOwner subjects = posMap (map sj_ID subjects)"
proof (induction subjects rule: rev_induct)
  case (snoc x xs)
  then show ?case by (simp add: indexByOwner_def enumerate_append_eq posMap_snoc)
qed (simp add: indexByOwner_def posMap_def fun_eq_iff)

definition ownedRows :: "FleetRow list \<Rightarrow> id \<Rightarrow> FleetRow list" where
  "ownedRows devices i = filter (\<lambda>row. fr_OwnerID row = i) devices"

definition ownerGroup :: "(id \<rightharpoonup> DeviceRuleSummary list) \<Rightarrow> (id \<rightharpoonup> DevicePairingSummary) \<Rightarrow> FleetRow list \<Rightarrow> SubjectRow \<Rightarrow> OwnerFleetGroup" where
  "ownerGroup rules pairings devices subject =
    foldl addDevice (newGroup subject) (map (\<lambda>row. withDetails rules pairings (fr_Device row)) (ownedRows devices (sj_ID subject)))"

lemma stitchFleet_eq:
  assumes "distinct (map sj_ID subjects)"
  shows "stitchFleet subjects devices rules pairings = map (ownerGroup rules pairings devices) subjects"
proof (induction devices rule: rev_induct)
  case Nil
  show ?case by (simp add: stitchFleet_def ownerGroup_def ownedRows_def)
next
  case (snoc row devices)
  let ?groups = "map (ownerGroup rules pairings devices) subjects"
  have step: "stitchFleet subjects (devices @ [row]) rules pairings = stitchStep (posMap (map sj_ID subjects)) rules pairings ?groups row"
    using snoc by (simp add: stitchFleet_def indexByOwner_posMap[OF assms])
  have other: "ownerGroup rules pairings (devices @ [row]) x = ownerGroup rules pairings devices x" if "fr_OwnerID row \<noteq> sj_ID x" for x
    using that by (simp add: ownerGroup_def ownedRows_def)
  have own: "ownerGroup rules pairings (devices @ [row]) x = addDevice (ownerGroup rules pairings devices x) (withDetails rules pairings (fr_Device row))"
    if "fr_OwnerID row = sj_ID x" for x
    using that by (simp add: ownerGroup_def ownedRows_def)
  show ?case
  proof (cases "posMap (map sj_ID subjects) (fr_OwnerID row)")
    case None
    then have "\<forall>x \<in> set subjects. fr_OwnerID row \<noteq> sj_ID x" by (auto simp: posMap_def split: if_splits)
    then show ?thesis unfolding step using None other by (simp add: stitchStep_def)
  next
    case (Some i)
    have i: "i < length subjects" "sj_ID (subjects ! i) = fr_OwnerID row" using posMap_Some[OF Some] by auto
    show ?thesis unfolding step
    proof (rule nth_equalityI)
      fix j assume "j < length (stitchStep (posMap (map sj_ID subjects)) rules pairings ?groups row)"
      then have j: "j < length subjects" by (simp add: stitchStep_def Some)
      show "stitchStep (posMap (map sj_ID subjects)) rules pairings ?groups row ! j = map (ownerGroup rules pairings (devices @ [row])) subjects ! j"
      proof (cases "j = i")
        case False
        then have "sj_ID (subjects ! j) \<noteq> fr_OwnerID row" using assms i j by (metis length_map nth_eq_iff_index_eq nth_map)
        then show ?thesis using False j other by (simp add: stitchStep_def Some)
      qed (use i own in \<open>simp add: stitchStep_def Some\<close>)
    qed (simp add: stitchStep_def Some)
  qed
qed

lemma foldl_addDevice:
  "og_Devices (foldl addDevice g ds) = og_Devices g @ ds"
  "os_Id (og_Owner (foldl addDevice g ds)) = os_Id (og_Owner g)"
  "os_DisplayName (og_Owner (foldl addDevice g ds)) = os_DisplayName (og_Owner g)"
  "os_HostGroups (og_Owner (foldl addDevice g ds)) = os_HostGroups (og_Owner g)"
  "os_DeviceCount (og_Owner (foldl addDevice g ds)) = os_DeviceCount (og_Owner g) + length ds"
  "os_LiveAddressCount (og_Owner (foldl addDevice g ds)) = os_LiveAddressCount (og_Owner g) + (\<Sum>d \<leftarrow> ds. fd_LiveAddressCount d)"
  by (induction ds arbitrary: g) (simp_all add: addDevice_def Let_def)

lemma withDetails_same [simp]:
  "fd_Id (withDetails rules pairings d) = fd_Id d" "fd_LiveAddressCount (withDetails rules pairings d) = fd_LiveAddressCount d"
  by (auto simp: withDetails_def Let_def split: option.splits)

lemma ownerGroup_fields:
  "og_Devices (ownerGroup rules pairings devices x) = map (\<lambda>row. withDetails rules pairings (fr_Device row)) (ownedRows devices (sj_ID x))"
  "os_Id (og_Owner (ownerGroup rules pairings devices x)) = sj_ID x"
  "os_DisplayName (og_Owner (ownerGroup rules pairings devices x)) = sj_DisplayName x"
  "os_HostGroups (og_Owner (ownerGroup rules pairings devices x)) = sj_HostGroups x"
  "os_DeviceCount (og_Owner (ownerGroup rules pairings devices x)) = length (ownedRows devices (sj_ID x))"
  "os_LiveAddressCount (og_Owner (ownerGroup rules pairings devices x)) = (\<Sum>row \<leftarrow> ownedRows devices (sj_ID x). fd_LiveAddressCount (fr_Device row))"
  unfolding ownerGroup_def foldl_addDevice by (simp_all add: newGroup_def comp_def)

section \<open>What the composer relies on\<close>

text \<open>In good stores a reader answers; asked for one owner it gives the part of the whole that belongs to the owner; asked for some devices
  it says of each of them the same as when asked for others; and no subject comes twice.\<close>

locale fleet_readers =
  fixes composer :: FleetComposer and good :: "store \<Rightarrow> bool"
    and subjects :: "store \<Rightarrow> SubjectRow list" and devices :: "store \<Rightarrow> FleetRow list"
    and rules :: "store \<Rightarrow> id \<rightharpoonup> DeviceRuleSummary list" and pairings :: "store \<Rightarrow> id \<rightharpoonup> DevicePairingSummary"
  assumes subjects_read: "good s \<Longrightarrow> fc_subjects composer i s = (Inr (filter (\<lambda>x. i = None \<or> i = Some (sj_ID x)) (subjects s)), s)"
    and devices_read: "good s \<Longrightarrow> fc_devices composer i s = (Inr (filter (\<lambda>x. i = None \<or> i = Some (fr_OwnerID x)) (devices s)), s)"
    and rules_read: "good s \<Longrightarrow> fc_rules composer ids s = (Inr (\<lambda>d. if d \<in> set ids then rules s d else None), s)"
    and pairings_read: "good s \<Longrightarrow> fc_pairings composer ids s = (Inr (\<lambda>d. if d \<in> set ids then pairings s d else None), s)"
    and subjects_once: "good s \<Longrightarrow> distinct (map sj_ID (subjects s))"
begin

lemma group_local:
  assumes "ownedRows rows (sj_ID x) = ownedRows rows' (sj_ID x)"
  shows "ownerGroup (\<lambda>d. if d \<in> set (map (\<lambda>row. fd_Id (fr_Device row)) rows) then rules s d else None)
      (\<lambda>d. if d \<in> set (map (\<lambda>row. fd_Id (fr_Device row)) rows) then pairings s d else None) rows x =
    ownerGroup (rules s) (pairings s) rows' x"
proof -
  let ?in = "\<lambda>f d. if d \<in> set (map (\<lambda>row. fd_Id (fr_Device row)) rows) then f d else None"
  have "withDetails (?in (rules s)) (?in (pairings s)) (fr_Device row) = withDetails (rules s) (pairings s) (fr_Device row)"
    if row: "row \<in> set (ownedRows rows (sj_ID x))" for row
  proof -
    have "fd_Id (fr_Device row) \<in> set (map (\<lambda>row. fd_Id (fr_Device row)) rows)" using row by (auto simp: ownedRows_def)
    then show ?thesis by (simp add: withDetails_def Let_def del: set_map split: option.split)
  qed
  then show ?thesis unfolding ownerGroup_def assms[symmetric] by (simp cong: map_cong del: set_map)
qed

lemma fleet_groups:
  assumes "good s"
  shows "Fleet composer i s = (Inr (map (ownerGroup (rules s) (pairings s) (devices s)) (filter (\<lambda>x. i = None \<or> i = Some (sj_ID x)) (subjects s))), s)"
proof -
  let ?subjects = "filter (\<lambda>x. i = None \<or> i = Some (sj_ID x)) (subjects s)"
  let ?rows = "filter (\<lambda>x. i = None \<or> i = Some (fr_OwnerID x)) (devices s)"
  have once: "distinct (map sj_ID ?subjects)" using subjects_once[OF assms] by (simp add: distinct_map_filter)
  have "ownedRows ?rows (sj_ID x) = ownedRows (devices s) (sj_ID x)" if "x \<in> set ?subjects" for x
    using that by (auto simp: ownedRows_def filter_filter intro!: filter_cong)
  then have "map (ownerGroup (\<lambda>d. if d \<in> set (map (\<lambda>row. fd_Id (fr_Device row)) ?rows) then rules s d else None)
      (\<lambda>d. if d \<in> set (map (\<lambda>row. fd_Id (fr_Device row)) ?rows) then pairings s d else None) ?rows) ?subjects =
    map (ownerGroup (rules s) (pairings s) (devices s)) ?subjects" by (intro map_cong refl group_local)
  then show ?thesis
    unfolding Fleet_def andThen_def subjects_read[OF assms] devices_read[OF assms] rules_read[OF assms] pairings_read[OF assms] Let_def
      prod.case sum.case stitchFleet_eq[OF once] ret_def by simp
qed

lemma fleet_of_owner:
  assumes "good s"
  shows "\<exists>groups. GetDeviceFleet composer None s = GetDeviceFleet200 groups \<and>
    GetDeviceFleet composer (Some i) s = GetDeviceFleet200 (filter (\<lambda>g. os_Id (og_Owner g) = i) groups)"
proof -
  let ?group = "ownerGroup (rules s) (pairings s) (devices s)"
  have "map ?group (filter (\<lambda>x. i = sj_ID x) (subjects s)) = filter (\<lambda>g. os_Id (og_Owner g) = i) (map ?group (subjects s))"
    by (simp add: filter_map comp_def ownerGroup_fields eq_commute)
  then show ?thesis by (simp add: GetDeviceFleet_def fleet_groups[OF assms])
qed

end

section \<open>The store's readers\<close>

lemma collapse_key:
  assumes "\<And>r. pid (np r) = key r" and "\<And>p c. pid (at p c) = pid p" and "k \<in> set (map key rows)"
  shows "pid (parentOf key np ch at rows k) = k"
proof -
  have keep: "pid (foldl at p cs) = pid p" for p cs by (induction cs arbitrary: p) (simp_all add: assms(2))
  have "filter (\<lambda>r. key r = k) rows \<noteq> []" using assms(3) by (auto simp: filter_empty_conv)
  then have "hd (filter (\<lambda>r. key r = k) rows) \<in> set (filter (\<lambda>r. key r = k) rows)" by (rule hd_in_set)
  then show ?thesis unfolding parentOf_def Let_def keep assms(1) by simp
qed

lemma collapse_ids:
  assumes "\<And>r. pid (np r) = key r" and "\<And>p c. pid (at p c) = pid p"
  shows "map pid (Collapse rows key np ch at) = Dedup (map key rows)"
proof -
  have "pid (parentOf key np ch at rows k) = k" if "k \<in> set (map key rows)" for k using assms that by (rule collapse_key)
  then have "map (\<lambda>k. pid (parentOf key np ch at rows k)) (Dedup (map key rows)) = Dedup (map key rows)" by (intro map_idI) simp
  then show ?thesis by (simp add: Collapse_eq comp_def)
qed

lemma collapse_filter:
  assumes "\<And>r. pid (np r) = key r" and "\<And>p c. pid (at p c) = pid p"
  shows "Collapse (filter (\<lambda>r. P (key r)) rows) key np ch at = filter (\<lambda>p. P (pid p)) (Collapse rows key np ch at)"
proof -
  have same: "parentOf key np ch at (filter (\<lambda>r. P (key r)) rows) k = parentOf key np ch at rows k" if "P k" for k
  proof -
    have "filter (\<lambda>r. key r = k) (filter (\<lambda>r. P (key r)) rows) = filter (\<lambda>r. key r = k) rows" using that by (auto simp: filter_filter intro!: filter_cong)
    then show ?thesis by (simp add: parentOf_def)
  qed
  have keys: "map key (filter (\<lambda>r. P (key r)) rows) = filter P (map key rows)" by (simp add: filter_map comp_def)
  have "pid (parentOf key np ch at rows k) = k" if "k \<in> set (map key rows)" for k using assms that by (rule collapse_key)
  then have "filter (\<lambda>k. P (pid (parentOf key np ch at rows k))) (Dedup (map key rows)) = filter P (Dedup (map key rows))"
    by (intro filter_cong) simp_all
  then have "filter (\<lambda>p. P (pid p)) (Collapse rows key np ch at) = map (parentOf key np ch at rows) (filter P (Dedup (map key rows)))"
    unfolding Collapse_eq by (simp add: filter_map comp_def)
  moreover have "Collapse (filter (\<lambda>r. P (key r)) rows) key np ch at = map (parentOf key np ch at rows) (filter P (Dedup (map key rows)))"
    unfolding Collapse_eq keys Dedup_filter by (intro map_cong refl same) simp
  ultimately show ?thesis by simp
qed

lemma newSubject_id: "sj_ID (newSubject r) = u_ID (fst r)"
  by (cases r) (simp add: newSubject_def)

lemma subjectJoin_scoped: "subjectJoin (Some i) s = filter (\<lambda>r. u_ID (fst r) = i) (subjectJoin None s)"
proof -
  have part: "filter (\<lambda>r. u_ID (fst r) = i) (concat (map f us)) = concat (map f (filter (\<lambda>u. u_ID u = i) us))"
    if "\<And>u r. r \<in> set (f u) \<Longrightarrow> fst r = u" for f :: "User \<Rightarrow> subjectJoinRow list" and us
    using that by (induction us) (auto simp: filter_empty_conv intro!: filter_True)
  show ?thesis unfolding subjectJoin_def by (subst part) (auto simp: filter_filter intro!: arg_cong[where f = concat] map_cong filter_cong)
qed

definition allSubjects :: "store \<Rightarrow> SubjectRow list" where
  "allSubjects s = Collapse (sort_key subjectOrder (subjectJoin None s)) (\<lambda>r. u_ID (fst r)) newSubject
     (\<lambda>r. map_option groupSummary (snd (snd r))) (\<lambda>x g. x\<lparr>sj_HostGroups := sj_HostGroups x @ [g]\<rparr>)"

lemma SubjectRows_scoped: "SubjectRows i s = (Inr (filter (\<lambda>x. i = None \<or> i = Some (sj_ID x)) (allSubjects s)), s)"
proof (cases i)
  case (Some j)
  have "sort_key subjectOrder (subjectJoin (Some j) s) = filter (\<lambda>r. u_ID (fst r) = j) (sort_key subjectOrder (subjectJoin None s))"
    by (simp add: subjectJoin_scoped filter_sort)
  then show ?thesis using collapse_filter[where pid = sj_ID and P = "\<lambda>k. k = j" and key = "\<lambda>r. u_ID (fst r)" and np = newSubject and
      rows = "sort_key subjectOrder (subjectJoin None s)" and at = "\<lambda>x g. x\<lparr>sj_HostGroups := sj_HostGroups x @ [g]\<rparr>" and
      ch = "\<lambda>r. map_option groupSummary (snd (snd r))", OF newSubject_id]
    by (simp add: SubjectRows_def allSubjects_def Some eq_commute[of j])
qed (simp add: SubjectRows_def allSubjects_def)

lemma allSubjects_once: "distinct (map sj_ID (allSubjects s))"
  unfolding allSubjects_def by (subst collapse_ids[where pid = sj_ID and key = "\<lambda>r. u_ID (fst r)"]) (simp_all add: newSubject_id)

text \<open>The devices: one row for each, by name, with the addresses and the key of the device.\<close>

definition deviceJoin :: "store \<Rightarrow> DeviceRow \<Rightarrow> fleetJoinRow list" where
  "deviceJoin s d = concat (map (\<lambda>dk. map (\<lambda>a. (d, map_option k_Prefix dk, a)) (leftJoin (filter (\<lambda>a. a_DeviceID a = d_ID d) (st_addresses s))))
     (leftJoin (filter (\<lambda>k. k_DeviceID k = d_ID d) (st_apiKeys s))))"

definition keyPrefixOf :: "store \<Rightarrow> DeviceRow \<Rightarrow> string option" where
  "keyPrefixOf s d = map_option k_Prefix (List.find (\<lambda>k. k_DeviceID k = d_ID d) (st_apiKeys s))"

definition shownDevices :: "store \<Rightarrow> DeviceRow list" where
  "shownDevices s = sort_key d_Name (sort_key d_ID (filter (\<lambda>d. d_DeletedAt d = None) (st_devices s)))"

lemma sort_key_map_comp: "sort_key f (map g xs) = map g (sort_key (\<lambda>x. f (g x)) xs)"
proof (induction xs)
  case (Cons x xs)
  have "insort_key f (g x) (map g ys) = map g (insort_key (\<lambda>x. f (g x)) x ys)" for ys by (induction ys) simp_all
  then show ?case using Cons by simp
qed simp

lemma leftJoin_key:
  "distinct (map f xs) \<Longrightarrow> leftJoin (filter (\<lambda>x. f x = k) xs) = [List.find (\<lambda>x. f x = k) xs]"
proof (induction xs)
  case (Cons x xs)
  have fresh: "f x \<notin> f ` set xs" using Cons.prems by simp
  have "filter (\<lambda>y. f y = k) xs = []" if "f x = k" unfolding filter_empty_conv using that fresh by (metis image_eqI)
  then show ?case using Cons by (auto simp: leftJoin_def)
qed (simp add: leftJoin_def)

lemma deviceJoin_eq:
  assumes "deviceInv s"
  shows "deviceJoin s d = map (\<lambda>a. (d, keyPrefixOf s d, a)) (leftJoin (filter (\<lambda>a. a_DeviceID a = d_ID d) (st_addresses s)))"
proof -
  have "distinct (map k_DeviceID (st_apiKeys s))" using assms by (simp add: deviceInv_def)
  from leftJoin_key[OF this] show ?thesis by (simp add: deviceJoin_def keyPrefixOf_def)
qed

lemma deviceJoin_rows:
  assumes "deviceInv s"
  shows "deviceJoin s d \<noteq> []" "r \<in> set (deviceJoin s d) \<Longrightarrow> fst r = d \<and> fst (snd r) = keyPrefixOf s d"
    "List.map_filter (\<lambda>r. snd (snd r)) (deviceJoin s d) = filter (\<lambda>a. a_DeviceID a = d_ID d) (st_addresses s)"
  unfolding deviceJoin_eq[OF assms] by (auto simp: leftJoin_def List.map_filter_def filter_map comp_def)

lemma fleetJoin_groups:
  assumes inv: "deviceInv s" and ds: "distinct (map d_ID ds)"
  shows "groupBy (\<lambda>r. (d_ID (fst r), fst (snd r))) (concat (map (deviceJoin s) ds)) = map (\<lambda>d. ((d_ID d, keyPrefixOf s d), deviceJoin s d)) (sort_key d_ID ds)"
proof -
  let ?key = "\<lambda>r :: fleetJoinRow. (d_ID (fst r), fst (snd r))" and ?k = "\<lambda>d. (d_ID d, keyPrefixOf s d)" and ?rows = "concat (map (deviceJoin s) ds)"
  have one: "filter (\<lambda>r. ?key r = ?k d) (concat (map (deviceJoin s) xs)) = (if d \<in> set xs then deviceJoin s d else [])" if "distinct (map d_ID xs)" "d \<in> set ds" "set xs \<subseteq> set ds" for d xs
    using that
  proof (induction xs)
    case (Cons x xs)
    have part: "filter (\<lambda>r. ?key r = ?k d) (deviceJoin s x) = (if x = d then deviceJoin s x else [])"
    proof (cases "x = d")
      case True
      then show ?thesis using deviceJoin_rows(2)[OF inv, of _ x] by (auto intro!: filter_True)
    next
      case False
      then have "d_ID x \<noteq> d_ID d" using Cons.prems ds by (metis distinct_map inj_onD list.set_intros(1) subset_code(1))
      then show ?thesis using False deviceJoin_rows(2)[OF inv, of _ x] by (auto simp: filter_empty_conv)
    qed
    then show ?case using Cons by auto
  qed simp
  have keys: "sort (remdups (map ?key ?rows)) = map ?k (sort_key d_ID ds)"
  proof (rule sorted_distinct_set_unique)
    have strict: "sorted_wrt (<) (map d_ID (sort_key d_ID ds))" using ds by (simp add: strict_sorted_iff distinct_map inj_on_def)
    then have "sorted_wrt (\<lambda>a b. d_ID a < d_ID b) (sort_key d_ID ds)" by (simp add: sorted_wrt_map)
    then have "sorted_wrt (\<lambda>a b. ?k a < ?k b) (sort_key d_ID ds)" by (rule sorted_wrt_mono_rel[rotated]) (simp add: less_prod_def)
    then have "sorted_wrt (<) (map ?k (sort_key d_ID ds))" by (simp add: sorted_wrt_map)
    then show "sorted (map ?k (sort_key d_ID ds))" "distinct (map ?k (sort_key d_ID ds))" by (simp_all only: strict_sorted_iff)
    show "set (sort (remdups (map ?key ?rows))) = set (map ?k (sort_key d_ID ds))"
    proof -
      have "?key ` set (deviceJoin s d) = {?k d}" for d using deviceJoin_rows(1,2)[OF inv, where d = d] by (cases "deviceJoin s d") (auto simp: image_iff, blast?)
      then have "?key ` (\<Union>d \<in> set ds. set (deviceJoin s d)) = ?k ` set ds" by (simp add: image_UN) blast
      then show ?thesis by simp
    qed
  qed simp_all
  show ?thesis unfolding groupBy_def keys map_map comp_def using one[OF ds] by (auto intro!: map_cong)
qed

definition fleetEntry :: "store \<Rightarrow> DeviceRow \<Rightarrow> FleetRow" where
  "fleetEntry s d = (let addresses = filter (\<lambda>a. a_DeviceID a = d_ID d) (st_addresses s); live = length (filter a_IsEnabled addresses)
     in \<lparr>fr_OwnerID = d_OwnerID d, fr_Device = \<lparr>fd_Id = d_ID d, fd_Name = d_Name d, fd_Icon = d_Icon d, fd_Description = d_Description d,
        fd_ApiKeyPrefix = keyPrefixOf s d, fd_CreatedAt = d_CreatedAt d, fd_LiveAddressCount = live,
        fd_State = deviceListState live (d_DisabledAt d \<noteq> None), fd_LastSeenAt = maxTime (map a_UpdatedAt addresses),
        fd_Rules = [], fd_Pairing = None\<rparr>\<rparr>)"

lemma fleetRow_entry:
  assumes "deviceInv s"
  shows "fleetRow (deviceJoin s d) = fleetEntry s d"
proof -
  obtain a where "hd (deviceJoin s d) = (d, keyPrefixOf s d, a)"
    using deviceJoin_rows(1,2)[OF assms, where d = d] by (metis hd_in_set prod.collapse)
  then show ?thesis unfolding fleetRow_def fleetEntry_def deviceJoin_rows(3)[OF assms] Let_def by simp
qed

lemma FleetRows_scoped:
  assumes inv: "deviceInv s"
  shows "FleetRows i s = (Inr (filter (\<lambda>x. i = None \<or> i = Some (fr_OwnerID x)) (map (fleetEntry s) (shownDevices s))), s)"
proof -
  let ?P = "\<lambda>d. i = None \<or> i = Some (d_OwnerID d)"
  let ?ds = "filter (\<lambda>d. d_DeletedAt d = None \<and> ?P d) (st_devices s)"
  have "distinct (map d_ID (st_devices s))" using inv by (simp add: deviceInv_def)
  then have ds: "distinct (map d_ID ?ds)" by (simp add: distinct_map_filter)
  have "fleetJoin i s = concat (map (deviceJoin s) ?ds)" unfolding fleetJoin_def deviceJoin_def[abs_def] ..
  then have "FleetRows i s = (Inr (sort_key (\<lambda>r. fd_Name (fr_Device r)) (map (fleetEntry s) (sort_key d_ID ?ds))), s)"
    using fleetJoin_groups[OF inv ds] by (simp add: FleetRows_def get_def comp_def fleetRow_entry[OF inv])
  also have "sort_key (\<lambda>r. fd_Name (fr_Device r)) (map (fleetEntry s) (sort_key d_ID ?ds)) = map (fleetEntry s) (sort_key d_Name (sort_key d_ID ?ds))"
    unfolding sort_key_map_comp by (simp add: fleetEntry_def Let_def)
  also have "sort_key d_Name (sort_key d_ID ?ds) = filter ?P (shownDevices s)"
    by (simp add: shownDevices_def filter_sort[symmetric] filter_filter conj_commute)
  also have "map (fleetEntry s) (filter ?P (shownDevices s)) = filter (\<lambda>x. i = None \<or> i = Some (fr_OwnerID x)) (map (fleetEntry s) (shownDevices s))"
    by (simp add: filter_map comp_def fleetEntry_def Let_def)
  finally show ?thesis .
qed

definition rulesOf :: "jsonCodec \<Rightarrow> store \<Rightarrow> id \<rightharpoonup> DeviceRuleSummary list" where
  "rulesOf codec s d = (case List.map_filter (ruleSummaryFromRow codec) (sort_key (\<lambda>r. (r_DeviceID r, ruleTypeText (r_RuleType r)))
     (filter (\<lambda>r. r_DeviceID r = d) (st_rules s))) of [] \<Rightarrow> None | xs \<Rightarrow> Some xs)"

lemma foldl_addSummary:
  "foldl (addSummary codec) m rs d = (case List.map_filter (ruleSummaryFromRow codec) (filter (\<lambda>r. r_DeviceID r = d) rs) of [] \<Rightarrow> m d
     | xs \<Rightarrow> Some ((case m d of None \<Rightarrow> [] | Some ys \<Rightarrow> ys) @ xs))"
proof (induction rs arbitrary: m)
  case (Cons r rs)
  show ?case
  proof (cases "ruleSummaryFromRow codec r")
    case None
    then show ?thesis using Cons[of m] by (simp add: addSummary_def List.map_filter_simps)
  next
    case (Some x)
    then show ?thesis unfolding foldl_Cons Cons by (auto simp: addSummary_def List.map_filter_simps split: list.splits)
  qed
qed (simp add: List.map_filter_simps)

lemma RulesForDevices_local:
  "RulesForDevices codec ids s = (Inr (\<lambda>d. if d \<in> set ids then rulesOf codec s d else None), s)"
proof -
  have "foldl (addSummary codec) Map.empty (sort_key (\<lambda>r. (r_DeviceID r, ruleTypeText (r_RuleType r))) (filter (\<lambda>r. r_DeviceID r \<in> set ids) (st_rules s))) d =
      (if d \<in> set ids then rulesOf codec s d else None)" for d
  proof (cases "d \<in> set ids")
    case True
    then have "filter (\<lambda>r. r_DeviceID r = d) (filter (\<lambda>r. r_DeviceID r \<in> set ids) (st_rules s)) = filter (\<lambda>r. r_DeviceID r = d) (st_rules s)"
      by (auto simp: filter_filter intro!: filter_cong)
    then show ?thesis using True by (simp add: foldl_addSummary filter_sort rulesOf_def split: list.splits)
  next
    case False
    then have "filter (\<lambda>r. r_DeviceID r = d) (filter (\<lambda>r. r_DeviceID r \<in> set ids) (st_rules s)) = []" by (auto simp: filter_empty_conv)
    then show ?thesis using False by (simp add: foldl_addSummary filter_sort List.map_filter_simps)
  qed
  then show ?thesis by (auto simp: RulesForDevices_def get_def)
qed

definition pairingsOf :: "time \<Rightarrow> store \<Rightarrow> id \<rightharpoonup> DevicePairingSummary" where
  "pairingsOf now s d = (case PairingsForDevices now [d] s of (Inr rows, _) \<Rightarrow> pairingMap rows d | _ \<Rightarrow> None)"

lemma pairingMap_local: "pairingMap rows d = pairingMap (filter (\<lambda>r. fst r = d) rows) d"
proof -
  have "foldl addPairing m rows d = foldl addPairing m' (filter (\<lambda>r. fst r = d) rows) d" if "m d = m' d" for m m'
    using that
  proof (induction rows arbitrary: m m')
    case (Cons r rows)
    show ?case
    proof (cases "fst r = d")
      case True
      then show ?thesis using Cons.IH[of "addPairing m r" "addPairing m' r"] by (simp add: addPairing_def)
    next
      case False
      then show ?thesis using Cons.IH[of "addPairing m r" m'] Cons.prems by (simp add: addPairing_def)
    qed
  qed simp
  then show ?thesis by (simp add: pairingMap_def)
qed

lemma pairings_local:
  "fc_pairings (NewFleetComposer codec now) ids s = (Inr (\<lambda>d. if d \<in> set ids then pairingsOf now s d else None), s)"
proof (cases "ids = []")
  case False
  let ?row = "\<lambda>r. (pr_DeviceID r, EvalStatus now (pr_Status r) (pr_ExpiresAt r), pr_ExpiresAt r)"
  let ?latest = "\<lambda>r. \<not> list_ex (\<lambda>b. pr_DeviceID b = pr_DeviceID r \<and> laterPairing b r) (st_pairings s)"
  let ?of = "\<lambda>ids. map ?row (filter (\<lambda>r. pr_DeviceID r \<in> set ids \<and> ?latest r) (st_pairings s))"
  have "filter (\<lambda>r. fst r = d) (?of ids) = (if d \<in> set ids then filter (\<lambda>r. fst r = d) (?of [d]) else [])" for d
    by (auto simp: filter_map comp_def filter_filter filter_empty_conv intro!: arg_cong[where f = "map ?row"] filter_cong)
  then have "pairingMap (?of ids) d = (if d \<in> set ids then pairingMap (?of [d]) d else None)" for d
    by (subst (1 2) pairingMap_local) (simp add: pairingMap_def)
  then have part: "pairingMap (?of ids) = (\<lambda>d. if d \<in> set ids then pairingMap (?of [d]) d else None)" by (intro ext)
  have reads: "PairingsForDevices now xs s = (Inr (?of xs), s)" for xs by (simp add: PairingsForDevices_def)
  have "fc_pairings (NewFleetComposer codec now) ids s = (Inr (pairingMap (?of ids)), s)" using False by (simp add: NewFleetComposer_def andThen_def reads ret_def)
  moreover have "pairingsOf now s d = pairingMap (?of [d]) d" for d unfolding pairingsOf_def reads by simp
  ultimately show ?thesis unfolding part by (simp only:)
qed (simp add: NewFleetComposer_def ret_def)

interpretation storeFleet: fleet_readers "NewFleetComposer codec now" deviceInv allSubjects "\<lambda>s. map (fleetEntry s) (shownDevices s)" "rulesOf codec" "pairingsOf now"
  for codec now
  by unfold_locales
    (simp_all add: SubjectRows_scoped FleetRows_scoped RulesForDevices_local pairings_local allSubjects_once, simp_all add: NewFleetComposer_def SubjectRows_scoped FleetRows_scoped RulesForDevices_local)

section \<open>What the fleet shows\<close>

text \<open>The first row of every key, in order: a subsequence of the rows, so it is sorted as they are.\<close>

definition firstRows :: "('r \<Rightarrow> 'k) \<Rightarrow> 'r list \<Rightarrow> 'r list" where
  "firstRows key rows = map (\<lambda>k. hd (filter (\<lambda>r. key r = k) rows)) (Dedup (map key rows))"

lemma firstRows_subseq: "subseq (firstRows key rows) rows"
proof (induction "length rows" arbitrary: rows rule: less_induct)
  case less
  show ?case
  proof (cases rows)
    case (Cons r rs)
    let ?rest = "filter (\<lambda>x. key x \<noteq> key r) rs"
    have keys: "filter (\<lambda>k. k \<noteq> key r) (map key rs) = map key ?rest" by (simp add: filter_map comp_def)
    have "hd (filter (\<lambda>x. key x = k) rows) = hd (filter (\<lambda>x. key x = k) ?rest)" if "k \<in> set (map key ?rest)" for k
    proof -
      have "filter (\<lambda>x. key x = k) ?rest = filter (\<lambda>x. key x = k) rs" using that by (auto simp: filter_filter intro!: filter_cong)
      then show ?thesis using that Cons by auto
    qed
    then have "firstRows key rows = r # firstRows key ?rest"
      unfolding firstRows_def Cons list.map(2) Dedup_Cons keys by (auto simp del: set_map)
    moreover have "subseq (firstRows key ?rest) ?rest" using less Cons by (simp add: le_imp_less_Suc)
    ultimately show ?thesis using Cons subseq_filter_left[of _ rs] by (metis subseq_Cons2 subseq_order.order_trans)
  qed (simp add: firstRows_def)
qed

lemma sorted_wrt_firstRows: "sorted_wrt P rows \<Longrightarrow> sorted_wrt P (firstRows key rows)"
proof -
  have "subseq xs ys \<Longrightarrow> sorted_wrt P ys \<Longrightarrow> sorted_wrt P xs \<and> set xs \<subseteq> set ys" for xs ys
    by (induction rule: list_emb.induct) auto
  then show "sorted_wrt P rows \<Longrightarrow> sorted_wrt P (firstRows key rows)" using firstRows_subseq by blast
qed

lemma collapse_field:
  assumes "\<And>p c. f (at p c) = f p"
  shows "map f (Collapse rows key np ch at) = map (\<lambda>r. f (np r)) (firstRows key rows)"
proof -
  have "f (foldl at p cs) = f p" for p cs by (induction cs arbitrary: p) (simp_all add: assms)
  then show ?thesis by (simp add: Collapse_eq firstRows_def parentOf_def comp_def Let_def)
qed

lemma allSubjects_sorted: "sorted (map (\<lambda>x. (sj_DisplayName x, sj_ID x)) (allSubjects s))"
proof -
  let ?rows = "sort_key subjectOrder (subjectJoin None s)" and ?f = "\<lambda>x. (sj_DisplayName x, sj_ID x)"
  have "sorted_wrt (\<lambda>a b. subjectOrder a \<le> subjectOrder b) ?rows"
    using sorted_sort_key[of subjectOrder "subjectJoin None s"] by (simp only: sorted_map)
  then have "sorted_wrt (\<lambda>a b. subjectOrder a \<le> subjectOrder b) (firstRows (\<lambda>r. u_ID (fst r)) ?rows)"
    by (rule sorted_wrt_firstRows)
  then have "sorted_wrt (\<lambda>a b. ?f (newSubject a) \<le> ?f (newSubject b)) (firstRows (\<lambda>r. u_ID (fst r)) ?rows)"
    by (rule sorted_wrt_mono_rel[rotated]) (auto simp: subjectOrder_def newSubject_def less_eq_prod_def)
  then show ?thesis unfolding allSubjects_def by (subst collapse_field) (simp_all add: sorted_map)
qed

lemma leftJoin_nonempty [simp]: "leftJoin xs \<noteq> []"
  by (simp add: leftJoin_def)

lemma subjectJoin_users: "(\<lambda>r. u_ID (fst r)) ` set (subjectJoin None s) = u_ID ` {u \<in> set (st_users s). u_DeletedAt u = None}"
proof -
  have ne: "set (leftJoin xs) \<noteq> {}" for xs :: "'b list" by simp
  show ?thesis unfolding subjectJoin_def by (auto simp: image_iff ne simp del: leftJoin_nonempty) (metis ne ex_in_conv)
qed

lemma allSubjects_users: "set (map sj_ID (allSubjects s)) = u_ID ` {u \<in> set (st_users s). u_DeletedAt u = None}"
proof -
  have "map sj_ID (allSubjects s) = Dedup (map (\<lambda>r. u_ID (fst r)) (sort_key subjectOrder (subjectJoin None s)))"
    unfolding allSubjects_def by (rule collapse_ids) (simp_all add: newSubject_id)
  then show ?thesis using subjectJoin_users by (simp add: image_image)
qed

lemma sum_list_swap: "(\<Sum>a \<leftarrow> xs. \<Sum>d \<leftarrow> ys. f a d) = (\<Sum>d \<leftarrow> ys. \<Sum>a \<leftarrow> xs. (f a d :: nat))"
  by (induction xs) (simp_all add: sum_list_addf)

lemma length_filter_sum: "length (filter P xs) = (\<Sum>x \<leftarrow> xs. if P x then 1 else 0)"
  by (induction xs) simp_all

lemma sum_list_filter: "(\<Sum>x \<leftarrow> filter P xs. f x) = (\<Sum>x \<leftarrow> xs. if P x then f x else (0 :: nat))"
  by (induction xs) simp_all

text \<open>The rows of the cache, counted device by device.\<close>

lemma ipEntries_count:
  assumes "\<And>(a :: Address) (d :: DeviceRow). Q \<lparr>ie_IP = a_IP a, ie_DeviceID = a_DeviceID a, ie_AddressID = a_ID a, ie_UserID = d_OwnerID d\<rparr> \<longleftrightarrow> R (a_DeviceID a) (d_OwnerID d)"
  shows "length (filter Q (ipEntries s)) = (\<Sum>d \<leftarrow> filter (\<lambda>d. d_DeletedAt d = None \<and> R (d_ID d) (d_OwnerID d)) (st_devices s).
    length (filter a_IsEnabled (filter (\<lambda>a. a_DeviceID a = d_ID d) (st_addresses s))))"
proof -
  let ?one = "\<lambda>a d. if a_IsEnabled a \<and> d_ID d = a_DeviceID a \<and> d_DeletedAt d = None \<and> R (a_DeviceID a) (d_OwnerID d) then 1 else 0 :: nat"
  have row: "length (filter Q (enabledRow s a)) = (\<Sum>d \<leftarrow> st_devices s. ?one a d)" for a
  proof -
    have "length (filter Q (enabledRow s a)) = length (filter (\<lambda>d. a_IsEnabled a \<and> d_ID d = a_DeviceID a \<and> d_DeletedAt d = None \<and> R (a_DeviceID a) (d_OwnerID d)) (st_devices s))"
      by (simp add: enabledRow_def filter_map comp_def assms filter_filter conj_ac)
    then show ?thesis by (simp only: length_filter_sum)
  qed
  have "length (filter Q (ipEntries s)) = (\<Sum>a \<leftarrow> byUpdatedDesc (st_addresses s). length (filter Q (enabledRow s a)))"
    by (simp add: ipEntries_def filter_concat length_concat comp_def)
  also have "\<dots> = (\<Sum>a \<leftarrow> st_addresses s. length (filter Q (enabledRow s a)))"
    unfolding sum_mset_sum_list[symmetric] mset_map byUpdatedDesc_def by simp
  also have "\<dots> = (\<Sum>d \<leftarrow> st_devices s. \<Sum>a \<leftarrow> st_addresses s. ?one a d)" unfolding row by (rule sum_list_swap)
  also have "\<dots> = (\<Sum>d \<leftarrow> filter (\<lambda>d. d_DeletedAt d = None \<and> R (d_ID d) (d_OwnerID d)) (st_devices s).
      length (filter a_IsEnabled (filter (\<lambda>a. a_DeviceID a = d_ID d) (st_addresses s))))"
    unfolding sum_list_filter
  proof (intro arg_cong[where f = sum_list] map_cong refl)
    fix d
    show "(\<Sum>a \<leftarrow> st_addresses s. ?one a d) = (if d_DeletedAt d = None \<and> R (d_ID d) (d_OwnerID d)
        then length (filter a_IsEnabled (filter (\<lambda>a. a_DeviceID a = d_ID d) (st_addresses s))) else 0)"
      unfolding filter_filter length_filter_sum by (auto intro!: arg_cong[where f = sum_list] map_cong)
  qed
  finally show ?thesis .
qed

definition ownDevices :: "store \<Rightarrow> id \<Rightarrow> DeviceRow list" where
  "ownDevices s i = filter (\<lambda>d. d_OwnerID d = i) (shownDevices s)"

lemma fleet_owned: "ownedRows (map (fleetEntry s) (shownDevices s)) i = map (fleetEntry s) (ownDevices s i)"
  by (simp add: ownedRows_def ownDevices_def filter_map comp_def fleetEntry_def Let_def)

lemma own_count:
  "(\<Sum>d \<leftarrow> ownDevices s i. length (filter a_IsEnabled (filter (\<lambda>a. a_DeviceID a = d_ID d) (st_addresses s)))) =
    length (filter (\<lambda>e. ie_UserID e = i) (ipEntries s))"
proof -
  let ?f = "\<lambda>d. length (filter a_IsEnabled (filter (\<lambda>a. a_DeviceID a = d_ID d) (st_addresses s)))"
  have "mset (ownDevices s i) = mset (filter (\<lambda>d. d_DeletedAt d = None \<and> d_OwnerID d = i) (st_devices s))"
    by (simp add: ownDevices_def shownDevices_def filter_filter_mset conj_commute)
  then have "(\<Sum>d \<leftarrow> ownDevices s i. ?f d) = (\<Sum>d \<leftarrow> filter (\<lambda>d. d_DeletedAt d = None \<and> d_OwnerID d = i) (st_devices s). ?f d)"
    unfolding sum_mset_sum_list[symmetric] mset_map by simp
  then show ?thesis by (subst ipEntries_count[where R = "\<lambda>_ u. u = i"]) auto
qed

lemma device_count:
  assumes "deviceInv s" and "d \<in> set (shownDevices s)"
  shows "length (filter a_IsEnabled (filter (\<lambda>a. a_DeviceID a = d_ID d) (st_addresses s))) = length (filter (\<lambda>e. ie_DeviceID e = d_ID d) (ipEntries s))"
proof -
  let ?f = "\<lambda>d. length (filter a_IsEnabled (filter (\<lambda>a. a_DeviceID a = d_ID d) (st_addresses s)))"
  have d: "d \<in> set (st_devices s)" "d_DeletedAt d = None" using assms(2) by (auto simp: shownDevices_def)
  define F where "F = filter (\<lambda>x. d_ID x = d_ID d) (st_devices s)"
  have "leftJoin (filter (\<lambda>x. d_ID x = d_ID d) (st_devices s)) = [List.find (\<lambda>x. d_ID x = d_ID d) (st_devices s)]"
    by (rule leftJoin_key[OF deviceInvD(1)[OF assms(1)]])
  then have "length F \<le> 1" unfolding F_def[symmetric] by (auto simp: leftJoin_def split: if_splits)
  moreover have "d \<in> set F" using d by (simp add: F_def)
  ultimately have "F = [d]" by (cases F) auto
  then have "filter (\<lambda>x. d_DeletedAt x = None) (filter (\<lambda>x. d_ID x = d_ID d) (st_devices s)) = [d]" using d(2) by (simp add: F_def[symmetric] del: filter_filter)
  then have "filter (\<lambda>x. d_DeletedAt x = None \<and> d_ID x = d_ID d) (st_devices s) = [d]" by (simp add: filter_filter conj_commute)
  then show ?thesis by (subst ipEntries_count[where R = "\<lambda>i _. i = d_ID d"]) auto
qed

lemma disabled_no_addresses:
  assumes "deviceInv s" and "d \<in> set (shownDevices s)" and "d_DisabledAt d \<noteq> None"
  shows "filter a_IsEnabled (filter (\<lambda>a. a_DeviceID a = d_ID d) (st_addresses s)) = []"
proof -
  have d: "d \<in> set (st_devices s)" using assms(2) by (simp add: shownDevices_def)
  have "\<not> a_IsEnabled a" if a: "a \<in> set (st_addresses s)" "a_DeviceID a = d_ID d" for a
  proof
    assume "a_IsEnabled a"
    then have "liveDevice s (d_ID d)" using deviceInvD(4)[OF assms(1) a(1)] a(2) by simp
    then obtain d' where "d' \<in> set (st_devices s)" "d_ID d' = d_ID d" "d_DisabledAt d' = None" by (auto simp: liveDevice_def)
    then show False using unique_device[OF assms(1) d, of d'] assms(3) by simp
  qed
  then show ?thesis by (auto simp: filter_empty_conv)
qed

lemma fleetEntry_fields:
  "fr_OwnerID (fleetEntry s d) = d_OwnerID d" "fd_Id (fr_Device (fleetEntry s d)) = d_ID d"
  "fd_LiveAddressCount (fr_Device (fleetEntry s d)) = length (filter a_IsEnabled (filter (\<lambda>a. a_DeviceID a = d_ID d) (st_addresses s)))"
  "fd_State (fr_Device (fleetEntry s d)) = deviceListState (fd_LiveAddressCount (fr_Device (fleetEntry s d))) (d_DisabledAt d \<noteq> None)"
  by (simp_all add: fleetEntry_def Let_def)

lemma withDetails_state [simp]: "fd_State (withDetails rules pairings d) = fd_State d"
  by (auto simp: withDetails_def Let_def split: option.splits)

text \<open>What a group of the fleet has to say of its owner: all devices of the owner that are not deleted, by name, and as many live addresses as the
  policy cache has entries for the owner and for each device.\<close>

definition groupShows :: "store \<Rightarrow> OwnerFleetGroup \<Rightarrow> bool" where
  "groupShows s g \<longleftrightarrow> (let i = os_Id (og_Owner g) in
     map fd_Id (og_Devices g) = map d_ID (ownDevices s i) \<and>
     os_DeviceCount (og_Owner g) = length (ownDevices s i) \<and>
     os_LiveAddressCount (og_Owner g) = length (filter (\<lambda>e. ie_UserID e = i) (ipEntries s)) \<and>
     list_all (\<lambda>d. fd_LiveAddressCount d = length (filter (\<lambda>e. ie_DeviceID e = fd_Id d) (ipEntries s)) \<and>
       (fd_State d = DeviceStateHealthy \<longleftrightarrow> 0 < fd_LiveAddressCount d)) (og_Devices g))"

lemma group_shows:
  assumes inv: "deviceInv s"
  shows "groupShows s (ownerGroup rules pairings (map (fleetEntry s) (shownDevices s)) x)"
proof -
  let ?row = "\<lambda>d. withDetails rules pairings (fr_Device (fleetEntry s d))"
  have rows: "fd_LiveAddressCount (?row d) = length (filter (\<lambda>e. ie_DeviceID e = fd_Id (?row d)) (ipEntries s)) \<and>
      (fd_State (?row d) = DeviceStateHealthy \<longleftrightarrow> 0 < fd_LiveAddressCount (?row d))" if "d \<in> set (ownDevices s (sj_ID x))" for d
  proof -
    have d: "d \<in> set (shownDevices s)" using that by (simp add: ownDevices_def)
    have "d_DisabledAt d \<noteq> None \<Longrightarrow> fd_LiveAddressCount (fr_Device (fleetEntry s d)) = 0"
      using disabled_no_addresses[OF inv d] by (simp add: fleetEntry_fields del: filter_filter)
    then show ?thesis using device_count[OF inv d]
      by (cases "d_DisabledAt d") (auto simp: fleetEntry_fields deviceListState_def simp del: filter_filter)
  qed
  show ?thesis unfolding groupShows_def ownerGroup_fields fleet_owned Let_def map_map comp_def
  proof (intro conjI)
    show "list_all (\<lambda>d. fd_LiveAddressCount d = length (filter (\<lambda>e. ie_DeviceID e = fd_Id d) (ipEntries s)) \<and>
        (fd_State d = DeviceStateHealthy \<longleftrightarrow> 0 < fd_LiveAddressCount d)) (map ?row (ownDevices s (sj_ID x)))"
      unfolding list_all_iff set_map using rows by blast
  qed (simp_all add: fleetEntry_fields own_count del: filter_filter)
qed

text \<open>C38 (functional). The fleet lists every user who is not deleted exactly once, by display name and id, with all devices of the user that are not deleted;
  the counts of live addresses are the numbers of entries that the policy cache loads for the user and for each device, and a device is shown as
  healthy exactly if it has one. Together the stitching by index, the joins and the aggregates lose and repeat nothing.\<close>

theorem fleet_shows_every_device:
  assumes "deviceInv s"
  shows "\<exists>groups. GetDeviceFleet (NewFleetComposer codec now) None s = GetDeviceFleet200 groups \<and>
    distinct (map (\<lambda>g. os_Id (og_Owner g)) groups) \<and>
    set (map (\<lambda>g. os_Id (og_Owner g)) groups) = u_ID ` {u \<in> set (st_users s). u_DeletedAt u = None} \<and>
    sorted (map (\<lambda>g. (os_DisplayName (og_Owner g), os_Id (og_Owner g))) groups) \<and> list_all (groupShows s) groups"
proof -
  let ?group = "ownerGroup (rulesOf codec s) (pairingsOf now s) (map (fleetEntry s) (shownDevices s))"
  let ?groups = "map ?group (allSubjects s)"
  have served: "GetDeviceFleet (NewFleetComposer codec now) None s = GetDeviceFleet200 ?groups"
    by (simp add: GetDeviceFleet_def storeFleet.fleet_groups[OF assms])
  have ids: "map (\<lambda>g. os_Id (og_Owner g)) ?groups = map sj_ID (allSubjects s)"
    and names: "map (\<lambda>g. (os_DisplayName (og_Owner g), os_Id (og_Owner g))) ?groups = map (\<lambda>x. (sj_DisplayName x, sj_ID x)) (allSubjects s)"
    by (simp_all add: ownerGroup_fields)
  have "list_all (groupShows s) ?groups" using group_shows[OF assms] by (simp add: list_all_iff)
  then show ?thesis using served allSubjects_once[of s] allSubjects_users[of s] allSubjects_sorted[of s] unfolding ids[symmetric] names[symmetric] by blast
qed

text \<open>C39 (equivalence). The page of one owner is the part of the fleet that belongs to the owner, for every store that satisfies the invariant of the devices: the same
  composer serves both, whatever rules and pairings the other devices have, and an owner who does not exist gives no group.\<close>

theorem fleet_of_one_owner:
  assumes "deviceInv s"
  shows "\<exists>groups. GetDeviceFleet (NewFleetComposer codec now) None s = GetDeviceFleet200 groups \<and>
    GetDeviceFleet (NewFleetComposer codec now) (Some i) s = GetDeviceFleet200 (filter (\<lambda>g. os_Id (og_Owner g) = i) groups)"
  using assms by (rule storeFleet.fleet_of_owner)

lemma deviceStore_user: "u_ID ` {u \<in> set (st_users deviceStore). u_DeletedAt u = None} = {1}"
proof -
  have "st_users deviceStore = [sampleUser]" "u_ID sampleUser = 1" "u_DeletedAt sampleUser = None" by (simp_all add: deviceStore_def sampleUser_def)
  then show ?thesis by (simp add: Collect_conv_if)
qed

theorem fleet_shows_every_device_witness:
  "\<exists>g. GetDeviceFleet (NewFleetComposer goCodec 0) None deviceStore = GetDeviceFleet200 [g] \<and> groupShows deviceStore g \<and> os_Id (og_Owner g) = 1"
proof -
  obtain groups where groups: "GetDeviceFleet (NewFleetComposer goCodec 0) None deviceStore = GetDeviceFleet200 groups"
    "distinct (map (\<lambda>g. os_Id (og_Owner g)) groups)" "set (map (\<lambda>g. os_Id (og_Owner g)) groups) = u_ID ` {u \<in> set (st_users deviceStore). u_DeletedAt u = None}"
    "list_all (groupShows deviceStore) groups"
    using fleet_shows_every_device[OF deviceStore_ok, of goCodec 0] by (elim exE conjE) (rule that; assumption)
  have "set (map (\<lambda>g. os_Id (og_Owner g)) groups) = {1}" "card (set (map (\<lambda>g. os_Id (og_Owner g)) groups)) = 1" using groups(3) deviceStore_user by simp_all
  then have "length groups = 1" using distinct_card[OF groups(2)] by simp
  then obtain g where "groups = [g]" by (cases groups) auto
  then show ?thesis using groups(1,4) \<open>set (map (\<lambda>g. os_Id (og_Owner g)) groups) = {1}\<close> by simp
qed

theorem fleet_of_one_owner_witness:
  "GetDeviceFleet (NewFleetComposer goCodec 0) (Some 7) deviceStore = GetDeviceFleet200 []"
proof -
  have "fst (Fleet (NewFleetComposer goCodec 0) None deviceStore) = Inr (map (ownerGroup (rulesOf goCodec deviceStore) (pairingsOf 0 deviceStore)
      (map (fleetEntry deviceStore) (shownDevices deviceStore))) (allSubjects deviceStore))"
    by (simp add: storeFleet.fleet_groups[OF deviceStore_ok])
  moreover have "7 \<notin> set (map sj_ID (allSubjects deviceStore))" unfolding allSubjects_users deviceStore_user by simp
  ultimately show ?thesis using fleet_of_one_owner[OF deviceStore_ok, of goCodec 0 7]
    by (auto simp: GetDeviceFleet_def ownerGroup_fields filter_empty_conv)
qed

end
