(* ===== verification/Spec2Isabelle.thy ===== *)
theory Spec2Isabelle
  imports Policy_Lifecycle Max_Addresses Auth_Access Pairing Access_Log_View Attribution Retention Posture Address_Tuning Fleet
begin

text \<open>
  Verification of PulseWeaver, a forward-auth service: a reverse proxy asks it for each request whether the
  client's address may reach the host. Devices report their addresses (heartbeats), users own devices and are
  granted groups of hosts, network policies grant hosts to ranges of addresses. All state is in a SQLite database; the
  decisions are taken from two caches in memory that follow it. File names below are relative to \<open>src/internal\<close>.

  \<^bold>\<open>Parts and theories.\<close>

  \<^item> \<open>Prelude\<close>, \<open>Go_Strings\<close>, \<open>Netip\<close>: shared vocabulary; the functions of Go's \<open>strings\<close> and \<open>net/netip\<close> that
    the program calls (parsing, printing, unmapping and masking of addresses), with the round trip of printing and parsing.
  \<^item> \<open>Slicex\<close> (\<open>slicex\<close>): \<open>Dedup\<close>, \<open>Intersect\<close>, \<open>Diff\<close>.
  \<^item> \<open>Store\<close> (\<open>database/db.go\<close> and the row types of all packages): the tables as lists of rows in the record \<open>store\<close>;
    an operation is a function from a store to a result and a store. \<open>withinTx\<close> is a transaction: it commits or
    leaves the store as it was. The locale \<open>transactor\<close> is the interface that services rely on.
  \<^item> \<open>Events\<close>: the events of the observers. A service call returns its result, the notices it sends and the store.
  \<^item> \<open>Hosts\<close> (\<open>hosts\<close>): names of hosts and groups, the two reconciliations, ignored suggestions.
  \<^item> \<open>Useraccess\<close> (\<open>useraccess\<close>): grants of users and the merged access that the cache loads.
  \<^item> \<open>Network_Policies\<close> (\<open>networkpolicies\<close>): ranges in normal form, the service, the feed of the cache.
  \<^item> \<open>Policy_Cache\<close>, \<open>Policy_Access\<close> (\<open>policy\<close>, parts of \<open>httpserver\<close> and \<open>config\<close>): both caches, decisions, the client's address,
    the forward-auth handler, decision events and the simulation. \<open>Policy_Lifecycle\<close> (\<open>policy/lifecycle.go\<close>): observers, refresh signal, listener and
    ticker as a step relation in which the queries of a refresh, the notices of calls and the transaction that deletes a user interleave.
  \<^item> \<open>Device_Repo\<close>, \<open>Devices\<close>, \<open>Device_Access\<close>, \<open>Device_Notices\<close> (\<open>device\<close>): devices, addresses and API keys; the queries, the service with its invariant,
    what the cache reads, and what each call announces.
  \<^item> \<open>Rules\<close> (\<open>rule\<close>), \<open>Leases\<close> (\<open>lease\<close>), \<open>Max_Addresses\<close> (\<open>maxaddr\<close>): rules of devices; leases that turn addresses off, the listener with its two
    channels and the expiry job; the limit on enabled addresses with its listener. Both listeners are step relations over
    worlds that hold the store, the channels and the notices that calls have yet to send.
  \<^item> \<open>Auth\<close>, \<open>Auth_Access\<close> (\<open>auth\<close>): accounts, sessions, roles and the middleware; the calls one after the other with principals that may be old.
  \<^item> \<open>Pairing\<close> (\<open>devicepairing\<close>): one-time codes that give an app its settings and a key.
  \<^item> \<open>Base64\<close>, \<open>Filterx\<close> (\<open>filterx\<close>, \<open>database/like.go\<close>): filters as SQL conditions with three-valued logic, patterns and their escaping, sort keys,
    cursors and the keyset predicate. \<open>Timebucket\<close> (\<open>timebucket\<close>): granularities and buckets. \<open>Grouping\<close>: \<open>GROUP BY\<close> and sums over groups.
  \<^item> \<open>Access_Log\<close> (\<open>accesslog/repository.go\<close>, \<open>accesslog/sink.go\<close>): the batch insert with its child rows, and the sink between the decisions and the
    table as a step function. \<open>Access_Log_View\<close> (\<open>accesslog/access_log_view.go\<close>, the histogram and the handlers): queries, pages with cursors, single entries, counts per bucket.
  \<^item> \<open>Rollup\<close>, \<open>Rollup_Reads\<close>, \<open>Attribution\<close> (\<open>rollup\<close>, \<open>accesslog/country_stats_view.go\<close>): the job that condenses the log by the hour, with catch-up, failures and
    restarts, and the figures of the dashboard, each from the log or from the aggregates. The locale \<open>rollup_cover\<close> is what both rollups share.
  \<^item> \<open>Retention\<close> (\<open>scheduler\<close>, the order of the jobs in \<open>app/app.go\<close>): the scheduler's passes and the pruning of old rows.
  \<^item> \<open>Suggestions\<close> (\<open>queries/host_suggestions.go\<close>), \<open>Policy_User_View\<close> (\<open>policy/policy_user_view.go\<close>, \<open>httpapi/geo.go\<close>), \<open>Posture\<close>
    (\<open>queries/dashboard_posture_view.go\<close>): hosts that were asked for and not granted, the audit of the cache by user, the summary of the dashboard.
  \<^item> \<open>Address_History\<close>, \<open>Address_Tuning\<close> (\<open>device/address_history_view.go\<close>, \<open>device/address_history_tuning_view.go\<close> and their handlers): the
    events of the addresses with kind and risk, as pages and as a histogram, and the ranking of leases that are too short.
  \<^item> \<open>Fleet\<close> (\<open>queries/fleet_view.go\<close>, \<open>useraccess/subject_view.go\<close>, \<open>device/fleet_view.go\<close>, \<open>rule/device_rules_view.go\<close>): owners with their devices, composed from four readers;
    the locale \<open>fleet_readers\<close> is the interface of the readers, interpreted on those of the store.

  \<^bold>\<open>What is shown.\<close> The decision: after a refresh \<open>Decide\<close> allows exactly the requests that the grants of every owner
  of the address allow, or for unregistered addresses the longest matching policy; the forward-auth answer
  to a request that is not early data fails closed; the simulation agrees with it; headers of peers that are not the proxy do not matter. The caches: the one-pass construction is the
  deny-wins intersection, independent of the order of rows and of the unstable sort; once nothing is pending every
  decision is that of the store, unless a refresh failed, a policy was created or a user deleted since, and a tick repairs the cache from any state of an idle listener. The data: operations keep the invariants of
  devices, hosts, policies, accounts and pairings, so every row that reaches the cache is of a live device with a canonical
  address; disabled or deleted devices and deleted users are out of it. Time: leases follow the addresses that are enabled and the listener catches up in a bounded number of moves, expiry and limit turn off
  exactly the right ones, and the bound from which a lifetime overflows. Access of people: only administrators ever hold a session, the super administrator stays, revoked
  tokens are dead. Pairing refines one slot per device.

  The log: a batch is stored whole or not at all and the sink puts every event that it took into exactly one batch; a filter means what its operator says, with missing values; following the
  cursors of a list gives every selected row exactly once; the buckets of a histogram cover the window and count exactly the selected rows. The aggregates: after any
  sequence of requests, jobs, failures and restarts the figures from the aggregates are those of the log, and retention changes none of them that
  the dashboard still shows, because it runs after the rollup. The views: the audit shows for every address and
  user the hosts that a decision would allow, the posture counts what the audit lists, the suggestions are exactly the hosts that
  were denied and are neither known nor ignored; a device is counted once per bucket, under its worst risk, and the test on the
  95th percentile is the test that more than one renewal in twenty was late, where no gap equals the lifetime. The fleet shows every device once, with as many live addresses as the cache
  has entries, and the page of one owner is a part of it.

  \<^bold>\<open>Choices.\<close> Strings are lists of bytes; letters are folded and spaces trimmed in ASCII only. Identifiers and instants are integers; instants count
  nanoseconds, \<open>sqlNow\<close> is \<open>CURRENT_TIMESTAMP\<close> in whole seconds, products of durations wrap around at 64 bits (\<open>wrap64\<close>). A call reads the clock
  once, as its argument \<open>now\<close>. Random bytes, SHA-256, bcrypt and the JSON of rule settings are arguments with named laws. All
  functions are total; loops are structural recursion over lists, except \<open>bucketsUpTo\<close>, which ends by a measure. The functions that follow the cursors of a
  list take a number of requests as fuel, and their theorems say how many are enough. The capacities of channels are the
  code's: 500 and 500 for leases, 500 and 100 for the limit, 1 for the refresh signal; an event that finds its channel full is dropped, which the worlds
  record. A failing driver appears in \<open>execTx\<close>, \<open>withinTxDriver\<close> and in the failing steps of the three listeners (\<open>failed\<close> of \<open>policyStep\<close>, \<open>leaseFailure\<close>, \<open>maxFailure\<close>), after which a lease or limit event
  counts as dropped; which statements of the rollup and of the retention job fail is an argument;
  elsewhere the database answers, and statements fail with the constraint violations and missing rows that the code handles.
  Notices of a call are sent after its commit and may overtake those of another call; the theorem on leases assumes that they do
  not, and \<open>lease_of_disabled_address\<close> shows why it has to. Only \<open>DeleteUser\<close> notifies before its commit; \<open>deleted_user_still_decides\<close> shows what this does to the cache,
  and the listeners of leases and limits are modelled without it. A call is one step for the other calls, also where the code reads before it opens its
  transaction (\<open>UpdateDevice\<close>, \<open>ReconcileHosts\<close>, \<open>ReconcileHostGroups\<close>) or uses several statements without one (\<open>CreateUser\<close>); the listeners and the refresh interleave by statement.
  The rollup of the attribution of a chunk happens whole or not at all, and the two reads of the rollup job before its loop answer.

  Of the database: the driver writes instants as text in UTC, which sorts like the instants; where \<open>ORDER BY\<close> leaves ties the rows keep the order of the table; the calendar of
  \<open>AddDate\<close> has days of 24 hours, as UTC has. The maps of Go whose order of iteration reaches an answer are association lists in the order of insertion, and the
  answers are sorted where the code sorts them. The theorems on aggregates assume that entries are written in the hour of their time; \<open>Rollup\<close> says where. The keys of the
  address events, SQLite's difference of two dates in seconds and the resolver of locations are arguments.

  \<^bold>\<open>Not modelled.\<close> The other read views (\<open>queries/user_view.go\<close>, \<open>device/address_view.go\<close>,
  \<open>networkpolicies/network_policy_view.go\<close>, \<open>hosts/host_group_view.go\<close>): projections of rows over the tables and joins that the theories above
  model, without logic of their own; the handlers that only map the errors of a service to HTTP codes, with the generated API types; GeoIP, a lookup in
  a third-party file that only decorates events; wiring, logging, health and static files; cancellation of contexts.
\<close>

end
